(* ===== verification/Miles_Prelude.thy ===== *)
theory Miles_Prelude
  imports Main "HOL-Library.Multiset" "HOL-Library.AList"
begin

text \<open>
  Shared vocabulary of the development.  It holds the Python exceptions the modelled code raises
  and the sequencing of fallible steps (\<open>rbind\<close>), the idioms of the source that several
  components use (chunking a range, the longest common prefix of two lists, the first index that
  satisfies a test, insertion-ordered dictionaries), and the lemmas on lists, sums and maps that
  the component theories share.  Facts about results are in \<open>result_simps\<close>, facts about
  insertion-ordered dictionaries in \<open>dict_simps\<close>.
\<close>

named_theorems result_simps
named_theorems dict_simps

section \<open>Results\<close>

text \<open>
  A fallible operation returns \<open>Inl\<close> of the exception or \<open>Inr\<close> of its value.  The texts of
  exception messages are not modelled: a constructor stands for the exception's class.
\<close>

datatype py_exn = AssertionError | ValueError | IndexError | KeyError | ZeroDivisionError | TypeError
  | NotImplementedError | AttributeError | OverflowError

fun rbind :: "'e + 'a \<Rightarrow> ('a \<Rightarrow> 'e + 'b) \<Rightarrow> 'e + 'b" where
  "rbind (Inl e) f = Inl e"
| "rbind (Inr x) f = f x"

definition guard :: "'e \<Rightarrow> bool \<Rightarrow> 'e + unit" where
  "guard e b = (if b then Inr () else Inl e)"

lemma rbind_Inr_iff [result_simps]: "rbind m f = Inr y \<longleftrightarrow> (\<exists>x. m = Inr x \<and> f x = Inr y)"
  by (cases m) auto

lemma rbind_Inl_iff [result_simps]:
  "rbind m f = Inl e \<longleftrightarrow> m = Inl e \<or> (\<exists>x. m = Inr x \<and> f x = Inl e)"
  by (cases m) auto

lemma guard_Inr_iff [result_simps]: "guard e b = Inr u \<longleftrightarrow> b"
  by (auto simp: guard_def)

lemma guard_Inl_iff [result_simps]: "guard e b = Inl e' \<longleftrightarrow> \<not> b \<and> e' = e"
  by (auto simp: guard_def)

lemma guard_simps [simp]: "guard e True = Inr ()" "guard e False = Inl e"
  by (simp_all add: guard_def)

text \<open>Mapping a fallible function over a list, left to right, stopping at the first error.\<close>

fun rmap :: "('a \<Rightarrow> 'e + 'b) \<Rightarrow> 'a list \<Rightarrow> 'e + 'b list" where
  "rmap f [] = Inr []"
| "rmap f (x # xs) = rbind (f x) (\<lambda>y. rbind (rmap f xs) (\<lambda>ys. Inr (y # ys)))"

lemma rmap_Inr_iff: "rmap f xs = Inr ys \<longleftrightarrow> list_all2 (\<lambda>x y. f x = Inr y) xs ys"
proof (induction xs arbitrary: ys)
  case Nil
  then show ?case by auto
next
  case (Cons x xs)
  then show ?case by (cases ys) (auto simp: result_simps)
qed

lemma rmap_length: "rmap f xs = Inr ys \<Longrightarrow> length ys = length xs"
  by (auto simp: rmap_Inr_iff dest: list_all2_lengthD)

text \<open>A left fold whose step may fail.\<close>

fun rfold :: "('a \<Rightarrow> 's \<Rightarrow> 'e + 's) \<Rightarrow> 'a list \<Rightarrow> 's \<Rightarrow> 'e + 's" where
  "rfold f [] s = Inr s"
| "rfold f (x # xs) s = rbind (f x s) (rfold f xs)"

lemma rfold_append: "rfold f (xs @ ys) s = rbind (rfold f xs s) (rfold f ys)"
proof (induction xs arbitrary: s)
  case (Cons x xs)
  show ?case by (cases "f x s") (auto simp: Cons.IH)
qed simp

lemma rfold_invariant:
  assumes "rfold f xs s = Inr t" and "I s"
    and "\<And>x s t. x \<in> set xs \<Longrightarrow> I s \<Longrightarrow> f x s = Inr t \<Longrightarrow> I t"
  shows "I t"
  using assms
proof (induction xs arbitrary: s)
  case (Cons x xs)
  from Cons.prems(1) obtain s1 where s1: "f x s = Inr s1" "rfold f xs s1 = Inr t"
    by (auto simp: result_simps)
  have "I s1" by (rule Cons.prems(3)[OF _ Cons.prems(2) s1(1)]) simp
  then show ?case using Cons.IH[OF s1(2)] Cons.prems(3) by auto
qed simp

section \<open>Lists\<close>

text \<open>\<open>[xs[i : i + k] for i in range(0, len(xs), k)]\<close>; a zero step raises in Python, so callers
  exclude it.\<close>

function chunks :: "nat \<Rightarrow> 'a list \<Rightarrow> 'a list list" where
  "chunks k xs = (if k = 0 \<or> xs = [] then [] else take k xs # chunks k (drop k xs))"
  by pat_completeness auto
termination
  by (relation "measure (\<lambda>(k, xs). length xs)") auto

declare chunks.simps [simp del]

lemma chunks_Nil [simp]: "chunks k [] = []"
  by (simp add: chunks.simps)

lemma concat_chunks [simp]: "0 < k \<Longrightarrow> concat (chunks k xs) = xs"
proof (induction k xs rule: chunks.induct)
  case (1 k xs)
  then show ?case by (cases "xs = []") (simp_all add: chunks.simps[of k xs])
qed

lemma chunks_nonempty: "c \<in> set (chunks k xs) \<Longrightarrow> c \<noteq> []"
proof (induction k xs rule: chunks.induct)
  case (1 k xs)
  then show ?case by (auto simp: chunks.simps[of k xs] split: if_splits)
qed

lemma chunks_length_le: "c \<in> set (chunks k xs) \<Longrightarrow> length c \<le> k"
proof (induction k xs rule: chunks.induct)
  case (1 k xs)
  then show ?case by (auto simp: chunks.simps[of k xs] split: if_splits)
qed

lemma chunks_full: "k dvd length xs \<Longrightarrow> c \<in> set (chunks k xs) \<Longrightarrow> length c = k"
proof (induction k xs rule: chunks.induct)
  case (1 k xs)
  show ?case
  proof (cases "k = 0 \<or> xs = []")
    case True
    with "1.prems" show ?thesis by (simp add: chunks.simps[of k xs])
  next
    case False
    then have le: "k \<le> length xs" using "1.prems"(1) by (auto dest: dvd_imp_le)
    with "1.prems"(1) have "k dvd length (drop k xs)" by (simp add: dvd_diff_nat)
    with 1 False le show ?thesis by (auto simp: chunks.simps[of k xs])
  qed
qed

lemma length_chunks_dvd: "0 < k \<Longrightarrow> k dvd length xs \<Longrightarrow> length (chunks k xs) = length xs div k"
proof (induction k xs rule: chunks.induct)
  case (1 k xs)
  show ?case
  proof (cases "xs = []")
    case False
    then have le: "k \<le> length xs" using "1.prems" by (auto dest: dvd_imp_le)
    with "1.prems" have d: "k dvd length (drop k xs)" by (simp add: dvd_diff_nat)
    have "length (chunks k xs) = Suc ((length xs - k) div k)"
      using 1 False d by (simp add: chunks.simps[of k xs])
    also have "\<dots> = length xs div k" using le "1.prems"(1) by (simp add: le_div_geq)
    finally show ?thesis .
  qed simp
qed

text \<open>The first position of a list whose element satisfies a test: the \<open>for ... if ...: break\<close>
  idiom.\<close>

fun find_index :: "('a \<Rightarrow> bool) \<Rightarrow> 'a list \<Rightarrow> nat option" where
  "find_index P [] = None"
| "find_index P (x # xs) = (if P x then Some 0 else map_option Suc (find_index P xs))"

lemma find_index_None_iff: "find_index P xs = None \<longleftrightarrow> (\<forall>x \<in> set xs. \<not> P x)"
  by (induction xs) auto

lemma find_index_SomeD:
  "find_index P xs = Some j \<Longrightarrow> j < length xs \<and> P (xs ! j) \<and> (\<forall>i < j. \<not> P (xs ! i))"
proof (induction xs arbitrary: j)
  case (Cons x xs)
  show ?case
  proof (cases "P x")
    case False
    with Cons.prems obtain m where m: "find_index P xs = Some m" "j = Suc m" by auto
    with Cons.IH[OF m(1)] False show ?thesis by (auto simp: nth_Cons' split: if_splits)
  qed (use Cons.prems in auto)
qed simp

text \<open>Length of the longest common prefix under a matching predicate.\<close>

fun match_len :: "('a \<Rightarrow> 'b \<Rightarrow> bool) \<Rightarrow> 'a list \<Rightarrow> 'b list \<Rightarrow> nat" where
  "match_len R (x # xs) (y # ys) = (if R x y then Suc (match_len R xs ys) else 0)"
| "match_len R _ _ = 0"

lemma match_len_le: "match_len R xs ys \<le> length xs" "match_len R xs ys \<le> length ys"
  by (induction R xs ys rule: match_len.induct) auto

lemma match_len_prefix: "i < match_len R xs ys \<Longrightarrow> R (xs ! i) (ys ! i)"
proof (induction R xs ys arbitrary: i rule: match_len.induct)
  case (1 R x xs y ys)
  then show ?case by (cases i) (auto split: if_splits)
qed auto

lemma match_len_take: "list_all2 R (take (match_len R xs ys) xs) (take (match_len R xs ys) ys)"
  by (induction R xs ys rule: match_len.induct) auto

lemma match_len_maximal:
  "match_len R xs ys < length xs \<Longrightarrow> match_len R xs ys < length ys \<Longrightarrow>
   \<not> R (xs ! match_len R xs ys) (ys ! match_len R xs ys)"
  by (induction R xs ys rule: match_len.induct) (auto split: if_splits)

lemma match_len_full_iff:
  "match_len R xs ys = length xs \<longleftrightarrow> length xs \<le> length ys \<and> list_all2 R xs (take (length xs) ys)"
  by (induction R xs ys rule: match_len.induct) auto

lemma match_len_ge: "list_all2 R xs us \<Longrightarrow> length xs \<le> match_len R (xs @ zs) (us @ vs)"
  by (induction rule: list_all2_induct) auto

lemma take_eq_appendD: "take n xs = ys \<Longrightarrow> \<exists>zs. xs = ys @ zs"
  by (metis append_take_drop_id)

lemma sum_list_mset_cong: "mset xs = mset ys \<Longrightarrow> sum_list xs = (sum_list ys :: 'a::comm_monoid_add)"
  by (metis sum_mset_sum_list)

lemma mset_concat_update:
  "j < length xss \<Longrightarrow> mset (concat (xss[j := ys])) + mset (xss ! j) = mset (concat xss) + mset ys"
proof (induction xss arbitrary: j)
  case (Cons x xss)
  then show ?case by (cases j) (auto simp: add.commute add.left_commute)
qed simp

lemma sum_list_map_sublist_le:
  fixes f :: "'a \<Rightarrow> 'w::linordered_idom"
  assumes "mset ys \<subseteq># mset xs" and "\<And>x. x \<in> set xs \<Longrightarrow> 0 \<le> f x"
  shows "sum_list (map f ys) \<le> sum_list (map f xs)"
proof -
  from assms(1) obtain zs where zs: "mset xs = mset ys + zs" by (metis subset_mset.le_iff_add)
  obtain l where l: "mset l = zs" by (metis ex_mset)
  have perm: "mset xs = mset (ys @ l)" using zs l by simp
  then have "mset (map f xs) = mset (map f (ys @ l))" by (metis mset_map)
  then have "sum_list (map f xs) = sum_list (map f (ys @ l))" by (rule sum_list_mset_cong)
  moreover have "set l \<subseteq> set xs" using mset_eq_setD[OF perm] by auto
  then have "0 \<le> sum_list (map f l)" using assms(2) by (auto intro!: sum_list_nonneg simp: subset_eq)
  ultimately show ?thesis by simp
qed

section \<open>Insertion-ordered dictionaries\<close>

text \<open>
  A Python dict whose iteration order matters is an association list with distinct keys.
  \<open>AList.update\<close> replaces the value of a present key in place and appends a new key at the end,
  as assignment does; \<open>AList.delete\<close> removes a key.
\<close>

abbreviation dict_ok :: "('k \<times> 'v) list \<Rightarrow> bool" where
  "dict_ok d \<equiv> distinct (map fst d)"

declare delete_id [simp del]

lemma map_of_update [dict_simps]: "map_of (AList.update k v d) = (map_of d)(k \<mapsto> v)"
  by (simp add: update_conv')

lemma map_of_delete [dict_simps]: "map_of (AList.delete k d) = (map_of d)(k := None)"
  by (simp add: delete_conv')

lemma dict_ok_update [dict_simps]: "dict_ok d \<Longrightarrow> dict_ok (AList.update k v d)"
  by (rule distinct_update)

lemma dict_ok_delete [dict_simps]: "dict_ok d \<Longrightarrow> dict_ok (AList.delete k d)"
  by (rule distinct_delete)

lemma update_fresh: "k \<notin> fst ` set d \<Longrightarrow> AList.update k v d = d @ [(k, v)]"
  by (induction d) auto

lemma map_of_None_fst: "map_of d k = None \<longleftrightarrow> k \<notin> fst ` set d"
  by (simp add: map_of_eq_None_iff)

end
