(* ===== verification/Seqlen_Balancing.thy ===== *)
theory Seqlen_Balancing
  imports Miles_Prelude "HOL-Library.List_Lexorder" "HOL-Library.Product_Lexorder"
begin

text \<open>
  \<^verbatim>\<open>miles/utils/seqlen_balancing.py\<close>: partitioning sequences over ranks and micro-batches.
  The Karmarkar-Karp differencing method on a binary heap, the greedy fallback, first-fit bin
  packing (arrival order and decreasing), and growing a set of bins by splitting the largest.
  Lengths live in an arbitrary ordered integral domain, so the theorems cover token counts as well
  as exact workload weights; indices are \<open>nat\<close>.
\<close>

section \<open>The standard library's heap queue\<close>

text \<open>
  \<open>heapq\<close> over a Python list, for a class that defines only \<open>__lt__\<close>.  CPython moves a hole
  and writes the item back at the end; the same list results from swapping along the path.
\<close>

definition swap :: "'a list \<Rightarrow> nat \<Rightarrow> nat \<Rightarrow> 'a list" where
  "swap h i j = h[i := h ! j, j := h ! i]"

function siftdown :: "('a \<Rightarrow> 'a \<Rightarrow> bool) \<Rightarrow> 'a list \<Rightarrow> nat \<Rightarrow> 'a list" where
  "siftdown lt h pos =
     (if 0 < pos \<and> lt (h ! pos) (h ! ((pos - 1) div 2))
      then siftdown lt (swap h pos ((pos - 1) div 2)) ((pos - 1) div 2) else h)"
  by pat_completeness auto
termination
  by (relation "measure (\<lambda>(lt, h, pos). pos)") auto

text \<open>\<open>_siftup\<close> moves the hole to a leaf, always towards the smaller child, and then sifts down.\<close>

function siftup :: "('a \<Rightarrow> 'a \<Rightarrow> bool) \<Rightarrow> 'a list \<Rightarrow> nat \<Rightarrow> 'a list" where
  "siftup lt h pos =
     (if 2 * pos + 1 < length h
      then let child = (if 2 * pos + 2 < length h \<and> \<not> lt (h ! (2 * pos + 1)) (h ! (2 * pos + 2))
                        then 2 * pos + 2 else 2 * pos + 1)
           in siftup lt (swap h pos child) child
      else siftdown lt h pos)"
  by pat_completeness auto
termination
  by (relation "measure (\<lambda>(lt, h, pos). length h - pos)") (auto simp: swap_def Let_def)

declare siftdown.simps [simp del] siftup.simps [simp del]

definition heappush :: "('a \<Rightarrow> 'a \<Rightarrow> bool) \<Rightarrow> 'a \<Rightarrow> 'a list \<Rightarrow> 'a list" where
  "heappush lt x h = siftdown lt (h @ [x]) (length h)"

definition heappop :: "('a \<Rightarrow> 'a \<Rightarrow> bool) \<Rightarrow> 'a list \<Rightarrow> 'a \<times> 'a list" where
  "heappop lt h =
     (let lastelt = last h; rest = butlast h
      in if rest = [] then (lastelt, []) else (hd rest, siftup lt (rest[0 := lastelt]) 0))"

lemma mset_swap_heap: "i < length h \<Longrightarrow> j < length h \<Longrightarrow> mset (swap h i j) = mset h"
  unfolding swap_def by (rule mset_swap)

lemma length_swap [simp]: "length (swap h i j) = length h"
  by (simp add: swap_def)

lemma mset_siftdown: "pos < length h \<Longrightarrow> mset (siftdown lt h pos) = mset h"
proof (induction lt h pos rule: siftdown.induct)
  case (1 lt h pos)
  then show ?case by (auto simp: siftdown.simps[of lt h pos] mset_swap_heap)
qed

lemma mset_siftup: "pos < length h \<Longrightarrow> mset (siftup lt h pos) = mset h"
proof (induction lt h pos rule: siftup.induct)
  case (1 lt h pos)
  then show ?case
    by (auto simp: siftup.simps[of lt h pos] Let_def mset_swap_heap mset_siftdown)
qed

text \<open>What the partitioning code relies on: a push adds one element, a pop removes one.\<close>

locale prio_queue =
  fixes push :: "'a \<Rightarrow> 'a list \<Rightarrow> 'a list"
    and pop :: "'a list \<Rightarrow> 'a \<times> 'a list"
  assumes mset_push: "mset (push x h) = add_mset x (mset h)"
    and mset_pop: "h \<noteq> [] \<Longrightarrow> mset h = add_mset (fst (pop h)) (mset (snd (pop h)))"
begin

lemma length_push: "length (push x h) = Suc (length h)"
  by (metis mset_push size_add_mset size_mset)

lemma length_pop: "h \<noteq> [] \<Longrightarrow> length h = Suc (length (snd (pop h)))"
  by (metis mset_pop size_add_mset size_mset)

lemma set_push: "set (push x h) = insert x (set h)"
  by (metis mset_push set_mset_add_mset_insert set_mset_mset)

lemma pop_in: "h \<noteq> [] \<Longrightarrow> fst (pop h) \<in> set h"
  by (metis mset_pop set_mset_mset union_single_eq_member)

lemma pop_rest: "h \<noteq> [] \<Longrightarrow> set (snd (pop h)) \<subseteq> set h"
  by (metis mset_pop set_mset_add_mset_insert set_mset_mset subset_insertI)

lemma push_not_Nil: "push x h \<noteq> []"
  using length_push[of x h] by auto

end

interpretation hq: prio_queue "heappush lt" "heappop lt" for lt
proof
  fix x :: 'a and h :: "'a list"
  show "mset (heappush lt x h) = add_mset x (mset h)"
    by (simp add: heappush_def mset_siftdown)
  assume h: "h \<noteq> []"
  then obtain r y where hy: "h = r @ [y]" by (metis append_butlast_last_id)
  show "mset h = add_mset (fst (heappop lt h)) (mset (snd (heappop lt h)))"
    by (cases r) (simp_all add: hy heappop_def Let_def mset_siftup)
qed

section \<open>Karmarkar-Karp\<close>

text \<open>\<open>class Set\<close>: a running sum and the items in insertion order.\<close>

record 'w kset =
  ks_sum :: 'w
  ks_items :: "(nat \<times> 'w) list"

definition kset_empty :: "'w::linordered_idom kset" where
  "kset_empty = \<lparr>ks_sum = 0, ks_items = []\<rparr>"

definition kset_add :: "nat \<Rightarrow> 'w::linordered_idom \<Rightarrow> 'w kset \<Rightarrow> 'w kset" where
  "kset_add idx val s = s\<lparr>ks_items := ks_items s @ [(idx, val)], ks_sum := ks_sum s + val\<rparr>"

definition kset_merge :: "'w::linordered_idom kset \<Rightarrow> 'w kset \<Rightarrow> 'w kset" where
  "kset_merge s other = fold (\<lambda>(idx, val) s. kset_add idx val s) (ks_items other) s"

text \<open>\<open>Set.__lt__\<close> compares sums, then item counts, then the items: a lexicographic key.\<close>

definition kset_key :: "'w::linordered_idom kset \<Rightarrow> 'w \<times> nat \<times> (nat \<times> 'w) list" where
  "kset_key s = (ks_sum s, length (ks_items s), ks_items s)"

definition kset_lt :: "'w::linordered_idom kset \<Rightarrow> 'w kset \<Rightarrow> bool" where
  "kset_lt s t = (kset_key s < kset_key t)"

text \<open>\<open>sorted(sets, reverse=True)\<close>: descending and stable.\<close>

definition sort_desc :: "'w::linordered_idom kset list \<Rightarrow> 'w kset list" where
  "sort_desc sets = rev (sort_key kset_key (rev sets))"

text \<open>\<open>class State\<close>: its \<open>k\<close> is the number of its sets.\<close>

type_synonym 'w kstate = "'w kset list"

definition kstate_init :: "(nat \<times> 'w::linordered_idom) list \<Rightarrow> nat \<Rightarrow> py_exn + 'w kstate" where
  "kstate_init items k =
     (if length items \<noteq> 1 \<and> length items \<noteq> k then Inl AssertionError
      else if k < length items then Inl IndexError
      else Inr (sort_desc (map (\<lambda>(idx, seqlen). kset_add idx seqlen kset_empty) items
                           @ replicate (k - length items) kset_empty)))"

definition kstate_partitions :: "'w kstate \<Rightarrow> nat list list" where
  "kstate_partitions st = map (\<lambda>s. map fst (ks_items s)) st"

definition kstate_merge :: "'w::linordered_idom kstate \<Rightarrow> 'w kstate \<Rightarrow> 'w kstate" where
  "kstate_merge st other = sort_desc (map2 kset_merge st (rev other))"

definition kstate_spread :: "'w::linordered_idom kstate \<Rightarrow> 'w" where
  "kstate_spread st = ks_sum (hd st) - ks_sum (last st)"

definition kstate_lt :: "'w::linordered_idom kstate \<Rightarrow> 'w kstate \<Rightarrow> bool" where
  "kstate_lt a b =
     (if kstate_spread a \<noteq> kstate_spread b then kstate_spread b < kstate_spread a
      else kset_lt (hd b) (hd a))"

lemma kk_pop_two:
  assumes "1 < length h" and "heappop lt h = (a, h1)" and "heappop lt h1 = (b, h2)"
  shows "mset h = {#a, b#} + mset h2" and "length h = Suc (Suc (length h2))"
proof -
  have "h \<noteq> []" using assms(1) by auto
  then have m: "mset h = add_mset a (mset h1)" using hq.mset_pop[of h lt] assms(2) by simp
  then have "length h = Suc (length h1)" by (metis size_add_mset size_mset)
  with assms(1) have "h1 \<noteq> []" by auto
  then have m1: "mset h1 = add_mset b (mset h2)" using hq.mset_pop[of h1 lt] assms(3) by simp
  from m m1 show "mset h = {#a, b#} + mset h2" by simp
  then show "length h = Suc (Suc (length h2))" by (metis size_mset size_union size_add_mset
        size_empty add_Suc add_0)
qed

text \<open>\<open>while len(states_pq) > 1\<close>: pop two states, merge the second into the first, push.\<close>

function kk_loop :: "'w::linordered_idom kstate list \<Rightarrow> 'w kstate list" where
  "kk_loop h =
     (if 1 < length h
      then let (state0, h1) = heappop kstate_lt h; (state1, h2) = heappop kstate_lt h1
           in kk_loop (heappush kstate_lt (kstate_merge state0 state1) h2)
      else h)"
  by pat_completeness auto

termination
proof (relation "measure length")
  fix h :: "'a kstate list" and x a h1 y b h2
  assume *: "1 < length h" "x = heappop kstate_lt h" "(a, h1) = x" "y = heappop kstate_lt h1"
    "(b, h2) = y"
  then have "length h = Suc (Suc (length h2))" using kk_pop_two(2)[of h kstate_lt a h1 b h2] by simp
  then show "(heappush kstate_lt (kstate_merge a b) h2, h) \<in> measure length"
    by (simp add: hq.length_push)
qed simp

declare kk_loop.simps [simp del]

definition karmarkar_karp ::
  "'w::linordered_idom list \<Rightarrow> nat \<Rightarrow> bool \<Rightarrow> py_exn + nat list list" where
  "karmarkar_karp seqlens k equal_size =
     (let sorted_seqlens = sort (zip seqlens [0..<length seqlens]);
          flip = map (\<lambda>(seqlen, idx). (idx, seqlen));
          initial =
            (if equal_size
             then if k = 0 then Inl ZeroDivisionError
                  else if length seqlens mod k \<noteq> 0 then Inl AssertionError
                  else rmap (\<lambda>items. kstate_init (flip items) k) (chunks k sorted_seqlens)
             else rmap (\<lambda>item. kstate_init (flip [item]) k) sorted_seqlens)
      in rbind initial (\<lambda>states.
           case kk_loop (fold (heappush kstate_lt) states []) of
             [] \<Rightarrow> Inl IndexError
           | final # _ \<Rightarrow>
               let partitions = kstate_partitions final
               in if equal_size \<and> (\<exists>p \<in> set partitions. length p * k \<noteq> length seqlens)
                  then Inl AssertionError else Inr partitions))"

subsection \<open>Sets and states\<close>

definition kset_wf :: "'w::linordered_idom kset \<Rightarrow> bool" where
  "kset_wf s \<longleftrightarrow> ks_sum s = sum_list (map snd (ks_items s)) \<and> (\<forall>v \<in> snd ` set (ks_items s). 0 \<le> v)"

lemma kset_merge_unfold:
  "kset_merge s t = s\<lparr>ks_sum := ks_sum s + sum_list (map snd (ks_items t)),
                      ks_items := ks_items s @ ks_items t\<rparr>"
proof -
  have "fold (\<lambda>(idx, val) s. kset_add idx val s) l s =
      s\<lparr>ks_sum := ks_sum s + sum_list (map snd l), ks_items := ks_items s @ l\<rparr>" for l
    by (induction l arbitrary: s) (auto simp: kset_add_def algebra_simps)
  then show ?thesis by (simp add: kset_merge_def)
qed

lemma kset_merge_sel [simp]:
  "ks_items (kset_merge s t) = ks_items s @ ks_items t"
  "ks_sum (kset_merge s t) = ks_sum s + sum_list (map snd (ks_items t))"
  by (simp_all add: kset_merge_unfold)

lemma kset_wf_merge: "kset_wf s \<Longrightarrow> kset_wf t \<Longrightarrow> kset_wf (kset_merge s t)"
  by (auto simp: kset_wf_def)

lemma kset_wf_nonneg: "kset_wf s \<Longrightarrow> 0 \<le> ks_sum s"
  by (auto simp: kset_wf_def intro!: sum_list_nonneg)

lemma mset_sort_desc [simp]: "mset (sort_desc xs) = mset xs"
  by (simp add: sort_desc_def)

lemma set_sort_desc [simp]: "set (sort_desc xs) = set xs"
  by (metis mset_sort_desc set_mset_mset)

lemma length_sort_desc [simp]: "length (sort_desc xs) = length xs"
  by (metis mset_sort_desc size_mset)

lemma sort_desc_order:
  assumes "i \<le> j" and "j < length (sort_desc xs)"
  shows "kset_key (sort_desc xs ! j) \<le> kset_key (sort_desc xs ! i)"
proof -
  let ?s = "map kset_key (sort_key kset_key (rev xs))"
  have s: "sorted ?s" by simp
  have len: "length ?s = length xs" by simp
  have "?s ! (length xs - Suc j) \<le> ?s ! (length xs - Suc i)"
    using assms by (intro sorted_nth_mono[OF s]) auto
  then show ?thesis using assms by (simp add: sort_desc_def rev_nth)
qed

lemma kset_key_le_sum: "kset_key s \<le> kset_key t \<Longrightarrow> ks_sum s \<le> ks_sum t"
  by (auto simp: kset_key_def less_eq_prod_def)

lemma kset_key_empty:
  assumes "kset_wf s" and "kset_key s \<le> kset_key t" and "ks_items t = []" and "kset_wf t"
  shows "ks_items s = []"
proof -
  have t: "kset_key t = (0, 0, [])" using assms(3,4) by (simp add: kset_key_def kset_wf_def)
  have "\<not> kset_key s < (0, 0, [])" if "ks_items s \<noteq> []"
    using that kset_wf_nonneg[OF assms(1)] by (auto simp: kset_key_def less_prod_def)
  moreover have "kset_key s \<noteq> (0, 0, [])" if "ks_items s \<noteq> []"
    using that by (auto simp: kset_key_def)
  ultimately show ?thesis using assms(2) t by (auto simp: order_le_less)
qed

text \<open>A state carries a well-formed descending list of \<open>k\<close> sets.\<close>

definition kstate_ok :: "nat \<Rightarrow> 'w::linordered_idom kstate \<Rightarrow> bool" where
  "kstate_ok k st \<longleftrightarrow> length st = k \<and> (\<forall>s \<in> set st. kset_wf s) \<and>
     (\<forall>i j. i \<le> j \<longrightarrow> j < k \<longrightarrow> kset_key (st ! j) \<le> kset_key (st ! i))"

definition kstate_items :: "'w kstate \<Rightarrow> (nat \<times> 'w) multiset" where
  "kstate_items st = mset (concat (map ks_items st))"

lemma kstate_ok_sort_desc:
  "length xs = k \<Longrightarrow> (\<And>s. s \<in> set xs \<Longrightarrow> kset_wf s) \<Longrightarrow> kstate_ok k (sort_desc xs)"
  by (simp add: kstate_ok_def sort_desc_order)

lemma in_map2_iff: "length xs = length ys \<Longrightarrow>
    z \<in> set (map2 f xs ys) \<longleftrightarrow> (\<exists>i < length xs. z = f (xs ! i) (ys ! i))"
  unfolding set_map set_zip by (force simp: image_iff)

lemma kstate_merge_ok: "kstate_ok k a \<Longrightarrow> kstate_ok k b \<Longrightarrow> kstate_ok k (kstate_merge a b)"
  unfolding kstate_merge_def
proof (rule kstate_ok_sort_desc)
  fix s assume ok: "kstate_ok k a" "kstate_ok k b" and "s \<in> set (map2 kset_merge a (rev b))"
  moreover have len: "length a = length (rev b)" using ok by (simp add: kstate_ok_def)
  ultimately obtain i where i: "i < length a" and s: "s = kset_merge (a ! i) (rev b ! i)"
    using in_map2_iff[OF len, of s kset_merge] by auto
  have "a ! i \<in> set a" "rev b ! i \<in> set b" using i len nth_mem[of i "rev b"] by simp_all
  with ok show "kset_wf s" by (auto simp: s kstate_ok_def intro: kset_wf_merge)
qed (auto simp: kstate_ok_def)

lemma kstate_items_mset: "kstate_items st = (\<Sum>s \<in># mset st. mset (ks_items s))"
  by (induction st) (auto simp: kstate_items_def)

lemma kstate_merge_items:
  assumes "length a = length b"
  shows "kstate_items (kstate_merge a b) = kstate_items a + kstate_items b"
proof -
  have map2: "(\<Sum>s \<in># mset (map2 kset_merge xs ys). mset (ks_items s))
      = (\<Sum>s \<in># mset xs. mset (ks_items s)) + (\<Sum>s \<in># mset ys. mset (ks_items s))"
    if "length xs = length ys" for xs ys :: "'w::linordered_idom kstate"
    using that by (induction xs ys rule: list_induct2) (auto simp: algebra_simps)
  have "kstate_items (kstate_merge a b) = (\<Sum>s \<in># mset (map2 kset_merge a (rev b)). mset (ks_items s))"
    by (simp add: kstate_items_mset kstate_merge_def del: map2_map_map)
  also have "\<dots> = kstate_items a + kstate_items b"
    using assms by (subst map2) (auto simp: kstate_items_mset)
  finally show ?thesis .
qed

text \<open>The sets of a state differ in sum by at most \<open>M\<close>; merging keeps the bound.\<close>

definition kstate_balanced :: "'w \<Rightarrow> 'w::linordered_idom kstate \<Rightarrow> bool" where
  "kstate_balanced M st \<longleftrightarrow> (\<forall>s \<in> set st. \<forall>t \<in> set st. ks_sum s - ks_sum t \<le> M)"

lemma kstate_merge_balanced:
  assumes "kstate_ok k a" "kstate_ok k b" "kstate_balanced M a" "kstate_balanced M b"
  shows "kstate_balanced M (kstate_merge a b)"
proof -
  have len: "length a = k" "length b = k" using assms by (auto simp: kstate_ok_def)
  let ?A = "\<lambda>i. ks_sum (a ! i)" and ?B = "\<lambda>i. ks_sum (b ! i)"
  have mono: "i \<le> j \<Longrightarrow> j < k \<Longrightarrow> ?A j \<le> ?A i" "i \<le> j \<Longrightarrow> j < k \<Longrightarrow> ?B j \<le> ?B i" for i j
    using assms(1,2) by (auto simp: kstate_ok_def intro: kset_key_le_sum)
  have bal: "?A i - ?A j \<le> M" "?B i - ?B j \<le> M" if "i < k" "j < k" for i j
    using assms(3,4) that len by (auto simp: kstate_balanced_def)
  have sums: "ks_sum (kset_merge (a ! i) (rev b ! i)) = ?A i + ?B (k - Suc i)" if "i < k" for i
    using assms(2) that len by (simp add: rev_nth kstate_ok_def kset_wf_def)
  have "ks_sum s - ks_sum t \<le> M"
    if "s \<in> set (map2 kset_merge a (rev b))" "t \<in> set (map2 kset_merge a (rev b))" for s t
  proof -
    from that len obtain i j where ij: "i < k" "j < k" and
      s: "s = kset_merge (a ! i) (rev b ! i)" and t: "t = kset_merge (a ! j) (rev b ! j)"
      using in_map2_iff[of a "rev b" s kset_merge] in_map2_iff[of a "rev b" t kset_merge] by auto
    have d: "ks_sum s - ks_sum t = (?A i - ?A j) + (?B (k - Suc i) - ?B (k - Suc j))"
      unfolding s t sums[OF ij(1)] sums[OF ij(2)] by (simp add: algebra_simps)
    show ?thesis
    proof (cases "i \<le> j")
      case True
      then have "?B (k - Suc i) \<le> ?B (k - Suc j)" using ij by (intro mono(2)) auto
      then show ?thesis using d bal(1)[of i j] ij by linarith
    next
      case False
      then have "?A i \<le> ?A j" using ij by (intro mono(1)) auto
      then show ?thesis using d bal(2)[of "k - Suc i" "k - Suc j"] ij by linarith
    qed
  qed
  then show ?thesis by (simp add: kstate_balanced_def kstate_merge_def)
qed

text \<open>The sets that hold an item are the first \<open>min k n\<close> of a state with \<open>n\<close> items.\<close>

definition kset_used :: "'w kset \<Rightarrow> bool" where
  "kset_used s \<longleftrightarrow> ks_items s \<noteq> []"

definition kstate_spreads :: "'w kstate \<Rightarrow> bool" where
  "kstate_spreads st \<longleftrightarrow> length (filter kset_used st) = min (length st) (size (kstate_items st))"

lemma prefix_filter_iff:
  assumes "\<And>i j. i \<le> j \<Longrightarrow> j < length xs \<Longrightarrow> P (xs ! j) \<Longrightarrow> P (xs ! i)" and "i < length xs"
  shows "P (xs ! i) \<longleftrightarrow> i < length (filter P xs)"
  using assms
proof (induction xs arbitrary: i)
  case (Cons x xs)
  have mono: "P (xs ! i)" if "i \<le> j" "j < length xs" "P (xs ! j)" for i j
    using Cons.prems(1)[of "Suc i" "Suc j"] that by simp
  show ?case
  proof (cases "P x")
    case True
    then show ?thesis using Cons.IH[OF mono] Cons.prems(2) by (cases i) auto
  next
    case False
    then have none: "\<not> P ((x # xs) ! m)" if "m < Suc (length xs)" for m
      using Cons.prems(1)[of 0 m] that by auto
    then have "filter P (x # xs) = []"
      using none[of 0] none[of "Suc m" for m] by (fastforce simp: filter_empty_conv in_set_conv_nth)
    then show ?thesis using none Cons.prems(2) by simp
  qed
qed simp

lemma kstate_used_iff:
  assumes "kstate_ok k st" and "kstate_spreads st" and "i < k"
  shows "kset_used (st ! i) \<longleftrightarrow> i < size (kstate_items st)"
proof -
  have len: "length st = k" using assms(1) by (simp add: kstate_ok_def)
  have "kset_used (st ! i) \<longleftrightarrow> i < length (filter kset_used st)"
  proof (rule prefix_filter_iff)
    fix i j assume "i \<le> j" "j < length st" "kset_used (st ! j)"
    then show "kset_used (st ! i)"
      using assms(1) len kset_key_empty[of "st ! j" "st ! i"]
      by (auto simp: kstate_ok_def kset_used_def)
  qed (use assms(3) len in simp)
  then show ?thesis using assms(2,3) len by (simp add: kstate_spreads_def)
qed

lemma size_kstate_items_eq: "kstate_items st = mset l \<Longrightarrow> size (kstate_items st) = length l"
  by simp

lemma kstate_merge_spreads:
  assumes ok: "kstate_ok k a" "kstate_ok k b" and sp: "kstate_spreads a" "kstate_spreads b"
  shows "kstate_spreads (kstate_merge a b)"
proof -
  let ?na = "size (kstate_items a)" and ?nb = "size (kstate_items b)"
  let ?m = "map2 kset_merge a (rev b)"
  have len: "length a = k" "length b = k" using ok by (auto simp: kstate_ok_def)
  have used: "kset_used (?m ! i) \<longleftrightarrow> i < ?na \<or> k - Suc i < ?nb" if "i < k" for i
  proof -
    have "kset_used (?m ! i) \<longleftrightarrow> kset_used (a ! i) \<or> kset_used (b ! (k - Suc i))"
      using that len by (simp add: kset_used_def rev_nth del: map2_map_map)
    then show ?thesis
      using kstate_used_iff[OF ok(1) sp(1) that] kstate_used_iff[OF ok(2) sp(2), of "k - Suc i"] that
      by simp
  qed
  have "length (filter (\<lambda>s. \<not> kset_used s) ?m) = card {i. i < k \<and> \<not> kset_used (?m ! i)}"
    using len by (simp add: length_filter_conv_card del: map2_map_map)
  also have "{i. i < k \<and> \<not> kset_used (?m ! i)} = {?na..<k - ?nb}"
    using used by (auto simp del: map2_map_map)
  finally have "length (filter (\<lambda>s. \<not> kset_used s) ?m) = k - ?nb - ?na" by simp
  moreover have "length (filter kset_used ?m) + length (filter (\<lambda>s. \<not> kset_used s) ?m) = k"
    using sum_length_filter_compl[of kset_used ?m] len by simp
  ultimately have "length (filter kset_used ?m) = min k (?na + ?nb)" by linarith
  moreover have "length (filter kset_used (sort_desc ?m)) = length (filter kset_used ?m)"
    by (metis mset_filter mset_sort_desc size_mset)
  ultimately show ?thesis
    using len by (simp add: kstate_spreads_def kstate_merge_items[OF len(1)[folded len(2)]]
        del: map2_map_map) (simp add: kstate_merge_def del: map2_map_map)
qed


subsection \<open>The loop and its result\<close>

text \<open>An invariant that merging keeps, with a quantity that merging adds up, describes the last state.\<close>

lemma kk_loop_final:
  fixes f :: "'w::linordered_idom kstate \<Rightarrow> 'c::comm_monoid_add"
  assumes "h \<noteq> []" and "\<forall>st \<in> set h. P st"
    and P: "\<And>a b. P a \<Longrightarrow> P b \<Longrightarrow> P (kstate_merge a b)"
    and f: "\<And>a b. P a \<Longrightarrow> P b \<Longrightarrow> f (kstate_merge a b) = f a + f b"
  shows "\<exists>st. kk_loop h = [st] \<and> P st \<and> f st = (\<Sum>x \<in># mset h. f x)"
  using assms(1,2)
proof (induction h rule: kk_loop.induct)
  case (1 h)
  show ?case
  proof (cases "1 < length h")
    case True
    obtain a h1 where p1: "heappop kstate_lt h = (a, h1)" by (metis surj_pair)
    obtain b h2 where p2: "heappop kstate_lt h1 = (b, h2)" by (metis surj_pair)
    let ?h' = "heappush kstate_lt (kstate_merge a b) h2"
    have m: "mset h = {#a, b#} + mset h2" by (rule kk_pop_two(1)[OF True p1 p2])
    then have set_h: "set h = {a, b} \<union> set h2" by (metis set_mset_mset set_mset_union
          set_mset_add_mset_insert set_mset_empty)
    have m': "mset ?h' = add_mset (kstate_merge a b) (mset h2)" by (rule hq.mset_push)
    have "\<forall>st \<in> set ?h'. P st" using "1.prems"(2) set_h P by (auto simp: hq.set_push)
    with "1.IH"[OF True p1[symmetric] refl p2[symmetric] refl hq.push_not_Nil]
    obtain st where "kk_loop ?h' = [st]" "P st" "f st = (\<Sum>x \<in># mset ?h'. f x)" by blast
    moreover have "kk_loop h = kk_loop ?h'" using True p1 p2 by (subst kk_loop.simps) simp
    moreover have "f (kstate_merge a b) = f a + f b" using "1.prems"(2) set_h by (intro f) auto
    ultimately show ?thesis using m m' by (simp add: add.assoc)
  next
    case False
    with "1.prems"(1) obtain st where "h = [st]" by (cases h) auto
    with "1.prems"(2) show ?thesis by (simp add: kk_loop.simps)
  qed
qed

lemma heap_of_states:
  "mset (fold (heappush lt) xs h) = mset xs + mset h"
  by (induction xs arbitrary: h) (simp_all add: hq.mset_push)

text \<open>The state built from a group of items.\<close>

lemma kstate_init_Inr:
  assumes "length items = 1 \<or> length items = k" and "length items \<le> k"
  shows "\<exists>st. kstate_init items k = Inr st"
  using assms by (auto simp: kstate_init_def)

lemma kset_add_empty_sel [simp]:
  "ks_items (kset_add i v kset_empty) = [(i, v)]" "ks_sum (kset_add i v kset_empty) = v"
  by (simp_all add: kset_add_def kset_empty_def)

lemma kset_empty_sel [simp]: "ks_items kset_empty = []" "ks_sum kset_empty = 0"
  by (simp_all add: kset_empty_def)

lemma kstate_init_ok:
  assumes "kstate_init items k = Inr st" and "\<And>i v. (i, v) \<in> set items \<Longrightarrow> 0 \<le> v"
  shows "kstate_ok k st"
  using assms
  by (auto simp: kstate_init_def kset_wf_def intro!: kstate_ok_sort_desc split: if_splits)

lemma kstate_init_items: "kstate_init items k = Inr st \<Longrightarrow> kstate_items st = mset items"
proof -
  assume *: "kstate_init items k = Inr st"
  have "(\<Sum>s \<in># mset (map (\<lambda>(idx, v). kset_add idx v kset_empty) l). mset (ks_items s)) = mset l"
    for l :: "(nat \<times> 'a) list"
    by (induction l) auto
  then show ?thesis
    using * by (auto simp: kstate_init_def kstate_items_mset split: if_splits)
qed

lemma kstate_init_spreads:
  assumes "kstate_init items k = Inr st"
  shows "kstate_spreads st"
proof -
  from assms have len: "length items \<le> k" by (auto simp: kstate_init_def split: if_splits)
  let ?l = "map (\<lambda>(idx, v). kset_add idx v kset_empty) items @ replicate (k - length items) kset_empty"
  from assms have st: "st = sort_desc ?l" by (auto simp: kstate_init_def split: if_splits)
  have "length (filter kset_used st) = length (filter kset_used ?l)"
    unfolding st by (metis mset_filter mset_sort_desc size_mset)
  also have "\<dots> = length items"
    by (simp add: kset_used_def filter_replicate comp_def case_prod_beta)
  finally show ?thesis
    using len st kstate_init_items[OF assms] by (simp add: kstate_spreads_def)
qed

lemma kstate_init_balanced:
  assumes "kstate_init items k = Inr st" and "\<And>i v. (i, v) \<in> set items \<Longrightarrow> 0 \<le> v \<and> v \<le> M"
    and "0 \<le> M"
  shows "kstate_balanced M st"
proof -
  have "0 \<le> ks_sum s \<and> ks_sum s \<le> M" if "s \<in> set st" for s
    using that assms by (auto simp: kstate_init_def split: if_splits)
  then show ?thesis unfolding kstate_balanced_def
    by (metis diff_0_right diff_mono)
qed

text \<open>Under \<open>equal_size\<close> all sets of a state hold the same number of items.\<close>

definition kstate_even :: "'w kstate \<Rightarrow> bool" where
  "kstate_even st \<longleftrightarrow> (\<exists>c. \<forall>s \<in> set st. length (ks_items s) = c)"

lemma kstate_merge_even:
  "length a = length b \<Longrightarrow> kstate_even a \<Longrightarrow> kstate_even b \<Longrightarrow> kstate_even (kstate_merge a b)"
  unfolding kstate_even_def
proof (elim exE)
  fix c d assume len: "length a = length b"
    and c: "\<forall>s \<in> set a. length (ks_items s) = c" and d: "\<forall>s \<in> set b. length (ks_items s) = d"
  have "length (ks_items s) = c + d" if "s \<in> set (kstate_merge a b)" for s
  proof -
    from that have "s \<in> set (map2 kset_merge a (rev b))" by (simp add: kstate_merge_def)
    then obtain i where "i < length a" "s = kset_merge (a ! i) (rev b ! i)"
      using in_map2_iff[of a "rev b" s kset_merge] len by auto
    then show ?thesis using len c d nth_mem[of i "rev b"] by simp
  qed
  then show "\<exists>c. \<forall>s \<in> set (kstate_merge a b). length (ks_items s) = c" by blast
qed

lemma kstate_init_even: "kstate_init items k = Inr st \<Longrightarrow> length items = k \<Longrightarrow> kstate_even st"
  by (auto simp: kstate_init_def kstate_even_def split: if_splits intro!: exI[of _ 1])

lemma kstate_even_length:
  assumes "kstate_even st" and "s \<in> set st"
  shows "length (ks_items s) * length st = size (kstate_items st)"
proof -
  from assms obtain c where c: "\<forall>s \<in> set st. length (ks_items s) = c" by (auto simp: kstate_even_def)
  then have "size (kstate_items st) = c * length st"
    by (induction st) (auto simp: kstate_items_def)
  with c assms(2) show ?thesis by simp
qed

subsection \<open>What the partitions are\<close>

definition part_sum :: "'w::linordered_idom list \<Rightarrow> nat list \<Rightarrow> 'w" where
  "part_sum lens p = sum_list (map ((!) lens) p)"

text \<open>A result covers every index exactly once.\<close>

definition covers :: "nat \<Rightarrow> nat list list \<Rightarrow> bool" where
  "covers n parts \<longleftrightarrow> mset (concat parts) = mset [0..<n]"

text \<open>No two parts differ in total length by more than \<open>M\<close>.\<close>

definition within_spread :: "'w::linordered_idom list \<Rightarrow> 'w \<Rightarrow> nat list list \<Rightarrow> bool" where
  "within_spread lens M parts \<longleftrightarrow>
     (\<forall>p \<in> set parts. \<forall>q \<in> set parts. part_sum lens p - part_sum lens q \<le> M)"

lemma rmap_kstate_items:
  "rmap (\<lambda>g. kstate_init (fl g) k) gs = Inr states \<Longrightarrow>
     (\<Sum>st \<in># mset states. kstate_items st) = mset (concat (map fl gs))"
proof (induction gs arbitrary: states)
  case (Cons g gs)
  then show ?case by (auto simp: result_simps kstate_init_items)
qed simp

lemma rmap_all:
  assumes "rmap f gs = Inr states" and "\<And>g st. g \<in> set gs \<Longrightarrow> f g = Inr st \<Longrightarrow> P st"
  shows "\<forall>st \<in> set states. P st"
  using assms
proof (induction gs arbitrary: states)
  case (Cons g gs)
  then obtain st sts where "f g = Inr st" "rmap f gs = Inr sts" "states = st # sts"
    by (auto simp: result_simps)
  with Cons.IH[of sts] Cons.prems(2) show ?case by (metis list.set_intros set_ConsD)
qed simp

lemma rmap_total: "(\<And>g. g \<in> set gs \<Longrightarrow> \<exists>st. f g = Inr st) \<Longrightarrow> \<exists>states. rmap f gs = Inr states"
proof (induction gs)
  case (Cons g gs)
  obtain st where "f g = Inr st" using Cons.prems[of g] by auto
  moreover obtain sts where "rmap f gs = Inr sts" using Cons.IH Cons.prems by auto
  ultimately show ?case by simp
qed simp

abbreviation flip_items :: "('w \<times> nat) list \<Rightarrow> (nat \<times> 'w) list" where
  "flip_items \<equiv> map (\<lambda>(seqlen, idx). (idx, seqlen))"

lemma flip_sorted_items:
  fixes seqlens :: "'w::linordered_idom list"
  shows "mset (flip_items (sort (zip seqlens [0..<length seqlens]))) = mset (zip [0..<length seqlens] seqlens)"
proof -
  have "mset (flip_items (sort (zip seqlens [0..<length seqlens])))
      = image_mset (\<lambda>(l, i). (i, l)) (mset (zip seqlens [0..<length seqlens]))" by simp
  also have "\<dots> = mset (map (\<lambda>(l, i). (i, l)) (zip seqlens [0..<length seqlens]))" by simp
  also have "map (\<lambda>(l, i). (i, l)) (zip seqlens [0..<length seqlens]) = zip [0..<length seqlens] seqlens"
    by (rule nth_equalityI) auto
  finally show ?thesis .
qed

lemma items_bounded:
  assumes "\<And>l. l \<in> set seqlens \<Longrightarrow> 0 \<le> l \<and> l \<le> M"
    and "(i, v) \<in># mset (zip [0..<length seqlens] seqlens)"
  shows "0 \<le> v \<and> v \<le> (M :: 'w::linordered_idom)"
  using assms by (auto dest: set_zip_rightD)

text \<open>Every group of the initial heap, in both modes.\<close>

definition kk_groups :: "'w::linordered_idom list \<Rightarrow> nat \<Rightarrow> bool \<Rightarrow> ('w \<times> nat) list list" where
  "kk_groups seqlens k equal_size =
     (let s = sort (zip seqlens [0..<length seqlens])
      in if equal_size then chunks k s else map (\<lambda>x. [x]) s)"

lemma rmap_map: "rmap f (map g xs) = rmap (\<lambda>x. f (g x)) xs"
  by (induction xs) auto

lemma karmarkar_karp_unfold:
  assumes "0 < k" and "equal_size \<Longrightarrow> k dvd length seqlens"
  shows "karmarkar_karp seqlens k equal_size =
    rbind (rmap (\<lambda>g. kstate_init (flip_items g) k) (kk_groups seqlens k equal_size)) (\<lambda>states.
      case kk_loop (fold (heappush kstate_lt) states []) of
        [] \<Rightarrow> Inl IndexError
      | final # _ \<Rightarrow>
          if equal_size \<and> (\<exists>p \<in> set (kstate_partitions final). length p * k \<noteq> length seqlens)
          then Inl AssertionError else Inr (kstate_partitions final))"
proof (cases equal_size)
  case True
  with assms have "length seqlens mod k = 0" by simp
  then show ?thesis using assms(1) True unfolding karmarkar_karp_def kk_groups_def Let_def by simp
next
  case False
  then show ?thesis unfolding karmarkar_karp_def kk_groups_def Let_def by (simp add: rmap_map)
qed

lemma concat_kk_groups:
  "0 < k \<Longrightarrow> concat (kk_groups seqlens k eq) = sort (zip seqlens [0..<length seqlens])"
  by (simp add: kk_groups_def Let_def)

lemma kk_group_length:
  assumes "0 < k" and "eq \<Longrightarrow> k dvd length seqlens" and "g \<in> set (kk_groups seqlens k eq)"
  shows "length g = (if eq then k else 1)"
proof (cases eq)
  case True
  with assms have "k dvd length (sort (zip seqlens [0..<length seqlens]))" by simp
  from chunks_full[OF this] show ?thesis using assms(3) True by (simp add: kk_groups_def Let_def)
qed (use assms(3) in \<open>auto simp: kk_groups_def Let_def\<close>)

lemma karmarkar_karp_state:
  fixes seqlens :: "'w::linordered_idom list"
  assumes k: "0 < k" and ne: "seqlens \<noteq> []" and dvd: "equal_size \<Longrightarrow> k dvd length seqlens"
    and bnd: "\<And>l. l \<in> set seqlens \<Longrightarrow> 0 \<le> l \<and> l \<le> M"
  shows "\<exists>st. karmarkar_karp seqlens k equal_size = Inr (kstate_partitions st) \<and> kstate_ok k st \<and>
     kstate_spreads st \<and> kstate_balanced M st \<and> (equal_size \<longrightarrow> kstate_even st) \<and>
     kstate_items st = mset (zip [0..<length seqlens] seqlens)"
proof -
  let ?gs = "kk_groups seqlens k equal_size"
  define P where "P st \<longleftrightarrow> kstate_ok k st \<and> kstate_spreads st \<and> kstate_balanced M st \<and>
     (equal_size \<longrightarrow> kstate_even st)" for st :: "'w kstate"
  have len_g: "length g = (if equal_size then k else 1)" if "g \<in> set ?gs" for g
    using kk_group_length[OF k dvd that] .
  have M0: "0 \<le> M" using ne bnd[of "hd seqlens"] by (cases seqlens) auto
  have items: "0 \<le> v \<and> v \<le> M" if "g \<in> set ?gs" "(i, v) \<in> set (flip_items g)" for g i v
  proof -
    have "(v, i) \<in> set (concat ?gs)" using that by auto
    then have "(v, i) \<in> set (zip seqlens [0..<length seqlens])" by (simp add: concat_kk_groups[OF k])
    then show ?thesis using bnd by (auto dest: set_zip_leftD)
  qed
  obtain states where st: "rmap (\<lambda>g. kstate_init (flip_items g) k) ?gs = Inr states"
    using rmap_total[of ?gs "\<lambda>g. kstate_init (flip_items g) k"] kstate_init_Inr len_g k
    by (metis length_map less_eq_Suc_le One_nat_def order_refl)
  have Pst: "\<forall>s \<in> set states. P s"
  proof (rule rmap_all[OF st])
    fix g s assume "g \<in> set ?gs" and i: "kstate_init (flip_items g) k = Inr s"
    then show "P s" unfolding P_def
      using kstate_init_ok[OF i] kstate_init_spreads[OF i] kstate_init_balanced[OF i _ M0]
        kstate_init_even[OF i] items len_g by auto
  qed
  have merge: "P (kstate_merge a b)" if "P a" "P b" for a b
  proof -
    have ok: "kstate_ok k a" "kstate_ok k b" using that by (auto simp: P_def)
    then have "length a = length b" by (simp add: kstate_ok_def)
    then show ?thesis using that kstate_merge_ok[OF ok] kstate_merge_spreads[OF ok]
        kstate_merge_balanced[OF ok] kstate_merge_even[of a b] by (auto simp: P_def)
  qed
  have add: "kstate_items (kstate_merge a b) = kstate_items a + kstate_items b" if "P a" "P b" for a b
    using that by (intro kstate_merge_items) (simp add: P_def kstate_ok_def)
  let ?h = "fold (heappush kstate_lt) states []"
  have mh: "mset ?h = mset states" by (simp add: heap_of_states)
  have "?gs \<noteq> []" using concat_kk_groups[OF k, of seqlens equal_size] ne by (metis concat.simps(1)
        length_0_conv length_sort length_zip length_upt min.idem diff_zero)
  then have "states \<noteq> []" using rmap_length[OF st] by auto
  then have "?h \<noteq> []" using mh by auto
  moreover have "\<forall>s \<in> set ?h. P s" using Pst mh by (metis set_mset_mset)
  ultimately obtain fin where fin: "kk_loop ?h = [fin]" "P fin"
      "kstate_items fin = (\<Sum>x \<in># mset ?h. kstate_items x)"
    using kk_loop_final[of ?h P kstate_items, OF _ _ merge add] by blast
  have "mset (concat (map flip_items ?gs)) = mset (flip_items (concat ?gs))" by (simp add: map_concat)
  then have total: "kstate_items fin = mset (zip [0..<length seqlens] seqlens)"
    using fin(3) mh rmap_kstate_items[OF st] flip_sorted_items[of seqlens] concat_kk_groups[OF k]
    by metis
  have "length p * k = length seqlens" if "equal_size" "p \<in> set (kstate_partitions fin)" for p
    using that kstate_even_length[of fin] fin(2) total
    by (auto simp: kstate_partitions_def P_def kstate_ok_def)
  then have "karmarkar_karp seqlens k equal_size = Inr (kstate_partitions fin)"
    by (auto simp: karmarkar_karp_unfold[OF k dvd] st fin(1))
  then show ?thesis using fin(2) total by (auto simp: P_def)
qed

lemma kstate_partition_sum:
  assumes "kstate_ok k st" and "kstate_items st = mset (zip [0..<length lens] lens)" and "s \<in> set st"
  shows "part_sum lens (map fst (ks_items s)) = ks_sum s"
proof -
  have "v = lens ! i" if "(i, v) \<in> set (ks_items s)" for i v
  proof -
    have "(i, v) \<in> set (concat (map ks_items st))" using that assms(3) by auto
    then have "(i, v) \<in> set (zip [0..<length lens] lens)"
      using assms(2) unfolding kstate_items_def by (metis set_mset_mset)
    then show ?thesis by (auto simp: in_set_zip)
  qed
  then have "map ((!) lens) (map fst (ks_items s)) = map snd (ks_items s)" by auto
  then show ?thesis using assms(1,3)
    unfolding part_sum_def by (simp add: kstate_ok_def kset_wf_def del: map_map)
qed

lemma kstate_partitions_covers:
  assumes "kstate_items st = mset (zip [0..<length lens] lens)"
  shows "covers (length lens) (kstate_partitions st)"
proof -
  have "mset (concat (kstate_partitions st)) = image_mset fst (kstate_items st)"
    by (simp add: kstate_partitions_def kstate_items_def map_concat comp_def flip: mset_map)
  also have "\<dots> = mset (map fst (zip [0..<length lens] lens))" unfolding assms mset_map ..
  finally show ?thesis by (simp add: covers_def)
qed

lemma karmarkar_karp_correct:
  fixes seqlens :: "'w::linordered_idom list"
  assumes k: "0 < k" and ne: "seqlens \<noteq> []" and dvd: "equal_size \<Longrightarrow> k dvd length seqlens"
    and bnd: "\<And>l. l \<in> set seqlens \<Longrightarrow> 0 \<le> l \<and> l \<le> M"
  shows "\<exists>parts. karmarkar_karp seqlens k equal_size = Inr parts \<and> length parts = k \<and>
     covers (length seqlens) parts \<and> within_spread seqlens M parts \<and>
     (k \<le> length seqlens \<longrightarrow> [] \<notin> set parts) \<and>
     (equal_size \<longrightarrow> (\<forall>p \<in> set parts. length p * k = length seqlens))"
proof -
  obtain st where kk: "karmarkar_karp seqlens k equal_size = Inr (kstate_partitions st)"
    and ok: "kstate_ok k st" and sp: "kstate_spreads st" and bal: "kstate_balanced M st"
    and even: "equal_size \<longrightarrow> kstate_even st"
    and items: "kstate_items st = mset (zip [0..<length seqlens] seqlens)"
    using karmarkar_karp_state[OF k ne dvd bnd] by blast
  have len: "length st = k" using ok by (simp add: kstate_ok_def)
  have "within_spread seqlens M (kstate_partitions st)"
    using bal kstate_partition_sum[OF ok items]
    by (auto simp: within_spread_def kstate_partitions_def kstate_balanced_def)
  moreover have "[] \<notin> set (kstate_partitions st)" if "k \<le> length seqlens"
  proof
    assume "[] \<in> set (kstate_partitions st)"
    then obtain i where "i < k" "\<not> kset_used (st ! i)"
      using len by (auto simp: kstate_partitions_def kset_used_def in_set_conv_nth)
    then show False using kstate_used_iff[OF ok sp] that by (simp add: items)
  qed
  moreover have "length p * k = length seqlens" if "equal_size" "p \<in> set (kstate_partitions st)" for p
    using that even kstate_even_length[of st] len by (auto simp: kstate_partitions_def items)
  ultimately show ?thesis
    using kk kstate_partitions_covers[OF items] len by (auto simp: kstate_partitions_def)
qed

section \<open>get_seqlen_balanced_partitions\<close>

text \<open>\<open>_check_and_sort_partitions\<close>: the caller's sanity checks, then each part in index order.\<close>

definition check_and_sort_partitions :: "nat \<Rightarrow> nat \<Rightarrow> nat list list \<Rightarrow> py_exn + nat list list" where
  "check_and_sort_partitions n k partitions =
     (if length partitions \<noteq> k then Inl AssertionError
      else if [] \<in> set partitions then Inl AssertionError
      else if set (concat partitions) \<noteq> set [0..<n] then Inl AssertionError
      else Inr (map sort partitions))"

definition get_seqlen_balanced_partitions ::
  "'w::linordered_idom list \<Rightarrow> nat \<Rightarrow> bool \<Rightarrow> py_exn + nat list list" where
  "get_seqlen_balanced_partitions seqlens k equal_size =
     (if length seqlens < k then Inl AssertionError
      else rbind (karmarkar_karp seqlens k equal_size)
             (check_and_sort_partitions (length seqlens) k))"

lemma part_sum_mset_cong: "mset p = mset q \<Longrightarrow> part_sum lens p = part_sum lens q"
  unfolding part_sum_def by (rule sum_list_mset_cong) simp

lemma part_sum_sort [simp]: "part_sum lens (sort p) = part_sum lens p"
  by (rule part_sum_mset_cong) simp

lemma sort_eq_Nil_iff [simp]: "sort p = [] \<longleftrightarrow> p = []"
  by (metis length_0_conv length_sort)

lemma covers_map_sort [simp]: "covers n (map sort parts) = covers n parts"
proof -
  have "mset (concat (map sort parts)) = mset (concat parts)"
    by (induction parts) auto
  then show ?thesis by (simp add: covers_def)
qed

lemma covers_set: "covers n parts \<Longrightarrow> set (concat parts) = set [0..<n]"
  unfolding covers_def by (rule mset_eq_setD)

lemma get_seqlen_partitions_ok:
  fixes seqlens :: "'w::linordered_idom list"
  assumes k: "0 < k" "k \<le> length seqlens" and dvd: "equal_size \<Longrightarrow> k dvd length seqlens"
    and bnd: "\<And>l. l \<in> set seqlens \<Longrightarrow> 0 \<le> l \<and> l \<le> M"
  shows "\<exists>parts. get_seqlen_balanced_partitions seqlens k equal_size = Inr parts \<and> length parts = k \<and>
     covers (length seqlens) parts \<and> within_spread seqlens M parts \<and>
     (\<forall>p \<in> set parts. p \<noteq> [] \<and> sorted p) \<and>
     (equal_size \<longrightarrow> (\<forall>p \<in> set parts. length p * k = length seqlens))"
proof -
  have ne: "seqlens \<noteq> []" using k by auto
  obtain parts where kk: "karmarkar_karp seqlens k equal_size = Inr parts" and len: "length parts = k"
    and cov: "covers (length seqlens) parts" and sp: "within_spread seqlens M parts"
    and used: "[] \<notin> set parts" and even: "equal_size \<longrightarrow> (\<forall>p \<in> set parts. length p * k = length seqlens)"
    using karmarkar_karp_correct[OF k(1) ne dvd bnd] k(2) by blast
  have "get_seqlen_balanced_partitions seqlens k equal_size = Inr (map sort parts)"
    using k(2) len used covers_set[OF cov]
    by (simp add: get_seqlen_balanced_partitions_def kk check_and_sort_partitions_def)
  moreover have "within_spread seqlens M (map sort parts)"
    using sp by (simp add: within_spread_def)
  ultimately show ?thesis using len cov used even by (auto intro!: exI[of _ "map sort parts"])
qed

text \<open>
  C30.  For nonnegative lengths (at least one per part, and a multiple of the part count where equal
  sizes are asked for) \<open>get_seqlen_balanced_partitions\<close> never fails an assertion: it returns
  \<open>k\<close> non-empty index lists in increasing order that hold every sequence exactly once, whose total
  lengths differ by at most the longest sequence, and that have equally many members under
  \<open>equal_size\<close>.
\<close>

theorem get_seqlen_balanced_partitions_correct:
  fixes seqlens :: "'w::linordered_idom list"
  assumes "0 < k" "k \<le> length seqlens" and "equal_size \<Longrightarrow> k dvd length seqlens"
    and nonneg: "\<forall>l \<in> set seqlens. 0 \<le> l"
  shows "\<exists>parts. get_seqlen_balanced_partitions seqlens k equal_size = Inr parts \<and> length parts = k \<and>
     covers (length seqlens) parts \<and> within_spread seqlens (Max (set seqlens)) parts \<and>
     (\<forall>p \<in> set parts. p \<noteq> [] \<and> sorted p) \<and>
     (equal_size \<longrightarrow> (\<forall>p \<in> set parts. length p * k = length seqlens))"
proof (rule get_seqlen_partitions_ok[OF assms(1-3)])
  fix l assume "l \<in> set seqlens"
  then show "0 \<le> l \<and> l \<le> Max (set seqlens)" using nonneg by simp
qed

theorem get_seqlen_balanced_partitions_witness:
  "\<exists>parts. get_seqlen_balanced_partitions [7, 1, 4, 4 :: int] 2 True = Inr parts \<and> length parts = 2 \<and>
     covers (length [7, 1, 4, 4 :: int]) parts \<and> within_spread [7, 1, 4, 4 :: int] 7 parts"
  using get_seqlen_balanced_partitions_correct[of 2 "[7, 1, 4, 4 :: int]" True] by auto

section \<open>The greedy partitioner\<close>

text \<open>The first index with the least sum.\<close>

fun argmin_from :: "'w::linordered_idom list \<Rightarrow> nat \<Rightarrow> nat \<Rightarrow> 'w \<Rightarrow> nat" where
  "argmin_from [] j best least = best"
| "argmin_from (s # sums) j best least =
     (if s < least then argmin_from sums (Suc j) j s else argmin_from sums (Suc j) best least)"

definition argmin :: "'w::linordered_idom list \<Rightarrow> nat" where
  "argmin sums = argmin_from (tl sums) 1 0 (hd sums)"

definition greedy_step :: "'w::linordered_idom \<times> nat \<Rightarrow> nat list list \<times> 'w list \<Rightarrow> nat list list \<times> 'w list"
  where
  "greedy_step = (\<lambda>(seqlen, i) (partitions, sums).
     let j = argmin sums in (partitions[j := partitions ! j @ [i]], sums[j := sums ! j + seqlen]))"

text \<open>With no partition at all, the first item indexes an empty list with \<open>None\<close>.\<close>

definition greedy_partition ::
  "'w::linordered_idom list \<Rightarrow> nat \<Rightarrow> bool \<Rightarrow> py_exn + nat list list" where
  "greedy_partition seqlens k equal_size =
     (let bias = (if equal_size then sum_list seqlens + 1 else 0);
          sorted_seqlen = zip (map (\<lambda>l. l + bias) seqlens) [0..<length seqlens];
          partitions = fst (fold greedy_step sorted_seqlen (replicate k [], replicate k 0))
      in if k = 0 \<and> seqlens \<noteq> [] then Inl TypeError
         else if equal_size \<and> (\<exists>p \<in> set partitions. length p * k \<noteq> length seqlens)
              then Inl AssertionError else Inr partitions)"

lemma argmin_from_lt: "best < j \<Longrightarrow> argmin_from sums j best least < j + length sums"
proof (induction sums arbitrary: j best least)
  case (Cons s sums)
  show ?case using Cons.IH[of j "Suc j" s] Cons.IH[of best "Suc j" least] Cons.prems by auto
qed simp

lemma argmin_lt: "sums \<noteq> [] \<Longrightarrow> argmin sums < length sums"
  using argmin_from_lt[of 0 1 "tl sums" "hd sums"] by (cases sums) (auto simp: argmin_def)

lemma greedy_fold_inv:
  assumes "length ps = k" and "length sums = k" and "0 < k"
  shows "length (fst (fold greedy_step xs (ps, sums))) = k \<and>
    mset (concat (fst (fold greedy_step xs (ps, sums)))) = mset (concat ps) + mset (map snd xs)"
  using assms
proof (induction xs arbitrary: ps sums)
  case (Cons x xs)
  obtain l i where x: "x = (l, i)" by (cases x)
  let ?j = "argmin sums"
  have "sums \<noteq> []" using Cons.prems by auto
  from argmin_lt[OF this] have j: "?j < length ps" using Cons.prems by simp
  have "mset (concat (ps[?j := ps ! ?j @ [i]])) = add_mset i (mset (concat ps))"
    using mset_concat_update[OF j, of "ps ! ?j @ [i]"] by (simp add: add.commute)
  then show ?case using Cons.IH[of "ps[?j := ps ! ?j @ [i]]" "sums[?j := sums ! ?j + l]"] Cons.prems
    by (simp add: greedy_step_def x Let_def)
qed simp

theorem greedy_partition_covers:
  assumes "greedy_partition seqlens k equal_size = Inr parts" and "0 < k"
  shows "length parts = k \<and> covers (length seqlens) parts"
proof -
  let ?xs = "zip (map (\<lambda>l. l + (if equal_size then sum_list seqlens + 1 else 0)) seqlens) [0..<length seqlens]"
  have "map snd ?xs = [0..<length seqlens]" by simp
  moreover have "parts = fst (fold greedy_step ?xs (replicate k [], replicate k 0))"
    using assms by (simp add: greedy_partition_def Let_def split: if_splits)
  ultimately show ?thesis
    using greedy_fold_inv[of "replicate k []" k "replicate k 0" ?xs] assms(2) by (simp add: covers_def)
qed

section \<open>First-fit packing\<close>

text \<open>The inner loop returns the first bin the sample fits, the \<open>else\<close> of the \<open>for\<close> opens one.\<close>

fun first_fit_step :: "'w::linordered_idom list \<Rightarrow> 'w \<Rightarrow> nat \<Rightarrow> nat list list \<times> 'w list \<Rightarrow> nat list list \<times> 'w list"
  where
  "first_fit_step total_lengths cap idx (bins, bin_sums) =
     (let l = total_lengths ! idx
      in case find_index (\<lambda>s. s + l \<le> cap) bin_sums of
           Some j \<Rightarrow> (bins[j := bins ! j @ [idx]], bin_sums[j := bin_sums ! j + l])
         | None \<Rightarrow> (bins @ [[idx]], bin_sums @ [l]))"

definition first_fit :: "nat list \<Rightarrow> 'w::linordered_idom list \<Rightarrow> 'w \<Rightarrow> nat list list" where
  "first_fit order total_lengths cap = fst (fold (first_fit_step total_lengths cap) order ([], []))"

definition first_fit_pack :: "'w::linordered_idom list \<Rightarrow> 'w \<Rightarrow> nat list list" where
  "first_fit_pack total_lengths cap = first_fit [0..<length total_lengths] total_lengths cap"

definition first_fit_decreasing_pack :: "'w::linordered_idom list \<Rightarrow> 'w \<Rightarrow> nat list list" where
  "first_fit_decreasing_pack total_lengths cap =
     first_fit (sort_key (\<lambda>i. - total_lengths ! i) [0..<length total_lengths]) total_lengths cap"

text \<open>The state of the packing loop: the running sums are the bins' sums, no bin is empty, a bin
  over the cap is a lone sample, and no later bin would have fitted an earlier one.\<close>

definition packing_ok :: "'w::linordered_idom list \<Rightarrow> 'w \<Rightarrow> nat list list \<times> 'w list \<Rightarrow> bool" where
  "packing_ok lens cap bs \<longleftrightarrow>
     snd bs = map (part_sum lens) (fst bs) \<and> [] \<notin> set (fst bs) \<and>
     (\<forall>b \<in> set (fst bs). part_sum lens b \<le> cap \<or> length b = 1) \<and>
     (\<forall>i j. i < j \<longrightarrow> j < length (fst bs) \<longrightarrow> cap < snd bs ! i + lens ! hd (fst bs ! j))"

lemma part_sum_append [simp]: "part_sum lens (p @ q) = part_sum lens p + part_sum lens q"
  by (simp add: part_sum_def)

lemma part_sum_simps [simp]: "part_sum lens [] = 0" "part_sum lens (i # p) = lens ! i + part_sum lens p"
  by (simp_all add: part_sum_def)

lemma first_fit_step_ok:
  assumes ok: "packing_ok lens cap bs" and pos: "0 \<le> lens ! idx"
  shows "packing_ok lens cap (first_fit_step lens cap idx bs)"
proof -
  obtain bins sums where bs: "bs = (bins, sums)" by (cases bs)
  let ?l = "lens ! idx"
  have sums: "sums = map (part_sum lens) bins" and ne: "[] \<notin> set bins"
    and cap: "\<forall>b \<in> set bins. part_sum lens b \<le> cap \<or> length b = 1"
    and later: "\<And>i j. i < j \<Longrightarrow> j < length bins \<Longrightarrow> cap < sums ! i + lens ! hd (bins ! j)"
    using ok by (auto simp: packing_ok_def bs)
  show ?thesis
  proof (cases "find_index (\<lambda>s. s + ?l \<le> cap) sums")
    case None
    then have no: "\<forall>s \<in> set sums. cap < s + ?l" by (auto simp: find_index_None_iff)
    have "packing_ok lens cap (bins @ [[idx]], sums @ [?l])"
      unfolding packing_ok_def
    proof (intro conjI allI impI)
      fix i j assume ij: "i < j" "j < length (fst (bins @ [[idx]], sums @ [?l]))"
      show "cap < snd (bins @ [[idx]], sums @ [?l]) ! i + lens ! hd (fst (bins @ [[idx]], sums @ [?l]) ! j)"
        using ij later[of i j] no nth_mem[of i sums] by (auto simp: nth_append sums less_Suc_eq)
    qed (use sums ne cap in auto)
    then show ?thesis by (simp add: bs None)
  next
    case (Some k)
    from find_index_SomeD[OF this] have k: "k < length bins" and fits: "sums ! k + ?l \<le> cap"
      by (auto simp: sums)
    let ?b = "bins[k := bins ! k @ [idx]]" and ?s = "sums[k := sums ! k + ?l]"
    have kne: "bins ! k \<noteq> []" using k ne nth_mem by metis
    have hd: "hd (?b ! j) = hd (bins ! j)" if "j < length bins" for j
      using that kne by (cases "j = k") (auto simp: hd_append)
    have mono: "sums ! i \<le> ?s ! i" if "i < length bins" for i
      using that pos by (cases "i = k") (auto simp: sums)
    have "packing_ok lens cap (?b, ?s)"
      unfolding packing_ok_def
    proof (intro conjI allI impI)
      show "snd (?b, ?s) = map (part_sum lens) (fst (?b, ?s))"
        using k by (simp add: sums map_update)
      show "[] \<notin> set (fst (?b, ?s))" using ne set_update_subset_insert[of bins k] by fastforce
      show "\<forall>b \<in> set (fst (?b, ?s)). part_sum lens b \<le> cap \<or> length b = 1"
        using cap fits k set_update_subset_insert[of bins k] by (fastforce simp: sums)
      fix i j assume ij: "i < j" "j < length (fst (?b, ?s))"
      then have "cap < sums ! i + lens ! hd (bins ! j)" using later by simp
      also have "\<dots> \<le> ?s ! i + lens ! hd (?b ! j)" using hd mono ij by simp
      finally show "cap < snd (?b, ?s) ! i + lens ! hd (fst (?b, ?s) ! j)" by simp
    qed
    then show ?thesis by (simp add: bs Some)
  qed
qed

lemma first_fit_step_mset:
  assumes "packing_ok lens cap bs"
  shows "mset (concat (fst (first_fit_step lens cap idx bs))) = add_mset idx (mset (concat (fst bs)))"
proof -
  obtain bins sums where bs: "bs = (bins, sums)" by (cases bs)
  have len: "length sums = length bins" using assms by (auto simp: packing_ok_def bs)
  show ?thesis
  proof (cases "find_index (\<lambda>s. s + lens ! idx \<le> cap) sums")
    case (Some k)
    from find_index_SomeD[OF this] have k: "k < length bins" by (simp add: len)
    from mset_concat_update[OF this, of "bins ! k @ [idx]"] show ?thesis by (simp add: bs Some)
  qed (simp add: bs)
qed

lemma first_fit_fold:
  assumes "packing_ok lens cap bs" and "\<And>i. i \<in> set order \<Longrightarrow> 0 \<le> lens ! i"
  shows "packing_ok lens cap (fold (first_fit_step lens cap) order bs) \<and>
    mset (concat (fst (fold (first_fit_step lens cap) order bs))) = mset order + mset (concat (fst bs))"
  using assms
proof (induction order arbitrary: bs)
  case (Cons i order)
  have "packing_ok lens cap (first_fit_step lens cap i bs)" using Cons.prems by (simp add: first_fit_step_ok)
  with Cons show ?case by (simp add: first_fit_step_mset)
qed simp

lemma packing_ok_init: "packing_ok lens cap ([], [])"
  by (simp add: packing_ok_def)

definition pack_spec :: "'w::linordered_idom list \<Rightarrow> 'w \<Rightarrow> nat list list \<Rightarrow> bool" where
  "pack_spec lens cap bins \<longleftrightarrow> covers (length lens) bins \<and> [] \<notin> set bins \<and>
     (\<forall>b \<in> set bins. part_sum lens b \<le> cap \<or> length b = 1) \<and>
     (\<forall>i j. i < j \<longrightarrow> j < length bins \<longrightarrow> cap < part_sum lens (bins ! i) + part_sum lens (bins ! j))"

lemma first_fit_spec:
  assumes "mset order = mset [0..<length lens]" and "\<forall>l \<in> set lens. 0 \<le> l"
  shows "pack_spec lens cap (first_fit order lens cap)"
proof -
  have ord: "set order = {0..<length lens}" using mset_eq_setD[OF assms(1)] by simp
  then have pos: "0 \<le> lens ! i" if "i \<in> set order" for i using that assms(2) by simp
  let ?r = "fold (first_fit_step lens cap) order ([], [])"
  from first_fit_fold[OF packing_ok_init pos]
  have ok: "packing_ok lens cap ?r" and m: "mset (concat (fst ?r)) = mset order" by simp_all
  have in_order: "i \<in> set order" if "b \<in> set (fst ?r)" "i \<in> set b" for b i
    using that mset_eq_setD[OF m] by auto
  have "lens ! hd b \<le> part_sum lens b" if b: "b \<in> set (fst ?r)" for b
  proof -
    have "b \<noteq> []" using ok b by (auto simp: packing_ok_def)
    then have b': "b = hd b # tl b" by simp
    have "0 \<le> part_sum lens (tl b)" unfolding part_sum_def
      using in_order[OF b] pos list.set_sel(2)[OF \<open>b \<noteq> []\<close>] by (auto intro!: sum_list_nonneg)
    then show ?thesis by (subst (2) b') simp
  qed
  note hd_le = this
  show ?thesis
    unfolding pack_spec_def first_fit_def
  proof (intro conjI allI impI)
    show "covers (length lens) (fst ?r)" using m assms(1) by (simp add: covers_def)
    show "[] \<notin> set (fst ?r)" "\<forall>b \<in> set (fst ?r). part_sum lens b \<le> cap \<or> length b = 1"
      using ok by (auto simp: packing_ok_def)
    fix i j assume ij: "i < j" "j < length (fst ?r)"
    then have "cap < part_sum lens (fst ?r ! i) + lens ! hd (fst ?r ! j)"
      using ok by (auto simp: packing_ok_def)
    also have "\<dots> \<le> part_sum lens (fst ?r ! i) + part_sum lens (fst ?r ! j)"
      using hd_le ij by simp
    finally show "cap < part_sum lens (fst ?r ! i) + part_sum lens (fst ?r ! j)" .
  qed
qed

text \<open>
  First-fit packing, in arrival order or by decreasing length, puts every sample into exactly
  one bin, opens no empty bin, exceeds the cap only with a bin holding a single oversized sample,
  and leaves no two bins that could have been merged under the cap.
\<close>

theorem first_fit_packs_correct:
  fixes lens :: "'w::linordered_idom list"
  assumes "\<forall>l \<in> set lens. 0 \<le> l"
  shows "pack_spec lens cap (first_fit_pack lens cap) \<and> pack_spec lens cap (first_fit_decreasing_pack lens cap)"
  using assms by (auto simp: first_fit_pack_def first_fit_decreasing_pack_def intro!: first_fit_spec)

theorem first_fit_packs_witness:
  "pack_spec [6, 9, 4, 12 :: int] 10 (first_fit_pack [6, 9, 4, 12 :: int] 10) \<and>
   first_fit_pack [6, 9, 4, 12 :: int] 10 = [[0, 2], [1], [3]]"
proof
  show "pack_spec [6, 9, 4, 12 :: int] 10 (first_fit_pack [6, 9, 4, 12 :: int] 10)"
    using first_fit_packs_correct[of "[6, 9, 4, 12 :: int]" 10] by simp
  show "first_fit_pack [6, 9, 4, 12 :: int] 10 = [[0, 2], [1], [3]]"
    by code_simp
qed

text \<open>
  Packing by decreasing length may open more bins than packing in arrival order: six samples
  of lengths 4, 3, 3, 4, 3, 3 fill two bins of 10 as they arrive, and take three when sorted.
\<close>

theorem first_fit_decreasing_more_bins:
  "\<exists>lens :: int list. length (first_fit_pack lens 10) < length (first_fit_decreasing_pack lens 10)"
proof
  show "length (first_fit_pack [4, 3, 3, 4, 3, 3 :: int] 10)
      < length (first_fit_decreasing_pack [4, 3, 3, 4, 3, 3 :: int] 10)"
    by code_simp
qed

section \<open>Splitting and growing bins\<close>

text \<open>\<open>_split_bin_by_tokens\<close>: longest sample first, each into the half with the smaller sum.\<close>

fun split_step :: "'w::linordered_idom list \<Rightarrow> nat \<Rightarrow> (nat list \<times> nat list) \<times> 'w \<times> 'w \<Rightarrow>
    (nat list \<times> nat list) \<times> 'w \<times> 'w" where
  "split_step lens idx ((left, right), (s0, s1)) =
     (if s0 \<le> s1 then ((left @ [idx], right), (s0 + lens ! idx, s1))
      else ((left, right @ [idx]), (s0, s1 + lens ! idx)))"

definition split_bin_by_tokens :: "nat list \<Rightarrow> 'w::linordered_idom list \<Rightarrow> nat list \<times> nat list" where
  "split_bin_by_tokens b lens =
     fst (fold (split_step lens) (sort_key (\<lambda>i. - lens ! i) b) (([], []), (0, 0)))"

text \<open>\<open>max\<close> over the pairs of sum and bin index, of the bins with more than one sample.\<close>

definition split_candidates :: "nat list list \<Rightarrow> 'w::linordered_idom list \<Rightarrow> ('w \<times> nat) list" where
  "split_candidates bins lens =
     map (\<lambda>(b, idx). (part_sum lens b, idx)) (filter (\<lambda>(b, idx). 1 < length b) (zip bins [0..<length bins]))"

function expand_bins_by_splitting :: "nat list list \<Rightarrow> nat \<Rightarrow> 'w::linordered_idom list \<Rightarrow> nat list list" where
  "expand_bins_by_splitting bins target lens =
     (if length bins < target \<and> split_candidates bins lens \<noteq> []
      then let idx = snd (Max (set (split_candidates bins lens)));
               (left, right) = split_bin_by_tokens (bins ! idx) lens
           in expand_bins_by_splitting (bins[idx := left] @ [right]) target lens
      else bins)"
  by pat_completeness auto
termination
  by (relation "measure (\<lambda>(bins, target, lens). target - length bins)") auto

declare expand_bins_by_splitting.simps [simp del]

definition get_reverse_idx :: "nat list \<Rightarrow> py_exn + nat list" where
  "get_reverse_idx idx_map =
     rfold (\<lambda>(i, idx) r. if idx < length r then Inr (r[idx := i]) else Inl IndexError)
       (zip [0..<length idx_map] idx_map) idx_map"

definition split_ok :: "'w::linordered_idom list \<Rightarrow> (nat list \<times> nat list) \<times> 'w \<times> 'w \<Rightarrow> bool" where
  "split_ok lens h \<longleftrightarrow> (case h of ((left, right), (s0, s1)) \<Rightarrow>
     s0 = part_sum lens left \<and> s1 = part_sum lens right \<and>
     (left = [] \<longrightarrow> right = []) \<and> (right = [] \<longrightarrow> length left \<le> 1))"

definition split_near :: "'w::linordered_idom \<Rightarrow> (nat list \<times> nat list) \<times> 'w \<times> 'w \<Rightarrow> bool" where
  "split_near M h \<longleftrightarrow> \<bar>fst (snd h) - snd (snd h)\<bar> \<le> M"

lemma part_sum_pos: "p \<noteq> [] \<Longrightarrow> (\<And>i. i \<in> set p \<Longrightarrow> 0 < lens ! i) \<Longrightarrow> 0 < part_sum lens p"
proof (induction p)
  case (Cons i p)
  then show ?case by (cases "p = []") (auto intro: add_pos_pos)
qed simp

lemma split_fold:
  assumes "split_ok lens h" and "split_near M h" and "\<And>i. i \<in> set order \<Longrightarrow> 0 < lens ! i \<and> lens ! i \<le> M"
    and "\<And>i. i \<in> set (fst (fst h)) \<Longrightarrow> 0 < lens ! i"
  shows "split_ok lens (fold (split_step lens) order h) \<and> split_near M (fold (split_step lens) order h) \<and>
    (case fst (fold (split_step lens) order h) of (l, r) \<Rightarrow>
       mset l + mset r = mset order + mset (fst (fst h)) + mset (snd (fst h)))"
  using assms
proof (induction order arbitrary: h)
  case (Cons i order)
  obtain l r s0 s1 where h: "h = ((l, r), (s0, s1))" by (metis surj_pair)
  have i: "0 < lens ! i" "lens ! i \<le> M" using Cons.prems(3)[of i] by auto
  have "split_ok lens (split_step lens i h)"
    using Cons.prems(1,4) part_sum_pos[of l lens] by (cases "l = []") (auto simp: h split_ok_def)
  moreover have "split_near M (split_step lens i h)"
    using Cons.prems(2) i by (auto simp: h split_near_def)
  moreover have "0 < lens ! j" if "j \<in> set (fst (fst (split_step lens i h)))" for j
    using that Cons.prems(4)[of j] i by (auto simp: h split: if_splits)
  ultimately show ?case using Cons.IH[of "split_step lens i h"] Cons.prems(3)
    by (auto simp: h split: prod.splits if_splits)
qed (auto split: prod.splits)

lemma split_bin_correct:
  assumes "split_bin_by_tokens b lens = (left, right)" and "1 < length b"
    and "\<And>i. i \<in> set b \<Longrightarrow> 0 < lens ! i \<and> lens ! i \<le> M"
  shows "mset left + mset right = mset b \<and> left \<noteq> [] \<and> right \<noteq> [] \<and>
    \<bar>part_sum lens left - part_sum lens right\<bar> \<le> M"
proof -
  let ?o = "sort_key (\<lambda>i. - lens ! i) b"
  have "0 \<le> M" using assms(2) assms(3)[of "hd b"] by (cases b) auto
  then have i: "split_ok lens (([], []), (0, 0))" "split_near M (([], []), (0, 0))"
    by (simp_all add: split_ok_def split_near_def)
  have "split_ok lens (fold (split_step lens) ?o (([], []), (0, 0))) \<and>
    split_near M (fold (split_step lens) ?o (([], []), (0, 0))) \<and>
    (case fst (fold (split_step lens) ?o (([], []), (0, 0))) of (l, r) \<Rightarrow> mset l + mset r = mset b)"
    using split_fold[OF i, of ?o] assms(3) by simp
  moreover obtain s0 s1 where "fold (split_step lens) ?o (([], []), (0, 0)) = ((left, right), (s0, s1))"
    using assms(1) unfolding split_bin_by_tokens_def by (metis prod.collapse)
  ultimately have m: "mset left + mset right = mset b" and ok: "split_ok lens ((left, right), (s0, s1))"
    and near: "split_near M ((left, right), (s0, s1))" by auto
  have "length left + length right = length b" by (metis m size_mset size_union)
  then show ?thesis using m ok near assms(2) by (auto simp: split_ok_def split_near_def)
qed

text \<open>What growing a set of bins keeps and reaches.\<close>

definition grown_from :: "nat list list \<Rightarrow> nat list list \<Rightarrow> bool" where
  "grown_from bins res \<longleftrightarrow> mset (concat res) = mset (concat bins) \<and> length bins \<le> length res \<and>
     (\<forall>b \<in> set res. b \<noteq> [] \<and> (\<exists>b0 \<in> set bins. mset b \<subseteq># mset b0))"

lemma split_candidates_iff:
  "(s, idx) \<in> set (split_candidates bins lens) \<longleftrightarrow>
     idx < length bins \<and> 1 < length (bins ! idx) \<and> s = part_sum lens (bins ! idx)"
  by (force simp: split_candidates_def in_set_zip image_iff)

lemma split_candidates_Nil: "split_candidates bins lens = [] \<longleftrightarrow> (\<forall>b \<in> set bins. length b \<le> 1)"
proof -
  have "split_candidates bins lens = [] \<longleftrightarrow> (\<forall>idx. \<not> (idx < length bins \<and> 1 < length (bins ! idx)))"
    using split_candidates_iff[of _ _ bins lens] by (metis empty_iff list.set(1) list.set_intros(1)
        neq_Nil_conv prod.collapse)
  then show ?thesis by (metis in_set_conv_nth not_less)
qed

lemma expand_bins_stop:
  "\<not> (length bins < target \<and> split_candidates bins lens \<noteq> []) \<Longrightarrow>
   expand_bins_by_splitting bins target lens = bins"
  by (subst expand_bins_by_splitting.simps) (rule if_not_P)

lemma expand_bins_grown:
  assumes "[] \<notin> set bins" and "\<And>i. i \<in> set (concat bins) \<Longrightarrow> 0 < lens ! i"
  shows "grown_from bins (expand_bins_by_splitting bins target lens)"
  using assms
proof (induction bins target lens rule: expand_bins_by_splitting.induct)
  case (1 bins target lens)
  show ?case
  proof (cases "length bins < target \<and> split_candidates bins lens \<noteq> []")
    case True
    obtain s idx where mx: "Max (set (split_candidates bins lens)) = (s, idx)" by (metis surj_pair)
    then have "(s, idx) \<in> set (split_candidates bins lens)" using True by (metis List.finite_set Max_in set_empty)
    then have idx: "idx < length bins" and two: "1 < length (bins ! idx)"
      by (simp_all add: split_candidates_iff)
    obtain l r where lr: "split_bin_by_tokens (bins ! idx) lens = (l, r)" by (metis surj_pair)
    define M where "M = Max ((!) lens ` set (bins ! idx))"
    have "0 < lens ! i \<and> lens ! i \<le> M" if "i \<in> set (bins ! idx)" for i
    proof -
      have "bins ! idx \<in> set bins" using idx by (rule nth_mem)
      then have "i \<in> set (concat bins)" using that by auto
      then show ?thesis using "1.prems"(2) that by (simp add: M_def)
    qed
    from split_bin_correct[OF lr two this]
    have m: "mset l + mset r = mset (bins ! idx)" and ne: "l \<noteq> []" "r \<noteq> []" by auto
    let ?b = "bins[idx := l] @ [r]"
    have mb: "mset (concat ?b) = mset (concat bins)"
      using mset_concat_update[OF idx, of l] m[symmetric] by simp
    have sub: "\<exists>b0 \<in> set bins. mset b \<subseteq># mset b0" if "b \<in> set ?b" for b
    proof (cases "b = l \<or> b = r")
      case True
      then have "mset b \<subseteq># mset (bins ! idx)" using m by (metis mset_subset_eq_add_left mset_subset_eq_add_right)
      then show ?thesis using idx by (meson nth_mem)
    next
      case False
      then have "b \<in> set bins" using that set_update_subset_insert[of bins idx l] by auto
      then show ?thesis by auto
    qed
    have "[] \<notin> set ?b" using "1.prems"(1) ne set_update_subset_insert[of bins idx l] by auto
    moreover have "0 < lens ! i" if "i \<in> set (concat ?b)" for i
    proof -
      have "i \<in> set (concat bins)" using that mset_eq_setD[OF mb] by (simp only:)
      then show ?thesis by (rule "1.prems"(2))
    qed
    ultimately have g: "grown_from ?b (expand_bins_by_splitting ?b target lens)"
      using "1.IH"[OF True refl _ refl] mx lr by (auto simp del: set_concat)
    have "expand_bins_by_splitting bins target lens = expand_bins_by_splitting ?b target lens"
      using True mx lr by (subst expand_bins_by_splitting.simps) (simp add: Let_def)
    moreover have "grown_from bins (expand_bins_by_splitting ?b target lens)"
      unfolding grown_from_def
    proof (intro conjI ballI)
      fix b assume b: "b \<in> set (expand_bins_by_splitting ?b target lens)"
      then show "b \<noteq> []" using g by (auto simp: grown_from_def)
      obtain b1 where b1: "b1 \<in> set ?b" "mset b \<subseteq># mset b1" using g b unfolding grown_from_def by blast
      with sub[OF b1(1)] show "\<exists>b0 \<in> set bins. mset b \<subseteq># mset b0" by (meson subset_mset.order_trans)
    qed (use g mb in \<open>auto simp: grown_from_def\<close>)
    ultimately show ?thesis by simp
  next
    case False
    then show ?thesis using "1.prems"(1) by (auto simp: expand_bins_stop grown_from_def)
  qed
qed

lemma expand_bins_reaches:
  "(length bins \<le> target \<longrightarrow> length (expand_bins_by_splitting bins target lens) \<le> target) \<and>
   (target \<le> length (expand_bins_by_splitting bins target lens) \<or>
    (\<forall>b \<in> set (expand_bins_by_splitting bins target lens). length b \<le> 1))"
proof (induction bins target lens rule: expand_bins_by_splitting.induct)
  case (1 bins target lens)
  show ?case
  proof (cases "length bins < target \<and> split_candidates bins lens \<noteq> []")
    case True
    obtain s idx where mx: "Max (set (split_candidates bins lens)) = (s, idx)" by (metis surj_pair)
    obtain l r where lr: "split_bin_by_tokens (bins ! idx) lens = (l, r)" by (metis surj_pair)
    have "expand_bins_by_splitting bins target lens
        = expand_bins_by_splitting (bins[idx := l] @ [r]) target lens"
      using True mx lr by (subst expand_bins_by_splitting.simps) (simp add: Let_def)
    then show ?thesis using "1.IH"[OF True refl _ refl] mx lr True by auto
  next
    case False
    have "expand_bins_by_splitting bins target lens = bins" by (rule expand_bins_stop[OF False])
    then show ?thesis using False by (auto simp: split_candidates_Nil)
  qed
qed

text \<open>
  Growing bins of positive samples by splitting keeps every sample, leaves no empty bin, only
  ever subdivides existing bins (so no cap is newly exceeded), and stops at exactly the target count
  unless every bin is down to one sample.
\<close>

theorem expand_bins_by_splitting_correct:
  assumes "[] \<notin> set bins" and "\<forall>i \<in> set (concat bins). 0 < lens ! i" and "length bins \<le> target"
  shows "grown_from bins (expand_bins_by_splitting bins target lens) \<and>
     (length (expand_bins_by_splitting bins target lens) = target \<or>
      length (expand_bins_by_splitting bins target lens) < target \<and>
      (\<forall>b \<in> set (expand_bins_by_splitting bins target lens). length b = 1))"
proof -
  let ?r = "expand_bins_by_splitting bins target lens"
  have g: "grown_from bins ?r" using expand_bins_grown[OF assms(1)] assms(2) by blast
  have "length b = 1" if "b \<in> set ?r" "length b \<le> 1" for b
    using g that by (cases b) (auto simp: grown_from_def)
  then show ?thesis using g expand_bins_reaches[of bins target lens] assms(3) by fastforce
qed

theorem expand_bins_by_splitting_witness:
  "grown_from [[0, 1, 2], [3]] (expand_bins_by_splitting [[0, 1, 2], [3]] 3 [5, 1, 4, 2 :: int]) \<and>
   expand_bins_by_splitting [[0, 1, 2], [3]] 3 [5, 1, 4, 2 :: int] = [[0], [3], [2, 1]]"
proof
  show "grown_from [[0, 1, 2], [3]] (expand_bins_by_splitting [[0, 1, 2], [3]] 3 [5, 1, 4, 2 :: int])"
    using expand_bins_by_splitting_correct[of "[[0, 1, 2], [3]]" "[5, 1, 4, 2 :: int]" 3]
    by (simp add: numeral_2_eq_2 numeral_3_eq_3)
  show "expand_bins_by_splitting [[0, 1, 2], [3]] 3 [5, 1, 4, 2 :: int] = [[0], [3], [2, 1]]"
    by code_simp
qed

section \<open>Inverting an index map\<close>

lemma reverse_fold:
  assumes "distinct (map snd xs)" and "\<forall>i \<in> set (map snd xs). i < length r"
  shows "\<exists>r'. rfold (\<lambda>(i, idx) r. if idx < length r then Inr (r[idx := i]) else Inl IndexError) xs r = Inr r' \<and>
     length r' = length r \<and> (\<forall>(i, idx) \<in> set xs. r' ! idx = i) \<and>
     (\<forall>idx < length r. idx \<notin> set (map snd xs) \<longrightarrow> r' ! idx = r ! idx)"
  using assms
proof (induction xs arbitrary: r)
  case (Cons x xs)
  obtain i idx where x: "x = (i, idx)" by (cases x)
  have "distinct (map snd xs)" "\<forall>j \<in> set (map snd xs). j < length (r[idx := i])" using Cons.prems by auto
  from Cons.IH[OF this] obtain r' where r':
    "rfold (\<lambda>(i, idx) r. if idx < length r then Inr (r[idx := i]) else Inl IndexError) xs (r[idx := i]) = Inr r'"
    "length r' = length r" "\<forall>(i, idx) \<in> set xs. r' ! idx = i"
    "\<forall>j < length r. j \<notin> set (map snd xs) \<longrightarrow> r' ! j = r[idx := i] ! j" by auto
  have "idx < length r" "idx \<notin> set (map snd xs)" using Cons.prems x by auto
  then show ?case using r' by (intro exI[of _ r']) (auto simp: x)
qed simp

text \<open>
  The reverse index of a permutation is its inverse: position \<open>idx_map ! i\<close> of the result
  holds \<open>i\<close>.
\<close>

theorem get_reverse_idx_inverse:
  assumes "mset idx_map = mset [0..<length idx_map]"
  shows "\<exists>rev_map. get_reverse_idx idx_map = Inr rev_map \<and> length rev_map = length idx_map \<and>
     (\<forall>i < length idx_map. rev_map ! (idx_map ! i) = i \<and> idx_map ! (rev_map ! i) = i)"
proof -
  let ?n = "length idx_map"
  have d: "distinct idx_map" using assms by (metis distinct_upt mset_eq_imp_distinct_iff)
  have s: "set idx_map = {0..<?n}" using mset_eq_setD[OF assms] by simp
  have "map snd (zip [0..<?n] idx_map) = idx_map" by simp
  then obtain r where r: "get_reverse_idx idx_map = Inr r" "length r = ?n"
      "\<forall>(i, idx) \<in> set (zip [0..<?n] idx_map). r ! idx = i"
    using reverse_fold[of "zip [0..<?n] idx_map" idx_map] d s by (auto simp: get_reverse_idx_def)
  have fwd: "r ! (idx_map ! i) = i" if "i < ?n" for i
  proof -
    have "([0..<?n] ! i, idx_map ! i) \<in> set (zip [0..<?n] idx_map)"
      using that by (auto simp: in_set_zip intro!: exI[of _ i])
    then show ?thesis using r(3) that by auto
  qed
  have "idx_map ! (r ! j) = j" if "j < ?n" for j
  proof -
    have "j \<in> set idx_map" using that s by simp
    then obtain i where "i < ?n" "idx_map ! i = j" by (auto simp: in_set_conv_nth)
    then show ?thesis using fwd by metis
  qed
  then show ?thesis using r fwd by auto
qed

theorem get_reverse_idx_witness:
  "\<exists>rev_map. get_reverse_idx [2, 0, 1] = Inr rev_map \<and> length rev_map = length [2, 0, 1 :: nat] \<and>
     (\<forall>i < length [2, 0, 1 :: nat]. rev_map ! ([2, 0, 1] ! i) = i \<and> [2, 0, 1] ! (rev_map ! i) = i)"
  by (rule get_reverse_idx_inverse) (simp add: upt_rec)

end
