(* ===== verification/Dp_Schedule.thy ===== *)
theory Dp_Schedule
  imports Seqlen_Balancing
begin

text \<open>
  \<^verbatim>\<open>miles/utils/dp_schedule.py\<close>: one rollout's samples become training steps, each step's
  samples become micro-batches, and the micro-batches are dealt to the data-parallel ranks.  The
  FLOPs model of the checkpoint is the parameter \<open>flops\<close> (\<open>None\<close> when the config could not be
  sized); workloads live in any ordered integral domain, so float rounding is not modelled.
\<close>

record train_parallel_config =
  dp_size :: nat
  cp_size :: int
  vpp_size :: "nat option"
  mb_group_size :: "nat option"

record dp_args =
  use_dynamic_batch_size :: bool
  max_tokens_per_gpu :: "int option"
  micro_batch_size :: "nat option"
  balance_data :: bool
  balance_by_flops :: bool
  allow_partial_train_step :: bool

record dp_schedule =
  partitions :: "nat list list"
  micro_batch_indices :: "nat list list list"
  num_microbatches :: "nat list"
  num_rollouts :: "nat list"

definition calculate_workloads :: "(int \<Rightarrow> 'w::linordered_idom) option \<Rightarrow> int list \<Rightarrow> 'w list" where
  "calculate_workloads flops step_lengths =
     (case flops of None \<Rightarrow> map of_int step_lengths | Some fwd \<Rightarrow> map fwd step_lengths)"

text \<open>\<open>vpp_size or 1\<close> also replaces a zero; a missing group size multiplied raises \<open>TypeError\<close>.\<close>

definition align_to :: "train_parallel_config \<Rightarrow> py_exn + nat" where
  "align_to c =
     (let vpp = (case vpp_size c of None \<Rightarrow> 1 | Some v \<Rightarrow> if v = 0 then 1 else v)
      in if 1 < vpp
         then (case mb_group_size c of None \<Rightarrow> Inl TypeError | Some g \<Rightarrow> Inr (dp_size c * g))
         else Inr (dp_size c))"

definition max_per_bin :: "dp_args \<Rightarrow> train_parallel_config \<Rightarrow> py_exn + int" where
  "max_per_bin args c =
     (if use_dynamic_batch_size args
      then (case max_tokens_per_gpu args of None \<Rightarrow> Inl AssertionError | Some m \<Rightarrow> Inr (m * cp_size c))
      else Inr 0)"

text \<open>\<open>rollout_id_to_sample_index\<close>, in the order the ids first occur.\<close>

definition group_step :: "nat \<times> 'r \<Rightarrow> ('r \<times> nat list) list \<Rightarrow> ('r \<times> nat list) list" where
  "group_step = (\<lambda>(pos, rid) d.
     AList.update rid ((case map_of d rid of None \<Rightarrow> [] | Some l \<Rightarrow> l) @ [pos]) d)"

definition rollout_groups :: "'r list \<Rightarrow> ('r \<times> nat list) list" where
  "rollout_groups rollout_indices = fold group_step (zip [0..<length rollout_indices] rollout_indices) []"

text \<open>How many rollouts each training step takes.\<close>

definition plan_num_rollouts :: "dp_args \<Rightarrow> train_parallel_config \<Rightarrow> nat \<Rightarrow> ('r \<times> nat list) list \<Rightarrow> py_exn + nat list"
  where
  "plan_num_rollouts args c gbs groups =
     (if gbs = 0 then Inl ZeroDivisionError
      else let full = length groups div gbs; leftover = length groups - full * gbs
           in if full < 1 then Inl AssertionError
              else Inr (replicate full gbs @
                (if leftover \<noteq> 0 \<and> allow_partial_train_step args \<and> use_dynamic_batch_size args \<and>
                    dp_size c \<le> sum_list (map (length \<circ> snd) (drop (length groups - leftover) groups))
                 then [leftover] else [])))"

text \<open>Packing one step's samples into micro-batches, dynamically or by a fixed size.\<close>

definition flops_micro_batches :: "'w::linordered_idom list \<Rightarrow> int list \<Rightarrow> int \<Rightarrow> py_exn + nat list list" where
  "flops_micro_batches workloads step_lengths cap =
     (if cap = 0 then Inl ZeroDivisionError
      else let count = nat (max 1 ((sum_list step_lengths + cap - 1) div cap))
           in if length step_lengths \<le> count then Inr (map (\<lambda>i. [i]) [0..<length step_lengths])
              else get_seqlen_balanced_partitions workloads count False)"

definition grow_micro_batches :: "int list \<Rightarrow> nat \<Rightarrow> nat list list \<Rightarrow> py_exn + nat list list" where
  "grow_micro_batches step_lengths align bins =
     (if align = 0 then Inl ZeroDivisionError
      else let target = max ((length bins + align - 1) div align * align) align
           in if target \<noteq> length bins
              then let bins' = expand_bins_by_splitting bins target step_lengths
                   in if length bins' = target then Inr bins' else Inl AssertionError
              else Inr bins)"

definition static_micro_batches :: "nat option \<Rightarrow> nat \<Rightarrow> nat \<Rightarrow> py_exn + nat list list" where
  "static_micro_batches mbs align n =
     (case mbs of None \<Rightarrow> Inl AssertionError
      | Some m \<Rightarrow>
          if m = 0 then Inl ValueError
          else let bins = chunks m [0..<n]
               in if align = 0 then Inl ZeroDivisionError
                  else if length bins mod align \<noteq> 0 then Inl AssertionError else Inr bins)"

definition step_micro_batches ::
  "dp_args \<Rightarrow> 'w::linordered_idom list \<Rightarrow> int list \<Rightarrow> int \<Rightarrow> nat \<Rightarrow> py_exn + nat list list" where
  "step_micro_batches args workloads step_lengths cap align =
     (if use_dynamic_batch_size args
      then rbind (if balance_by_flops args then flops_micro_batches workloads step_lengths cap
                  else Inr (first_fit_decreasing_pack step_lengths cap))
             (grow_micro_batches step_lengths align)
      else static_micro_batches (micro_batch_size args) align (length step_lengths))"

text \<open>Dealing the micro-batches to the ranks.\<close>

definition rank_micro_batch_ids ::
  "dp_args \<Rightarrow> nat \<Rightarrow> 'w::linordered_idom list \<Rightarrow> int list \<Rightarrow> nat list list \<Rightarrow> py_exn + nat list list" where
  "rank_micro_batch_ids args dp workloads step_lengths mbs =
     (if balance_by_flops args
      then get_seqlen_balanced_partitions (map (part_sum workloads) mbs) dp True
      else if balance_data args
      then get_seqlen_balanced_partitions (map (part_sum step_lengths) mbs) dp True
      else Inr (map (\<lambda>rank. filter (\<lambda>k. k mod dp = rank) [0..<length mbs]) [0..<dp]))"

text \<open>A rank's accumulated partition and its micro-batches as ranges into that partition.\<close>

type_synonym rank_state = "nat list \<times> nat list list"

definition place_micro_batch :: "nat list \<Rightarrow> nat list \<Rightarrow> rank_state \<Rightarrow> rank_state" where
  "place_micro_batch sample_indices mb = (\<lambda>(part, mbi).
     (part @ map ((!) sample_indices) mb, mbi @ [[length part..<length part + length mb]]))"

definition place_rank :: "nat list \<Rightarrow> nat list list \<Rightarrow> nat list \<Rightarrow> rank_state \<Rightarrow> rank_state" where
  "place_rank sample_indices mbs ids = fold (\<lambda>k. place_micro_batch sample_indices (mbs ! k)) ids"

text \<open>The body of the loop over the steps: the state is the ranks' states and the counts so far.\<close>

definition dp_step ::
  "dp_args \<Rightarrow> train_parallel_config \<Rightarrow> (int \<Rightarrow> 'w::linordered_idom) option \<Rightarrow> int \<Rightarrow> nat \<Rightarrow> int list \<Rightarrow>
   ('r \<times> nat list) list \<Rightarrow> rank_state list \<times> nat list \<Rightarrow> py_exn + rank_state list \<times> nat list" where
  "dp_step args c flops cap align total_lengths picked = (\<lambda>(ranks, counts).
     let sample_indices = concat (map snd picked)
     in if \<exists>i \<in> set sample_indices. length total_lengths \<le> i then Inl IndexError
        else let step_lengths = map ((!) total_lengths) sample_indices
        in if length sample_indices < dp_size c then Inl AssertionError
        else let workloads = calculate_workloads flops step_lengths
        in rbind (step_micro_batches args workloads step_lengths cap align) (\<lambda>mbs.
           if dp_size c = 0 then Inl ZeroDivisionError
           else rbind (rank_micro_batch_ids args (dp_size c) workloads step_lengths mbs) (\<lambda>ids.
             Inr (map2 (place_rank sample_indices mbs) ids ranks, counts @ [length mbs div dp_size c]))))"

text \<open>Consecutive slices of the groups, one per step.\<close>

fun slices :: "nat list \<Rightarrow> 'a list \<Rightarrow> 'a list list" where
  "slices [] xs = []"
| "slices (n # ns) xs = take n xs # slices ns (drop n xs)"

definition build_dp_schedule ::
  "dp_args \<Rightarrow> train_parallel_config \<Rightarrow> (int \<Rightarrow> 'w::linordered_idom) option \<Rightarrow> int list \<Rightarrow> nat \<Rightarrow> 'r list \<Rightarrow>
   py_exn + dp_schedule" where
  "build_dp_schedule args c flops total_lengths gbs rollout_indices =
     rbind (align_to c) (\<lambda>align. rbind (max_per_bin args c) (\<lambda>cap.
       let groups = rollout_groups rollout_indices
       in rbind (plan_num_rollouts args c gbs groups) (\<lambda>plan.
          rbind (rfold (dp_step args c flops cap align total_lengths) (slices plan groups)
                  (replicate (dp_size c) ([], []), [])) (\<lambda>(ranks, counts).
            Inr \<lparr>partitions = map fst ranks, micro_batch_indices = map snd ranks,
                 num_microbatches = counts, num_rollouts = plan\<rparr>))))"

section \<open>Grouping samples by rollout\<close>

definition group_of :: "'r list \<Rightarrow> 'r \<Rightarrow> nat list" where
  "group_of rids r = filter (\<lambda>i. rids ! i = r) [0..<length rids]"

lemma group_of_snoc: "group_of (rids @ [x]) r = group_of rids r @ (if x = r then [length rids] else [])"
proof -
  have "filter (\<lambda>i. (rids @ [x]) ! i = r) [0..<length rids] = filter (\<lambda>i. rids ! i = r) [0..<length rids]"
    by (rule filter_cong) (auto simp: nth_append)
  then show ?thesis by (simp add: group_of_def)
qed

lemma group_of_Nil_iff: "group_of rids r = [] \<longleftrightarrow> r \<notin> set rids"
  by (auto simp: group_of_def filter_empty_conv in_set_conv_nth)

lemma rollout_groups_snoc: "rollout_groups (rids @ [x]) = group_step (length rids, x) (rollout_groups rids)"
  by (simp add: rollout_groups_def)

lemma rollout_groups_ok:
  "dict_ok (rollout_groups rids) \<and>
   map_of (rollout_groups rids) = (\<lambda>r. if r \<in> set rids then Some (group_of rids r) else None)"
proof (induction rids rule: rev_induct)
  case Nil
  show ?case by (simp add: rollout_groups_def)
next
  case (snoc x rids)
  have m: "map_of (rollout_groups (rids @ [x])) =
      (map_of (rollout_groups rids))(x \<mapsto> group_of rids x @ [length rids])"
    using snoc by (auto simp: rollout_groups_snoc group_step_def dict_simps group_of_Nil_iff split: option.splits)
  show ?case
  proof
    show "dict_ok (rollout_groups (rids @ [x]))"
      using snoc by (simp add: rollout_groups_snoc group_step_def dict_simps)
    show "map_of (rollout_groups (rids @ [x])) =
        (\<lambda>r. if r \<in> set (rids @ [x]) then Some (group_of (rids @ [x]) r) else None)"
      unfolding m using snoc by (auto simp: fun_eq_iff group_of_snoc)
  qed
qed

lemma rollout_groups_entry: "(r, l) \<in> set (rollout_groups rids) \<longleftrightarrow> r \<in> set rids \<and> l = group_of rids r"
proof -
  have "(r, l) \<in> set (rollout_groups rids) \<longleftrightarrow> map_of (rollout_groups rids) r = Some l"
    using rollout_groups_ok[of rids] by (metis map_of_eq_Some_iff)
  then show ?thesis using rollout_groups_ok[of rids] by auto
qed

lemma rollout_groups_positions: "distinct (concat (map snd (rollout_groups rids)))"
    "set (concat (map snd (rollout_groups rids))) = {0..<length rids}"
proof -
  have d: "distinct (rollout_groups rids)" using rollout_groups_ok[of rids] by (simp add: distinct_map)
  have inj: "inj_on snd (set (rollout_groups rids))"
  proof (rule inj_onI)
    fix a b assume "a \<in> set (rollout_groups rids)" "b \<in> set (rollout_groups rids)" "snd a = snd b"
    moreover obtain r l r' l' where "a = (r, l)" "b = (r', l')" by (metis surj_pair)
    ultimately have e: "r \<in> set rids" "group_of rids r = group_of rids r'" "a = (r, l)" "b = (r', l')" "l = l'"
      by (auto simp: rollout_groups_entry)
    then obtain i where "i \<in> set (group_of rids r)" "i \<in> set (group_of rids r')"
      by (metis group_of_Nil_iff list.set_sel(1))
    then have "r = r'" by (simp add: group_of_def)
    with e show "a = b" by simp
  qed
  show "distinct (concat (map snd (rollout_groups rids)))"
    unfolding distinct_concat_iff
  proof (intro conjI allI impI)
    show "distinct (removeAll [] (map snd (rollout_groups rids)))"
      using d inj by (simp add: distinct_removeAll distinct_map)
    fix ys assume "ys \<in> set (map snd (rollout_groups rids))"
    then show "distinct ys" by (auto simp: rollout_groups_entry group_of_def)
  next
    fix ys zs assume "ys \<in> set (map snd (rollout_groups rids)) \<and> zs \<in> set (map snd (rollout_groups rids)) \<and> ys \<noteq> zs"
    then show "set ys \<inter> set zs = {}" by (auto simp: rollout_groups_entry group_of_def)
  qed
  have "i \<in> set (concat (map snd (rollout_groups rids))) \<longleftrightarrow> i < length rids" for i
  proof
    assume "i \<in> set (concat (map snd (rollout_groups rids)))"
    then show "i < length rids" by (auto simp: rollout_groups_entry group_of_def)
  next
    assume i: "i < length rids"
    then have "(rids ! i, group_of rids (rids ! i)) \<in> set (rollout_groups rids)"
      by (simp add: rollout_groups_entry)
    moreover have "i \<in> set (group_of rids (rids ! i))" using i by (simp add: group_of_def)
    ultimately show "i \<in> set (concat (map snd (rollout_groups rids)))" by force
  qed
  then show "set (concat (map snd (rollout_groups rids))) = {0..<length rids}"
    by (intro set_eqI) (simp only: atLeastLessThan_iff le0 simp_thms)
qed

section \<open>Micro-batches of a step\<close>

definition mbs_ok :: "nat \<Rightarrow> nat \<Rightarrow> nat list list \<Rightarrow> bool" where
  "mbs_ok n align mbs \<longleftrightarrow> covers n mbs \<and> [] \<notin> set mbs \<and> align dvd length mbs"

lemma covers_singletons: "covers n (map (\<lambda>i. [i]) [0..<n])"
proof -
  have "concat (map (\<lambda>i. [i]) xs) = xs" for xs :: "nat list" by (induction xs) auto
  then show ?thesis by (simp add: covers_def)
qed

lemma flops_micro_batches_ok:
  assumes "flops_micro_batches workloads lens cap = Inr mbs" and "length workloads = length lens"
    and "\<forall>w \<in> set workloads. 0 \<le> w"
  shows "covers (length lens) mbs \<and> [] \<notin> set mbs"
proof -
  define count where "count = nat (max 1 ((sum_list lens + cap - 1) div cap))"
  have cap: "cap \<noteq> 0" using assms(1) by (auto simp: flops_micro_batches_def)
  show ?thesis
  proof (cases "length lens \<le> count")
    case True
    with assms(1) cap have "mbs = map (\<lambda>i. [i]) [0..<length lens]"
      by (simp add: flops_micro_batches_def Let_def count_def)
    then show ?thesis by (auto simp: covers_singletons)
  next
    case False
    with assms(1) cap have g: "get_seqlen_balanced_partitions workloads count False = Inr mbs"
      by (simp add: flops_micro_batches_def Let_def count_def)
    have c: "0 < count" "count \<le> length workloads" using False assms(2) by (auto simp: count_def)
    have "\<exists>parts. karmarkar_karp workloads count False = Inr parts \<and> covers (length workloads) parts \<and> [] \<notin> set parts"
      using karmarkar_karp_correct[of count workloads False "Max (set workloads)"] c assms(3) by force
    then obtain parts where p: "karmarkar_karp workloads count False = Inr parts"
        "covers (length lens) parts" "[] \<notin> set parts" using assms(2) by auto
    then have "mbs = map sort parts" using g c
      by (simp add: get_seqlen_balanced_partitions_def check_and_sort_partitions_def split: if_splits)
    then show ?thesis using p by (auto dest: sym[of "[]"])
  qed
qed

lemma grow_micro_batches_ok:
  assumes "grow_micro_batches lens align bins = Inr mbs" and "covers (length lens) bins" and "[] \<notin> set bins"
    and "\<forall>l \<in> set lens. 0 < l"
  shows "mbs_ok (length lens) align mbs \<and> grown_from bins mbs"
proof -
  define target where "target = max ((length bins + align - 1) div align * align) align"
  have d: "align dvd target" by (auto simp: target_def max_def)
  have "0 < lens ! i" if "i \<in> set (concat bins)" for i
    using that covers_set[OF assms(2)] assms(4) by (metis atLeast_upt lessThan_iff nth_mem)
  note g = expand_bins_grown[of bins lens target, OF assms(3) this]
  have self: "grown_from bins bins" using assms(3) by (auto simp: grown_from_def)
  consider "mbs = bins" "target = length bins" |
      "mbs = expand_bins_by_splitting bins target lens" "length mbs = target"
    using assms(1) by (auto simp: grow_micro_batches_def Let_def target_def split: if_splits)
  then show ?thesis
  proof cases
    case 1
    then show ?thesis using assms d self by (simp add: mbs_ok_def)
  next
    case 2
    then have "grown_from bins mbs" using g by simp
    then show ?thesis using 2 assms(2) d by (auto simp: mbs_ok_def grown_from_def covers_def)
  qed
qed

lemma step_micro_batches_ok:
  assumes "step_micro_batches args workloads lens cap align = Inr mbs" and "length workloads = length lens"
    and "\<forall>l \<in> set lens. 0 < l" and "balance_by_flops args \<Longrightarrow> \<forall>w \<in> set workloads. 0 \<le> w"
  shows "mbs_ok (length lens) align mbs"
proof (cases "use_dynamic_batch_size args")
  case False
  then show ?thesis using assms(1)
    by (auto simp: step_micro_batches_def static_micro_batches_def mbs_ok_def covers_def Let_def
        mod_eq_0_iff_dvd dest: chunks_nonempty split: option.splits if_splits)
next
  case True
  then obtain bins where b: "grow_micro_batches lens align bins = Inr mbs"
    and c: "(if balance_by_flops args then flops_micro_batches workloads lens cap
             else Inr (first_fit_decreasing_pack lens cap)) = Inr bins"
    using assms(1) by (auto simp: step_micro_batches_def result_simps)
  have "covers (length lens) bins \<and> [] \<notin> set bins"
  proof (cases "balance_by_flops args")
    case True
    then show ?thesis using flops_micro_batches_ok[of workloads lens cap bins] c assms(2,4) by simp
  next
    case False
    then have "pack_spec lens cap bins" using c assms(3)
      by (auto simp: first_fit_decreasing_pack_def intro!: first_fit_spec less_imp_le)
    then show ?thesis by (simp add: pack_spec_def)
  qed
  then show ?thesis using grow_micro_batches_ok[OF b] assms(3) by blast
qed

text \<open>The token cap holds on the first-fit path.\<close>

lemma part_sum_mono:
  assumes "mset b \<subseteq># mset b0" and "\<And>i. i \<in> set b0 \<Longrightarrow> 0 \<le> lens ! i"
  shows "part_sum lens b \<le> part_sum lens b0"
  unfolding part_sum_def by (rule sum_list_map_sublist_le[OF assms])

lemma step_micro_batches_cap:
  assumes "step_micro_batches args workloads lens cap align = Inr mbs" and "use_dynamic_batch_size args"
    and "\<not> balance_by_flops args" and "\<forall>l \<in> set lens. 0 < l" and "b \<in> set mbs"
  shows "part_sum lens b \<le> cap \<or> length b = 1"
proof -
  let ?bins = "first_fit_decreasing_pack lens cap"
  have p: "pack_spec lens cap ?bins" using assms(4)
    by (auto simp: first_fit_decreasing_pack_def intro!: first_fit_spec less_imp_le)
  from assms(1-3) have "grow_micro_batches lens align ?bins = Inr mbs" by (simp add: step_micro_batches_def)
  with p assms(4) have g: "grown_from ?bins mbs" using grow_micro_batches_ok by (metis pack_spec_def)
  then obtain b0 where b0: "b0 \<in> set ?bins" "mset b \<subseteq># mset b0" and ne: "b \<noteq> []"
    using assms(5) unfolding grown_from_def by blast
  have "set b0 \<subseteq> {0..<length lens}" using p b0(1) covers_set unfolding pack_spec_def by fastforce
  then have "0 \<le> lens ! i" if "i \<in> set b0" for i
    using that assms(4) by (meson atLeastLessThan_iff less_imp_le nth_mem subsetD)
  from part_sum_mono[OF b0(2) this] have le: "part_sum lens b \<le> part_sum lens b0" by simp
  have "length b \<le> length b0" using b0(2) by (metis size_mset size_mset_mono)
  then have "length b = 1" if "length b0 = 1" using that ne by (cases b) auto
  then show ?thesis using p b0(1) le by (fastforce simp: pack_spec_def)
qed

section \<open>Dealing to the ranks\<close>

definition rank_ids_ok :: "nat \<Rightarrow> nat \<Rightarrow> nat list list \<Rightarrow> bool" where
  "rank_ids_ok dp m ids \<longleftrightarrow> length ids = dp \<and> covers m ids \<and> (\<forall>p \<in> set ids. length p = m div dp)"

lemma residues_length: "r < dp \<Longrightarrow> length (filter (\<lambda>k. k mod dp = r) [0..<q * dp]) = q"
proof (induction q)
  case (Suc q)
  have a: "[0..<Suc q * dp] = [0..<q * dp] @ map (\<lambda>j. j + q * dp) [0..<dp]"
    by (metis add.commute map_add_upt mult_Suc upt_add_eq_append zero_le)
  have "filter (\<lambda>j. j = r) [0..<d] = (if r < d then [r] else [])" for d by (induction d) auto
  moreover have "filter (\<lambda>j. j mod dp = r) [0..<dp] = filter (\<lambda>j. j = r) [0..<dp]"
    by (rule filter_cong) auto
  ultimately have "filter (\<lambda>j. j mod dp = r) [0..<dp] = [r]" using Suc.prems by simp
  then have one: "length (filter (\<lambda>k. k mod dp = r) (map (\<lambda>j. j + q * dp) [0..<dp])) = 1"
    by (simp add: filter_map comp_def)
  have "length (filter (\<lambda>k. k mod dp = r) [0..<Suc q * dp]) = length (filter (\<lambda>k. k mod dp = r) [0..<q * dp]) + 1"
    by (simp only: a filter_append length_append one)
  also have "\<dots> = Suc q" using Suc by simp
  finally show ?case .
qed simp

lemma residues_cover:
  assumes "0 < dp"
  shows "mset (concat (map (\<lambda>r. filter (\<lambda>k. k mod dp = r) xs) [0..<dp])) = mset xs"
proof (induction xs)
  case Nil
  have "concat (map (\<lambda>r. []) ys) = []" for ys :: "nat list" by (induction ys) auto
  then show ?case by simp
next
  case (Cons x xs)
  have "mset (concat (map (\<lambda>r. filter (\<lambda>k. k mod dp = r) (x # xs)) rs)) =
      mset (concat (map (\<lambda>r. filter (\<lambda>k. k mod dp = r) xs) rs))
      + replicate_mset (count (mset rs) (x mod dp)) x"
    for rs by (induction rs) auto
  moreover have "count (mset [0..<dp]) (x mod dp) = 1"
    using assms by (simp add: count_mset_set)
  ultimately show ?case using Cons.IH by simp
qed

lemma rank_micro_batch_ids_ok:
  assumes r: "rank_micro_batch_ids args dp workloads lens mbs = Inr ids" and dp: "0 < dp" "dp dvd length mbs"
    and m: "mbs \<noteq> []" and cov: "covers (length lens) mbs" and w: "length workloads = length lens"
    and pos: "\<forall>l \<in> set lens. 0 < l" "balance_by_flops args \<Longrightarrow> \<forall>w \<in> set workloads. 0 \<le> w"
  shows "rank_ids_ok dp (length mbs) ids"
proof -
  have kk: "rank_ids_ok dp (length mbs) ids"
    if g: "get_seqlen_balanced_partitions (map (part_sum ws) mbs) dp True = Inr ids"
      and ws: "length ws = length lens" "\<forall>x \<in> set ws. 0 \<le> x" for ws :: "'b::linordered_idom list"
  proof -
    have "0 \<le> part_sum ws b" if "b \<in> set mbs" for b
    proof -
      have "set b \<subseteq> {0..<length lens}" using that covers_set[OF cov] by auto
      then show ?thesis unfolding part_sum_def using ws by (auto intro!: sum_list_nonneg simp: subset_iff)
    qed
    moreover have le: "dp \<le> length mbs" using dp m by (auto dest: dvd_imp_le)
    ultimately obtain parts where "get_seqlen_balanced_partitions (map (part_sum ws) mbs) dp True = Inr parts"
      and p: "length parts = dp" "covers (length mbs) parts"
      and e: "\<forall>p \<in> set parts. length p * dp = length mbs"
      using get_seqlen_partitions_ok[of dp "map (part_sum ws) mbs" True "Max (set (map (part_sum ws) mbs))"] dp
      by auto
    then have "ids = parts" using g by simp
    moreover have "length p = length mbs div dp" if "p \<in> set parts" for p
    proof -
      have "length mbs = length p * dp" using e that by simp
      then show ?thesis using dp(1) by simp
    qed
    ultimately show ?thesis using p by (simp add: rank_ids_ok_def)
  qed
  consider "balance_by_flops args" | "\<not> balance_by_flops args" "balance_data args"
    | "\<not> balance_by_flops args" "\<not> balance_data args" by blast
  then show ?thesis
  proof cases
    case 1
    then show ?thesis using kk[of workloads] r w pos by (simp add: rank_micro_batch_ids_def)
  next
    case 2
    then show ?thesis using kk[of lens] r pos by (auto simp: rank_micro_batch_ids_def intro: less_imp_le)
  next
    case 3
    then have ids: "ids = map (\<lambda>rank. filter (\<lambda>k. k mod dp = rank) [0..<length mbs]) [0..<dp]"
      using r by (simp add: rank_micro_batch_ids_def)
    obtain q where q: "length mbs = q * dp" using dp(2) by (metis dvd_def mult.commute)
    have "length p = length mbs div dp" if "p \<in> set ids" for p
      using that residues_length dp(1) by (auto simp: ids q)
    moreover have "covers (length mbs) ids" unfolding covers_def ids by (rule residues_cover[OF dp(1)])
    ultimately show ?thesis by (simp add: rank_ids_ok_def ids)
  qed
qed

text \<open>A rank's micro-batches tile its partition: their index lists, concatenated, count it up.\<close>

definition tiled :: "rank_state \<Rightarrow> bool" where
  "tiled rs \<longleftrightarrow> concat (snd rs) = [0..<length (fst rs)]"

text \<open>The samples of a rank's micro-batches.\<close>

definition mb_samples :: "rank_state \<Rightarrow> nat list list" where
  "mb_samples rs = map (map ((!) (fst rs))) (snd rs)"

lemma mb_samples_place:
  assumes "tiled rs"
  shows "mb_samples (place_micro_batch si mb rs) = mb_samples rs @ [map ((!) si) mb] \<and>
    tiled (place_micro_batch si mb rs)"
proof -
  obtain part mbi where rs: "rs = (part, mbi)" by (cases rs)
  have c: "concat mbi = [0..<length part]" using assms by (simp add: tiled_def rs)
  have "map ((!) (part @ xs)) b = map ((!) part) b" if "b \<in> set mbi" for b xs
  proof -
    have "set b \<subseteq> set (concat mbi)" using that by auto
    then show ?thesis by (auto simp: c nth_append)
  qed
  moreover have "map ((!) (part @ xs)) [length part..<length part + length xs] = xs" for xs :: "nat list"
    by (rule nth_equalityI) auto
  from this[of "map ((!) si) mb"]
  have "map ((!) (part @ map ((!) si) mb)) [length part..<length part + length mb] = map ((!) si) mb" by simp
  moreover have "[0..<length part + length mb] = [0..<length part] @ [length part..<length part + length mb]"
    by (rule upt_add_eq_append) simp
  ultimately show ?thesis by (simp add: rs place_micro_batch_def mb_samples_def tiled_def c)
qed

lemma mb_samples_place_rank:
  "tiled rs \<Longrightarrow> mb_samples (place_rank si mbs ids rs) = mb_samples rs @ map (\<lambda>k. map ((!) si) (mbs ! k)) ids \<and>
    tiled (place_rank si mbs ids rs)"
proof (induction ids arbitrary: rs)
  case (Cons k ids)
  show ?case using Cons.IH[of "place_micro_batch si (mbs ! k) rs"] mb_samples_place[OF Cons.prems]
    by (simp add: place_rank_def)
qed (simp add: place_rank_def)

lemma length_mb_samples [simp]: "length (mb_samples rs) = length (snd rs)"
  by (simp add: mb_samples_def)

lemma concat_mb_samples: "tiled rs \<Longrightarrow> concat (mb_samples rs) = fst rs"
proof -
  assume "tiled rs"
  then have "concat (mb_samples rs) = map ((!) (fst rs)) [0..<length (fst rs)]"
    by (simp add: mb_samples_def tiled_def flip: map_concat)
  then show ?thesis by (simp add: map_nth)
qed

text \<open>The micro-batches a rank runs in training step \<open>t\<close>.\<close>

definition step_slice :: "nat list \<Rightarrow> nat \<Rightarrow> 'a list \<Rightarrow> 'a list" where
  "step_slice counts t xs = take (counts ! t) (drop (sum_list (take t counts)) xs)"

text \<open>Invariant of the loop over steps, \<open>done\<close> being the picked samples of the steps so far.\<close>

definition steps_ok :: "nat \<Rightarrow> (nat list \<Rightarrow> bool) \<Rightarrow> nat list list \<Rightarrow> rank_state list \<times> nat list \<Rightarrow> bool" where
  "steps_ok dp Q processed st \<longleftrightarrow> length (fst st) = dp \<and> length (snd st) = length processed \<and>
     (\<forall>rs \<in> set (fst st). tiled rs \<and> length (snd rs) = sum_list (snd st) \<and>
        (\<forall>b \<in> set (mb_samples rs). b \<noteq> [] \<and> Q b)) \<and>
     (\<forall>t < length processed.
        mset (concat (concat (map (\<lambda>rs. step_slice (snd st) t (mb_samples rs)) (fst st)))) = mset (processed ! t))"

lemma step_slice_old:
  "t < length counts \<Longrightarrow> sum_list counts = length xs \<Longrightarrow>
   step_slice (counts @ [c]) t (xs @ ys) = step_slice counts t xs"
proof -
  assume t: "t < length counts" and len: "sum_list counts = length xs"
  have "sum_list (take t counts) + counts ! t = sum_list (take (Suc t) counts)"
    using t by (simp add: take_Suc_conv_app_nth)
  also have "\<dots> \<le> sum_list counts" by (metis append_take_drop_id le_add1 sum_list_append)
  finally show ?thesis using t len by (simp add: step_slice_def nth_append)
qed

lemma step_slice_new:
  "sum_list counts = length xs \<Longrightarrow> length ys = c \<Longrightarrow> step_slice (counts @ [c]) (length counts) (xs @ ys) = ys"
  by (simp add: step_slice_def)

lemma covers_image:
  assumes "covers (length xs) p"
  shows "mset (map ((!) xs) (concat p)) = mset xs"
proof -
  have "mset (map ((!) xs) (concat p)) = image_mset ((!) xs) (mset [0..<length xs])"
    using assms by (simp only: mset_map covers_def)
  also have "\<dots> = mset (map ((!) xs) [0..<length xs])" by (simp only: mset_map)
  finally show ?thesis by (simp only: map_nth)
qed

lemma mset_concat_cong: "mset xss = mset yss \<Longrightarrow> mset (concat xss) = mset (concat yss)"
  unfolding mset_concat by (rule sum_list_mset_cong) (simp only: mset_map)

lemma place_step_ok:
  assumes inv: "steps_ok dp Q processed (ranks, counts)" and rids: "rank_ids_ok dp (length mbs) ids"
    and cov: "covers (length si) mbs" and ne: "[] \<notin> set mbs"
    and Q: "\<And>b. b \<in> set mbs \<Longrightarrow> Q (map ((!) si) b)"
  shows "steps_ok dp Q (processed @ [si])
    (map2 (place_rank si mbs) ids ranks, counts @ [length mbs div dp])"
proof -
  have lids: "length ids = dp" and cids: "covers (length mbs) ids"
    and eids: "\<forall>p \<in> set ids. length p = length mbs div dp" using rids by (auto simp: rank_ids_ok_def)
  have lr: "length ranks = dp" and lc: "length counts = length processed"
    and inv_r: "\<And>rs. rs \<in> set ranks \<Longrightarrow> tiled rs \<and> length (snd rs) = sum_list counts \<and> (\<forall>b \<in> set (mb_samples rs). b \<noteq> [] \<and> Q b)"
    and inv_t: "\<And>t. t < length processed \<Longrightarrow>
        mset (concat (concat (map (\<lambda>rs. step_slice counts t (mb_samples rs)) ranks))) = mset (processed ! t)"
    using inv by (auto simp: steps_ok_def)
  let ?new = "\<lambda>p. map (\<lambda>k. map ((!) si) (mbs ! k)) p"
  let ?cnt = "counts @ [length mbs div dp]"
  have rank: "mb_samples (place_rank si mbs (ids ! r) (ranks ! r)) = mb_samples (ranks ! r) @ ?new (ids ! r)"
      "tiled (place_rank si mbs (ids ! r) (ranks ! r))" "length (ids ! r) = length mbs div dp"
      "length (snd (ranks ! r)) = sum_list counts"
    if "r < dp" for r
    using mb_samples_place_rank[of "ranks ! r" si mbs "ids ! r"] inv_r[of "ranks ! r"] that lr lids eids by auto
  have in_ids: "k < length mbs" if "r < dp" "k \<in> set (ids ! r)" for r k
    using covers_set[OF cids] that lids by (auto dest: nth_mem)
  have new_ok: "b \<noteq> [] \<and> Q b" if r: "r < dp" and b: "b \<in> set (?new (ids ! r))" for r b
  proof -
    from b obtain k where k: "k \<in> set (ids ! r)" "b = map ((!) si) (mbs ! k)" by auto
    have m: "mbs ! k \<in> set mbs" using in_ids[OF r k(1)] by simp
    then show ?thesis using Q ne k(2) by (metis map_is_Nil_conv)
  qed
  have ranks_new: "map2 (place_rank si mbs) ids ranks = map (\<lambda>r. place_rank si mbs (ids ! r) (ranks ! r)) [0..<dp]"
    by (rule nth_equalityI) (auto simp: lids lr)
  have ranks_old: "ranks = map (\<lambda>r. ranks ! r) [0..<dp]" using lr by (metis map_nth)
  show ?thesis
    unfolding steps_ok_def fst_conv snd_conv
  proof (intro conjI)
    show "length (map2 (place_rank si mbs) ids ranks) = dp" using lids lr by simp
    show "length ?cnt = length (processed @ [si])" using lc by simp
    have "tiled (place_rank si mbs (ids ! r) (ranks ! r)) \<and>
        length (snd (place_rank si mbs (ids ! r) (ranks ! r))) = sum_list ?cnt \<and>
        (\<forall>b \<in> set (mb_samples (place_rank si mbs (ids ! r) (ranks ! r))). b \<noteq> [] \<and> Q b)"
      if r: "r < dp" for r
    proof (intro conjI)
      have "length (mb_samples (place_rank si mbs (ids ! r) (ranks ! r))) = sum_list ?cnt"
        using rank[OF r] by simp
      then show "length (snd (place_rank si mbs (ids ! r) (ranks ! r))) = sum_list ?cnt" by simp
      show "\<forall>b \<in> set (mb_samples (place_rank si mbs (ids ! r) (ranks ! r))). b \<noteq> [] \<and> Q b"
        using rank(1)[OF r] new_ok[OF r] inv_r[of "ranks ! r"] r lr by auto
    qed (rule rank(2)[OF r])
    then show "\<forall>rs \<in> set (map2 (place_rank si mbs) ids ranks). tiled rs \<and> length (snd rs) = sum_list ?cnt \<and>
        (\<forall>b \<in> set (mb_samples rs). b \<noteq> [] \<and> Q b)"
      by (auto simp: ranks_new)
    show "\<forall>t < length (processed @ [si]).
        mset (concat (concat (map (\<lambda>rs. step_slice ?cnt t (mb_samples rs)) (map2 (place_rank si mbs) ids ranks)))) =
        mset ((processed @ [si]) ! t)"
    proof (intro allI impI)
      fix t assume t: "t < length (processed @ [si])"
      show "mset (concat (concat (map (\<lambda>rs. step_slice ?cnt t (mb_samples rs)) (map2 (place_rank si mbs) ids ranks)))) =
        mset ((processed @ [si]) ! t)"
      proof (cases "t < length processed")
        case True
        have "map (\<lambda>rs. step_slice ?cnt t (mb_samples rs)) (map2 (place_rank si mbs) ids ranks) =
            map (\<lambda>r. step_slice counts t (mb_samples (ranks ! r))) [0..<dp]"
          using True lc rank by (auto simp: ranks_new step_slice_old)
        also have "\<dots> = map (\<lambda>rs. step_slice counts t (mb_samples rs)) ranks"
          by (subst (2) ranks_old) simp
        finally show ?thesis using inv_t[OF True] True by (simp add: nth_append)
      next
        case False
        then have t': "t = length counts" using t lc by simp
        have "map (\<lambda>rs. step_slice ?cnt t (mb_samples rs)) (map2 (place_rank si mbs) ids ranks) =
            map (\<lambda>r. ?new (ids ! r)) [0..<dp]"
          using rank t' by (auto simp: ranks_new step_slice_new)
        also have "\<dots> = map ?new ids" by (rule nth_equalityI) (simp_all add: lids)
        also have "concat \<dots> = ?new (concat ids)" by (simp only: map_concat)
        also have "concat \<dots> = map ((!) si) (concat (map ((!) mbs) (concat ids)))"
          by (simp add: map_concat comp_def)
        also have "mset \<dots> = mset si"
        proof -
          have "mset (concat (map ((!) mbs) (concat ids))) = mset (concat mbs)"
            by (rule mset_concat_cong) (rule covers_image[OF cids])
          then have "covers (length si) [concat (map ((!) mbs) (concat ids))]"
            using cov by (simp add: covers_def)
          from covers_image[OF this] show ?thesis by simp
        qed
        finally show ?thesis using t' lc by simp
      qed
    qed
  qed
qed

lemma dp_step_ok:
  fixes flops :: "(int \<Rightarrow> 'w::linordered_idom) option"
  assumes step: "dp_step args c flops cap align total_lengths picked st = Inr st'"
    and inv: "steps_ok (dp_size c) Q processed st"
    and align: "dp_size c dvd align" and pos: "\<forall>l \<in> set total_lengths. 0 < l"
    and fl: "balance_by_flops args \<Longrightarrow> (\<forall>f x. flops = Some f \<longrightarrow> 0 \<le> f x)"
    and Q: "\<And>(workloads :: 'w list) mbs b.
      step_micro_batches args workloads (map ((!) total_lengths) (concat (map snd picked))) cap align = Inr mbs \<Longrightarrow>
      \<forall>i \<in> set (concat (map snd picked)). i < length total_lengths \<Longrightarrow>
      length workloads = length (concat (map snd picked)) \<Longrightarrow> b \<in> set mbs \<Longrightarrow>
      set b \<subseteq> {0..<length (concat (map snd picked))} \<Longrightarrow>
      Q (map ((!) (concat (map snd picked))) b)"
  shows "steps_ok (dp_size c) Q (processed @ [concat (map snd picked)]) st'"
proof -
  obtain ranks counts where st: "st = (ranks, counts)" by (cases st)
  define si where "si = concat (map snd picked)"
  define lens where "lens = map ((!) total_lengths) si"
  define ws where "ws = calculate_workloads flops lens"
  let ?dp = "dp_size c"
  from step obtain mbs ids where inb: "\<forall>i \<in> set si. i < length total_lengths" and enough: "?dp \<le> length si"
    and mbs: "step_micro_batches args ws lens cap align = Inr mbs" and dp0: "0 < ?dp"
    and ids: "rank_micro_batch_ids args ?dp ws lens mbs = Inr ids"
    and st': "st' = (map2 (place_rank si mbs) ids ranks, counts @ [length mbs div ?dp])"
    by (auto simp: dp_step_def st Let_def si_def lens_def ws_def result_simps not_le not_less split: if_splits)
  have lw: "length ws = length lens" by (simp add: ws_def calculate_workloads_def split: option.split)
  have lpos: "\<forall>l \<in> set lens. 0 < l" using inb pos by (auto simp: lens_def)
  have wpos: "\<forall>w \<in> set ws. 0 \<le> w" if "balance_by_flops args"
    using fl[OF that] lpos by (auto simp: ws_def calculate_workloads_def split: option.splits intro: less_imp_le)
  have ok: "mbs_ok (length lens) align mbs" by (rule step_micro_batches_ok[OF mbs lw lpos wpos])
  then have cov: "covers (length lens) mbs" and ne: "[] \<notin> set mbs" and dv: "?dp dvd length mbs"
    using align by (auto simp: mbs_ok_def intro: dvd_trans)
  have "lens \<noteq> []" using enough dp0 by (auto simp: lens_def)
  then have mne: "mbs \<noteq> []" using covers_set[OF cov] by auto
  have rids: "rank_ids_ok ?dp (length mbs) ids"
    by (rule rank_micro_batch_ids_ok[OF ids dp0 dv mne cov lw lpos wpos])
  have "set b \<subseteq> {0..<length si}" if "b \<in> set mbs" for b
    using that covers_set[OF cov] by (auto simp: lens_def)
  then have "Q (map ((!) si) b)" if "b \<in> set mbs" for b
    using Q[of ws mbs b] mbs inb that lw by (simp add: si_def lens_def)
  from place_step_ok[OF inv[unfolded st] rids _ ne this] show ?thesis
    using cov by (simp add: st' si_def lens_def)
qed

section \<open>The schedule\<close>

definition cap_ok :: "dp_args \<Rightarrow> int list \<Rightarrow> int \<Rightarrow> nat list \<Rightarrow> bool" where
  "cap_ok args lens cap b \<longleftrightarrow>
     (use_dynamic_batch_size args \<and> \<not> balance_by_flops args \<longrightarrow> part_sum lens b \<le> cap \<or> length b = 1)"

lemma part_sum_map:
  "set b \<subseteq> {0..<length si} \<Longrightarrow> part_sum (map ((!) lens) si) b = part_sum lens (map ((!) si) b)"
  unfolding part_sum_def by (auto simp: subset_iff intro!: arg_cong[where f = sum_list])

lemma dp_steps_ok:
  fixes flops :: "(int \<Rightarrow> 'w::linordered_idom) option"
  assumes "rfold (dp_step args c flops cap align total_lengths) ss st = Inr st'"
    and "steps_ok (dp_size c) (cap_ok args total_lengths cap) processed st"
    and "dp_size c dvd align" and "\<forall>l \<in> set total_lengths. 0 < l"
    and "balance_by_flops args \<Longrightarrow> (\<forall>f x. flops = Some f \<longrightarrow> 0 \<le> f x)"
  shows "steps_ok (dp_size c) (cap_ok args total_lengths cap) (processed @ map (\<lambda>p. concat (map snd p)) ss) st'"
  using assms(1,2)
proof (induction ss arbitrary: processed st)
  case (Cons p ss)
  obtain st1 where st1: "dp_step args c flops cap align total_lengths p st = Inr st1"
    and rest: "rfold (dp_step args c flops cap align total_lengths) ss st1 = Inr st'"
    using Cons.prems(1) by (auto simp: result_simps)
  let ?si = "concat (map snd p)"
  have "steps_ok (dp_size c) (cap_ok args total_lengths cap) (processed @ [?si]) st1"
  proof (rule dp_step_ok[OF st1 Cons.prems(2) assms(3,4,5)])
    fix workloads :: "'w list" and mbs b
    assume mbs: "step_micro_batches args workloads (map ((!) total_lengths) ?si) cap align = Inr mbs"
      and inb: "\<forall>i \<in> set ?si. i < length total_lengths" and b: "b \<in> set mbs" "set b \<subseteq> {0..<length ?si}"
    have "\<forall>l \<in> set (map ((!) total_lengths) ?si). 0 < l" using assms(4) inb by (metis (no_types, lifting) imageE list.set_map nth_mem)
    from step_micro_batches_cap[OF mbs _ _ this b(1)]
    show "cap_ok args total_lengths cap (map ((!) ?si) b)"
      unfolding cap_ok_def part_sum_map[OF b(2)] by simp
  qed
  from Cons.IH[OF rest this] show ?case by simp
qed simp

lemma length_slices [simp]: "length (slices ns xs) = length ns"
  by (induction ns xs rule: slices.induct) auto

lemma concat_slices: "concat (slices ns xs) = take (sum_list ns) xs"
  by (induction ns xs rule: slices.induct) (auto simp: take_add)

text \<open>The samples all ranks train in step \<open>t\<close>, read off the schedule.\<close>

definition step_trained :: "dp_schedule \<Rightarrow> nat \<Rightarrow> nat list" where
  "step_trained s t = concat (concat (map2 (\<lambda>part mbi. step_slice (num_microbatches s) t (map (map ((!) part)) mbi))
     (partitions s) (micro_batch_indices s)))"

definition schedule_ok :: "nat \<Rightarrow> ('r \<times> nat list) list \<Rightarrow> dp_schedule \<Rightarrow> bool" where
  "schedule_ok dp groups s \<longleftrightarrow>
     length (partitions s) = dp \<and> length (micro_batch_indices s) = dp \<and>
     length (num_microbatches s) = length (num_rollouts s) \<and>
     (\<forall>r < dp. concat (micro_batch_indices s ! r) = [0..<length (partitions s ! r)] \<and>
        [] \<notin> set (micro_batch_indices s ! r) \<and>
        length (micro_batch_indices s ! r) = sum_list (num_microbatches s)) \<and>
     (\<forall>t < length (num_rollouts s).
        mset (step_trained s t) = mset (concat (map snd (slices (num_rollouts s) groups ! t))))"

lemma steps_ok_schedule:
  assumes "steps_ok dp Q (map (\<lambda>p. concat (map snd p)) (slices plan groups)) (ranks, counts)"
    and "s = \<lparr>partitions = map fst ranks, micro_batch_indices = map snd ranks,
              num_microbatches = counts, num_rollouts = plan\<rparr>"
  shows "schedule_ok dp groups s"
    and "\<And>r b. r < dp \<Longrightarrow> b \<in> set (micro_batch_indices s ! r) \<Longrightarrow> Q (map ((!) (partitions s ! r)) b)"
proof -
  have lr: "length ranks = dp" and lc: "length counts = length plan"
    and rs: "\<And>rs. rs \<in> set ranks \<Longrightarrow> tiled rs \<and> length (snd rs) = sum_list counts \<and> (\<forall>b \<in> set (mb_samples rs). b \<noteq> [] \<and> Q b)"
    and t: "\<And>t. t < length plan \<Longrightarrow>
      mset (concat (concat (map (\<lambda>rs. step_slice counts t (mb_samples rs)) ranks))) = mset (concat (map snd (slices plan groups ! t)))"
    using assms(1) by (auto simp: steps_ok_def)
  have st: "step_trained s t = concat (concat (map (\<lambda>rs. step_slice counts t (mb_samples rs)) ranks))" for t
    by (simp add: step_trained_def assms(2) mb_samples_def zip_map1 zip_map2 zip_same_conv_map comp_def split_def)
  have r: "tiled (ranks ! r)" "length (snd (ranks ! r)) = sum_list counts" "\<forall>b \<in> set (mb_samples (ranks ! r)). b \<noteq> [] \<and> Q b"
    if "r < dp" for r
    using rs[of "ranks ! r"] that lr by auto
  have "[] \<notin> set (snd (ranks ! r))" if "r < dp" for r
    using r(3)[OF that] by (auto simp: mb_samples_def)
  then show "schedule_ok dp groups s"
    unfolding schedule_ok_def st using r lr lc t by (auto simp: assms(2) tiled_def)
  show "Q (map ((!) (partitions s ! r)) b)" if "r < dp" "b \<in> set (micro_batch_indices s ! r)" for r b
    using r(3)[OF that(1)] that lr by (auto simp: assms(2) mb_samples_def)
qed

lemma build_dp_schedule_steps:
  fixes flops :: "(int \<Rightarrow> 'w::linordered_idom) option"
  assumes b: "build_dp_schedule args c flops total_lengths gbs rids = Inr s"
    and pos: "\<forall>l \<in> set total_lengths. 0 < l"
    and fl: "balance_by_flops args \<Longrightarrow> (\<forall>f x. flops = Some f \<longrightarrow> 0 \<le> f x)"
  shows "schedule_ok (dp_size c) (rollout_groups rids) s"
    and "\<exists>cap. max_per_bin args c = Inr cap \<and> (\<forall>r < dp_size c. \<forall>b \<in> set (micro_batch_indices s ! r).
      cap_ok args total_lengths cap (map ((!) (partitions s ! r)) b))"
proof -
  from b obtain align cap plan ranks counts where al: "align_to c = Inr align"
    and cap: "max_per_bin args c = Inr cap"
    and f: "rfold (dp_step args c flops cap align total_lengths) (slices plan (rollout_groups rids))
      (replicate (dp_size c) ([], []), []) = Inr (ranks, counts)"
    and s: "s = \<lparr>partitions = map fst ranks, micro_batch_indices = map snd ranks,
              num_microbatches = counts, num_rollouts = plan\<rparr>"
    by (auto simp: build_dp_schedule_def Let_def result_simps)
  have "dp_size c dvd align"
    using al by (auto simp: align_to_def Let_def split: option.splits if_splits)
  moreover have "steps_ok (dp_size c) (cap_ok args total_lengths cap) [] (replicate (dp_size c) ([], []), [])"
    by (simp add: steps_ok_def tiled_def mb_samples_def)
  ultimately have ok: "steps_ok (dp_size c) (cap_ok args total_lengths cap)
      (map (\<lambda>p. concat (map snd p)) (slices plan (rollout_groups rids))) (ranks, counts)"
    using dp_steps_ok[OF f _ _ pos fl, of "[]"] by simp
  show "schedule_ok (dp_size c) (rollout_groups rids) s" by (rule steps_ok_schedule(1)[OF ok s])
  show "\<exists>cap. max_per_bin args c = Inr cap \<and> (\<forall>r < dp_size c. \<forall>b \<in> set (micro_batch_indices s ! r).
      cap_ok args total_lengths cap (map ((!) (partitions s ! r)) b))"
    using cap steps_ok_schedule(2)[OF ok s] by blast
qed

text \<open>
  C31.  Whatever \<open>build_dp_schedule\<close> returns is a well-formed schedule: one partition and one
  micro-batch list per rank; every rank runs the same number of micro-batches in every step; on each
  rank the micro-batches are non-empty and tile the rank's partition in order; and the ranks together
  train in step \<open>t\<close> exactly the samples of the rollouts of that step, each once.
\<close>

theorem build_dp_schedule_correct:
  fixes flops :: "(int \<Rightarrow> 'w::linordered_idom) option"
  assumes "build_dp_schedule args c flops total_lengths gbs rids = Inr s"
    and "\<forall>l \<in> set total_lengths. 0 < l"
    and "balance_by_flops args \<Longrightarrow> (\<forall>f x. flops = Some f \<longrightarrow> 0 \<le> f x)"
  shows "schedule_ok (dp_size c) (rollout_groups rids) s"
  using build_dp_schedule_steps(1)[OF assms] .

definition demo_args :: dp_args where
  "demo_args = \<lparr>use_dynamic_batch_size = True, max_tokens_per_gpu = Some 8, micro_batch_size = None,
     balance_data = True, balance_by_flops = False, allow_partial_train_step = True\<rparr>"

definition demo_parallel :: train_parallel_config where
  "demo_parallel = \<lparr>dp_size = 2, cp_size = 1, vpp_size = None, mb_group_size = None\<rparr>"

definition demo_schedule :: dp_schedule where
  "demo_schedule = \<lparr>partitions = [[2, 1, 4], [0, 3]], micro_batch_indices = [[[0, 1], [2]], [[0], [1]]],
     num_microbatches = [1, 1], num_rollouts = [2, 1]\<rparr>"

lemma demo_build:
  "build_dp_schedule demo_args demo_parallel (None :: (int \<Rightarrow> int) option) [4, 3, 5, 2, 6] 2 [10, 10, 20, 30, 30 :: nat]
     = Inr demo_schedule"
  by code_simp

theorem build_dp_schedule_witness:
  "schedule_ok (dp_size demo_parallel) (rollout_groups [10, 10, 20, 30, 30 :: nat]) demo_schedule"
  using build_dp_schedule_correct[OF demo_build] by (simp add: demo_args_def)

text \<open>
  With dynamic batch sizes and no FLOPs balancing, no micro-batch of the schedule holds more
  tokens than \<open>max_tokens_per_gpu * cp_size\<close> unless it is a single sample.
\<close>

theorem build_dp_schedule_token_cap:
  fixes flops :: "(int \<Rightarrow> 'w::linordered_idom) option"
  assumes "build_dp_schedule args c flops total_lengths gbs rids = Inr s"
    and "\<forall>l \<in> set total_lengths. 0 < l"
    and "use_dynamic_batch_size args" and "\<not> balance_by_flops args" and "max_tokens_per_gpu args = Some m"
    and "r < dp_size c" and "b \<in> set (micro_batch_indices s ! r)"
  shows "part_sum total_lengths (map ((!) (partitions s ! r)) b) \<le> m * cp_size c \<or> length b = 1"
proof -
  have "max_per_bin args c = Inr (m * cp_size c)" using assms(3,5) by (simp add: max_per_bin_def)
  then show ?thesis
    using build_dp_schedule_steps(2)[OF assms(1,2)] assms(3,4,6,7) by (auto simp: cap_ok_def)
qed

theorem build_dp_schedule_token_cap_witness:
  "part_sum [4, 3, 5, 2, 6] (map ((!) (partitions demo_schedule ! 0)) [0, 1]) \<le> 8 * cp_size demo_parallel \<or>
   length [0, 1 :: nat] = 1"
  by (rule build_dp_schedule_token_cap[OF demo_build])
    (simp_all add: demo_args_def demo_parallel_def demo_schedule_def)

section \<open>Samples of one rollout\<close>

lemma slices_nth_subset: "t < length ns \<Longrightarrow> set (slices ns xs ! t) \<subseteq> set (take (sum_list ns) xs)"
  using nth_mem[of t "slices ns xs", unfolded length_slices] by (fastforce simp: concat_slices[symmetric])

lemma slices_disjoint:
  "distinct (concat (map f xs)) \<Longrightarrow> t < length ns \<Longrightarrow> u < length ns \<Longrightarrow> t \<noteq> u \<Longrightarrow>
   set (concat (map f (slices ns xs ! t))) \<inter> set (concat (map f (slices ns xs ! u))) = {}"
proof (induction ns xs arbitrary: t u rule: slices.induct)
  case (2 n ns xs)
  have app: "concat (map f xs) = concat (map f (take n xs)) @ concat (map f (drop n xs))"
    by (metis append_take_drop_id concat_append map_append)
  then have d: "distinct (concat (map f (drop n xs)))"
    and dis: "set (concat (map f (take n xs))) \<inter> set (concat (map f (drop n xs))) = {}"
    using "2.prems"(1) by (simp_all only: distinct_append)
  have "set (concat (map f (slices ns (drop n xs) ! v))) \<subseteq> set (concat (map f (drop n xs)))" if "v < length ns" for v
    using slices_nth_subset[OF that, of "drop n xs"] set_take_subset[of _ "drop n xs"] by auto
  then have first: "set (concat (map f (take n xs))) \<inter> set (concat (map f (slices ns (drop n xs) ! v))) = {}"
    if "v < length ns" for v using that dis by blast
  show ?case
  proof (cases t)
    case 0
    then obtain v where "u = Suc v" using "2.prems"(4) by (cases u) auto
    then show ?thesis using first[of v] 0 "2.prems"(3) by simp
  next
    case (Suc w)
    note t = Suc
    show ?thesis
    proof (cases u)
      case 0
      then show ?thesis using first[of w] t "2.prems"(2) by (simp add: Int_commute)
    next
      case (Suc v)
      then show ?thesis using "2.IH"[OF d, of w v] t "2.prems" by simp
    qed
  qed
qed simp

text \<open>
  Samples of the same rollout are trained in the same step or dropped together: a rollout's
  positions all lie in one step's samples and in no other's, or in no step's at all.
\<close>

theorem build_dp_schedule_same_step:
  fixes flops :: "(int \<Rightarrow> 'w::linordered_idom) option"
  assumes "build_dp_schedule args c flops total_lengths gbs rids = Inr s"
    and "\<forall>l \<in> set total_lengths. 0 < l"
    and "balance_by_flops args \<Longrightarrow> (\<forall>f x. flops = Some f \<longrightarrow> 0 \<le> f x)"
  shows "\<exists>step. \<forall>t < length (num_rollouts s).
     if t = step then set (group_of rids r) \<subseteq> set (step_trained s t)
     else set (group_of rids r) \<inter> set (step_trained s t) = {}"
proof -
  let ?g = "rollout_groups rids" and ?n = "num_rollouts s"
  have tr: "set (step_trained s t) = set (concat (map snd (slices ?n ?g ! t)))" if "t < length ?n" for t
    using build_dp_schedule_steps(1)[OF assms] that by (intro mset_eq_setD) (simp add: schedule_ok_def)
  have dis: "set (concat (map snd (slices ?n ?g ! t))) \<inter> set (concat (map snd (slices ?n ?g ! u))) = {}"
    if "t < length ?n" "u < length ?n" "t \<noteq> u" for t u
    by (rule slices_disjoint[OF rollout_groups_positions(1) that])
  have elems: "(q, l) \<in> set (slices ?n ?g ! t) \<Longrightarrow> l = group_of rids q" if "t < length ?n" for q l t
    using slices_nth_subset[OF that, of ?g] set_take_subset[of _ ?g] rollout_groups_entry[of q l rids] by blast
  show ?thesis
  proof (cases "\<exists>t < length ?n. (r, group_of rids r) \<in> set (slices ?n ?g ! t)")
    case True
    then obtain step where step: "step < length ?n" "(r, group_of rids r) \<in> set (slices ?n ?g ! step)" by blast
    then have sub: "set (group_of rids r) \<subseteq> set (concat (map snd (slices ?n ?g ! step)))" by force
    show ?thesis
      by (rule exI[of _ step]) (use sub step dis tr in \<open>auto simp del: set_concat set_map\<close>)
  next
    case False
    have "set (group_of rids r) \<inter> set (step_trained s t) = {}" if t: "t < length ?n" for t
    proof (rule ccontr)
      assume "set (group_of rids r) \<inter> set (step_trained s t) \<noteq> {}"
      then obtain i q l where "i \<in> set (group_of rids r)" "(q, l) \<in> set (slices ?n ?g ! t)" "i \<in> set l"
        by (auto simp: tr[OF t])
      moreover from this(2) have "l = group_of rids q" by (rule elems[OF t])
      ultimately show False using False t by (auto simp: group_of_def)
    qed
    then show ?thesis by (intro exI[of _ "length ?n"]) auto
  qed
qed

theorem build_dp_schedule_same_step_witness:
  "\<exists>step. \<forall>t < length (num_rollouts demo_schedule).
     if t = step then set (group_of [10, 10, 20, 30, 30 :: nat] 30) \<subseteq> set (step_trained demo_schedule t)
     else set (group_of [10, 10, 20, 30, 30 :: nat] 30) \<inter> set (step_trained demo_schedule t) = {}"
  by (rule build_dp_schedule_same_step[OF demo_build]) (simp_all add: demo_args_def)

section \<open>When the dynamic path succeeds\<close>

lemma covers_nonempty_length:
  assumes "covers n bins" and "[] \<notin> set bins"
  shows "length bins \<le> n"
proof -
  have "length bins \<le> length (concat bins)"
    using assms(2) by (induction bins) (auto simp: Suc_le_eq add_strict_increasing trans_le_add1 neq_Nil_conv)
  also have "\<dots> = n" using assms(1) unfolding covers_def by (metis size_mset length_upt diff_zero)
  finally show ?thesis .
qed

lemma covers_singleton_length:
  assumes "covers n bins" and "\<forall>b \<in> set bins. length b = 1"
  shows "length bins = n"
proof -
  have "length (concat bins) = length bins" using assms(2) by (induction bins) auto
  then show ?thesis using assms(1) unfolding covers_def by (metis size_mset length_upt diff_zero)
qed

lemma round_up_le:
  fixes a m n :: nat
  assumes "0 < a" and "a dvd n" and "m \<le> n"
  shows "(m + a - 1) div a * a \<le> n"
proof -
  obtain q where q: "n = a * q" using assms(2) by (auto simp: dvd_def)
  have "m + a - 1 < a * Suc q" using assms q by simp
  then have "(m + a - 1) div a < Suc q" by (metis less_mult_imp_div_less mult.commute)
  then show ?thesis by (simp add: q)
qed

lemma round_up_ge: "0 < (a::nat) \<Longrightarrow> m \<le> (m + a - 1) div a * a"
  using div_mult_mod_eq[of "m + a - 1" a] mod_less_divisor[of a "m + a - 1"] by linarith

text \<open>
  On the dynamic path a step whose sample count is a multiple of the alignment never fails:
  packing and growing reach a multiple of \<open>align_to\<close> micro-batches.
\<close>

theorem step_micro_batches_succeeds:
  fixes workloads :: "'w::linordered_idom list"
  assumes dyn: "use_dynamic_batch_size args" and al: "0 < align" "align dvd length lens" and ne: "lens \<noteq> []"
    and pos: "\<forall>l \<in> set lens. 0 < l" and cap: "cap \<noteq> 0" and lw: "length workloads = length lens"
    and w: "\<forall>w \<in> set workloads. 0 \<le> w"
  shows "\<exists>mbs. step_micro_batches args workloads lens cap align = Inr mbs \<and> align dvd length mbs"
proof -
  have "\<exists>bins. (if balance_by_flops args then flops_micro_batches workloads lens cap
      else Inr (first_fit_decreasing_pack lens cap)) = Inr bins \<and> covers (length lens) bins \<and> [] \<notin> set bins"
  proof (cases "balance_by_flops args")
    case True
    define count where "count = nat (max 1 ((sum_list lens + cap - 1) div cap))"
    have "\<exists>bins. flops_micro_batches workloads lens cap = Inr bins"
    proof (cases "length lens \<le> count")
      case False
      then have "0 < count" "count \<le> length workloads" using lw by (auto simp: count_def)
      then show ?thesis
        using get_seqlen_partitions_ok[of count workloads False "Max (set workloads)"] w cap False
        by (auto simp: flops_micro_batches_def Let_def count_def)
    qed (use cap in \<open>auto simp: flops_micro_batches_def Let_def count_def\<close>)
    then show ?thesis using True flops_micro_batches_ok[OF _ lw w] by auto
  next
    case False
    have "pack_spec lens cap (first_fit_decreasing_pack lens cap)" using pos
      by (auto simp: first_fit_decreasing_pack_def intro!: first_fit_spec less_imp_le)
    then show ?thesis using False by (auto simp: pack_spec_def)
  qed
  then obtain bins where bins: "(if balance_by_flops args then flops_micro_batches workloads lens cap
      else Inr (first_fit_decreasing_pack lens cap)) = Inr bins"
    and cov: "covers (length lens) bins" and nb: "[] \<notin> set bins" by blast
  define target where "target = max ((length bins + align - 1) div align * align) align"
  let ?grown = "expand_bins_by_splitting bins target lens"
  have le: "length bins \<le> length lens" by (rule covers_nonempty_length[OF cov nb])
  have "target \<le> length lens"
    using round_up_le[OF al le] dvd_imp_le[OF al(2)] ne by (simp add: target_def)
  moreover have bt: "length bins \<le> target"
    using round_up_ge[OF al(1), of "length bins"] by (simp add: target_def)
  moreover have "grown_from bins ?grown"
    by (rule expand_bins_grown[OF nb]) (use covers_set[OF cov] pos in \<open>metis atLeast_upt lessThan_iff nth_mem\<close>)
  then have g: "covers (length lens) ?grown" "\<forall>b \<in> set ?grown. b \<noteq> []"
    using cov by (auto simp: grown_from_def covers_def)
  moreover have "length ?grown = length lens" if "\<forall>b \<in> set ?grown. length b \<le> 1"
    using covers_singleton_length[OF g(1)] g(2) that by (simp add: le_Suc_eq)
  ultimately have "length ?grown = target"
    using expand_bins_reaches[of bins target lens] by auto
  then have "\<exists>mbs. grow_micro_batches lens align bins = Inr mbs"
    using al(1) by (auto simp: grow_micro_batches_def Let_def target_def)
  then obtain mbs where m: "grow_micro_batches lens align bins = Inr mbs" ..
  then have "align dvd length mbs" using grow_micro_batches_ok[OF m cov nb pos] by (simp add: mbs_ok_def)
  then show ?thesis using m bins dyn by (auto simp: step_micro_batches_def)
qed

theorem step_micro_batches_succeeds_witness:
  "\<exists>mbs. step_micro_batches demo_args [5, 5, 5, 5 :: int] [5, 5, 5, 5] 8 2 = Inr mbs \<and> 2 dvd length mbs"
  by (rule step_micro_batches_succeeds) (simp_all add: demo_args_def)

text \<open>
  Having at least as many samples as the alignment is not enough: three samples that each fill
  the token budget cannot be dealt to two ranks and the assertion fails, although the message of the
  assertion blames a sample count below the alignment threshold.
\<close>

theorem step_micro_batches_fails_above_threshold:
  "step_micro_batches demo_args [8, 8, 8 :: int] [8, 8, 8] 8 2 = Inl AssertionError"
  by code_simp

end
