(* ===== verification/Py_Json.thy ===== *)
theory Py_Json
  imports Miles_Prelude Complex_Main "HOL-Library.Char_ord" "HOL-Library.List_Lexorder"
begin

text \<open>
  The Python values that JSON bodies decode to, as the request and message code sees them: \<open>None\<close>,
  booleans, integers, finite floats (by the decimal value they print as), strings, lists and
  dictionaries.  A dictionary is an insertion-ordered association list.  Python's \<open>==\<close> ignores the
  order of keys and identifies \<open>True\<close> with \<open>1\<close> and \<open>1\<close> with \<open>1.0\<close>; it is equality of the normal
  forms \<open>canon\<close>.
\<close>

datatype json = JNull | JBool bool | JInt int | JFloat rat | JStr string | JArr "json list"
  | JObj "(string \<times> json) list"

type_synonym obj = "(string \<times> json) list"

primrec canon :: "json \<Rightarrow> json" where
  "canon JNull = JNull"
| "canon (JBool b) = JFloat (if b then 1 else 0)"
| "canon (JInt i) = JFloat (of_int i)"
| "canon (JFloat r) = JFloat r"
| "canon (JStr s) = JStr s"
| "canon (JArr xs) = JArr (map canon xs)"
| "canon (JObj d) = JObj (sort_key fst (map (map_prod id canon) d))"

definition py_eq :: "json \<Rightarrow> json \<Rightarrow> bool" where
  "py_eq a b \<longleftrightarrow> canon a = canon b"

text \<open>The same with the types of scalars kept apart; \<open>tag\<close> identifies integers and floats only.\<close>

primrec typed_canon :: "json \<Rightarrow> json" where
  "typed_canon JNull = JNull"
| "typed_canon (JBool b) = JBool b"
| "typed_canon (JInt i) = JInt i"
| "typed_canon (JFloat r) = JFloat r"
| "typed_canon (JStr s) = JStr s"
| "typed_canon (JArr xs) = JArr (map typed_canon xs)"
| "typed_canon (JObj d) = JObj (sort_key fst (map (map_prod id typed_canon) d))"

fun truthy :: "json \<Rightarrow> bool" where
  "truthy JNull = False"
| "truthy (JBool b) = b"
| "truthy (JInt i) = (i \<noteq> 0)"
| "truthy (JFloat r) = (r \<noteq> 0)"
| "truthy (JStr s) = (s \<noteq> [])"
| "truthy (JArr xs) = (xs \<noteq> [])"
| "truthy (JObj d) = (d \<noteq> [])"

fun is_obj :: "json \<Rightarrow> bool" where
  "is_obj (JObj d) = True"
| "is_obj _ = False"

text \<open>\<open>d.get(key)\<close>, \<open>d.get(key, default)\<close>, assignment, \<open>pop(key, None)\<close>, \<open>setdefault\<close> and \<open>update\<close>.\<close>

definition dget :: "obj \<Rightarrow> string \<Rightarrow> json" where
  "dget d k = (case map_of d k of None \<Rightarrow> JNull | Some v \<Rightarrow> v)"

definition dget_or :: "obj \<Rightarrow> string \<Rightarrow> json \<Rightarrow> json" where
  "dget_or d k dflt = (case map_of d k of None \<Rightarrow> dflt | Some v \<Rightarrow> v)"

abbreviation dset :: "string \<Rightarrow> json \<Rightarrow> obj \<Rightarrow> obj" where
  "dset \<equiv> AList.update"

abbreviation dpop :: "string \<Rightarrow> obj \<Rightarrow> obj" where
  "dpop \<equiv> AList.delete"

definition dhas :: "obj \<Rightarrow> string \<Rightarrow> bool" where
  "dhas d k \<longleftrightarrow> map_of d k \<noteq> None"

definition dupdate :: "obj \<Rightarrow> obj \<Rightarrow> obj" where
  "dupdate d e = fold (\<lambda>(k, v). dset k v) e d"

text \<open>A value read as a dictionary where the source writes \<open>value or {}\<close>.\<close>

fun as_obj :: "json \<Rightarrow> obj" where
  "as_obj (JObj d) = d"
| "as_obj _ = []"

lemma py_eq_equivp: "equivp py_eq"
  by (rule equivpI) (auto simp: py_eq_def reflp_def symp_def transp_def)

lemma py_eq_refl [simp]: "py_eq a a"
  by (simp add: py_eq_def)

lemma typed_canon_canon: "typed_canon a = typed_canon b \<Longrightarrow> canon a = canon b"
proof -
  have sort: "sort_key fst (map (map_prod id f) (sort_key fst d)) = sort_key fst (map (map_prod id f) d)"
    for f :: "json \<Rightarrow> json" and d :: obj
  proof -
    have "sort_key fst (map (map_prod id f) xs) = map (map_prod id f) (sort_key fst xs)" for xs :: obj
    proof (induction xs)
      case (Cons x xs)
      have "insort_key fst (map_prod id f x) (map (map_prod id f) ys) = map (map_prod id f) (insort_key fst x ys)"
        for ys :: obj by (induction ys) auto
      with Cons show ?case by (simp add: id_def)
    qed simp
    then show ?thesis by (simp add: sort_key_id_if_sorted)
  qed
  have absorb: "canon (typed_canon a) = canon a" for a
  proof (induction a)
    case (JObj d)
    have "map (map_prod id canon) (map (map_prod id typed_canon) d) = map (map_prod id canon) d"
      using JObj by (auto simp: map_prod_def split: prod.splits intro: snds.intros)
    then show ?case by (simp add: sort del: map_map)
  qed (auto simp: comp_def)
  assume "typed_canon a = typed_canon b"
  then show "canon a = canon b" using absorb[of a] absorb[of b] by simp
qed

lemma dget_update [dict_simps]: "dget (dset k v d) k' = (if k' = k then v else dget d k')"
  by (simp add: dget_def dict_simps)

lemma dget_delete [dict_simps]: "dget (dpop k d) k' = (if k' = k then JNull else dget d k')"
  by (simp add: dget_def dict_simps)

lemma map_of_dupdate: "map_of (dupdate d e) k = (case map_of (rev e) k of None \<Rightarrow> map_of d k | Some v \<Rightarrow> Some v)"
proof (induction e arbitrary: d)
  case (Cons x e)
  then show ?case by (cases x) (auto simp: dupdate_def dict_simps map_add_def split: option.splits)
qed (simp add: dupdate_def)

lemma dict_ok_dupdate [dict_simps]: "dict_ok d \<Longrightarrow> dict_ok (dupdate d e)"
  by (induction e arbitrary: d) (auto simp: dupdate_def dict_simps)

lemma map_of_rev_dict: "dict_ok e \<Longrightarrow> map_of (rev e) = map_of e"
  by (subst map_of_inject_set) (auto simp: rev_map[symmetric])

lemma dget_dupdate: "dict_ok e \<Longrightarrow> dget (dupdate d e) k = (if dhas e k then dget e k else dget d k)"
  by (auto simp: dget_def dhas_def map_of_dupdate map_of_rev_dict split: option.splits)

end
