(* ===== verification/Message_Matcher.thy ===== *)
theory Message_Matcher
  imports Py_Json
begin

text \<open>
  \<^verbatim>\<open>miles/utils/chat_template_utils/message_matcher_hub/\<close>: when a replayed chat message counts as
  the stored one.  A message is a dictionary.  \<open>json.loads\<close> with the hooks of the source, which
  reject duplicate keys and non-finite numbers, is the parameter \<open>loads\<close>.
\<close>

section \<open>Normalization\<close>

definition normalize_value :: "json \<Rightarrow> json" where
  "normalize_value v = (if v = JNull \<or> v = JStr '''' \<or> v = JArr [] then JNull else v)"

definition drop_wire_only :: "obj \<Rightarrow> obj" where
  "drop_wire_only call = filter (\<lambda>(k, v). k \<noteq> ''index'') call"

fun normalize_call :: "json \<Rightarrow> json" where
  "normalize_call (JObj call) = JObj (drop_wire_only call)"
| "normalize_call v = v"

fun normalize_tool_calls :: "json \<Rightarrow> json" where
  "normalize_tool_calls (JArr calls) = JArr (map normalize_call calls)"
| "normalize_tool_calls v = v"

text \<open>\<open>_tag_json_value\<close> tags scalars by type, with one tag for all numbers, and sorts object keys.\<close>

primrec tag_json_value :: "json \<Rightarrow> json" where
  "tag_json_value JNull = JNull"
| "tag_json_value (JBool b) = JBool b"
| "tag_json_value (JInt i) = JFloat (of_int i)"
| "tag_json_value (JFloat r) = JFloat r"
| "tag_json_value (JStr s) = JStr s"
| "tag_json_value (JArr xs) = JArr (map tag_json_value xs)"
| "tag_json_value (JObj d) = JObj (sort_key fst (map (map_prod id tag_json_value) d))"

text \<open>\<open>None\<close> is \<open>_INVALID_JSON_OBJECT\<close>.\<close>

fun normalize_json_object :: "(string \<Rightarrow> json option) \<Rightarrow> json \<Rightarrow> json option" where
  "normalize_json_object loads JNull = Some (JObj [])"
| "normalize_json_object loads (JStr s) =
     (if s = [] then Some (JObj [])
      else case loads s of Some (JObj d) \<Rightarrow> Some (tag_json_value (JObj d)) | _ \<Rightarrow> None)"
| "normalize_json_object loads (JObj d) = Some (tag_json_value (JObj d))"
| "normalize_json_object loads _ = None"

text \<open>\<open>_raw_values_match\<close>: same types all the way down, objects compared key by key.\<close>

definition raw_values_match :: "json \<Rightarrow> json \<Rightarrow> bool" where
  "raw_values_match a b \<longleftrightarrow> typed_canon a = typed_canon b"

section \<open>The built-in matchers\<close>

definition get_normalized :: "obj \<Rightarrow> string \<Rightarrow> json" where
  "get_normalized m key = normalize_value (dget m key)"

definition strict_message_matches :: "obj \<Rightarrow> obj \<Rightarrow> bool" where
  "strict_message_matches stored replayed \<longleftrightarrow>
     list_all (\<lambda>key. py_eq (get_normalized stored key) (get_normalized replayed key))
       [''role'', ''content'', ''reasoning_content''] \<and>
     py_eq (normalize_tool_calls (get_normalized stored ''tool_calls''))
           (normalize_tool_calls (get_normalized replayed ''tool_calls''))"

definition arguments_match :: "(string \<Rightarrow> json option) \<Rightarrow> json \<Rightarrow> json \<Rightarrow> bool" where
  "arguments_match loads a b =
     (case (normalize_json_object loads a, normalize_json_object loads b) of
        (Some x, Some y) \<Rightarrow> x = y
      | _ \<Rightarrow> raw_values_match a b)"

definition same_keys :: "obj \<Rightarrow> obj \<Rightarrow> bool" where
  "same_keys d e \<longleftrightarrow> set (map fst d) = set (map fst e)"

fun functions_match :: "(string \<Rightarrow> json option) \<Rightarrow> json \<Rightarrow> json \<Rightarrow> bool" where
  "functions_match loads (JObj d) (JObj e) =
     (same_keys d e \<and>
      list_all (\<lambda>(k, v). if k = ''arguments'' then arguments_match loads v (dget e k) else py_eq v (dget e k)) d)"
| "functions_match loads a b = raw_values_match a b"

fun tool_call_matches :: "(string \<Rightarrow> json option) \<Rightarrow> json \<Rightarrow> json \<Rightarrow> bool" where
  "tool_call_matches loads (JObj d) (JObj e) =
     (same_keys (drop_wire_only d) (drop_wire_only e) \<and>
      list_all (\<lambda>(k, v). if k = ''function'' then functions_match loads v (dget (drop_wire_only e) k)
                        else py_eq v (dget (drop_wire_only e) k)) (drop_wire_only d))"
| "tool_call_matches loads a b = raw_values_match a b"

definition loose_tool_call_message_matches :: "(string \<Rightarrow> json option) \<Rightarrow> obj \<Rightarrow> obj \<Rightarrow> bool" where
  "loose_tool_call_message_matches loads stored replayed \<longleftrightarrow>
     strict_message_matches stored replayed \<or>
     list_all (\<lambda>key. py_eq (get_normalized stored key) (get_normalized replayed key))
       [''role'', ''content'', ''reasoning_content''] \<and>
     (case (get_normalized stored ''tool_calls'', get_normalized replayed ''tool_calls'') of
        (JArr xs, JArr ys) \<Rightarrow> list_all2 (tool_call_matches loads) xs ys
      | (a, b) \<Rightarrow> raw_values_match a b)"

definition role_content_only_message_matches :: "obj \<Rightarrow> obj \<Rightarrow> bool" where
  "role_content_only_message_matches stored replayed \<longleftrightarrow>
     list_all (\<lambda>key. py_eq (get_normalized stored key) (get_normalized replayed key)) [''role'', ''content'']"

text \<open>The outcome of calling a configured matcher, and \<open>_validated\<close>, which accepts exact booleans.\<close>

datatype matcher_outcome = Returned_bool bool | Returned_other | Raised

datatype matcher_error = SessionMessageMatcherError

fun validated :: "matcher_outcome \<Rightarrow> matcher_error + bool" where
  "validated (Returned_bool b) = Inr b"
| "validated Returned_other = Inl SessionMessageMatcherError"
| "validated Raised = Inl SessionMessageMatcherError"

definition resolve_session_message_matcher ::
  "(string \<Rightarrow> json option) \<Rightarrow> (string \<Rightarrow> (obj \<Rightarrow> obj \<Rightarrow> matcher_outcome) option) \<Rightarrow> string \<Rightarrow>
   py_exn + (obj \<Rightarrow> obj \<Rightarrow> matcher_error + bool)" where
  "resolve_session_message_matcher loads load_function selector =
     (if selector = ''strict'' then Inr (\<lambda>a b. validated (Returned_bool (strict_message_matches a b)))
      else if selector = ''loose_tool_call''
      then Inr (\<lambda>a b. validated (Returned_bool (loose_tool_call_message_matches loads a b)))
      else if selector = ''role_content_only''
      then Inr (\<lambda>a b. validated (Returned_bool (role_content_only_message_matches a b)))
      else if selector = [] \<or> CHR ''.'' \<notin> set selector then Inl ValueError
      else case load_function selector of None \<Rightarrow> Inl ValueError | Some m \<Rightarrow> Inr (\<lambda>a b. validated (m a b)))"

section \<open>Append-only validation\<close>

definition role_allowed :: "string list \<Rightarrow> obj \<Rightarrow> bool" where
  "role_allowed allowed m \<longleftrightarrow> dget m ''role'' \<in> JStr ` set allowed"

definition assert_messages_append_only ::
  "(obj \<Rightarrow> obj \<Rightarrow> bool) \<Rightarrow> string list \<Rightarrow> obj list \<Rightarrow> obj list \<Rightarrow> py_exn + unit" where
  "assert_messages_append_only matcher allowed stored new =
     (if stored = [] then Inr ()
      else if length new < length stored then Inl ValueError
      else if \<not> list_all2 matcher stored (take (length stored) new) then Inl ValueError
      else if \<not> list_all (role_allowed allowed) (drop (length stored) new) then Inl ValueError
      else Inr ())"

lemma assert_messages_append_only_iff:
  "assert_messages_append_only matcher allowed stored new = Inr () \<longleftrightarrow>
     stored = [] \<or> (match_len matcher stored new = length stored \<and>
       list_all (role_allowed allowed) (drop (length stored) new))"
  by (auto simp: assert_messages_append_only_def match_len_full_iff dest: list_all2_lengthD)

text \<open>
  The strict matcher is an equivalence relation on messages, the loose tool-call matcher and the
  role-and-content matcher accept everything it accepts, and the loose matcher rejects nothing on a
  message replayed verbatim.
\<close>

theorem strict_matcher_equivalence:
  "equivp strict_message_matches \<and>
   strict_message_matches \<le> loose_tool_call_message_matches loads \<and>
   strict_message_matches \<le> role_content_only_message_matches \<and>
   loose_tool_call_message_matches loads m m"
proof (intro conjI)
  have key: "strict_message_matches a b \<longleftrightarrow>
      (map (\<lambda>k. canon (get_normalized a k)) [''role'', ''content'', ''reasoning_content''],
       canon (normalize_tool_calls (get_normalized a ''tool_calls''))) =
      (map (\<lambda>k. canon (get_normalized b k)) [''role'', ''content'', ''reasoning_content''],
       canon (normalize_tool_calls (get_normalized b ''tool_calls'')))" for a b
    by (auto simp: strict_message_matches_def py_eq_def)
  show "equivp strict_message_matches"
    by (rule equivpI) (auto simp: reflp_def symp_def transp_def key)
  show "strict_message_matches \<le> loose_tool_call_message_matches loads"
    by (auto simp: loose_tool_call_message_matches_def)
  show "strict_message_matches \<le> role_content_only_message_matches"
    by (auto simp: strict_message_matches_def role_content_only_message_matches_def)
  show "loose_tool_call_message_matches loads m m"
    by (simp add: loose_tool_call_message_matches_def key)
qed

end
