(* ===== verification/Session_Errors.thy ===== *)
theory Session_Errors
  imports Miles_Prelude
begin

text \<open>
  \<^verbatim>\<open>miles/rollout/session/errors.py\<close>: the session server's error classes and their HTTP status
  codes.  \<open>Uncaught\<close> is any other exception, which the server answers with 500.
\<close>

datatype session_error = SessionNotFoundError | MessageValidationError | TruncatedGenerationError
  | TokenizationError | UpstreamResponseError | UpstreamGenerationAbortedError
  | OutputStoreContractError | Uncaught py_exn

fun status_code :: "session_error \<Rightarrow> nat" where
  "status_code SessionNotFoundError = 404"
| "status_code MessageValidationError = 400"
| "status_code TruncatedGenerationError = 409"
| "status_code TokenizationError = 500"
| "status_code UpstreamResponseError = 502"
| "status_code UpstreamGenerationAbortedError = 503"
| "status_code OutputStoreContractError = 424"
| "status_code (Uncaught e) = 500"

text \<open>An exception of a helper, seen by the session code: \<open>except ValueError: raise MessageValidationError\<close>.\<close>

fun value_error_as_400 :: "py_exn + 'a \<Rightarrow> session_error + 'a" where
  "value_error_as_400 (Inr x) = Inr x"
| "value_error_as_400 (Inl ValueError) = Inl MessageValidationError"
| "value_error_as_400 (Inl e) = Inl (Uncaught e)"

fun uncaught :: "py_exn + 'a \<Rightarrow> session_error + 'a" where
  "uncaught (Inr x) = Inr x"
| "uncaught (Inl e) = Inl (Uncaught e)"

lemma uncaught_Inr_iff [result_simps]: "uncaught m = Inr x \<longleftrightarrow> m = Inr x"
  by (cases m) auto

lemma value_error_as_400_Inr_iff [result_simps]: "value_error_as_400 m = Inr x \<longleftrightarrow> m = Inr x"
proof (cases m)
  case (Inl e)
  then show ?thesis by (cases e) auto
qed auto

end
