(* ===== verification/Tito_Tokenizer.thy ===== *)
theory Tito_Tokenizer
  imports Message_Matcher Session_Errors
begin

text \<open>
  \<^verbatim>\<open>miles/utils/chat_template_utils/tito_tokenizer.py\<close> and the native path of
  \<^verbatim>\<open>template.py\<close>: the per-family rules that resolve a request's template arguments, and the
  incremental tokenization that reuses the stored token prefix of a conversation.  The Hugging Face
  tokenizer (its Jinja rendering, its encoder, its vocabulary), the pydantic tool schema and the
  standard library's JSON codec are the fields of \<open>hf_tokenizer\<close>.  The law that sessions rely on,
  that merging keeps the stored tokens up to \<open>max_trim_tokens\<close>, is the locale \<open>prefix_merger\<close>.
\<close>

record hf_tokenizer =
  hf_apply :: "obj list \<Rightarrow> bool \<Rightarrow> json list option \<Rightarrow> obj \<Rightarrow> string option"
  hf_special :: "(obj list \<Rightarrow> bool \<Rightarrow> json \<Rightarrow> obj \<Rightarrow> py_exn + string) option"
  hf_encode :: "string \<Rightarrow> nat list"
  hf_token_id :: "string \<Rightarrow> nat"
  hf_loads :: "string \<Rightarrow> json option"
  hf_tool_dump :: "json \<Rightarrow> json option"

section \<open>Rendering\<close>

text \<open>\<open>normalize_tool_arguments(messages, "dict")\<close>.\<close>

definition normalize_call_arguments :: "(string \<Rightarrow> json option) \<Rightarrow> json \<Rightarrow> py_exn + json" where
  "normalize_call_arguments loads item =
     (case item of
        JObj call \<Rightarrow>
          (if \<not> truthy (dget call ''function'') then Inr item
           else case dget call ''function'' of
             JObj func \<Rightarrow>
               (case dget func ''arguments'' of
                  JStr s \<Rightarrow> (case loads s of None \<Rightarrow> Inl ValueError
                    | Some args \<Rightarrow> Inr (JObj (dset ''function'' (JObj (dset ''arguments'' args func)) call)))
                | _ \<Rightarrow> Inr item)
           | _ \<Rightarrow> Inl AttributeError)
      | _ \<Rightarrow> Inl AttributeError)"

definition normalize_message :: "(string \<Rightarrow> json option) \<Rightarrow> obj \<Rightarrow> py_exn + obj" where
  "normalize_message loads msg =
     (if dget msg ''role'' = JStr ''assistant''
      then let msg = (if dget msg ''content'' = JNull then dset ''content'' (JStr '''') msg else msg)
           in case dget msg ''tool_calls'' of
                JArr calls \<Rightarrow> rbind (rmap (normalize_call_arguments loads) calls)
                                (\<lambda>calls'. Inr (dset ''tool_calls'' (JArr calls') msg))
              | _ \<Rightarrow> Inr msg
      else Inr msg)"

definition normalize_tool_arguments :: "(string \<Rightarrow> json option) \<Rightarrow> obj list \<Rightarrow> py_exn + obj list" where
  "normalize_tool_arguments loads = rmap (normalize_message loads)"

text \<open>The items iterating over a value yields.\<close>

fun iter_items :: "json \<Rightarrow> py_exn + json list" where
  "iter_items (JArr xs) = Inr xs"
| "iter_items (JStr s) = Inr (map (\<lambda>c. JStr [c]) s)"
| "iter_items (JObj d) = Inr (map (JStr \<circ> fst) d)"
| "iter_items _ = Inl TypeError"

definition wrap_tool :: "json \<Rightarrow> json" where
  "wrap_tool t = (case t of
      JObj d \<Rightarrow> if dhas d ''function'' then t
                else JObj [(''type'', JStr ''function''), (''function'', t)]
    | _ \<Rightarrow> JObj [(''type'', JStr ''function''), (''function'', t)])"

definition extract_tool_dicts :: "(json \<Rightarrow> json option) \<Rightarrow> json \<Rightarrow> py_exn + json list option" where
  "extract_tool_dicts dump tools =
     (if \<not> truthy tools then Inr None
      else rbind (iter_items tools) (\<lambda>items.
           rbind (rmap (\<lambda>t. case dump (wrap_tool t) of None \<Rightarrow> Inl ValueError | Some d \<Rightarrow> Inr d) items) (\<lambda>ds.
           Inr (Some ds))))"

definition tool_function :: "json \<Rightarrow> json" where
  "tool_function t = (case t of JObj d \<Rightarrow> if dhas d ''function'' then dget d ''function'' else t | _ \<Rightarrow> t)"

text \<open>The renderer arguments carry the tools under their own key.\<close>

definition apply_chat_template :: "hf_tokenizer \<Rightarrow> obj list \<Rightarrow> bool \<Rightarrow> obj \<Rightarrow> py_exn + string" where
  "apply_chat_template hf messages add_generation_prompt args =
     (let tools = dget args ''tools''; kwargs = dpop ''tools'' args
      in case hf_special hf of
           Some render \<Rightarrow> render messages add_generation_prompt tools kwargs
         | None \<Rightarrow>
             rbind (normalize_tool_arguments (hf_loads hf) messages) (\<lambda>msgs.
             rbind (extract_tool_dicts (hf_tool_dump hf) tools) (\<lambda>defs.
               case hf_apply hf msgs add_generation_prompt defs kwargs of
                 Some text \<Rightarrow> Inr text
               | None \<Rightarrow>
                   (case defs of
                      None \<Rightarrow> Inl ValueError
                    | Some ds \<Rightarrow>
                        (case hf_apply hf msgs add_generation_prompt (Some (map tool_function ds)) kwargs of
                           Some text \<Rightarrow> Inr text | None \<Rightarrow> Inl ValueError)))))"

section \<open>Families\<close>

datatype tito_type = DEFAULT | QWEN3 | QWEN35 | QWEN36 | QWEN38_SMALL | QWEN4_EXP | QWENNEXT | GLM47
  | GLM53 | NEMOTRON3 | KIMI25 | KIMI26 | MINIMAX_M25 | MINIMAX_M27 | DEEPSEEKV32 | DEEPSEEKV4
  | DEEPSEEKV41 | INKLING

record fixed_template =
  template_file :: "string option"
  extra_kwargs :: obj
  allowed_append_roles :: "string list"
  consistant_kwargs :: "string list"

abbreviation ALL_APPEND_ROLES :: "string list" where
  "ALL_APPEND_ROLES \<equiv> [''tool'', ''user'', ''system'', ''assistant'']"

abbreviation NO_SYSTEM_ROLES :: "string list" where
  "NO_SYSTEM_ROLES \<equiv> [''tool'', ''user'', ''assistant'']"

fun FIXED_TEMPLATE :: "tito_type \<Rightarrow> fixed_template" where
  "FIXED_TEMPLATE DEFAULT = \<lparr>template_file = None, extra_kwargs = [],
     allowed_append_roles = ALL_APPEND_ROLES, consistant_kwargs = []\<rparr>"
| "FIXED_TEMPLATE QWEN3 = \<lparr>template_file = Some ''qwen3_fixed.jinja'',
     extra_kwargs = [(''clear_thinking'', JBool False)],
     allowed_append_roles = ALL_APPEND_ROLES, consistant_kwargs = []\<rparr>"
| "FIXED_TEMPLATE QWEN35 = \<lparr>template_file = Some ''qwen3.5_fixed.jinja'',
     extra_kwargs = [(''preserve_thinking'', JBool True)],
     allowed_append_roles = NO_SYSTEM_ROLES, consistant_kwargs = [''add_vision_id'']\<rparr>"
| "FIXED_TEMPLATE QWEN36 = \<lparr>template_file = Some ''qwen3.6_fixed.jinja'',
     extra_kwargs = [(''preserve_thinking'', JBool True)],
     allowed_append_roles = NO_SYSTEM_ROLES, consistant_kwargs = [''add_vision_id'']\<rparr>"
| "FIXED_TEMPLATE QWEN38_SMALL = \<lparr>template_file = Some ''qwen3.8_small_and_flash_next_fixed.jinja'',
     extra_kwargs = [(''preserve_thinking'', JBool True)],
     allowed_append_roles = NO_SYSTEM_ROLES,
     consistant_kwargs = [''add_vision_id'', ''enable_thinking'', ''reasoning_effort'']\<rparr>"
| "FIXED_TEMPLATE QWEN4_EXP = \<lparr>template_file = Some ''qwen3.8_small_and_flash_next_fixed.jinja'',
     extra_kwargs = [(''preserve_thinking'', JBool True)],
     allowed_append_roles = NO_SYSTEM_ROLES,
     consistant_kwargs = [''add_vision_id'', ''enable_thinking'', ''reasoning_effort'']\<rparr>"
| "FIXED_TEMPLATE QWENNEXT = \<lparr>template_file = Some ''qwen3_thinking_2507_and_next_fixed.jinja'',
     extra_kwargs = [(''clear_thinking'', JBool False)],
     allowed_append_roles = ALL_APPEND_ROLES, consistant_kwargs = []\<rparr>"
| "FIXED_TEMPLATE GLM47 = \<lparr>template_file = None, extra_kwargs = [(''clear_thinking'', JBool False)],
     allowed_append_roles = ALL_APPEND_ROLES, consistant_kwargs = []\<rparr>"
| "FIXED_TEMPLATE GLM53 = \<lparr>template_file = None,
     extra_kwargs = [(''clear_thinking'', JBool False), (''enable_thinking'', JBool True)],
     allowed_append_roles = ALL_APPEND_ROLES, consistant_kwargs = [''reasoning_effort'']\<rparr>"
| "FIXED_TEMPLATE NEMOTRON3 = \<lparr>template_file = None,
     extra_kwargs = [(''truncate_history_thinking'', JBool False)],
     allowed_append_roles = ALL_APPEND_ROLES, consistant_kwargs = [''low_effort'']\<rparr>"
| "FIXED_TEMPLATE KIMI25 = \<lparr>template_file = Some ''kimi_k25_fixed.jinja'',
     extra_kwargs = [(''preserve_thinking'', JBool True)],
     allowed_append_roles = ALL_APPEND_ROLES, consistant_kwargs = [''thinking'', ''tools_ts_str'']\<rparr>"
| "FIXED_TEMPLATE KIMI26 = \<lparr>template_file = None, extra_kwargs = [(''preserve_thinking'', JBool True)],
     allowed_append_roles = ALL_APPEND_ROLES, consistant_kwargs = [''tools_ts_str'']\<rparr>"
| "FIXED_TEMPLATE MINIMAX_M25 = \<lparr>template_file = Some ''minimax_m25_fixed.jinja'',
     extra_kwargs = [(''clear_thinking'', JBool False)],
     allowed_append_roles = NO_SYSTEM_ROLES, consistant_kwargs = []\<rparr>"
| "FIXED_TEMPLATE MINIMAX_M27 = \<lparr>template_file = Some ''minimax_m27_fixed.jinja'',
     extra_kwargs = [(''clear_thinking'', JBool False)],
     allowed_append_roles = NO_SYSTEM_ROLES, consistant_kwargs = []\<rparr>"
| "FIXED_TEMPLATE DEEPSEEKV32 = \<lparr>template_file = None, extra_kwargs = [(''drop_thinking'', JBool False)],
     allowed_append_roles = ALL_APPEND_ROLES, consistant_kwargs = [''add_default_bos_token'', ''context'']\<rparr>"
| "FIXED_TEMPLATE DEEPSEEKV4 = \<lparr>template_file = None, extra_kwargs = [(''drop_thinking'', JBool False)],
     allowed_append_roles = NO_SYSTEM_ROLES,
     consistant_kwargs = [''add_default_bos_token'', ''context'', ''reasoning_effort'']\<rparr>"
| "FIXED_TEMPLATE DEEPSEEKV41 = \<lparr>template_file = None, extra_kwargs = [(''drop_thinking'', JBool False)],
     allowed_append_roles = NO_SYSTEM_ROLES,
     consistant_kwargs = [''add_default_bos_token'', ''context'', ''reasoning_effort'']\<rparr>"
| "FIXED_TEMPLATE INKLING = \<lparr>template_file = Some ''inkling_fixed.jinja'', extra_kwargs = [],
     allowed_append_roles = ALL_APPEND_ROLES, consistant_kwargs = [''reasoning_effort'']\<rparr>"

text \<open>How a family treats the boundary between the sampled tokens and the appended render.\<close>

datatype boundary = Plain | Append_newline nat nat | Ambiguous_stop "nat list"

fun newline_id :: "hf_tokenizer \<Rightarrow> py_exn + nat" where
  "newline_id hf = (case hf_encode hf [CHR 0x0A] of [i] \<Rightarrow> Inr i | _ \<Rightarrow> Inl AssertionError)"

fun eos_token :: "tito_type \<Rightarrow> string option" where
  "eos_token t = (if t \<in> {QWEN3, QWEN35, QWEN36, QWEN38_SMALL, QWEN4_EXP, QWENNEXT, NEMOTRON3} then Some ''<|im_end|>''
     else if t \<in> {MINIMAX_M25, MINIMAX_M27} then Some ''[e~['' else None)"

definition family_boundary :: "hf_tokenizer \<Rightarrow> tito_type \<Rightarrow> py_exn + boundary" where
  "family_boundary hf t =
     (if t \<in> {GLM47, GLM53}
      then Inr (Ambiguous_stop [hf_token_id hf ''<|observation|>'', hf_token_id hf ''<|user|>''])
      else case eos_token t of
             None \<Rightarrow> Inr Plain
           | Some eos \<Rightarrow> rbind (newline_id hf) (\<lambda>nl. Inr (Append_newline (hf_token_id hf eos) nl)))"

definition max_trim_tokens :: "tito_type \<Rightarrow> nat" where
  "max_trim_tokens t = (if t \<in> {GLM47, GLM53} then 1 else 0)"

definition family_allow_stop_token_replace :: "tito_type \<Rightarrow> bool" where
  "family_allow_stop_token_replace t = (t \<in> {GLM47, GLM53})"

definition is_deepseek :: "tito_type \<Rightarrow> bool" where
  "is_deepseek t = (t \<in> {DEEPSEEKV32, DEEPSEEKV4, DEEPSEEKV41})"

text \<open>An instance: its family, launch template arguments and resolved stop-token policy.\<close>

record tito =
  tito_family :: tito_type
  tito_boundary :: boundary
  launch_kwargs :: obj
  allow_stop_token_replace :: bool

section \<open>Request argument rules\<close>

abbreviation ctk :: string where
  "ctk \<equiv> ''chat_template_kwargs''"

definition template_kwargs_of :: "obj option \<Rightarrow> obj" where
  "template_kwargs_of args = as_obj (dget (case args of None \<Rightarrow> [] | Some a \<Rightarrow> a) ctk)"

definition mode_aliases :: "string list" where
  "mode_aliases = [''thinking_mode'', ''enable_thinking'', ''thinking'']"

definition pick_keys :: "string list \<Rightarrow> obj \<Rightarrow> obj" where
  "pick_keys keys d = concat (map (\<lambda>k. case map_of d k of None \<Rightarrow> [] | Some v \<Rightarrow> [(k, v)]) keys)"

definition pop_keys :: "string list \<Rightarrow> obj \<Rightarrow> obj" where
  "pop_keys keys d = fold dpop keys d"

text \<open>The first of the three sources that names a thinking alias; none does if all are empty.\<close>

fun first_mode :: "obj list \<Rightarrow> obj" where
  "first_mode [] = []"
| "first_mode (s # ss) = (if pick_keys mode_aliases s \<noteq> [] then pick_keys mode_aliases s else first_mode ss)"

definition resolve_template_kwargs :: "tito_type \<Rightarrow> obj \<Rightarrow> obj \<Rightarrow> obj option \<Rightarrow> obj \<Rightarrow> obj" where
  "resolve_template_kwargs t launch source turn_args request_args =
     (let history = template_kwargs_of turn_args; requested = template_kwargs_of (Some source);
          kwargs = dpop ''tools'' (dupdate (dupdate launch history) requested);
          kwargs = (if is_deepseek t
                    then dupdate (pop_keys mode_aliases kwargs) (first_mode [history, requested, launch])
                    else kwargs)
      in dset ctk (JObj kwargs) request_args)"

fun tools_eq :: "json list option \<Rightarrow> json list option \<Rightarrow> bool" where
  "tools_eq None None = True"
| "tools_eq (Some xs) (Some ys) = list_all2 py_eq xs ys"
| "tools_eq _ _ = False"

definition resolve_tools ::
  "hf_tokenizer \<Rightarrow> obj \<Rightarrow> obj \<Rightarrow> obj option \<Rightarrow> obj \<Rightarrow> py_exn + obj" where
  "resolve_tools hf launch source turn_args request_args =
     (let tools = (if truthy (dget source ''tools'') then dget source ''tools'' else JNull)
      in case turn_args of
           None \<Rightarrow> Inr (dset ''tools'' (if truthy tools then tools else dget launch ''tools'') request_args)
         | Some turn \<Rightarrow>
             let recorded = dget turn ''tools''
             in if tools = JNull then Inr (dset ''tools'' recorded request_args)
                else rbind (extract_tool_dicts (hf_tool_dump hf) tools) (\<lambda>a.
                     rbind (extract_tool_dicts (hf_tool_dump hf) recorded) (\<lambda>b.
                     if tools_eq a b then Inr (dset ''tools'' tools request_args) else Inl ValueError)))"

definition resolve_history_args :: "tito_type \<Rightarrow> obj option \<Rightarrow> obj \<Rightarrow> obj" where
  "resolve_history_args t turn_args request_args =
     (case turn_args of
        None \<Rightarrow> request_args
      | Some turn \<Rightarrow>
          let keys = consistant_kwargs (FIXED_TEMPLATE t); kwargs = as_obj (dget request_args ctk)
          in dset ctk (JObj (dupdate (pop_keys keys kwargs) (pick_keys keys (template_kwargs_of turn_args))))
               request_args)"

definition apply_fixed_template_kwargs :: "tito_type \<Rightarrow> obj \<Rightarrow> obj" where
  "apply_fixed_template_kwargs t request_args =
     (let extra = extra_kwargs (FIXED_TEMPLATE t)
      in if extra = [] then request_args
         else dset ctk (JObj (dupdate (as_obj (dget request_args ctk)) extra)) request_args)"

text \<open>\<open>DeepSeekFamily.render_thinking_enabled\<close>: the first of the aliases decides, thinking is the default.\<close>

definition render_thinking_enabled :: "obj \<Rightarrow> bool" where
  "render_thinking_enabled kwargs =
     (if dhas kwargs ''thinking_mode'' then dget kwargs ''thinking_mode'' = JStr ''thinking''
      else if dget kwargs ''enable_thinking'' \<noteq> JNull then truthy (dget kwargs ''enable_thinking'')
      else if dget kwargs ''thinking'' \<noteq> JNull then truthy (dget kwargs ''thinking'')
      else True)"

definition resolve_thinking :: "tito_type \<Rightarrow> obj \<Rightarrow> obj" where
  "resolve_thinking t request_args =
     (if is_deepseek t
      then let kwargs = as_obj (dget request_args ctk)
           in dset ctk (JObj (dset ''thinking'' (JBool (render_thinking_enabled kwargs)) (pop_keys mode_aliases kwargs)))
                request_args
      else request_args)"

definition resolve_request_args ::
  "hf_tokenizer \<Rightarrow> tito_type \<Rightarrow> obj \<Rightarrow> obj \<Rightarrow> obj option \<Rightarrow> py_exn + obj" where
  "resolve_request_args hf t launch request_args turn_args =
     (let source = request_args
      in rbind (resolve_tools hf launch source turn_args (resolve_template_kwargs t launch source turn_args request_args))
           (\<lambda>args. Inr (resolve_thinking t (apply_fixed_template_kwargs t (resolve_history_args t turn_args args)))))"

definition extract_template_args :: "obj \<Rightarrow> obj" where
  "extract_template_args request_args =
     (let args = as_obj (dget request_args ctk)
      in if truthy (dget request_args ''tools'') then dset ''tools'' (dget request_args ''tools'') args else args)"

text \<open>\<open>get_tito_tokenizer\<close>: the launch arguments are resolved by the family's own rules.\<close>

definition get_tito_tokenizer ::
  "hf_tokenizer \<Rightarrow> tito_type \<Rightarrow> obj \<Rightarrow> bool option \<Rightarrow> py_exn + tito" where
  "get_tito_tokenizer hf t user_kwargs allow =
     rbind (resolve_request_args hf t user_kwargs [] None) (\<lambda>launch_args.
       let launch = extract_template_args launch_args;
           launch = (if t = DEEPSEEKV41 then dset ''thinking'' (JBool (render_thinking_enabled launch)) launch else launch)
       in rbind (family_boundary hf t) (\<lambda>bd.
          Inr \<lparr>tito_family = t, tito_boundary = bd, launch_kwargs = launch,
               allow_stop_token_replace = (case allow of None \<Rightarrow> family_allow_stop_token_replace t | Some b \<Rightarrow> b)\<rparr>))"

section \<open>Incremental tokenization\<close>

definition DUMMY_SYSTEM :: obj where
  "DUMMY_SYSTEM = [(''role'', JStr ''system''), (''content'', JStr ''dummy system'')]"

definition build_dummy_assistant :: "obj \<Rightarrow> obj" where
  "build_dummy_assistant stored =
     [(''role'', JStr ''assistant''), (''content'', JStr ''''), (''reasoning_content'', JStr '' ''),
      (''tool_calls'', if truthy (dget stored ''tool_calls'') then dget stored ''tool_calls'' else JArr [])]"

definition suffix_tokens :: "hf_tokenizer \<Rightarrow> obj \<Rightarrow> obj list \<Rightarrow> obj list \<Rightarrow> py_exn + nat list" where
  "suffix_tokens hf args base extended =
     rbind (apply_chat_template hf base False args) (\<lambda>text_without.
     rbind (apply_chat_template hf extended True args) (\<lambda>text_with.
       if take (length text_without) text_with = text_without
       then Inr (hf_encode hf (drop (length text_without) text_with)) else Inl ValueError))"

definition tokenize_additional_messages ::
  "hf_tokenizer \<Rightarrow> tito \<Rightarrow> obj list \<Rightarrow> obj list \<Rightarrow> obj \<Rightarrow> py_exn + nat list" where
  "tokenize_additional_messages hf tito old new args =
     rbind (assert_messages_append_only strict_message_matches
              (allowed_append_roles (FIXED_TEMPLATE (tito_family tito))) old new) (\<lambda>_.
       if tito_family tito \<in> {DEEPSEEKV4, DEEPSEEKV41} then suffix_tokens hf args old new
       else if old = [] then Inl IndexError
       else let base = [DUMMY_SYSTEM, build_dummy_assistant (last old)]
            in suffix_tokens hf args base (base @ drop (length old) new))"

text \<open>Joining the stored tokens with the increment at the family's boundary.\<close>

fun join_tokens :: "boundary \<Rightarrow> bool \<Rightarrow> nat list \<Rightarrow> nat list \<Rightarrow> session_error + nat list" where
  "join_tokens Plain allow pre inc = Inr (pre @ inc)"
| "join_tokens (Append_newline eos nl) allow pre inc =
     Inr ((if pre \<noteq> [] \<and> last pre = eos then pre @ [nl] else pre) @ inc)"
| "join_tokens (Ambiguous_stop ids) allow pre inc =
     (if pre \<noteq> [] \<and> last pre \<in> set ids
      then if inc = [] then Inl (Uncaught IndexError)
           else if last pre \<noteq> hd inc \<and> \<not> allow then Inl MessageValidationError
           else Inr (butlast pre @ inc)
      else Inr (pre @ inc))"

definition merge_tokens ::
  "hf_tokenizer \<Rightarrow> tito \<Rightarrow> obj list \<Rightarrow> obj list \<Rightarrow> nat list \<Rightarrow> obj \<Rightarrow> session_error + nat list" where
  "merge_tokens hf tito old new pre args =
     rbind (uncaught (tokenize_additional_messages hf tito old new args))
       (join_tokens (tito_boundary tito) (allow_stop_token_replace tito) pre)"

section \<open>Server-owned message state\<close>

text \<open>\<open>preserve_server_message_state\<close>: Inkling restores the content blocks of replayed assistant
  messages, the other families keep the request as it is.\<close>

definition restore_blocks :: "obj \<Rightarrow> obj \<Rightarrow> obj" where
  "restore_blocks stored request =
     (if dget stored ''role'' = JStr ''assistant'' \<and> strict_message_matches stored request \<and> dhas stored ''content_blocks''
      then dset ''content_blocks'' (dget stored ''content_blocks'') request else request)"

fun restore_all :: "obj list \<Rightarrow> obj list \<Rightarrow> obj list" where
  "restore_all (s # stored) (r # request) = restore_blocks s r # restore_all stored request"
| "restore_all _ request = request"

definition preserve_server_message_state :: "tito_type \<Rightarrow> obj list \<Rightarrow> obj list \<Rightarrow> obj list" where
  "preserve_server_message_state t stored request = (if t = INKLING then restore_all stored request else request)"

lemma length_restore_all [simp]: "length (restore_all stored request) = length request"
  by (induction stored request rule: restore_all.induct) auto

lemma length_preserve [simp]: "length (preserve_server_message_state t stored request) = length request"
  by (simp add: preserve_server_message_state_def)

lemma drop_restore_all: "drop (length stored) (restore_all stored request) = drop (length stored) request"
  by (induction stored request rule: restore_all.induct) auto

lemma drop_preserve: "drop (length stored) (preserve_server_message_state t stored request) = drop (length stored) request"
  by (simp add: preserve_server_message_state_def drop_restore_all)

section \<open>What sessions rely on\<close>

text \<open>The stored tokens, but for the last \<open>trim\<close>, are a prefix of the merged prompt, which ends with
  the increment.\<close>

locale prefix_merger =
  fixes join :: "nat list \<Rightarrow> nat list \<Rightarrow> 'e + nat list"
    and trim :: nat
  assumes keeps: "join pre inc = Inr out \<Longrightarrow> take (length pre - trim) out = take (length pre - trim) pre"
    and ends: "join pre inc = Inr out \<Longrightarrow> \<exists>front. out = front @ inc"
    and long: "join pre inc = Inr out \<Longrightarrow> length pre - trim \<le> length out"
begin

text \<open>A generation appended to a merged prompt still extends the stored tokens.\<close>

lemma extends: "join pre inc = Inr out \<Longrightarrow> take (length pre - trim) (out @ gen) = take (length pre - trim) pre"
  using keeps[of pre inc out] long[of pre inc out] by simp

lemma increment_kept: "join pre inc = Inr out \<Longrightarrow> drop (length out - length inc) out = inc"
  using ends[of pre inc out] by auto

end

fun boundary_trim :: "boundary \<Rightarrow> nat" where
  "boundary_trim (Ambiguous_stop ids) = 1"
| "boundary_trim _ = 0"

interpretation tt: prefix_merger "join_tokens bd allow" "boundary_trim bd" for bd allow
proof
  fix pre inc out assume j: "join_tokens bd allow pre inc = Inr out"
  show "take (length pre - boundary_trim bd) out = take (length pre - boundary_trim bd) pre"
    using j by (cases bd) (auto simp: butlast_conv_take split: if_splits)
  show "\<exists>front. out = front @ inc"
    using j by (cases bd) (auto split: if_splits)
  show "length pre - boundary_trim bd \<le> length out"
    using j by (cases bd) (auto split: if_splits)
qed

lemma family_boundary_trim: "family_boundary hf t = Inr bd \<Longrightarrow> boundary_trim bd = max_trim_tokens t"
  by (auto simp: family_boundary_def max_trim_tokens_def result_simps split: option.splits if_splits)

definition tito_ok :: "hf_tokenizer \<Rightarrow> tito \<Rightarrow> bool" where
  "tito_ok hf tito \<longleftrightarrow> family_boundary hf (tito_family tito) = Inr (tito_boundary tito)"

lemma get_tito_tokenizer_ok: "get_tito_tokenizer hf t kw allow = Inr tito \<Longrightarrow> tito_ok hf tito \<and> tito_family tito = t"
  by (auto simp: get_tito_tokenizer_def tito_ok_def Let_def result_simps)

lemma merge_tokens_extends:
  assumes "merge_tokens hf tito old new pre args = Inr out" and "tito_ok hf tito"
  shows "take (length pre - max_trim_tokens (tito_family tito)) (out @ gen) =
         take (length pre - max_trim_tokens (tito_family tito)) pre"
proof -
  from assms(1) obtain inc where "join_tokens (tito_boundary tito) (allow_stop_token_replace tito) pre inc = Inr out"
    by (auto simp: merge_tokens_def result_simps)
  from tt.extends[OF this] show ?thesis
    using family_boundary_trim[of hf "tito_family tito"] assms(2) by (simp add: tito_ok_def)
qed

text \<open>
  C35.  Whatever family renders the continuation, the prompt it merges keeps the stored tokens, up to
  the family's \<open>max_trim_tokens\<close> at the end, and ends with the tokens of the newly rendered
  messages.
\<close>

theorem merge_tokens_reuses_prefix:
  assumes "get_tito_tokenizer hf t kw allow = Inr tito"
    and "merge_tokens hf tito old new pre args = Inr out"
  shows "take (length pre - max_trim_tokens t) out = take (length pre - max_trim_tokens t) pre \<and>
    (\<exists>inc. tokenize_additional_messages hf tito old new args = Inr inc \<and>
       drop (length out - length inc) out = inc)"
proof -
  have ok: "tito_ok hf tito" "tito_family tito = t" using get_tito_tokenizer_ok[OF assms(1)] by auto
  from assms(2) obtain inc where inc: "tokenize_additional_messages hf tito old new args = Inr inc"
    and j: "join_tokens (tito_boundary tito) (allow_stop_token_replace tito) pre inc = Inr out"
    by (auto simp: merge_tokens_def result_simps)
  show ?thesis using merge_tokens_extends[OF assms(2) ok(1), of "[]"] ok(2) inc tt.increment_kept[OF j] by auto
qed

definition demo_hf :: hf_tokenizer where
  "demo_hf = \<lparr>hf_apply = (\<lambda>msgs gen tools kwargs. Some (concat (map (\<lambda>m. ''m'') msgs) @ (if gen then ''g'' else ''''))),
     hf_special = None, hf_encode = map of_char, hf_token_id = (\<lambda>s. 1000 + length s),
     hf_loads = (\<lambda>s. None), hf_tool_dump = Some\<rparr>"

definition demo_tito :: tito where
  "demo_tito = \<lparr>tito_family = GLM47, tito_boundary = Ambiguous_stop [1015, 1008],
     launch_kwargs = [(''clear_thinking'', JBool False)], allow_stop_token_replace = True\<rparr>"

abbreviation user_msg :: "string \<Rightarrow> obj" where
  "user_msg text \<equiv> [(''role'', JStr ''user''), (''content'', JStr text)]"

abbreviation assistant_msg :: "string \<Rightarrow> obj" where
  "assistant_msg text \<equiv> [(''role'', JStr ''assistant''), (''content'', JStr text)]"

lemma demo_get: "get_tito_tokenizer demo_hf GLM47 [] None = Inr demo_tito"
  by code_simp

lemma demo_merge:
  "merge_tokens demo_hf demo_tito [user_msg ''a'', assistant_msg ''b''] [user_msg ''a'', assistant_msg ''b'', user_msg ''c'']
     [5, 6, 1015] [] = Inr [5, 6, 109, 103]"
  by code_simp

theorem merge_tokens_reuses_prefix_witness:
  "take (length [5, 6, 1015 :: nat] - max_trim_tokens GLM47) [5, 6, 109, 103 :: nat] =
   take (length [5, 6, 1015 :: nat] - max_trim_tokens GLM47) [5, 6, 1015 :: nat]"
  using merge_tokens_reuses_prefix[OF demo_get demo_merge] by simp

section \<open>Arguments of a continued turn\<close>

lemma map_of_pick_keys: "map_of (pick_keys keys d) k = (if k \<in> set keys then map_of d k else None)"
  by (induction keys) (auto simp: pick_keys_def map_add_def split: option.splits)

lemma dict_ok_pick_keys: "distinct keys \<Longrightarrow> dict_ok (pick_keys keys d)"
proof (induction keys)
  case (Cons k keys)
  have "fst ` set (pick_keys keys d) \<subseteq> set keys" by (auto simp: pick_keys_def split: option.splits)
  with Cons show ?case by (auto simp: pick_keys_def split: option.splits)
qed (simp add: pick_keys_def)

lemma map_of_pop_keys: "map_of (pop_keys keys d) k = (if k \<in> set keys then None else map_of d k)"
  by (induction keys arbitrary: d) (auto simp: pop_keys_def dict_simps)

lemma map_of_dupdate_dict: "dict_ok e \<Longrightarrow> map_of (dupdate d e) k = (case map_of e k of None \<Rightarrow> map_of d k | Some v \<Rightarrow> Some v)"
  by (simp add: map_of_dupdate map_of_rev_dict)

lemma family_keys:
  "distinct (consistant_kwargs (FIXED_TEMPLATE t))" "dict_ok (extra_kwargs (FIXED_TEMPLATE t))"
  "fst ` set (extra_kwargs (FIXED_TEMPLATE t)) \<inter> set (consistant_kwargs (FIXED_TEMPLATE t)) = {}"
  "is_deepseek t \<Longrightarrow> set mode_aliases \<inter> (set (consistant_kwargs (FIXED_TEMPLATE t)) \<union> fst ` set (extra_kwargs (FIXED_TEMPLATE t))) = {}"
  by (cases t; simp add: is_deepseek_def mode_aliases_def)+

text \<open>The resolved renderer keywords of a request.\<close>

definition resolved_kwargs :: "obj \<Rightarrow> obj" where
  "resolved_kwargs args = as_obj (dget args ctk)"

lemma resolve_tools_ctk: "resolve_tools hf launch source turn args = Inr args' \<Longrightarrow> dget args' ctk = dget args ctk"
  by (auto simp: resolve_tools_def Let_def result_simps dict_simps split: option.splits if_splits)

lemma resolved_history:
  assumes "k \<in> set (consistant_kwargs (FIXED_TEMPLATE t))"
  shows "map_of (resolved_kwargs (resolve_thinking t (apply_fixed_template_kwargs t
           (resolve_history_args t (Some turn) args)))) k = map_of (template_kwargs_of (Some turn)) k"
proof -
  note f = family_keys[of t]
  have "map_of (extra_kwargs (FIXED_TEMPLATE t)) k = None" using f(3) assms by (auto simp: map_of_eq_None_iff)
  moreover have na: "k \<notin> set mode_aliases" if "is_deepseek t" using f(4)[OF that] assms by auto
  moreover have "k \<noteq> ''thinking''" if "is_deepseek t" using na[OF that] by (auto simp: mode_aliases_def)
  ultimately show ?thesis using f(1,2) assms
    by (auto simp: resolved_kwargs_def resolve_thinking_def apply_fixed_template_kwargs_def resolve_history_args_def
        Let_def dict_simps map_of_pop_keys map_of_dupdate_dict dict_ok_pick_keys map_of_pick_keys split: option.splits)
qed

lemma resolved_extra:
  assumes "(k, v) \<in> set (extra_kwargs (FIXED_TEMPLATE t))"
  shows "map_of (resolved_kwargs (resolve_thinking t (apply_fixed_template_kwargs t args))) k = Some v"
proof -
  note f = family_keys[of t]
  have k: "k \<in> fst ` set (extra_kwargs (FIXED_TEMPLATE t))" using assms by force
  have "map_of (extra_kwargs (FIXED_TEMPLATE t)) k = Some v" using assms f(2) by simp
  moreover have na: "k \<notin> set mode_aliases" if "is_deepseek t" using f(4)[OF that] k by auto
  moreover have "k \<noteq> ''thinking''" if "is_deepseek t" using na[OF that] by (auto simp: mode_aliases_def)
  ultimately show ?thesis using f(2) assms
    by (auto simp: resolved_kwargs_def resolve_thinking_def apply_fixed_template_kwargs_def
        Let_def dict_simps map_of_pop_keys map_of_dupdate_dict)
qed

text \<open>
  On a continued turn the family's history-bound renderer keywords keep the recorded value, or
  its absence, whatever the client asks for; the family's fixed keywords are always in force; and
  the tools are the recorded ones or canonically equal to them.
\<close>

theorem continuation_args_stable:
  assumes "resolve_request_args hf t launch request (Some turn) = Inr args"
  shows "(\<forall>k \<in> set (consistant_kwargs (FIXED_TEMPLATE t)).
      map_of (resolved_kwargs args) k = map_of (template_kwargs_of (Some turn)) k) \<and>
    (\<forall>(k, v) \<in> set (extra_kwargs (FIXED_TEMPLATE t)). map_of (resolved_kwargs args) k = Some v) \<and>
    (dget args ''tools'' = dget turn ''tools'' \<or>
     (\<exists>a b. extract_tool_dicts (hf_tool_dump hf) (dget args ''tools'') = Inr a \<and>
        extract_tool_dicts (hf_tool_dump hf) (dget turn ''tools'') = Inr b \<and> tools_eq a b))"
proof -
  from assms obtain mid where mid: "resolve_tools hf launch request (Some turn)
        (resolve_template_kwargs t launch request (Some turn) request) = Inr mid"
    and args: "args = resolve_thinking t (apply_fixed_template_kwargs t (resolve_history_args t (Some turn) mid))"
    by (auto simp: resolve_request_args_def Let_def result_simps)
  have "dget args ''tools'' = dget mid ''tools''"
    by (simp add: args resolve_thinking_def apply_fixed_template_kwargs_def resolve_history_args_def Let_def dict_simps)
  moreover have "dget mid ''tools'' = dget turn ''tools'' \<or>
     (\<exists>a b. extract_tool_dicts (hf_tool_dump hf) (dget mid ''tools'') = Inr a \<and>
        extract_tool_dicts (hf_tool_dump hf) (dget turn ''tools'') = Inr b \<and> tools_eq a b)"
    using mid by (auto simp: resolve_tools_def Let_def result_simps dict_simps split: if_splits)
  ultimately show ?thesis using resolved_history[of _ t turn mid] resolved_extra[of _ _ t] by (auto simp: args)
qed

theorem continuation_args_stable_witness:
  "map_of (resolved_kwargs [(ctk, JObj [(''reasoning_effort'', JStr ''low''), (''clear_thinking'', JBool False),
       (''enable_thinking'', JBool True)]), (''tools'', JNull)]) ''reasoning_effort'' = Some (JStr ''low'')"
proof -
  have "resolve_request_args demo_hf GLM53 [] [(ctk, JObj [(''reasoning_effort'', JStr ''high'')])]
      (Some [(ctk, JObj [(''reasoning_effort'', JStr ''low'')])]) =
    Inr [(ctk, JObj [(''reasoning_effort'', JStr ''low''), (''clear_thinking'', JBool False),
       (''enable_thinking'', JBool True)]), (''tools'', JNull)]"
    by code_simp
  from continuation_args_stable[OF this] show ?thesis by (simp add: template_kwargs_of_def dget_def)
qed

end
