(* ===== verification/Request_Args.thy ===== *)
theory Request_Args
  imports Tito_Tokenizer
begin

text \<open>
  \<^verbatim>\<open>miles/rollout/session/request_args.py\<close>, with the validation it calls in
  \<^verbatim>\<open>rollout_topk_logprobs.py\<close> and \<^verbatim>\<open>sampling_mask.py\<close>: from a client's chat request to the
  request the session server forwards.  Reading a number from a string, as \<open>float\<close> and \<open>int\<close> do, is
  the parameter \<open>num\<close>, a pair of parsers.  Copies of nested values are not modelled, values being immutable here.
\<close>

section \<open>Configuration\<close>

text \<open>The fields of \<open>SessionServerConfig\<close> that shape a request.\<close>

record session_config =
  use_rollout_routing_replay :: bool
  use_rollout_indexer_replay :: bool
  rollout_top_logprobs_num :: int
  rollout_sampling_logprobs_mode :: string
  rollout_temperature :: rat
  lora_rank :: int
  lora_adapter_path :: "string option"
  lora_train_only :: bool
  has_output_store :: bool

definition LORA_ADAPTER_NAME :: string where
  "LORA_ADAPTER_NAME = ''miles_lora''"

definition is_lora_enabled :: "session_config \<Rightarrow> bool" where
  "is_lora_enabled config = (0 < lora_rank config \<or> lora_adapter_path config \<noteq> None)"

definition lora_rollout_enabled :: "session_config \<Rightarrow> bool" where
  "lora_rollout_enabled config = (is_lora_enabled config \<and> \<not> lora_train_only config)"

definition requests_support_logprobs :: "session_config \<Rightarrow> bool" where
  "requests_support_logprobs config =
     (rollout_top_logprobs_num config \<noteq> 0 \<and> rollout_sampling_logprobs_mode config = ''support'')"

text \<open>\<open>float\<close> and \<open>int\<close> of a value.\<close>

type_synonym num_parsers = "(string \<Rightarrow> rat option) \<times> (string \<Rightarrow> int option)"

fun to_float :: "num_parsers \<Rightarrow> json \<Rightarrow> py_exn + rat" where
  "to_float num (JBool b) = Inr (if b then 1 else 0)"
| "to_float num (JInt i) = Inr (of_int i)"
| "to_float num (JFloat r) = Inr r"
| "to_float num (JStr s) = (case fst num s of None \<Rightarrow> Inl ValueError | Some r \<Rightarrow> Inr r)"
| "to_float num _ = Inl TypeError"

fun to_int :: "num_parsers \<Rightarrow> json \<Rightarrow> py_exn + int" where
  "to_int num (JBool b) = Inr (if b then 1 else 0)"
| "to_int num (JInt i) = Inr i"
| "to_int num (JFloat r) = Inr (if 0 \<le> r then \<lfloor>r\<rfloor> else - \<lfloor>- r\<rfloor>)"
| "to_int num (JStr s) = (case snd num s of None \<Rightarrow> Inl ValueError | Some i \<Rightarrow> Inr i)"
| "to_int num _ = Inl TypeError"

text \<open>Comparing a value with a number raises on other types.\<close>

fun compare_num :: "json \<Rightarrow> py_exn + rat" where
  "compare_num (JBool b) = Inr (if b then 1 else 0)"
| "compare_num (JInt i) = Inr (of_int i)"
| "compare_num (JFloat r) = Inr r"
| "compare_num _ = Inl TypeError"

section \<open>Sampling validation\<close>

definition unsupported_with_replay :: "(string \<times> json list) list" where
  "unsupported_with_replay =
     [(''frequency_penalty'', [JInt 0, JNull]), (''presence_penalty'', [JInt 0, JNull]),
      (''repetition_penalty'', [JInt 1, JNull]), (''logit_bias'', [JObj [], JNull]),
      (''custom_logit_processor'', [JNull])]"

definition validate_sampling_support_request ::
  "num_parsers \<Rightarrow> obj \<Rightarrow> bool \<Rightarrow> json \<Rightarrow> py_exn + bool" where
  "validate_sampling_support_request num params replay_enabled expected_temperature =
     rbind (if dget params ''top_p'' = JNull then Inr 1 else to_float num (dget params ''top_p'')) (\<lambda>top_p.
     if \<not> (0 < top_p \<and> top_p \<le> 1) then Inl ValueError
     else if \<not> replay_enabled
     then rbind (if dget params ''top_k'' = JNull then Inr (-1) else to_int num (dget params ''top_k'')) (\<lambda>top_k.
          if top_p < 1 \<or> 0 < top_k then Inl ValueError else Inr False)
     else if \<exists>name \<in> set [''top_p'', ''top_k'', ''temperature'']. dget params name = JNull then Inl ValueError
     else rbind (to_int num (dget params ''top_k'')) (\<lambda>top_k.
          if top_k \<le> 0 then Inl ValueError
          else rbind (to_float num (dget params ''temperature'')) (\<lambda>temperature.
               if expected_temperature = JNull then Inl ValueError
               else if \<not> py_eq (JFloat temperature) expected_temperature then Inl ValueError
               else if \<exists>(name, allowed) \<in> set unsupported_with_replay. \<not> (\<exists>v \<in> set allowed. py_eq (dget params name) v)
               then Inl ValueError else Inr True)))"

definition constrained_keys :: "string list" where
  "constrained_keys = [''json_schema'', ''regex'', ''ebnf'', ''structural_tag'', ''custom_logit_processor'', ''logit_bias'']"

definition tool_is_strict :: "json \<Rightarrow> py_exn + bool" where
  "tool_is_strict tool = (case tool of
      JObj d \<Rightarrow> (case dget_or d ''function'' (JObj []) of
          JObj f \<Rightarrow> Inr (truthy (dget f ''strict'')) | _ \<Rightarrow> Inl AttributeError)
    | _ \<Rightarrow> Inl AttributeError)"

fun any_strict :: "json list \<Rightarrow> py_exn + bool" where
  "any_strict [] = Inr False"
| "any_strict (t # ts) = rbind (tool_is_strict t) (\<lambda>b. if b then Inr True else any_strict ts)"

definition validate_rollout_topk_logprobs_sampling :: "obj \<Rightarrow> rat \<Rightarrow> int \<Rightarrow> py_exn + unit" where
  "validate_rollout_topk_logprobs_sampling sampling temperature candidate_count =
     (if \<not> py_eq (dget_or sampling ''temperature'' (JFloat temperature)) (JFloat temperature) \<or> temperature \<le> 0
      then Inl ValueError
      else rbind (compare_num (dget_or sampling ''top_k'' (JInt (-1)))) (\<lambda>top_k.
        if of_int candidate_count < top_k then Inl ValueError
        else if \<not> py_eq (dget_or sampling ''min_p'' (JFloat 0)) (JFloat 0) then Inl ValueError
        else if \<exists>key \<in> set constrained_keys. truthy (dget sampling key) then Inl ValueError
        else let response_format = dget sampling ''response_format''
        in if truthy response_format \<and>
              (\<not> is_obj response_format \<or>
               dget_or (as_obj response_format) ''type'' (JStr ''text'') \<noteq> JStr ''text'') then Inl ValueError
        else let tool_choice = dget_or sampling ''tool_choice'' (JStr ''auto'')
        in if tool_choice \<notin> {JNull, JStr ''auto'', JStr ''none''} then Inl ValueError
        else if tool_choice = JStr ''none'' then Inr ()
        else rbind (if truthy (dget sampling ''tools'') then iter_items (dget sampling ''tools'') else Inr []) (\<lambda>tools.
             rbind (any_strict tools) (\<lambda>b. if b then Inl ValueError else Inr ()))))"

definition set_if_null :: "string \<Rightarrow> json \<Rightarrow> obj \<Rightarrow> obj" where
  "set_if_null k v d = (if dget d k = JNull then dset k v d else d)"

definition configure_rollout_topk_logprobs_request :: "session_config \<Rightarrow> obj \<Rightarrow> py_exn + obj" where
  "configure_rollout_topk_logprobs_request config request =
     (let k = rollout_top_logprobs_num config
      in if k = 0 then Inr request
         else let request = set_if_null ''min_p'' (JFloat 0) (set_if_null ''top_k'' (JInt (-1))
                (set_if_null ''top_p'' (JFloat 1) (set_if_null ''temperature'' (JFloat (rollout_temperature config)) request)))
         in rbind (validate_rollout_topk_logprobs_sampling request (rollout_temperature config) k) (\<lambda>_.
            if requests_support_logprobs config
            then Inr (dset ''sampling_logprobs_mode'' (JStr ''support'')
                   (pop_keys [''top_logprobs'', ''top_logprobs_num'', ''return_flat_raw_output_top_logprobs'',
                              ''return_flat_raw_top_logprobs_b64''] request))
            else Inr (dset ''return_flat_raw_top_logprobs_b64'' (JBool True)
                   (dset ''return_flat_raw_output_top_logprobs'' (JBool True)
                     (dset ''top_logprobs'' (JInt k) (dpop ''sampling_logprobs_mode'' request))))))"

section \<open>Server rules\<close>

text \<open>Whether \<open>str\<close> of a value contains a colon.\<close>

fun str_has_colon :: "json \<Rightarrow> bool" where
  "str_has_colon (JStr s) = (CHR 0x3A \<in> set s)"
| "str_has_colon (JArr xs) = list_ex str_has_colon xs"
| "str_has_colon (JObj d) = (d \<noteq> [])"
| "str_has_colon _ = False"

record response_intent =
  ri_stream :: bool
  ri_logprobs :: bool

definition lora_path_of :: "session_config \<Rightarrow> json" where
  "lora_path_of config = (if lora_rollout_enabled config then JStr LORA_ADAPTER_NAME else JNull)"

definition resolve_request_args_by_config ::
  "session_config \<Rightarrow> bool \<Rightarrow> obj \<Rightarrow> session_error + obj \<times> response_intent" where
  "resolve_request_args_by_config config evaluation request_args =
     (let client_logprobs = truthy (dget request_args ''logprobs'');
          a1 = dset ''return_indexer_topk'' (JBool (\<not> evaluation \<and> use_rollout_indexer_replay config))
              (dset ''return_routed_experts'' (JBool (\<not> evaluation \<and> use_rollout_routing_replay config))
              (dset ''no_stop_trim'' (JBool False)
              (dset ''return_meta_info'' (JBool True)
              (dset ''logprobs'' (JBool True) request_args))));
          lora_path = lora_path_of config
      in if dget a1 ''lora_path'' \<noteq> JNull \<and> \<not> py_eq (dget a1 ''lora_path'') lora_path then Inl MessageValidationError
      else let a2 = (if lora_path = JNull then dpop ''lora_path'' a1 else dset ''lora_path'' lora_path a1)
      in if lora_path \<noteq> JNull \<and> truthy (dget a2 ''model'') \<and> str_has_colon (dget a2 ''model'') then Inl MessageValidationError
      else if dget a2 ''input_ids'' \<noteq> JNull then Inl MessageValidationError
      else let a3 = dpop ''input_ids'' a2
      in if \<not> evaluation \<and> dget a3 ''routed_experts_start_len'' \<noteq> JNull then Inl MessageValidationError
      else let a4 = dpop ''routed_experts_start_len'' a3
      in if dget a4 ''logprob_start_len'' \<noteq> JNull then Inl MessageValidationError
      else let a5 = dpop ''logprob_start_len'' a4;
               client_stream = truthy (dget a5 ''stream'');
               a6 = dpop ''stream_options'' (dpop ''stream'' a5);
               kwargs = dget a6 ctk
      in if kwargs \<noteq> JNull \<and> \<not> is_obj kwargs then Inl MessageValidationError
      else if kwargs \<noteq> JNull \<and> dhas (as_obj kwargs) ''tools'' then Inl MessageValidationError
      else Inr (a6, \<lparr>ri_stream = client_stream, ri_logprobs = client_logprobs\<rparr>))"

fun apply_session_sampling_defaults :: "bool \<Rightarrow> obj \<Rightarrow> obj \<Rightarrow> session_error + obj" where
  "apply_session_sampling_defaults evaluation [] request_args = Inr request_args"
| "apply_session_sampling_defaults evaluation ((key, v) # defaults) request_args =
     (if dget request_args key = JNull
      then apply_session_sampling_defaults evaluation defaults (dset key v request_args)
      else if \<not> evaluation \<and> key = ''temperature'' \<and> \<not> py_eq (dget request_args key) v then Inl MessageValidationError
      else apply_session_sampling_defaults evaluation defaults request_args)"

section \<open>Preparing a request\<close>

record prepared_chat_request =
  p_body :: obj
  p_template_args :: obj
  p_intent :: response_intent

definition OUTPUT_STORE_REQUEST_KEY :: string where
  "OUTPUT_STORE_REQUEST_KEY = ''return_outputs_via_store''"

definition store_request_keys :: "string list" where
  "store_request_keys = [''return_routed_experts'', ''return_indexer_topk'', ''return_sampling_mask'']"

text \<open>The part after the model rules: replay outputs, sampling validation, output store.\<close>

definition finish_arguments ::
  "num_parsers \<Rightarrow> session_config \<Rightarrow> bool \<Rightarrow> obj \<Rightarrow> bool \<Rightarrow> obj \<Rightarrow> session_error + obj" where
  "finish_arguments num config evaluation sampling_defaults replay request_args =
     (let a1 = dpop ''sampling_logprobs_mode'' request_args
      in rbind
          (if evaluation
           then Inr (dpop ''routed_experts_start_len'' (dset ''return_indexer_topk'' (JBool False)
                  (dset ''return_routed_experts'' (JBool False) (dset ''return_sampling_mask'' (JBool False) a1))))
           else value_error_as_400
             (rbind (configure_rollout_topk_logprobs_request config a1) (\<lambda>a2.
              rbind (validate_sampling_support_request num a2 replay (dget sampling_defaults ''temperature'')) (\<lambda>mask.
              Inr (if mask then dset ''return_sampling_mask'' (JBool True) a2 else dpop ''return_sampling_mask'' a2)))))
          (\<lambda>a3. let a4 = dpop OUTPUT_STORE_REQUEST_KEY a3
                in Inr (if has_output_store config \<and> \<not> evaluation \<and> (\<exists>k \<in> set store_request_keys. truthy (dget a4 k))
                        then dset OUTPUT_STORE_REQUEST_KEY (JBool True) a4 else a4)))"

definition prepare_chat_request ::
  "num_parsers \<Rightarrow> hf_tokenizer \<Rightarrow> tito \<Rightarrow> session_config \<Rightarrow> bool \<Rightarrow> obj \<Rightarrow> bool \<Rightarrow> obj option \<Rightarrow> obj \<Rightarrow>
   session_error + prepared_chat_request" where
  "prepare_chat_request num hf tito config evaluation sampling_defaults replay turn_args client_args =
     rbind (resolve_request_args_by_config config evaluation client_args) (\<lambda>(a1, intent).
     rbind (apply_session_sampling_defaults evaluation sampling_defaults a1) (\<lambda>a2.
     rbind (value_error_as_400 (resolve_request_args hf (tito_family tito) (launch_kwargs tito) a2 turn_args)) (\<lambda>a3.
     rbind (finish_arguments num config evaluation sampling_defaults replay a3) (\<lambda>body.
       Inr \<lparr>p_body = body, p_template_args = extract_template_args body, p_intent = intent\<rparr>))))"

definition filter_turn_args :: "obj \<Rightarrow> obj" where
  "filter_turn_args turn_args = filter (\<lambda>(k, v). k \<notin> set [''input_ids'', ''messages'']) turn_args"

section \<open>What every prepared request holds\<close>

lemma dget_pop_keys: "dget (pop_keys keys d) k = (if k \<in> set keys then JNull else dget d k)"
  by (simp add: dget_def map_of_pop_keys)

lemma dget_cong: "map_of e k = map_of d k \<Longrightarrow> dget e k = dget d k"
  by (simp add: dget_def)

lemma set_if_null_frame: "k \<noteq> k' \<Longrightarrow> map_of (set_if_null k v d) k' = map_of d k'"
  by (simp add: set_if_null_def dict_simps)

definition topk_keys :: "string list" where
  "topk_keys = [''temperature'', ''top_p'', ''top_k'', ''min_p'', ''top_logprobs'', ''top_logprobs_num'',
     ''return_flat_raw_output_top_logprobs'', ''return_flat_raw_top_logprobs_b64'', ''sampling_logprobs_mode'']"

lemma configure_topk_frame:
  "configure_rollout_topk_logprobs_request config d = Inr e \<Longrightarrow> k \<notin> set topk_keys \<Longrightarrow> map_of e k = map_of d k"
  by (auto simp: configure_rollout_topk_logprobs_request_def Let_def result_simps topk_keys_def dict_simps
      map_of_pop_keys set_if_null_frame split: if_splits)

text \<open>The fields the last stage may write.\<close>

definition finish_keys :: "string list" where
  "finish_keys = topk_keys @ [''return_sampling_mask'', ''return_routed_experts'', ''return_indexer_topk'',
     ''routed_experts_start_len'', OUTPUT_STORE_REQUEST_KEY]"

lemma finish_arguments_frame:
  assumes "finish_arguments num config evaluation sd replay d = Inr e" and "k \<notin> set finish_keys"
  shows "map_of e k = map_of d k"
proof -
  have k: "k \<notin> set topk_keys" "k \<noteq> ''sampling_logprobs_mode''" using assms(2) by (auto simp: finish_keys_def topk_keys_def)
  show ?thesis
    using assms(1,2) configure_topk_frame[OF _ k(1)] k(2)
    by (fastforce simp: finish_arguments_def Let_def result_simps dict_simps finish_keys_def split: if_splits)
qed

lemma finish_arguments_replay:
  assumes "finish_arguments num config evaluation sd replay d = Inr e"
  shows "evaluation \<Longrightarrow> dget e ''return_routed_experts'' = JBool False \<and> dget e ''return_indexer_topk'' = JBool False \<and>
      dget e ''return_sampling_mask'' = JBool False \<and> dget e OUTPUT_STORE_REQUEST_KEY = JNull"
    and "\<not> evaluation \<Longrightarrow> dget e ''return_routed_experts'' = dget d ''return_routed_experts'' \<and>
      dget e ''return_indexer_topk'' = dget d ''return_indexer_topk''"
  using assms
proof -
  show "evaluation \<Longrightarrow> dget e ''return_routed_experts'' = JBool False \<and> dget e ''return_indexer_topk'' = JBool False \<and>
      dget e ''return_sampling_mask'' = JBool False \<and> dget e OUTPUT_STORE_REQUEST_KEY = JNull"
    using assms by (auto simp: finish_arguments_def Let_def result_simps dict_simps OUTPUT_STORE_REQUEST_KEY_def)
  have k: "''return_routed_experts'' \<notin> set topk_keys" "''return_indexer_topk'' \<notin> set topk_keys"
    by (simp_all add: topk_keys_def)
  show "\<not> evaluation \<Longrightarrow> dget e ''return_routed_experts'' = dget d ''return_routed_experts'' \<and>
      dget e ''return_indexer_topk'' = dget d ''return_indexer_topk''"
    using assms dget_cong[OF configure_topk_frame[OF _ k(1)]] dget_cong[OF configure_topk_frame[OF _ k(2)]]
    by (fastforce simp: finish_arguments_def Let_def result_simps dict_simps OUTPUT_STORE_REQUEST_KEY_def split: if_splits)
qed

lemma resolve_request_args_frame:
  assumes "resolve_request_args hf t launch d turn = Inr e" and "k \<noteq> ctk" "k \<noteq> ''tools''"
  shows "map_of e k = map_of d k"
proof -
  have tools: "map_of e' k = map_of d' k" if "resolve_tools hf launch src turn d' = Inr e'" for src d' e'
    using that assms(2,3)
    by (auto simp: resolve_tools_def Let_def result_simps dict_simps split: option.splits if_splits)
  have tk: "map_of (resolve_template_kwargs t launch src turn d') k = map_of d' k" for src d'
    using assms(2) by (simp add: resolve_template_kwargs_def Let_def dict_simps)
  have rest: "map_of (resolve_thinking t (apply_fixed_template_kwargs t (resolve_history_args t turn d'))) k = map_of d' k" for d'
    using assms(2) by (auto simp: resolve_thinking_def apply_fixed_template_kwargs_def resolve_history_args_def
        Let_def dict_simps split: option.splits)
  show ?thesis using assms(1) tools tk rest by (auto simp: resolve_request_args_def Let_def result_simps)
qed

lemma sampling_defaults_frame:
  "apply_session_sampling_defaults evaluation sd d = Inr e \<Longrightarrow> k \<notin> fst ` set sd \<Longrightarrow> map_of e k = map_of d k"
  by (induction evaluation sd d rule: apply_session_sampling_defaults.induct)
    (auto simp: dict_simps split: if_splits)

lemma sampling_defaults_temperature:
  "apply_session_sampling_defaults False sd d = Inr e \<Longrightarrow> dict_ok sd \<Longrightarrow>
   map_of sd ''temperature'' = Some v \<Longrightarrow> py_eq (dget e ''temperature'') v"
proof (induction False sd d rule: apply_session_sampling_defaults.induct)
  case (2 key w sd d)
  show ?case
  proof (cases "key = ''temperature''")
    case True
    then have w: "w = v" and fresh: "''temperature'' \<notin> fst ` set sd" using 2(4,5) by auto
    show ?thesis
    proof (cases "dget d key = JNull")
      case null: True
      then have "apply_session_sampling_defaults False sd (dset key w d) = Inr e" using 2(3) by simp
      from dget_cong[OF sampling_defaults_frame[OF this fresh]] show ?thesis using True w by (simp add: dict_simps)
    next
      case False
      then have "py_eq (dget d key) w" "apply_session_sampling_defaults False sd d = Inr e"
        using 2(3) True by (auto split: if_splits)
      then show ?thesis using dget_cong[OF sampling_defaults_frame[OF _ fresh]] True w by simp
    qed
  next
    case False
    then show ?thesis using 2 by (auto split: if_splits)
  qed
qed simp

definition forced_args :: "session_config \<Rightarrow> bool \<Rightarrow> obj \<Rightarrow> obj" where
  "forced_args config evaluation d = dset ''return_indexer_topk'' (JBool (\<not> evaluation \<and> use_rollout_indexer_replay config))
     (dset ''return_routed_experts'' (JBool (\<not> evaluation \<and> use_rollout_routing_replay config))
     (dset ''no_stop_trim'' (JBool False) (dset ''return_meta_info'' (JBool True) (dset ''logprobs'' (JBool True) d))))"

definition pop_client_args :: "obj \<Rightarrow> obj" where
  "pop_client_args d = dpop ''stream_options'' (dpop ''stream'' (dpop ''logprob_start_len''
     (dpop ''routed_experts_start_len'' (dpop ''input_ids'' d))))"

definition with_lora :: "session_config \<Rightarrow> obj \<Rightarrow> obj" where
  "with_lora config d = (if lora_path_of config = JNull then dpop ''lora_path'' d
     else dset ''lora_path'' (lora_path_of config) d)"

lemma if_Inl_Inr_iff: "(if c then Inl e else m) = Inr x \<longleftrightarrow> \<not> c \<and> m = Inr x"
  by simp

lemma by_config_shape:
  assumes "resolve_request_args_by_config config evaluation d = Inr (e, intent)"
  shows "e = pop_client_args (with_lora config (forced_args config evaluation d))"
    and "intent = \<lparr>ri_stream = truthy (dget d ''stream''), ri_logprobs = truthy (dget d ''logprobs'')\<rparr>"
proof -
  let ?a = "with_lora config (forced_args config evaluation d)"
  have *: "e = pop_client_args ?a \<and>
    intent = \<lparr>ri_stream = truthy (dget (dpop ''logprob_start_len'' (dpop ''routed_experts_start_len''
      (dpop ''input_ids'' ?a))) ''stream''), ri_logprobs = truthy (dget d ''logprobs'')\<rparr>"
    using assms
    unfolding resolve_request_args_by_config_def Let_def if_Inl_Inr_iff sum.inject prod.inject
      forced_args_def[symmetric] with_lora_def[symmetric] pop_client_args_def[symmetric]
    by (elim conjE, intro conjI) (simp_all only:)
  then show "e = pop_client_args ?a" by (rule conjunct1)
  have "dget (dpop ''logprob_start_len'' (dpop ''routed_experts_start_len'' (dpop ''input_ids'' ?a))) ''stream'' =
      dget d ''stream''"
    by (simp add: with_lora_def forced_args_def dict_simps)
  with * show "intent = \<lparr>ri_stream = truthy (dget d ''stream''), ri_logprobs = truthy (dget d ''logprobs'')\<rparr>"
    by simp
qed

lemma by_config_facts:
  assumes "resolve_request_args_by_config config evaluation d = Inr (e, intent)"
  shows "dget e ''logprobs'' = JBool True \<and> dget e ''return_meta_info'' = JBool True \<and>
      dget e ''no_stop_trim'' = JBool False \<and> dget e ''stream'' = JNull \<and> dget e ''stream_options'' = JNull \<and>
      dget e ''input_ids'' = JNull \<and> dget e ''logprob_start_len'' = JNull \<and> dget e ''routed_experts_start_len'' = JNull \<and>
      dget e ''return_routed_experts'' = JBool (\<not> evaluation \<and> use_rollout_routing_replay config) \<and>
      dget e ''return_indexer_topk'' = JBool (\<not> evaluation \<and> use_rollout_indexer_replay config) \<and>
      dget e ''lora_path'' = lora_path_of config \<and> dget e ''messages'' = dget d ''messages'' \<and>
      ri_stream intent = truthy (dget d ''stream'') \<and> ri_logprobs intent = truthy (dget d ''logprobs'')"
  unfolding by_config_shape[OF assms]
  by (cases "lora_path_of config = JNull") (simp_all add: pop_client_args_def with_lora_def forced_args_def dict_simps)

definition demo_config :: session_config where
  "demo_config = \<lparr>use_rollout_routing_replay = True, use_rollout_indexer_replay = False,
     rollout_top_logprobs_num = 0, rollout_sampling_logprobs_mode = ''selected'', rollout_temperature = 1,
     lora_rank = 0, lora_adapter_path = None, lora_train_only = False, has_output_store = True\<rparr>"

definition demo_client :: obj where
  "demo_client = [(''messages'', JArr [JObj (user_msg ''a'')]), (''stream'', JBool True), (''logprobs'', JNull)]"

definition demo_body :: obj where
  "demo_body = [(''messages'', JArr [JObj (user_msg ''a'')]), (''logprobs'', JBool True), (''return_meta_info'', JBool True),
     (''no_stop_trim'', JBool False), (''return_routed_experts'', JBool True), (''return_indexer_topk'', JBool False),
     (''temperature'', JFloat 1), (ctk, JObj [(''clear_thinking'', JBool False)]), (''tools'', JNull),
     (OUTPUT_STORE_REQUEST_KEY, JBool True)]"

lemma demo_prepare:
  "prepare_chat_request (\<lambda>s. None, \<lambda>s. None) demo_hf demo_tito demo_config False [(''temperature'', JFloat 1)] False None
     demo_client = Inr \<lparr>p_body = demo_body, p_template_args = [(''clear_thinking'', JBool False)],
       p_intent = \<lparr>ri_stream = True, ri_logprobs = False\<rparr>\<rparr>"
  by code_simp

lemma by_config_messages:
  assumes "resolve_request_args_by_config config evaluation d = Inr (e, intent)"
  shows "map_of e ''messages'' = map_of d ''messages''"
  unfolding by_config_shape[OF assms]
  by (cases "lora_path_of config = JNull") (simp_all add: pop_client_args_def with_lora_def forced_args_def dict_simps)

text \<open>The messages pass through every stage.\<close>

lemma prepared_messages:
  assumes "prepare_chat_request num hf tito config evaluation sd replay turn client = Inr p"
    and "''messages'' \<notin> fst ` set sd"
  shows "map_of (p_body p) ''messages'' = map_of client ''messages''"
proof -
  from assms(1) obtain a1 a2 a3 intent where
      s1: "resolve_request_args_by_config config evaluation client = Inr (a1, intent)"
    and s2: "apply_session_sampling_defaults evaluation sd a1 = Inr a2"
    and s3: "resolve_request_args hf (tito_family tito) (launch_kwargs tito) a2 turn = Inr a3"
    and s4: "finish_arguments num config evaluation sd replay a3 = Inr (p_body p)"
    by (auto simp: prepare_chat_request_def result_simps)
  have "map_of (p_body p) ''messages'' = map_of a3 ''messages''"
    by (rule finish_arguments_frame[OF s4]) (simp add: finish_keys_def topk_keys_def OUTPUT_STORE_REQUEST_KEY_def)
  also have "\<dots> = map_of a2 ''messages''" by (rule resolve_request_args_frame[OF s3]) simp_all
  also have "\<dots> = map_of a1 ''messages''" by (rule sampling_defaults_frame[OF s2 assms(2)])
  finally show ?thesis using by_config_messages[OF s1] by simp
qed



end
