(* ===== verification/Session_Linear.thy ===== *)
theory Session_Linear
  imports Request_Args
begin

text \<open>
  \<^verbatim>\<open>miles/rollout/session/linear_trajectory.py\<close> and the chat path of \<^verbatim>\<open>core.py\<close>: one
  session's message history, the token checkpoints of its generated replies, the single-step
  rollback of a retry, and the three phases of a chat completion around an unlocked proxy call.
  What a deployment fixes (tokenizer, configuration, matcher) is a \<open>session_env\<close>.  A checkpoint
  index is a \<open>nat option\<close>, \<open>None\<close> for the source's \<open>-1\<close>.  Timestamps are not modelled.
\<close>

record session_env =
  env_num :: num_parsers
  env_hf :: hf_tokenizer
  env_tito :: tito
  env_config :: session_config
  env_matcher :: "obj \<Rightarrow> obj \<Rightarrow> bool"
  env_addition_r3 :: bool

record session_record =
  rec_request :: obj
  rec_response :: obj
  rec_status :: nat

record linear_trajectory =
  closing :: bool
  messages :: "obj list"
  records :: "session_record list"
  trajectory_token_ids :: "nat list list"
  generated_checkpoint_message_ends :: "nat list"
  num_assistant :: nat
  turn_args_history :: "obj list"
  evaluation :: bool
  sampling_defaults :: obj
  sampling_support_replay :: bool

definition new_trajectory :: "bool \<Rightarrow> obj \<Rightarrow> bool \<Rightarrow> linear_trajectory" where
  "new_trajectory ev defaults replay =
     \<lparr>closing = False, messages = [], records = [], trajectory_token_ids = [],
      generated_checkpoint_message_ends = [], num_assistant = 0, turn_args_history = [],
      evaluation = ev, sampling_defaults = defaults, sampling_support_replay = replay\<rparr>"

definition turn_args :: "linear_trajectory \<Rightarrow> obj" where
  "turn_args s = (if turn_args_history s = [] then [] else last (turn_args_history s))"

definition token_ids :: "linear_trajectory \<Rightarrow> nat list" where
  "token_ids s = (if trajectory_token_ids s = [] then [] else last (trajectory_token_ids s))"

definition append_record :: "session_record \<Rightarrow> linear_trajectory \<Rightarrow> linear_trajectory" where
  "append_record r s = s\<lparr>records := records s @ [r]\<rparr>"

text \<open>The \<open>messages\<close> of a request body: a list of objects, empty when absent.\<close>

definition messages_of :: "obj \<Rightarrow> session_error + obj list" where
  "messages_of body =
     (case map_of body ''messages'' of
        None \<Rightarrow> Inr []
      | Some (JArr xs) \<Rightarrow> if list_all is_obj xs then Inr (map as_obj xs) else Inl (Uncaught AttributeError)
      | Some _ \<Rightarrow> Inl (Uncaught TypeError))"

section \<open>Prefix check, checkpoint selection, rollback\<close>

definition assert_pretokenized_prefix :: "nat list \<Rightarrow> nat list \<Rightarrow> nat \<Rightarrow> session_error + unit" where
  "assert_pretokenized_prefix prev all_token_ids max_trim =
     (if prev = [] then Inr ()
      else let check_len = length prev - max_trim
           in if 0 < check_len \<and> take check_len all_token_ids \<noteq> take check_len prev
              then Inl TokenizationError else Inr ())"

definition MAX_ASSISTANT_ROLLBACK_STEPS :: nat where
  "MAX_ASSISTANT_ROLLBACK_STEPS = 1"

text \<open>The greatest index whose end is within the matched prefix, searched from the back.\<close>

definition last_checkpoint :: "nat list \<Rightarrow> nat \<Rightarrow> nat option" where
  "last_checkpoint ends match_length =
     map_option (\<lambda>j. length ends - 1 - j) (find_index (\<lambda>e. e \<le> match_length) (rev ends))"

fun kept :: "nat option \<Rightarrow> nat" where
  "kept None = 0"
| "kept (Some i) = Suc i"

definition find_rollback_checkpoint ::
  "(obj \<Rightarrow> obj \<Rightarrow> bool) \<Rightarrow> linear_trajectory \<Rightarrow> obj list \<Rightarrow> session_error + nat option" where
  "find_rollback_checkpoint matcher s request_messages =
     (let stored = messages s
      in if stored = [] \<or> trajectory_token_ids s = [] then Inr None
         else let m = match_len matcher stored request_messages
         in if length stored \<le> m
            then Inr (if num_assistant s = 0 then None else Some (num_assistant s - 1))
            else let checkpoint_index = last_checkpoint (generated_checkpoint_message_ends s) m;
                     discard_count = num_assistant s - kept checkpoint_index
                 in if MAX_ASSISTANT_ROLLBACK_STEPS < discard_count then Inl MessageValidationError
                    else Inr checkpoint_index)"

definition rollback_to_checkpoint :: "nat option \<Rightarrow> linear_trajectory \<Rightarrow> linear_trajectory" where
  "rollback_to_checkpoint cp s =
     (if num_assistant s = kept cp then s
      else let message_end = (case cp of None \<Rightarrow> 0 | Some i \<Rightarrow> generated_checkpoint_message_ends s ! i);
               ends = take (kept cp) (generated_checkpoint_message_ends s)
           in s\<lparr>messages := take message_end (messages s),
                trajectory_token_ids := take (kept cp) (trajectory_token_ids s),
                turn_args_history := take (kept cp) (turn_args_history s),
                records := take (kept cp) (records s),
                generated_checkpoint_message_ends := ends,
                num_assistant := length ends\<rparr>)"

section \<open>Rendering and preparing a request\<close>

definition render_ids :: "session_env \<Rightarrow> obj list \<Rightarrow> bool \<Rightarrow> obj \<Rightarrow> session_error + nat list" where
  "render_ids env msgs gen args =
     rbind (uncaught (apply_chat_template (env_hf env) msgs gen args)) (\<lambda>text. Inr (hf_encode (env_hf env) text))"

definition render_token_ids ::
  "session_env \<Rightarrow> linear_trajectory \<Rightarrow> obj list \<Rightarrow> nat option \<Rightarrow> obj \<Rightarrow> session_error + nat list" where
  "render_token_ids env s request_messages cp template_args =
     (let ids = (case cp of None \<Rightarrow> [] | Some i \<Rightarrow> trajectory_token_ids s ! i)
      in case cp of
           None \<Rightarrow> render_ids env request_messages True template_args
         | Some i \<Rightarrow>
             if ids = [] then render_ids env request_messages True template_args
             else let stored = take (generated_checkpoint_message_ends s ! i) (messages s)
             in rbind (value_error_as_400 (assert_messages_append_only (env_matcher env)
                         (allowed_append_roles (FIXED_TEMPLATE (tito_family (env_tito env)))) stored request_messages)) (\<lambda>_.
                merge_tokens (env_hf env) (env_tito env) stored (stored @ drop (length stored) request_messages)
                  ids template_args))"

definition prepare_token_ids_and_request_args ::
  "session_env \<Rightarrow> linear_trajectory \<Rightarrow> obj \<Rightarrow> session_error + prepared_chat_request \<times> linear_trajectory" where
  "prepare_token_ids_and_request_args env s client_args =
     rbind (messages_of client_args) (\<lambda>request_messages.
     rbind (find_rollback_checkpoint (env_matcher env) s request_messages) (\<lambda>cp.
     rbind (prepare_chat_request (env_num env) (env_hf env) (env_tito env) (env_config env) (evaluation s)
              (sampling_defaults s) (sampling_support_replay s)
              (case cp of None \<Rightarrow> None | Some i \<Rightarrow> Some (turn_args_history s ! i)) client_args) (\<lambda>prepared.
     rbind (render_token_ids env s request_messages cp (p_template_args prepared)) (\<lambda>ids.
       Inr (prepared\<lparr>p_body := dset ''input_ids'' (JArr (map (JInt \<circ> int) ids)) (p_body prepared)\<rparr>,
            rollback_to_checkpoint cp s)))))"

definition update_pretokenized_state ::
  "linear_trajectory \<Rightarrow> obj list \<Rightarrow> obj \<Rightarrow> nat list \<Rightarrow> nat list \<Rightarrow> nat \<Rightarrow> obj \<Rightarrow> session_error + linear_trajectory" where
  "update_pretokenized_state s request_messages assistant_message prompt completion max_trim turn =
     rbind (assert_pretokenized_prefix (token_ids s) (prompt @ completion) max_trim) (\<lambda>_.
       let ends = generated_checkpoint_message_ends s @ [length request_messages + 1]
       in Inr (s\<lparr>messages := messages s @ drop (length (messages s)) request_messages @ [assistant_message],
                 trajectory_token_ids := trajectory_token_ids s @ [prompt @ completion],
                 turn_args_history := turn_args_history s @ [turn],
                 generated_checkpoint_message_ends := ends,
                 num_assistant := length ends\<rparr>))"

section \<open>A chat completion\<close>

text \<open>\<open>_maybe_request_addition_r3\<close>: ask only for the replay rows the session has not kept.\<close>

definition maybe_request_addition_r3 :: "bool \<Rightarrow> obj \<Rightarrow> nat list \<Rightarrow> nat list \<Rightarrow> session_error + obj" where
  "maybe_request_addition_r3 use_addition_r3 body checkpoint prompt =
     (if \<not> (use_addition_r3 \<and> truthy (dget body ''return_routed_experts'')) then Inr body
      else let previous_rows = length checkpoint - 1
           in if take previous_rows prompt \<noteq> take previous_rows checkpoint then Inl (Uncaught AssertionError)
              else Inr (dset ''routed_experts_start_len'' (JInt (int previous_rows)) body))"

text \<open>The validated completion of a backend response.\<close>

record completion =
  c_response :: obj
  c_message :: obj
  c_token_ids :: "nat list"

text \<open>What a chat remembers across the proxy call, made by the first locked phase.\<close>

record pending_chat =
  pc_body :: obj
  pc_messages :: "obj list"
  pc_prompt :: "nat list"
  pc_expected :: nat
  pc_intent :: response_intent

fun json_nat :: "json \<Rightarrow> nat" where
  "json_nat (JInt i) = nat i"
| "json_nat _ = 0"

definition input_ids_of :: "obj \<Rightarrow> nat list" where
  "input_ids_of body = (case dget body ''input_ids'' of JArr xs \<Rightarrow> map json_nat xs | _ \<Rightarrow> [])"

definition begin_chat ::
  "session_env \<Rightarrow> linear_trajectory \<Rightarrow> obj \<Rightarrow> (session_error + pending_chat) \<times> linear_trajectory" where
  "begin_chat env s client_args =
     (if closing s then (Inl SessionNotFoundError, s)
      else case prepare_token_ids_and_request_args env s client_args of
        Inl e \<Rightarrow> (Inl e, s)
      | Inr (prepared, s') \<Rightarrow>
          (rbind (messages_of (p_body prepared)) (\<lambda>request_messages.
           let prompt = input_ids_of (p_body prepared)
           in rbind (maybe_request_addition_r3 (env_addition_r3 env) (p_body prepared) (token_ids s') prompt) (\<lambda>body.
              Inr \<lparr>pc_body = body, pc_messages = request_messages, pc_prompt = prompt,
                   pc_expected = num_assistant s', pc_intent = p_intent prepared\<rparr>)), s'))"

text \<open>The second locked phase.  A closing session, or one whose checkpoint count moved, is left alone.\<close>

definition finish_chat :: "session_env \<Rightarrow> linear_trajectory \<Rightarrow> pending_chat \<Rightarrow> completion \<Rightarrow> session_error + linear_trajectory" where
  "finish_chat env s p c =
     (if closing s then Inr s
      else if num_assistant s \<noteq> pc_expected p then Inr s
      else rbind (update_pretokenized_state s
                    (preserve_server_message_state (tito_family (env_tito env)) (messages s) (pc_messages p))
                    (c_message c) (pc_prompt p) (c_token_ids c)
                    (max_trim_tokens (tito_family (env_tito env))) (pc_body p)) (\<lambda>s'.
           Inr (append_record \<lparr>rec_request = pc_body p, rec_response = c_response c, rec_status = 200\<rparr> s')))"

text \<open>\<open>extract_completion\<close> on the decoded response body.\<close>

definition token_of_logprob :: "json \<Rightarrow> session_error + nat" where
  "token_of_logprob t = (case t of
      JArr (_ # JInt i # _) \<Rightarrow> Inr (nat i)
    | JArr _ \<Rightarrow> Inl (Uncaught IndexError)
    | _ \<Rightarrow> Inl (Uncaught TypeError))"

definition first_choice :: "obj \<Rightarrow> session_error + obj" where
  "first_choice response =
     (case map_of response ''choices'' of
        None \<Rightarrow> Inr []
      | Some (JArr []) \<Rightarrow> Inl (Uncaught IndexError)
      | Some (JArr (JObj choice # _)) \<Rightarrow> Inr choice
      | Some _ \<Rightarrow> Inl (Uncaught TypeError))"

definition extract_completion :: "obj \<Rightarrow> session_error + obj \<times> obj \<times> nat list" where
  "extract_completion response =
     rbind (first_choice response) (\<lambda>choice.
       if dget choice ''finish_reason'' = JStr ''abort'' then Inl UpstreamGenerationAbortedError
       else case dget choice ''meta_info'' of
         JObj meta \<Rightarrow>
           if \<not> dhas meta ''output_token_logprobs'' then Inl UpstreamResponseError
           else let message = as_obj (dget choice ''message'')
           in if dget message ''content'' = JNull then Inl UpstreamResponseError
           else if \<not> dhas meta ''completion_tokens'' then Inl (Uncaught KeyError)
           else (case dget meta ''output_token_logprobs'' of
              JArr logprobs \<Rightarrow>
                if \<not> py_eq (JInt (int (length logprobs))) (dget meta ''completion_tokens'') then Inl UpstreamResponseError
                else rbind (rmap token_of_logprob logprobs) (\<lambda>ids. Inr (choice, message, ids))
            | _ \<Rightarrow> Inl (Uncaught TypeError))
       | _ \<Rightarrow> Inl UpstreamResponseError)"

section \<open>The session invariant\<close>

text \<open>Each checkpoint's tokens extend the previous one's, but for the last \<open>trim\<close>.\<close>

definition extends_upto :: "nat \<Rightarrow> nat list \<Rightarrow> nat list \<Rightarrow> bool" where
  "extends_upto trim prev cur \<longleftrightarrow> take (length prev - trim) cur = take (length prev - trim) prev"

fun chain :: "('a \<Rightarrow> 'a \<Rightarrow> bool) \<Rightarrow> 'a list \<Rightarrow> bool" where
  "chain R (x # y # zs) = (R x y \<and> chain R (y # zs))"
| "chain R _ = True"

definition counts_ok :: "nat \<Rightarrow> linear_trajectory \<Rightarrow> bool" where
  "counts_ok trim s \<longleftrightarrow> num_assistant s = length (generated_checkpoint_message_ends s) \<and>
     length (trajectory_token_ids s) = num_assistant s \<and> length (turn_args_history s) = num_assistant s \<and>
     length (records s) = num_assistant s \<and> chain (extends_upto trim) (trajectory_token_ids s)"

definition linear_ok :: "nat \<Rightarrow> linear_trajectory \<Rightarrow> bool" where
  "linear_ok trim s \<longleftrightarrow> counts_ok trim s \<and>
     sorted_wrt (<) (generated_checkpoint_message_ends s) \<and>
     length (messages s) = (if generated_checkpoint_message_ends s = [] then 0 else last (generated_checkpoint_message_ends s)) \<and>
     0 \<notin> set (generated_checkpoint_message_ends s)"

lemma chain_snoc: "chain R (xs @ [y]) \<longleftrightarrow> chain R xs \<and> (xs \<noteq> [] \<longrightarrow> R (last xs) y)"
  by (induction R xs rule: chain.induct) auto

lemma chain_appendD: "chain R (xs @ ys) \<Longrightarrow> chain R xs"
proof (induction ys rule: rev_induct)
  case (snoc y ys)
  then have "chain R ((xs @ ys) @ [y])" by simp
  then show ?case using snoc.IH by (simp only: chain_snoc)
qed simp

lemma chain_take: "chain R xs \<Longrightarrow> chain R (take n xs)"
  by (metis append_take_drop_id chain_appendD)

lemma sorted_lt_le_last:
  fixes e :: "nat list"
  assumes "sorted_wrt (<) e" and "i < length e"
  shows "e ! i \<le> last e"
proof -
  have ne: "e \<noteq> []" using assms(2) by auto
  show ?thesis
  proof (cases "i = length e - 1")
    case True
    then show ?thesis using ne by (simp add: last_conv_nth)
  next
    case False
    then have "e ! i < e ! (length e - 1)" using sorted_wrt_nth_less[OF assms(1), of i "length e - 1"] assms(2) by simp
    then show ?thesis using ne by (simp add: last_conv_nth)
  qed
qed

lemma last_take: "0 < n \<Longrightarrow> n \<le> length xs \<Longrightarrow> last (take n xs) = xs ! (n - 1)"
  by (subst last_conv_nth) auto

lemma assert_prefix_iff:
  "assert_pretokenized_prefix prev all trim = Inr () \<longleftrightarrow> extends_upto trim prev all"
  by (auto simp: assert_pretokenized_prefix_def extends_upto_def Let_def)

lemma new_trajectory_ok: "linear_ok trim (new_trajectory ev d replay)"
  by (simp add: linear_ok_def counts_ok_def new_trajectory_def)

lemma rollback_counts:
  assumes "counts_ok trim s" and "kept cp \<le> num_assistant s"
  shows "counts_ok trim (rollback_to_checkpoint cp s) \<and> num_assistant (rollback_to_checkpoint cp s) = kept cp \<and>
    trajectory_token_ids (rollback_to_checkpoint cp s) = take (kept cp) (trajectory_token_ids s) \<and>
    closing (rollback_to_checkpoint cp s) = closing s"
  using assms by (auto simp: counts_ok_def rollback_to_checkpoint_def Let_def intro: chain_take)

lemma rollback_ok:
  assumes ok: "linear_ok trim s" and le: "kept cp \<le> num_assistant s"
  shows "linear_ok trim (rollback_to_checkpoint cp s) \<and>
    messages (rollback_to_checkpoint cp s) =
      take (case cp of None \<Rightarrow> 0 | Some i \<Rightarrow> generated_checkpoint_message_ends s ! i) (messages s)"
proof -
  let ?e = "generated_checkpoint_message_ends s"
  have c: "counts_ok trim s" and srt: "sorted_wrt (<) ?e" and lm: "length (messages s) = (if ?e = [] then 0 else last ?e)"
    and z: "0 \<notin> set ?e" using ok by (auto simp: linear_ok_def)
  have n: "num_assistant s = length ?e" using c by (simp add: counts_ok_def)
  note le_last = sorted_lt_le_last[OF srt]
  show ?thesis
  proof (cases "num_assistant s = kept cp")
    case True
    then show ?thesis using ok n lm by (cases cp) (auto simp: rollback_to_checkpoint_def last_conv_nth)
  next
    case False
    have t: "set (take (kept cp) ?e) \<subseteq> set ?e" by (rule set_take_subset)
    have "length (take (case cp of None \<Rightarrow> 0 | Some i \<Rightarrow> ?e ! i) (messages s)) =
        (if take (kept cp) ?e = [] then 0 else last (take (kept cp) ?e))"
      using le n lm le_last by (cases cp) (auto simp: last_take Suc_le_eq)
    then show ?thesis
      using rollback_counts[OF c le] False srt z t
      by (auto simp: linear_ok_def rollback_to_checkpoint_def Let_def sorted_wrt_take)
  qed
qed

section \<open>Checkpoint selection\<close>

lemma last_checkpoint_spec:
  assumes "sorted_wrt (<) ends"
  shows "i < length ends \<Longrightarrow> ends ! i \<le> m \<longleftrightarrow> i < kept (last_checkpoint ends m)"
    and "kept (last_checkpoint ends m) \<le> length ends"
proof -
  have mono: "ends ! i \<le> ends ! j" if "i \<le> j" "j < length ends" for i j
    using sorted_wrt_nth_less[OF assms, of i j] that by (cases "i = j") auto
  have "(i < length ends \<longrightarrow> (ends ! i \<le> m \<longleftrightarrow> i < kept (last_checkpoint ends m))) \<and>
    kept (last_checkpoint ends m) \<le> length ends" for i
  proof (cases "find_index (\<lambda>e. e \<le> m) (rev ends)")
    case None
    then have "m < e" if "e \<in> set ends" for e using that by (auto simp: find_index_None_iff not_le)
    then show ?thesis by (auto simp: last_checkpoint_def None not_le)
  next
    case (Some j)
    from find_index_SomeD[OF this] have j: "j < length ends" "ends ! (length ends - Suc j) \<le> m"
      and before: "\<And>i. i < j \<Longrightarrow> m < ends ! (length ends - Suc i)"
      by (auto simp: rev_nth not_le)
    have "ends ! i \<le> m" if "i \<le> length ends - Suc j" for i
    proof -
      have "length ends - Suc j < length ends" using j(1) by simp
      from mono[OF that this] j(2) show ?thesis by simp
    qed
    moreover have "m < ends ! i" if "length ends - Suc j < i" "i < length ends" for i
      using before[of "length ends - Suc i"] that by simp
    moreover have "kept (last_checkpoint ends m) = length ends - j"
      using j(1) by (simp add: last_checkpoint_def Some)
    moreover have "i < length ends - j \<longleftrightarrow> i \<le> length ends - Suc j" for i using j(1) by auto
    ultimately show ?thesis by (metis diff_le_self leD not_le_imp_less)
  qed
  then show "i < length ends \<Longrightarrow> ends ! i \<le> m \<longleftrightarrow> i < kept (last_checkpoint ends m)"
    and "kept (last_checkpoint ends m) \<le> length ends" by blast+
qed

definition checkpoint_matched :: "(obj \<Rightarrow> obj \<Rightarrow> bool) \<Rightarrow> linear_trajectory \<Rightarrow> obj list \<Rightarrow> nat \<Rightarrow> bool" where
  "checkpoint_matched matcher s request i \<longleftrightarrow>
     generated_checkpoint_message_ends s ! i \<le> match_len matcher (messages s) request"

lemma find_rollback_spec:
  assumes ok: "linear_ok trim s"
  shows "case find_rollback_checkpoint matcher s request of
      Inr cp \<Rightarrow> kept cp \<le> num_assistant s \<and> num_assistant s \<le> kept cp + 1 \<and>
        (\<forall>i < num_assistant s. checkpoint_matched matcher s request i \<longleftrightarrow> i < kept cp)
    | Inl e \<Rightarrow> e = MessageValidationError \<and> 2 \<le> num_assistant s \<and>
        \<not> checkpoint_matched matcher s request (num_assistant s - 2)"
proof -
  define n where "n = num_assistant s"
  let ?e = "generated_checkpoint_message_ends s" and ?m = "match_len matcher (messages s) request"
  have srt: "sorted_wrt (<) ?e" and n: "n = length ?e" and tr: "length (trajectory_token_ids s) = n"
    and lm: "length (messages s) = (if ?e = [] then 0 else last ?e)" and z: "0 \<notin> set ?e"
    using ok by (auto simp: linear_ok_def counts_ok_def n_def)
  have mle: "?m \<le> length (messages s)" by (rule match_len_le)
  show ?thesis
  proof (cases "messages s = [] \<or> trajectory_token_ids s = []")
    case True
    then have "n = 0"
    proof
      assume "messages s = []"
      then show "n = 0" using lm n z by (metis last_in_set length_0_conv)
    qed (use tr in simp)
    then show ?thesis using True by (auto simp: find_rollback_checkpoint_def n_def)
  next
    case False
    then have ne: "0 < n" using tr by auto
    show ?thesis
    proof (cases "length (messages s) \<le> ?m")
      case True
      have "?e ! i \<le> last ?e" if "i < n" for i using sorted_lt_le_last[OF srt] that n by simp
      moreover have "?m = last ?e" using True mle lm ne n by auto
      ultimately show ?thesis
        using False True ne by (auto simp: find_rollback_checkpoint_def n_def[symmetric] checkpoint_matched_def)
    next
      case short: False
      let ?cp = "last_checkpoint ?e ?m"
      have spec: "\<And>i. i < n \<Longrightarrow> ?e ! i \<le> ?m \<longleftrightarrow> i < kept ?cp" and le: "kept ?cp \<le> n"
        using last_checkpoint_spec[OF srt] n by auto
      show ?thesis
      proof (cases "1 < n - kept ?cp")
        case True
        then have "\<not> ?e ! (n - 2) \<le> ?m" using spec[of "n - 2"] by auto
        then show ?thesis using True False short
          by (simp add: find_rollback_checkpoint_def MAX_ASSISTANT_ROLLBACK_STEPS_def n_def[symmetric] checkpoint_matched_def)
      next
        case small: False
        then show ?thesis using False short spec le
          by (simp add: find_rollback_checkpoint_def MAX_ASSISTANT_ROLLBACK_STEPS_def n_def[symmetric] checkpoint_matched_def)
      qed
    qed
  qed
qed

text \<open>
  A request that replays a session's history, perhaps diverging from it, selects the deepest
  checkpoint whose messages it still matches; it is rejected exactly when that would discard more
  than one generated reply.
\<close>

theorem find_rollback_checkpoint_deepest:
  assumes "linear_ok trim s"
  shows "case find_rollback_checkpoint matcher s request of
      Inr cp \<Rightarrow> kept cp \<le> num_assistant s \<and> num_assistant s \<le> kept cp + 1 \<and>
        (\<forall>i < num_assistant s. checkpoint_matched matcher s request i \<longleftrightarrow> i < kept cp)
    | Inl e \<Rightarrow> e = MessageValidationError \<and> 2 \<le> num_assistant s \<and>
        \<not> checkpoint_matched matcher s request (num_assistant s - 2)"
  by (rule find_rollback_spec[OF assms])

section \<open>A turn from preparation to commit\<close>

lemma rollback_token_ids:
  assumes "counts_ok trim s" and "kept cp \<le> num_assistant s"
  shows "token_ids (rollback_to_checkpoint cp s) = (case cp of None \<Rightarrow> [] | Some i \<Rightarrow> trajectory_token_ids s ! i)"
  using assms rollback_counts[OF assms]
  by (cases cp) (auto simp: token_ids_def counts_ok_def last_take Suc_le_eq)

lemma find_rollback_bounds:
  assumes "linear_ok trim s" and "find_rollback_checkpoint matcher s request = Inr cp"
  shows "kept cp \<le> num_assistant s \<and> num_assistant s \<le> kept cp + 1 \<and>
    (\<forall>i < num_assistant s. checkpoint_matched matcher s request i \<longleftrightarrow> i < kept cp)"
  using find_rollback_spec[OF assms(1), of matcher request] assms(2) by simp

text \<open>The rendered prompt extends the tokens of the selected checkpoint.\<close>

lemma render_extends:
  assumes r: "render_token_ids env s request cp args = Inr ids"
    and t: "tito_ok (env_hf env) (env_tito env)"
  shows "extends_upto (max_trim_tokens (tito_family (env_tito env)))
     (case cp of None \<Rightarrow> [] | Some i \<Rightarrow> trajectory_token_ids s ! i) (ids @ gen)"
proof (cases cp)
  case (Some i)
  show ?thesis
  proof (cases "trajectory_token_ids s ! i = []")
    case False
    with r Some obtain stored new where
      "merge_tokens (env_hf env) (env_tito env) stored new (trajectory_token_ids s ! i) args = Inr ids"
      by (auto simp: render_token_ids_def Let_def result_simps)
    from merge_tokens_extends[OF this t] show ?thesis by (simp add: Some extends_upto_def)
  qed (simp add: Some extends_upto_def)
qed (simp add: extends_upto_def)

lemma update_state_ok:
  assumes ok: "linear_ok trim s" and len: "length (messages s) \<le> length request"
    and e: "extends_upto trim (token_ids s) (prompt @ gen)"
  shows "\<exists>s'. update_pretokenized_state s request msg prompt gen trim turn = Inr s' \<and>
    linear_ok trim (append_record r s') \<and> token_ids s' = prompt @ gen \<and> num_assistant s' = num_assistant s + 1 \<and>
    messages s' = messages s @ drop (length (messages s)) request @ [msg]"
proof -
  let ?e = "generated_checkpoint_message_ends s"
  have c: "counts_ok trim s" and srt: "sorted_wrt (<) ?e" and z: "0 \<notin> set ?e"
    and lm: "length (messages s) = (if ?e = [] then 0 else last ?e)" using ok by (auto simp: linear_ok_def)
  have "x < length request + 1" if "x \<in> set ?e" for x
  proof -
    from that obtain i where "i < length ?e" "x = ?e ! i" by (auto simp: in_set_conv_nth)
    then have "x \<le> last ?e" using sorted_lt_le_last[OF srt] by simp
    then show ?thesis using lm len that by (auto split: if_splits)
  qed
  then have "sorted_wrt (<) (?e @ [length request + 1])" using srt by (simp add: sorted_wrt_append)
  moreover have "assert_pretokenized_prefix (token_ids s) (prompt @ gen) trim = Inr ()"
    using e by (simp add: assert_prefix_iff)
  ultimately show ?thesis using c z len e
    by (auto simp: update_pretokenized_state_def Let_def linear_ok_def counts_ok_def append_record_def token_ids_def
        chain_snoc)
qed

lemma json_nat_map [simp]: "map json_nat (map (JInt \<circ> int) ids) = ids"
  by (induction ids) auto

lemma prepare_shape:
  assumes "prepare_token_ids_and_request_args env s client = Inr (p, s')"
  shows "\<exists>request cp ids args. messages_of client = Inr request \<and>
     find_rollback_checkpoint (env_matcher env) s request = Inr cp \<and>
     render_token_ids env s request cp args = Inr ids \<and> s' = rollback_to_checkpoint cp s \<and>
     input_ids_of (p_body p) = ids"
  using assms
  by (auto simp: prepare_token_ids_and_request_args_def result_simps input_ids_of_def dict_simps simp del: map_map)

text \<open>
  C33.  In a session used by one caller a turn never fails its own token check: if preparing a request
  succeeds, the backend's completion is committed as one more checkpoint, whose tokens are the
  prompt followed by the generated tokens, whose history is the kept messages, the request's new
  ones and the reply, and the session invariant holds again.
\<close>

theorem sequential_turn_commits:
  assumes ok: "linear_ok (max_trim_tokens (tito_family (env_tito env))) s" and t: "tito_ok (env_hf env) (env_tito env)"
    and p: "prepare_token_ids_and_request_args env s client = Inr (p, s')" and m: "messages_of client = Inr request"
  shows "\<exists>s''. update_pretokenized_state s'
        (preserve_server_message_state (tito_family (env_tito env)) (messages s') request) msg
        (input_ids_of (p_body p)) gen (max_trim_tokens (tito_family (env_tito env))) (p_body p) = Inr s'' \<and>
     linear_ok (max_trim_tokens (tito_family (env_tito env))) (append_record r s'') \<and>
     token_ids s'' = input_ids_of (p_body p) @ gen \<and> num_assistant s'' = num_assistant s' + 1 \<and>
     messages s'' = messages s' @ drop (length (messages s')) request @ [msg]"
proof -
  let ?trim = "max_trim_tokens (tito_family (env_tito env))"
  obtain cp ids args where cp: "find_rollback_checkpoint (env_matcher env) s request = Inr cp"
    and r: "render_token_ids env s request cp args = Inr ids" and s': "s' = rollback_to_checkpoint cp s"
    and ids: "input_ids_of (p_body p) = ids"
    using prepare_shape[OF p] m by auto
  from find_rollback_bounds[OF ok cp] have le: "kept cp \<le> num_assistant s"
    and matched: "\<forall>i < num_assistant s. checkpoint_matched (env_matcher env) s request i \<longleftrightarrow> i < kept cp" by auto
  have ok': "linear_ok ?trim s'" and ms: "messages s' =
      take (case cp of None \<Rightarrow> 0 | Some i \<Rightarrow> generated_checkpoint_message_ends s ! i) (messages s)"
    using rollback_ok[OF ok le] by (auto simp: s')
  have "length (messages s') \<le> length request"
  proof (cases cp)
    case (Some i)
    then have "generated_checkpoint_message_ends s ! i \<le> match_len (env_matcher env) (messages s) request"
      using matched le by (auto simp: checkpoint_matched_def)
    also have "\<dots> \<le> length request" by (rule match_len_le)
    finally show ?thesis by (simp add: ms Some)
  qed (simp add: ms)
  moreover have "counts_ok ?trim s" using ok by (simp add: linear_ok_def)
  then have "token_ids s' = (case cp of None \<Rightarrow> [] | Some i \<Rightarrow> trajectory_token_ids s ! i)"
    unfolding s' by (rule rollback_token_ids[OF _ le])
  ultimately show ?thesis
    using update_state_ok[OF ok', of "preserve_server_message_state (tito_family (env_tito env)) (messages s') request"]
      render_extends[OF r t] by (simp add: ids drop_preserve)
qed

section \<open>Errors leave the session as it was\<close>

lemma max_trim_le_1: "max_trim_tokens t \<le> 1"
  by (simp add: max_trim_tokens_def)

lemma extends_upto_mono: "extends_upto k prev cur \<Longrightarrow> k \<le> n \<Longrightarrow> extends_upto n prev cur"
  unfolding extends_upto_def by (metis diff_le_mono2 min.absorb1 take_take)

definition defaults_ok :: "linear_trajectory \<Rightarrow> bool" where
  "defaults_ok s \<longleftrightarrow> fst ` set (sampling_defaults s) \<subseteq> {''temperature'', ''top_p'', ''top_k''}"

lemma prepare_messages_of:
  assumes "prepare_token_ids_and_request_args env s client = Inr (p, s')" and "defaults_ok s"
  shows "messages_of (p_body p) = messages_of client"
proof -
  from assms(1) obtain q turn body where
      q: "prepare_chat_request (env_num env) (env_hf env) (env_tito env) (env_config env) (evaluation s)
              (sampling_defaults s) (sampling_support_replay s) turn client = Inr q"
    and p: "p_body p = dset ''input_ids'' body (p_body q)"
    by (auto simp: prepare_token_ids_and_request_args_def result_simps)
  have "''messages'' \<notin> fst ` set (sampling_defaults s)" using assms(2) by (auto simp: defaults_ok_def)
  from prepared_messages[OF q this] show ?thesis by (simp add: p messages_of_def dict_simps)
qed

lemma addition_r3_accepts:
  assumes "extends_upto k checkpoint prompt" and "k \<le> 1"
  shows "\<exists>body'. maybe_request_addition_r3 use body checkpoint prompt = Inr body'"
  using extends_upto_mono[OF assms]
  by (auto simp: maybe_request_addition_r3_def Let_def extends_upto_def)

lemma last_checkpoint_bound: "kept (last_checkpoint ends m) \<le> length ends"
proof (cases "find_index (\<lambda>e. e \<le> m) (rev ends)")
  case (Some j)
  from find_index_SomeD[OF this] show ?thesis by (simp add: last_checkpoint_def Some Suc_diff_Suc)
qed (simp add: last_checkpoint_def)

lemma find_rollback_kept:
  assumes "counts_ok trim s" and "find_rollback_checkpoint matcher s request = Inr cp"
  shows "kept cp \<le> num_assistant s"
  using assms last_checkpoint_bound[of "generated_checkpoint_message_ends s"]
  by (auto simp: find_rollback_checkpoint_def Let_def counts_ok_def split: if_splits)

lemma prepare_token_ids_extend:
  assumes ok: "counts_ok trim s" and t: "tito_ok (env_hf env) (env_tito env)"
    and p: "prepare_token_ids_and_request_args env s client = Inr (p, s')"
  shows "extends_upto (max_trim_tokens (tito_family (env_tito env))) (token_ids s') (input_ids_of (p_body p) @ gen)"
proof -
  obtain request cp ids args where f: "find_rollback_checkpoint (env_matcher env) s request = Inr cp"
    and r: "render_token_ids env s request cp args = Inr ids" and s': "s' = rollback_to_checkpoint cp s"
    and ids: "input_ids_of (p_body p) = ids"
    using prepare_shape[OF p] by auto
  from rollback_token_ids[OF ok find_rollback_kept[OF ok f]] render_extends[OF r t] show ?thesis by (simp add: s' ids)
qed

text \<open>
  A chat request that is refused, because the session is closing or because validation,
  argument resolution or rendering fails, leaves the session exactly as it was; the
  additional-replay-rows assertion, which runs after a rollback, cannot be what refuses it.
\<close>

theorem begin_chat_error_unchanged:
  assumes "linear_ok (max_trim_tokens (tito_family (env_tito env))) s" and "tito_ok (env_hf env) (env_tito env)"
    and "defaults_ok s" and "begin_chat env s client = (Inl e, s')"
  shows "s' = s"
proof (rule ccontr)
  assume ne: "s' \<noteq> s"
  from assms(4) ne obtain p where p: "prepare_token_ids_and_request_args env s client = Inr (p, s')"
    and err: "rbind (messages_of (p_body p)) (\<lambda>request_messages.
           rbind (maybe_request_addition_r3 (env_addition_r3 env) (p_body p) (token_ids s') (input_ids_of (p_body p))) (\<lambda>body.
              Inr \<lparr>pc_body = body, pc_messages = request_messages, pc_prompt = input_ids_of (p_body p),
                   pc_expected = num_assistant s', pc_intent = p_intent p\<rparr>)) = Inl e"
    by (auto simp: begin_chat_def Let_def split: if_splits sum.splits)
  obtain request where m: "messages_of client = Inr request" using prepare_shape[OF p] by auto
  then have "messages_of (p_body p) = Inr request" using prepare_messages_of[OF p assms(3)] by simp
  moreover have "extends_upto (max_trim_tokens (tito_family (env_tito env))) (token_ids s') (input_ids_of (p_body p))"
    using prepare_token_ids_extend[OF _ assms(2) p, of _ "[]"] assms(1) by (auto simp: linear_ok_def)
  from addition_r3_accepts[OF this max_trim_le_1]
  obtain body where "maybe_request_addition_r3 (env_addition_r3 env) (p_body p) (token_ids s') (input_ids_of (p_body p)) = Inr body"
    by blast
  ultimately show False using err by simp
qed

section \<open>Interleaved chats\<close>

text \<open>A session with the chats that are waiting for the backend.  Any of them may finish next, with any
  completion; a failing backend call or a failing commit just ends the chat; \<open>DELETE\<close> closes the
  session.\<close>

type_synonym session_system = "linear_trajectory \<times> pending_chat list"

inductive session_step :: "session_env \<Rightarrow> session_system \<Rightarrow> session_system \<Rightarrow> bool" for env where
  chat_begins: "begin_chat env s client = (Inr p, s') \<Longrightarrow> session_step env (s, ps) (s', p # ps)"
| chat_refused: "begin_chat env s client = (Inl e, s') \<Longrightarrow> session_step env (s, ps) (s', ps)"
| backend_fails: "session_step env (s, ps @ p # qs) (s, ps @ qs)"
| chat_commits: "finish_chat env s p c = Inr s' \<Longrightarrow> session_step env (s, ps @ p # qs) (s', ps @ qs)"
| commit_fails: "finish_chat env s p c = Inl e \<Longrightarrow> session_step env (s, ps @ p # qs) (s, ps @ qs)"
| session_closes: "session_step env (s, ps) (s\<lparr>closing := True\<rparr>, ps)"

abbreviation session_reaches :: "session_env \<Rightarrow> session_system \<Rightarrow> session_system \<Rightarrow> bool" where
  "session_reaches env \<equiv> (session_step env)\<^sup>*\<^sup>*"

inductive_cases session_stepE: "session_step env (s, ps) (s', ps')"

lemma begin_chat_state: "begin_chat env s client = (r, s') \<Longrightarrow>
    s' = s \<or> (\<exists>p. prepare_token_ids_and_request_args env s client = Inr (p, s'))"
  by (auto simp: begin_chat_def split: if_splits sum.splits)

lemma begin_chat_counts:
  assumes "counts_ok trim s" and "begin_chat env s client = (r, s')"
  shows "counts_ok trim s'"
proof -
  from begin_chat_state[OF assms(2)] show ?thesis
  proof
    assume "\<exists>p. prepare_token_ids_and_request_args env s client = Inr (p, s')"
    then obtain p where p: "prepare_token_ids_and_request_args env s client = Inr (p, s')" ..
    obtain request cp where f: "find_rollback_checkpoint (env_matcher env) s request = Inr cp"
      and s': "s' = rollback_to_checkpoint cp s"
      using prepare_shape[OF p] by auto
    from rollback_counts[OF assms(1) find_rollback_kept[OF assms(1) f]] show ?thesis by (simp add: s')
  qed (use assms(1) in simp)
qed

lemma finish_chat_counts:
  assumes "counts_ok (max_trim_tokens (tito_family (env_tito env))) s" and "finish_chat env s p c = Inr s'"
  shows "counts_ok (max_trim_tokens (tito_family (env_tito env))) s'"
  using assms
  by (auto simp: finish_chat_def update_pretokenized_state_def Let_def result_simps counts_ok_def append_record_def
      chain_snoc token_ids_def assert_prefix_iff split: if_splits)

lemma counts_ok_closing [simp]: "counts_ok trim (s\<lparr>closing := b\<rparr>) = counts_ok trim s"
  by (simp add: counts_ok_def)

lemma reachable_counts:
  assumes "session_reaches env (new_trajectory ev d replay, []) (s, ps)"
  shows "counts_ok (max_trim_tokens (tito_family (env_tito env))) s"
proof -
  let ?trim = "max_trim_tokens (tito_family (env_tito env))"
  have "counts_ok ?trim (fst t)" if "session_reaches env (new_trajectory ev d replay, []) t" for t
    using that
  proof (induction rule: rtranclp_induct)
    case base
    show ?case using new_trajectory_ok[of ?trim] by (simp add: linear_ok_def)
  next
    case (step t u)
    from step.hyps(2) step.IH show ?case
      by (cases rule: session_step.cases) (auto intro: begin_chat_counts finish_chat_counts)
  qed
  from this[OF assms] show ?thesis by simp
qed

text \<open>
  C34.  However chats, retries, backend failures and closing interleave, a session's checkpoints,
  argument history, records and count stay in step, and every checkpoint extends the one before it
  up to the family's trim.
\<close>

theorem interleaved_chats_keep_counts:
  assumes "session_reaches env (new_trajectory ev d replay, []) (s, ps)"
  shows "counts_ok (max_trim_tokens (tito_family (env_tito env))) s"
  using assms by (rule reachable_counts)

text \<open>Runs of the system, computed event by event.\<close>

datatype session_event = Begin obj | Finish nat completion | Fail nat | Close

fun apply_event :: "session_env \<Rightarrow> session_event \<Rightarrow> session_system \<Rightarrow> session_system" where
  "apply_event env (Begin client) (s, ps) =
     (case begin_chat env s client of (Inr p, s') \<Rightarrow> (s', p # ps) | (Inl e, s') \<Rightarrow> (s', ps))"
| "apply_event env (Finish i c) (s, ps) =
     (if i < length ps
      then case finish_chat env s (ps ! i) c of
             Inr s' \<Rightarrow> (s', take i ps @ drop (Suc i) ps) | Inl e \<Rightarrow> (s, take i ps @ drop (Suc i) ps)
      else (s, ps))"
| "apply_event env (Fail i) (s, ps) = (if i < length ps then (s, take i ps @ drop (Suc i) ps) else (s, ps))"
| "apply_event env Close (s, ps) = (s\<lparr>closing := True\<rparr>, ps)"

lemma apply_event_step: "t = apply_event env ev st \<Longrightarrow> t = st \<or> session_step env st t"
proof (induction env ev st rule: apply_event.induct)
  case (1 env client s ps)
  then show ?case by (auto intro: session_step.intros split: prod.splits sum.splits)
next
  case (2 env i c s ps)
  show ?case
  proof (cases "i < length ps")
    case True
    then have ps: "ps = take i ps @ ps ! i # drop (Suc i) ps" by (rule id_take_nth_drop)
    show ?thesis
      using 2 True session_step.chat_commits[of env s "ps ! i" c _ "take i ps" "drop (Suc i) ps"]
        session_step.commit_fails[of env s "ps ! i" c _ "take i ps" "drop (Suc i) ps"]
      by (auto simp: ps[symmetric] split: sum.splits)
  qed (use 2 in simp)
next
  case (3 env i s ps)
  show ?case
  proof (cases "i < length ps")
    case True
    then have ps: "ps = take i ps @ ps ! i # drop (Suc i) ps" by (rule id_take_nth_drop)
    show ?thesis
      using 3 True session_step.backend_fails[of env s "take i ps" "ps ! i" "drop (Suc i) ps"] by (simp add: ps[symmetric])
  qed (use 3 in simp)
next
  case (4 env s ps)
  then show ?case by (auto intro: session_step.intros)
qed

lemma run_reaches: "session_reaches env st (fold (apply_event env) evs st)"
proof (induction evs rule: rev_induct)
  case (snoc ev evs)
  show ?case using snoc apply_event_step[OF refl, of env ev "fold (apply_event env) evs st"]
    by (auto intro: rtranclp.rtrancl_into_rtrancl)
qed simp

definition demo_env :: session_env where
  "demo_env = \<lparr>env_num = (\<lambda>s. None, \<lambda>s. None), env_hf = demo_hf, env_tito = demo_tito, env_config = demo_config,
     env_matcher = strict_message_matches, env_addition_r3 = True\<rparr>"

abbreviation client_of :: "obj list \<Rightarrow> obj" where
  "client_of msgs \<equiv> [(''messages'', JArr (map JObj msgs))]"

abbreviation reply_of :: "string \<Rightarrow> nat list \<Rightarrow> completion" where
  "reply_of text ids \<equiv> \<lparr>c_response = [], c_message = assistant_msg text, c_token_ids = ids\<rparr>"

lemma demo_tito_ok: "tito_ok (env_hf demo_env) (env_tito demo_env)"
  using get_tito_tokenizer_ok[OF demo_get] by (simp add: demo_env_def)

definition demo_session :: linear_trajectory where
  "demo_session = fst (fold (apply_event demo_env)
     [Begin (client_of [user_msg ''a'']), Finish 0 (reply_of ''b'' [7])] (new_trajectory False [] False, []))"

lemma demo_session_ok: "linear_ok 1 demo_session"
  by code_simp

theorem find_rollback_checkpoint_witness:
  "case find_rollback_checkpoint strict_message_matches demo_session [user_msg ''a'', assistant_msg ''b'', user_msg ''c''] of
     Inr cp \<Rightarrow> kept cp \<le> num_assistant demo_session \<and> num_assistant demo_session \<le> kept cp + 1 \<and>
       (\<forall>i < num_assistant demo_session. checkpoint_matched strict_message_matches demo_session
          [user_msg ''a'', assistant_msg ''b'', user_msg ''c''] i \<longleftrightarrow> i < kept cp)
   | Inl e \<Rightarrow> e = MessageValidationError \<and> 2 \<le> num_assistant demo_session \<and>
       \<not> checkpoint_matched strict_message_matches demo_session
          [user_msg ''a'', assistant_msg ''b'', user_msg ''c''] (num_assistant demo_session - 2)"
  by (rule find_rollback_checkpoint_deepest[OF demo_session_ok])

definition demo_prepared :: prepared_chat_request where
  "demo_prepared = \<lparr>p_body = [(''messages'', JArr [JObj (user_msg ''a'')]), (''logprobs'', JBool True),
       (''return_meta_info'', JBool True), (''no_stop_trim'', JBool False), (''return_routed_experts'', JBool True),
       (''return_indexer_topk'', JBool False), (ctk, JObj [(''clear_thinking'', JBool False)]), (''tools'', JNull),
       (OUTPUT_STORE_REQUEST_KEY, JBool True), (''input_ids'', JArr [JInt 109, JInt 103])],
     p_template_args = [(''clear_thinking'', JBool False)], p_intent = \<lparr>ri_stream = False, ri_logprobs = False\<rparr>\<rparr>"

lemma demo_prepare_turn:
  "prepare_token_ids_and_request_args demo_env (new_trajectory False [] False) (client_of [user_msg ''a'']) =
     Inr (demo_prepared, new_trajectory False [] False)"
  by code_simp

theorem sequential_turn_commits_witness:
  "\<exists>s''. linear_ok (max_trim_tokens (tito_family (env_tito demo_env)))
      (append_record \<lparr>rec_request = [], rec_response = [], rec_status = 200\<rparr> s'') \<and>
    token_ids s'' = input_ids_of (p_body demo_prepared) @ [7] \<and> num_assistant s'' = num_assistant (new_trajectory False [] False) + 1"
proof -
  have "messages_of (client_of [user_msg ''a'']) = Inr [user_msg ''a'']" by (simp add: messages_of_def)
  from sequential_turn_commits[OF new_trajectory_ok demo_tito_ok demo_prepare_turn this]
  show ?thesis by blast
qed

theorem begin_chat_error_unchanged_witness:
  "\<exists>s'. begin_chat demo_env demo_session [(''messages'', JArr []), (''input_ids'', JArr [])] =
     (Inl MessageValidationError, s') \<and> s' = demo_session"
proof -
  have e: "fst (begin_chat demo_env demo_session [(''messages'', JArr []), (''input_ids'', JArr [])]) =
      Inl MessageValidationError" by code_simp
  then obtain s' where b: "begin_chat demo_env demo_session [(''messages'', JArr []), (''input_ids'', JArr [])] =
      (Inl MessageValidationError, s')" by (metis prod.collapse)
  have "linear_ok (max_trim_tokens (tito_family (env_tito demo_env))) demo_session" by code_simp
  moreover have "defaults_ok demo_session" by code_simp
  ultimately have "s' = demo_session" using begin_chat_error_unchanged[OF _ demo_tito_ok _ b] by blast
  then show ?thesis using b by blast
qed

text \<open>A first turn; a second turn that stays at the backend; meanwhile a retry of the first turn that
  commits another reply.\<close>

definition stale_run :: "nat list \<Rightarrow> session_system" where
  "stale_run ids = fold (apply_event demo_env)
     [Begin (client_of [user_msg ''a'']), Finish 0 (reply_of ''b'' [7]),
      Begin (client_of [user_msg ''a'', assistant_msg ''b'', user_msg ''c'']),
      Begin (client_of [user_msg ''z'']), Finish 0 (reply_of ''y'' ids)]
     (new_trajectory False [] False, [])"

theorem interleaved_chats_keep_counts_witness:
  "counts_ok (max_trim_tokens (tito_family (env_tito demo_env))) (fst (stale_run [8, 9]))"
proof -
  have "session_reaches demo_env (new_trajectory False [] False, []) (stale_run [8, 9])"
    unfolding stale_run_def by (rule run_reaches)
  then have "session_reaches demo_env (new_trajectory False [] False, []) (fst (stale_run [8, 9]), snd (stale_run [8, 9]))"
    by simp
  then show ?thesis by (rule interleaved_chats_keep_counts)
qed


end
