(* ===== verification/Session_Tree.thy ===== *)
theory Session_Tree
  imports Session_Linear
begin

text \<open>
  \<^verbatim>\<open>miles/rollout/session/v2/\<close>: the session as an append-only forest of generations
  (\<^verbatim>\<open>tree_trajectory.py\<close>) and the serving policy on top of it (\<^verbatim>\<open>session_state.py\<close>,
  \<^verbatim>\<open>core.py\<close>).  A node is named by its \<open>seq\<close>, its position in the list of nodes; parent and
  children are references to such positions.  Wall-clock times are not modelled.
\<close>

definition MAX_NODES :: nat where
  "MAX_NODES = 1024"

record trajectory_node =
  delta_messages :: "obj list"
  node_token_ids :: "nat list"
  completion_span :: "nat \<times> nat"
  node_seq :: nat
  response_id :: json
  node_record :: session_record
  finish_reason :: json
  node_turn_args :: obj
  node_parent :: "nat option"
  node_children :: "nat list"

record session_tree =
  tree_roots :: "nat list"
  tree_nodes :: "trajectory_node list"

definition empty_tree :: session_tree where
  "empty_tree = \<lparr>tree_roots = [], tree_nodes = []\<rparr>"

definition truncated :: "trajectory_node \<Rightarrow> bool" where
  "truncated n \<longleftrightarrow> finish_reason n = JStr ''length''"

text \<open>Walking the parent references, at most once per node, then reversing.\<close>

fun ancestors :: "nat \<Rightarrow> session_tree \<Rightarrow> nat option \<Rightarrow> nat list" where
  "ancestors 0 t i = []"
| "ancestors (Suc fuel) t None = []"
| "ancestors (Suc fuel) t (Some i) =
     (if i < length (tree_nodes t) then i # ancestors fuel t (node_parent (tree_nodes t ! i)) else [])"

definition path_nodes :: "session_tree \<Rightarrow> nat option \<Rightarrow> nat list" where
  "path_nodes t i = rev (ancestors (length (tree_nodes t)) t i)"

definition path_messages :: "session_tree \<Rightarrow> nat option \<Rightarrow> obj list" where
  "path_messages t i = concat (map (\<lambda>j. delta_messages (tree_nodes t ! j)) (path_nodes t i))"

definition leaves :: "session_tree \<Rightarrow> nat list" where
  "leaves t = filter (\<lambda>i. node_children (tree_nodes t ! i) = []) [0..<length (tree_nodes t)]"

text \<open>Appending a node and registering it with its parent or as a root.\<close>

definition link_node :: "nat option \<Rightarrow> trajectory_node \<Rightarrow> session_tree \<Rightarrow> session_tree" where
  "link_node parent n t =
     (let i = length (tree_nodes t)
      in case parent of
           None \<Rightarrow> t\<lparr>tree_nodes := tree_nodes t @ [n], tree_roots := tree_roots t @ [i]\<rparr>
         | Some p \<Rightarrow>
             let p' = (tree_nodes t ! p)\<lparr>node_children := node_children (tree_nodes t ! p) @ [i]\<rparr>
             in t\<lparr>tree_nodes := (tree_nodes t)[p := p'] @ [n]\<rparr>)"

definition create_node ::
  "session_tree \<Rightarrow> nat option \<Rightarrow> obj list \<Rightarrow> nat list \<Rightarrow> nat \<times> nat \<Rightarrow> json \<Rightarrow> session_record \<Rightarrow> json \<Rightarrow> obj \<Rightarrow>
   py_exn + session_tree" where
  "create_node t parent delta ids cspan rid r reason turn =
     (if MAX_NODES \<le> length (tree_nodes t) then Inl ValueError
      else Inr (link_node parent
        \<lparr>delta_messages = delta, node_token_ids = ids, completion_span = cspan, node_seq = length (tree_nodes t),
         response_id = rid, node_record = r, finish_reason = reason, node_turn_args = turn,
         node_parent = parent, node_children = []\<rparr> t))"

text \<open>\<open>SessionTree.snapshot\<close>: every node copied in order, parents found by \<open>seq\<close>.\<close>

definition snapshot_step :: "trajectory_node \<Rightarrow> session_tree \<Rightarrow> session_tree" where
  "snapshot_step n t = link_node (node_parent n) (n\<lparr>node_children := []\<rparr>) t"

definition snapshot :: "session_tree \<Rightarrow> session_tree" where
  "snapshot t = fold snapshot_step (tree_nodes t) empty_tree"

section \<open>Finding the attach point\<close>

record attach_point =
  attach_node :: "nat option"
  matched_messages :: nat
  best_overlap :: nat

text \<open>The search pops a node with the number of request messages its parents consumed.  The best
  candidate so far is kept with its depth, \<open>None\<close> standing for the source's \<open>-1\<close>.\<close>

type_synonym search_state = "(nat \<times> nat) option \<times> nat"

definition better :: "(nat \<times> nat) option \<Rightarrow> nat \<Rightarrow> nat \<Rightarrow> bool" where
  "better best matched i =
     (case best of None \<Rightarrow> True | Some (b, bm) \<Rightarrow> bm < matched \<or> matched = bm \<and> b < i)"

definition visit ::
  "(obj \<Rightarrow> obj \<Rightarrow> bool) \<Rightarrow> session_tree \<Rightarrow> obj list \<Rightarrow> nat \<times> nat \<Rightarrow> search_state \<Rightarrow>
   (nat \<times> nat) list \<times> search_state" where
  "visit matcher t request = (\<lambda>(i, offset) (best, overlap).
     let n = tree_nodes t ! i; delta = delta_messages n;
         k = match_len matcher delta (drop offset request);
         overlap = max overlap (offset + k)
     in if k < length delta then ([], (best, overlap))
        else let matched = offset + length delta;
                 best = (if better best matched i then Some (i, matched) else best)
             in (map (\<lambda>c. (c, matched)) (node_children n), (best, overlap)))"

text \<open>The stack with its top first; \<open>fuel\<close> bounds the number of pops, one per node being enough.\<close>

fun search ::
  "nat \<Rightarrow> (obj \<Rightarrow> obj \<Rightarrow> bool) \<Rightarrow> session_tree \<Rightarrow> obj list \<Rightarrow> (nat \<times> nat) list \<Rightarrow> search_state \<Rightarrow> search_state option"
  where
  "search fuel matcher t request [] st = Some st"
| "search 0 matcher t request (x # stack) st = None"
| "search (Suc fuel) matcher t request (x # stack) st =
     (let (push, st') = visit matcher t request x st in search fuel matcher t request (push @ stack) st')"

definition find_attach_point :: "(obj \<Rightarrow> obj \<Rightarrow> bool) \<Rightarrow> session_tree \<Rightarrow> obj list \<Rightarrow> attach_point option" where
  "find_attach_point matcher t request =
     map_option (\<lambda>(best, overlap). case best of
         None \<Rightarrow> \<lparr>attach_node = None, matched_messages = 0, best_overlap = overlap\<rparr>
       | Some (i, m) \<Rightarrow> \<lparr>attach_node = Some i, matched_messages = m, best_overlap = overlap\<rparr>)
     (search (length (tree_nodes t)) matcher t request (map (\<lambda>r. (r, 0)) (tree_roots t)) (None, 0))"

section \<open>Serving a request\<close>

record session_state_v2 =
  v2_closing :: bool
  v2_tree :: session_tree
  v2_evaluation :: bool
  v2_sampling_defaults :: obj
  v2_sampling_support_replay :: bool
  v2_extra_key :: "string option"

definition new_state_v2 :: "bool \<Rightarrow> obj \<Rightarrow> bool \<Rightarrow> string option \<Rightarrow> session_state_v2" where
  "new_state_v2 ev defaults replay key =
     \<lparr>v2_closing = False, v2_tree = empty_tree, v2_evaluation = ev, v2_sampling_defaults = defaults,
      v2_sampling_support_replay = replay, v2_extra_key = key\<rparr>"

definition latest :: "session_state_v2 \<Rightarrow> nat option" where
  "latest s = (if tree_nodes (v2_tree s) = [] then None else Some (length (tree_nodes (v2_tree s)) - 1))"

definition node_tokens :: "session_tree \<Rightarrow> nat option \<Rightarrow> nat list" where
  "node_tokens t i = (case i of None \<Rightarrow> [] | Some i \<Rightarrow> node_token_ids (tree_nodes t ! i))"

text \<open>A search out of fuel would be a cycle of references; it cannot happen in a well-formed tree.\<close>

definition attach_point_for_request ::
  "(obj \<Rightarrow> obj \<Rightarrow> bool) \<Rightarrow> session_state_v2 \<Rightarrow> obj list \<Rightarrow> session_error + attach_point" where
  "attach_point_for_request matcher s request =
     (case find_attach_point matcher (v2_tree s) request of
        None \<Rightarrow> Inl (Uncaught ValueError)
      | Some a \<Rightarrow>
          (case attach_node a of
             None \<Rightarrow> Inr a
           | Some i \<Rightarrow> if truncated (tree_nodes (v2_tree s) ! i) then Inl TruncatedGenerationError else Inr a))"

definition render_tree_token_ids ::
  "session_env \<Rightarrow> session_tree \<Rightarrow> nat option \<Rightarrow> obj list \<Rightarrow> obj \<Rightarrow> session_error + nat list" where
  "render_tree_token_ids env t parent request template_args =
     (case parent of
        None \<Rightarrow> render_ids env request True template_args
      | Some i \<Rightarrow>
          let stored = path_messages t parent; suffix = drop (length stored) request
          in if \<not> list_all (role_allowed (allowed_append_roles (FIXED_TEMPLATE (tito_family (env_tito env))))) suffix
             then Inl MessageValidationError
             else merge_tokens (env_hf env) (env_tito env) stored (stored @ suffix) (node_tokens t parent) template_args)"

definition prepare_tree_request ::
  "session_env \<Rightarrow> session_state_v2 \<Rightarrow> obj \<Rightarrow> session_error + prepared_chat_request \<times> nat option" where
  "prepare_tree_request env s client_args =
     rbind (messages_of client_args) (\<lambda>request.
     rbind (attach_point_for_request (env_matcher env) s request) (\<lambda>attach.
     let parent = attach_node attach
     in rbind (prepare_chat_request (env_num env) (env_hf env) (env_tito env) (env_config env) (v2_evaluation s)
              (v2_sampling_defaults s) (v2_sampling_support_replay s)
              (map_option (\<lambda>i. node_turn_args (tree_nodes (v2_tree s) ! i)) parent) client_args) (\<lambda>prepared.
        rbind (render_tree_token_ids env (v2_tree s) parent request (p_template_args prepared)) (\<lambda>ids.
        Inr (prepared\<lparr>p_body := dset ''input_ids'' (JArr (map (JInt \<circ> int) ids)) (p_body prepared)\<rparr>, parent)))))"

definition commit_generation ::
  "session_state_v2 \<Rightarrow> nat option \<Rightarrow> obj list \<Rightarrow> obj \<Rightarrow> nat list \<Rightarrow> nat list \<Rightarrow> nat \<Rightarrow> session_record \<Rightarrow> json \<Rightarrow> json \<Rightarrow>
   obj \<Rightarrow> session_error + session_state_v2" where
  "commit_generation s parent request message prompt completion max_trim r rid reason turn =
     (let t = v2_tree s; ids = prompt @ completion
      in rbind (assert_pretokenized_prefix (node_tokens t parent) ids max_trim) (\<lambda>_.
         let delta = drop (length (path_messages t parent)) request @ [message]
         in rbind (uncaught (create_node t parent delta ids (length prompt, length ids) rid r reason turn)) (\<lambda>t'.
            Inr (s\<lparr>v2_tree := t'\<rparr>))))"

definition add_session_extra_key :: "session_state_v2 \<Rightarrow> obj \<Rightarrow> obj" where
  "add_session_extra_key s body = (case v2_extra_key s of None \<Rightarrow> body | Some k \<Rightarrow> dset ''extra_key'' (JStr k) body)"

text \<open>\<open>tree_metadata\<close>: one row per node and per leaf.\<close>

definition node_row :: "trajectory_node \<Rightarrow> obj" where
  "node_row n =
     [(''id'', JInt (int (node_seq n))),
      (''parent'', case node_parent n of None \<Rightarrow> JNull | Some p \<Rightarrow> JInt (int p)),
      (''seq'', JInt (int (node_seq n))), (''truncated'', JBool (truncated n)),
      (''completion_span'', JArr [JInt (int (fst (completion_span n))), JInt (int (snd (completion_span n)))]),
      (''num_tokens'', JInt (int (length (node_token_ids n)))), (''response_id'', response_id n),
      (''turn_args'', JObj (filter_turn_args (node_turn_args n)))]"

definition leaf_row :: "session_tree \<Rightarrow> nat \<Rightarrow> obj" where
  "leaf_row t i = [(''node_id'', JInt (int i)), (''path_node_ids'', JArr (map (JInt \<circ> int) (path_nodes t (Some i))))]"

definition tree_metadata :: "session_tree \<Rightarrow> obj" where
  "tree_metadata t = [(''nodes'', JArr (map (JObj \<circ> node_row) (tree_nodes t))),
     (''leaves'', JArr (map (JObj \<circ> leaf_row t) (leaves t)))]"

section \<open>A chat completion on the tree\<close>

record pending_v2 =
  pv_body :: obj
  pv_messages :: "obj list"
  pv_prompt :: "nat list"
  pv_parent :: "nat option"
  pv_intent :: response_intent

text \<open>The first locked phase reads the tree and changes nothing.\<close>

definition begin_chat_v2 :: "session_env \<Rightarrow> session_state_v2 \<Rightarrow> obj \<Rightarrow> session_error + pending_v2" where
  "begin_chat_v2 env s client_args =
     (if v2_closing s then Inl SessionNotFoundError
      else rbind (prepare_tree_request env s client_args) (\<lambda>(prepared, parent).
           rbind (messages_of (p_body prepared)) (\<lambda>request.
           let prompt = input_ids_of (p_body prepared)
           in rbind (maybe_request_addition_r3 (env_addition_r3 env) (p_body prepared)
                (node_tokens (v2_tree s) parent) prompt) (\<lambda>body.
              Inr \<lparr>pv_body = add_session_extra_key s body, pv_messages = request, pv_prompt = prompt,
                   pv_parent = parent, pv_intent = p_intent prepared\<rparr>))))"

record generation =
  g_response :: obj
  g_choice :: obj
  g_message :: obj
  g_token_ids :: "nat list"

definition py_or :: "json \<Rightarrow> json \<Rightarrow> json" where
  "py_or a b = (if truthy a then a else b)"

text \<open>The second locked phase: a commit under the node the request attached to.\<close>

definition finish_chat_v2 ::
  "session_env \<Rightarrow> session_state_v2 \<Rightarrow> pending_v2 \<Rightarrow> generation \<Rightarrow> session_error + session_state_v2" where
  "finish_chat_v2 env s p g =
     (if v2_closing s then Inr s
      else commit_generation s (pv_parent p) (pv_messages p) (g_message g) (pv_prompt p) (g_token_ids g)
             (max_trim_tokens (tito_family (env_tito env)))
             \<lparr>rec_request = pv_body p, rec_response = g_response g, rec_status = 200\<rparr>
             (dget_or (g_response g) ''id'' (JStr '''')) (py_or (dget (g_choice g) ''finish_reason'') (JStr ''''))
             (pv_body p))"

section \<open>The tree invariant\<close>

definition children_of :: "trajectory_node list \<Rightarrow> nat option \<Rightarrow> nat list" where
  "children_of ns p = filter (\<lambda>j. node_parent (ns ! j) = p) [0..<length ns]"

text \<open>Nodes know their position, parents come first, and the child lists and roots are what the
  parent references say, in commit order.\<close>

definition wf_tree :: "session_tree \<Rightarrow> bool" where
  "wf_tree t \<longleftrightarrow> tree_roots t = children_of (tree_nodes t) None \<and>
     (\<forall>i < length (tree_nodes t). node_seq (tree_nodes t ! i) = i \<and>
        (\<forall>p. node_parent (tree_nodes t ! i) = Some p \<longrightarrow> p < i) \<and>
        node_children (tree_nodes t ! i) = children_of (tree_nodes t) (Some i))"

definition valid_parent :: "session_tree \<Rightarrow> nat option \<Rightarrow> bool" where
  "valid_parent t p = (case p of None \<Rightarrow> True | Some i \<Rightarrow> i < length (tree_nodes t))"

lemma empty_tree_wf [simp]: "wf_tree empty_tree"
  by (simp add: wf_tree_def empty_tree_def children_of_def)

lemma link_nodes_length [simp]: "length (tree_nodes (link_node p n t)) = Suc (length (tree_nodes t))"
  by (simp add: link_node_def Let_def split: option.split)

lemma link_node_new: "tree_nodes (link_node p n t) ! length (tree_nodes t) = n"
  by (simp add: link_node_def Let_def nth_append split: option.split)

lemma link_node_old: "i < length (tree_nodes t) \<Longrightarrow> tree_nodes (link_node p n t) ! i =
   (if p = Some i then (tree_nodes t ! i)\<lparr>node_children := node_children (tree_nodes t ! i) @ [length (tree_nodes t)]\<rparr>
    else tree_nodes t ! i)"
  by (auto simp: link_node_def Let_def nth_append nth_list_update split: option.split)

lemma link_node_roots: "tree_roots (link_node p n t) = tree_roots t @ (if p = None then [length (tree_nodes t)] else [])"
  by (simp add: link_node_def Let_def split: option.split)

lemma link_node_parent: "node_parent n = p \<Longrightarrow>
   i \<le> length (tree_nodes t) \<Longrightarrow> node_parent (tree_nodes (link_node p n t) ! i) =
   (if i = length (tree_nodes t) then p else node_parent (tree_nodes t ! i))"
  by (auto simp: link_node_new link_node_old)

lemma children_of_link: "node_parent n = p \<Longrightarrow>
  children_of (tree_nodes (link_node p n t)) q =
    children_of (tree_nodes t) q @ (if p = q then [length (tree_nodes t)] else [])"
  by (auto simp: children_of_def link_node_parent intro!: filter_cong)

lemma valid_children: "wf_tree t \<Longrightarrow> children_of (tree_nodes t) (Some (length (tree_nodes t))) = []"
  by (force simp: children_of_def wf_tree_def filter_empty_conv)

lemma wf_link:
  assumes "wf_tree t" and "valid_parent t p" and "node_parent n = p" and "node_seq n = length (tree_nodes t)"
    and "node_children n = []"
  shows "wf_tree (link_node p n t)"
proof -
  have "node_seq (tree_nodes (link_node p n t) ! i) = i \<and>
        (\<forall>q. node_parent (tree_nodes (link_node p n t) ! i) = Some q \<longrightarrow> q < i) \<and>
        node_children (tree_nodes (link_node p n t) ! i) = children_of (tree_nodes (link_node p n t)) (Some i)"
    if "i < Suc (length (tree_nodes t))" for i
  proof (cases "i = length (tree_nodes t)")
    case True
    then show ?thesis using assms valid_children[OF assms(1)]
      by (auto simp: link_node_new children_of_link valid_parent_def)
  next
    case False
    then have "i < length (tree_nodes t)" using that by simp
    then show ?thesis using assms by (auto simp: link_node_old children_of_link wf_tree_def)
  qed
  then show ?thesis using assms by (auto simp: wf_tree_def link_node_roots children_of_link)
qed

section \<open>Paths\<close>

lemma ancestors_fuel:
  assumes "wf_tree t" and "i < length (tree_nodes t)" and "i < fuel"
  shows "ancestors fuel t (Some i) = i # ancestors (length (tree_nodes t)) t (node_parent (tree_nodes t ! i))"
  using assms
proof (induction i arbitrary: fuel rule: less_induct)
  case (less i)
  obtain f where f: "fuel = Suc f" using less.prems(3) by (cases fuel) auto
  let ?n = "length (tree_nodes t)"
  show ?case
  proof (cases "node_parent (tree_nodes t ! i)")
    case None
    then show ?thesis using f less.prems by (cases f; cases ?n) auto
  next
    case (Some p)
    then have "p < i" using less.prems by (auto simp: wf_tree_def)
    then show ?thesis using Some f less.prems less.IH[of p f] less.IH[of p ?n] by auto
  qed
qed

lemma path_nodes_None [simp]: "path_nodes t None = []"
  by (cases "length (tree_nodes t)") (auto simp: path_nodes_def)

lemma path_nodes_rec:
  "wf_tree t \<Longrightarrow> i < length (tree_nodes t) \<Longrightarrow>
   path_nodes t (Some i) = path_nodes t (node_parent (tree_nodes t ! i)) @ [i]"
  by (simp add: path_nodes_def ancestors_fuel)

lemma path_messages_None [simp]: "path_messages t None = []"
  by (simp add: path_messages_def)

lemma path_messages_rec:
  "wf_tree t \<Longrightarrow> i < length (tree_nodes t) \<Longrightarrow>
   path_messages t (Some i) = path_messages t (node_parent (tree_nodes t ! i)) @ delta_messages (tree_nodes t ! i)"
  by (simp add: path_messages_def path_nodes_rec)

lemma path_nodes_link:
  assumes "wf_tree t" and "wf_tree (link_node p n t)" and "i < length (tree_nodes t)"
  shows "path_nodes (link_node p n t) (Some i) = path_nodes t (Some i)"
  using assms(3)
proof (induction i rule: less_induct)
  case (less i)
  have *: "node_parent (tree_nodes (link_node p n t) ! i) = node_parent (tree_nodes t ! i)"
    using less.prems by (simp add: link_node_old)
  show ?case
  proof (cases "node_parent (tree_nodes t ! i)")
    case None
    then show ?thesis using less.prems assms * by (simp add: path_nodes_rec)
  next
    case (Some q)
    then have "q < i" using less.prems assms(1) by (auto simp: wf_tree_def)
    then show ?thesis using Some less assms * by (simp add: path_nodes_rec)
  qed
qed

lemma path_nodes_bound:
  assumes "wf_tree t" and "i < length (tree_nodes t)"
  shows "sorted_wrt (<) (path_nodes t (Some i)) \<and> set (path_nodes t (Some i)) \<subseteq> {..i} \<and> last (path_nodes t (Some i)) = i"
  using assms(2)
proof (induction i rule: less_induct)
  case (less i)
  show ?case
  proof (cases "node_parent (tree_nodes t ! i)")
    case None
    then show ?thesis using less.prems assms by (simp add: path_nodes_rec)
  next
    case (Some q)
    then have "q < i" using less.prems assms(1) by (auto simp: wf_tree_def)
    then show ?thesis using Some less.prems less.IH[of q] assms
      by (auto simp: path_nodes_rec[of t i] sorted_wrt_append)
  qed
qed

lemma path_messages_link:
  assumes "wf_tree t" and "wf_tree (link_node p n t)" and "i < length (tree_nodes t)"
  shows "path_messages (link_node p n t) (Some i) = path_messages t (Some i)"
proof -
  have "delta_messages (tree_nodes (link_node p n t) ! j) = delta_messages (tree_nodes t ! j)"
    if "j \<in> set (path_nodes t (Some i))" for j
    using that path_nodes_bound[OF assms(1,3)] assms(3) by (auto simp: link_node_old dest!: subsetD)
  then show ?thesis by (simp add: path_messages_def path_nodes_link[OF assms] cong: map_cong)
qed

section \<open>Snapshots\<close>

text \<open>The tree made of the first \<open>k\<close> nodes: later children are not there yet.\<close>

definition prefix_tree :: "nat \<Rightarrow> session_tree \<Rightarrow> session_tree" where
  "prefix_tree k t = \<lparr>tree_roots = filter (\<lambda>j. j < k) (tree_roots t),
     tree_nodes = map (\<lambda>n. n\<lparr>node_children := filter (\<lambda>j. j < k) (node_children n)\<rparr>) (take k (tree_nodes t))\<rparr>"

lemma children_of_sorted: "sorted_wrt (<) (children_of ns p)"
  by (simp add: children_of_def sorted_wrt_filter)

lemma filter_children_Suc:
  assumes "k < length ns"
  shows "filter (\<lambda>j. j < Suc k) (children_of ns p) =
    filter (\<lambda>j. j < k) (children_of ns p) @ (if node_parent (ns ! k) = p then [k] else [])"
proof -
  have "[0..<length ns] = [0..<k] @ k # [Suc k..<length ns]"
    using assms upt_add_eq_append[of 0 k "length ns - k"] by (simp add: upt_conv_Cons)
  then show ?thesis by (auto simp: children_of_def intro: filter_cong simp del: filter_filter)
qed

lemma snapshot_step_prefix:
  assumes wf: "wf_tree t" and k: "k < length (tree_nodes t)"
  shows "snapshot_step (tree_nodes t ! k) (prefix_tree k t) = prefix_tree (Suc k) t" (is "?l = ?r")
proof (rule session_tree.equality)
  have p: "node_parent (tree_nodes t ! k) = Some q \<Longrightarrow> q < k" for q using wf k by (auto simp: wf_tree_def)
  have len: "length (tree_nodes (prefix_tree k t)) = k" using k by (simp add: prefix_tree_def)
  show "tree_roots ?l = tree_roots ?r" using wf k len
    by (simp add: snapshot_step_def link_node_roots prefix_tree_def wf_tree_def filter_children_Suc)
  show "tree_nodes ?l = tree_nodes ?r"
  proof (rule nth_equalityI)
    show "length (tree_nodes ?l) = length (tree_nodes ?r)" using k by (simp add: snapshot_step_def prefix_tree_def)
  next
    fix i assume "i < length (tree_nodes ?l)"
    then have i: "i \<le> k" using len by (simp add: snapshot_step_def)
    have c: "node_children (tree_nodes t ! i) = children_of (tree_nodes t) (Some i)"
      using wf i k by (simp add: wf_tree_def)
    show "tree_nodes ?l ! i = tree_nodes ?r ! i"
    proof (cases "i = k")
      case True
      have "filter (\<lambda>j. j < Suc k) (children_of (tree_nodes t) (Some k)) = []"
        using wf by (force simp: filter_empty_conv children_of_def wf_tree_def)
      then show ?thesis using True c k link_node_new[of _ _ "prefix_tree k t"] len
        by (simp add: snapshot_step_def) (simp add: prefix_tree_def)
    next
      case False
      then have "i < k" using i by simp
      then show ?thesis using c k len
        by (simp add: snapshot_step_def link_node_old) (simp add: prefix_tree_def filter_children_Suc)
    qed
  qed
qed simp

lemma snapshot_prefix:
  assumes "wf_tree t"
  shows "k \<le> length (tree_nodes t) \<Longrightarrow> fold snapshot_step (take k (tree_nodes t)) empty_tree = prefix_tree k t"
proof (induction k)
  case 0
  show ?case by (simp add: prefix_tree_def empty_tree_def)
next
  case (Suc k)
  then show ?case using snapshot_step_prefix[OF assms, of k] by (simp add: take_Suc_conv_app_nth)
qed

lemma prefix_tree_all: "wf_tree t \<Longrightarrow> prefix_tree (length (tree_nodes t)) t = t"
proof (rule session_tree.equality)
  assume wf: "wf_tree t"
  have c: "filter (\<lambda>j. j < length (tree_nodes t)) (children_of (tree_nodes t) p) = children_of (tree_nodes t) p" for p
    by (auto simp: children_of_def intro: filter_cong)
  show "tree_roots (prefix_tree (length (tree_nodes t)) t) = tree_roots t"
    using wf c by (simp add: prefix_tree_def wf_tree_def)
  show "tree_nodes (prefix_tree (length (tree_nodes t)) t) = tree_nodes t"
    using wf c by (intro nth_equalityI) (auto simp: prefix_tree_def wf_tree_def)
qed simp

lemma snapshot_same: "wf_tree t \<Longrightarrow> snapshot t = t"
  using snapshot_prefix[of t "length (tree_nodes t)"] by (simp add: snapshot_def prefix_tree_all)

section \<open>The attach point is the deepest match\<close>

text \<open>A node matches when the messages of its path match the beginning of the request.\<close>

definition path_matches :: "(obj \<Rightarrow> obj \<Rightarrow> bool) \<Rightarrow> session_tree \<Rightarrow> obj list \<Rightarrow> nat option \<Rightarrow> bool" where
  "path_matches matcher t request i \<longleftrightarrow>
     list_all2 matcher (path_messages t i) (take (length (path_messages t i)) request)"

lemma path_matches_None [simp]: "path_matches matcher t request None"
  by (simp add: path_matches_def)

lemma match_len_full: "length xs \<le> match_len m xs ys \<longleftrightarrow> list_all2 m xs (take (length xs) ys)"
  by (induction m xs ys rule: match_len.induct) auto

lemma path_matches_rec:
  assumes "wf_tree t" and "i < length (tree_nodes t)"
  shows "path_matches matcher t request (Some i) \<longleftrightarrow>
    path_matches matcher t request (node_parent (tree_nodes t ! i)) \<and>
    \<not> match_len matcher (delta_messages (tree_nodes t ! i))
        (drop (length (path_messages t (node_parent (tree_nodes t ! i)))) request) < length (delta_messages (tree_nodes t ! i))"
proof -
  have *: "list_all2 m (a @ b) (take (length a + length b) r) \<longleftrightarrow>
    list_all2 m a (take (length a) r) \<and> list_all2 m b (take (length b) (drop (length a) r))"
    for m :: "obj \<Rightarrow> obj \<Rightarrow> bool" and a b r
    by (induction a arbitrary: r) (auto simp: list_all2_Cons1 take_Cons' neq_Nil_conv split: if_splits; case_tac r; auto)+
  show ?thesis using assms by (simp add: path_matches_def path_messages_rec * not_less match_len_full)
qed

definition path_length :: "session_tree \<Rightarrow> nat \<Rightarrow> nat" where
  "path_length t i = length (path_messages t (Some i))"

definition best_in ::
  "(obj \<Rightarrow> obj \<Rightarrow> bool) \<Rightarrow> session_tree \<Rightarrow> obj list \<Rightarrow> nat set \<Rightarrow> (nat \<times> nat) option \<Rightarrow> bool" where
  "best_in matcher t request V best =
     (case best of
        None \<Rightarrow> \<forall>i\<in>V. \<not> path_matches matcher t request (Some i)
      | Some (b, m) \<Rightarrow> b \<in> V \<and> path_matches matcher t request (Some b) \<and> m = path_length t b \<and>
          (\<forall>i\<in>V. path_matches matcher t request (Some i) \<longrightarrow> path_length t i < m \<or> path_length t i = m \<and> i \<le> b))"

text \<open>What the search keeps: the nodes seen or waiting are the roots and the children of seen matching
  nodes; a waiting node carries the length its parents consumed; the best is the best seen.\<close>

definition search_inv ::
  "(obj \<Rightarrow> obj \<Rightarrow> bool) \<Rightarrow> session_tree \<Rightarrow> obj list \<Rightarrow> nat set \<Rightarrow> (nat \<times> nat) list \<Rightarrow> (nat \<times> nat) option \<Rightarrow> bool" where
  "search_inv matcher t request V stack best \<longleftrightarrow>
     distinct (map fst stack) \<and> V \<inter> fst ` set stack = {} \<and>
     (\<forall>(i, off) \<in> set stack. path_matches matcher t request (node_parent (tree_nodes t ! i)) \<and>
        off = length (path_messages t (node_parent (tree_nodes t ! i)))) \<and>
     (\<forall>i. i \<in> V \<union> fst ` set stack \<longleftrightarrow> i < length (tree_nodes t) \<and>
        (case node_parent (tree_nodes t ! i) of None \<Rightarrow> True
         | Some p \<Rightarrow> p \<in> V \<and> path_matches matcher t request (Some p))) \<and>
     best_in matcher t request V best"

lemma visit_best:
  assumes wf: "wf_tree t" and inv: "search_inv matcher t request V ((i, off) # stack) best"
    and v: "visit matcher t request (i, off) (best, ov) = (push, (best', ov'))"
  shows "best_in matcher t request (insert i V) best' \<and>
    push = (if path_matches matcher t request (Some i) then map (\<lambda>c. (c, path_length t i)) (node_children (tree_nodes t ! i)) else [])"
proof -
  have i: "i < length (tree_nodes t)" "i \<notin> V" and off: "off = length (path_messages t (node_parent (tree_nodes t ! i)))"
    and pm: "path_matches matcher t request (node_parent (tree_nodes t ! i))"
    and b: "best_in matcher t request V best"
    using inv by (auto simp: search_inv_def)
  have len: "path_length t i = off + length (delta_messages (tree_nodes t ! i))"
    using wf i by (simp add: path_length_def path_messages_rec off)
  have m: "path_matches matcher t request (Some i) \<longleftrightarrow>
    \<not> match_len matcher (delta_messages (tree_nodes t ! i)) (drop off request) < length (delta_messages (tree_nodes t ! i))"
    using path_matches_rec[OF wf i(1)] pm by (simp add: off)
  show ?thesis
  proof (cases "path_matches matcher t request (Some i)")
    case False
    then show ?thesis using v b m by (auto simp: visit_def Let_def best_in_def split: option.splits)
  next
    case True
    have "push = map (\<lambda>c. (c, path_length t i)) (node_children (tree_nodes t ! i))"
      "best' = (if better best (path_length t i) i then Some (i, path_length t i) else best)"
      using True v m len by (auto simp: visit_def Let_def)
    then show ?thesis using True b i(2)
      by (cases best) (auto simp: best_in_def better_def)
  qed
qed

lemma visit_inv:
  assumes wf: "wf_tree t" and inv: "search_inv matcher t request V ((i, off) # stack) best"
    and v: "visit matcher t request (i, off) (best, ov) = (push, (best', ov'))"
  shows "search_inv matcher t request (insert i V) (push @ stack) best'"
proof -
  from visit_best[OF assms] have b: "best_in matcher t request (insert i V) best'"
    and push: "push = (if path_matches matcher t request (Some i)
       then map (\<lambda>c. (c, path_length t i)) (node_children (tree_nodes t ! i)) else [])" by auto
  have i: "i < length (tree_nodes t)" "i \<notin> V" using inv by (auto simp: search_inv_def)
  have kids: "node_children (tree_nodes t ! i) = children_of (tree_nodes t) (Some i)" using wf i by (simp add: wf_tree_def)
  have dist: "distinct (map fst stack)" "V \<inter> fst ` set stack = {}" "i \<notin> fst ` set stack"
    using inv by (auto simp: search_inv_def)
  have offs: "\<forall>(j, o') \<in> set stack. path_matches matcher t request (node_parent (tree_nodes t ! j)) \<and>
        o' = length (path_messages t (node_parent (tree_nodes t ! j)))"
    using inv by (auto simp: search_inv_def)
  have front: "j \<in> insert i V \<union> fst ` set stack \<longleftrightarrow> j < length (tree_nodes t) \<and>
        (case node_parent (tree_nodes t ! j) of None \<Rightarrow> True
         | Some p \<Rightarrow> p \<in> V \<and> path_matches matcher t request (Some p))" for j
    using inv by (auto simp: search_inv_def)
  have new: "j \<in> fst ` set push \<longleftrightarrow> path_matches matcher t request (Some i) \<and> j < length (tree_nodes t) \<and>
      node_parent (tree_nodes t ! j) = Some i" for j
    by (auto simp: push kids children_of_def image_iff)
  have fresh: "j \<notin> insert i V \<union> fst ` set stack" if "j \<in> fst ` set push" for j
    using that front[of j] i by (auto simp: new)
  have "distinct (map fst push)" by (simp add: push kids children_of_def comp_def)
  then have "distinct (map fst (push @ stack))" using dist fresh by auto
  moreover have "fst ` set push \<inter> (insert i V \<union> fst ` set stack) = {}" using fresh by blast
  then have "insert i V \<inter> fst ` set (push @ stack) = {}" using dist unfolding set_append image_Un by blast
  moreover have "\<forall>(j, o') \<in> set push. path_matches matcher t request (node_parent (tree_nodes t ! j)) \<and>
        o' = length (path_messages t (node_parent (tree_nodes t ! j)))"
    by (auto simp: push kids children_of_def path_length_def)
  moreover have "\<forall>j. j \<in> insert i V \<union> fst ` set (push @ stack) \<longleftrightarrow> j < length (tree_nodes t) \<and>
        (case node_parent (tree_nodes t ! j) of None \<Rightarrow> True
         | Some p \<Rightarrow> p \<in> insert i V \<and> path_matches matcher t request (Some p))"
  proof
    fix j
    have "j \<in> insert i V \<union> fst ` set (push @ stack) \<longleftrightarrow> j \<in> insert i V \<union> fst ` set stack \<or> j \<in> fst ` set push"
      by (auto simp: image_Un)
    then show "j \<in> insert i V \<union> fst ` set (push @ stack) \<longleftrightarrow> j < length (tree_nodes t) \<and>
        (case node_parent (tree_nodes t ! j) of None \<Rightarrow> True
         | Some p \<Rightarrow> p \<in> insert i V \<and> path_matches matcher t request (Some p))"
      unfolding front new by (auto split: option.splits)
  qed
  ultimately show ?thesis using b offs by (simp add: search_inv_def ball_Un)
qed

lemma search_result:
  assumes "wf_tree t" and "search_inv matcher t request V stack best" and "finite V"
    and "length (tree_nodes t) \<le> fuel + card V"
  shows "\<exists>best' ov' V'. search fuel matcher t request stack (best, ov) = Some (best', ov') \<and>
    search_inv matcher t request V' [] best'"
  using assms(2-)
proof (induction fuel arbitrary: V stack best ov)
  case 0
  have "fst ` set stack \<subseteq> {..<length (tree_nodes t)} - V" and "V \<subseteq> {..<length (tree_nodes t)}"
    using 0(1) by (auto simp: search_inv_def)
  moreover then have "V = {..<length (tree_nodes t)}" using 0(3) by (intro card_seteq) auto
  ultimately have "stack = []" by simp
  then show ?case using 0(1) by auto
next
  case (Suc fuel)
  show ?case
  proof (cases stack)
    case Nil
    then show ?thesis using Suc.prems(1) by auto
  next
    case (Cons x rest)
    obtain i off where x: "x = (i, off)" by (cases x)
    obtain push best' ov' where v: "visit matcher t request (i, off) (best, ov) = (push, (best', ov'))"
      by (metis prod.collapse)
    have "i \<notin> V" using Suc.prems(1) by (auto simp: search_inv_def Cons x)
    then have "length (tree_nodes t) \<le> fuel + card (insert i V)" using Suc.prems by simp
    moreover have "search_inv matcher t request (insert i V) (push @ rest) best'"
      using visit_inv[OF assms(1) _ v] Suc.prems(1) by (simp add: Cons x)
    ultimately show ?thesis using Suc.IH[of "insert i V" "push @ rest" best' ov'] Suc.prems(2) by (simp add: Cons x v)
  qed
qed

lemma search_inv_end:
  assumes "wf_tree t" and "search_inv matcher t request V [] best"
    and "i < length (tree_nodes t)" and "path_matches matcher t request (Some i)"
  shows "i \<in> V"
  using assms(3-)
proof (induction i rule: less_induct)
  case (less i)
  have pm: "path_matches matcher t request (node_parent (tree_nodes t ! i))"
    using path_matches_rec[OF assms(1) less.prems(1)] less.prems(2) by simp
  show ?case
  proof (cases "node_parent (tree_nodes t ! i)")
    case None
    then show ?thesis using assms(2) less.prems by (simp add: search_inv_def)
  next
    case (Some p)
    then have "p < i" using assms(1) less.prems by (auto simp: wf_tree_def)
    then have "p \<in> V" using less.IH[of p] less.prems pm Some by simp
    then show ?thesis using assms(2) less.prems pm Some by (simp add: search_inv_def)
  qed
qed

text \<open>The specification of the attach point.\<close>

definition deepest_match :: "(obj \<Rightarrow> obj \<Rightarrow> bool) \<Rightarrow> session_tree \<Rightarrow> obj list \<Rightarrow> attach_point \<Rightarrow> bool" where
  "deepest_match matcher t request a =
     (matched_messages a = length (path_messages t (attach_node a)) \<and>
      path_matches matcher t request (attach_node a) \<and> valid_parent t (attach_node a) \<and>
      (\<forall>i < length (tree_nodes t). path_matches matcher t request (Some i) \<longrightarrow>
         (case attach_node a of
            None \<Rightarrow> False
          | Some b \<Rightarrow> path_length t i < path_length t b \<or> path_length t i = path_length t b \<and> i \<le> b)))"

lemma attach_point_spec:
  assumes wf: "wf_tree t"
  shows "\<exists>a. find_attach_point matcher t request = Some a \<and> deepest_match matcher t request a"
proof -
  have "search_inv matcher t request {} (map (\<lambda>r. (r, 0)) (tree_roots t)) None"
    using wf by (auto simp: search_inv_def wf_tree_def children_of_def best_in_def comp_def image_iff split: option.splits)
  from search_result[OF wf this, of "length (tree_nodes t)" 0] obtain best' ov' V' where
    s: "search (length (tree_nodes t)) matcher t request (map (\<lambda>r. (r, 0)) (tree_roots t)) (None, 0) = Some (best', ov')"
    and inv: "search_inv matcher t request V' [] best'" by auto
  have all: "i \<in> V'" if "i < length (tree_nodes t)" "path_matches matcher t request (Some i)" for i
    using search_inv_end[OF wf inv] that by simp
  have b: "best_in matcher t request V' best'" "\<forall>i\<in>V'. i < length (tree_nodes t)" using inv by (auto simp: search_inv_def)
  show ?thesis
  proof (cases best')
    case None
    then show ?thesis using s b all by (auto simp: find_attach_point_def deepest_match_def best_in_def valid_parent_def)
  next
    case (Some bm)
    then show ?thesis using s b all
      by (cases bm) (auto simp: find_attach_point_def deepest_match_def best_in_def valid_parent_def path_length_def)
  qed
qed

section \<open>Commits\<close>

text \<open>Each node's tokens extend its parent's up to the trim, its completion ends its tokens, and it
  adds at least its own reply to the path.\<close>

definition tree_ok :: "nat \<Rightarrow> session_tree \<Rightarrow> bool" where
  "tree_ok trim t \<longleftrightarrow> wf_tree t \<and> length (tree_nodes t) \<le> MAX_NODES \<and>
     (\<forall>n \<in> set (tree_nodes t). extends_upto trim (node_tokens t (node_parent n)) (node_token_ids n) \<and>
        fst (completion_span n) \<le> length (node_token_ids n) \<and> snd (completion_span n) = length (node_token_ids n) \<and>
        delta_messages n \<noteq> [])"

lemma empty_tree_ok [simp]: "tree_ok trim empty_tree"
  unfolding tree_ok_def using empty_tree_wf by (simp add: empty_tree_def)

lemma tree_ok_wf: "tree_ok trim t \<Longrightarrow> wf_tree t"
  by (simp add: tree_ok_def)

text \<open>What later commits never touch.\<close>

definition same_node :: "trajectory_node \<Rightarrow> trajectory_node \<Rightarrow> bool" where
  "same_node m n \<longleftrightarrow> n\<lparr>node_children := []\<rparr> = m\<lparr>node_children := []\<rparr>"

lemma same_node_fields: "same_node m n \<Longrightarrow> node_parent n = node_parent m \<and> node_token_ids n = node_token_ids m \<and>
   delta_messages n = delta_messages m \<and> node_record n = node_record m \<and> node_turn_args n = node_turn_args m \<and>
   finish_reason n = finish_reason m \<and> completion_span n = completion_span m"
  by (cases m; cases n) (auto simp: same_node_def)

text \<open>A tree that later commits made of \<open>t\<close>: old nodes keep their content, their paths and their place.\<close>

definition grown :: "session_tree \<Rightarrow> session_tree \<Rightarrow> bool" where
  "grown t t' \<longleftrightarrow> length (tree_nodes t) \<le> length (tree_nodes t') \<and>
     (\<forall>i < length (tree_nodes t). same_node (tree_nodes t ! i) (tree_nodes t' ! i) \<and>
        path_messages t' (Some i) = path_messages t (Some i))"

lemma grown_refl [simp]: "grown t t"
  by (simp add: grown_def same_node_def)

lemma grown_trans: "grown t u \<Longrightarrow> grown u v \<Longrightarrow> grown t v"
  by (auto simp: grown_def same_node_def)

lemma grown_link: "wf_tree t \<Longrightarrow> wf_tree (link_node p n t) \<Longrightarrow> grown t (link_node p n t)"
  by (auto simp: grown_def same_node_def path_messages_link link_node_old)

lemma grown_parent:
  assumes "grown t t'" and "valid_parent t p"
  shows "valid_parent t' p \<and> node_tokens t' p = node_tokens t p \<and> path_messages t' p = path_messages t p"
proof (cases p)
  case (Some i)
  then have "same_node (tree_nodes t ! i) (tree_nodes t' ! i)" using assms by (simp add: grown_def valid_parent_def)
  from same_node_fields[OF this] Some assms show ?thesis by (simp add: grown_def valid_parent_def node_tokens_def)
qed (simp add: valid_parent_def node_tokens_def)

lemma commit_shape:
  assumes ok: "tree_ok trim (v2_tree s)" and vp: "valid_parent (v2_tree s) parent"
    and c: "commit_generation s parent request msg prompt gen trim r rid reason turn = Inr s'"
  shows "tree_ok trim (v2_tree s') \<and> grown (v2_tree s) (v2_tree s') \<and> s'\<lparr>v2_tree := v2_tree s\<rparr> = s \<and>
    latest s' = Some (length (tree_nodes (v2_tree s))) \<and>
    length (tree_nodes (v2_tree s')) = length (tree_nodes (v2_tree s)) + 1 \<and>
    path_messages (v2_tree s') (latest s') = path_messages (v2_tree s) parent @
       drop (length (path_messages (v2_tree s) parent)) request @ [msg] \<and>
    node_tokens (v2_tree s') (latest s') = prompt @ gen"
proof -
  let ?t = "v2_tree s"
  from c obtain n where t': "s' = s\<lparr>v2_tree := link_node parent n ?t\<rparr>" and nn: "length (tree_nodes ?t) < MAX_NODES"
    and e: "extends_upto trim (node_tokens ?t parent) (prompt @ gen)"
    and n: "n = \<lparr>delta_messages = drop (length (path_messages ?t parent)) request @ [msg], node_token_ids = prompt @ gen,
         completion_span = (length prompt, length (prompt @ gen)), node_seq = length (tree_nodes ?t), response_id = rid,
         node_record = r, finish_reason = reason, node_turn_args = turn, node_parent = parent, node_children = []\<rparr>"
    by (auto simp: commit_generation_def Let_def result_simps assert_prefix_iff create_node_def 
        split: if_splits sum.splits)
  have nf: "node_parent n = parent" "delta_messages n = drop (length (path_messages ?t parent)) request @ [msg]"
    "node_token_ids n = prompt @ gen" "completion_span n = (length prompt, length (prompt @ gen))"
    by (simp_all add: n)
  have wf: "wf_tree ?t" using ok by (simp add: tree_ok_def)
  have wf': "wf_tree (link_node parent n ?t)" by (rule wf_link[OF wf vp]) (simp_all add: n)
  have g: "grown ?t (link_node parent n ?t)" by (rule grown_link[OF wf wf'])
  let ?k = "length (tree_nodes ?t)"
  have new: "tree_nodes (link_node parent n ?t) ! ?k = n" by (rule link_node_new)
  have pm: "path_messages (link_node parent n ?t) (Some ?k) = path_messages ?t parent @ delta_messages n"
    using path_messages_rec[OF wf', of ?k] grown_parent[OF g vp] by (simp add: new nf)
  have "tree_nodes (link_node parent n ?t) \<noteq> []" by (metis link_nodes_length list.size(3) nat.distinct(1))
  then have lat: "latest s' = Some ?k" by (simp add: latest_def t')
  have "extends_upto trim (node_tokens (link_node parent n ?t) (node_parent m)) (node_token_ids m) \<and>
        fst (completion_span m) \<le> length (node_token_ids m) \<and> snd (completion_span m) = length (node_token_ids m) \<and>
        delta_messages m \<noteq> []" if "m \<in> set (tree_nodes (link_node parent n ?t))" for m
  proof -
    from that obtain i where i: "i \<le> ?k" "m = tree_nodes (link_node parent n ?t) ! i"
      by (auto simp: in_set_conv_nth less_Suc_eq_le)
    show ?thesis
    proof (cases "i = ?k")
      case True
      then have "m = n" using i new by simp
      then show ?thesis using e grown_parent[OF g vp] by (simp add: nf)
    next
      case False
      then have old: "i < ?k" using i by simp
      then have mem: "tree_nodes ?t ! i \<in> set (tree_nodes ?t)" by simp
      have was: "extends_upto trim (node_tokens ?t (node_parent (tree_nodes ?t ! i))) (node_token_ids (tree_nodes ?t ! i)) \<and>
        fst (completion_span (tree_nodes ?t ! i)) \<le> length (node_token_ids (tree_nodes ?t ! i)) \<and>
        snd (completion_span (tree_nodes ?t ! i)) = length (node_token_ids (tree_nodes ?t ! i)) \<and>
        delta_messages (tree_nodes ?t ! i) \<noteq> []" using ok mem unfolding tree_ok_def by blast
      have "valid_parent ?t (node_parent (tree_nodes ?t ! i))"
        using wf old by (auto simp: wf_tree_def valid_parent_def split: option.splits dest: less_trans)
      from grown_parent[OF g this] have "node_tokens (link_node parent n ?t) (node_parent (tree_nodes ?t ! i)) =
        node_tokens ?t (node_parent (tree_nodes ?t ! i))" by simp
      moreover have "same_node (tree_nodes ?t ! i) m" using g old by (simp add: grown_def i(2))
      note same_node_fields[OF this]
      ultimately show ?thesis using was by simp
    qed
  qed
  then show ?thesis using wf' nn g pm lat new
    unfolding lat by (simp add: tree_ok_def t' node_tokens_def nf)
qed

lemma commit_succeeds:
  assumes "extends_upto trim (node_tokens (v2_tree s) parent) (prompt @ gen)"
  shows "case commit_generation s parent request msg prompt gen trim r rid reason turn of
     Inr s' \<Rightarrow> length (tree_nodes (v2_tree s)) < MAX_NODES
   | Inl e \<Rightarrow> e = Uncaught ValueError \<and> MAX_NODES \<le> length (tree_nodes (v2_tree s))"
  using assms assert_prefix_iff[of "node_tokens (v2_tree s) parent" "prompt @ gen" trim]
  by (auto simp: commit_generation_def Let_def create_node_def )

section \<open>Concurrent chats\<close>

text \<open>A session with the chats waiting for the backend, as in the linear session.  A request that is
  refused changes nothing, so it is not a step.\<close>

type_synonym tree_system = "session_state_v2 \<times> pending_v2 list"

inductive tree_step :: "session_env \<Rightarrow> tree_system \<Rightarrow> tree_system \<Rightarrow> bool" for env where
  tree_chat_begins: "begin_chat_v2 env s client = Inr p \<Longrightarrow> tree_step env (s, ps) (s, p # ps)"
| tree_backend_fails: "tree_step env (s, ps @ p # qs) (s, ps @ qs)"
| tree_chat_commits: "finish_chat_v2 env s p g = Inr s' \<Longrightarrow> tree_step env (s, ps @ p # qs) (s', ps @ qs)"
| tree_commit_fails: "finish_chat_v2 env s p g = Inl e \<Longrightarrow> tree_step env (s, ps @ p # qs) (s, ps @ qs)"
| tree_closes: "tree_step env (s, ps) (s\<lparr>v2_closing := True\<rparr>, ps)"

abbreviation tree_reaches :: "session_env \<Rightarrow> tree_system \<Rightarrow> tree_system \<Rightarrow> bool" where
  "tree_reaches env \<equiv> (tree_step env)\<^sup>*\<^sup>*"

inductive_cases tree_stepE: "tree_step env (s, ps) (s', ps')"

text \<open>A waiting chat names a node of the tree that is not truncated, and its prompt extends that
  node's tokens.\<close>

definition pending_ok :: "nat \<Rightarrow> session_tree \<Rightarrow> pending_v2 \<Rightarrow> bool" where
  "pending_ok trim t p \<longleftrightarrow> valid_parent t (pv_parent p) \<and>
     (\<forall>gen. extends_upto trim (node_tokens t (pv_parent p)) (pv_prompt p @ gen)) \<and>
     (\<forall>i. pv_parent p = Some i \<longrightarrow> \<not> truncated (tree_nodes t ! i))"

lemma pending_ok_grown: "pending_ok trim t p \<Longrightarrow> grown t t' \<Longrightarrow> pending_ok trim t' p"
  using grown_parent[of t t' "pv_parent p"] same_node_fields
  by (fastforce simp: pending_ok_def grown_def valid_parent_def truncated_def split: option.splits)

lemma render_tree_extends:
  assumes r: "render_tree_token_ids env t parent request args = Inr ids" and ok: "tito_ok (env_hf env) (env_tito env)"
  shows "extends_upto (max_trim_tokens (tito_family (env_tito env))) (node_tokens t parent) (ids @ gen)"
proof (cases parent)
  case (Some i)
  with r obtain stored new where
    "merge_tokens (env_hf env) (env_tito env) stored new (node_tokens t parent) args = Inr ids"
    by (auto simp: render_tree_token_ids_def Let_def split: if_splits)
  from merge_tokens_extends[OF this ok] show ?thesis by (simp add: extends_upto_def)
qed (simp add: extends_upto_def node_tokens_def)

lemma attach_ok:
  assumes "wf_tree (v2_tree s)" and "attach_point_for_request matcher s request = Inr a"
  shows "deepest_match matcher (v2_tree s) request a \<and>
     (\<forall>i. attach_node a = Some i \<longrightarrow> \<not> truncated (tree_nodes (v2_tree s) ! i))"
  using assms attach_point_spec[OF assms(1), of matcher request]
  by (auto simp: attach_point_for_request_def split: option.splits if_splits)

lemma prepare_tree_shape:
  assumes "prepare_tree_request env s client = Inr (q, parent)"
  shows "\<exists>request a ids args. messages_of client = Inr request \<and>
     attach_point_for_request (env_matcher env) s request = Inr a \<and> parent = attach_node a \<and>
     render_tree_token_ids env (v2_tree s) parent request args = Inr ids \<and> input_ids_of (p_body q) = ids"
  using assms
  by (auto simp: prepare_tree_request_def Let_def result_simps input_ids_of_def dict_simps simp del: map_map)

lemma begin_chat_v2_shape:
  assumes "begin_chat_v2 env s client = Inr p"
  shows "\<exists>q. prepare_tree_request env s client = Inr (q, pv_parent p) \<and> pv_prompt p = input_ids_of (p_body q)"
  using assms
  by (auto simp: begin_chat_v2_def Let_def result_simps split: if_splits)

lemma begin_chat_v2_pending:
  assumes wf: "wf_tree (v2_tree s)" and ok: "tito_ok (env_hf env) (env_tito env)" and b: "begin_chat_v2 env s client = Inr p"
  shows "pending_ok (max_trim_tokens (tito_family (env_tito env))) (v2_tree s) p"
proof -
  obtain q where q: "prepare_tree_request env s client = Inr (q, pv_parent p)" and pr: "pv_prompt p = input_ids_of (p_body q)"
    using begin_chat_v2_shape[OF b] by auto
  obtain request a ids args where a: "attach_point_for_request (env_matcher env) s request = Inr a"
    and pa: "pv_parent p = attach_node a" and r: "render_tree_token_ids env (v2_tree s) (pv_parent p) request args = Inr ids"
    and ids: "input_ids_of (p_body q) = ids"
    using prepare_tree_shape[OF q] by auto
  from attach_ok[OF wf a] render_tree_extends[OF r ok] show ?thesis
    by (simp add: pending_ok_def pr ids pa deepest_match_def)
qed

definition system_ok :: "session_env \<Rightarrow> tree_system \<Rightarrow> bool" where
  "system_ok env st \<longleftrightarrow> tree_ok (max_trim_tokens (tito_family (env_tito env))) (v2_tree (fst st)) \<and>
     (\<forall>p \<in> set (snd st). pending_ok (max_trim_tokens (tito_family (env_tito env))) (v2_tree (fst st)) p)"

lemma finish_chat_v2_ok:
  assumes "tree_ok (max_trim_tokens (tito_family (env_tito env))) (v2_tree s)"
    and "pending_ok trim (v2_tree s) p" and "finish_chat_v2 env s p g = Inr s'"
  shows "tree_ok (max_trim_tokens (tito_family (env_tito env))) (v2_tree s') \<and> grown (v2_tree s) (v2_tree s')"
  using assms commit_shape[OF assms(1), of "pv_parent p"]
  by (fastforce simp: finish_chat_v2_def pending_ok_def split: if_splits)

lemma system_ok_step:
  assumes "tito_ok (env_hf env) (env_tito env)" and "tree_step env st st'" and "system_ok env st"
  shows "system_ok env st' \<and> grown (v2_tree (fst st)) (v2_tree (fst st'))"
  using assms(2)
proof cases
  case (tree_chat_begins s client p ps)
  then show ?thesis using assms(1,3) begin_chat_v2_pending[of s env client p] by (auto simp: system_ok_def tree_ok_def)
next
  case (tree_chat_commits s p g s' ps qs)
  then have "tree_ok (max_trim_tokens (tito_family (env_tito env))) (v2_tree s') \<and> grown (v2_tree s) (v2_tree s')"
    using assms(3) finish_chat_v2_ok[of env s _ p g s'] by (auto simp: system_ok_def)
  moreover have "pending_ok (max_trim_tokens (tito_family (env_tito env))) (v2_tree s) q" if "q \<in> set (ps @ qs)" for q
    using that tree_chat_commits assms(3) by (auto simp: system_ok_def)
  then have "pending_ok (max_trim_tokens (tito_family (env_tito env))) (v2_tree s') q" if "q \<in> set (ps @ qs)" for q
    using that pending_ok_grown calculation by blast
  ultimately show ?thesis using tree_chat_commits by (simp add: system_ok_def)
qed (use assms(3) in \<open>auto simp: system_ok_def\<close>)

lemma reaches_system_ok:
  assumes "tito_ok (env_hf env) (env_tito env)" and "tree_reaches env st st'" and "system_ok env st"
  shows "system_ok env st' \<and> grown (v2_tree (fst st)) (v2_tree (fst st'))"
  using assms(2)
proof (induction rule: rtranclp_induct)
  case base
  then show ?case using assms(3) by simp
next
  case (step u v)
  then show ?case using system_ok_step[OF assms(1) step.hyps(2)] grown_trans by blast
qed

lemma new_system_ok: "system_ok env (new_state_v2 ev d replay key, [])"
  by (simp add: system_ok_def new_state_v2_def)

lemma path_prefix:
  assumes "wf_tree t" and "l < length (tree_nodes t)" and "c \<in> set (path_nodes t (Some l))"
  shows "set (path_nodes t (Some c)) \<subseteq> set (path_nodes t (Some l))"
  using assms(2,3)
proof (induction l rule: less_induct)
  case (less l)
  show ?case
  proof (cases "c = l")
    case False
    then have c: "c \<in> set (path_nodes t (node_parent (tree_nodes t ! l)))"
      using less.prems path_nodes_rec[OF assms(1) less.prems(1)] by auto
    then obtain q where q: "node_parent (tree_nodes t ! l) = Some q" by (cases "node_parent (tree_nodes t ! l)") auto
    then have "q < l" using assms(1) less.prems(1) by (auto simp: wf_tree_def)
    then show ?thesis using less.IH[of q] less.prems c q path_nodes_rec[OF assms(1) less.prems(1)] by auto
  qed simp
qed

lemma latest_is_leaf:
  assumes "wf_tree (v2_tree s)" and "latest s = Some i"
  shows "i \<in> set (leaves (v2_tree s))"
proof -
  have i: "i < length (tree_nodes (v2_tree s))" "Suc i = length (tree_nodes (v2_tree s))"
    using assms(2) by (auto simp: latest_def split: if_splits)
  have "children_of (tree_nodes (v2_tree s)) (Some i) = []"
    using assms(1) i by (force simp: children_of_def filter_empty_conv wf_tree_def)
  then show ?thesis using assms(1) i by (simp add: leaves_def wf_tree_def)
qed

lemma node_on_leaf_path:
  assumes wf: "wf_tree t" and i: "i < length (tree_nodes t)"
  shows "\<exists>l \<in> set (leaves t). i \<in> set (path_nodes t (Some l))"
  using i
proof (induction "length (tree_nodes t) - i" arbitrary: i rule: less_induct)
  case less
  have c: "node_children (tree_nodes t ! i) = children_of (tree_nodes t) (Some i)" using wf less.prems by (simp add: wf_tree_def)
  show ?case
  proof (cases "children_of (tree_nodes t) (Some i)")
    case Nil
    then have "i \<in> set (leaves t)" using c less.prems by (simp add: leaves_def)
    moreover have "i \<in> set (path_nodes t (Some i))" using path_nodes_rec[OF wf less.prems] by simp
    ultimately show ?thesis by blast
  next
    case (Cons d ds)
    then have "d \<in> set (children_of (tree_nodes t) (Some i))" by simp
    then have d: "d < length (tree_nodes t)" "node_parent (tree_nodes t ! d) = Some i" by (auto simp: children_of_def)
    then have "i < d" using wf by (auto simp: wf_tree_def)
    then have "length (tree_nodes t) - d < length (tree_nodes t) - i" using d less.prems by simp
    then obtain l where l: "l \<in> set (leaves t)" "d \<in> set (path_nodes t (Some l))"
      using less.hyps[of d] d by blast
    then have "l < length (tree_nodes t)" by (simp add: leaves_def)
    from path_prefix[OF wf this l(2)] have "i \<in> set (path_nodes t (Some l))"
      using path_nodes_rec[OF wf d(1)] path_nodes_rec[OF wf less.prems] d(2) by auto
    then show ?thesis using l by blast
  qed
qed

lemma commit_error:
  assumes "extends_upto trim (node_tokens (v2_tree s) parent) (prompt @ gen)"
    and "commit_generation s parent request msg prompt gen trim r rid reason turn = Inl err"
  shows "err = Uncaught ValueError \<and> MAX_NODES \<le> length (tree_nodes (v2_tree s))"
  using commit_succeeds[OF assms(1), of request msg r rid reason turn] assms(2) by simp

section \<open>Properties of the tree session\<close>

text \<open>
  The search always returns, with a node whose path is a prefix of the request (or no
  node), the number of messages that path has, and no matching node that is deeper, or as deep and
  newer.
\<close>

theorem find_attach_point_deepest:
  assumes "wf_tree t"
  shows "\<exists>a. find_attach_point matcher t request = Some a \<and> path_matches matcher t request (attach_node a) \<and>
     matched_messages a = length (path_messages t (attach_node a)) \<and> valid_parent t (attach_node a) \<and>
     (\<forall>i < length (tree_nodes t). path_matches matcher t request (Some i) \<longrightarrow>
        (case attach_node a of None \<Rightarrow> False
         | Some b \<Rightarrow> path_length t i < path_length t b \<or> path_length t i = path_length t b \<and> i \<le> b))"
  using attach_point_spec[OF assms, of matcher request] unfolding deepest_match_def by blast

text \<open>
  C32.  However chats interleave on one session, the generation of a waiting chat is never rejected by
  the token check: it is appended under the node the chat attached to, as a node whose path is that
  node's path, the unmatched messages and the reply, and whose tokens are prompt and completion,
  or the session is full.
\<close>

theorem concurrent_generations_never_conflict:
  assumes "tito_ok (env_hf env) (env_tito env)" and "tree_reaches env (new_state_v2 ev d replay key, []) (s, ps)"
    and "p \<in> set ps" and "\<not> v2_closing s"
  shows "case finish_chat_v2 env s p g of
     Inl e \<Rightarrow> e = Uncaught ValueError \<and> length (tree_nodes (v2_tree s)) = MAX_NODES
   | Inr s' \<Rightarrow> latest s' = Some (length (tree_nodes (v2_tree s))) \<and>
       path_messages (v2_tree s') (latest s') = path_messages (v2_tree s) (pv_parent p) @
         drop (length (path_messages (v2_tree s) (pv_parent p))) (pv_messages p) @ [g_message g] \<and>
       node_tokens (v2_tree s') (latest s') = pv_prompt p @ g_token_ids g"
proof -
  let ?trim = "max_trim_tokens (tito_family (env_tito env))"
  from reaches_system_ok[OF assms(1,2) new_system_ok] have sys: "system_ok env (s, ps)" by blast
  then have ok: "tree_ok ?trim (v2_tree s)" and p: "pending_ok ?trim (v2_tree s) p"
    using assms(3) by (auto simp: system_ok_def)
  then have e: "extends_upto ?trim (node_tokens (v2_tree s) (pv_parent p)) (pv_prompt p @ g_token_ids g)"
    and vp: "valid_parent (v2_tree s) (pv_parent p)" by (auto simp: pending_ok_def)
  have cap: "length (tree_nodes (v2_tree s)) \<le> MAX_NODES" using ok by (simp add: tree_ok_def)
  show ?thesis
  proof (cases "finish_chat_v2 env s p g")
    case (Inl err)
    then have "commit_generation s (pv_parent p) (pv_messages p) (g_message g) (pv_prompt p) (g_token_ids g) ?trim
             \<lparr>rec_request = pv_body p, rec_response = g_response g, rec_status = 200\<rparr>
             (dget_or (g_response g) ''id'' (JStr [])) (py_or (dget (g_choice g) ''finish_reason'') (JStr []))
             (pv_body p) = Inl err" using assms(4) by (simp add: finish_chat_v2_def)
    from commit_error[OF e this] have "err = Uncaught ValueError \<and> MAX_NODES \<le> length (tree_nodes (v2_tree s))" .
    then show ?thesis using Inl cap by simp
  next
    case (Inr s')
    then have "commit_generation s (pv_parent p) (pv_messages p) (g_message g) (pv_prompt p) (g_token_ids g) ?trim
             \<lparr>rec_request = pv_body p, rec_response = g_response g, rec_status = 200\<rparr>
             (dget_or (g_response g) ''id'' (JStr [])) (py_or (dget (g_choice g) ''finish_reason'') (JStr []))
             (pv_body p) = Inr s'" using assms(4) by (simp add: finish_chat_v2_def)
    from commit_shape[OF ok vp this] Inr show ?thesis by auto
  qed
qed

text \<open>
  C36.  Every reachable tree keeps the invariant (parents first, child lists in commit order, every node's
  tokens extending its parent's, at most \<open>MAX_NODES\<close> nodes); its snapshot is equal to it, its
  latest generation is a leaf, and every generation lies on the path of some leaf, so that
  collecting one sample per leaf leaves none out.
\<close>

theorem reachable_tree_invariant:
  assumes "tito_ok (env_hf env) (env_tito env)" and "tree_reaches env (new_state_v2 ev d replay key, []) (s, ps)"
  shows "tree_ok (max_trim_tokens (tito_family (env_tito env))) (v2_tree s) \<and> snapshot (v2_tree s) = v2_tree s \<and>
    (\<forall>i. latest s = Some i \<longrightarrow> i \<in> set (leaves (v2_tree s))) \<and>
    (\<forall>i < length (tree_nodes (v2_tree s)). \<exists>l \<in> set (leaves (v2_tree s)). i \<in> set (path_nodes (v2_tree s) (Some l)))"
proof -
  from reaches_system_ok[OF assms(1,2) new_system_ok]
  have ok: "tree_ok (max_trim_tokens (tito_family (env_tito env))) (v2_tree s)" by (auto simp: system_ok_def)
  then have "wf_tree (v2_tree s)" by (rule tree_ok_wf)
  then show ?thesis using ok snapshot_same latest_is_leaf node_on_leaf_path by blast
qed

text \<open>
  Serving is append-only: whatever chats do after a state was reached, each node it had keeps its place,
  its messages, tokens, record, arguments and path; only lists of children grow.
\<close>

theorem serving_only_appends:
  assumes "tito_ok (env_hf env) (env_tito env)" and "tree_reaches env (new_state_v2 ev d replay key, []) (s, ps)"
    and "tree_reaches env (s, ps) (s', ps')" and "i < length (tree_nodes (v2_tree s))"
  shows "i < length (tree_nodes (v2_tree s')) \<and>
    (tree_nodes (v2_tree s') ! i)\<lparr>node_children := []\<rparr> = (tree_nodes (v2_tree s) ! i)\<lparr>node_children := []\<rparr> \<and>
    path_messages (v2_tree s') (Some i) = path_messages (v2_tree s) (Some i)"
proof -
  from reaches_system_ok[OF assms(1,2) new_system_ok] have "system_ok env (s, ps)" by blast
  from reaches_system_ok[OF assms(1,3) this] have "grown (v2_tree s) (v2_tree s')" by simp
  then show ?thesis using assms(4) by (auto simp: grown_def same_node_def)
qed

section \<open>A run\<close>

text \<open>Runs of the system, computed event by event.\<close>

datatype tree_event = Tree_Begin obj | Tree_Finish nat generation | Tree_Fail nat | Tree_Close

fun apply_tree_event :: "session_env \<Rightarrow> tree_event \<Rightarrow> tree_system \<Rightarrow> tree_system" where
  "apply_tree_event env (Tree_Begin client) (s, ps) =
     (case begin_chat_v2 env s client of Inr p \<Rightarrow> (s, p # ps) | Inl e \<Rightarrow> (s, ps))"
| "apply_tree_event env (Tree_Finish i g) (s, ps) =
     (if i < length ps
      then case finish_chat_v2 env s (ps ! i) g of
             Inr s' \<Rightarrow> (s', take i ps @ drop (Suc i) ps) | Inl e \<Rightarrow> (s, take i ps @ drop (Suc i) ps)
      else (s, ps))"
| "apply_tree_event env (Tree_Fail i) (s, ps) = (if i < length ps then (s, take i ps @ drop (Suc i) ps) else (s, ps))"
| "apply_tree_event env Tree_Close (s, ps) = (s\<lparr>v2_closing := True\<rparr>, ps)"

lemma apply_tree_event_step: "t = apply_tree_event env ev st \<Longrightarrow> t = st \<or> tree_step env st t"
proof (induction env ev st rule: apply_tree_event.induct)
  case (1 env client s ps)
  then show ?case by (auto intro: tree_step.intros split: sum.splits)
next
  case (2 env i g s ps)
  show ?case
  proof (cases "i < length ps")
    case True
    then have ps: "ps = take i ps @ ps ! i # drop (Suc i) ps" by (rule id_take_nth_drop)
    show ?thesis
      using 2 True tree_step.tree_chat_commits[of env s "ps ! i" g _ "take i ps" "drop (Suc i) ps"]
        tree_step.tree_commit_fails[of env s "ps ! i" g _ "take i ps" "drop (Suc i) ps"]
      by (auto simp: ps[symmetric] split: sum.splits)
  qed (use 2 in simp)
next
  case (3 env i s ps)
  show ?case
  proof (cases "i < length ps")
    case True
    then have ps: "ps = take i ps @ ps ! i # drop (Suc i) ps" by (rule id_take_nth_drop)
    show ?thesis
      using 3 True tree_step.tree_backend_fails[of env s "take i ps" "ps ! i" "drop (Suc i) ps"] by (simp add: ps[symmetric])
  qed (use 3 in simp)
next
  case (4 env s ps)
  then show ?case by (auto intro: tree_step.intros)
qed

lemma tree_run_reaches: "tree_reaches env st (fold (apply_tree_event env) evs st)"
proof (induction evs rule: rev_induct)
  case (snoc ev evs)
  show ?case using snoc apply_tree_event_step[OF refl, of env ev "fold (apply_tree_event env) evs st"]
    by (auto intro: rtranclp.rtrancl_into_rtrancl)
qed simp

text \<open>A first turn, and two chats that continue it concurrently; one of them commits.\<close>

abbreviation gen_of :: "string \<Rightarrow> nat list \<Rightarrow> generation" where
  "gen_of text ids \<equiv> \<lparr>g_response = [], g_choice = [(''finish_reason'', JStr ''stop'')], g_message = assistant_msg text,
     g_token_ids = ids\<rparr>"

definition demo_state :: session_state_v2 where
  "demo_state = new_state_v2 False [] False None"

definition demo_first :: tree_system where
  "demo_first = fold (apply_tree_event demo_env)
     [Tree_Begin (client_of [user_msg ''a'']), Tree_Finish 0 (gen_of ''b'' [7])] (demo_state, [])"

definition demo_race :: tree_system where
  "demo_race = fold (apply_tree_event demo_env)
     [Tree_Begin (client_of [user_msg ''a'', assistant_msg ''b'', user_msg ''c'']),
      Tree_Begin (client_of [user_msg ''a'', assistant_msg ''b'', user_msg ''d'']),
      Tree_Finish 0 (gen_of ''e'' [8])] demo_first"

lemma demo_first_reached: "tree_reaches demo_env (new_state_v2 False [] False None, []) (fst demo_first, snd demo_first)"
  unfolding prod.collapse demo_first_def demo_state_def by (rule tree_run_reaches)

lemma demo_race_reached: "tree_reaches demo_env (fst demo_first, snd demo_first) (fst demo_race, snd demo_race)"
  unfolding prod.collapse demo_race_def by (rule tree_run_reaches)

lemma demo_race_shape:
  "map (\<lambda>n. (node_parent n, node_children n)) (tree_nodes (v2_tree (fst demo_race))) = [(None, [1]), (Some 0, [])] \<and>
   map pv_parent (snd demo_race) = [Some 0] \<and> \<not> v2_closing (fst demo_race)"
  by code_simp

lemma demo_race_from_start:
  "tree_reaches demo_env (new_state_v2 False [] False None, []) (fst demo_race, snd demo_race)"
  using rtranclp_trans[OF demo_first_reached demo_race_reached] .

theorem find_attach_point_deepest_witness:
  "\<exists>a. find_attach_point strict_message_matches (v2_tree (fst demo_race)) [user_msg ''a'', assistant_msg ''b''] = Some a \<and>
     matched_messages a = length (path_messages (v2_tree (fst demo_race)) (attach_node a))"
proof -
  have "wf_tree (v2_tree (fst demo_race))"
    using reaches_system_ok[OF demo_tito_ok demo_race_from_start new_system_ok] by (simp add: system_ok_def tree_ok_def)
  from find_attach_point_deepest[OF this] show ?thesis by blast
qed

theorem concurrent_generations_never_conflict_witness:
  "\<exists>p s'. pv_parent p = Some 0 \<and> finish_chat_v2 demo_env (fst demo_race) p (gen_of ''f'' [9]) = Inr s' \<and>
     node_tokens (v2_tree s') (latest s') = pv_prompt p @ [9]"
proof -
  obtain p where p: "snd demo_race = [p]" "pv_parent p = Some 0" "\<not> v2_closing (fst demo_race)"
    using demo_race_shape by auto
  have "length (tree_nodes (v2_tree (fst demo_race))) = 2"
    using arg_cong[OF conjunct1[OF demo_race_shape], of length] by simp
  then have small: "length (tree_nodes (v2_tree (fst demo_race))) \<noteq> MAX_NODES" by (simp add: MAX_NODES_def)
  have "p \<in> set (snd demo_race)" using p by simp
  from concurrent_generations_never_conflict[OF demo_tito_ok demo_race_from_start this p(3), of "gen_of ''f'' [9]"] small p(2)
  show ?thesis by (auto split: sum.splits)
qed

theorem reachable_tree_invariant_witness:
  "tree_ok (max_trim_tokens (tito_family (env_tito demo_env))) (v2_tree (fst demo_race)) \<and>
   snapshot (v2_tree (fst demo_race)) = v2_tree (fst demo_race)"
  using reachable_tree_invariant[OF demo_tito_ok demo_race_from_start] by blast

theorem serving_only_appends_witness:
  "(0::nat) < length (tree_nodes (v2_tree (fst demo_first))) \<and>
   path_messages (v2_tree (fst demo_race)) (Some 0) = path_messages (v2_tree (fst demo_first)) (Some 0)"
proof -
  have "(0::nat) < length (tree_nodes (v2_tree (fst demo_first)))" by code_simp
  from serving_only_appends[OF demo_tito_ok demo_first_reached demo_race_reached this] this show ?thesis by blast
qed

end
