(* ===== verification/Sampling_Mask.thy ===== *)
theory Sampling_Mask
  imports Miles_Prelude
begin

text \<open>
  \<^verbatim>\<open>miles/utils/sampling_mask.py\<close>: for each response token the token ids the sampler could emit,
  kept as one flat array of ids and one of offsets.  The abstraction \<open>csr_rows\<close> reads the rows back
  as a list of lists; each operation is proved to be the plain list operation on the rows.
  Tensor types and devices are not modelled; every failure of the source is a \<open>ValueError\<close>.
\<close>

record sampling_mask =
  mask_ids :: "int list"
  mask_offsets :: "nat list"

definition adjacent :: "'a list \<Rightarrow> ('a \<times> 'a) list" where
  "adjacent xs = zip xs (tl xs)"

definition slice :: "nat \<Rightarrow> nat \<Rightarrow> 'a list \<Rightarrow> 'a list" where
  "slice a b xs = drop a (take b xs)"

definition csr_rows :: "'a list \<Rightarrow> nat list \<Rightarrow> 'a list list" where
  "csr_rows ids offs = map (\<lambda>(a, b). slice a b ids) (adjacent offs)"

definition mask_rows :: "sampling_mask \<Rightarrow> int list list" where
  "mask_rows m = csr_rows (mask_ids m) (mask_offsets m)"

section \<open>Construction\<close>

definition make_mask :: "int list \<Rightarrow> nat list \<Rightarrow> py_exn + sampling_mask" where
  "make_mask ids offs =
     (if offs = [] \<or> hd offs \<noteq> 0 \<or> last offs \<noteq> length ids then Inl ValueError
      else if list_ex (\<lambda>(a, b). b \<le> a) (adjacent offs) then Inl ValueError
      else Inr \<lparr>mask_ids = ids, mask_offsets = offs\<rparr>)"

definition mask_length :: "sampling_mask \<Rightarrow> nat" where
  "mask_length m = length (mask_offsets m) - 1"

definition from_mask_list :: "int list list \<Rightarrow> py_exn + sampling_mask" where
  "from_mask_list masks =
     (let (ids, offs) = foldl (\<lambda>(ids, offs) mask. (ids @ mask, offs @ [length (ids @ mask)])) ([], [0]) masks
      in make_mask ids offs)"

definition concatenate :: "sampling_mask list \<Rightarrow> py_exn + sampling_mask" where
  "concatenate masks =
     (case masks of
        [] \<Rightarrow> make_mask [] [0]
      | [m] \<Rightarrow> Inr m
      | _ \<Rightarrow>
          let ids = concat (map mask_ids masks);
              (offs, id_count) = foldl (\<lambda>(offs, n) m. (offs @ map (\<lambda>o'. o' + n) (tl (mask_offsets m)), n + length (mask_ids m)))
                ([0], 0) masks
          in make_mask ids offs)"

definition mask_prefix :: "int \<Rightarrow> sampling_mask \<Rightarrow> py_exn + sampling_mask" where
  "mask_prefix n m =
     (if \<not> (0 \<le> n \<and> n \<le> int (mask_length m)) then Inl ValueError
      else if n = int (mask_length m) then Inr m
      else make_mask (take (mask_offsets m ! nat n) (mask_ids m)) (take (nat n + 1) (mask_offsets m)))"

section \<open>Selection\<close>

text \<open>Positions are a range of step one or an arbitrary list.\<close>

datatype positions = Range int int | Indices "int list"

text \<open>A list of positions is cut where the next position is not the successor, and each run is one
  slice of the ids.\<close>

definition run_starts :: "nat list \<Rightarrow> nat list" where
  "run_starts idx = 0 # map Suc (filter (\<lambda>i. idx ! Suc i \<noteq> idx ! i + 1) [0..<length idx - 1]) @ [length idx]"

definition select_masks :: "positions \<Rightarrow> sampling_mask \<Rightarrow> py_exn + int list \<times> nat list" where
  "select_masks pos m =
     (case pos of
        Range start stop \<Rightarrow>
          if stop \<le> start then Inr ([], [])
          else if start < 0 \<or> int (mask_length m) < stop then Inl ValueError
          else Inr (slice (mask_offsets m ! nat start) (mask_offsets m ! nat stop) (mask_ids m),
                    map (\<lambda>t. mask_offsets m ! (t + 1) - mask_offsets m ! t) [nat start..<nat stop])
      | Indices is \<Rightarrow>
          if list_ex (\<lambda>i. i < 0 \<or> int (mask_length m) \<le> i) is then Inl ValueError
          else
            let idx = map nat is;
                lengths = map (\<lambda>t. mask_offsets m ! (t + 1) - mask_offsets m ! t) idx
            in if idx = [] then Inr ([], lengths)
               else Inr (concat (map (\<lambda>(s, e). slice (mask_offsets m ! (idx ! s)) (mask_offsets m ! (idx ! (e - 1) + 1))
                      (mask_ids m)) (adjacent (run_starts idx))), lengths))"

section \<open>Rows of a flat array\<close>

lemma adjacent_simps [simp]: "adjacent [] = []" "adjacent [x] = []" "adjacent (x # y # zs) = (x, y) # adjacent (y # zs)"
  by (simp_all add: adjacent_def)

lemma length_adjacent [simp]: "length (adjacent xs) = length xs - 1"
  by (simp add: adjacent_def)

lemma adjacent_nth: "Suc i < length xs \<Longrightarrow> adjacent xs ! i = (xs ! i, xs ! Suc i)"
  by (simp add: adjacent_def nth_tl)

lemma adjacent_append: "adjacent (xs @ y # ys) = adjacent (xs @ [y]) @ adjacent (y # ys)"
proof (induction xs)
  case (Cons x xs)
  then show ?case by (cases xs) auto
qed simp

lemma adjacent_map: "adjacent (map f xs) = map (map_prod f f) (adjacent xs)"
  by (simp add: adjacent_def zip_map_map map_tl[symmetric] map_prod_def)

lemma slice_append1: "b \<le> length xs \<Longrightarrow> slice a b (xs @ ys) = slice a b xs"
  by (simp add: slice_def)

lemma slice_append2 [simp]: "slice (length xs + a) (length xs + b) (xs @ ys) = slice a b ys"
  by (simp add: slice_def)

lemma slice_slice_append: "a \<le> b \<Longrightarrow> b \<le> c \<Longrightarrow> slice a b xs @ slice b c xs = slice a c xs"
  using take_add[of "b - a" "c - b" "drop a xs"] by (simp add: slice_def drop_take)

definition csr_ok :: "'a list \<Rightarrow> nat list \<Rightarrow> bool" where
  "csr_ok ids offs \<longleftrightarrow> offs \<noteq> [] \<and> hd offs = 0 \<and> last offs = length ids \<and> sorted offs"

definition mask_ok :: "sampling_mask \<Rightarrow> bool" where
  "mask_ok m \<longleftrightarrow> csr_ok (mask_ids m) (mask_offsets m) \<and> [] \<notin> set (mask_rows m)"

lemma csr_rows_append:
  "csr_rows ids (xs @ y # ys) = csr_rows ids (xs @ [y]) @ csr_rows ids (y # ys)"
  unfolding csr_rows_def by (subst adjacent_append) simp

lemma csr_rows_extend:
  assumes "\<forall>o' \<in> set offs. o' \<le> length ids"
  shows "csr_rows (ids @ tail) offs = csr_rows ids offs"
proof -
  have "slice a b (ids @ tail) = slice a b ids" if "(a, b) \<in> set (adjacent offs)" for a b
  proof -
    from that have "b \<in> set (tl offs)" unfolding adjacent_def by (rule set_zip_rightD)
    then have "b \<in> set offs" by (cases offs) auto
    then show ?thesis using assms by (simp add: slice_append1)
  qed
  then show ?thesis by (auto simp: csr_rows_def)
qed

lemma csr_rows_shift: "csr_rows (pre @ ids) (map (\<lambda>o'. length pre + o') offs) = csr_rows ids offs"
  by (simp add: csr_rows_def adjacent_map split_def)

lemma length_csr_rows [simp]: "length (csr_rows ids offs) = length offs - 1"
  by (simp add: csr_rows_def)

lemma csr_rows_nth: "t + 1 < length offs \<Longrightarrow> csr_rows ids offs ! t = slice (offs ! t) (offs ! (t + 1)) ids"
  by (simp add: csr_rows_def adjacent_nth)

lemma csr_ok_le: "csr_ok ids offs \<Longrightarrow> o' \<in> set offs \<Longrightarrow> o' \<le> length ids"
proof -
  assume ok: "csr_ok ids offs" and "o' \<in> set offs"
  then obtain i where "i < length offs" "o' = offs ! i" by (auto simp: in_set_conv_nth)
  then have "o' \<le> offs ! (length offs - 1)" using ok by (auto simp: csr_ok_def intro!: sorted_nth_mono)
  then have "o' \<le> last offs" using ok by (metis csr_ok_def last_conv_nth)
  then show ?thesis using ok by (simp add: csr_ok_def)
qed

lemma csr_ok_take: "csr_ok ids offs \<Longrightarrow> n < length offs \<Longrightarrow> csr_ok (take (offs ! n) ids) (take (n + 1) offs)"
  using csr_ok_le[of ids offs "offs ! n"] sorted_wrt_take[of "(\<le>)" offs "n + 1"]
  by (simp add: csr_ok_def hd_take) (simp add: take_Suc_conv_app_nth min_def)

lemma csr_rows_take:
  assumes "csr_ok ids offs" and "n < length offs"
  shows "csr_rows (take (offs ! n) ids) (take (n + 1) offs) = take n (csr_rows ids offs)"
proof (rule nth_equalityI)
  show "length (csr_rows (take (offs ! n) ids) (take (n + 1) offs)) = length (take n (csr_rows ids offs))"
    using assms by simp
next
  fix t assume "t < length (csr_rows (take (offs ! n) ids) (take (n + 1) offs))"
  then have t: "t < n" using assms by simp
  then have "offs ! (t + 1) \<le> offs ! n" using assms by (auto simp: csr_ok_def intro: sorted_nth_mono)
  then show "csr_rows (take (offs ! n) ids) (take (n + 1) offs) ! t = take n (csr_rows ids offs) ! t"
    using t assms by (simp add: csr_rows_nth slice_def min_def)
qed

lemma csr_join:
  assumes "csr_ok ids offs" and "csr_ok ids' offs'"
  shows "csr_ok (ids @ ids') (offs @ map (\<lambda>o'. o' + length ids) (tl offs')) \<and>
    csr_rows (ids @ ids') (offs @ map (\<lambda>o'. o' + length ids) (tl offs')) = csr_rows ids offs @ csr_rows ids' offs'"
proof
  obtain bs where o1: "offs = bs @ [length ids]" using assms(1) by (metis append_butlast_last_id csr_ok_def)
  obtain cs where o2: "offs' = 0 # cs" using assms(2) by (cases offs') (auto simp: csr_ok_def)
  have "csr_rows (ids @ ids') (bs @ [length ids]) = csr_rows ids (bs @ [length ids])"
    using csr_ok_le[OF assms(1)] by (intro csr_rows_extend) (auto simp: o1)
  moreover have "csr_rows (ids @ ids') (length ids # map (\<lambda>o'. o' + length ids) cs) = csr_rows ids' (0 # cs)"
    using csr_rows_shift[of ids ids' "0 # cs"] by (simp add: add.commute)
  ultimately show "csr_rows (ids @ ids') (offs @ map (\<lambda>o'. o' + length ids) (tl offs')) = csr_rows ids offs @ csr_rows ids' offs'"
    using csr_rows_append[of "ids @ ids'" bs "length ids" "map (\<lambda>o'. o' + length ids) cs"]
    by (simp add: o1 o2)
  show "csr_ok (ids @ ids') (offs @ map (\<lambda>o'. o' + length ids) (tl offs'))"
    using assms csr_ok_le[OF assms(1)] unfolding o1 o2
    by (auto simp: csr_ok_def sorted_append last_map hd_append sorted_map intro: sorted_wrt_mono_rel)
      (auto simp: o1 le_add2 trans_le_add2)
qed

section \<open>Construction\<close>

lemma row_empty_iff:
  "csr_ok ids offs \<Longrightarrow> t + 1 < length offs \<Longrightarrow> csr_rows ids offs ! t = [] \<longleftrightarrow> offs ! (t + 1) \<le> offs ! t"
  using csr_ok_le[of ids offs "offs ! (t + 1)"] by (simp add: csr_rows_nth slice_def min_def)

lemma not_increasing_iff:
  "list_ex (\<lambda>(a, b). b \<le> a) (adjacent offs) \<longleftrightarrow> (\<exists>t. t + 1 < length offs \<and> offs ! (t + 1) \<le> (offs ! t :: nat))"
proof -
  have "list_ex (\<lambda>(a, b). b \<le> a) (adjacent offs) \<longleftrightarrow>
      (\<exists>t < length (adjacent offs). case adjacent offs ! t of (a, b) \<Rightarrow> b \<le> a)"
    by (simp add: list_ex_length)
  also have "\<dots> \<longleftrightarrow> (\<exists>t. t + 1 < length offs \<and> offs ! (t + 1) \<le> offs ! t)"
    by (auto simp: adjacent_nth less_diff_conv)
  finally show ?thesis .
qed

lemma empty_row_iff:
  assumes "csr_ok ids offs"
  shows "[] \<in> set (csr_rows ids offs) \<longleftrightarrow> list_ex (\<lambda>(a, b). b \<le> a) (adjacent offs)"
  unfolding not_increasing_iff in_set_conv_nth using row_empty_iff[OF assms] by (auto simp: less_diff_conv)

lemma make_mask_Inr_iff:
  "make_mask ids offs = Inr m \<longleftrightarrow> csr_ok ids offs \<and> [] \<notin> set (csr_rows ids offs) \<and> m = \<lparr>mask_ids = ids, mask_offsets = offs\<rparr>"
proof -
  have "sorted offs" if "\<not> list_ex (\<lambda>(a, b). b \<le> a) (adjacent offs)"
    using that unfolding not_increasing_iff sorted_iff_nth_Suc by (auto simp: not_le less_imp_le)
  then show ?thesis using empty_row_iff[of ids offs] by (auto simp: make_mask_def csr_ok_def)
qed

lemma make_mask_ok: "csr_ok ids offs \<Longrightarrow> [] \<notin> set (csr_rows ids offs) \<Longrightarrow>
   \<exists>m. make_mask ids offs = Inr m \<and> mask_ok m \<and> mask_rows m = csr_rows ids offs"
  by (auto simp: make_mask_Inr_iff mask_ok_def mask_rows_def)

lemma make_mask_Inl: "csr_ok ids offs \<Longrightarrow> [] \<in> set (csr_rows ids offs) \<Longrightarrow> make_mask ids offs = Inl ValueError"
  using empty_row_iff[of ids offs] by (auto simp: make_mask_def csr_ok_def)

lemma csr_single: "csr_ok row [0, length row] \<and> csr_rows row [0, length row] = [row]"
  by (simp add: csr_ok_def csr_rows_def slice_def)

lemma from_mask_list_loop:
  "csr_ok ids offs \<Longrightarrow>
   (let (ids', offs') = foldl (\<lambda>(ids, offs) mask. (ids @ mask, offs @ [length (ids @ mask)])) (ids, offs) masks
    in csr_ok ids' offs' \<and> csr_rows ids' offs' = csr_rows ids offs @ masks)"
proof (induction masks arbitrary: ids offs)
  case (Cons mask masks)
  have "csr_ok (ids @ mask) (offs @ [length (ids @ mask)]) \<and>
    csr_rows (ids @ mask) (offs @ [length (ids @ mask)]) = csr_rows ids offs @ [mask]"
    using csr_join[OF Cons.prems conjunct1[OF csr_single[of mask]]] csr_single[of mask] by (simp add: add.commute)
  then show ?case using Cons.IH[of "ids @ mask" "offs @ [length (ids @ mask)]"] by (auto simp: Let_def)
qed simp

lemma from_mask_list_spec:
  "if [] \<in> set masks then from_mask_list masks = Inl ValueError
   else \<exists>m. from_mask_list masks = Inr m \<and> mask_ok m \<and> mask_rows m = masks"
proof -
  have "csr_ok [] [0] \<and> csr_rows ([] :: int list) [0] = []" by (simp add: csr_ok_def csr_rows_def)
  from from_mask_list_loop[OF conjunct1[OF this], of masks] this show ?thesis
    by (auto simp: from_mask_list_def Let_def make_mask_Inl intro!: make_mask_ok split: prod.splits)
qed

lemma concat_loop:
  "csr_ok ids offs \<Longrightarrow> \<forall>m \<in> set ms. mask_ok m \<Longrightarrow>
   (let (offs', n) = foldl (\<lambda>(offs, n) m. (offs @ map (\<lambda>o'. o' + n) (tl (mask_offsets m)), n + length (mask_ids m)))
                (offs, length ids) ms
    in csr_ok (ids @ concat (map mask_ids ms)) offs' \<and>
       csr_rows (ids @ concat (map mask_ids ms)) offs' = csr_rows ids offs @ concat (map mask_rows ms))"
proof (induction ms arbitrary: ids offs)
  case (Cons m ms)
  have "csr_ok (mask_ids m) (mask_offsets m)" using Cons.prems by (simp add: mask_ok_def)
  from csr_join[OF Cons.prems(1) this] Cons.IH[of "ids @ mask_ids m" "offs @ map (\<lambda>o'. o' + length ids) (tl (mask_offsets m))"]
  show ?case using Cons.prems by (simp add: mask_rows_def)
qed simp

lemma concatenate_spec:
  assumes "\<forall>m \<in> set ms. mask_ok m"
  shows "\<exists>c. concatenate ms = Inr c \<and> mask_ok c \<and> mask_rows c = concat (map mask_rows ms)"
proof -
  have e: "csr_ok ([] :: int list) [0] \<and> csr_rows ([] :: int list) [0] = []" by (simp add: csr_ok_def csr_rows_def)
  have ne: "[] \<notin> set (concat (map mask_rows ms))" using assms by (auto simp: mask_ok_def)
  show ?thesis
  proof (cases "length ms < 2")
    case True
    then consider "ms = []" | m where "ms = [m]" by (cases ms rule: remdups_adj.cases) auto
    then show ?thesis using assms e make_mask_ok[of "[]" "[0]"] by cases (auto simp: concatenate_def)
  next
    case False
    then obtain a b rest where ms: "ms = a # b # rest" by (cases ms rule: remdups_adj.cases) auto
    obtain offs n where f: "foldl (\<lambda>(offs, n) m. (offs @ map (\<lambda>o'. o' + n) (tl (mask_offsets m)), n + length (mask_ids m)))
                ([0], 0) ms = (offs, n)" by fastforce
    have "csr_ok (concat (map mask_ids ms)) offs \<and> csr_rows (concat (map mask_ids ms)) offs = concat (map mask_rows ms)"
      using concat_loop[OF conjunct1[OF e] assms] e f by simp
    moreover have "concatenate ms = make_mask (concat (map mask_ids ms)) offs"
      using f by (simp add: concatenate_def ms)
    ultimately show ?thesis using make_mask_ok[of "concat (map mask_ids ms)" offs] ne by simp
  qed
qed

lemma mask_prefix_spec:
  assumes "mask_ok m"
  shows "if n < 0 \<or> int (mask_length m) < n then mask_prefix n m = Inl ValueError
    else \<exists>p. mask_prefix n m = Inr p \<and> mask_ok p \<and> mask_rows p = take (nat n) (mask_rows m)"
proof -
  have ok: "csr_ok (mask_ids m) (mask_offsets m)" "[] \<notin> set (csr_rows (mask_ids m) (mask_offsets m))"
    using assms by (auto simp: mask_ok_def mask_rows_def)
  then have ne: "mask_offsets m \<noteq> []" by (simp add: csr_ok_def)
  have "\<exists>p. mask_prefix n m = Inr p \<and> mask_ok p \<and> mask_rows p = take (nat n) (mask_rows m)"
    if n: "0 \<le> n" "n < int (mask_length m)"
  proof -
    have lt: "nat n < length (mask_offsets m)" using n ne by (simp add: mask_length_def nat_less_iff)
    have "[] \<notin> set (take (nat n) (csr_rows (mask_ids m) (mask_offsets m)))" using ok(2) by (auto dest: in_set_takeD)
    then show ?thesis
      using make_mask_ok[OF csr_ok_take[OF ok(1) lt]] csr_rows_take[OF ok(1) lt] n
      by (simp add: mask_prefix_def mask_rows_def)
  qed
  then show ?thesis using assms by (auto simp: mask_prefix_def mask_length_def mask_rows_def not_less)
qed

section \<open>Selection\<close>

lemma slice_rows:
  assumes "csr_ok ids offs" and "s \<le> e" and "e < length offs"
  shows "slice (offs ! s) (offs ! e) ids = concat (map (\<lambda>t. csr_rows ids offs ! t) [s..<e])"
  using assms(2,3)
proof (induction e rule: dec_induct)
  case base
  then show ?case by (simp add: slice_def)
next
  case (step e)
  have "offs ! s \<le> offs ! e" "offs ! e \<le> offs ! Suc e" using assms(1) step by (auto simp: csr_ok_def intro!: sorted_nth_mono)
  from slice_slice_append[OF this, of ids] step csr_rows_nth[of e offs ids] show ?case by simp
qed

lemma adjacent_gap:
  assumes "sorted_wrt (<) xs" and "(a, b) \<in> set (adjacent xs)"
  shows "(a :: nat) < b \<and> (\<forall>x \<in> set xs. \<not> (a < x \<and> x < b))"
proof -
  obtain i where i: "Suc i < length xs" "a = xs ! i" "b = xs ! Suc i"
    using assms(2) by (auto simp: in_set_conv_nth adjacent_nth less_diff_conv)
  have "\<not> (xs ! i < xs ! j \<and> xs ! j < xs ! Suc i)" if "j < length xs" for j
    using that i sorted_wrt_nth_less[OF assms(1), of j i] sorted_wrt_nth_less[OF assms(1), of "Suc i" j]
    by (cases "j < i"; cases "j = i"; cases "j = Suc i") auto
  then show ?thesis using i sorted_wrt_nth_less[OF assms(1), of i "Suc i"] by (auto simp: in_set_conv_nth)
qed

lemma concat_adjacent_slices:
  assumes "sorted ss" and "ss \<noteq> []"
  shows "concat (map (\<lambda>(s, e). slice s e xs) (adjacent ss)) = slice (hd ss) (last ss) xs"
  using assms
proof (induction ss)
  case (Cons a ss)
  show ?case
  proof (cases ss)
    case Nil
    then show ?thesis by (simp add: slice_def)
  next
    case (Cons b rest)
    then have "a \<le> b" "b \<le> last ss" using Cons.prems by (auto simp: sorted_wrt_append intro: last_in_set)
    then show ?thesis using Cons.IH Cons.prems Cons slice_slice_append[of a b "last ss" xs] by simp
  qed
qed simp

lemma run_starts_sorted: "idx \<noteq> [] \<Longrightarrow> sorted_wrt (<) (run_starts idx)"
  by (auto simp: run_starts_def sorted_wrt_append sorted_wrt_map sorted_wrt_filter)

lemma run_is_range:
  assumes "idx \<noteq> []" and "(s, e) \<in> set (adjacent (run_starts idx))"
  shows "s < e \<and> e \<le> length idx \<and> slice s e idx = [idx ! s..<idx ! s + (e - s)] \<and>
    idx ! (e - 1) + 1 = idx ! s + (e - s)"
proof -
  have gap: "s < e" "\<forall>x \<in> set (run_starts idx). \<not> (s < x \<and> x < e)"
    using adjacent_gap[OF run_starts_sorted[OF assms(1)] assms(2)] by auto
  have "e \<in> set (tl (run_starts idx))" using assms(2) unfolding adjacent_def by (rule set_zip_rightD)
  then have le: "e \<le> length idx" by (auto simp: run_starts_def)
  have succ: "idx ! Suc i = idx ! i + 1" if "s \<le> i" "Suc i < e" for i
  proof (rule ccontr)
    assume "idx ! Suc i \<noteq> idx ! i + 1"
    then have "Suc i \<in> set (run_starts idx)" using that le by (auto simp: run_starts_def)
    then show False using gap(2) that by auto
  qed
  have nth: "idx ! (s + k) = idx ! s + k" if "s + k < e" for k
    using that
  proof (induction k)
    case (Suc k)
    then show ?case using succ[of "s + k"] by simp
  qed simp
  have "slice s e idx = [idx ! s..<idx ! s + (e - s)]"
    using gap(1) le nth by (intro nth_equalityI) (auto simp: slice_def)
  moreover have "idx ! (e - 1) + 1 = idx ! s + (e - s)" using nth[of "e - 1 - s"] gap(1) by simp
  ultimately show ?thesis using gap(1) le by simp
qed

lemma concat_map_concat: "concat (map f (concat xss)) = concat (map (\<lambda>xs. concat (map f xs)) xss)"
  by (induction xss) auto

lemma selected_runs:
  assumes ok: "csr_ok ids offs" and ne: "idx \<noteq> []" and b: "\<forall>i \<in> set idx. i + 1 < length offs"
  shows "concat (map (\<lambda>(s, e). slice (offs ! (idx ! s)) (offs ! (idx ! (e - 1) + 1)) ids) (adjacent (run_starts idx))) =
    concat (map (\<lambda>t. csr_rows ids offs ! t) idx)"
proof -
  have "slice (offs ! (idx ! s)) (offs ! (idx ! (e - 1) + 1)) ids = concat (map (\<lambda>t. csr_rows ids offs ! t) (slice s e idx))"
    if "(s, e) \<in> set (adjacent (run_starts idx))" for s e
  proof -
    note r = run_is_range[OF ne that]
    have "idx ! s \<le> idx ! (e - 1) + 1" using r by linarith
    moreover have "idx ! (e - 1) \<in> set idx" using r by (intro nth_mem) linarith
    then have "idx ! (e - 1) + 1 < length offs" using b by blast
    ultimately show ?thesis using slice_rows[OF ok, of "idx ! s" "idx ! (e - 1) + 1"] r by metis
  qed
  then have "concat (map (\<lambda>(s, e). slice (offs ! (idx ! s)) (offs ! (idx ! (e - 1) + 1)) ids) (adjacent (run_starts idx))) =
    concat (map (\<lambda>(s, e). concat (map (\<lambda>t. csr_rows ids offs ! t) (slice s e idx))) (adjacent (run_starts idx)))"
    by (intro arg_cong[where f = concat] map_cong) auto
  also have "\<dots> = concat (map (\<lambda>t. csr_rows ids offs ! t) (concat (map (\<lambda>(s, e). slice s e idx) (adjacent (run_starts idx)))))"
    by (simp add: concat_map_concat split_def comp_def)
  also have "concat (map (\<lambda>(s, e). slice s e idx) (adjacent (run_starts idx))) = idx"
  proof -
    have "sorted (run_starts idx)" using run_starts_sorted[OF ne] by (rule strict_sorted_imp_sorted)
    from concat_adjacent_slices[OF this, of idx] show ?thesis by (simp add: run_starts_def slice_def)
  qed
  finally show ?thesis .
qed

lemma row_lengths:
  "csr_ok ids offs \<Longrightarrow> t + 1 < length offs \<Longrightarrow> offs ! (t + 1) - offs ! t = length (csr_rows ids offs ! t)"
  using csr_ok_le[of ids offs "offs ! (t + 1)"] by (simp add: csr_rows_nth slice_def)

section \<open>Properties\<close>

text \<open>
  Flat and nested masks are the same data: building a mask from one list of ids per token fails
  exactly when a list is empty, otherwise the rows read back are the given lists; concatenation
  appends the rows of the masks and \<open>prefix\<close> takes the first rows, refusing lengths out of range.
\<close>

theorem mask_operations_refine_rows:
  assumes "\<forall>m \<in> set ms. mask_ok m" and "mask_ok m"
  shows "(if [] \<in> set rows then from_mask_list rows = Inl ValueError
          else \<exists>b. from_mask_list rows = Inr b \<and> mask_ok b \<and> mask_rows b = rows) \<and>
    (\<exists>c. concatenate ms = Inr c \<and> mask_ok c \<and> mask_rows c = concat (map mask_rows ms)) \<and>
    (if n < 0 \<or> int (mask_length m) < n then mask_prefix n m = Inl ValueError
     else \<exists>p. mask_prefix n m = Inr p \<and> mask_ok p \<and> mask_rows p = take (nat n) (mask_rows m))"
  using from_mask_list_spec[of rows] concatenate_spec[OF assms(1)] mask_prefix_spec[OF assms(2), of n] by blast

definition demo_mask :: sampling_mask where
  "demo_mask = \<lparr>mask_ids = [5, 6, 7, 8], mask_offsets = [0, 2, 3, 4]\<rparr>"

lemma demo_mask_ok: "mask_ok demo_mask"
  by code_simp

theorem mask_operations_refine_rows_witness:
  "(\<exists>c. concatenate [demo_mask, demo_mask] = Inr c \<and> mask_rows c = [[5, 6], [7], [8], [5, 6], [7], [8]]) \<and>
   (\<exists>p. mask_prefix 2 demo_mask = Inr p \<and> mask_rows p = [[5, 6], [7]])"
proof -
  have r: "mask_rows demo_mask = [[5, 6], [7], [8]] \<and> mask_length demo_mask = 3" by code_simp
  have "\<forall>m \<in> set [demo_mask, demo_mask]. mask_ok m" using demo_mask_ok by simp
  from mask_operations_refine_rows[OF this demo_mask_ok, of _ 2] r show ?thesis by auto
qed

text \<open>
  Selecting positions, as a range or by gluing runs of consecutive positions into single
  slices, returns the selected rows one after the other and their lengths, and fails exactly when a
  position is out of range.
\<close>

theorem select_masks_correct:
  assumes "mask_ok m"
  shows "select_masks (Indices is) m =
      (if \<exists>i \<in> set is. i < 0 \<or> int (mask_length m) \<le> i then Inl ValueError
       else Inr (concat (map (\<lambda>i. mask_rows m ! nat i) is), map (\<lambda>i. length (mask_rows m ! nat i)) is)) \<and>
    select_masks (Range a b) m =
      (if a < b \<and> (a < 0 \<or> int (mask_length m) < b) then Inl ValueError
       else Inr (concat (map (\<lambda>t. mask_rows m ! t) [nat a..<nat b]), map (\<lambda>t. length (mask_rows m ! t)) [nat a..<nat b]))"
proof
  have ok: "csr_ok (mask_ids m) (mask_offsets m)" using assms by (simp add: mask_ok_def)
  have ne: "mask_offsets m \<noteq> []" using ok by (simp add: csr_ok_def)
  show "select_masks (Indices is) m =
      (if \<exists>i \<in> set is. i < 0 \<or> int (mask_length m) \<le> i then Inl ValueError
       else Inr (concat (map (\<lambda>i. mask_rows m ! nat i) is), map (\<lambda>i. length (mask_rows m ! nat i)) is))"
  proof (cases "\<exists>i \<in> set is. i < 0 \<or> int (mask_length m) \<le> i")
    case True
    then have "list_ex (\<lambda>i. i < 0 \<or> int (mask_length m) \<le> i) is" by (simp add: list_ex_iff)
    then show ?thesis using True by (simp add: select_masks_def)
  next
    case False
    then have "\<not> list_ex (\<lambda>i. i < 0 \<or> int (mask_length m) \<le> i) is" by (simp add: list_ex_iff)
    moreover have b: "\<forall>i \<in> set (map nat is). i + 1 < length (mask_offsets m)"
      using False ne by (auto simp: mask_length_def not_le not_less nat_less_iff)
    moreover have "map (\<lambda>t. mask_offsets m ! (t + 1) - mask_offsets m ! t) (map nat is) =
        map (\<lambda>i. length (mask_rows m ! nat i)) is"
      using b row_lengths[OF ok] by (simp add: mask_rows_def)
    ultimately show ?thesis using False selected_runs[OF ok, of "map nat is"]
      by (simp add: select_masks_def mask_rows_def Let_def comp_def del: map_map) (simp add: comp_def)
  qed
  show "select_masks (Range a b) m =
      (if a < b \<and> (a < 0 \<or> int (mask_length m) < b) then Inl ValueError
       else Inr (concat (map (\<lambda>t. mask_rows m ! t) [nat a..<nat b]), map (\<lambda>t. length (mask_rows m ! t)) [nat a..<nat b]))"
  proof (cases "a < b \<and> 0 \<le> a \<and> b \<le> int (mask_length m)")
    case True
    then have "nat a \<le> nat b" "nat b < length (mask_offsets m)" using ne by (auto simp: mask_length_def nat_less_iff)
    then show ?thesis using True slice_rows[OF ok, of "nat a" "nat b"] row_lengths[OF ok]
      by (auto simp: select_masks_def mask_rows_def)
  qed (auto simp: select_masks_def)
qed

theorem select_masks_witness:
  "select_masks (Indices [0, 1, 0]) demo_mask = Inr ([5, 6, 7, 5, 6], [2, 1, 2])"
  unfolding conjunct1[OF select_masks_correct[OF demo_mask_ok]] by code_simp

end
