(* ===== verification/Store_Plan.thy ===== *)
theory Store_Plan
  imports Sampling_Mask Py_Json
begin

text \<open>
  \<^verbatim>\<open>miles/utils/output_store/plan.py\<close>: a sample's merge plan over the replay arrays that the engine
  stores.  A plan holds, per field, segments of stored objects; appending a response, inserting forced
  tokens, merging turns and stripping a tail edit segments only, and the trainer materializes the
  columns once.  The abstraction \<open>seg_rows\<close> names, row by row, the object row a column takes.  A
  stored reference is the data the source reads of \<^verbatim>\<open>radix_transfer_plugins.StoreRef\<close>: its key and
  the names and shapes of its arrays.
\<close>

record field_spec =
  spec_name :: string
  spec_shape :: "int list"

record store_ref =
  ref_key :: string
  ref_fields :: "field_spec list"

text \<open>Errors: \<open>Store_Plan_Error\<close> is the source's own, the rest are Python's.\<close>

datatype store_error = Store_Plan_Error | Store_Raised py_exn

text \<open>A segment; \<open>None\<close> stands for rows no object holds.\<close>

record seg =
  seg_ref :: "store_ref option"
  seg_start :: int
  seg_end :: int

abbreviation Seg :: "store_ref option \<Rightarrow> int \<Rightarrow> int \<Rightarrow> seg" where
  "Seg r s e \<equiv> \<lparr>seg_ref = r, seg_start = s, seg_end = e\<rparr>"

text \<open>The leaf classes of \<open>Segments\<close>, with their class variables.\<close>

datatype field = Routed_Experts | Indexer_Topk | Sampling_Mask_Field

definition FIELDS :: "field list" where
  "FIELDS = [Routed_Experts, Indexer_Topk, Sampling_Mask_Field]"

fun field_name :: "field \<Rightarrow> string" where
  "field_name Routed_Experts = ''routed_experts''"
| "field_name Indexer_Topk = ''indexer_topk''"
| "field_name Sampling_Mask_Field = ''sampling_mask''"

definition MASK_LENGTHS :: string where
  "MASK_LENGTHS = ''output_token_sampling_mask_lengths''"

definition MASK_TOKEN_IDS :: string where
  "MASK_TOKEN_IDS = ''output_token_sampling_mask_token_ids''"

definition MASK_SUPPORT_LOGPROBS :: string where
  "MASK_SUPPORT_LOGPROBS = ''output_token_sampling_logprobs''"

fun stored :: "field \<Rightarrow> string list" where
  "stored Routed_Experts = [''routed_experts'']"
| "stored Indexer_Topk = [''indexer_topk'']"
| "stored Sampling_Mask_Field = [MASK_LENGTHS, MASK_TOKEN_IDS, MASK_SUPPORT_LOGPROBS]"

fun request_key :: "field \<Rightarrow> string" where
  "request_key Routed_Experts = ''return_routed_experts''"
| "request_key Indexer_Topk = ''return_indexer_topk''"
| "request_key Sampling_Mask_Field = ''return_sampling_mask''"

fun is_forward :: "field \<Rightarrow> bool" where
  "is_forward Sampling_Mask_Field = False"
| "is_forward _ = True"

fun start_key :: "field \<Rightarrow> string option" where
  "start_key Routed_Experts = Some ''routed_experts_start_len''"
| "start_key _ = None"

section \<open>Segments of one field\<close>

definition seg_len :: "seg \<Rightarrow> int" where
  "seg_len s = seg_end s - seg_start s"

definition num_rows :: "seg list \<Rightarrow> int" where
  "num_rows segs = sum_list (map seg_len segs)"

fun prefix_segs :: "int \<Rightarrow> seg list \<Rightarrow> seg list" where
  "prefix_segs n [] = []"
| "prefix_segs n (s # segs) =
     (if n \<le> 0 then []
      else let k = min n (seg_len s) in s\<lparr>seg_end := seg_start s + k\<rparr> # prefix_segs (n - k) segs)"

fun expected_rows :: "field \<Rightarrow> int \<Rightarrow> int \<Rightarrow> int" where
  "expected_rows Sampling_Mask_Field num_tokens response_length = response_length"
| "expected_rows _ num_tokens response_length = num_tokens - 1"

definition whole_object ::
  "field \<Rightarrow> store_ref option \<Rightarrow> (string \<times> field_spec) list \<Rightarrow> int \<Rightarrow> bool \<Rightarrow> store_error + seg list" where
  "whole_object f ref specs rows no_output_abort =
     (case map_of specs (hd (stored f)) of
        None \<Rightarrow> if no_output_abort \<and> (ref = None \<or> rows = 0) then Inr [] else Inl Store_Plan_Error
      | Some spec \<Rightarrow>
          (case spec_shape spec of
             [] \<Rightarrow> Inl (Store_Raised IndexError)
           | d0 # _ \<Rightarrow> if d0 \<noteq> rows then Inl Store_Plan_Error
               else Inr (if rows \<noteq> 0 then [Seg ref 0 rows] else [])))"

text \<open>The start position of a request; only integers are ever written there.\<close>

definition start_of :: "field \<Rightarrow> obj \<Rightarrow> int" where
  "start_of f request =
     (case start_key f of None \<Rightarrow> 0 | Some k \<Rightarrow> (case dget request k of JInt i \<Rightarrow> i | _ \<Rightarrow> 0))"

definition from_ref ::
  "field \<Rightarrow> store_ref option \<Rightarrow> (string \<times> field_spec) list \<Rightarrow> obj \<Rightarrow> int \<Rightarrow> int \<Rightarrow> bool \<Rightarrow> store_error + seg list" where
  "from_ref f ref specs request num_tokens response_length no_output_abort =
     (let rows = expected_rows f num_tokens response_length
      in if is_forward f
         then let start = start_of f request; covered = (if start \<noteq> 0 then [Seg None 0 start] else [])
              in rbind (whole_object f ref specs (rows - start) no_output_abort) (\<lambda>segs. Inr (covered @ segs))
         else whole_object f ref specs rows no_output_abort)"

text \<open>Appending a later response: a forward field keeps the rows the new response starts after.\<close>

definition covered_rows :: "seg list \<Rightarrow> int" where
  "covered_rows new = (case new of s # _ \<Rightarrow> if seg_ref s = None then seg_len s else 0 | [] \<Rightarrow> 0)"

definition append_segs :: "field \<Rightarrow> seg list \<Rightarrow> seg list \<Rightarrow> store_error + seg list" where
  "append_segs f old new =
     (if is_forward f
      then let c = covered_rows new
           in if num_rows old < c then Inl Store_Plan_Error
              else Inr (prefix_segs c old @ drop (if c \<noteq> 0 then 1 else 0) new)
      else Inr (old @ new))"

definition insert_segs :: "field \<Rightarrow> int \<Rightarrow> seg list \<Rightarrow> seg list" where
  "insert_segs f n segs = (if is_forward f then segs else if n \<noteq> 0 then segs @ [Seg None 0 n] else segs)"

section \<open>Plans\<close>

record store_plan =
  plan_fields :: "(field \<times> seg list) list"
  owned_refs :: "store_ref list"

definition union_refs :: "store_ref list \<Rightarrow> store_ref list \<Rightarrow> store_ref list" where
  "union_refs a b = map snd (fold (\<lambda>r. AList.update (ref_key r) r) (a @ b) [])"

definition zip_fields ::
  "(field \<Rightarrow> seg list \<Rightarrow> seg list \<Rightarrow> store_error + seg list) \<Rightarrow> store_plan \<Rightarrow> store_plan \<Rightarrow>
   store_error + (field \<times> seg list) list" where
  "zip_fields combine a b =
     (if fst ` set (plan_fields a) \<noteq> fst ` set (plan_fields b) then Inl Store_Plan_Error
      else rmap (\<lambda>(f, segs). rbind (combine f segs (the (map_of (plan_fields b) f))) (\<lambda>out. Inr (f, out))) (plan_fields a))"

definition from_response ::
  "store_ref option \<Rightarrow> obj \<Rightarrow> int \<Rightarrow> int \<Rightarrow> bool \<Rightarrow> store_error + store_plan" where
  "from_response ref request num_tokens response_length no_output_abort =
     (let specs = (case ref of None \<Rightarrow> [] | Some r \<Rightarrow> rev (map (\<lambda>s. (spec_name s, s)) (ref_fields r)))
      in rbind (rmap (\<lambda>f. rbind (from_ref f ref specs request num_tokens response_length no_output_abort) (\<lambda>segs. Inr (f, segs)))
                  (filter (\<lambda>f. truthy (dget request (request_key f))) FIELDS)) (\<lambda>fields.
         Inr \<lparr>plan_fields = fields, owned_refs = (case ref of None \<Rightarrow> [] | Some r \<Rightarrow> [r])\<rparr>))"

definition append_response :: "store_plan \<Rightarrow> store_plan \<Rightarrow> store_error + store_plan" where
  "append_response p new =
     rbind (zip_fields append_segs p new) (\<lambda>fields.
       Inr \<lparr>plan_fields = fields, owned_refs = union_refs (owned_refs p) (owned_refs new)\<rparr>)"

definition adopt_refs :: "store_ref list \<Rightarrow> store_plan \<Rightarrow> store_plan" where
  "adopt_refs refs p = p\<lparr>owned_refs := union_refs (owned_refs p) refs\<rparr>"

definition insert_tokens :: "int \<Rightarrow> store_plan \<Rightarrow> store_plan" where
  "insert_tokens n p = p\<lparr>plan_fields := map (\<lambda>(f, segs). (f, insert_segs f n segs)) (plan_fields p)\<rparr>"

definition merge_turn :: "store_plan \<Rightarrow> store_plan \<Rightarrow> int \<Rightarrow> store_error + store_plan" where
  "merge_turn p later observation_tokens = append_response (insert_tokens observation_tokens p) later"

definition strip_tail :: "int \<Rightarrow> store_plan \<Rightarrow> store_plan" where
  "strip_tail n p = p\<lparr>plan_fields := map (\<lambda>(f, segs). (f, prefix_segs (num_rows segs - n) segs)) (plan_fields p)\<rparr>"

definition validate_plan :: "store_plan \<Rightarrow> int \<Rightarrow> int \<Rightarrow> store_error + unit" where
  "validate_plan p num_tokens response_length =
     guard Store_Plan_Error (list_all (\<lambda>(f, segs). num_rows segs = expected_rows f num_tokens response_length) (plan_fields p))"

definition combine_plans ::
  "store_plan option \<Rightarrow> store_plan option \<Rightarrow> (store_plan \<Rightarrow> store_plan \<Rightarrow> store_error + store_plan) \<Rightarrow>
   store_error + store_plan option" where
  "combine_plans a b combine =
     (case (a, b) of
        (None, None) \<Rightarrow> Inr None
      | (Some p, Some q) \<Rightarrow> rbind (combine p q) (\<lambda>r. Inr (Some r))
      | _ \<Rightarrow> Inl Store_Plan_Error)"

text \<open>The plan on the wire: segments name their object by key, the owned references are listed once.\<close>

record plan_dict =
  wire_fields :: "(string \<times> (string option \<times> int \<times> int) list) list"
  wire_refs :: "store_ref list"

definition plan_to_dict :: "store_plan \<Rightarrow> plan_dict" where
  "plan_to_dict p =
     \<lparr>wire_fields = map (\<lambda>(f, segs). (field_name f, map (\<lambda>s. (map_option ref_key (seg_ref s), seg_start s, seg_end s)) segs))
        (plan_fields p),
      wire_refs = owned_refs p\<rparr>"

definition seg_from_dict :: "store_ref list \<Rightarrow> string option \<times> int \<times> int \<Rightarrow> store_error + seg" where
  "seg_from_dict refs = (\<lambda>(k, s, e).
     case k of
       None \<Rightarrow> Inr (Seg None s e)
     | Some key \<Rightarrow>
         (case map_of (rev (map (\<lambda>r. (ref_key r, r)) refs)) key of
            None \<Rightarrow> Inl (Store_Raised KeyError) | Some r \<Rightarrow> Inr (Seg (Some r) s e)))"

definition field_of_name :: "string \<Rightarrow> store_error + field" where
  "field_of_name name =
     (case find (\<lambda>f. field_name f = name) FIELDS of None \<Rightarrow> Inl (Store_Raised KeyError) | Some f \<Rightarrow> Inr f)"

definition plan_from_dict :: "plan_dict \<Rightarrow> store_error + store_plan" where
  "plan_from_dict d =
     rbind (rmap (\<lambda>(name, segs). rbind (field_of_name name) (\<lambda>f.
              rbind (rmap (seg_from_dict (wire_refs d)) segs) (\<lambda>segs. Inr (f, segs)))) (wire_fields d)) (\<lambda>fields.
     Inr \<lparr>plan_fields = fields, owned_refs = wire_refs d\<rparr>)"

section \<open>Materialization\<close>

text \<open>A log-probability, copied and never computed with.\<close>

datatype logp = Neg_Inf | Logp rat

text \<open>Stored arrays: forward rows with the shape \<open>layers, topk\<close> of a row, integers, log-probabilities.
  The objects read are a dictionary from store keys to named arrays.\<close>

datatype stored_array = Rows "nat \<times> nat" "int list list list" | Ints "int list" | Logps "logp list"

type_synonym objects = "(string \<times> (string \<times> stored_array) list) list"

datatype column = Forward_Column "int list list list" | Id_Column "int list" | Offset_Column "nat list"
  | Candidate_Column "int list list" | Candidate_Logps "logp list list"

definition lookup_array :: "objects \<Rightarrow> string \<Rightarrow> string \<Rightarrow> store_error + stored_array" where
  "lookup_array objects key name =
     (case map_of objects key of
        None \<Rightarrow> Inl (Store_Raised KeyError)
      | Some arrays \<Rightarrow> (case map_of arrays name of None \<Rightarrow> Inl (Store_Raised KeyError) | Some a \<Rightarrow> Inr a))"

definition ref_key_of :: "seg \<Rightarrow> store_error + string" where
  "ref_key_of s = (case seg_ref s of None \<Rightarrow> Inl (Store_Raised AttributeError) | Some r \<Rightarrow> Inr (ref_key r))"

fun forward_rows :: "stored_array \<Rightarrow> store_error + (nat \<times> nat) \<times> int list list list" where
  "forward_rows (Rows dims rows) = Inr (dims, rows)"
| "forward_rows _ = Inl (Store_Raised TypeError)"

fun int_array :: "stored_array \<Rightarrow> store_error + int list" where
  "int_array (Ints xs) = Inr xs"
| "int_array _ = Inl (Store_Raised TypeError)"

fun logp_array :: "stored_array \<Rightarrow> store_error + logp list" where
  "logp_array (Logps xs) = Inr xs"
| "logp_array _ = Inl (Store_Raised TypeError)"

text \<open>\<open>check\<close>: routed experts must not be all zero, an indexer array has the model's streams.\<close>

fun check_rows :: "field \<Rightarrow> nat option \<Rightarrow> (nat \<times> nat) \<times> int list list list \<Rightarrow> store_error + unit" where
  "check_rows Routed_Experts streams (dims, rows) =
     guard Store_Plan_Error (concat (concat rows) = [] \<or> list_ex (\<lambda>x. x \<noteq> 0) (concat (concat rows)))"
| "check_rows Indexer_Topk streams (dims, rows) =
     guard Store_Plan_Error (case streams of None \<Rightarrow> True | Some n \<Rightarrow> fst dims = n)"
| "check_rows Sampling_Mask_Field streams _ = Inr ()"

definition materialize_forward :: "field \<Rightarrow> objects \<Rightarrow> nat option \<Rightarrow> seg list \<Rightarrow> store_error + int list list list" where
  "materialize_forward f objects streams segs =
     rbind (rmap ref_key_of segs) (\<lambda>keys.
     rbind (rmap (\<lambda>key. rbind (rbind (lookup_array objects key (hd (stored f))) forward_rows) (check_rows f streams))
              (rev (remdups (rev keys)))) (\<lambda>_.
     rbind (rmap (\<lambda>(key, s). rbind (rbind (lookup_array objects key (hd (stored f))) forward_rows)
              (\<lambda>(dims, rows). Inr (dims, slice (nat (seg_start s)) (nat (seg_end s)) rows))) (zip keys segs)) (\<lambda>parts.
     if parts = [] \<or> \<not> list_all (\<lambda>p. fst p = fst (hd parts)) parts then Inl (Store_Raised ValueError)
     else Inr (concat (map snd parts)))))"

fun cumsum :: "nat \<Rightarrow> nat list \<Rightarrow> nat list" where
  "cumsum a [] = [a]"
| "cumsum a (x # xs) = a # cumsum (a + x) xs"

text \<open>The parts one segment adds to the mask: row lengths, ids, log-probabilities and forced flags.\<close>

type_synonym mask_part = "nat list \<times> int list \<times> logp list \<times> bool list"

definition forced_part :: "int list \<Rightarrow> nat \<Rightarrow> nat \<Rightarrow> mask_part" where
  "forced_part response_tokens position n =
     (replicate n 1, slice position (position + n) response_tokens, replicate n (Logp 0), replicate n True)"

definition stored_part :: "objects \<Rightarrow> bool \<Rightarrow> string \<Rightarrow> nat \<Rightarrow> nat \<Rightarrow> store_error + mask_part" where
  "stored_part objects support_mode key start stop =
     rbind (rbind (lookup_array objects key MASK_LENGTHS) int_array) (\<lambda>lengths.
     let lens = map nat lengths; starts = cumsum 0 lens
     in if length starts \<le> start \<or> length starts \<le> stop then Inl (Store_Raised IndexError)
        else let a = starts ! start; b = starts ! stop
        in rbind (rbind (lookup_array objects key MASK_TOKEN_IDS) int_array) (\<lambda>ids.
           rbind (if support_mode then rbind (lookup_array objects key MASK_SUPPORT_LOGPROBS) logp_array else Inr []) (\<lambda>lps.
           Inr (slice start stop lens, slice a b ids, slice a b lps, replicate (stop - start) False))))"

fun mask_parts :: "objects \<Rightarrow> int list \<Rightarrow> bool \<Rightarrow> nat \<Rightarrow> seg list \<Rightarrow> store_error + mask_part" where
  "mask_parts objects tokens mode position [] = Inr ([], [], [], [])"
| "mask_parts objects tokens mode position (s # segs) =
     (let n = nat (seg_len s)
      in rbind (case seg_ref s of
                  None \<Rightarrow> Inr (forced_part tokens position n)
                | Some r \<Rightarrow> stored_part objects mode (ref_key r) (nat (seg_start s)) (nat (seg_end s))) (\<lambda>(l, i, p, f).
         rbind (mask_parts objects tokens mode (position + n) segs) (\<lambda>(l', i', p', f').
         Inr (l @ l', i @ i', p @ p', f @ f'))))"

definition check_support :: "int list \<Rightarrow> nat list \<Rightarrow> int list \<Rightarrow> bool \<Rightarrow> store_error + unit" where
  "check_support ids offsets sampled exactly_once =
     (let rows = csr_rows ids offsets; hits = map2 (\<lambda>row t. length (filter (\<lambda>x. x = t) row)) rows sampled
      in if list_ex (\<lambda>(a, b). a = b) (adjacent offsets) then Inl Store_Plan_Error
         else if last offsets \<noteq> length ids then Inl (Store_Raised ValueError)
         else if length sampled < length rows then Inl (Store_Raised IndexError)
         else guard Store_Plan_Error (list_all (\<lambda>h. if exactly_once then h = 1 else h \<noteq> 0) hits))"

text \<open>Candidates of the support mode: each row padded to \<open>k\<close>, forced rows padding only.\<close>

definition support_topk :: "int list \<Rightarrow> nat list \<Rightarrow> logp list \<Rightarrow> bool list \<Rightarrow> nat \<Rightarrow>
    store_error + int list list \<times> logp list list" where
  "support_topk ids offsets lps forced k =
     (if list_ex (\<lambda>(row, fc). k < length row \<and> \<not> fc) (zip (csr_rows ids offsets) forced) then Inl Store_Plan_Error
      else let pad = (\<lambda>fill row fc. if fc then replicate k fill else row @ replicate (k - length row) fill)
           in Inr (map2 (pad (- 1)) (csr_rows ids offsets) forced,
                   map2 (\<lambda>row fc. if fc then replicate k Neg_Inf else row @ replicate (k - length row) Neg_Inf)
                     (csr_rows lps offsets) forced))"

definition materialize_mask :: "objects \<Rightarrow> int list \<Rightarrow> nat \<Rightarrow> seg list \<Rightarrow> store_error + (string \<times> column) list" where
  "materialize_mask objects tokens k segs =
     rbind (mask_parts objects tokens (0 < k) 0 segs) (\<lambda>(lengths, ids, lps, forced).
     let offsets = cumsum 0 lengths
     in rbind (check_support ids offsets tokens (0 < k)) (\<lambda>_.
        let columns = [(''rollout_sampling_mask_ids'', Id_Column ids), (''rollout_sampling_mask_offsets'', Offset_Column offsets)]
        in if 0 < k
           then rbind (support_topk ids offsets lps forced k) (\<lambda>(cand, cand_lps).
                Inr (columns @ [(''rollout_topk_token_ids'', Candidate_Column cand), (''rollout_topk_log_probs'', Candidate_Logps cand_lps)]))
           else Inr columns))"

definition materialize_field ::
  "objects \<Rightarrow> int list \<Rightarrow> nat \<Rightarrow> nat option \<Rightarrow> field \<Rightarrow> seg list \<Rightarrow> store_error + (string \<times> column) list" where
  "materialize_field objects tokens k streams f segs =
     (case f of
        Sampling_Mask_Field \<Rightarrow> materialize_mask objects tokens k segs
      | _ \<Rightarrow> rbind (materialize_forward f objects streams segs) (\<lambda>rows. Inr [(''rollout_'' @ field_name f, Forward_Column rows)]))"

definition materialize_plan ::
  "objects \<Rightarrow> int list \<Rightarrow> nat \<Rightarrow> nat option \<Rightarrow> store_plan \<Rightarrow> store_error + (string \<times> column) list" where
  "materialize_plan objects tokens k streams p =
     rfold (\<lambda>(f, segs) columns. rbind (materialize_field objects tokens k streams f segs) (\<lambda>new.
        Inr (fold (\<lambda>(n, c). AList.update n c) new columns))) (plan_fields p) []"

text \<open>What the trainer reads: each object once, with the arrays any field needs of it.\<close>

definition needed :: "field \<Rightarrow> nat \<Rightarrow> string list" where
  "needed f k = (case f of Sampling_Mask_Field \<Rightarrow> if k \<noteq> 0 then stored f else [MASK_LENGTHS, MASK_TOKEN_IDS] | _ \<Rightarrow> stored f)"

definition add_read :: "string list \<Rightarrow> seg \<Rightarrow> (string \<times> store_ref \<times> string list) list \<Rightarrow> (string \<times> store_ref \<times> string list) list" where
  "add_read names s reads =
     (case seg_ref s of
        None \<Rightarrow> reads
      | Some r \<Rightarrow>
          let (r0, have) = (case map_of reads (ref_key r) of None \<Rightarrow> (r, []) | Some e \<Rightarrow> e)
          in AList.update (ref_key r) (r0, have @ filter (\<lambda>n. n \<notin> set have) names) reads)"

definition store_reads :: "store_plan list \<Rightarrow> nat \<Rightarrow> (string \<times> store_ref \<times> string list) list" where
  "store_reads plans k =
     fold (\<lambda>p. fold (\<lambda>(f, segs). fold (add_read (needed f k)) segs) (plan_fields p)) plans []"

section \<open>Rows of a plan\<close>

text \<open>The object row that supplies each row of a field; \<open>None\<close> for rows no object holds.\<close>

type_synonym row_source = "(string \<times> int) option"

definition seg_rows :: "seg \<Rightarrow> row_source list" where
  "seg_rows s = (case seg_ref s of
      None \<Rightarrow> replicate (nat (seg_len s)) None
    | Some r \<Rightarrow> map (\<lambda>i. Some (ref_key r, i)) [seg_start s..seg_end s - 1])"

definition rows_of :: "seg list \<Rightarrow> row_source list" where
  "rows_of segs = concat (map seg_rows segs)"

definition seg_ok :: "seg \<Rightarrow> bool" where
  "seg_ok s \<longleftrightarrow> 0 \<le> seg_start s \<and> seg_start s \<le> seg_end s"

abbreviation segs_ok :: "seg list \<Rightarrow> bool" where
  "segs_ok segs \<equiv> \<forall>s \<in> set segs. seg_ok s"

lemma rows_of_simps [simp]: "rows_of [] = []" "rows_of (s # segs) = seg_rows s @ rows_of segs"
  "rows_of (xs @ ys) = rows_of xs @ rows_of ys"
  by (simp_all add: rows_of_def)

lemma num_rows_simps [simp]: "num_rows [] = 0" "num_rows (s # segs) = seg_len s + num_rows segs"
  "num_rows (xs @ ys) = num_rows xs + num_rows ys"
  by (simp_all add: num_rows_def)

lemma seg_len_nonneg: "seg_ok s \<Longrightarrow> 0 \<le> seg_len s"
  by (simp add: seg_ok_def seg_len_def)

lemma num_rows_nonneg: "segs_ok segs \<Longrightarrow> 0 \<le> num_rows segs"
  by (induction segs) (auto simp: seg_len_nonneg)

lemma length_seg_rows: "length (seg_rows s) = nat (seg_len s)"
  by (simp add: seg_rows_def seg_len_def split: option.split)

lemma length_rows_of: "segs_ok segs \<Longrightarrow> int (length (rows_of segs)) = num_rows segs"
  by (induction segs) (auto simp: length_seg_rows seg_len_nonneg)

lemma seg_rows_take:
  assumes "seg_ok s" and "0 \<le> n" and "n \<le> seg_len s"
  shows "seg_rows (s\<lparr>seg_end := seg_start s + n\<rparr>) = take (nat n) (seg_rows s)"
proof -
  have "[seg_start s..seg_start s + n - 1] = take (nat n) [seg_start s..seg_end s - 1]"
    using assms by (intro nth_equalityI) (auto simp: seg_len_def nth_upto)
  then show ?thesis using assms by (auto simp: seg_rows_def seg_len_def take_map split: option.split)
qed

lemma prefix_rows: "segs_ok segs \<Longrightarrow> rows_of (prefix_segs n segs) = take (nat n) (rows_of segs)"
proof (induction n segs rule: prefix_segs.induct)
  case (2 n s segs)
  show ?case
  proof (cases "n \<le> 0")
    case False
    then have len: "0 \<le> seg_len s" "0 < n" "seg_ok s" using 2(2) by (auto simp: seg_len_nonneg)
    have "rows_of (prefix_segs (n - min n (seg_len s)) segs) = take (nat (n - min n (seg_len s))) (rows_of segs)"
      using 2 False by simp
    moreover have "nat (n - min n (seg_len s)) = nat n - nat (seg_len s)" using len by (auto simp: min_def nat_diff_distrib)
    moreover have "seg_rows (s\<lparr>seg_end := seg_start s + min n (seg_len s)\<rparr>) = take (nat n) (seg_rows s)"
      using seg_rows_take[OF len(3), of "min n (seg_len s)"] len by (auto simp: min_def length_seg_rows)
    ultimately show ?thesis using False by (simp add: Let_def length_seg_rows)
  qed simp
qed simp

lemma prefix_ok: "segs_ok segs \<Longrightarrow> segs_ok (prefix_segs n segs)"
proof (induction n segs rule: prefix_segs.induct)
  case (2 n s segs)
  then show ?case by (auto simp: Let_def seg_ok_def seg_len_def)
qed simp

lemma prefix_num_rows: "segs_ok segs \<Longrightarrow> 0 \<le> n \<Longrightarrow> n \<le> num_rows segs \<Longrightarrow> num_rows (prefix_segs n segs) = n"
  using length_rows_of[of "prefix_segs n segs"] length_rows_of[of segs] prefix_rows[of segs n] prefix_ok[of segs n] by auto

lemma covered_drop:
  assumes "segs_ok new"
  shows "rows_of (drop (if covered_rows new \<noteq> 0 then 1 else 0) new) = drop (nat (covered_rows new)) (rows_of new) \<and>
    0 \<le> covered_rows new \<and> num_rows (drop (if covered_rows new \<noteq> 0 then 1 else 0) new) = num_rows new - covered_rows new"
  using assms by (cases new) (auto simp: covered_rows_def length_seg_rows seg_len_nonneg seg_rows_def)

lemma append_forward:
  assumes "is_forward f" and "segs_ok old" and "segs_ok new" and "covered_rows new \<le> num_rows old"
  shows "\<exists>out. append_segs f old new = Inr out \<and> segs_ok out \<and> num_rows out = num_rows new \<and>
    rows_of out = take (nat (covered_rows new)) (rows_of old) @ drop (nat (covered_rows new)) (rows_of new)"
  using assms covered_drop[OF assms(3)] prefix_rows[OF assms(2), of "covered_rows new"] prefix_ok[OF assms(2)]
    prefix_num_rows[OF assms(2), of "covered_rows new"]
  by (auto simp: append_segs_def Let_def dest: in_set_dropD)

text \<open>
  Editing a field's segments is editing its rows: a prefix takes the first rows; appending to a forward
  field keeps exactly the rows the new response starts after and takes the rest from the new
  response, failing only when fewer rows precede; the sampling mask concatenates, and inserted
  tokens add that many rows no object holds.
\<close>

theorem segment_edits_refine_rows:
  assumes "segs_ok old" and "segs_ok new" and "0 \<le> n"
  shows "rows_of (prefix_segs n old) = take (nat n) (rows_of old) \<and>
    (is_forward f \<longrightarrow> insert_segs f n old = old \<and>
      (case append_segs f old new of
         Inl e \<Rightarrow> e = Store_Plan_Error \<and> length (rows_of old) < nat (covered_rows new)
       | Inr out \<Rightarrow> rows_of out = take (nat (covered_rows new)) (rows_of old) @ drop (nat (covered_rows new)) (rows_of new))) \<and>
    (\<not> is_forward f \<longrightarrow> rows_of (insert_segs f n old) = rows_of old @ replicate (nat n) None \<and>
      (\<exists>out. append_segs f old new = Inr out \<and> rows_of out = rows_of old @ rows_of new))"
proof (intro conjI impI)
  show "rows_of (prefix_segs n old) = take (nat n) (rows_of old)" by (rule prefix_rows[OF assms(1)])
next
  assume f: "is_forward f"
  show "insert_segs f n old = old" using f by (simp add: insert_segs_def)
  show "case append_segs f old new of
         Inl e \<Rightarrow> e = Store_Plan_Error \<and> length (rows_of old) < nat (covered_rows new)
       | Inr out \<Rightarrow> rows_of out = take (nat (covered_rows new)) (rows_of old) @ drop (nat (covered_rows new)) (rows_of new)"
  proof (cases "num_rows old < covered_rows new")
    case True
    then have "length (rows_of old) < nat (covered_rows new)" using length_rows_of[OF assms(1)] by linarith
    then show ?thesis using True f by (simp add: append_segs_def)
  next
    case False
    then show ?thesis using append_forward[OF f assms(1,2)] by auto
  qed
next
  assume f: "\<not> is_forward f"
  show "rows_of (insert_segs f n old) = rows_of old @ replicate (nat n) None"
    using f by (simp add: insert_segs_def seg_rows_def seg_len_def)
  show "\<exists>out. append_segs f old new = Inr out \<and> rows_of out = rows_of old @ rows_of new"
    using f by (simp add: append_segs_def)
qed

definition demo_ref :: "string \<Rightarrow> int \<Rightarrow> int \<Rightarrow> store_ref" where
  "demo_ref k experts masks = \<lparr>ref_key = k, ref_fields =
     [\<lparr>spec_name = ''routed_experts'', spec_shape = [experts, 2, 1]\<rparr>, \<lparr>spec_name = MASK_LENGTHS, spec_shape = [masks]\<rparr>]\<rparr>"

theorem segment_edits_refine_rows_witness:
  "rows_of (prefix_segs 1 [Seg (Some (demo_ref ''k'' 3 1)) 0 3]) = [Some (''k'', 0)]"
proof -
  have "segs_ok [Seg (Some (demo_ref ''k'' 3 1)) 0 3]" by (simp add: seg_ok_def)
  moreover have "segs_ok []" by simp
  moreover have "(0 :: int) \<le> 1" by simp
  ultimately have "rows_of (prefix_segs 1 [Seg (Some (demo_ref ''k'' 3 1)) 0 3]) =
      take (nat 1) (rows_of [Seg (Some (demo_ref ''k'' 3 1)) 0 3])"
    by (rule conjunct1[OF segment_edits_refine_rows])
  then show ?thesis by (simp add: rows_of_def seg_rows_def demo_ref_def upto.simps)
qed

section \<open>Valid plans\<close>

definition plan_segs_ok :: "store_plan \<Rightarrow> bool" where
  "plan_segs_ok p \<longleftrightarrow> distinct (map fst (plan_fields p)) \<and> (\<forall>(f, segs) \<in> set (plan_fields p). segs_ok segs)"

definition plan_valid :: "store_plan \<Rightarrow> int \<Rightarrow> int \<Rightarrow> bool" where
  "plan_valid p num_tokens response_length \<longleftrightarrow>
     plan_segs_ok p \<and> validate_plan p num_tokens response_length = Inr ()"

lemma validate_iff:
  "validate_plan p nt rl = Inr () \<longleftrightarrow> (\<forall>(f, segs) \<in> set (plan_fields p). num_rows segs = expected_rows f nt rl)"
  by (simp add: validate_plan_def result_simps list_all_iff)

lemma expected_forward: "is_forward f \<Longrightarrow> expected_rows f nt rl = nt - 1"
  by (cases f) auto

lemma expected_mask: "\<not> is_forward f \<Longrightarrow> expected_rows f nt rl = rl"
  by (cases f) auto

lemma insert_segs_ok: "segs_ok segs \<Longrightarrow> 0 \<le> n \<Longrightarrow> segs_ok (insert_segs f n segs)"
  by (auto simp: insert_segs_def seg_ok_def)

lemma num_rows_insert: "num_rows (insert_segs f n segs) = num_rows segs + (if is_forward f then 0 else n)"
  by (auto simp: insert_segs_def seg_len_def)

text \<open>The rows a field's new response continues from.\<close>

definition continues_within :: "store_plan \<Rightarrow> store_plan \<Rightarrow> bool" where
  "continues_within p new \<longleftrightarrow> fst ` set (plan_fields p) = fst ` set (plan_fields new) \<and>
     (\<forall>(f, segs) \<in> set (plan_fields p). \<forall>new_segs. map_of (plan_fields new) f = Some new_segs \<longrightarrow>
        is_forward f \<longrightarrow> covered_rows new_segs \<le> num_rows segs)"

lemma append_field:
  assumes "segs_ok segs" and "segs_ok new" and "is_forward f \<longrightarrow> covered_rows new \<le> num_rows segs"
    and "num_rows segs = expected_rows f nt1 r1" and "num_rows new = expected_rows f nt2 r2" and "0 \<le> obs"
  shows "\<exists>out. append_segs f (insert_segs f obs segs) new = Inr out \<and> segs_ok out \<and>
     num_rows out = expected_rows f nt2 (r1 + obs + r2)"
proof (cases "is_forward f")
  case True
  then show ?thesis using append_forward[OF True assms(1,2)] assms by (auto simp: insert_segs_def expected_forward)
next
  case False
  then show ?thesis using insert_segs_ok[OF assms(1,6), of f] assms num_rows_insert[of f obs segs]
    by (auto simp: append_segs_def expected_mask)
qed

lemma rmap_fields:
  assumes "\<forall>(f, segs) \<in> set xs. \<exists>out. g f segs = Inr out \<and> Q f out"
  shows "\<exists>ys. rmap (\<lambda>(f, segs). rbind (g f segs) (\<lambda>out. Inr (f, out))) xs = Inr ys \<and>
    map fst ys = map fst xs \<and> (\<forall>(f, out) \<in> set ys. Q f out)"
  using assms by (induction xs) (auto split: prod.splits)

lemma merge_turn_ok:
  assumes "plan_valid a nt1 r1" and "plan_valid b nt2 r2" and "continues_within a b" and "0 \<le> obs"
  shows "\<exists>m. merge_turn a b obs = Inr m \<and> plan_valid m nt2 (r1 + obs + r2) \<and>
    owned_refs m = union_refs (owned_refs a) (owned_refs b)"
proof -
  let ?g = "\<lambda>f segs. append_segs f segs (the (map_of (plan_fields b) f))"
  let ?xs = "plan_fields (insert_tokens obs a)"
  have keys: "fst ` set (plan_fields a) = fst ` set (plan_fields b)" using assms(3) by (simp add: continues_within_def)
  have "\<exists>out. ?g f segs = Inr out \<and> segs_ok out \<and> num_rows out = expected_rows f nt2 (r1 + obs + r2)"
    if "(f, segs) \<in> set ?xs" for f segs
  proof -
    from that obtain segs0 where s0: "(f, segs0) \<in> set (plan_fields a)" "segs = insert_segs f obs segs0"
      by (auto simp: insert_tokens_def)
    then have "f \<in> fst ` set (plan_fields b)" using keys by force
    then obtain new where new: "map_of (plan_fields b) f = Some new" by (metis map_of_eq_None_iff not_Some_eq)
    then have mem: "(f, new) \<in> set (plan_fields b)" by (rule map_of_SomeD)
    have "segs_ok segs0" "segs_ok new" "num_rows segs0 = expected_rows f nt1 r1" "num_rows new = expected_rows f nt2 r2"
      "is_forward f \<longrightarrow> covered_rows new \<le> num_rows segs0"
      using s0(1) mem new assms(1-3) unfolding plan_valid_def plan_segs_ok_def validate_iff continues_within_def by fast+
    from append_field[OF this(1,2,5,3,4) assms(4)] show ?thesis by (simp add: s0(2) new)
  qed
  then obtain ys where r: "rmap (\<lambda>(f, segs). rbind (?g f segs) (\<lambda>out. Inr (f, out))) ?xs = Inr ys"
    and m: "map fst ys = map fst ?xs"
    and q: "\<forall>(f, out) \<in> set ys. segs_ok out \<and> num_rows out = expected_rows f nt2 (r1 + obs + r2)"
    using rmap_fields[of ?xs ?g "\<lambda>f out. segs_ok out \<and> num_rows out = expected_rows f nt2 (r1 + obs + r2)"] by auto
  have same: "map fst ?xs = map fst (plan_fields a)" by (auto simp: insert_tokens_def)
  then have "fst ` set ?xs = fst ` set (plan_fields b)" using keys by (metis list.set_map)
  then have "merge_turn a b obs = Inr \<lparr>plan_fields = ys, owned_refs = union_refs (owned_refs a) (owned_refs b)\<rparr>"
    using r by (simp add: merge_turn_def append_response_def zip_fields_def) (simp add: insert_tokens_def)
  moreover have "distinct (map fst ys)" unfolding m same using assms(1) by (simp add: plan_valid_def plan_segs_ok_def)
  ultimately show ?thesis using q by (auto simp: plan_valid_def plan_segs_ok_def validate_iff)
qed

abbreviation add_ref :: "store_ref \<Rightarrow> (string \<times> store_ref) list \<Rightarrow> (string \<times> store_ref) list" where
  "add_ref r \<equiv> AList.update (ref_key r) r"

lemma add_ref_ok:
  "fst ` set (add_ref r d) = insert (ref_key r) (fst ` set d)"
  "map fst d = map (ref_key \<circ> snd) d \<Longrightarrow> map fst (add_ref r d) = map (ref_key \<circ> snd) (add_ref r d)"
  by (induction d) auto

lemma union_fold_keys: "fst ` set (fold add_ref rs d) = ref_key ` set rs \<union> fst ` set d"
  by (induction rs arbitrary: d) (simp_all add: add_ref_ok(1))

lemma union_fold_ok:
  "map fst d = map (ref_key \<circ> snd) d \<Longrightarrow> dict_ok d \<Longrightarrow>
   map fst (fold add_ref rs d) = map (ref_key \<circ> snd) (fold add_ref rs d) \<and> dict_ok (fold add_ref rs d)"
proof (induction rs arbitrary: d)
  case (Cons r rs)
  show ?case using Cons.IH[OF add_ref_ok(2)[OF Cons.prems(1)] dict_ok_update[OF Cons.prems(2)]] by simp
qed simp

lemma union_refs_keys: "ref_key ` set (union_refs a b) = ref_key ` set a \<union> ref_key ` set b \<and>
    distinct (map ref_key (union_refs a b))"
proof -
  let ?d = "fold add_ref (a @ b) []"
  have "map ref_key (union_refs a b) = map fst ?d" "dict_ok ?d"
    using union_fold_ok[of "[]" "a @ b"] by (simp_all add: union_refs_def del: fold_append)
  moreover have "set (map fst ?d) = ref_key ` set a \<union> ref_key ` set b"
    using union_fold_keys[of "a @ b" "[]"] by (simp add: image_Un del: fold_append)
  ultimately show ?thesis by (metis list.set_map)
qed

lemma whole_object_rows:
  assumes "whole_object f ref specs rows False = Inr segs" and "0 \<le> rows" and "ref = None \<longrightarrow> specs = []"
  shows "segs_ok segs \<and> num_rows segs = rows \<and> covered_rows segs = 0"
  using assms by (auto simp: whole_object_def seg_ok_def seg_len_def covered_rows_def split: option.splits list.splits if_splits)

lemma from_ref_rows:
  assumes "from_ref f ref specs request nt rl False = Inr segs" and "0 \<le> rl" and "0 \<le> start_of f request"
    and "start_of f request \<le> nt - 1" and "ref = None \<longrightarrow> specs = []"
  shows "segs_ok segs \<and> num_rows segs = expected_rows f nt rl \<and> (is_forward f \<longrightarrow> covered_rows segs = start_of f request)"
proof (cases "is_forward f")
  case True
  with assms(1) obtain rest where w: "whole_object f ref specs (nt - 1 - start_of f request) False = Inr rest"
    and segs: "segs = (if start_of f request \<noteq> 0 then [Seg None 0 (start_of f request)] else []) @ rest"
    by (auto simp: from_ref_def Let_def result_simps expected_forward)
  from whole_object_rows[OF w _ assms(5)] True assms show ?thesis
    by (auto simp: segs seg_ok_def seg_len_def covered_rows_def expected_forward)
next
  case False
  then show ?thesis using assms whole_object_rows[of f ref specs rl segs]
    by (auto simp: from_ref_def Let_def expected_mask)
qed

lemma from_response_valid:
  assumes "from_response ref request nt rl False = Inr p" and "0 \<le> rl"
    and "\<forall>f. 0 \<le> start_of f request \<and> start_of f request \<le> nt - 1"
  shows "plan_valid p nt rl \<and> (\<forall>(f, segs) \<in> set (plan_fields p). is_forward f \<longrightarrow> covered_rows segs = start_of f request) \<and>
    owned_refs p = (case ref of None \<Rightarrow> [] | Some r \<Rightarrow> [r])"
proof -
  define specs where "specs = (case ref of None \<Rightarrow> [] | Some r \<Rightarrow> rev (map (\<lambda>s. (spec_name s, s)) (ref_fields r)))"
  define fs where "fs = filter (\<lambda>f. truthy (dget request (request_key f))) FIELDS"
  have n: "ref = None \<longrightarrow> specs = []" by (simp add: specs_def)
  obtain fields where r: "rmap (\<lambda>f. rbind (from_ref f ref specs request nt rl False) (\<lambda>segs. Inr (f, segs))) fs = Inr fields"
    and p: "p = \<lparr>plan_fields = fields, owned_refs = (case ref of None \<Rightarrow> [] | Some r \<Rightarrow> [r])\<rparr>"
    using assms(1) by (auto simp: from_response_def Let_def result_simps specs_def fs_def)
  from r have l: "list_all2 (\<lambda>f e. \<exists>segs. from_ref f ref specs request nt rl False = Inr segs \<and> e = (f, segs)) fs fields"
    by (auto simp: rmap_Inr_iff result_simps elim: list_all2_mono)
  then have m: "map fst fields = fs" by (induction rule: list_all2_induct) auto
  have "distinct fs" by (simp add: fs_def FIELDS_def)
  moreover have "from_ref f ref specs request nt rl False = Inr segs" if "(f, segs) \<in> set fields" for f segs
    using l that by (induction rule: list_all2_induct) auto
  then have "segs_ok segs \<and> num_rows segs = expected_rows f nt rl \<and> (is_forward f \<longrightarrow> covered_rows segs = start_of f request)"
    if "(f, segs) \<in> set fields" for f segs
    using that from_ref_rows[OF _ assms(2) _ _ n, of f request nt segs] assms(3) by blast
  ultimately show ?thesis using m by (auto simp: p plan_valid_def plan_segs_ok_def validate_iff)
qed

text \<open>
  C37.  Merging a turn keeps a sample's plan in step with the sample: if the plan was valid and the new
  response continues no further than the rows that exist, the merged plan exists, is valid for the
  new sequence and for a response longer by the observation and the new output, and owns every
  object that either side owned.
\<close>

theorem merge_turn_keeps_plan_valid:
  assumes "plan_valid a nt1 r1" and "from_response ref request nt2 r2 False = Inr b"
    and "fst ` set (plan_fields a) = fst ` set (plan_fields b)" and "0 \<le> obs" and "0 \<le> r2"
    and "\<forall>f. 0 \<le> start_of f request \<and> start_of f request \<le> nt1 - 1 \<and> start_of f request \<le> nt2 - 1"
  shows "\<exists>m. merge_turn a b obs = Inr m \<and> validate_plan m nt2 (r1 + obs + r2) = Inr () \<and> plan_valid m nt2 (r1 + obs + r2) \<and>
    ref_key ` set (owned_refs m) = ref_key ` set (owned_refs a) \<union> (case ref of None \<Rightarrow> {} | Some r \<Rightarrow> {ref_key r})"
proof -
  have b: "plan_valid b nt2 r2" "\<forall>(f, segs) \<in> set (plan_fields b). is_forward f \<longrightarrow> covered_rows segs = start_of f request"
    "owned_refs b = (case ref of None \<Rightarrow> [] | Some r \<Rightarrow> [r])"
    using from_response_valid[OF assms(2,5)] assms(6) by auto
  have "covered_rows new \<le> num_rows segs"
    if "(f, segs) \<in> set (plan_fields a)" "map_of (plan_fields b) f = Some new" "is_forward f" for f segs new
  proof -
    have "num_rows segs = nt1 - 1" using assms(1) that by (auto simp: plan_valid_def validate_iff expected_forward)
    moreover have "covered_rows new = start_of f request" using b(2) map_of_SomeD[OF that(2)] that(3) by auto
    ultimately show ?thesis using assms(6) by simp
  qed
  then have "continues_within a b" using assms(3) by (auto simp: continues_within_def)
  from merge_turn_ok[OF assms(1) b(1) this assms(4)] show ?thesis
    using union_refs_keys[of "owned_refs a" "owned_refs b"] b(3) by (auto simp: plan_valid_def split: option.splits)
qed

text \<open>The two turns of a conversation: a first response of three tokens with one output, then four
  observed tokens and a response of two, its forward starting after the first turn's rows.\<close>

definition demo_plan :: store_plan where
  "demo_plan = \<lparr>plan_fields = [(Routed_Experts, [Seg (Some (demo_ref ''k1'' 2 1)) 0 2]),
     (Sampling_Mask_Field, [Seg (Some (demo_ref ''k1'' 2 1)) 0 1])], owned_refs = [demo_ref ''k1'' 2 1]\<rparr>"

definition demo_request :: obj where
  "demo_request = [(''return_routed_experts'', JBool True), (''return_sampling_mask'', JBool True),
     (''routed_experts_start_len'', JInt 2)]"

theorem merge_turn_keeps_plan_valid_witness:
  "\<exists>b m. from_response (Some (demo_ref ''k2'' 6 2)) demo_request 9 2 False = Inr b \<and>
     merge_turn demo_plan b 4 = Inr m \<and> validate_plan m 9 7 = Inr () \<and> ref_key ` set (owned_refs m) = {''k1'', ''k2''}"
proof -
  have "plan_valid demo_plan 3 1" by (simp add: plan_valid_def plan_segs_ok_def validate_iff demo_plan_def seg_ok_def seg_len_def)
  moreover obtain b where b: "from_response (Some (demo_ref ''k2'' 6 2)) demo_request 9 2 False = Inr b"
    "map fst (plan_fields b) = [Routed_Experts, Sampling_Mask_Field]"
  proof -
    have "(case from_response (Some (demo_ref ''k2'' 6 2)) demo_request 9 2 False of
       Inr b \<Rightarrow> map fst (plan_fields b) = [Routed_Experts, Sampling_Mask_Field] | Inl e \<Rightarrow> False)" by code_simp
    then show ?thesis using that by (auto split: sum.splits)
  qed
  moreover have "set (map fst (plan_fields b)) = {Routed_Experts, Sampling_Mask_Field}" unfolding b(2) by simp
  then have "fst ` set (plan_fields demo_plan) = fst ` set (plan_fields b)" by (simp add: demo_plan_def)
  moreover have "0 \<le> start_of f demo_request \<and> start_of f demo_request \<le> 3 - 1 \<and> start_of f demo_request \<le> 9 - 1" for f
    by (cases f) (simp_all add: start_of_def demo_request_def dget_def)
  ultimately show ?thesis
    using merge_turn_keeps_plan_valid[of demo_plan 3 1 "Some (demo_ref ''k2'' 6 2)" demo_request 9 2 b 4]
    by (auto simp: demo_plan_def demo_ref_def)
qed

section \<open>Stripping and the wire\<close>

lemma strip_tail_ok:
  assumes "plan_valid p nt rl" and "0 \<le> n" and "n \<le> rl" and "n \<le> nt - 1"
  shows "plan_valid (strip_tail n p) (nt - n) (rl - n)"
proof -
  have "num_rows (prefix_segs (num_rows segs - n) segs) = expected_rows f (nt - n) (rl - n) \<and>
      segs_ok (prefix_segs (num_rows segs - n) segs)" if "(f, segs) \<in> set (plan_fields p)" for f segs
  proof -
    have s: "segs_ok segs" "num_rows segs = expected_rows f nt rl"
      using assms(1) that by (auto simp: plan_valid_def plan_segs_ok_def validate_iff)
    then have "n \<le> num_rows segs" using assms by (cases f) auto
    then show ?thesis using prefix_num_rows[OF s(1), of "num_rows segs - n"] prefix_ok[OF s(1)] s(2) assms(2)
      by (cases f) auto
  qed
  moreover have "map fst (plan_fields (strip_tail n p)) = map fst (plan_fields p)" by (auto simp: strip_tail_def)
  ultimately show ?thesis using assms(1)
    by (auto simp: plan_valid_def plan_segs_ok_def validate_iff strip_tail_def simp del: map_map)
qed

text \<open>
  Stripping the last tokens keeps the plan valid for the shorter sample, keeps in every field the
  rows before them, and drops no owned object.
\<close>

theorem strip_tail_keeps_plan_valid:
  assumes "plan_valid p nt rl" and "0 \<le> n" and "n \<le> rl" and "n \<le> nt - 1"
  shows "validate_plan (strip_tail n p) (nt - n) (rl - n) = Inr () \<and> owned_refs (strip_tail n p) = owned_refs p \<and>
    map (\<lambda>(f, segs). (f, rows_of segs)) (plan_fields (strip_tail n p)) =
    map (\<lambda>(f, segs). (f, take (length (rows_of segs) - nat n) (rows_of segs))) (plan_fields p)"
proof (intro conjI)
  show "validate_plan (strip_tail n p) (nt - n) (rl - n) = Inr ()" using strip_tail_ok[OF assms] by (simp add: plan_valid_def)
  show "owned_refs (strip_tail n p) = owned_refs p" by (simp add: strip_tail_def)
  have "rows_of (prefix_segs (num_rows segs - n) segs) = take (length (rows_of segs) - nat n) (rows_of segs)"
    if "(f, segs) \<in> set (plan_fields p)" for f segs
  proof -
    have s: "segs_ok segs" using assms(1) that by (auto simp: plan_valid_def plan_segs_ok_def)
    have "nat (num_rows segs - n) = length (rows_of segs) - nat n"
      using length_rows_of[OF s] assms(2) by (simp add: nat_diff_distrib')
    then show ?thesis using prefix_rows[OF s] by simp
  qed
  then show "map (\<lambda>(f, segs). (f, rows_of segs)) (plan_fields (strip_tail n p)) =
    map (\<lambda>(f, segs). (f, take (length (rows_of segs) - nat n) (rows_of segs))) (plan_fields p)"
    by (auto simp: strip_tail_def)
qed

theorem strip_tail_keeps_plan_valid_witness:
  "validate_plan (strip_tail 1 demo_plan) 2 0 = Inr ()"
proof -
  have "plan_valid demo_plan 3 1" by (simp add: plan_valid_def plan_segs_ok_def validate_iff demo_plan_def seg_ok_def seg_len_def)
  from strip_tail_keeps_plan_valid[OF this, of 1] show ?thesis by simp
qed

text \<open>Every object a segment takes rows from is owned, once.\<close>

definition refs_owned :: "store_plan \<Rightarrow> bool" where
  "refs_owned p \<longleftrightarrow> distinct (map ref_key (owned_refs p)) \<and>
     (\<forall>(f, segs) \<in> set (plan_fields p). \<forall>s \<in> set segs. \<forall>r. seg_ref s = Some r \<longrightarrow> r \<in> set (owned_refs p))"

lemma field_of_name [simp]: "field_of_name (field_name f) = Inr f"
  by (cases f) (simp_all add: field_of_name_def FIELDS_def)

lemma rmap_inverse: "\<forall>x \<in> set xs. g (f x) = Inr x \<Longrightarrow> rmap g (map f xs) = Inr xs"
  by (induction xs) auto

lemma seg_round_trip:
  assumes "distinct (map ref_key refs)" and "\<forall>r. seg_ref s = Some r \<longrightarrow> r \<in> set refs"
  shows "seg_from_dict refs (map_option ref_key (seg_ref s), seg_start s, seg_end s) = Inr s"
proof (cases "seg_ref s")
  case None
  then show ?thesis by (cases s) (simp add: seg_from_dict_def)
next
  case (Some r)
  then have "(ref_key r, r) \<in> set (rev (map (\<lambda>r. (ref_key r, r)) refs))" using assms(2) by auto
  moreover have "distinct (map fst (rev (map (\<lambda>r. (ref_key r, r)) refs)))" using assms(1)
    by (simp only: rev_map[symmetric] distinct_rev map_map comp_def fst_conv)
  ultimately have "map_of (rev (map (\<lambda>r. (ref_key r, r)) refs)) (ref_key r) = Some r" by (rule map_of_is_SomeI[rotated])
  then show ?thesis using Some by (cases s) (simp add: seg_from_dict_def)
qed

text \<open>
  A plan whose segments use owned objects survives the wire: reading back what \<open>to_dict\<close> wrote gives
  the same plan.
\<close>

theorem plan_dict_round_trip:
  assumes "refs_owned p"
  shows "plan_from_dict (plan_to_dict p) = Inr p"
proof -
  have "rmap (seg_from_dict (owned_refs p)) (map (\<lambda>s. (map_option ref_key (seg_ref s), seg_start s, seg_end s)) segs) = Inr segs"
    if "(f, segs) \<in> set (plan_fields p)" for f segs
    using assms that by (intro rmap_inverse) (auto simp: refs_owned_def intro!: seg_round_trip)
  then have "rmap (\<lambda>(name, segs). rbind (field_of_name name) (\<lambda>f.
              rbind (rmap (seg_from_dict (owned_refs p)) segs) (\<lambda>segs. Inr (f, segs))))
       (map (\<lambda>(f, segs). (field_name f, map (\<lambda>s. (map_option ref_key (seg_ref s), seg_start s, seg_end s)) segs)) (plan_fields p)) =
     Inr (plan_fields p)"
    by (intro rmap_inverse) auto
  then show ?thesis by (simp add: plan_from_dict_def plan_to_dict_def)
qed

theorem plan_dict_round_trip_witness: "plan_from_dict (plan_to_dict demo_plan) = Inr demo_plan"
proof -
  have "refs_owned demo_plan" by (simp add: refs_owned_def demo_plan_def)
  then show ?thesis by (rule plan_dict_round_trip)
qed

section \<open>The materialized mask\<close>

text \<open>The support of a row: its own token where no object holds it, else the object's row.\<close>

definition object_rows :: "objects \<Rightarrow> string \<Rightarrow> int list list" where
  "object_rows objects key =
     (case (lookup_array objects key MASK_LENGTHS, lookup_array objects key MASK_TOKEN_IDS) of
        (Inr (Ints lens), Inr (Ints ids)) \<Rightarrow> csr_rows ids (cumsum 0 (map nat lens)) | _ \<Rightarrow> [])"

definition support :: "objects \<Rightarrow> int list \<Rightarrow> nat \<Rightarrow> row_source \<Rightarrow> int list" where
  "support objects tokens t src =
     (case src of None \<Rightarrow> [tokens ! t] | Some (k, i) \<Rightarrow> object_rows objects k ! nat i)"

fun supports :: "objects \<Rightarrow> int list \<Rightarrow> nat \<Rightarrow> row_source list \<Rightarrow> int list list" where
  "supports objects tokens t [] = []"
| "supports objects tokens t (src # srcs) = support objects tokens t src # supports objects tokens (Suc t) srcs"

text \<open>Every object a segment uses is there, with as many ids as its lengths say.\<close>

definition mask_object_ok :: "objects \<Rightarrow> seg \<Rightarrow> bool" where
  "mask_object_ok objects s \<longleftrightarrow> seg_ok s \<and> (\<forall>r. seg_ref s = Some r \<longrightarrow>
     (\<exists>lens ids. lookup_array objects (ref_key r) MASK_LENGTHS = Inr (Ints lens) \<and>
        lookup_array objects (ref_key r) MASK_TOKEN_IDS = Inr (Ints ids) \<and>
        sum_list (map nat lens) = length ids \<and> seg_end s \<le> int (length lens)))"

lemma length_cumsum [simp]: "length (cumsum a xs) = Suc (length xs)"
  by (induction a xs rule: cumsum.induct) auto

lemma hd_cumsum [simp]: "hd (cumsum a xs) = a" "cumsum a xs \<noteq> []"
  by (cases xs; simp)+

lemma last_cumsum: "last (cumsum a xs) = a + sum_list xs"
  by (induction a xs rule: cumsum.induct) auto

lemma cumsum_ge: "x \<in> set (cumsum a xs) \<Longrightarrow> a \<le> x"
  by (induction a xs rule: cumsum.induct) auto

lemma sorted_cumsum: "sorted (cumsum a xs)"
  by (induction a xs rule: cumsum.induct) (auto dest: cumsum_ge)

lemma adjacent_cumsum: "adjacent (cumsum a xs) = zip (cumsum a xs) (map2 (+) (cumsum a xs) xs)"
proof (induction a xs rule: cumsum.induct)
  case (2 a x xs)
  then show ?case by (cases xs) auto
qed simp

lemma csr_cumsum: "csr_ok ids (cumsum 0 lens) \<longleftrightarrow> sum_list lens = length ids"
  by (auto simp: csr_ok_def last_cumsum sorted_cumsum)

lemma length_csr_cumsum: "length (csr_rows ids (cumsum 0 lens)) = length lens"
  by simp

lemma csr_rows_cumsum_aux: "csr_rows (pre @ concat rows) (cumsum (length pre) (map length rows)) = rows"
proof (induction rows arbitrary: pre)
  case Nil
  then show ?case by (simp add: csr_rows_def)
next
  case (Cons row rows)
  obtain rest where r: "cumsum (length (pre @ row)) (map length rows) = length (pre @ row) # rest"
    by (cases "map length rows") auto
  have "csr_rows (pre @ row @ concat rows) (length pre # length (pre @ row) # rest) =
      slice (length pre) (length (pre @ row)) (pre @ row @ concat rows) #
      csr_rows ((pre @ row) @ concat rows) (cumsum (length (pre @ row)) (map length rows))"
    unfolding r by (simp add: csr_rows_def)
  moreover have "slice (length pre) (length (pre @ row)) (pre @ row @ concat rows) = row"
    using slice_append2[of pre 0 "length row" "row @ concat rows"] by (simp add: slice_def)
  ultimately show ?case using Cons.IH[of "pre @ row"] r by simp
qed

lemma csr_rows_cumsum: "csr_rows (concat rows) (cumsum 0 (map length rows)) = rows"
  using csr_rows_cumsum_aux[of "[]" rows] by simp

lemma map_length_csr:
  assumes "sum_list lens = length ids"
  shows "map length (csr_rows ids (cumsum 0 lens)) = lens"
proof (rule nth_equalityI)
  fix t assume "t < length (map length (csr_rows ids (cumsum 0 lens)))"
  then have t: "t < length lens" by simp
  then have "adjacent (cumsum 0 lens) ! t = (cumsum 0 lens ! t, cumsum 0 lens ! t + lens ! t)"
    by (simp add: adjacent_cumsum)
  then have "cumsum 0 lens ! (t + 1) = cumsum 0 lens ! t + lens ! t" using adjacent_nth[of t "cumsum 0 lens"] t by simp
  then show "map length (csr_rows ids (cumsum 0 lens)) ! t = lens ! t"
    using row_lengths[of ids "cumsum 0 lens" t] t assms by (simp add: csr_cumsum)
qed simp

lemma supports_append: "supports objects tokens t (xs @ ys) = supports objects tokens t xs @ supports objects tokens (t + length xs) ys"
  by (induction xs arbitrary: t) auto

lemma length_supports [simp]: "length (supports objects tokens t srcs) = length srcs"
  by (induction srcs arbitrary: t) auto

lemma supports_nth: "i < length srcs \<Longrightarrow> supports objects tokens t srcs ! i = support objects tokens (t + i) (srcs ! i)"
  by (induction srcs arbitrary: t i) (auto simp: nth_Cons split: nat.splits)

lemma forced_part_rows:
  assumes "t + n \<le> length tokens"
  shows "fst (forced_part tokens t n) = map length (supports objects tokens t (replicate n None)) \<and>
    fst (snd (forced_part tokens t n)) = concat (supports objects tokens t (replicate n None))"
  using assms
proof (induction n arbitrary: t)
  case 0
  then show ?case by (simp add: forced_part_def slice_def)
next
  case (Suc n)
  have "slice t (t + Suc n) tokens = tokens ! t # slice (Suc t) (Suc t + n) tokens"
    using Suc.prems by (simp add: slice_def drop_take Cons_nth_drop_Suc[symmetric])
  then show ?case using Suc.IH[of "Suc t"] Suc.prems by (simp add: forced_part_def support_def)
qed

lemma stored_rows:
  assumes "0 \<le> a" and "b \<le> int (length (object_rows objects k))"
  shows "supports objects tokens t (map (\<lambda>i. Some (k, i)) [a..b - 1]) = slice (nat a) (nat b) (object_rows objects k)"
  using assms
  by (intro nth_equalityI) (auto simp: supports_nth support_def slice_def nth_upto nat_add_distrib)

lemma stored_part_rows:
  assumes "mask_object_ok objects s" and "seg_ref s = Some r"
  shows "\<exists>p. stored_part objects False (ref_key r) (nat (seg_start s)) (nat (seg_end s)) =
    Inr (map length (supports objects tokens t (seg_rows s)), concat (supports objects tokens t (seg_rows s)), p)"
proof -
  obtain lens ids where l: "lookup_array objects (ref_key r) MASK_LENGTHS = Inr (Ints lens)"
      "lookup_array objects (ref_key r) MASK_TOKEN_IDS = Inr (Ints ids)"
      "sum_list (map nat lens) = length ids" "seg_end s \<le> int (length lens)" and ok: "seg_ok s"
    using assms by (auto simp: mask_object_ok_def)
  let ?o = "cumsum 0 (map nat lens)" and ?a = "nat (seg_start s)" and ?b = "nat (seg_end s)"
  have rows: "object_rows objects (ref_key r) = csr_rows ids ?o" by (simp add: object_rows_def l)
  have csr: "csr_ok ids ?o" using l(3) by (simp add: csr_cumsum)
  have ab: "?a \<le> ?b" "?b \<le> length lens" using ok l(4) by (auto simp: seg_ok_def)
  have sup: "supports objects tokens t (seg_rows s) = slice ?a ?b (csr_rows ids ?o)"
    using stored_rows[of "seg_start s" "seg_end s" objects "ref_key r" tokens t] ok l(4)
    by (simp add: seg_rows_def assms(2) rows seg_ok_def)
  have "slice (?o ! ?a) (?o ! ?b) ids = concat (map (\<lambda>t. csr_rows ids ?o ! t) [?a..<?b])"
    using slice_rows[OF csr, of ?a ?b] ab by simp
  also have "map (\<lambda>t. csr_rows ids ?o ! t) [?a..<?b] = slice ?a ?b (csr_rows ids ?o)"
    using ab by (intro nth_equalityI) (auto simp: slice_def)
  finally have "slice (?o ! ?a) (?o ! ?b) ids = concat (slice ?a ?b (csr_rows ids ?o))" .
  moreover have "map length (slice ?a ?b (csr_rows ids ?o)) = slice ?a ?b (map nat lens)"
    using map_length_csr[OF l(3)] by (simp add: slice_def take_map[symmetric] drop_map[symmetric])
  ultimately show ?thesis using ab by (simp add: stored_part_def l Let_def sup)
qed

lemma mask_parts_rows:
  assumes "\<forall>s \<in> set segs. mask_object_ok objects s" and "t + length (rows_of segs) \<le> length tokens"
  shows "\<exists>p. mask_parts objects tokens False t segs =
    Inr (map length (supports objects tokens t (rows_of segs)), concat (supports objects tokens t (rows_of segs)), p)"
  using assms
proof (induction segs arbitrary: t)
  case (Cons s segs)
  have n: "nat (seg_len s) = length (seg_rows s)" by (simp add: length_seg_rows)
  obtain q where q: "mask_parts objects tokens False (t + length (seg_rows s)) segs =
      Inr (map length (supports objects tokens (t + length (seg_rows s)) (rows_of segs)),
           concat (supports objects tokens (t + length (seg_rows s)) (rows_of segs)), q)"
    using Cons.IH[of "t + length (seg_rows s)"] Cons.prems by auto
  show ?case
  proof (cases "seg_ref s")
    case None
    then have "seg_rows s = replicate (length (seg_rows s)) None" using n by (simp add: seg_rows_def)
    then show ?thesis using None q forced_part_rows[of t "length (seg_rows s)" tokens objects] Cons.prems(2) n
      by (cases q; cases "forced_part tokens t (length (seg_rows s))") (simp add: Let_def supports_append)
  next
    case (Some r)
    obtain p where "stored_part objects False (ref_key r) (nat (seg_start s)) (nat (seg_end s)) =
      Inr (map length (supports objects tokens t (seg_rows s)), concat (supports objects tokens t (seg_rows s)), p)"
      using stored_part_rows[OF _ Some, of objects tokens t] Cons.prems(1) by auto
    then show ?thesis using Some q n by (cases p; cases q) (simp add: Let_def supports_append)
  qed
qed simp

lemma check_support_rows:
  assumes "length tokens = length rows"
  shows "check_support (concat rows) (cumsum 0 (map length rows)) tokens False =
    guard Store_Plan_Error (\<forall>t < length rows. tokens ! t \<in> set (rows ! t))"
proof -
  have "list_ex (\<lambda>(a, b). a = b) (adjacent (cumsum 0 (map length rows))) \<longleftrightarrow> (\<exists>t < length rows. rows ! t = [])"
    by (auto simp: list_ex_length adjacent_cumsum)
  moreover have "list_all (\<lambda>h. h \<noteq> 0) (map2 (\<lambda>row t. length (filter (\<lambda>x. x = t) row)) rows tokens) \<longleftrightarrow>
      (\<forall>t < length rows. tokens ! t \<in> set (rows ! t))"
    using assms by (auto simp: list_all_length filter_empty_conv)
  moreover have "last (cumsum 0 (map length rows)) = length (concat rows)" by (simp add: last_cumsum length_concat)
  ultimately show ?thesis using assms
    by (auto simp: check_support_def csr_rows_cumsum guard_def)
qed

text \<open>
  The mask the trainer builds from a plan is the one the inline path would carry: each row is the
  stored object's row the plan names, or the token itself where the row was inserted, and
  materialization fails exactly when some response token is not in its row.
\<close>

theorem mask_columns_follow_plan:
  assumes "\<forall>s \<in> set segs. mask_object_ok objects s" and "length tokens = length (rows_of segs)"
  shows "materialize_mask objects tokens 0 segs =
    (if \<forall>t < length tokens. tokens ! t \<in> set (support objects tokens t (rows_of segs ! t))
     then let rows = supports objects tokens 0 (rows_of segs)
          in Inr [(''rollout_sampling_mask_ids'', Id_Column (concat rows)),
                  (''rollout_sampling_mask_offsets'', Offset_Column (cumsum 0 (map length rows)))]
     else Inl Store_Plan_Error)"
proof -
  let ?rows = "supports objects tokens 0 (rows_of segs)"
  obtain p where p: "mask_parts objects tokens False 0 segs = Inr (map length ?rows, concat ?rows, p)"
    using mask_parts_rows[OF assms(1), of 0 tokens] assms(2) by auto
  have "(\<forall>t < length ?rows. tokens ! t \<in> set (?rows ! t)) \<longleftrightarrow>
      (\<forall>t < length tokens. tokens ! t \<in> set (support objects tokens t (rows_of segs ! t)))"
    using assms(2) by (simp add: supports_nth)
  then show ?thesis using p check_support_rows[of tokens ?rows] assms(2)
    by (cases p) (auto simp: materialize_mask_def Let_def guard_def)
qed

definition demo_objects :: objects where
  "demo_objects = [(''k1'', [(MASK_LENGTHS, Ints [2, 1]), (MASK_TOKEN_IDS, Ints [5, 6, 7])])]"

theorem mask_columns_follow_plan_witness:
  "materialize_mask demo_objects [6, 9, 7] 0
      [Seg (Some (demo_ref ''k1'' 2 2)) 0 1, Seg None 0 1, Seg (Some (demo_ref ''k1'' 2 2)) 1 2] =
    Inr [(''rollout_sampling_mask_ids'', Id_Column [5, 6, 9, 7]), (''rollout_sampling_mask_offsets'', Offset_Column [0, 2, 3, 4])]"
proof -
  let ?segs = "[Seg (Some (demo_ref ''k1'' 2 2)) 0 1, Seg None 0 1, Seg (Some (demo_ref ''k1'' 2 2)) 1 2]"
  have "\<forall>s \<in> set ?segs. mask_object_ok demo_objects s"
    by (simp add: mask_object_ok_def seg_ok_def demo_ref_def lookup_array_def demo_objects_def MASK_LENGTHS_def MASK_TOKEN_IDS_def)
  moreover have rows: "rows_of ?segs = [Some (''k1'', 0), None, Some (''k1'', 1)]" by code_simp
  then have "length [6, 9, 7 :: int] = length (rows_of ?segs)" by simp
  ultimately have "materialize_mask demo_objects [6, 9, 7] 0 ?segs =
    (if \<forall>t < length [6, 9, 7 :: int]. [6, 9, 7] ! t \<in> set (support demo_objects [6, 9, 7] t (rows_of ?segs ! t))
     then let rows = supports demo_objects [6, 9, 7] 0 (rows_of ?segs)
          in Inr [(''rollout_sampling_mask_ids'', Id_Column (concat rows)),
                  (''rollout_sampling_mask_offsets'', Offset_Column (cumsum 0 (map length rows)))]
     else Inl Store_Plan_Error)"
    by (rule mask_columns_follow_plan)
  also have "\<dots> = Inr [(''rollout_sampling_mask_ids'', Id_Column [5, 6, 9, 7]), (''rollout_sampling_mask_offsets'', Offset_Column [0, 2, 3, 4])]"
    unfolding rows by code_simp
  finally show ?thesis .
qed

end
