(* ===== verification/Sample_Types.thy ===== *)
theory Sample_Types
  imports Store_Plan Sampling_Mask
begin

text \<open>
  \<^verbatim>\<open>miles/utils/types.py\<close>: a training sample with its per-token columns, the spans of weight versions
  of its engine calls, and the operations that cut, reset and validate it.  Values that the code only
  passes on are JSON values; arrays are lists of rows (a two-dimensional one with its number of columns),
  without element types.  Fields of other types than declared, which Python would store unchecked, are
  outside the model and end in \<open>TypeError\<close>.  The tokenizer's \<open>decode\<close> is a parameter.
\<close>

fun raised :: "py_exn + 'a \<Rightarrow> store_error + 'a" where
  "raised (Inr x) = Inr x"
| "raised (Inl e) = Inl (Store_Raised e)"

abbreviation check :: "bool \<Rightarrow> store_error + unit" where
  "check b \<equiv> guard (Store_Raised AssertionError) b"

definition present :: "('a \<Rightarrow> store_error + unit) \<Rightarrow> 'a option \<Rightarrow> store_error + unit" where
  "present f x = (case x of None \<Rightarrow> Inr () | Some v \<Rightarrow> f v)"

text \<open>\<open>xs[:-n]\<close> for a positive \<open>n\<close>, and \<open>xs[-n:]\<close>.\<close>

definition drop_last :: "nat \<Rightarrow> 'a list \<Rightarrow> 'a list" where
  "drop_last n xs = take (length xs - n) xs"

definition last_items :: "nat \<Rightarrow> 'a list \<Rightarrow> 'a list" where
  "last_items n xs = drop (length xs - n) xs"

section \<open>Weight versions\<close>

record version_span =
  version :: string
  abs_start :: int
  abs_end :: int

record versions_call =
  spans :: "version_span list"
  prefill_spans :: "version_span list"
  output_start :: "int option"
  prompt_tokens :: "int option"

text \<open>Reading typed entries of a JSON object.\<close>

definition entry :: "obj \<Rightarrow> string \<Rightarrow> py_exn + json" where
  "entry d k = (case map_of d k of None \<Rightarrow> Inl KeyError | Some v \<Rightarrow> Inr v)"

fun int_value :: "json \<Rightarrow> py_exn + int" where
  "int_value (JInt i) = Inr i"
| "int_value _ = Inl TypeError"

fun str_value :: "json \<Rightarrow> py_exn + string" where
  "str_value (JStr s) = Inr s"
| "str_value _ = Inl TypeError"

fun arr_value :: "json \<Rightarrow> py_exn + json list" where
  "arr_value (JArr xs) = Inr xs"
| "arr_value _ = Inl TypeError"

fun obj_value :: "json \<Rightarrow> py_exn + obj" where
  "obj_value (JObj d) = Inr d"
| "obj_value _ = Inl TypeError"

fun opt_int_value :: "json \<Rightarrow> py_exn + int option" where
  "opt_int_value JNull = Inr None"
| "opt_int_value (JInt i) = Inr (Some i)"
| "opt_int_value _ = Inl TypeError"

definition opt_int :: "int option \<Rightarrow> json" where
  "opt_int x = (case x of None \<Rightarrow> JNull | Some i \<Rightarrow> JInt i)"

definition span_to_dict :: "version_span \<Rightarrow> json" where
  "span_to_dict s = JObj [(''version'', JStr (version s)), (''abs_start'', JInt (abs_start s)), (''abs_end'', JInt (abs_end s))]"

text \<open>\<open>WeightVersionSpan(**span)\<close>: exactly the three fields.\<close>

definition span_from_dict :: "json \<Rightarrow> py_exn + version_span" where
  "span_from_dict v =
     rbind (obj_value v) (\<lambda>d.
     if fst ` set d \<noteq> {''version'', ''abs_start'', ''abs_end''} then Inl TypeError
     else rbind (str_value (dget d ''version'')) (\<lambda>ver.
          rbind (int_value (dget d ''abs_start'')) (\<lambda>a.
          rbind (int_value (dget d ''abs_end'')) (\<lambda>b.
          Inr \<lparr>version = ver, abs_start = a, abs_end = b\<rparr>))))"

definition call_to_dict :: "versions_call \<Rightarrow> json" where
  "call_to_dict c =
     JObj [(''spans'', JArr (map span_to_dict (spans c))), (''prefill_spans'', JArr (map span_to_dict (prefill_spans c))),
           (''output_start'', opt_int (output_start c)), (''prompt_tokens'', opt_int (prompt_tokens c))]"

text \<open>A list is the older form, which has the spans only.\<close>

definition call_from_dict :: "json \<Rightarrow> py_exn + versions_call" where
  "call_from_dict v =
     (case v of
        JArr xs \<Rightarrow> rbind (rmap span_from_dict xs) (\<lambda>ss.
          Inr \<lparr>spans = ss, prefill_spans = [], output_start = (case ss of [] \<Rightarrow> None | s # _ \<Rightarrow> Some (abs_start s)), prompt_tokens = None\<rparr>)
      | JObj d \<Rightarrow>
          rbind (rbind (rbind (entry d ''spans'') arr_value) (rmap span_from_dict)) (\<lambda>ss.
          rbind (rbind (rbind (entry d ''prefill_spans'') arr_value) (rmap span_from_dict)) (\<lambda>ps.
          rbind (rbind (entry d ''output_start'') opt_int_value) (\<lambda>os.
          rbind (opt_int_value (dget d ''prompt_tokens'')) (\<lambda>pt.
          Inr \<lparr>spans = ss, prefill_spans = ps, output_start = os, prompt_tokens = pt\<rparr>))))
      | _ \<Rightarrow> Inl AssertionError)"

text \<open>\<open>_assert_spans_run_in_order\<close>.\<close>

fun run_in_order :: "int \<Rightarrow> version_span list \<Rightarrow> store_error + int" where
  "run_in_order start [] = Inr start"
| "run_in_order start (s # ss) =
     rbind (check (abs_start s = start \<and> abs_start s < abs_end s)) (\<lambda>_. run_in_order (abs_end s) ss)"

definition validate_call :: "int \<Rightarrow> versions_call \<Rightarrow> store_error + unit" where
  "validate_call num_tokens c =
     rbind (check (list_all (\<lambda>s. version s \<noteq> []) (prefill_spans c @ spans c))) (\<lambda>_.
     case output_start c of
       None \<Rightarrow> check (prefill_spans c = [])
     | Some o' \<Rightarrow>
         rbind (check (0 \<le> o' \<and> o' \<le> num_tokens)) (\<lambda>_.
         rbind (if prefill_spans c = [] then Inr ()
                else rbind (run_in_order 0 (prefill_spans c)) (\<lambda>e.
                     check (e = (case prompt_tokens c of None \<Rightarrow> o' | Some p \<Rightarrow> p)))) (\<lambda>_.
         rbind (run_in_order o' (spans c)) (\<lambda>e. check (e \<le> num_tokens)))))"

text \<open>Versions are compared as numbers when all their characters are (ASCII) digits.\<close>

definition is_digit :: "char \<Rightarrow> bool" where
  "is_digit c \<longleftrightarrow> (48::nat) \<le> of_char c \<and> of_char c \<le> (57::nat)"

definition nat_of_string :: "string \<Rightarrow> nat" where
  "nat_of_string = foldl (\<lambda>n c. 10 * n + (of_char c - 48)) 0"

definition numeric_versions :: "version_span list \<Rightarrow> int list" where
  "numeric_versions ss = map (\<lambda>s. int (nat_of_string (version s))) (filter (\<lambda>s. version s \<noteq> [] \<and> list_all is_digit (version s)) ss)"

definition prefill_lag :: "versions_call \<Rightarrow> int option" where
  "prefill_lag c =
     (let d = numeric_versions (spans c); p = numeric_versions (prefill_spans c)
      in if length d \<noteq> length (spans c) \<or> length p \<noteq> length (prefill_spans c) \<or> d = [] \<or> p = [] then None
         else Some (Max (set d) - Min (set p)))"

definition max_decode_version :: "versions_call \<Rightarrow> int option" where
  "max_decode_version c = (let d = numeric_versions (spans c) in if d = [] then None else Some (Max (set d)))"

text \<open>What the engine reports of one call, anchored at the sample's tokens.\<close>

definition list_or_empty :: "json \<Rightarrow> py_exn + json list" where
  "list_or_empty v = (if truthy v then arr_value v else Inr [])"

definition raw_span :: "json \<Rightarrow> py_exn + version_span" where
  "raw_span v =
     rbind (obj_value v) (\<lambda>d.
     rbind (rbind (entry d ''version'') str_value) (\<lambda>ver.
     rbind (rbind (entry d ''start'') int_value) (\<lambda>a.
     rbind (rbind (entry d ''end'') int_value) (\<lambda>b.
     Inr \<lparr>version = ver, abs_start = a, abs_end = b\<rparr>))))"

definition output_relative :: "obj \<Rightarrow> int \<Rightarrow> py_exn + version_span list" where
  "output_relative meta n =
     (if dget meta ''weight_versions'' \<noteq> JNull
      then rbind (rbind (arr_value (dget meta ''weight_versions'')) (rmap raw_span)) (\<lambda>ss.
           if list_all (\<lambda>s. abs_end s \<le> n) ss then Inr ss else Inl AssertionError)
      else if dget meta ''weight_version'' \<noteq> JNull
      then (if 0 < n \<or> \<not> truthy (dget meta ''completion_tokens'')
            then rbind (str_value (dget meta ''weight_version'')) (\<lambda>ver. Inr [\<lparr>version = ver, abs_start = 0, abs_end = n\<rparr>])
            else Inl AssertionError)
      else Inr [])"

definition prefill_from_meta :: "obj \<Rightarrow> py_exn + version_span list" where
  "prefill_from_meta meta =
     (case dget meta ''prefill_weight_versions'' of
        JNull \<Rightarrow> Inr []
      | JArr xs \<Rightarrow> rmap raw_span xs
      | _ \<Rightarrow> Inl AssertionError)"

definition call_from_meta :: "obj \<Rightarrow> int \<Rightarrow> py_exn + versions_call" where
  "call_from_meta meta output_end =
     rbind (list_or_empty (dget meta ''output_token_logprobs'')) (\<lambda>outs.
     rbind (output_relative meta (int (length outs))) (\<lambda>rel.
     rbind (prefill_from_meta meta) (\<lambda>ps.
     rbind (opt_int_value (dget meta ''prompt_tokens'')) (\<lambda>pt.
     let o' = output_end - int (length outs)
     in Inr \<lparr>spans = map (\<lambda>s. s\<lparr>abs_start := o' + abs_start s, abs_end := o' + abs_end s\<rparr>) (filter (\<lambda>s. abs_start s < abs_end s) rel),
             prefill_spans = ps, output_start = Some o', prompt_tokens = pt\<rparr>))))"

section \<open>Samples\<close>

type_synonym 'a matrix = "nat \<times> 'a list list"

datatype prompt = Text string | Messages "json list"

datatype status = Pending | Completed | Truncated | Aborted | Failed

record lineage =
  source_sample_index :: int
  output_index :: int
  output_count :: int

record spec_info =
  spec_num_correct_drafts :: int
  spec_num_proposed_drafts :: int
  spec_verify_ct :: int
  completion_tokens :: int

record prefix_cache_info =
  cached_tokens :: int
  total_prompt_tokens :: int

record reward_spec =
  rm_type :: "string option"
  custom_rm_path :: "string option"

record sample =
  group_index :: "int option"
  sample_index :: "int option"
  sample_lineage :: "lineage option"
  rollout_id :: "int option"
  sample_prompt :: prompt
  tokens :: "int list"
  multimodal_inputs :: json
  multimodal_train_inputs :: json
  response :: string
  response_length :: int
  sample_label :: json
  reward :: json
  loss_mask :: "int list option"
  weight_versions :: "versions_call list"
  rollout_log_probs :: "logp list option"
  rollout_topk_token_ids :: "int matrix option"
  rollout_topk_log_probs :: "logp matrix option"
  rollout_sampling_mask :: "sampling_mask option"
  rollout_routed_experts :: "int list list list option"
  rollout_indexer_topk :: "int list list list option"
  rollout_store_plan :: "store_plan option"
  remove_sample :: bool
  teacher_log_probs :: "logp list option"
  opd_reverse_kl :: "logp list option"
  sample_status :: status
  metadata :: "obj option"
  generate_function_path :: "string option"
  max_response_len :: "int option"
  agent_function_path :: "string option"
  max_seq_len :: "int option"
  train_metadata :: json
  sample_reward_spec :: "reward_spec option"
  routing_key :: "string option"
  trainer_model_id :: "string option"
  kv_cache_namespace :: "string option"
  non_generation_time :: rat
  sample_spec_info :: spec_info
  sample_prefix_cache_info :: prefix_cache_info

definition new_spec_info :: spec_info where
  "new_spec_info = \<lparr>spec_num_correct_drafts = 0, spec_num_proposed_drafts = 0, spec_verify_ct = 0, completion_tokens = 0\<rparr>"

definition new_prefix_cache_info :: prefix_cache_info where
  "new_prefix_cache_info = \<lparr>cached_tokens = 0, total_prompt_tokens = 0\<rparr>"

definition new_sample :: sample where
  "new_sample =
     \<lparr>group_index = None, sample_index = None, sample_lineage = None, rollout_id = None, sample_prompt = Text [], tokens = [],
      multimodal_inputs = JNull, multimodal_train_inputs = JNull, response = [], response_length = 0, sample_label = JNull,
      reward = JNull, loss_mask = None, weight_versions = [], rollout_log_probs = None, rollout_topk_token_ids = None,
      rollout_topk_log_probs = None, rollout_sampling_mask = None, rollout_routed_experts = None, rollout_indexer_topk = None,
      rollout_store_plan = None, remove_sample = False, teacher_log_probs = None, opd_reverse_kl = None, sample_status = Pending,
      metadata = Some [], generate_function_path = None, max_response_len = None, agent_function_path = None, max_seq_len = None,
      train_metadata = JNull, sample_reward_spec = None, routing_key = None, trainer_model_id = None, kv_cache_namespace = None,
      non_generation_time = 0, sample_spec_info = new_spec_info, sample_prefix_cache_info = new_prefix_cache_info\<rparr>"

definition int_or_zero :: "obj \<Rightarrow> string \<Rightarrow> py_exn + int" where
  "int_or_zero d k = int_value (dget_or d k (JInt 0))"

definition add_spec_info :: "obj \<Rightarrow> spec_info \<Rightarrow> py_exn + spec_info" where
  "add_spec_info meta i =
     rbind (if truthy (dget meta ''spec_verify_ct'') then int_value (dget meta ''spec_verify_ct'') else Inr 0) (\<lambda>ct.
     if ct \<le> 0 then Inr i
     else rbind (int_or_zero meta ''spec_num_correct_drafts'') (\<lambda>a.
          rbind (int_or_zero meta ''spec_num_proposed_drafts'') (\<lambda>b.
          rbind (int_or_zero meta ''completion_tokens'') (\<lambda>c.
          Inr \<lparr>spec_num_correct_drafts = spec_num_correct_drafts i + a, spec_num_proposed_drafts = spec_num_proposed_drafts i + b,
               spec_verify_ct = spec_verify_ct i + ct, completion_tokens = completion_tokens i + c\<rparr>))))"

definition add_prefix_cache_info :: "obj \<Rightarrow> prefix_cache_info \<Rightarrow> py_exn + prefix_cache_info" where
  "add_prefix_cache_info meta i =
     rbind (int_or_zero meta ''cached_tokens'') (\<lambda>a.
     rbind (int_or_zero meta ''prompt_tokens'') (\<lambda>b.
     Inr \<lparr>cached_tokens = cached_tokens i + a, total_prompt_tokens = total_prompt_tokens i + b\<rparr>))"

definition spec_accept_rate :: "spec_info \<Rightarrow> rat" where
  "spec_accept_rate i =
     (if spec_num_proposed_drafts i = 0 then 0 else of_int (spec_num_correct_drafts i) / of_int (spec_num_proposed_drafts i))"

definition spec_accept_length :: "spec_info \<Rightarrow> rat" where
  "spec_accept_length i = (if 0 < spec_verify_ct i then of_int (completion_tokens i) / of_int (spec_verify_ct i) else 0)"

definition prefix_cache_hit_rate :: "prefix_cache_info \<Rightarrow> rat" where
  "prefix_cache_hit_rate i = (if 0 < total_prompt_tokens i then of_int (cached_tokens i) / of_int (total_prompt_tokens i) else 0)"

text \<open>\<open>update_from_meta_info\<close>; \<open>speculative\<close> says whether the engine decodes speculatively.\<close>

definition status_of_finish :: "json \<Rightarrow> status \<Rightarrow> status" where
  "status_of_finish kind st =
     (if kind = JStr ''length'' then Truncated else if kind = JStr ''abort'' then Aborted
      else if kind = JStr ''stop'' then Completed else st)"

definition update_from_meta_info :: "bool \<Rightarrow> obj \<Rightarrow> sample \<Rightarrow> py_exn + sample" where
  "update_from_meta_info speculative meta s =
     rbind (if speculative then add_spec_info meta (sample_spec_info s) else Inr (sample_spec_info s)) (\<lambda>spec.
     rbind (add_prefix_cache_info meta (sample_prefix_cache_info s)) (\<lambda>cache.
     rbind (call_from_meta meta (int (length (tokens s)))) (\<lambda>call.
     rbind (rbind (entry meta ''finish_reason'') obj_value) (\<lambda>fin.
     rbind (entry fin ''type'') (\<lambda>kind.
     Inr (s\<lparr>sample_spec_info := spec, sample_prefix_cache_info := cache, weight_versions := weight_versions s @ [call],
            sample_status := status_of_finish kind (sample_status s)\<rparr>))))))"

definition all_spans :: "sample \<Rightarrow> version_span list" where
  "all_spans s = concat (map spans (weight_versions s))"

definition all_prefill_spans :: "sample \<Rightarrow> version_span list" where
  "all_prefill_spans s = concat (map prefill_spans (weight_versions s))"

definition oldest_weight_version :: "sample \<Rightarrow> int option" where
  "oldest_weight_version s = (let v = numeric_versions (all_spans s) in if v = [] then None else Some (Min (set v)))"

definition oldest_prefill_weight_version :: "sample \<Rightarrow> int option" where
  "oldest_prefill_weight_version s = (let v = numeric_versions (all_prefill_spans s) in if v = [] then None else Some (Min (set v)))"

definition effective_response_length :: "sample \<Rightarrow> int" where
  "effective_response_length s = (case loss_mask s of None \<Rightarrow> response_length s | Some m \<Rightarrow> sum_list m)"

section \<open>Validation, stripping and resetting\<close>

text \<open>The extra rows of routed experts when media placeholders were expanded.\<close>

definition media_extra :: "json \<Rightarrow> py_exn + int" where
  "media_extra v =
     rbind (if truthy v then obj_value v else Inr []) (\<lambda>mm.
     rbind (rmap (\<lambda>k. rbind (list_or_empty (dget mm k)) (rmap int_value)) [''mm_vision_num_patches'', ''mm_audio_num_tokens'']) (\<lambda>counts.
     Inr (sum_list (map (\<lambda>c. c - 1) (concat counts)))))"

definition validate_topk :: "int \<Rightarrow> int matrix option \<Rightarrow> logp matrix option \<Rightarrow> store_error + unit" where
  "validate_topk n ids logps =
     (case (ids, logps) of
        (None, None) \<Rightarrow> Inr ()
      | (Some (k, xs), Some (k', ys)) \<Rightarrow>
          rbind (check (k = k' \<and> length xs = length ys)) (\<lambda>_. check (int (length xs) = n))
      | _ \<Rightarrow> Inl (Store_Raised AssertionError))"

fun validate_spans :: "int \<Rightarrow> int \<Rightarrow> version_span list \<Rightarrow> store_error + unit" where
  "validate_spans num_tokens previous [] = Inr ()"
| "validate_spans num_tokens previous (s # ss) =
     rbind (check (version s \<noteq> [])) (\<lambda>_.
     rbind (check (previous \<le> abs_start s \<and> abs_start s < abs_end s \<and> abs_end s \<le> num_tokens)) (\<lambda>_.
     validate_spans num_tokens (abs_end s) ss))"

abbreviation num_tokens :: "sample \<Rightarrow> int" where
  "num_tokens s \<equiv> int (length (tokens s))"

definition per_token :: "int \<Rightarrow> 'a list \<Rightarrow> store_error + unit" where
  "per_token n xs = check (int (length xs) = n)"

definition validate :: "sample \<Rightarrow> store_error + unit" where
  "validate s =
     (let n = response_length s
      in rbind (check (0 \<le> n)) (\<lambda>_.
         rbind (check (n \<le> num_tokens s)) (\<lambda>_.
         rbind (present (per_token n) (loss_mask s)) (\<lambda>_.
         rbind (present (per_token n) (rollout_log_probs s)) (\<lambda>_.
         rbind (validate_topk n (rollout_topk_token_ids s) (rollout_topk_log_probs s)) (\<lambda>_.
         rbind (present (\<lambda>m. check (int (mask_length m) = n)) (rollout_sampling_mask s)) (\<lambda>_.
         rbind (present (per_token n) (teacher_log_probs s)) (\<lambda>_.
         rbind (present (per_token n) (opd_reverse_kl s)) (\<lambda>_.
         rbind (present (\<lambda>rows. rbind (raised (media_extra (multimodal_train_inputs s))) (\<lambda>extra.
            check (int (length rows) = num_tokens s - 1 \<or> int (length rows) = num_tokens s - 1 + extra))) (rollout_routed_experts s)) (\<lambda>_.
         rbind (present (\<lambda>rows. check (int (length rows) = num_tokens s - 1)) (rollout_indexer_topk s)) (\<lambda>_.
         rbind (present (\<lambda>p. validate_plan p (num_tokens s) n) (rollout_store_plan s)) (\<lambda>_.
         rbind (validate_spans (num_tokens s) 0 (all_spans s)) (\<lambda>_.
         rbind (rmap (validate_call (num_tokens s)) (weight_versions s)) (\<lambda>_.
         Inr ()))))))))))))))"

definition OPD_STUDENT_TOP_LOGPROBS :: string where
  "OPD_STUDENT_TOP_LOGPROBS = ''opd_student_top_logprobs''"

text \<open>\<open>value[:-n]\<close>.\<close>

fun drop_last_value :: "nat \<Rightarrow> json \<Rightarrow> py_exn + json" where
  "drop_last_value n (JArr xs) = Inr (JArr (drop_last n xs))"
| "drop_last_value n (JStr s) = Inr (JStr (drop_last n s))"
| "drop_last_value n _ = Inl TypeError"

definition strip_metadata :: "nat \<Rightarrow> obj option \<Rightarrow> py_exn + obj option" where
  "strip_metadata n md =
     (case md of
        None \<Rightarrow> Inr None
      | Some d \<Rightarrow>
          if dhas d OPD_STUDENT_TOP_LOGPROBS
          then rbind (drop_last_value n (dget d OPD_STUDENT_TOP_LOGPROBS)) (\<lambda>v. Inr (Some (dset OPD_STUDENT_TOP_LOGPROBS v d)))
          else Inr (Some d))"

definition strip_call :: "int \<Rightarrow> versions_call \<Rightarrow> versions_call" where
  "strip_call n c =
     c\<lparr>spans := map (\<lambda>s. if abs_end s \<le> n then s else s\<lparr>abs_end := n\<rparr>) (filter (\<lambda>s. abs_start s < n) (spans c))\<rparr>"

definition strip_versions :: "int \<Rightarrow> versions_call list \<Rightarrow> versions_call list" where
  "strip_versions n calls = map (strip_call n) (filter (\<lambda>c. case output_start c of None \<Rightarrow> True | Some o' \<Rightarrow> o' \<le> n) calls)"

definition strip_last_output_tokens :: "(int list \<Rightarrow> string) \<Rightarrow> int \<Rightarrow> sample \<Rightarrow> store_error + sample" where
  "strip_last_output_tokens decode n s =
     (if n \<le> 0 then Inr s
      else rbind (check (n \<le> response_length s)) (\<lambda>_.
        let k = nat n; toks = drop_last k (tokens s); r = response_length s - n
        in rbind (case (rollout_topk_token_ids s, rollout_topk_log_probs s) of
                (None, logps) \<Rightarrow> Inr (None, logps)
              | (Some (c, xs), Some (c', ys)) \<Rightarrow> Inr (Some (c, drop_last k xs), Some (c', drop_last k ys))
              | (Some _, None) \<Rightarrow> Inl (Store_Raised TypeError)) (\<lambda>(ids, logps).
           rbind (case rollout_sampling_mask s of None \<Rightarrow> Inr None | Some m \<Rightarrow> rbind (raised (mask_prefix r m)) (\<lambda>m'. Inr (Some m'))) (\<lambda>mask.
           rbind (raised (strip_metadata k (metadata s))) (\<lambda>md.
           Inr (s\<lparr>tokens := toks, response_length := r, rollout_topk_token_ids := ids, rollout_topk_log_probs := logps,
                  rollout_log_probs := map_option (drop_last k) (rollout_log_probs s), rollout_sampling_mask := mask,
                  teacher_log_probs := map_option (drop_last k) (teacher_log_probs s),
                  opd_reverse_kl := map_option (drop_last k) (opd_reverse_kl s), metadata := md,
                  loss_mask := map_option (drop_last k) (loss_mask s),
                  response := (if 0 < r then decode (last_items (nat r) toks) else []),
                  rollout_routed_experts := map_option (drop_last k) (rollout_routed_experts s),
                  rollout_indexer_topk := map_option (drop_last k) (rollout_indexer_topk s),
                  rollout_store_plan := map_option (strip_tail n) (rollout_store_plan s),
                  weight_versions := strip_versions (int (length toks)) (weight_versions s)\<rparr>))))))"

definition reset_for_retry :: "sample \<Rightarrow> sample" where
  "reset_for_retry s =
     s\<lparr>tokens := [], multimodal_train_inputs := JNull, response := [], response_length := 0, reward := JNull, loss_mask := None,
       weight_versions := [], rollout_log_probs := None, rollout_topk_token_ids := None, rollout_topk_log_probs := None,
       rollout_sampling_mask := None, rollout_routed_experts := None, rollout_indexer_topk := None, rollout_store_plan := None,
       sample_status := Aborted, trainer_model_id := None, kv_cache_namespace := None, non_generation_time := 0,
       sample_spec_info := new_spec_info, sample_prefix_cache_info := new_prefix_cache_info, remove_sample := False,
       train_metadata := JNull\<rparr>"

section \<open>Valid samples\<close>

text \<open>A sample that passes validation, whose mask and plan were built by their own operations and whose media
  placeholders stand for a token at least.\<close>

definition sample_ok :: "sample \<Rightarrow> bool" where
  "sample_ok s \<longleftrightarrow> validate s = Inr () \<and> pred_option mask_ok (rollout_sampling_mask s) \<and> pred_option plan_segs_ok (rollout_store_plan s) \<and>
     (case media_extra (multimodal_train_inputs s) of Inr e \<Rightarrow> 0 \<le> e | Inl _ \<Rightarrow> True)"

definition output_tokens :: "sample \<Rightarrow> int list" where
  "output_tokens s = last_items (nat (response_length s)) (tokens s)"

lemma raised_simps [result_simps]:
  "raised m = Inr x \<longleftrightarrow> m = Inr x" "raised m = Inl e \<longleftrightarrow> (\<exists>e'. m = Inl e' \<and> e = Store_Raised e')"
  by (cases m; auto)+

lemma present_iff [result_simps]: "present f x = Inr () \<longleftrightarrow> pred_option (\<lambda>v. f v = Inr ()) x"
  by (cases x) (auto simp: present_def)

lemma per_token_iff [result_simps]: "per_token n xs = Inr () \<longleftrightarrow> int (length xs) = n"
  by (simp add: per_token_def result_simps)

lemma length_drop_last [simp]: "length (drop_last n xs) = length xs - n"
  by (simp add: drop_last_def)

lemma length_last_items [simp]: "length (last_items n xs) = min n (length xs)"
  by (auto simp: last_items_def)

lemma drop_last_0 [simp]: "drop_last 0 xs = xs"
  by (simp add: drop_last_def)

lemma last_items_drop_last: "k \<le> n \<Longrightarrow> n \<le> length xs \<Longrightarrow> last_items (n - k) (drop_last k xs) = drop_last k (last_items n xs)"
  by (simp add: last_items_def drop_last_def drop_take)

lemma last_items_append: "length ys \<le> n \<Longrightarrow> last_items n (xs @ ys) = last_items (n - length ys) xs @ ys"
  by (simp add: last_items_def)

lemma unit_rmap_iff [result_simps]: "(\<exists>u. rmap f xs = Inr (u :: unit list)) \<longleftrightarrow> (\<forall>x \<in> set xs. f x = Inr ())"
  by (induction xs) (auto simp: result_simps)

definition topk_ok :: "int \<Rightarrow> int matrix option \<Rightarrow> logp matrix option \<Rightarrow> bool" where
  "topk_ok n ids logps \<longleftrightarrow>
     (case (ids, logps) of
        (None, None) \<Rightarrow> True | (Some (k, xs), Some (k', ys)) \<Rightarrow> k = k' \<and> int (length xs) = n \<and> int (length ys) = n | _ \<Rightarrow> False)"

lemma validate_topk_iff [result_simps]: "validate_topk n ids logps = Inr () \<longleftrightarrow> topk_ok n ids logps"
  by (auto simp: validate_topk_def topk_ok_def result_simps split: option.splits prod.splits)

definition experts_ok :: "json \<Rightarrow> int \<Rightarrow> 'a list \<Rightarrow> bool" where
  "experts_ok media t rows \<longleftrightarrow>
     (\<exists>extra. media_extra media = Inr extra \<and> (int (length rows) = t - 1 \<or> int (length rows) = t - 1 + extra))"

lemma validate_sample_iff:
  "validate s = Inr () \<longleftrightarrow>
     0 \<le> response_length s \<and> response_length s \<le> num_tokens s \<and>
     pred_option (\<lambda>xs. int (length xs) = response_length s) (loss_mask s) \<and>
     pred_option (\<lambda>xs. int (length xs) = response_length s) (rollout_log_probs s) \<and>
     topk_ok (response_length s) (rollout_topk_token_ids s) (rollout_topk_log_probs s) \<and>
     pred_option (\<lambda>m. int (mask_length m) = response_length s) (rollout_sampling_mask s) \<and>
     pred_option (\<lambda>xs. int (length xs) = response_length s) (teacher_log_probs s) \<and>
     pred_option (\<lambda>xs. int (length xs) = response_length s) (opd_reverse_kl s) \<and>
     pred_option (experts_ok (multimodal_train_inputs s) (num_tokens s)) (rollout_routed_experts s) \<and>
     pred_option (\<lambda>rows. int (length rows) = num_tokens s - 1) (rollout_indexer_topk s) \<and>
     pred_option (\<lambda>p. validate_plan p (num_tokens s) (response_length s) = Inr ()) (rollout_store_plan s) \<and>
     validate_spans (num_tokens s) 0 (all_spans s) = Inr () \<and>
     (\<forall>c \<in> set (weight_versions s). validate_call (num_tokens s) c = Inr ())"
  unfolding validate_def Let_def experts_ok_def by (simp add: result_simps)

section \<open>Spans of weight versions\<close>

lemma validate_spans_mono: "validate_spans t p ss = Inr () \<Longrightarrow> p' \<le> p \<Longrightarrow> validate_spans t p' ss = Inr ()"
  by (cases ss) (auto simp: result_simps)

definition spans_end :: "int \<Rightarrow> version_span list \<Rightarrow> int" where
  "spans_end p ss = (if ss = [] then p else abs_end (last ss))"

lemma validate_spans_append:
  "validate_spans t p (xs @ ys) = Inr () \<longleftrightarrow> validate_spans t p xs = Inr () \<and> validate_spans t (spans_end p xs) ys = Inr ()"
  by (induction xs arbitrary: p) (auto simp: result_simps spans_end_def)

lemma validate_spans_bounds: "validate_spans t p ss = Inr () \<Longrightarrow> s \<in> set ss \<Longrightarrow> p \<le> abs_start s \<and> abs_end s \<le> t"
proof (induction ss arbitrary: p)
  case (Cons x ss)
  then show ?case by (fastforce simp: result_simps)
qed simp

lemma spans_end_le: "validate_spans t p ss = Inr () \<Longrightarrow> p \<le> spans_end p ss \<and> (ss \<noteq> [] \<longrightarrow> spans_end p ss \<le> t)"
  by (induction ss arbitrary: p) (fastforce simp: result_simps spans_end_def)+

lemma validate_spans_strip:
  "validate_spans t p ss = Inr () \<Longrightarrow>
   validate_spans n p (map (\<lambda>s. if abs_end s \<le> n then s else s\<lparr>abs_end := n\<rparr>) (filter (\<lambda>s. abs_start s < n) ss)) = Inr ()"
proof (induction ss arbitrary: p)
  case (Cons s ss)
  then have ih: "validate_spans n (abs_end s) (map (\<lambda>s. if abs_end s \<le> n then s else s\<lparr>abs_end := n\<rparr>) (filter (\<lambda>s. abs_start s < n) ss)) = Inr ()"
    and h: "version s \<noteq> []" "p \<le> abs_start s" "abs_start s < abs_end s" by (auto simp: result_simps)
  show ?case
  proof (cases "abs_start s < n")
    case True
    then show ?thesis using h ih validate_spans_mono[OF ih, of n] by (simp add: result_simps)
  next
    case False
    then show ?thesis using validate_spans_mono[OF ih, of p] h by simp
  qed
qed simp

lemma spans_end_strip:
  assumes "validate_spans t p ss = Inr ()"
  shows "spans_end p (map (\<lambda>s. if abs_end s \<le> n then s else s\<lparr>abs_end := n\<rparr>) (filter (\<lambda>s. abs_start s < n) ss)) \<le> spans_end p ss"
  using assms
proof (induction ss rule: rev_induct)
  case (snoc s ss)
  then have "spans_end p ss \<le> abs_end s" by (auto simp: validate_spans_append result_simps)
  moreover have "spans_end p (ss @ [s]) = abs_end s" by (simp add: spans_end_def)
  ultimately show ?case using snoc by (auto simp: validate_spans_append spans_end_def)
qed (simp add: spans_end_def)

lemma validate_spans_strip_versions:
  "validate_spans t p (concat (map spans calls)) = Inr () \<Longrightarrow> validate_spans n p (concat (map spans (strip_versions n calls))) = Inr ()"
proof (induction calls arbitrary: p)
  case (Cons c calls)
  from Cons.prems have h: "validate_spans t p (spans c) = Inr ()" "validate_spans t (spans_end p (spans c)) (concat (map spans calls)) = Inr ()"
    by (auto simp: validate_spans_append)
  note ih = Cons.IH[OF h(2)]
  show ?case
  proof (cases "case output_start c of None \<Rightarrow> True | Some o' \<Rightarrow> o' \<le> n")
    case True
    then show ?thesis
      using validate_spans_strip[OF h(1), of n] validate_spans_mono[OF ih spans_end_strip[OF h(1)]]
      by (simp add: strip_versions_def strip_call_def validate_spans_append)
  next
    case False
    then have "strip_versions n (c # calls) = strip_versions n calls" by (simp add: strip_versions_def)
    then show ?thesis using validate_spans_mono[OF ih, of p] spans_end_le[OF h(1)] by simp
  qed
qed (simp add: strip_versions_def)

lemma run_in_order_starts: "run_in_order o' ss = Inr e \<Longrightarrow> o' \<le> e \<and> (\<forall>s \<in> set ss. o' \<le> abs_start s)"
  by (induction ss arbitrary: o') (fastforce simp: result_simps)+

lemma run_in_order_strip:
  "run_in_order o' ss = Inr e \<Longrightarrow> o' \<le> n \<Longrightarrow>
   \<exists>e'. run_in_order o' (map (\<lambda>s. if abs_end s \<le> n then s else s\<lparr>abs_end := n\<rparr>) (filter (\<lambda>s. abs_start s < n) ss)) = Inr e' \<and> e' \<le> n"
proof (induction ss arbitrary: o')
  case (Cons s ss)
  then have h: "abs_start s = o'" "o' < abs_end s" "run_in_order (abs_end s) ss = Inr e" by (auto simp: result_simps)
  have late: "filter (\<lambda>s. abs_start s < n) ss = []" if "n \<le> abs_end s"
    using run_in_order_starts[OF h(3)] that by (auto simp: filter_empty_conv)
  show ?case
  proof (cases "o' < n \<and> abs_end s \<le> n")
    case True
    then show ?thesis using h Cons.IH[OF h(3)] by (simp add: result_simps)
  next
    case False
    then show ?thesis using h late Cons.prems(2) by (auto simp: result_simps)
  qed
qed simp

lemma validate_call_strip:
  assumes "validate_call t c = Inr ()" and "case output_start c of None \<Rightarrow> True | Some o' \<Rightarrow> o' \<le> n"
  shows "validate_call n (strip_call n c) = Inr ()"
proof (cases "output_start c")
  case None
  then show ?thesis using assms by (auto simp: validate_call_def strip_call_def result_simps list_all_iff)
next
  case (Some o')
  then obtain e where e: "run_in_order o' (spans c) = Inr e" using assms(1) by (auto simp: validate_call_def result_simps)
  from run_in_order_strip[OF e, of n] assms(2) Some show ?thesis
    using assms(1) by (auto simp: validate_call_def strip_call_def result_simps list_all_iff split: if_splits)
qed

section \<open>Stripping keeps a sample valid\<close>

lemma strip_cases:
  assumes "strip_last_output_tokens decode n s = Inr s'" and "0 < n"
  obtains "n \<le> response_length s" and "tokens s' = drop_last (nat n) (tokens s)" and "response_length s' = response_length s - n"
    and "loss_mask s' = map_option (drop_last (nat n)) (loss_mask s)"
    and "rollout_log_probs s' = map_option (drop_last (nat n)) (rollout_log_probs s)"
    and "teacher_log_probs s' = map_option (drop_last (nat n)) (teacher_log_probs s)"
    and "opd_reverse_kl s' = map_option (drop_last (nat n)) (opd_reverse_kl s)"
    and "multimodal_train_inputs s' = multimodal_train_inputs s"
    and "rollout_routed_experts s' = map_option (drop_last (nat n)) (rollout_routed_experts s)"
    and "rollout_indexer_topk s' = map_option (drop_last (nat n)) (rollout_indexer_topk s)"
    and "rollout_store_plan s' = map_option (strip_tail n) (rollout_store_plan s)"
    and "weight_versions s' = strip_versions (num_tokens s') (weight_versions s)"
    and "topk_ok (response_length s) (rollout_topk_token_ids s) (rollout_topk_log_probs s) \<Longrightarrow>
         topk_ok (response_length s - n) (rollout_topk_token_ids s') (rollout_topk_log_probs s')"
    and "case rollout_sampling_mask s of None \<Rightarrow> rollout_sampling_mask s' = None
         | Some m \<Rightarrow> \<exists>m'. rollout_sampling_mask s' = Some m' \<and> mask_prefix (response_length s - n) m = Inr m'"
proof -
  from assms obtain ids logps mask md where h: "n \<le> response_length s"
    "(case (rollout_topk_token_ids s, rollout_topk_log_probs s) of
                (None, logps) \<Rightarrow> Inr (None, logps)
              | (Some (c, xs), Some (c', ys)) \<Rightarrow> Inr (Some (c, drop_last (nat n) xs), Some (c', drop_last (nat n) ys))
              | (Some _, None) \<Rightarrow> Inl (Store_Raised TypeError)) = Inr (ids, logps)"
    "(case rollout_sampling_mask s of None \<Rightarrow> Inr None | Some m \<Rightarrow> rbind (raised (mask_prefix (response_length s - n) m)) (\<lambda>m'. Inr (Some m'))) = Inr mask"
    and s': "tokens s' = drop_last (nat n) (tokens s)" "response_length s' = response_length s - n"
    "loss_mask s' = map_option (drop_last (nat n)) (loss_mask s)"
    "rollout_log_probs s' = map_option (drop_last (nat n)) (rollout_log_probs s)"
    "teacher_log_probs s' = map_option (drop_last (nat n)) (teacher_log_probs s)"
    "opd_reverse_kl s' = map_option (drop_last (nat n)) (opd_reverse_kl s)"
    "multimodal_train_inputs s' = multimodal_train_inputs s"
    "rollout_routed_experts s' = map_option (drop_last (nat n)) (rollout_routed_experts s)"
    "rollout_indexer_topk s' = map_option (drop_last (nat n)) (rollout_indexer_topk s)"
    "rollout_store_plan s' = map_option (strip_tail n) (rollout_store_plan s)"
    "weight_versions s' = strip_versions (num_tokens s') (weight_versions s)"
    "rollout_topk_token_ids s' = ids" "rollout_topk_log_probs s' = logps" "rollout_sampling_mask s' = mask"
    by (auto simp: strip_last_output_tokens_def Let_def rbind_Inr_iff guard_Inr_iff)
  show thesis
  proof (rule that)
    show "topk_ok (response_length s) (rollout_topk_token_ids s) (rollout_topk_log_probs s) \<Longrightarrow>
         topk_ok (response_length s - n) (rollout_topk_token_ids s') (rollout_topk_log_probs s')"
      using h(1,2) assms(2) unfolding s' by (auto simp: topk_ok_def split: option.splits prod.splits)
    show "case rollout_sampling_mask s of None \<Rightarrow> rollout_sampling_mask s' = None
         | Some m \<Rightarrow> \<exists>m'. rollout_sampling_mask s' = Some m' \<and> mask_prefix (response_length s - n) m = Inr m'"
      using h(3) unfolding s' by (auto simp: result_simps split: option.splits)
  qed (use h(1) s' in auto)
qed

lemma pred_option_map: "pred_option P (map_option f x) \<longleftrightarrow> pred_option (\<lambda>v. P (f v)) x"
  by (cases x) auto

lemma pred_option_mp: "pred_option P x \<Longrightarrow> (\<And>v. x = Some v \<Longrightarrow> P v \<Longrightarrow> Q v) \<Longrightarrow> pred_option Q x"
  by (cases x) auto

lemma mask_length_rows: "mask_length m = length (mask_rows m)"
  by (simp add: mask_length_def mask_rows_def)

lemma strip_sample_ok:
  assumes ok: "sample_ok s" and strip: "strip_last_output_tokens decode n s = Inr s'" and "0 < n" and "n < num_tokens s"
  shows "sample_ok s'"
proof -
  note v = assms(1)[unfolded sample_ok_def validate_sample_iff]
  from strip assms(3) show ?thesis
  proof (rule strip_cases)
    assume c: "n \<le> response_length s" "tokens s' = drop_last (nat n) (tokens s)" "response_length s' = response_length s - n"
      "loss_mask s' = map_option (drop_last (nat n)) (loss_mask s)"
      "rollout_log_probs s' = map_option (drop_last (nat n)) (rollout_log_probs s)"
      "teacher_log_probs s' = map_option (drop_last (nat n)) (teacher_log_probs s)"
      "opd_reverse_kl s' = map_option (drop_last (nat n)) (opd_reverse_kl s)"
      "multimodal_train_inputs s' = multimodal_train_inputs s"
      "rollout_routed_experts s' = map_option (drop_last (nat n)) (rollout_routed_experts s)"
      "rollout_indexer_topk s' = map_option (drop_last (nat n)) (rollout_indexer_topk s)"
      "rollout_store_plan s' = map_option (strip_tail n) (rollout_store_plan s)"
      "weight_versions s' = strip_versions (num_tokens s') (weight_versions s)"
    assume topk: "topk_ok (response_length s) (rollout_topk_token_ids s) (rollout_topk_log_probs s) \<Longrightarrow>
         topk_ok (response_length s - n) (rollout_topk_token_ids s') (rollout_topk_log_probs s')"
    assume mask: "case rollout_sampling_mask s of None \<Rightarrow> rollout_sampling_mask s' = None
         | Some m \<Rightarrow> \<exists>m'. rollout_sampling_mask s' = Some m' \<and> mask_prefix (response_length s - n) m = Inr m'"
    have t: "num_tokens s' = num_tokens s - n" using c(2) assms(3,4) by (simp add: of_nat_diff nat_le_iff)
    have col: "pred_option (\<lambda>xs. int (length xs) = response_length s') (map_option (drop_last (nat n)) x)"
      if "pred_option (\<lambda>xs. int (length xs) = response_length s) x" for x :: "'b list option"
      using that c(1,3) assms(3) by (cases x) auto
    have mask': "pred_option (\<lambda>m. mask_ok m \<and> int (mask_length m) = response_length s') (rollout_sampling_mask s')"
    proof (cases "rollout_sampling_mask s")
      case (Some m)
      then obtain m' where m': "rollout_sampling_mask s' = Some m'" "mask_prefix (response_length s - n) m = Inr m'" using mask by auto
      have "mask_ok m" "int (mask_length m) = response_length s" using v Some by auto
      then show ?thesis using mask_prefix_spec[of m "response_length s - n"] m' c(1,3) assms(3)
        by (auto simp: mask_length_rows split: if_splits)
    qed (use mask in auto)
    have plan: "pred_option (\<lambda>p. plan_valid p (num_tokens s') (response_length s')) (rollout_store_plan s')"
    proof (cases "rollout_store_plan s")
      case (Some p)
      then have "plan_valid p (num_tokens s) (response_length s)" using v by (simp add: plan_valid_def)
      from strip_tail_ok[OF this, of n] show ?thesis using c(1,3,11) t assms(3,4) Some by simp
    qed (use c(11) in simp)
    have spans: "validate_spans (num_tokens s') 0 (all_spans s') = Inr ()"
      using validate_spans_strip_versions[of "num_tokens s" 0 "weight_versions s" "num_tokens s'"] v c(12) by (simp add: all_spans_def)
    have calls: "\<forall>c \<in> set (weight_versions s'). validate_call (num_tokens s') c = Inr ()"
      using v validate_call_strip[of "num_tokens s" _ "num_tokens s'"] unfolding c(12) by (auto simp: strip_versions_def)
    have experts: "pred_option (experts_ok (multimodal_train_inputs s') (num_tokens s')) (rollout_routed_experts s')"
      using v t assms(3,4) unfolding c(8,9) pred_option_map by (auto simp: experts_ok_def elim!: pred_option_mp split: sum.splits)
    have indexer: "pred_option (\<lambda>rows. int (length rows) = num_tokens s' - 1) (rollout_indexer_topk s')"
      using v t assms(3,4) unfolding c(10) pred_option_map by (auto elim!: pred_option_mp)
    have col': "pred_option (\<lambda>xs. int (length xs) = response_length s') (loss_mask s')"
      "pred_option (\<lambda>xs. int (length xs) = response_length s') (rollout_log_probs s')"
      "pred_option (\<lambda>xs. int (length xs) = response_length s') (teacher_log_probs s')"
      "pred_option (\<lambda>xs. int (length xs) = response_length s') (opd_reverse_kl s')"
      unfolding c(4-7) by (rule col; use v in blast)+
    have len: "0 \<le> response_length s'" "response_length s' \<le> num_tokens s'" using v c(1,3) t by auto
    have topk': "topk_ok (response_length s') (rollout_topk_token_ids s') (rollout_topk_log_probs s')" unfolding c(3) by (rule topk) (use v in blast)
    have m: "pred_option mask_ok (rollout_sampling_mask s')" "pred_option (\<lambda>m. int (mask_length m) = response_length s') (rollout_sampling_mask s')"
      using mask' by (auto elim!: pred_option_mp)
    have p: "pred_option plan_segs_ok (rollout_store_plan s')"
      "pred_option (\<lambda>p. validate_plan p (num_tokens s') (response_length s') = Inr ()) (rollout_store_plan s')"
      using plan by (auto elim!: pred_option_mp simp: plan_valid_def)
    have "case media_extra (multimodal_train_inputs s') of Inr e \<Rightarrow> 0 \<le> e | Inl _ \<Rightarrow> True" unfolding c(8) using v by blast
    then show ?thesis unfolding sample_ok_def validate_sample_iff
      by (intro conjI len col' topk' m p spans calls experts indexer)
  qed
qed

section \<open>The wire form\<close>

text \<open>A sample's dictionary: its attributes, of which five have a form of their own.\<close>

record sample_dict =
  attributes :: sample
  dict_lineage :: "obj option"
  dict_status :: string
  dict_spec_info :: obj
  dict_prefix_cache_info :: obj
  dict_weight_versions :: "json list"

definition status_values :: "(status \<times> string) list" where
  "status_values = [(Pending, ''pending''), (Completed, ''completed''), (Truncated, ''truncated''), (Aborted, ''aborted''), (Failed, ''failed'')]"

definition status_value :: "status \<Rightarrow> string" where
  "status_value st = the (map_of status_values st)"

definition status_from_value :: "string \<Rightarrow> py_exn + status" where
  "status_from_value v = (case map_of (map prod.swap status_values) v of None \<Rightarrow> Inl ValueError | Some st \<Rightarrow> Inr st)"

definition lineage_to_dict :: "lineage \<Rightarrow> obj" where
  "lineage_to_dict l = [(''source_sample_index'', JInt (source_sample_index l)), (''output_index'', JInt (output_index l)),
     (''output_count'', JInt (output_count l))]"

definition lineage_from_dict :: "obj \<Rightarrow> py_exn + lineage" where
  "lineage_from_dict d =
     (if fst ` set d \<noteq> {''source_sample_index'', ''output_index'', ''output_count''} then Inl TypeError
      else rbind (int_value (dget d ''source_sample_index'')) (\<lambda>a.
           rbind (int_value (dget d ''output_index'')) (\<lambda>b.
           rbind (int_value (dget d ''output_count'')) (\<lambda>c.
           Inr \<lparr>source_sample_index = a, output_index = b, output_count = c\<rparr>))))"

definition spec_info_to_dict :: "spec_info \<Rightarrow> obj" where
  "spec_info_to_dict i =
     [(''spec_num_correct_drafts'', JInt (spec_num_correct_drafts i)), (''spec_num_proposed_drafts'', JInt (spec_num_proposed_drafts i)),
      (''spec_verify_ct'', JInt (spec_verify_ct i)), (''completion_tokens'', JInt (completion_tokens i))]"

text \<open>Three counters have an older name.\<close>

definition int_or_old :: "obj \<Rightarrow> string \<Rightarrow> string \<Rightarrow> py_exn + int" where
  "int_or_old d k old = int_value (dget_or d k (dget_or d old (JInt 0)))"

definition spec_info_from_dict :: "obj \<Rightarrow> py_exn + spec_info" where
  "spec_info_from_dict d =
     rbind (int_or_old d ''spec_num_correct_drafts'' ''spec_accept_token_num'') (\<lambda>a.
     rbind (int_or_old d ''spec_num_proposed_drafts'' ''spec_draft_token_num'') (\<lambda>b.
     rbind (int_or_zero d ''spec_verify_ct'') (\<lambda>ct.
     rbind (int_or_old d ''completion_tokens'' ''completion_token_num'') (\<lambda>c.
     Inr \<lparr>spec_num_correct_drafts = a, spec_num_proposed_drafts = b, spec_verify_ct = ct, completion_tokens = c\<rparr>))))"

definition prefix_cache_to_dict :: "prefix_cache_info \<Rightarrow> obj" where
  "prefix_cache_to_dict i = [(''cached_tokens'', JInt (cached_tokens i)), (''total_prompt_tokens'', JInt (total_prompt_tokens i))]"

definition prefix_cache_from_dict :: "obj \<Rightarrow> py_exn + prefix_cache_info" where
  "prefix_cache_from_dict d =
     rbind (int_or_zero d ''cached_tokens'') (\<lambda>a. rbind (int_or_zero d ''total_prompt_tokens'') (\<lambda>b.
     Inr \<lparr>cached_tokens = a, total_prompt_tokens = b\<rparr>))"

definition sample_to_dict :: "sample \<Rightarrow> sample_dict" where
  "sample_to_dict s =
     \<lparr>attributes = s, dict_lineage = map_option lineage_to_dict (sample_lineage s), dict_status = status_value (sample_status s),
      dict_spec_info = spec_info_to_dict (sample_spec_info s), dict_prefix_cache_info = prefix_cache_to_dict (sample_prefix_cache_info s),
      dict_weight_versions = map call_to_dict (weight_versions s)\<rparr>"

text \<open>Weight versions that are strings belong to an older form, which is set aside.\<close>

definition current_versions :: "json list \<Rightarrow> json list" where
  "current_versions raw = (case raw of JStr v # _ \<Rightarrow> [] | _ \<Rightarrow> raw)"

definition sample_from_dict :: "sample_dict \<Rightarrow> py_exn + sample" where
  "sample_from_dict d =
     rbind (case dict_lineage d of None \<Rightarrow> Inr None | Some l \<Rightarrow> rbind (lineage_from_dict l) (\<lambda>x. Inr (Some x))) (\<lambda>l.
     rbind (status_from_value (dict_status d)) (\<lambda>st.
     rbind (spec_info_from_dict (dict_spec_info d)) (\<lambda>si.
     rbind (prefix_cache_from_dict (dict_prefix_cache_info d)) (\<lambda>pc.
     rbind (rmap call_from_dict (current_versions (dict_weight_versions d))) (\<lambda>wv.
     Inr ((attributes d)\<lparr>sample_lineage := l, sample_status := st, sample_spec_info := si, sample_prefix_cache_info := pc, weight_versions := wv\<rparr>))))))"

lemma span_round_trip: "span_from_dict (span_to_dict s) = Inr s"
  by (simp add: span_from_dict_def span_to_dict_def dget_def)

lemma spans_round_trip: "rmap span_from_dict (map span_to_dict ss) = Inr ss"
  by (induction ss) (simp_all add: span_round_trip)

lemma opt_int_round_trip: "opt_int_value (opt_int x) = Inr x"
  by (cases x) (simp_all add: opt_int_def)

lemma call_round_trip: "call_from_dict (call_to_dict c) = Inr c"
  by (simp add: call_from_dict_def call_to_dict_def entry_def dget_def spans_round_trip opt_int_round_trip)

lemma calls_round_trip: "rmap call_from_dict (current_versions (map call_to_dict cs)) = Inr cs"
proof -
  have "current_versions (map call_to_dict cs) = map call_to_dict cs" by (cases cs) (simp_all add: current_versions_def call_to_dict_def)
  moreover have "rmap call_from_dict (map call_to_dict cs) = Inr cs" by (induction cs) (simp_all add: call_round_trip)
  ultimately show ?thesis by simp
qed

text \<open>
  Reading a sample back from its dictionary gives the same sample.
\<close>

theorem sample_dict_round_trip: "sample_from_dict (sample_to_dict s) = Inr s"
proof -
  have "status_from_value (status_value (sample_status s)) = Inr (sample_status s)"
    by (cases "sample_status s") (simp_all add: status_from_value_def status_value_def status_values_def)
  moreover have "lineage_from_dict (lineage_to_dict l) = Inr l" for l
    by (simp add: lineage_from_dict_def lineage_to_dict_def dget_def)
  moreover have "spec_info_from_dict (spec_info_to_dict i) = Inr i" for i
    by (simp add: spec_info_from_dict_def spec_info_to_dict_def int_or_old_def int_or_zero_def dget_or_def)
  moreover have "prefix_cache_from_dict (prefix_cache_to_dict i) = Inr i" for i
    by (simp add: prefix_cache_from_dict_def prefix_cache_to_dict_def int_or_zero_def dget_or_def)
  ultimately show ?thesis
    by (cases "sample_lineage s") (simp_all add: sample_from_dict_def sample_to_dict_def calls_round_trip)
qed

text \<open>
  Stripping output tokens keeps a sample valid and cuts its output at the end: after removing \<open>n\<close> tokens of the
  response, leaving one token at least, every column, the plan, the mask and the weight versions fit the shorter sample.
\<close>

theorem strip_keeps_sample_valid:
  assumes "sample_ok s" and "strip_last_output_tokens decode n s = Inr s'" and "n < num_tokens s"
  shows "sample_ok s' \<and> tokens s' = drop_last (nat n) (tokens s) \<and> output_tokens s' = drop_last (nat n) (output_tokens s)"
proof (cases "0 < n")
  case True
  note v = assms(1)[unfolded sample_ok_def validate_sample_iff]
  have r: "0 \<le> response_length s" "response_length s \<le> num_tokens s" using v by blast+
  from assms(2) True obtain h: "n \<le> response_length s" "tokens s' = drop_last (nat n) (tokens s)" "response_length s' = response_length s - n"
    by (rule strip_cases)
  have "output_tokens s' = drop_last (nat n) (output_tokens s)"
    using last_items_drop_last[of "nat n" "nat (response_length s)" "tokens s"] h r True
    by (simp add: output_tokens_def nat_diff_distrib' nat_le_iff nat_mono)
  then show ?thesis using strip_sample_ok[OF assms(1,2) True assms(3)] h by simp
next
  case False
  then show ?thesis using assms by (simp add: strip_last_output_tokens_def)
qed

definition demo_output :: sample where
  "demo_output = new_sample\<lparr>tokens := [1, 2, 3, 4], response_length := 2, loss_mask := Some [1, 1],
     weight_versions := [\<lparr>spans = [\<lparr>version = ''7'', abs_start = 2, abs_end = 4\<rparr>], prefill_spans = [], output_start = Some 2, prompt_tokens = None\<rparr>]\<rparr>"

lemma strip_keeps_sample_valid_witness:
  "\<exists>s'. strip_last_output_tokens (\<lambda>ts. ''x'') 1 demo_output = Inr s' \<and> sample_ok s' \<and> output_tokens s' = [3] \<and>
    map (\<lambda>x. (abs_start x, abs_end x)) (all_spans s') = [(2, 3)]"
proof -
  have ok: "sample_ok demo_output"
    by (simp add: sample_ok_def validate_sample_iff demo_output_def new_sample_def topk_ok_def all_spans_def validate_call_def
        media_extra_def list_or_empty_def dget_def)
  obtain s' where s': "strip_last_output_tokens (\<lambda>ts. ''x'') 1 demo_output = Inr s'" "map (\<lambda>x. (abs_start x, abs_end x)) (all_spans s') = [(2, 3)]"
    by (simp add: strip_last_output_tokens_def demo_output_def new_sample_def strip_metadata_def dhas_def drop_last_def
        strip_versions_def strip_call_def all_spans_def)
  have "1 < num_tokens demo_output" "drop_last (nat 1) (output_tokens demo_output) = [3]"
    by (simp_all add: demo_output_def new_sample_def output_tokens_def drop_last_def last_items_def)
  then show ?thesis using strip_keeps_sample_valid[OF ok s'(1)] s' by auto
qed

text \<open>
  A reset sample is not a fresh one: the columns of the teacher, the lineage, the rollout and the reward
  specification stay, the status becomes aborted, and if the sample had columns of the teacher for a non-empty
  response, the reset sample does not pass validation.
\<close>

theorem reset_keeps_teacher_columns:
  assumes "validate s = Inr ()" and "teacher_log_probs s = Some xs" and "xs \<noteq> []"
  shows "validate (reset_for_retry s) = Inl (Store_Raised AssertionError) \<and> teacher_log_probs (reset_for_retry s) = Some xs \<and>
    sample_lineage (reset_for_retry s) = sample_lineage s \<and> rollout_id (reset_for_retry s) = rollout_id s \<and>
    sample_reward_spec (reset_for_retry s) = sample_reward_spec s \<and> sample_status (reset_for_retry s) \<noteq> sample_status new_sample"
proof -
  have "validate (reset_for_retry s) = Inl (Store_Raised AssertionError)"
    using assms(2,3) by (simp add: validate_def reset_for_retry_def present_def validate_topk_def per_token_def)
  then show ?thesis using assms(2) by (simp add: reset_for_retry_def new_sample_def)
qed

lemma reset_keeps_teacher_columns_witness:
  "validate (reset_for_retry (demo_output\<lparr>teacher_log_probs := Some [Logp 0, Logp 0]\<rparr>)) = Inl (Store_Raised AssertionError)"
proof -
  have "validate (demo_output\<lparr>teacher_log_probs := Some [Logp 0, Logp 0]\<rparr>) = Inr ()"
    by (simp add: validate_sample_iff demo_output_def new_sample_def topk_ok_def all_spans_def validate_call_def)
  from reset_keeps_teacher_columns[OF this] show ?thesis by simp
qed

end
