(* ===== verification/Sample_Merge.thy ===== *)
theory Sample_Merge
  imports Sample_Types
begin

text \<open>
  \<^verbatim>\<open>miles/rollout/generate_utils/sample_utils.py\<close>, with the merging of masks
  (\<^verbatim>\<open>generate_utils/sampling_mask.py\<close>) and of candidate columns
  (\<^verbatim>\<open>generate_utils/rollout_topk_logprobs.py\<close>): the samples of the turns of a conversation, each with the
  whole history as its tokens and its own reply as its response, become one sample whose response runs
  from the first reply to the last, with the observations between them masked out.  The two-argument
  comparison of the inputs is Python's, deep copies are not modelled, values being immutable.
\<close>

section \<open>The columns\<close>

definition filled :: "'a \<Rightarrow> int \<Rightarrow> 'a list option \<Rightarrow> 'a list" where
  "filled dflt n xs = (case xs of None \<Rightarrow> replicate (nat n) dflt | Some v \<Rightarrow> v)"

definition merge_optional_per_token :: "nat \<Rightarrow> int \<Rightarrow> logp list option \<Rightarrow> int \<Rightarrow> logp list option \<Rightarrow> logp list option" where
  "merge_optional_per_token obs na av nb bv =
     (if av = None \<and> bv = None then None
      else Some (filled (Logp 0) na av @ replicate obs (Logp 0) @ filled (Logp 0) nb bv))"

definition merge_sampling_masks :: "sampling_mask option \<Rightarrow> int list \<Rightarrow> sampling_mask option \<Rightarrow> py_exn + sampling_mask option" where
  "merge_sampling_masks a obs b =
     (case (a, b) of
        (None, None) \<Rightarrow> Inr None
      | (Some ma, Some mb) \<Rightarrow>
          rbind (from_mask_list (map (\<lambda>t. [t]) obs)) (\<lambda>mo. rbind (concatenate [ma, mo, mb]) (\<lambda>m. Inr (Some m)))
      | _ \<Rightarrow> Inl ValueError)"

definition merge_topk :: "'a \<Rightarrow> nat \<Rightarrow> 'a matrix option \<Rightarrow> 'a matrix option \<Rightarrow> py_exn + 'a matrix option" where
  "merge_topk fill gap a b =
     (case (a, b) of
        (None, None) \<Rightarrow> Inr None
      | (Some (k, xs), Some (k', ys)) \<Rightarrow>
          if k \<noteq> k' then Inl ValueError else Inr (Some (k, xs @ replicate gap (replicate k fill) @ ys))
      | _ \<Rightarrow> Inl ValueError)"

section \<open>The metadata\<close>

definition pop_metadata :: "string \<Rightarrow> obj option \<Rightarrow> obj option \<times> json" where
  "pop_metadata k md = (case md of None \<Rightarrow> (None, JNull) | Some d \<Rightarrow> (Some (dpop k d), dget d k))"

definition pop_lifecycle :: "obj option \<Rightarrow> obj option \<times> json list" where
  "pop_lifecycle md =
     (case md of
        None \<Rightarrow> (None, [])
      | Some d \<Rightarrow>
          if dhas d ''lifecycle''
          then (Some (dpop ''lifecycle'' d), (case dget d ''lifecycle'' of JArr xs \<Rightarrow> xs | v \<Rightarrow> [v]))
          else (Some d, []))"

text \<open>The number of items of a value with a length.\<close>

fun value_length :: "json \<Rightarrow> py_exn + nat" where
  "value_length (JArr xs) = Inr (length xs)"
| "value_length (JStr s) = Inr (length s)"
| "value_length (JObj d) = Inr (length d)"
| "value_length _ = Inl TypeError"

definition merge_top_logprobs :: "nat \<Rightarrow> int \<Rightarrow> json \<Rightarrow> int \<Rightarrow> json \<Rightarrow> store_error + json" where
  "merge_top_logprobs obs na av nb bv =
     (if av = JNull \<and> bv = JNull then Inr JNull
      else rbind (check (av \<noteq> JNull \<and> bv \<noteq> JNull)) (\<lambda>_.
           rbind (raised (value_length av)) (\<lambda>la. rbind (check (int la = na)) (\<lambda>_.
           rbind (raised (value_length bv)) (\<lambda>lb. rbind (check (int lb = nb)) (\<lambda>_.
           case (av, bv) of
             (JArr xs, JArr ys) \<Rightarrow> Inr (JArr (xs @ replicate obs (JArr []) @ ys))
           | _ \<Rightarrow> Inl (Store_Raised TypeError)))))))"

definition set_metadata :: "string \<Rightarrow> json \<Rightarrow> obj option \<Rightarrow> obj option" where
  "set_metadata k v md = Some (dset k v (case md of None \<Rightarrow> [] | Some d \<Rightarrow> d))"

definition same_metadata :: "obj option \<Rightarrow> obj option \<Rightarrow> bool" where
  "same_metadata a b \<longleftrightarrow>
     (case (a, b) of (None, None) \<Rightarrow> True | (Some d, Some e) \<Rightarrow> py_eq (JObj d) (JObj e) | _ \<Rightarrow> False)"

definition merge_metadata :: "nat \<Rightarrow> int \<Rightarrow> obj option \<Rightarrow> int \<Rightarrow> obj option \<Rightarrow> store_error + obj option" where
  "merge_metadata obs na a0 nb b0 =
     (let (a1, a_top) = pop_metadata OPD_STUDENT_TOP_LOGPROBS a0; (b1, b_top) = pop_metadata OPD_STUDENT_TOP_LOGPROBS b0;
          (a2, a_life) = pop_lifecycle a1; (b2, b_life) = pop_lifecycle b1;
          (a3, a_msgs) = pop_metadata ''messages'' a2; (b3, b_msgs) = pop_metadata ''messages'' b2
      in rbind (check (same_metadata a3 b3)) (\<lambda>_.
         rbind (merge_top_logprobs obs na a_top nb b_top) (\<lambda>top.
         let m1 = (if top \<noteq> JNull then set_metadata OPD_STUDENT_TOP_LOGPROBS top a3 else a3);
             m2 = (if a_life \<noteq> [] \<or> b_life \<noteq> [] then set_metadata ''lifecycle'' (JArr (a_life @ b_life)) m1 else m1);
             msgs = (if truthy b_msgs then b_msgs else a_msgs)
         in Inr (if msgs \<noteq> JNull then set_metadata ''messages'' msgs m2 else m2))))"

section \<open>Two turns\<close>

definition starts_with :: "'a list \<Rightarrow> 'a list \<Rightarrow> bool" where
  "starts_with short long \<longleftrightarrow> length short \<le> length long \<and> take (length short) long = short"

fun prompt_starts_with :: "prompt \<Rightarrow> prompt \<Rightarrow> store_error + bool" where
  "prompt_starts_with (Text a) (Text b) = Inr (starts_with a b)"
| "prompt_starts_with (Messages a) (Messages b) =
     Inr (length a \<le> length b \<and> list_all2 py_eq (take (length a) b) a)"
| "prompt_starts_with _ _ = Inl (Store_Raised NotImplementedError)"

definition merge_spec_info :: "spec_info \<Rightarrow> spec_info \<Rightarrow> spec_info" where
  "merge_spec_info a b =
     \<lparr>spec_num_correct_drafts = spec_num_correct_drafts a + spec_num_correct_drafts b,
      spec_num_proposed_drafts = spec_num_proposed_drafts a + spec_num_proposed_drafts b,
      spec_verify_ct = spec_verify_ct a + spec_verify_ct b, completion_tokens = completion_tokens a + completion_tokens b\<rparr>"

definition merge_prefix_cache_info :: "prefix_cache_info \<Rightarrow> prefix_cache_info \<Rightarrow> prefix_cache_info" where
  "merge_prefix_cache_info a b =
     \<lparr>cached_tokens = cached_tokens a + cached_tokens b, total_prompt_tokens = total_prompt_tokens a + total_prompt_tokens b\<rparr>"

definition rows_extend :: "'a list option \<Rightarrow> 'a list option \<Rightarrow> bool" where
  "rows_extend a b \<longleftrightarrow> (case a of None \<Rightarrow> True | Some xs \<Rightarrow> (case b of None \<Rightarrow> False | Some ys \<Rightarrow> length xs \<le> length ys))"

definition observation_length :: "sample \<Rightarrow> sample \<Rightarrow> int" where
  "observation_length a b = num_tokens b - num_tokens a - response_length b"

text \<open>\<open>b.tokens[len(a.tokens) : len(a.tokens) + obs_len]\<close>, with a negative end counted from the back.\<close>

definition observation :: "sample \<Rightarrow> sample \<Rightarrow> int list" where
  "observation a b =
     (let start = num_tokens a; stop = start + observation_length a b;
          stop' = (if stop < 0 then max 0 (stop + num_tokens b) else stop)
      in drop (nat start) (take (nat stop') (tokens b)))"

definition same_origin :: "sample \<Rightarrow> sample \<Rightarrow> bool" where
  "same_origin a b \<longleftrightarrow>
     group_index a = group_index b \<and> sample_index a = sample_index b \<and> sample_lineage a = sample_lineage b \<and>
     rollout_id a = rollout_id b \<and> py_eq (multimodal_inputs a) (multimodal_inputs b) \<and>
     py_eq (multimodal_train_inputs a) (multimodal_train_inputs b) \<and> py_eq (sample_label a) (sample_label b) \<and>
     py_eq (reward a) (reward b) \<and> kv_cache_namespace a = kv_cache_namespace b"

definition same_settings :: "sample \<Rightarrow> sample \<Rightarrow> bool" where
  "same_settings a b \<longleftrightarrow>
     generate_function_path a = generate_function_path b \<and> max_response_len a = max_response_len b \<and>
     agent_function_path a = agent_function_path b \<and> max_seq_len a = max_seq_len b \<and>
     py_eq (train_metadata a) (train_metadata b) \<and> sample_reward_spec a = sample_reward_spec b \<and>
     routing_key a = routing_key b \<and> trainer_model_id a = trainer_model_id b \<and> non_generation_time a = non_generation_time b"

text \<open>The checks of \<open>_merge_sample_pair\<close> before anything is put together, with the merged mask and plan.\<close>

definition check_pair :: "sample \<Rightarrow> sample \<Rightarrow> store_error + sampling_mask option \<times> store_plan option" where
  "check_pair a b =
     rbind (validate a) (\<lambda>_. rbind (validate b) (\<lambda>_.
     rbind (prompt_starts_with (sample_prompt a) (sample_prompt b)) (\<lambda>p. rbind (check p) (\<lambda>_.
     rbind (check (starts_with (tokens a) (tokens b))) (\<lambda>_.
     rbind (check (0 < observation_length a b)) (\<lambda>_.
     rbind (raised (merge_sampling_masks (rollout_sampling_mask a) (observation a b) (rollout_sampling_mask b))) (\<lambda>mask.
     rbind (combine_plans (rollout_store_plan a) (rollout_store_plan b) (\<lambda>x y. merge_turn x y (observation_length a b))) (\<lambda>plan.
     rbind (check (rows_extend (rollout_routed_experts a) (rollout_routed_experts b))) (\<lambda>_.
     rbind (check (rows_extend (rollout_indexer_topk a) (rollout_indexer_topk b))) (\<lambda>_.
     rbind (check (sample_status a = Completed)) (\<lambda>_.
     Inr (mask, plan))))))))))))"

definition merge_sample_pair :: "(int list \<Rightarrow> string) \<Rightarrow> sample \<Rightarrow> sample \<Rightarrow> store_error + sample" where
  "merge_sample_pair decode a b =
     (let obs = nat (observation_length a b); na = response_length a; nb = response_length b
      in rbind (check_pair a b) (\<lambda>(mask, plan).
         rbind (check (same_origin a b)) (\<lambda>_.
         rbind (raised (merge_topk (-1) obs (rollout_topk_token_ids a) (rollout_topk_token_ids b))) (\<lambda>ids.
         rbind (raised (merge_topk Neg_Inf obs (rollout_topk_log_probs a) (rollout_topk_log_probs b))) (\<lambda>logps.
         rbind (check (remove_sample a = remove_sample b)) (\<lambda>_.
         rbind (merge_metadata obs na (metadata a) nb (metadata b)) (\<lambda>md.
         rbind (check (same_settings a b)) (\<lambda>_.
         Inr (a\<lparr>sample_prompt := sample_prompt b, tokens := tokens b,
                response := response a @ decode (observation a b) @ response b, response_length := na + int obs + nb,
                loss_mask := Some (filled 1 na (loss_mask a) @ replicate obs 0 @ filled 1 nb (loss_mask b)),
                weight_versions := weight_versions a @ weight_versions b,
                rollout_log_probs := Some (filled (Logp 0) na (rollout_log_probs a) @ replicate obs (Logp 0) @ filled (Logp 0) nb (rollout_log_probs b)),
                rollout_topk_token_ids := ids, rollout_topk_log_probs := logps, rollout_sampling_mask := mask,
                teacher_log_probs := merge_optional_per_token obs na (teacher_log_probs a) nb (teacher_log_probs b),
                opd_reverse_kl := merge_optional_per_token obs na (opd_reverse_kl a) nb (opd_reverse_kl b),
                rollout_routed_experts := rollout_routed_experts b, rollout_indexer_topk := rollout_indexer_topk b,
                rollout_store_plan := plan, sample_status := sample_status b, metadata := md,
                sample_spec_info := merge_spec_info (sample_spec_info a) (sample_spec_info b),
                sample_prefix_cache_info := merge_prefix_cache_info (sample_prefix_cache_info a) (sample_prefix_cache_info b)\<rparr>)))))))))"

section \<open>All turns\<close>

definition gap :: "'a option \<Rightarrow> 'b option \<Rightarrow> bool" where
  "gap a b \<longleftrightarrow> a \<noteq> None \<and> b = None"

definition introduces_replay_gap :: "sample \<Rightarrow> sample \<Rightarrow> bool" where
  "introduces_replay_gap a b \<longleftrightarrow>
     gap (rollout_routed_experts a) (rollout_routed_experts b) \<or> gap (rollout_indexer_topk a) (rollout_indexer_topk b) \<or>
     gap (rollout_sampling_mask a) (rollout_sampling_mask b)"

fun merge_onto :: "(int list \<Rightarrow> string) \<Rightarrow> sample \<Rightarrow> sample list \<Rightarrow> store_error + sample" where
  "merge_onto decode acc [] = Inr acc"
| "merge_onto decode acc (s # ss) =
     (if sample_status acc \<noteq> Completed \<or> introduces_replay_gap acc s then Inr acc
      else rbind (merge_sample_pair decode acc s) (\<lambda>m. merge_onto decode m ss))"

definition merge_samples :: "(int list \<Rightarrow> string) \<Rightarrow> sample list \<Rightarrow> store_error + sample" where
  "merge_samples decode samples =
     (case samples of [] \<Rightarrow> Inl (Store_Raised IndexError) | s # ss \<Rightarrow> merge_onto decode s ss)"

section \<open>Merging two turns\<close>

lemma merge_turn_continues:
  assumes "merge_turn a b obs = Inr m" and "distinct (map fst (plan_fields b))"
  shows "continues_within a b"
proof -
  let ?xs = "plan_fields (insert_tokens obs a)"
  let ?g = "\<lambda>(f, segs). rbind (append_segs f segs (the (map_of (plan_fields b) f))) (\<lambda>out. Inr (f, out))"
  obtain ys where keys: "fst ` set ?xs = fst ` set (plan_fields b)" and r: "rmap ?g ?xs = Inr ys"
    using assms(1) by (auto simp: merge_turn_def append_response_def zip_fields_def result_simps split: if_splits)
  have each: "\<exists>y. ?g x = Inr y" if "x \<in> set ?xs" for x
    using r that by (auto simp: rmap_Inr_iff list_all2_conv_all_nth in_set_conv_nth)
  have "covered_rows new \<le> num_rows segs"
    if "(f, segs) \<in> set (plan_fields a)" "map_of (plan_fields b) f = Some new" "is_forward f" for f segs new
  proof -
    have "(f, segs) \<in> set ?xs" using that(1,3) by (force simp: insert_tokens_def insert_segs_def)
    from each[OF this] that(2,3) show ?thesis by (auto simp: append_segs_def Let_def result_simps split: if_splits)
  qed
  moreover have "fst ` set ?xs = fst ` set (plan_fields a)" by (force simp: insert_tokens_def)
  ultimately show ?thesis using keys by (auto simp: continues_within_def)
qed

lemma combine_plans_ok:
  assumes "combine_plans x y (\<lambda>p q. merge_turn p q obs) = Inr z" and "0 \<le> obs"
    and "pred_option (\<lambda>p. plan_valid p nt1 r1) x" and "pred_option (\<lambda>p. plan_valid p nt2 r2) y"
  shows "pred_option (\<lambda>p. plan_valid p nt2 (r1 + obs + r2)) z"
proof (cases "(x, y)")
  case (Pair x' y')
  show ?thesis
  proof (cases x)
    case None
    then show ?thesis using assms(1) by (auto simp: combine_plans_def split: option.splits)
  next
    case (Some p)
    then obtain q r where q: "y = Some q" "z = Some r" "merge_turn p q obs = Inr r"
      using assms(1) by (auto simp: combine_plans_def result_simps split: option.splits)
    then have "continues_within p q" using merge_turn_continues assms(4) by (auto simp: plan_valid_def plan_segs_ok_def)
    from merge_turn_ok[OF _ _ this assms(2)] assms(3,4) Some q show ?thesis by force
  qed
qed

lemma merge_masks_ok:
  assumes "merge_sampling_masks x obs y = Inr z" and "pred_option mask_ok x" and "pred_option mask_ok y"
    and "pred_option (\<lambda>m. int (mask_length m) = n1) x" and "pred_option (\<lambda>m. int (mask_length m) = n2) y"
  shows "pred_option mask_ok z \<and> pred_option (\<lambda>m. int (mask_length m) = n1 + int (length obs) + n2) z \<and> (z = None \<longleftrightarrow> x = None) \<and> (x = None \<longleftrightarrow> y = None)"
proof (cases x)
  case (Some ma)
  then obtain mb mo m where h: "y = Some mb" "from_mask_list (map (\<lambda>t. [t]) obs) = Inr mo" "concatenate [ma, mo, mb] = Inr m" "z = Some m"
    using assms(1) by (auto simp: merge_sampling_masks_def result_simps split: option.splits)
  have "[] \<notin> set (map (\<lambda>t. [t]) obs)" by auto
  then have mo: "mask_ok mo" "mask_rows mo = map (\<lambda>t. [t]) obs"
    using from_mask_list_spec[of "map (\<lambda>t. [t]) obs"] h(2) by (auto split: if_splits)
  then show ?thesis using concatenate_spec[of "[ma, mo, mb]"] h assms(2-5) Some by (auto simp: mask_length_rows)
qed (use assms(1) in \<open>auto simp: merge_sampling_masks_def split: option.splits\<close>)

lemma merge_topk_ok:
  assumes "merge_topk f1 obs ia ib = Inr ids" and "merge_topk f2 obs la lb = Inr logps"
    and "topk_ok na ia la" and "topk_ok nb ib lb"
  shows "topk_ok (na + int obs + nb) ids logps"
  using assms by (auto simp: topk_ok_def merge_topk_def split: option.splits prod.splits if_splits)

lemma validate_call_mono:
  assumes "validate_call t c = Inr ()" and "t \<le> t'" shows "validate_call t' c = Inr ()"
  using assms unfolding validate_call_def by (auto simp: result_simps split: option.splits)

lemma validate_spans_longer: "validate_spans t p ss = Inr () \<Longrightarrow> t \<le> t' \<Longrightarrow> validate_spans t' p ss = Inr ()"
  by (induction ss arbitrary: p) (auto simp: result_simps)

lemma validate_spans_later:
  "validate_spans t p ss = Inr () \<Longrightarrow> \<forall>s \<in> set ss. p' \<le> abs_start s \<Longrightarrow> validate_spans t p' ss = Inr ()"
  by (cases ss) (auto simp: result_simps)

lemma pair_layout:
  assumes "starts_with (tokens a) (tokens b)" and "0 < observation_length a b" and "0 \<le> response_length b"
  shows "length (observation a b) = nat (observation_length a b)"
    and "tokens b = tokens a @ observation a b @ output_tokens b"
    and "length (output_tokens b) = nat (response_length b)"
proof -
  obtain rest where b: "tokens b = tokens a @ rest"
    using assms(1) unfolding starts_with_def by (metis append_take_drop_id)
  define o' where "o' = nat (observation_length a b)"
  have len: "length rest = o' + nat (response_length b)"
    using assms(2,3) b unfolding o'_def observation_length_def by (simp add: nat_diff_distrib' flip: nat_add_distrib)
  have obs: "observation a b = take o' rest"
    using assms(2) b unfolding observation_def Let_def o'_def by (simp add: nat_add_distrib)
  have out: "output_tokens b = drop o' rest"
    using len b by (simp add: output_tokens_def last_items_def)
  show "length (observation a b) = nat (observation_length a b)" unfolding obs using len by (simp add: o'_def)
  show "tokens b = tokens a @ observation a b @ output_tokens b" unfolding obs out b by simp
  show "length (output_tokens b) = nat (response_length b)" unfolding out using len by simp
qed

text \<open>The tokens of a response that are trained on: those its mask does not zero.\<close>

definition trained :: "sample \<Rightarrow> int list" where
  "trained s = map fst (filter (\<lambda>(t, m). m \<noteq> 0) (zip (output_tokens s) (filled 1 (response_length s) (loss_mask s))))"

text \<open>Engine calls report the versions of tokens of their own response, and media counts do not change.\<close>

definition own_spans :: "sample \<Rightarrow> bool" where
  "own_spans s \<longleftrightarrow> (\<forall>x \<in> set (all_spans s). num_tokens s - response_length s \<le> abs_start x)"

definition same_media :: "sample \<Rightarrow> sample \<Rightarrow> bool" where
  "same_media a b \<longleftrightarrow> media_extra (multimodal_train_inputs a) = media_extra (multimodal_train_inputs b)"

lemma merge_pair_fields:
  assumes "merge_sample_pair decode a b = Inr m"
  shows "validate a = Inr () \<and> validate b = Inr () \<and> starts_with (tokens a) (tokens b) \<and> 0 < observation_length a b \<and> sample_status a = Completed \<and>
    tokens m = tokens b \<and> response_length m = response_length a + observation_length a b + response_length b \<and>
    loss_mask m = Some (filled 1 (response_length a) (loss_mask a) @ replicate (nat (observation_length a b)) 0 @ filled 1 (response_length b) (loss_mask b)) \<and>
    weight_versions m = weight_versions a @ weight_versions b \<and>
    rollout_log_probs m = Some (filled (Logp 0) (response_length a) (rollout_log_probs a) @ replicate (nat (observation_length a b)) (Logp 0) @
      filled (Logp 0) (response_length b) (rollout_log_probs b)) \<and>
    teacher_log_probs m = merge_optional_per_token (nat (observation_length a b)) (response_length a) (teacher_log_probs a) (response_length b) (teacher_log_probs b) \<and>
    opd_reverse_kl m = merge_optional_per_token (nat (observation_length a b)) (response_length a) (opd_reverse_kl a) (response_length b) (opd_reverse_kl b) \<and>
    rollout_routed_experts m = rollout_routed_experts b \<and> rollout_indexer_topk m = rollout_indexer_topk b \<and> sample_status m = sample_status b \<and>
    multimodal_train_inputs m = multimodal_train_inputs a \<and> sample_prompt m = sample_prompt b \<and>
    merge_sampling_masks (rollout_sampling_mask a) (observation a b) (rollout_sampling_mask b) = Inr (rollout_sampling_mask m) \<and>
    combine_plans (rollout_store_plan a) (rollout_store_plan b) (\<lambda>x y. merge_turn x y (observation_length a b)) = Inr (rollout_store_plan m) \<and>
    merge_topk (-1) (nat (observation_length a b)) (rollout_topk_token_ids a) (rollout_topk_token_ids b) = Inr (rollout_topk_token_ids m) \<and>
    merge_topk Neg_Inf (nat (observation_length a b)) (rollout_topk_log_probs a) (rollout_topk_log_probs b) = Inr (rollout_topk_log_probs m)"
  using assms unfolding merge_sample_pair_def check_pair_def Let_def
  apply (simp only: rbind_Inr_iff guard_Inr_iff raised_simps split_paired_Ex prod.case)
  apply (elim exE conjE)
  apply (simp only: sum.inject prod.inject)
  apply (elim conjE)
  apply hypsubst
  apply (intro conjI)
  apply (assumption | (simp (no_asm); fail) | (simp (no_asm_simp); fail))+
  done

lemma length_filled: "0 \<le> n \<Longrightarrow> pred_option (\<lambda>xs. int (length xs) = n) x \<Longrightarrow> int (length (filled d n x)) = n"
  by (cases x) (auto simp: filled_def)

lemma merge_optional_ok:
  assumes "0 \<le> na" and "0 \<le> nb" and "pred_option (\<lambda>xs. int (length xs) = na) x" and "pred_option (\<lambda>xs. int (length xs) = nb) y"
  shows "pred_option (\<lambda>xs. int (length xs) = na + int obs + nb) (merge_optional_per_token obs na x nb y)"
  using length_filled[OF assms(1,3), of "Logp 0"] length_filled[OF assms(2,4), of "Logp 0"] by (auto simp: merge_optional_per_token_def)

lemma merge_pair_ok:
  assumes m: "merge_sample_pair decode a b = Inr m" and a: "sample_ok a" and b: "sample_ok b" and own: "own_spans b" and media: "same_media a b"
  shows "sample_ok m"
proof -
  let ?o = "observation_length a b" and ?na = "response_length a" and ?nb = "response_length b"
  note f = merge_pair_fields[OF m]
  note va = a[unfolded sample_ok_def validate_sample_iff] and vb = b[unfolded sample_ok_def validate_sample_iff]
  have obs: "0 < ?o" "int (nat ?o) = ?o" using f by auto
  have t: "num_tokens a + ?o + ?nb = num_tokens b" by (simp add: observation_length_def)
  have layout: "length (observation a b) = nat ?o" using pair_layout[of a b] f vb by blast
  have col: "int (length (filled d ?na x @ replicate (nat ?o) e @ filled d' ?nb y)) = ?na + ?o + ?nb"
    if "pred_option (\<lambda>xs. int (length xs) = ?na) x" "pred_option (\<lambda>xs. int (length xs) = ?nb) y" for d d' e :: 'c and x y
    using length_filled[OF _ that(1), of d] length_filled[OF _ that(2), of d'] va vb obs by simp
  have opt: "pred_option (\<lambda>xs. int (length xs) = ?na + ?o + ?nb) (merge_optional_per_token (nat ?o) ?na x ?nb y)"
    if "pred_option (\<lambda>xs. int (length xs) = ?na) x" "pred_option (\<lambda>xs. int (length xs) = ?nb) y" for x y
    using merge_optional_ok[OF _ _ that, of "nat ?o"] va vb obs by simp
  have mask: "pred_option mask_ok (rollout_sampling_mask m)" "pred_option (\<lambda>x. int (mask_length x) = ?na + ?o + ?nb) (rollout_sampling_mask m)"
    using merge_masks_ok[of "rollout_sampling_mask a" "observation a b" "rollout_sampling_mask b" "rollout_sampling_mask m" ?na ?nb]
      f va vb layout obs by auto
  have plan: "pred_option (\<lambda>p. plan_valid p (num_tokens b) (?na + ?o + ?nb)) (rollout_store_plan m)"
  proof (rule combine_plans_ok)
    show "pred_option (\<lambda>p. plan_valid p (num_tokens a) ?na) (rollout_store_plan a)" using va by (auto simp: plan_valid_def pred_option_def)
    show "pred_option (\<lambda>p. plan_valid p (num_tokens b) ?nb) (rollout_store_plan b)" using vb by (auto simp: plan_valid_def pred_option_def)
  qed (use f obs in auto)
  have topk: "topk_ok (?na + ?o + ?nb) (rollout_topk_token_ids m) (rollout_topk_log_probs m)"
    using merge_topk_ok[of "-1" "nat ?o" "rollout_topk_token_ids a" "rollout_topk_token_ids b" "rollout_topk_token_ids m"
        Neg_Inf "rollout_topk_log_probs a" "rollout_topk_log_probs b" "rollout_topk_log_probs m" ?na ?nb] f va vb obs by simp
  have le: "num_tokens a \<le> num_tokens b" using t obs vb by linarith
  have "validate_spans (num_tokens b) (num_tokens a) (all_spans b) = Inr ()"
    by (rule validate_spans_later[of _ 0]) (use vb own t obs in \<open>auto simp: own_spans_def\<close>)
  moreover have "spans_end 0 (all_spans a) \<le> num_tokens a" using spans_end_le[of "num_tokens a" 0 "all_spans a"] va by (cases "all_spans a = []") (auto simp: spans_end_def)
  ultimately have spans: "validate_spans (num_tokens b) 0 (all_spans a @ all_spans b) = Inr ()"
    using validate_spans_longer[OF _ le, of 0 "all_spans a"] va validate_spans_mono by (simp add: validate_spans_append)
  have "all_spans m = all_spans a @ all_spans b" using f by (simp add: all_spans_def)
  then have spans': "validate_spans (num_tokens m) 0 (all_spans m) = Inr ()" using spans f by simp
  have calls: "\<forall>c \<in> set (weight_versions m). validate_call (num_tokens m) c = Inr ()"
    using f va vb validate_call_mono[OF _ le] by auto
  have experts: "pred_option (experts_ok (multimodal_train_inputs m) (num_tokens m)) (rollout_routed_experts m)"
  proof -
    have "experts_ok (multimodal_train_inputs a) = (experts_ok (multimodal_train_inputs b) :: int \<Rightarrow> int list list list \<Rightarrow> bool)"
      using media by (intro ext) (simp add: experts_ok_def same_media_def)
    then show ?thesis using vb f by simp
  qed
  have p: "pred_option plan_segs_ok (rollout_store_plan m)"
    "pred_option (\<lambda>p. validate_plan p (num_tokens b) (?na + ?o + ?nb) = Inr ()) (rollout_store_plan m)"
    using plan by (auto elim!: pred_option_mp simp: plan_valid_def)
  have rl: "0 \<le> ?na + ?o + ?nb" "?na + ?o + ?nb \<le> num_tokens b" using va vb t obs by linarith+
  have n: "response_length m = ?na + ?o + ?nb" "tokens m = tokens b" "multimodal_train_inputs m = multimodal_train_inputs a"
    "rollout_indexer_topk m = rollout_indexer_topk b" using f by blast+
  have cols: "pred_option (\<lambda>xs. int (length xs) = ?na + ?o + ?nb) (loss_mask m)"
    "pred_option (\<lambda>xs. int (length xs) = ?na + ?o + ?nb) (rollout_log_probs m)"
    using f va vb col[of "loss_mask a" "loss_mask b" 1 0 1] col[of "rollout_log_probs a" "rollout_log_probs b" "Logp 0" "Logp 0" "Logp 0"]
    by (simp_all del: length_append)
  have opts: "pred_option (\<lambda>xs. int (length xs) = ?na + ?o + ?nb) (teacher_log_probs m)"
    "pred_option (\<lambda>xs. int (length xs) = ?na + ?o + ?nb) (opd_reverse_kl m)"
    using f va vb opt by simp_all
  have media': "case media_extra (multimodal_train_inputs m) of Inr e \<Rightarrow> 0 \<le> e | Inl _ \<Rightarrow> True" unfolding n(3) using va by blast
  have idx: "pred_option (\<lambda>rows. int (length rows) = num_tokens m - 1) (rollout_indexer_topk m)" unfolding n(2,4) using vb by blast
  show ?thesis unfolding sample_ok_def validate_sample_iff unfolding n(1)
    by (intro conjI rl(1) rl(2)[folded n(2)] p(1) p(2)[folded n(2)] topk mask spans' calls experts cols opts media' idx)
qed

lemma sample_ok_lengths:
  assumes "sample_ok s"
  shows "int (length (output_tokens s)) = response_length s" and "length (filled d (response_length s) (loss_mask s)) = length (output_tokens s)"
    and "0 \<le> response_length s" and "response_length s \<le> num_tokens s"
proof -
  note v = assms[unfolded sample_ok_def validate_sample_iff]
  have r: "0 \<le> response_length s" "response_length s \<le> num_tokens s" using v by blast+
  then show len: "int (length (output_tokens s)) = response_length s" by (auto simp: output_tokens_def min_def nat_le_iff)
  show "length (filled d (response_length s) (loss_mask s)) = length (output_tokens s)"
    using length_filled[of "response_length s" "loss_mask s" d] v len by linarith
qed (use assms in \<open>auto simp: sample_ok_def validate_sample_iff\<close>)

lemma merge_pair_output:
  assumes m: "merge_sample_pair decode a b = Inr m" and a: "sample_ok a" and b: "sample_ok b"
  shows "output_tokens m = output_tokens a @ observation a b @ output_tokens b" and "trained m = trained a @ trained b"
proof -
  note f = merge_pair_fields[OF m]
  let ?o = "observation_length a b"
  note L = pair_layout[of a b] and A = sample_ok_lengths[OF a] and B = sample_ok_lengths[OF b]
  have o': "length (observation a b) = nat ?o" "tokens b = tokens a @ observation a b @ output_tokens b"
    using L f B(3) by blast+
  have n: "nat (response_length m) = nat (response_length a) + (length (observation a b) + length (output_tokens b))"
    using f o'(1) A(3) B(1,3) by (simp add: nat_add_distrib)
  have "tokens m = tokens a @ (observation a b @ output_tokens b)" using f o'(2) by simp
  then show out: "output_tokens m = output_tokens a @ observation a b @ output_tokens b"
    unfolding output_tokens_def[of m] n using last_items_append[of "observation a b @ output_tokens b" _ "tokens a"]
    by (simp add: output_tokens_def[of a])
  have "filled 1 (response_length m) (loss_mask m) =
      filled 1 (response_length a) (loss_mask a) @ replicate (length (observation a b)) 0 @ filled 1 (response_length b) (loss_mask b)"
    using f o'(1) by (simp add: filled_def)
  moreover have "filter (\<lambda>(t, m). m \<noteq> 0) (zip xs (replicate (length xs) (0::int))) = []" for xs :: "int list"
    by (auto simp: filter_empty_conv in_set_zip)
  ultimately show "trained m = trained a @ trained b"
    unfolding trained_def out using A(2)[of 1] B(2)[of 1] by (simp add: trained_def)
qed

section \<open>All turns\<close>

lemma merge_masks_none: "merge_sampling_masks x obs y = Inr z \<Longrightarrow> z = None \<longleftrightarrow> y = None"
  by (auto simp: merge_sampling_masks_def result_simps split: option.splits)

lemma merge_pair_gap:
  assumes "merge_sample_pair decode a b = Inr m" and "sample_ok a" and "sample_ok b"
  shows "introduces_replay_gap m s \<longleftrightarrow> introduces_replay_gap b s"
proof -
  note f = merge_pair_fields[OF assms(1)]
  have "rollout_sampling_mask m = None \<longleftrightarrow> rollout_sampling_mask b = None"
    using f merge_masks_none by blast
  then show ?thesis using f by (auto simp: introduces_replay_gap_def gap_def)
qed

lemma merge_onto_spec:
  assumes "merge_onto decode acc ss = Inr m" and "sample_ok acc" and "\<forall>s \<in> set ss. sample_ok s \<and> own_spans s \<and> same_media acc s"
  shows "\<exists>k \<le> length ss. sample_ok m \<and> tokens m = tokens ((acc # ss) ! k) \<and> sample_status m = sample_status ((acc # ss) ! k) \<and>
    sample_prompt m = sample_prompt ((acc # ss) ! k) \<and>
    trained m = trained acc @ concat (map trained (take k ss)) \<and>
    (k < length ss \<longrightarrow> sample_status ((acc # ss) ! k) \<noteq> Completed \<or> introduces_replay_gap ((acc # ss) ! k) (ss ! k))"
  using assms
proof (induction ss arbitrary: acc)
  case (Cons s ss)
  show ?case
  proof (cases "sample_status acc \<noteq> Completed \<or> introduces_replay_gap acc s")
    case True
    then show ?thesis using Cons.prems by (intro exI[of _ 0]) auto
  next
    case False
    then obtain p where p: "merge_sample_pair decode acc s = Inr p" "merge_onto decode p ss = Inr m"
      using Cons.prems(1) by (auto simp: rbind_Inr_iff)
    have ok: "sample_ok s" "own_spans s" "same_media acc s" using Cons.prems(3) by auto
    have pok: "sample_ok p" by (rule merge_pair_ok[OF p(1) Cons.prems(2) ok])
    note f = merge_pair_fields[OF p(1)]
    have "multimodal_train_inputs p = multimodal_train_inputs acc" using f by blast
    then have "\<forall>x \<in> set ss. sample_ok x \<and> own_spans x \<and> same_media p x" using Cons.prems(3) by (auto simp: same_media_def)
    from Cons.IH[OF p(2) pok this] obtain k where k: "k \<le> length ss" "sample_ok m" "tokens m = tokens ((p # ss) ! k)"
      "sample_status m = sample_status ((p # ss) ! k)" "sample_prompt m = sample_prompt ((p # ss) ! k)"
      "trained m = trained p @ concat (map trained (take k ss))"
      "k < length ss \<longrightarrow> sample_status ((p # ss) ! k) \<noteq> Completed \<or> introduces_replay_gap ((p # ss) ! k) (ss ! k)" by blast
    note out = merge_pair_output(2)[OF p(1) Cons.prems(2) ok(1)]
    show ?thesis using k f out merge_pair_gap[OF p(1) Cons.prems(2) ok(1)]
      by (intro exI[of _ "Suc k"]) (cases k, auto)
  qed
qed (auto intro: exI[of _ 0])

text \<open>
  C5. Merging the turns of a conversation: if every turn is valid and its calls report versions of its own
  response, a successful merge is a valid sample that ends where one of the turns ends: the last one, or the
  first whose reply was not completed or after which replay data is missing.  It is trained on exactly the tokens
  its turns are trained on, in order; the observations between them are masked.
\<close>

theorem merged_conversation_valid:
  assumes "merge_samples decode ss = Inr m" and "\<forall>s \<in> set ss. sample_ok s \<and> own_spans s \<and> same_media (hd ss) s"
  shows "\<exists>k < length ss. sample_ok m \<and> tokens m = tokens (ss ! k) \<and> sample_status m = sample_status (ss ! k) \<and>
    trained m = concat (map trained (take (k + 1) ss)) \<and>
    (k + 1 < length ss \<longrightarrow> sample_status (ss ! k) \<noteq> Completed \<or> introduces_replay_gap (ss ! k) (ss ! (k + 1)))"
proof (cases ss)
  case (Cons s rest)
  then have "merge_onto decode s rest = Inr m" using assms(1) by (simp add: merge_samples_def)
  from merge_onto_spec[OF this] assms(2) Cons obtain k where "k \<le> length rest" "sample_ok m" "tokens m = tokens ((s # rest) ! k)"
    "sample_status m = sample_status ((s # rest) ! k)" "trained m = trained s @ concat (map trained (take k rest))"
    "k < length rest \<longrightarrow> sample_status ((s # rest) ! k) \<noteq> Completed \<or> introduces_replay_gap ((s # rest) ! k) (rest ! k)"
    by auto
  then show ?thesis by (intro exI[of _ k]) (auto simp: Cons)
qed (use assms(1) in \<open>simp add: merge_samples_def\<close>)

text \<open>Two turns: a prompt of two tokens with a reply of two, then an observed token and a reply of one, with masks.\<close>

definition demo_turn1 :: sample where
  "demo_turn1 = new_sample\<lparr>tokens := [1, 2, 3, 4], response := ''ab'', response_length := 2, loss_mask := Some [1, 1],
     rollout_log_probs := Some [Logp 0, Logp 0], rollout_sampling_mask := Some \<lparr>mask_ids = [3, 9, 4], mask_offsets = [0, 2, 3]\<rparr>,
     weight_versions := [\<lparr>spans = [\<lparr>version = ''7'', abs_start = 2, abs_end = 4\<rparr>], prefill_spans = [], output_start = Some 2, prompt_tokens = Some 2\<rparr>],
     sample_status := Completed\<rparr>"

definition demo_turn2 :: sample where
  "demo_turn2 = new_sample\<lparr>tokens := [1, 2, 3, 4, 5, 6], response := ''c'', response_length := 1,
     rollout_sampling_mask := Some \<lparr>mask_ids = [6], mask_offsets = [0, 1]\<rparr>,
     weight_versions := [\<lparr>spans = [\<lparr>version = ''8'', abs_start = 5, abs_end = 6\<rparr>], prefill_spans = [], output_start = Some 5, prompt_tokens = None\<rparr>],
     sample_status := Truncated\<rparr>"

lemma demo_masks_ok: "mask_ok \<lparr>mask_ids = [3, 9, 4], mask_offsets = [0, 2, 3]\<rparr>" "mask_ok \<lparr>mask_ids = [6], mask_offsets = [0, 1]\<rparr>"
  by code_simp+

lemma demo_turns_ok: "sample_ok demo_turn1" "sample_ok demo_turn2" "own_spans demo_turn2" "same_media demo_turn1 demo_turn2"
  "own_spans demo_turn1"
  using demo_masks_ok
  by (simp_all add: sample_ok_def validate_sample_iff demo_turn1_def demo_turn2_def new_sample_def topk_ok_def mask_length_def all_spans_def
      validate_call_def own_spans_def same_media_def media_extra_def list_or_empty_def dget_def)

lemma demo_turns_merge: "\<exists>m. merge_samples (\<lambda>ts. ''o'') [demo_turn1, demo_turn2] = Inr m"
proof -
  have "(case merge_samples (\<lambda>ts. ''o'') [demo_turn1, demo_turn2] of Inr m \<Rightarrow> True | Inl e \<Rightarrow> False)" by code_simp
  then show ?thesis by (auto split: sum.splits)
qed

lemma merged_conversation_valid_witness:
  "\<exists>m. merge_samples (\<lambda>ts. ''o'') [demo_turn1, demo_turn2] = Inr m \<and> sample_ok m \<and>
    (trained m = [3, 4, 6] \<and> tokens m = [1, 2, 3, 4, 5, 6] \<or> introduces_replay_gap demo_turn1 demo_turn2)"
proof -
  obtain m where m: "merge_samples (\<lambda>ts. ''o'') [demo_turn1, demo_turn2] = Inr m" using demo_turns_merge by blast
  have h: "\<forall>s \<in> set [demo_turn1, demo_turn2]. sample_ok s \<and> own_spans s \<and> same_media (hd [demo_turn1, demo_turn2]) s"
    using demo_turns_ok by (simp add: same_media_def)
  have e: "trained demo_turn1 = [3, 4]" "trained demo_turn2 = [6]" "sample_status demo_turn1 = Completed" "tokens demo_turn2 = [1, 2, 3, 4, 5, 6]"
    by code_simp+
  let ?ss = "[demo_turn1, demo_turn2]"
  from merged_conversation_valid[OF m h] obtain k where k: "k < length ?ss" "sample_ok m" "tokens m = tokens (?ss ! k)"
    "trained m = concat (map trained (take (k + 1) ?ss))"
    "k + 1 < length ?ss \<longrightarrow> sample_status (?ss ! k) \<noteq> Completed \<or> introduces_replay_gap (?ss ! k) (?ss ! (k + 1))"
    by blast
  then consider "k = 0" | "k = 1" by fastforce
  then show ?thesis using m e k by cases auto
qed

end
