(* ===== verification/Session_Samples.thy ===== *)
theory Session_Samples
  imports Sample_Merge Session_Linear
begin

text \<open>
  From the records of a session to training samples: \<^verbatim>\<open>miles/rollout/session/samples/merge.py\<close> with the
  columns it reads off an engine's response (\<^verbatim>\<open>generate_utils/sampling_mask.py\<close>,
  \<^verbatim>\<open>generate_utils/rollout_topk_logprobs.py\<close>).  Each turn becomes a sample whose output is aligned with the
  session's accumulated tokens, samples beyond a token budget are cut, and the rest is merged.  Decoding the
  payloads that are arrays in base64, object references and timestamps are parameters.
\<close>

section \<open>Columns of a response\<close>

fun logp_value :: "json \<Rightarrow> py_exn + logp" where
  "logp_value (JFloat r) = Inr (Logp r)"
| "logp_value (JInt i) = Inr (Logp (of_int i))"
| "logp_value _ = Inl TypeError"

fun is_arr :: "json \<Rightarrow> bool" where
  "is_arr (JArr xs) = True"
| "is_arr _ = False"

definition append_sampling_mask :: "sampling_mask \<Rightarrow> sample \<Rightarrow> py_exn + sample" where
  "append_sampling_mask new s =
     (case rollout_sampling_mask s of
        None \<Rightarrow> if response_length s \<noteq> 0 then Inl ValueError else Inr (s\<lparr>rollout_sampling_mask := Some new\<rparr>)
      | Some m \<Rightarrow>
          if int (mask_length m) \<noteq> response_length s then Inl ValueError
          else rbind (concatenate [m, new]) (\<lambda>c. Inr (s\<lparr>rollout_sampling_mask := Some c\<rparr>)))"

definition append_forced_sampling_tokens :: "int list \<Rightarrow> sample \<Rightarrow> py_exn + sample" where
  "append_forced_sampling_tokens ids s = rbind (from_mask_list (map (\<lambda>t. [t]) ids)) (\<lambda>m. append_sampling_mask m s)"

definition mask_from_supports :: "int list \<Rightarrow> int list list \<Rightarrow> py_exn + sampling_mask" where
  "mask_from_supports ids sups =
     (if length ids \<noteq> length sups then Inl ValueError
      else rbind (rmap (\<lambda>(t, row). guard ValueError (row \<noteq> [] \<and> t \<in> set row)) (zip ids sups)) (\<lambda>_. from_mask_list sups))"

text \<open>The log-probability of the sampled token in the row of its support.\<close>

definition selected_of_row :: "int \<Rightarrow> int list \<Rightarrow> json \<Rightarrow> py_exn + logp" where
  "selected_of_row t ids row =
     (case row of
        JArr ps \<Rightarrow>
          if length ps \<noteq> length ids then Inl ValueError
          else (case filter (\<lambda>i. ids ! i = t) [0..<length ids] of [i] \<Rightarrow> logp_value (ps ! i) | _ \<Rightarrow> Inl ValueError)
      | _ \<Rightarrow> Inl ValueError)"

definition int_rows :: "json \<Rightarrow> py_exn + int list list" where
  "int_rows v = rbind (arr_value v) (rmap (\<lambda>row. rbind (arr_value row) (rmap int_value)))"

definition append_sampling_metadata ::
    "int list \<Rightarrow> obj \<Rightarrow> bool \<Rightarrow> string \<Rightarrow> sample \<Rightarrow> py_exn + logp list \<times> sample" where
  "append_sampling_metadata ids meta aborted mode s =
     (if dget meta ''output_token_sampling_mask'' = JNull \<or> dget meta ''output_token_sampling_logprobs'' = JNull
      then (let finish = as_obj (dget meta ''finish_reason'')
            in if (aborted \<or> dget finish ''type'' = JStr ''abort'') \<and> ids = []
               then rbind (from_mask_list []) (\<lambda>m. rbind (append_sampling_mask m s) (\<lambda>s'. Inr ([], s')))
               else Inl ValueError)
      else rbind (arr_value (dget meta ''output_token_sampling_logprobs'')) (\<lambda>logps.
           rbind (guard ValueError (length logps = length ids)) (\<lambda>_.
           rbind (int_rows (dget meta ''output_token_sampling_mask'')) (\<lambda>sups.
           rbind (mask_from_supports ids sups) (\<lambda>new.
           rbind (if mode = ''support'' then rmap (\<lambda>(t, allowed, row). selected_of_row t allowed row) (zip ids (zip sups logps))
                  else if mode = ''selected''
                  then (if list_ex is_arr logps then Inl ValueError else rmap logp_value logps)
                  else Inl ValueError) (\<lambda>selected.
           rbind (append_sampling_mask new s) (\<lambda>s'. Inr (selected, s'))))))))"

definition read_sampled_logprobs :: "obj \<Rightarrow> int list \<Rightarrow> string \<Rightarrow> store_error + logp list" where
  "read_sampled_logprobs meta ids mode =
     rbind (if mode = ''support'' then Inr ''output_token_sampling_selected_logprobs''
            else if mode = ''selected'' then Inr ''output_token_sampling_logprobs''
            else Inl (Store_Raised ValueError)) (\<lambda>key.
     rbind (raised (arr_value (dget_or meta key (JArr [])))) (\<lambda>logps.
     rbind (guard Store_Plan_Error (length logps = length ids)) (\<lambda>_.
     raised (rmap logp_value logps))))"

text \<open>One row of candidates, padded to \<open>k\<close> columns; numpy repeats a single log-probability.\<close>

definition candidate_row :: "nat \<Rightarrow> int list \<Rightarrow> logp list \<Rightarrow> py_exn + int list \<times> logp list" where
  "candidate_row k ids logps =
     (if k < length ids then Inl ValueError
      else let ps = (if length logps = 1 then replicate (length ids) (hd logps) else logps)
           in if length ps \<noteq> length ids then Inl ValueError
              else Inr (ids @ replicate (k - length ids) (-1), ps @ replicate (k - length ids) Neg_Inf))"

definition top_entry :: "json \<Rightarrow> py_exn + int \<times> logp" where
  "top_entry v =
     rbind (arr_value v) (\<lambda>xs. case xs of p # t # _ \<Rightarrow> rbind (int_value t) (\<lambda>t. rbind (logp_value p) (\<lambda>p. Inr (t, p))) | _ \<Rightarrow> Inl IndexError)"

definition candidates_of_row :: "bool \<Rightarrow> nat \<Rightarrow> obj \<Rightarrow> nat \<Rightarrow> json \<Rightarrow> py_exn + int list \<times> logp list" where
  "candidates_of_row in_support k meta i row =
     rbind (arr_value row) (\<lambda>entries.
     if in_support
     then (if k < length entries then Inl ValueError
           else rbind (rbind (entry meta ''output_token_sampling_mask'') int_rows) (\<lambda>masks.
                if length masks \<le> i then Inl IndexError
                else rbind (rmap logp_value entries) (\<lambda>ps. candidate_row k (masks ! i) ps)))
     else rbind (rmap top_entry (take k entries)) (\<lambda>es. candidate_row k (map fst es) (map snd es)))"

text \<open>\<open>flat\<close> decodes the flat base64 form: the number of columns and the rows.\<close>

definition response_candidates ::
    "(obj \<Rightarrow> py_exn + nat \<times> int list list \<times> logp list list) \<Rightarrow> obj \<Rightarrow> nat \<Rightarrow> bool \<Rightarrow> py_exn + int list list \<times> logp list list" where
  "response_candidates flat meta k in_support =
     rbind (list_or_empty (dget meta ''output_token_logprobs'')) (\<lambda>outs. let n = length outs in
     if \<not> in_support \<and> dhas meta ''output_top_logprobs_shape''
     then rbind (flat meta) (\<lambda>(width, ids, logps).
          if length ids \<noteq> n then Inl ValueError
          else if n \<noteq> 0 \<and> width < k then Inl ValueError
          else Inr (map (take k) ids, map (take k) logps))
     else (let rows = dget meta (if in_support then ''output_token_sampling_logprobs'' else ''output_top_logprobs'')
           in rbind (list_or_empty rows) (\<lambda>xs.
              if n \<noteq> 0 \<and> length xs \<noteq> n then Inl ValueError
              else if n < length xs then Inl IndexError
              else rbind (rmap (\<lambda>i. candidates_of_row in_support k meta i (xs ! i)) [0..<length xs]) (\<lambda>cs.
                   Inr (map fst cs, map snd cs)))))"

definition append_rows :: "nat \<Rightarrow> 'a list list \<Rightarrow> 'a matrix option \<Rightarrow> py_exn + 'a matrix option" where
  "append_rows k rows old =
     (case old of None \<Rightarrow> Inr (Some (k, rows)) | Some (k', xs) \<Rightarrow> if k' \<noteq> k then Inl ValueError else Inr (Some (k, xs @ rows)))"

definition append_rollout_topk_logprobs ::
    "(obj \<Rightarrow> py_exn + nat \<times> int list list \<times> logp list list) \<Rightarrow> obj \<Rightarrow> nat \<Rightarrow> string \<Rightarrow> sample \<Rightarrow> py_exn + sample" where
  "append_rollout_topk_logprobs flat meta k mode s =
     (if k = 0 then Inr s
      else rbind (response_candidates flat meta k (mode = ''support'')) (\<lambda>(ids, logps).
           rbind (append_rows k ids (rollout_topk_token_ids s)) (\<lambda>i.
           rbind (append_rows k logps (rollout_topk_log_probs s)) (\<lambda>l.
           Inr (s\<lparr>rollout_topk_token_ids := i, rollout_topk_log_probs := l\<rparr>)))))"

definition pad_rows :: "'a \<Rightarrow> nat \<Rightarrow> 'a matrix option \<Rightarrow> 'a matrix option" where
  "pad_rows fill n = map_option (\<lambda>(k, xs). (k, xs @ replicate n (replicate k fill)))"

definition pad_rollout_topk_logprobs :: "nat \<Rightarrow> sample \<Rightarrow> sample" where
  "pad_rollout_topk_logprobs n s =
     s\<lparr>rollout_topk_token_ids := pad_rows (-1) n (rollout_topk_token_ids s),
       rollout_topk_log_probs := pad_rows Neg_Inf n (rollout_topk_log_probs s)\<rparr>"

section \<open>One record\<close>

text \<open>What a deployment fixes: the tokenizer's decoder, the decoders of base64 arrays, of flat candidates and of
  object references, the times of the turns (a record's \<open>timestamp\<close> and \<open>request_timestamp\<close>, exact
  instead of rounded), and the configuration.\<close>

record sample_env =
  se_decode :: "int list \<Rightarrow> string"
  se_b64 :: "json \<Rightarrow> py_exn + int list"
  se_flat :: "obj \<Rightarrow> py_exn + nat \<times> int list list \<times> logp list list"
  se_ref :: "json \<Rightarrow> store_error + store_ref option"
  se_time :: "nat \<Rightarrow> rat"
  se_request_time :: "nat \<Rightarrow> rat option"
  se_num_layers :: int
  se_indexer_streams :: "int option"
  se_topk :: nat
  se_speculative :: bool
  se_debug :: bool

definition choice_of :: "session_record \<Rightarrow> py_exn + obj" where
  "choice_of r =
     rbind (rbind (entry (rec_response r) ''choices'') arr_value) (\<lambda>cs.
     case cs of [] \<Rightarrow> Inl IndexError | c # _ \<Rightarrow> obj_value c)"

definition meta_of :: "obj \<Rightarrow> py_exn + obj" where
  "meta_of choice = rbind (entry choice ''meta_info'') obj_value"

text \<open>The tokens of the reply with their log-probabilities, \<open>[log-probability, id, ...]\<close> each.\<close>

definition output_of :: "obj \<Rightarrow> py_exn + (int \<times> logp) list" where
  "output_of meta = rbind (rbind (entry meta ''output_token_logprobs'') arr_value) (rmap top_entry)"

definition prompt_ids_of :: "session_record \<Rightarrow> py_exn + int list" where
  "prompt_ids_of r = rbind (rbind (entry (rec_request r) ''input_ids'') arr_value) (rmap int_value)"

definition record_outputs :: "session_record \<Rightarrow> py_exn + (int \<times> logp) list" where
  "record_outputs r = rbind (rbind (choice_of r) meta_of) output_of"

text \<open>A buffer of \<open>n\<close> rows of \<open>layers\<close> lists, as many entries in each as the length of the buffer gives.\<close>

definition chunks_of :: "nat \<Rightarrow> nat \<Rightarrow> 'a list \<Rightarrow> 'a list list" where
  "chunks_of n k xs = map (\<lambda>i. take k (drop (i * k) xs)) [0..<n]"

definition decode_topk_buffer :: "sample_env \<Rightarrow> json \<Rightarrow> int \<Rightarrow> int \<Rightarrow> py_exn + int list list list" where
  "decode_topk_buffer env info n layers =
     rbind (se_b64 env info) (\<lambda>x.
     if n \<le> 0 then Inr []
     else if layers = 0 then Inl ZeroDivisionError
     else let k = nat (int (length x) div (n * layers))
          in if layers < 0 \<or> length x \<noteq> nat n * nat layers * k then Inl ValueError
             else Inr (map (chunks_of (nat layers) k) (chunks_of (nat n) (nat layers * k) x)))"

definition experts_of :: "sample_env \<Rightarrow> obj \<Rightarrow> int \<Rightarrow> store_error + int list list list option" where
  "experts_of env meta n =
     (let info = dget meta ''routed_experts''
      in if info = JNull then Inr None
         else rbind (raised (decode_topk_buffer env info n (se_num_layers env))) (\<lambda>rows.
              let entries = concat (concat rows)
              in rbind (check (entries = [] \<or> list_ex (\<lambda>x. x \<noteq> 0) entries)) (\<lambda>_. Inr (Some rows))))"

definition indexer_of :: "sample_env \<Rightarrow> obj \<Rightarrow> int \<Rightarrow> store_error + int list list list option" where
  "indexer_of env meta n =
     (let info = dget meta ''indexer_topk''; layers = dget meta ''indexer_topk_num_layers''
      in if info = JNull then Inr None
         else rbind (check (layers \<noteq> JNull)) (\<lambda>_.
              rbind (raised (int_value layers)) (\<lambda>l.
              rbind (check (se_indexer_streams env = None \<or> se_indexer_streams env = Some l)) (\<lambda>_.
              rbind (raised (decode_topk_buffer env info n l)) (\<lambda>rows. Inr (Some rows))))))"

definition OUTPUT_STORE_REF_KEY :: string where
  "OUTPUT_STORE_REF_KEY = ''output_store_ref''"

definition finish_status :: "json \<Rightarrow> status \<Rightarrow> status" where
  "finish_status reason st =
     (if reason = JStr ''stop'' \<or> reason = JStr ''tool_calls'' then Completed
      else if reason = JStr ''length'' then Truncated else if reason = JStr ''abort'' then Aborted else st)"

text \<open>The columns before the response is put in place: the mask of a request that asked for one.\<close>

definition masked_sample ::
    "session_record \<Rightarrow> obj \<Rightarrow> json \<Rightarrow> (int \<times> logp) list \<Rightarrow> store_error + logp list \<times> sample" where
  "masked_sample r meta reason outs =
     (let request = rec_request r; ids = map fst outs;
          mode = (case dget_or request ''sampling_logprobs_mode'' (JStr ''selected'') of JStr m \<Rightarrow> m | _ \<Rightarrow> [])
      in if \<not> truthy (dget request ''return_sampling_mask'') then Inr (map snd outs, new_sample)
         else if truthy (dget request OUTPUT_STORE_REQUEST_KEY)
         then rbind (read_sampled_logprobs meta ids mode) (\<lambda>ps. Inr (ps, new_sample))
         else raised (append_sampling_metadata ids meta (reason = JStr ''abort'') mode new_sample))"

definition with_candidates :: "sample_env \<Rightarrow> bool \<Rightarrow> session_record \<Rightarrow> obj \<Rightarrow> sample \<Rightarrow> py_exn + sample" where
  "with_candidates env ev r meta s =
     (let request = rec_request r;
          mode = (case dget_or request ''sampling_logprobs_mode'' (JStr ''selected'') of JStr m \<Rightarrow> m | _ \<Rightarrow> [])
      in if \<not> ev \<and> (truthy (dget request ''top_logprobs'') \<or> mode = ''support'' \<and> \<not> truthy (dget request OUTPUT_STORE_REQUEST_KEY))
         then append_rollout_topk_logprobs (se_flat env) meta (se_topk env) mode s else Inr s)"

definition record_plan :: "sample_env \<Rightarrow> session_record \<Rightarrow> obj \<Rightarrow> int \<Rightarrow> int \<Rightarrow> store_error + store_plan option" where
  "record_plan env r meta nt rl =
     (if \<not> truthy (dget (rec_request r) OUTPUT_STORE_REQUEST_KEY) then Inr None
      else rbind (se_ref env (dget meta OUTPUT_STORE_REF_KEY)) (\<lambda>ref.
           rbind (from_response ref (dset (request_key Routed_Experts) (JBool False) (rec_request r)) nt rl False) (\<lambda>p. Inr (Some p))))"

text \<open>The columns that replay a turn: candidates, routed experts, indexer rows, the store plan and the versions.\<close>

definition with_replay :: "sample_env \<Rightarrow> bool \<Rightarrow> bool \<Rightarrow> session_record \<Rightarrow> obj \<Rightarrow> sample \<Rightarrow> store_error + sample" where
  "with_replay env addition_r3 ev r meta s =
     rbind (raised (with_candidates env ev r meta s)) (\<lambda>s1.
     rbind (if addition_r3 then Inr None else experts_of env meta (num_tokens s1 - 1)) (\<lambda>experts.
     rbind (indexer_of env meta (num_tokens s1 - 1)) (\<lambda>indexer.
     rbind (record_plan env r meta (num_tokens s1) (response_length s1)) (\<lambda>plan.
     rbind (raised (call_from_meta meta (num_tokens s1))) (\<lambda>call.
     Inr (s1\<lparr>rollout_routed_experts := experts, rollout_indexer_topk := indexer, rollout_store_plan := plan, weight_versions := [call]\<rparr>))))))"

text \<open>The trim, the status and the counters.\<close>

definition with_outcome :: "sample_env \<Rightarrow> json \<Rightarrow> obj \<Rightarrow> int \<Rightarrow> sample \<Rightarrow> store_error + sample" where
  "with_outcome env reason meta trim s =
     rbind (if 0 < trim then strip_last_output_tokens (se_decode env) trim s else Inr s) (\<lambda>s1.
     rbind (raised (if se_speculative env then add_spec_info meta (sample_spec_info s1) else Inr (sample_spec_info s1))) (\<lambda>spec.
     rbind (raised (add_prefix_cache_info meta (sample_prefix_cache_info s1))) (\<lambda>cache.
     Inr (s1\<lparr>sample_status := finish_status reason (sample_status s1), sample_spec_info := spec, sample_prefix_cache_info := cache\<rparr>))))"

definition sample_of_record :: "sample_env \<Rightarrow> bool \<Rightarrow> bool \<Rightarrow> session_record \<Rightarrow> int \<Rightarrow> store_error + sample" where
  "sample_of_record env addition_r3 ev r trim =
     rbind (raised (choice_of r)) (\<lambda>choice.
     rbind (raised (if dhas (rec_request r) ''input_ids'' \<and> dget (rec_request r) ''input_ids'' \<noteq> JNull then prompt_ids_of r else Inl ValueError)) (\<lambda>prompt.
     rbind (raised (meta_of choice)) (\<lambda>meta.
     rbind (raised (output_of meta)) (\<lambda>outs.
     let reason = dget choice ''finish_reason''; ids = map fst outs; n = length outs
     in rbind (masked_sample r meta reason outs) (\<lambda>(logps, s0).
        rbind (with_replay env addition_r3 ev r meta
                 (s0\<lparr>tokens := prompt @ ids, rollout_log_probs := Some logps, response := se_decode env ids,
                     response_length := int n, loss_mask := Some (replicate n 1)\<rparr>)) (with_outcome env reason meta trim))))))"

section \<open>All records\<close>

text \<open>How many output tokens agree with the accumulated tokens from the end of the prompt.\<close>

fun matched :: "int list \<Rightarrow> int list \<Rightarrow> nat" where
  "matched (x # xs) (y # ys) = (if x = y then 1 + matched xs ys else 0)"
| "matched _ _ = 0"

definition trim_count :: "int list \<Rightarrow> int list \<Rightarrow> int list \<Rightarrow> nat" where
  "trim_count accumulated prompt output = length output - matched output (drop (length prompt) accumulated)"

text \<open>The trim of a turn and the position after its kept output; the last turn may not be trimmed.\<close>

definition align_turn :: "int list \<Rightarrow> nat \<Rightarrow> bool \<Rightarrow> int list \<Rightarrow> int list \<Rightarrow> store_error + nat \<times> nat" where
  "align_turn accumulated max_trim is_last prompt output =
     (let trim = trim_count accumulated prompt output
      in rbind (check (trim \<le> (if is_last then 0 else max_trim))) (\<lambda>_. Inr (trim, length prompt + (length output - trim))))"

text \<open>\<open>attach_lifecycle_metadata\<close>: the times of a turn, its number, and the end of the turn before it.\<close>

fun number_value :: "json \<Rightarrow> py_exn + rat" where
  "number_value (JFloat x) = Inr x"
| "number_value (JInt i) = Inr (of_int i)"
| "number_value (JBool b) = Inr (if b then 1 else 0)"
| "number_value _ = Inl TypeError"

definition lifecycle_segment :: "sample_env \<Rightarrow> nat \<Rightarrow> session_record \<Rightarrow> py_exn + obj" where
  "lifecycle_segment env turn r =
     rbind (rbind (choice_of r) (\<lambda>c. obj_value (dget_or c ''meta_info'' (JObj [])))) (\<lambda>meta.
     let latency = dget meta ''e2e_latency''; t1 = se_time env turn
     in rbind (if latency = JNull then Inr JNull else rbind (number_value latency) (\<lambda>l. Inr (JFloat (t1 - l)))) (\<lambda>t0.
        Inr ([(''t0'', t0), (''t1'', JFloat t1), (''turn'', JInt (int turn))] @
             (case se_request_time env turn of None \<Rightarrow> [] | Some t \<Rightarrow> [(''req_ts'', JFloat t)]) @
             (if 1 < turn then [(''prev_t1'', JFloat (se_time env (turn - 1)))] else []))))"

definition with_turn_metadata :: "sample_env \<Rightarrow> nat \<Rightarrow> bool \<Rightarrow> session_record \<Rightarrow> sample \<Rightarrow> py_exn + sample" where
  "with_turn_metadata env turn is_last r s =
     rbind (lifecycle_segment env turn r) (\<lambda>segment.
     let md = dset ''lifecycle'' (JObj segment) (case metadata s of None \<Rightarrow> [] | Some d \<Rightarrow> d)
     in if is_last \<and> se_debug env
        then rbind (rbind (entry (rec_request r) ''messages'') arr_value) (\<lambda>ms.
             rbind (choice_of r) (\<lambda>c. rbind (entry c ''message'') (\<lambda>m.
             Inr (s\<lparr>metadata := Some (dset ''messages'' (JArr (ms @ [m])) md)\<rparr>))))
        else Inr (s\<lparr>metadata := Some md\<rparr>))"

text \<open>The sample of one record and the position its output ends at in the accumulated tokens.\<close>

definition turn_sample ::
    "sample_env \<Rightarrow> bool \<Rightarrow> bool \<Rightarrow> int list option \<Rightarrow> nat \<Rightarrow> nat \<Rightarrow> bool \<Rightarrow> session_record \<Rightarrow> nat \<Rightarrow> store_error + sample \<times> nat" where
  "turn_sample env addition_r3 ev accumulated max_trim turn is_last r cursor =
     rbind (raised (prompt_ids_of r)) (\<lambda>prompt.
     rbind (raised (record_outputs r)) (\<lambda>outs.
     let ids = map fst outs
     in rbind (case accumulated of
                 None \<Rightarrow> Inr (0, cursor)
               | Some acc \<Rightarrow> align_turn acc max_trim is_last prompt ids) (\<lambda>(trim, cursor').
        rbind (sample_of_record env addition_r3 ev r (int trim)) (\<lambda>s.
        rbind (raised (with_turn_metadata env turn is_last r s)) (\<lambda>s'. Inr (s', cursor'))))))"

fun turn_samples ::
    "sample_env \<Rightarrow> bool \<Rightarrow> bool \<Rightarrow> int list option \<Rightarrow> nat \<Rightarrow> nat \<Rightarrow> session_record list \<Rightarrow> nat \<Rightarrow> store_error + sample list \<times> nat" where
  "turn_samples env addition_r3 ev accumulated max_trim turn [] cursor = Inr ([], cursor)"
| "turn_samples env addition_r3 ev accumulated max_trim turn (r # rs) cursor =
     rbind (turn_sample env addition_r3 ev accumulated max_trim turn (rs = []) r cursor) (\<lambda>(s, cursor').
     rbind (turn_samples env addition_r3 ev accumulated max_trim (turn + 1) rs cursor') (\<lambda>(ss, c).
     Inr (s # ss, c)))"

definition samples_of_records ::
    "sample_env \<Rightarrow> bool \<Rightarrow> bool \<Rightarrow> int list option \<Rightarrow> nat \<Rightarrow> session_record list \<Rightarrow> store_error + sample list" where
  "samples_of_records env addition_r3 ev accumulated max_trim recs =
     rbind (turn_samples env addition_r3 ev accumulated max_trim 1 recs 0) (\<lambda>(ss, cursor).
     rbind (case accumulated of None \<Rightarrow> Inr () | Some acc \<Rightarrow> check (cursor = length acc)) (\<lambda>_. Inr ss))"

text \<open>\<open>truncate_samples_by_total_tokens\<close>: \<open>acc\<close> are the samples kept so far.\<close>

fun truncate_onto :: "(int list \<Rightarrow> string) \<Rightarrow> int \<Rightarrow> sample list \<Rightarrow> sample list \<Rightarrow> store_error + sample list" where
  "truncate_onto decode limit acc [] = Inr acc"
| "truncate_onto decode limit acc (s # ss) =
     (if num_tokens s \<le> limit then truncate_onto decode limit (acc @ [s]) ss
      else let overshoot = num_tokens s - limit
           in if response_length s - overshoot \<le> 0
              then Inr (if acc \<noteq> [] \<and> sample_status (last acc) = Completed
                        then butlast acc @ [(last acc)\<lparr>sample_status := Truncated\<rparr>] else acc)
              else rbind (strip_last_output_tokens decode overshoot s) (\<lambda>s'. Inr (acc @ [s'\<lparr>sample_status := Truncated\<rparr>])))"

definition truncate_samples_by_total_tokens :: "(int list \<Rightarrow> string) \<Rightarrow> int \<Rightarrow> sample list \<Rightarrow> store_error + sample list" where
  "truncate_samples_by_total_tokens decode limit samples = truncate_onto decode limit [] samples"

text \<open>\<open>adopt_session_records\<close>: the routed experts' rows are rebuilt from the untrimmed records.\<close>

definition record_meta :: "session_record \<Rightarrow> py_exn + obj" where
  "record_meta r = rbind (choice_of r) meta_of"

fun adopt_rows :: "sample_env \<Rightarrow> int \<Rightarrow> session_record list \<Rightarrow> store_ref option list \<Rightarrow> seg list \<Rightarrow> store_error + seg list" where
  "adopt_rows env required (r # rs) (ref # refs) rows =
     (if required \<le> num_rows rows then Inr rows
      else rbind (raised (record_outputs r)) (\<lambda>outs.
           rbind (raised (prompt_ids_of r)) (\<lambda>prompt.
           rbind (from_response ref (rec_request r) (int (length prompt + length outs)) (int (length outs)) False) (\<lambda>turn.
           rbind (case map_of (plan_fields turn) Routed_Experts of None \<Rightarrow> Inl (Store_Raised KeyError) | Some segs \<Rightarrow> Inr segs) (\<lambda>segs.
           rbind (append_segs Routed_Experts rows segs) (\<lambda>rows'. adopt_rows env required rs refs rows'))))))"
| "adopt_rows env required _ _ rows = Inr rows"

definition adopt_session_records :: "sample_env \<Rightarrow> sample \<Rightarrow> session_record list \<Rightarrow> store_error + sample" where
  "adopt_session_records env merged recs =
     (case rollout_store_plan merged of
        None \<Rightarrow> Inr merged
      | Some plan \<Rightarrow>
          rbind (rmap (\<lambda>r. rbind (raised (record_meta r)) (\<lambda>meta. se_ref env (dget meta OUTPUT_STORE_REF_KEY))) recs) (\<lambda>refs.
          let required = num_tokens merged - 1
          in rbind (if list_ex (\<lambda>r. truthy (dget (rec_request r) (request_key Routed_Experts))) recs
                    then rbind (adopt_rows env required recs refs []) (\<lambda>rows.
                         Inr (plan\<lparr>plan_fields := AList.update Routed_Experts (prefix_segs required rows) (plan_fields plan)\<rparr>))
                    else Inr plan) (\<lambda>plan'.
             let s = merged\<lparr>rollout_store_plan := Some (adopt_refs (List.map_filter id refs) plan')\<rparr>
             in rbind (validate s) (\<lambda>_. Inr s))))"

text \<open>\<open>merge_samples_with_addition_r3\<close>: rows of routed experts that each record appends to the previous ones.\<close>

fun r3_chunks :: "sample_env \<Rightarrow> int \<Rightarrow> session_record list \<Rightarrow> int \<Rightarrow> int list list list list \<Rightarrow> store_error + int \<times> int list list list list" where
  "r3_chunks env required [] covered patches = Inr (covered, patches)"
| "r3_chunks env required (r # rs) covered patches =
     (if patches \<noteq> [] \<and> required \<le> covered then Inr (covered, patches)
      else rbind (raised (record_meta r)) (\<lambda>meta.
           let info = dget meta ''routed_experts'' in
           rbind (guard (Store_Raised ValueError) (info \<noteq> JNull)) (\<lambda>_.
           rbind (case dget (rec_request r) ''routed_experts_start_len'' of JInt i \<Rightarrow> Inr i | _ \<Rightarrow> Inl (Store_Raised ValueError)) (\<lambda>start.
           rbind (guard (Store_Raised ValueError) (start = covered)) (\<lambda>_.
           rbind (raised (prompt_ids_of r)) (\<lambda>prompt.
           rbind (raised (output_of meta)) (\<lambda>outs.
           let stop = int (length prompt) + int (length outs) - 1; delta = stop - start in
           rbind (guard (Store_Raised ValueError) (start \<le> stop)) (\<lambda>_.
           rbind (guard (Store_Raised ValueError) (truthy info \<longleftrightarrow> delta \<noteq> 0)) (\<lambda>_.
           rbind (experts_of env meta delta) (\<lambda>rows.
           let patch = (case rows of None \<Rightarrow> [] | Some p \<Rightarrow> p)
           in r3_chunks env required rs stop (if patch \<noteq> [] \<or> required = 0 then patches @ [patch] else patches)))))))))))"

definition merge_samples_with_addition_r3 :: "sample_env \<Rightarrow> sample list \<Rightarrow> session_record list \<Rightarrow> store_error + sample" where
  "merge_samples_with_addition_r3 env samples recs =
     rbind (merge_samples (se_decode env) samples) (\<lambda>merged.
     rbind (rmap (\<lambda>r. raised (record_meta r)) recs) (\<lambda>metas.
     if list_all (\<lambda>m. dget m ''routed_experts'' = JNull) metas then Inr merged
     else let required = num_tokens merged - 1
          in rbind (r3_chunks env required recs 0 []) (\<lambda>(covered, patches).
             rbind (guard (Store_Raised ValueError) (required \<le> covered)) (\<lambda>_.
             rbind (guard (Store_Raised ValueError) (patches \<noteq> [])) (\<lambda>_.
             Inr (merged\<lparr>rollout_routed_experts := Some (take (nat required) (concat patches))\<rparr>))))))"

end
