(* ===== verification/Session_Collect.thy ===== *)
theory Session_Collect
  imports Session_Samples
begin

text \<open>
  What the samples of a session promise: the samples of \<^verbatim>\<open>compute_samples_from_openai_records\<close> follow the
  session's accumulated tokens, truncation keeps them valid within the budget, and a session served by
  \<^verbatim>\<open>Session_Linear\<close> always has records that pass the alignment checks.
\<close>

section \<open>Alignment with the accumulated tokens\<close>

lemma matched_take: "take (matched xs ys) xs = take (matched xs ys) ys"
  by (induction xs ys rule: matched.induct) auto

lemma matched_le: "matched xs ys \<le> length xs" "matched xs ys \<le> length ys"
  by (induction xs ys rule: matched.induct) auto

lemma matched_ge: "take n xs = take n ys \<Longrightarrow> n \<le> length xs \<Longrightarrow> n \<le> length ys \<Longrightarrow> n \<le> matched xs ys"
proof (induction xs ys arbitrary: n rule: matched.induct)
  case (1 x xs y ys)
  show ?case
  proof (cases n)
    case (Suc k)
    then show ?thesis using 1(1)[of k] 1(2-4) by auto
  qed simp
qed auto

lemma masked_sample_columns:
  "masked_sample r meta reason outs = Inr (ps, s) \<Longrightarrow> response_length s = 0 \<and> tokens s = []"
  by (auto simp: masked_sample_def Let_def result_simps append_sampling_metadata_def append_sampling_mask_def new_sample_def
      split: if_splits option.splits)

lemma with_candidates_columns:
  "with_candidates env ev r meta s = Inr s' \<Longrightarrow> tokens s' = tokens s \<and> response_length s' = response_length s"
  by (auto simp: with_candidates_def append_rollout_topk_logprobs_def Let_def result_simps split: if_splits)

lemma with_replay_columns:
  "with_replay env ar3 ev r meta s = Inr s' \<Longrightarrow> tokens s' = tokens s \<and> response_length s' = response_length s"
  by (auto simp: with_replay_def rbind_Inr_iff raised_simps dest!: with_candidates_columns)

lemma with_outcome_columns:
  assumes "with_outcome env reason meta (int trim) s = Inr s'" and "response_length s = int n"
  shows "tokens s' = drop_last trim (tokens s) \<and> response_length s' = int (n - trim) \<and> trim \<le> n"
proof -
  from assms(1) obtain s1 where s1: "(if 0 < int trim then strip_last_output_tokens (se_decode env) (int trim) s else Inr s) = Inr s1"
    and s: "tokens s' = tokens s1" "response_length s' = response_length s1"
    by (auto simp: with_outcome_def rbind_Inr_iff)
  show ?thesis
  proof (cases "0 < trim")
    case True
    with s1 have "strip_last_output_tokens (se_decode env) (int trim) s = Inr s1" "0 < int trim" by simp_all
    then show ?thesis by (rule strip_cases) (use assms(2) s in auto)
  qed (use s1 s assms(2) in auto)
qed

lemma sample_of_record_tokens:
  assumes "sample_of_record env ar3 ev r (int trim) = Inr s" and "prompt_ids_of r = Inr prompt" and "record_outputs r = Inr outs"
  shows "tokens s = drop_last trim (prompt @ map fst outs) \<and> response_length s = int (length outs - trim) \<and> trim \<le> length outs"
proof -
  from assms(3) obtain choice meta where c: "choice_of r = Inr choice" "meta_of choice = Inr meta" "output_of meta = Inr outs"
    by (auto simp: record_outputs_def rbind_Inr_iff)
  from assms(1,2) obtain s1 s2 where "with_replay env ar3 ev r meta s1 = Inr s2"
    and "with_outcome env (dget choice ''finish_reason'') meta (int trim) s2 = Inr s"
    and s1: "tokens s1 = prompt @ map fst outs" "response_length s1 = int (length outs)"
    by (auto simp: sample_of_record_def c Let_def rbind_Inr_iff split: if_splits)
  from with_outcome_columns[OF this(2)] with_replay_columns[OF this(1)] s1 show ?thesis by auto
qed

lemma rbind_InrE: "rbind m f = Inr y \<Longrightarrow> (\<And>x. m = Inr x \<Longrightarrow> f x = Inr y \<Longrightarrow> thesis) \<Longrightarrow> thesis"
  by (auto simp: rbind_Inr_iff)

lemma with_turn_metadata_columns:
  "with_turn_metadata env turn is_last r s = Inr s' \<Longrightarrow> tokens s' = tokens s \<and> response_length s' = response_length s"
  unfolding with_turn_metadata_def Let_def
  by (cases "is_last \<and> se_debug env") (elim rbind_InrE, simp only: if_True if_False simp_thms, (elim rbind_InrE)?, simp add: prod_eq_iff, fastforce?)+

text \<open>A sample of a turn: the prompt and the output up to a trim, which continue the accumulated tokens after the prompt.\<close>

definition aligned_sample :: "int list \<Rightarrow> nat \<Rightarrow> session_record \<Rightarrow> sample \<Rightarrow> bool" where
  "aligned_sample accumulated allowed r s \<longleftrightarrow>
     (\<exists>prompt outs k. prompt_ids_of r = Inr prompt \<and> record_outputs r = Inr outs \<and> length outs \<le> k + allowed \<and> k \<le> length outs \<and>
        tokens s = prompt @ output_tokens s \<and> output_tokens s = take k (map fst outs) \<and>
        output_tokens s = take k (drop (length prompt) accumulated) \<and> k \<le> length (drop (length prompt) accumulated))"

lemma turn_sample_aligned:
  assumes "turn_sample env ar3 ev (Some acc) max_trim turn is_last r cursor = Inr (s, c)"
  shows "aligned_sample acc (if is_last then 0 else max_trim) r s \<and> c = length (tokens s)"
proof -
  from assms obtain prompt outs trim s0 where p: "prompt_ids_of r = Inr prompt" and o: "record_outputs r = Inr outs"
    and a: "align_turn acc max_trim is_last prompt (map fst outs) = Inr (trim, c)"
    and s0: "sample_of_record env ar3 ev r (int trim) = Inr s0" "raised (with_turn_metadata env turn is_last r s0) = Inr s"
    by (auto simp: turn_sample_def Let_def rbind_Inr_iff raised_simps)
  let ?ids = "map fst outs" let ?acc = "drop (length prompt) acc"
  define k where "k = matched ?ids ?acc"
  have k: "k \<le> length outs" "k \<le> length ?acc" "take k ?ids = take k ?acc"
    using matched_le[of ?ids ?acc] matched_take[of ?ids ?acc] by (auto simp: k_def)
  have t: "trim = length outs - k" "c = length prompt + (length outs - trim)" "trim \<le> (if is_last then 0 else max_trim)"
    using a by (auto simp: align_turn_def Let_def rbind_Inr_iff guard_Inr_iff trim_count_def k_def)
  have "tokens s = tokens s0" "response_length s = response_length s0"
    using s0(2) with_turn_metadata_columns by (simp_all add: raised_simps)
  then have ts: "tokens s = drop_last trim (prompt @ ?ids)" "response_length s = int k"
    using sample_of_record_tokens[OF s0(1) p o] t(1) k(1) by simp_all
  then have toks: "tokens s = prompt @ take k ?ids" using t(1) k(1) by (simp add: drop_last_def)
  then have out: "output_tokens s = take k ?ids" using ts(2) k(1) by (simp add: output_tokens_def last_items_def)
  have "length outs \<le> k + (if is_last then 0 else max_trim)" using t(1,3) k(1) by linarith
  then have "aligned_sample acc (if is_last then 0 else max_trim) r s" unfolding aligned_sample_def
    using p o k(1,2) toks out out[unfolded k(3)]
    by (intro exI[of _ prompt] exI[of _ outs] exI[of _ k] conjI) (simp_all only:)
  moreover have "c = length (tokens s)" using t(1,2) k(1) by (simp add: toks)
  ultimately show ?thesis ..
qed

lemma turn_samples_aligned:
  assumes "turn_samples env ar3 ev (Some acc) max_trim turn rs cursor = Inr (ss, c)"
  shows "length ss = length rs \<and> (\<forall>i < length rs. aligned_sample acc (if i + 1 = length rs then 0 else max_trim) (rs ! i) (ss ! i)) \<and>
    (rs \<noteq> [] \<longrightarrow> c = length (tokens (last ss)))"
  using assms
proof (induction rs arbitrary: turn cursor ss)
  case (Cons r rs)
  then obtain s c1 ss' where s: "turn_sample env ar3 ev (Some acc) max_trim turn (rs = []) r cursor = Inr (s, c1)"
    and ss: "turn_samples env ar3 ev (Some acc) max_trim (turn + 1) rs c1 = Inr (ss', c)" "ss = s # ss'"
    by (auto simp: rbind_Inr_iff)
  note ih = Cons.IH[OF ss(1)] and h = turn_sample_aligned[OF s]
  show ?case
  proof (intro conjI allI impI)
    fix i assume "i < length (r # rs)"
    then show "aligned_sample acc (if i + 1 = length (r # rs) then 0 else max_trim) ((r # rs) ! i) (ss ! i)"
      using ih h by (cases i) (auto simp: ss(2))
  qed (use ih h ss in \<open>auto split: if_splits\<close>)
qed simp

text \<open>
  C22. Samples of a session with accumulated tokens: there is one per record; each holds its prompt and then output tokens
  that are the accumulated ones at that place, short of the reported output by the permitted trim at most; the last
  one is not trimmed and ends where the accumulated tokens end.
\<close>

theorem session_samples_aligned:
  assumes "samples_of_records env ar3 ev (Some acc) max_trim rs = Inr ss"
  shows "length ss = length rs \<and> (\<forall>i < length rs. aligned_sample acc (if i + 1 = length rs then 0 else max_trim) (rs ! i) (ss ! i)) \<and>
    (rs \<noteq> [] \<longrightarrow> length (tokens (last ss)) = length acc)"
  using assms turn_samples_aligned[of env ar3 ev acc max_trim 1 rs 0 ss]
  by (auto simp: samples_of_records_def rbind_Inr_iff guard_Inr_iff)

section \<open>Truncation\<close>

definition cut_to :: "int \<Rightarrow> sample \<Rightarrow> sample \<Rightarrow> bool" where
  "cut_to limit s t \<longleftrightarrow> sample_ok t \<and> num_tokens t \<le> limit \<and> tokens t = take (length (tokens t)) (tokens s)"

lemma sample_ok_status [simp]: "sample_ok (s\<lparr>sample_status := st\<rparr>) = sample_ok s"
  by (simp add: sample_ok_def validate_def all_spans_def Let_def)

lemma cut_to_self: "sample_ok s \<Longrightarrow> num_tokens s \<le> limit \<Longrightarrow> cut_to limit s s"
  by (simp add: cut_to_def)

lemma truncate_onto_spec:
  assumes "truncate_onto decode limit acc ss = Inr ts" and "0 < limit" and "\<forall>s \<in> set (acc @ ss). sample_ok s"
    and "\<forall>s \<in> set acc. num_tokens s \<le> limit"
  shows "length ts \<le> length (acc @ ss) \<and> (\<forall>i < length ts. cut_to limit ((acc @ ss) ! i) (ts ! i)) \<and>
    (\<forall>i. i + 1 < length ts \<longrightarrow> ts ! i = (acc @ ss) ! i) \<and>
    (ts = acc @ ss \<or> ts = [] \<or> sample_status (last ts) \<noteq> Completed)"
  using assms
proof (induction ss arbitrary: acc)
  case Nil
  then show ?case by (auto intro: cut_to_self)
next
  case (Cons s ss)
  let ?over = "num_tokens s - limit"
  have ok: "sample_ok s" "\<forall>x \<in> set acc. cut_to limit x x" using Cons.prems by (auto intro: cut_to_self)
  consider "num_tokens s \<le> limit" | "limit < num_tokens s" "response_length s - ?over \<le> 0" | "limit < num_tokens s" "0 < response_length s - ?over"
    by linarith
  then show ?case
  proof cases
    case 1
    then show ?thesis using Cons.IH[of "acc @ [s]"] Cons.prems by simp
  next
    case 2
    then have ts: "ts = (if acc \<noteq> [] \<and> sample_status (last acc) = Completed then butlast acc @ [(last acc)\<lparr>sample_status := Truncated\<rparr>] else acc)"
      using Cons.prems(1) by (simp add: Let_def)
    have "cut_to limit ((acc @ s # ss) ! i) (ts ! i)" if "i < length ts" for i
    proof -
      have i: "i < length acc" "cut_to limit (acc ! i) (acc ! i)" using ok(2) that ts by (auto split: if_splits)
      show ?thesis
      proof (cases "i = length acc - 1")
        case True
        then show ?thesis using i unfolding ts by (auto simp: nth_append last_conv_nth cut_to_def)
      next
        case False
        then show ?thesis using i unfolding ts by (auto simp: nth_append nth_butlast)
      qed
    qed
    then show ?thesis using ts by (auto simp: nth_append nth_butlast split: if_splits)
  next
    case 3
    then obtain s' where s': "strip_last_output_tokens decode ?over s = Inr s'" "ts = acc @ [s'\<lparr>sample_status := Truncated\<rparr>]"
      using Cons.prems(1) by (auto simp: Let_def rbind_Inr_iff)
    have pos: "0 < ?over" "?over < num_tokens s" using 3 Cons.prems(2) by auto
    have t: "tokens s' = drop_last (nat ?over) (tokens s)" using s'(1) pos(1) by (rule strip_cases)
    have "cut_to limit s (s'\<lparr>sample_status := Truncated\<rparr>)"
      using strip_sample_ok[OF ok(1) s'(1) pos] t pos Cons.prems(2) by (auto simp: cut_to_def drop_last_def)
    then show ?thesis using ok(2) by (auto simp: s'(2) nth_append less_Suc_eq)
  qed
qed

text \<open>
  Truncating valid samples to a positive number of tokens keeps them valid and within it: every sample that is left is a
  prefix of the one it was, all but the last are unchanged, and if the last one still counts as completed then
  nothing was cut and no turn was dropped.
\<close>

theorem truncation_within_limit:
  assumes "truncate_samples_by_total_tokens decode limit ss = Inr ts" and "0 < limit" and "\<forall>s \<in> set ss. sample_ok s"
  shows "length ts \<le> length ss \<and> (\<forall>i < length ts. cut_to limit (ss ! i) (ts ! i)) \<and>
    (\<forall>i. i + 1 < length ts \<longrightarrow> ts ! i = ss ! i) \<and> (ts = ss \<or> ts = [] \<or> sample_status (last ts) \<noteq> Completed)"
  using truncate_onto_spec[of decode limit "[]" ss ts] assms by (simp add: truncate_samples_by_total_tokens_def)

definition demo_response :: "(rat \<times> int) list \<Rightarrow> string \<Rightarrow> obj" where
  "demo_response outs reason =
     [(''choices'', JArr [JObj [(''finish_reason'', JStr reason), (''message'', JObj [(''content'', JStr ''x'')]),
        (''meta_info'', JObj [(''output_token_logprobs'', JArr (map (\<lambda>(p, t). JArr [JFloat p, JInt t]) outs)),
           (''completion_tokens'', JInt (int (length outs)))])]])]"

definition demo_record :: "int list \<Rightarrow> (rat \<times> int) list \<Rightarrow> session_record" where
  "demo_record prompt outs =
     \<lparr>rec_request = [(''input_ids'', JArr (map JInt prompt))], rec_response = demo_response outs ''stop'', rec_status = 200\<rparr>"

definition demo_sample_env :: sample_env where
  "demo_sample_env = \<lparr>se_decode = (\<lambda>ids. ''''), se_b64 = (\<lambda>v. Inl ValueError), se_flat = (\<lambda>m. Inl ValueError), se_ref = (\<lambda>v. Inr None),
     se_time = (\<lambda>i. of_nat i), se_request_time = (\<lambda>i. None), se_num_layers = 1, se_indexer_streams = None, se_topk = 0,
     se_speculative = False, se_debug = False\<rparr>"

text \<open>Two turns; the first ends with a stop token that the next turn's delimiter replaces.\<close>

definition demo_records :: "session_record list" where
  "demo_records = [demo_record [1, 2] [(0, 3), (0, 9)], demo_record [1, 2, 3, 5] [(0, 6)]]"

lemma demo_records_collect:
  "map_sum id (map tokens) (samples_of_records demo_sample_env False False (Some [1, 2, 3, 5, 6]) 1 demo_records) =
     Inr [[1, 2, 3], [1, 2, 3, 5, 6]]"
  by code_simp

lemma map_sum_InrE: "map_sum id f x = Inr y \<Longrightarrow> (\<And>z. x = Inr z \<Longrightarrow> f z = y \<Longrightarrow> thesis) \<Longrightarrow> thesis"
  by (cases x) auto

lemma session_samples_aligned_witness:
  "\<exists>s. tokens s = [1, 2, 3] \<and> aligned_sample [1, 2, 3, 5, 6] 1 (demo_record [1, 2] [(0, 3), (0, 9)]) s"
proof -
  from demo_records_collect obtain ss where ss: "samples_of_records demo_sample_env False False (Some [1, 2, 3, 5, 6]) 1 demo_records = Inr ss"
    "map tokens ss = [[1, 2, 3], [1, 2, 3, 5, 6]]" by (rule map_sum_InrE)
  have n: "length demo_records = 2" "demo_records ! 0 = demo_record [1, 2] [(0, 3), (0, 9)]" by (simp_all add: demo_records_def)
  from session_samples_aligned[OF ss(1)] have "\<forall>i < length demo_records.
      aligned_sample [1, 2, 3, 5, 6] (if i + 1 = length demo_records then 0 else 1) (demo_records ! i) (ss ! i)" by blast
  from this[rule_format, of 0] n(1) have "aligned_sample [1, 2, 3, 5, 6] 1 (demo_records ! 0) (ss ! 0)" by simp
  moreover have "tokens (ss ! 0) = [1, 2, 3]" using ss(2) by (cases ss) simp_all
  ultimately show ?thesis using n(2) by auto
qed

lemma truncation_within_limit_witness:
  "\<exists>t. truncate_samples_by_total_tokens (\<lambda>ids. ''x'') 5 [demo_turn1, demo_turn2] = Inr [t] \<and> cut_to 5 demo_turn1 t"
proof -
  have "map_sum id length (truncate_samples_by_total_tokens (\<lambda>ids. ''x'') 5 [demo_turn1, demo_turn2]) = Inr 1" by code_simp
  then obtain ts where t: "truncate_samples_by_total_tokens (\<lambda>ids. ''x'') 5 [demo_turn1, demo_turn2] = Inr ts" "length ts = 1" by (rule map_sum_InrE)
  have "\<forall>s \<in> set [demo_turn1, demo_turn2]. sample_ok s" using demo_turns_ok by simp
  from truncation_within_limit[OF t(1) _ this] t(2) have "cut_to 5 demo_turn1 (ts ! 0)" by simp
  then show ?thesis using t by (cases ts) auto
qed

section \<open>Sessions and their records\<close>

text \<open>Collecting the samples of a session, and what its callers see: samples, a reason for none, a 422 or a broken contract.\<close>

datatype collected = No_Records | All_Truncated | Collected sample | Unprocessable | Contract_Broken

definition one_sample :: "sample_env \<Rightarrow> bool \<Rightarrow> nat \<Rightarrow> int option \<Rightarrow> linear_trajectory \<Rightarrow> store_error + sample option" where
  "one_sample env addition_r3 max_trim max_len s =
     rbind (samples_of_records env addition_r3 (evaluation s) (Some (map int (token_ids s))) max_trim (records s)) (\<lambda>ss.
     rbind (case max_len of None \<Rightarrow> Inr ss | Some n \<Rightarrow> truncate_samples_by_total_tokens (se_decode env) n ss) (\<lambda>ss'.
     if ss' = [] then Inr None
     else rbind (if addition_r3 then merge_samples_with_addition_r3 env ss' (records s) else merge_samples (se_decode env) ss') (\<lambda>m.
          rbind (adopt_session_records env m (records s)) (\<lambda>m'. Inr (Some m')))))"

definition collect_samples :: "sample_env \<Rightarrow> bool \<Rightarrow> nat \<Rightarrow> int option \<Rightarrow> linear_trajectory \<Rightarrow> py_exn + collected" where
  "collect_samples env addition_r3 max_trim max_len s =
     (if records s = [] then Inr No_Records
      else case one_sample env addition_r3 max_trim max_len s of
             Inr None \<Rightarrow> Inr All_Truncated
           | Inr (Some m) \<Rightarrow> Inr (Collected m)
           | Inl Store_Plan_Error \<Rightarrow> Inr Contract_Broken
           | Inl (Store_Raised e) \<Rightarrow> if e = AssertionError \<or> e = ValueError then Inr Unprocessable else Inl e)"

text \<open>A completion as \<open>extract_completion\<close> reads it, every token with a number and an id that is not negative.\<close>

fun scored_token :: "json \<Rightarrow> bool" where
  "scored_token (JArr (p # JInt i # _)) \<longleftrightarrow> 0 \<le> i \<and> (case logp_value p of Inr x \<Rightarrow> True | Inl e \<Rightarrow> False)"
| "scored_token _ \<longleftrightarrow> False"

definition reported :: "completion \<Rightarrow> bool" where
  "reported c \<longleftrightarrow>
     (case extract_completion (c_response c) of
        Inr (choice, msg, ids) \<Rightarrow> msg = c_message c \<and> ids = c_token_ids c \<and>
          (case dget (as_obj (dget choice ''meta_info'')) ''output_token_logprobs'' of JArr xs \<Rightarrow> list_all scored_token xs | _ \<Rightarrow> False)
      | Inl e \<Rightarrow> False)"

definition record_matches :: "session_record \<Rightarrow> nat list \<Rightarrow> bool" where
  "record_matches r c \<longleftrightarrow> (\<exists>prompt outs. prompt_ids_of r = Inr prompt \<and> record_outputs r = Inr outs \<and> map int c = prompt @ map fst outs)"

lemma token_of_entry [simp]: "token_of_logprob (JArr (p # JInt i # rest)) = Inr (nat i)"
  by (simp add: token_of_logprob_def)

lemma scored_tokens_read:
  assumes "list_all scored_token xs" and "rmap token_of_logprob xs = Inr ids"
  shows "\<exists>outs. rmap top_entry xs = Inr outs \<and> map fst outs = map int ids"
  using assms
proof (induction xs arbitrary: ids)
  case (Cons x xs)
  then obtain i p ids' rest where x: "x = JArr (p # JInt i # rest)" "0 \<le> i" "ids = nat i # ids'" "rmap token_of_logprob xs = Inr ids'"
    and "\<exists>v. logp_value p = Inr v"
    by (cases x rule: scored_token.cases) (auto simp: rbind_Inr_iff split: sum.splits)
  then show ?case using Cons.IH[OF _ x(4)] Cons.prems(1) by (auto simp: rbind_Inr_iff top_entry_def)
qed simp

lemma reported_outputs:
  assumes "reported c"
  shows "\<exists>outs. record_outputs \<lparr>rec_request = b, rec_response = c_response c, rec_status = n\<rparr> = Inr outs \<and> map fst outs = map int (c_token_ids c)"
proof -
  from assms obtain choice xs where e: "extract_completion (c_response c) = Inr (choice, c_message c, c_token_ids c)"
    and xs: "dget (as_obj (dget choice ''meta_info'')) ''output_token_logprobs'' = JArr xs" "list_all scored_token xs"
    by (auto simp: reported_def split: sum.splits json.splits)
  from e obtain meta where f: "first_choice (c_response c) = Inr choice" and m: "dget choice ''meta_info'' = JObj meta"
    and l: "dhas meta ''output_token_logprobs''" "rmap token_of_logprob xs = Inr (c_token_ids c)"
    using xs(1)
    by (auto simp: extract_completion_def rbind_Inr_iff Let_def split: if_splits json.splits)
  have "map_of choice ''meta_info'' = Some (JObj meta)" using m by (auto simp: dget_def split: option.splits)
  moreover have "map_of meta ''output_token_logprobs'' = Some (JArr xs)" using xs(1) m by (auto simp: dget_def split: option.splits)
  moreover have "choice_of \<lparr>rec_request = b, rec_response = c_response c, rec_status = n\<rparr> = Inr choice \<or> choice = []"
    using f by (auto simp: first_choice_def choice_of_def entry_def split: option.splits json.splits list.splits)
  ultimately show ?thesis using scored_tokens_read[OF xs(2) l(2)]
    by (auto simp: record_outputs_def meta_of_def output_of_def entry_def)
qed

lemma rmap_int_value [simp]: "rmap int_value (map (JInt \<circ> int) ids) = Inr (map int ids)"
  by (induction ids) auto

definition prompt_recorded :: "pending_chat \<Rightarrow> bool" where
  "prompt_recorded p \<longleftrightarrow> dget (pc_body p) ''input_ids'' = JArr (map (JInt \<circ> int) (pc_prompt p))"

lemma begin_chat_prompt:
  assumes "begin_chat env s client = (Inr p, s')"
  shows "prompt_recorded p"
proof -
  from assms obtain q where q: "prepare_token_ids_and_request_args env s client = Inr (q, s')"
    and p: "\<exists>body. maybe_request_addition_r3 (env_addition_r3 env) (p_body q) (token_ids s') (input_ids_of (p_body q)) = Inr body \<and>
        pc_body p = body \<and> pc_prompt p = input_ids_of (p_body q)"
    by (auto simp: begin_chat_def Let_def rbind_Inr_iff split: if_splits sum.splits)
  from q obtain ids where "dget (p_body q) ''input_ids'' = JArr (map (JInt \<circ> int) ids)"
    by (auto simp: prepare_token_ids_and_request_args_def rbind_Inr_iff dict_simps)
  then have "dget (p_body q) ''input_ids'' = JArr (map (JInt \<circ> int) (pc_prompt p))"
    using p by (auto simp: input_ids_of_def simp del: map_map)
  moreover have "dget (pc_body p) ''input_ids'' = dget (p_body q) ''input_ids''"
    using p by (auto simp: maybe_request_addition_r3_def Let_def dict_simps split: if_splits elim!: subst)
  ultimately show ?thesis by (simp add: prompt_recorded_def)
qed

definition records_match :: "linear_trajectory \<Rightarrow> bool" where
  "records_match s \<longleftrightarrow> list_all2 record_matches (records s) (trajectory_token_ids s)"

lemma rollback_match:
  "records_match s \<Longrightarrow> records_match (rollback_to_checkpoint cp s)"
  by (auto simp: records_match_def rollback_to_checkpoint_def Let_def list_all2_takeI)

lemma begin_chat_match:
  assumes "records_match s" and "begin_chat env s client = (r, s')"
  shows "records_match s'"
  using begin_chat_state[OF assms(2)] assms(1) prepare_shape rollback_match by blast

lemma finish_chat_match:
  assumes "records_match s" and "finish_chat env s p c = Inr s'" and "prompt_recorded p" and "reported c"
  shows "records_match s'"
proof -
  let ?r = "\<lparr>rec_request = pc_body p, rec_response = c_response c, rec_status = 200\<rparr>"
  obtain outs where "record_outputs ?r = Inr outs" "map fst outs = map int (c_token_ids c)" using reported_outputs[OF assms(4)] by blast
  moreover have "prompt_ids_of ?r = Inr (map int (pc_prompt p))"
    using assms(3) by (auto simp: prompt_ids_of_def prompt_recorded_def entry_def dget_def split: option.splits)
  ultimately have "record_matches ?r (pc_prompt p @ c_token_ids c)" by (auto simp: record_matches_def)
  then show ?thesis using assms(1,2)
    by (auto simp: finish_chat_def update_pretokenized_state_def Let_def rbind_Inr_iff records_match_def append_record_def list_all2_appendI
        split: if_splits)
qed

definition reported_event :: "session_event \<Rightarrow> bool" where
  "reported_event e \<longleftrightarrow> (case e of Finish i c \<Rightarrow> reported c | _ \<Rightarrow> True)"

lemma event_match:
  assumes "records_match (fst st)" and "\<forall>p \<in> set (snd st). prompt_recorded p" and "reported_event e"
  shows "records_match (fst (apply_event env e st)) \<and> (\<forall>p \<in> set (snd (apply_event env e st)). prompt_recorded p)"
proof (cases st)
  case (Pair s ps)
  have drop: "\<forall>p \<in> set (take i ps @ drop (Suc i) ps). prompt_recorded p" for i
    using assms(2) Pair set_take_subset[of i ps] set_drop_subset[of "Suc i" ps] by auto
  show ?thesis
  proof (cases e)
    case (Begin client)
    then show ?thesis using assms(1,2) Pair
      by (auto split: prod.splits sum.splits dest: begin_chat_match begin_chat_prompt)
  next
    case (Finish i c)
    then have c: "reported c" using assms(3) by (simp add: reported_event_def)
    show ?thesis
    proof (cases "i < length ps")
      case True
      then have "prompt_recorded (ps ! i)" using assms(2) Pair by simp
      then show ?thesis using assms(1) Pair Finish True drop finish_chat_match[OF _ _ _ c] by (auto split: sum.splits)
    qed (use assms Pair Finish in simp)
  qed (use assms(1,2) Pair drop in \<open>auto simp: records_match_def split: if_splits\<close>)
qed

lemma run_match:
  assumes "\<forall>e \<in> set evs. reported_event e"
  shows "records_match (fst (fold (apply_event env) evs (new_trajectory ev d replay, [])))"
proof -
  have "records_match (fst (fold (apply_event env) evs (new_trajectory ev d replay, []))) \<and>
    (\<forall>p \<in> set (snd (fold (apply_event env) evs (new_trajectory ev d replay, []))). prompt_recorded p)"
    using assms
  proof (induction evs rule: rev_induct)
    case (snoc e evs)
    then show ?case using event_match[of "fold (apply_event env) evs (new_trajectory ev d replay, [])" e env] by simp
  qed (simp add: records_match_def new_trajectory_def)
  then show ?thesis ..
qed

text \<open>Checkpoints that extend each other up to a trim and do not get shorter all extend into the last one.\<close>

lemma chain_extends_last:
  assumes "chain (extends_upto trim) cs" and "sorted (map length cs)" and "i < length cs"
  shows "extends_upto trim (cs ! i) (last cs)"
  using assms
proof (induction cs rule: rev_induct)
  case (snoc c cs)
  show ?case
  proof (cases "i = length cs")
    case False
    then have i: "i < length cs" "cs \<noteq> []" using snoc.prems(3) by auto
    have ch: "chain (extends_upto trim) cs" "extends_upto trim (last cs) c" and so: "sorted (map length cs)"
      using snoc.prems(1,2) i(2) by (auto simp: chain_snoc sorted_append)
    have "length (cs ! i) \<le> length (last cs)"
      using sorted_nth_mono[OF so, of i "length cs - 1"] i by (simp add: last_conv_nth)
    then have le: "length (cs ! i) - trim \<le> length (last cs) - trim" by simp
    have "take (length (cs ! i) - trim) c = take (length (cs ! i) - trim) (take (length (last cs) - trim) c)"
      using le by (simp add: min_absorb1)
    also have "\<dots> = take (length (cs ! i) - trim) (last cs)" using ch(2) le by (simp add: extends_upto_def min_absorb1)
    also have "\<dots> = take (length (cs ! i) - trim) (cs ! i)"
      using snoc.IH[OF ch(1) so i(1)] by (simp add: extends_upto_def)
    finally show ?thesis using i by (simp add: nth_append extends_upto_def)
  qed (simp add: extends_upto_def)
qed simp

lemma extends_aligned:
  assumes e: "extends_upto trim c acc" and le: "length c \<le> length acc" and c: "map int c = prompt @ ids"
  shows "trim_count (map int acc) prompt ids \<le> trim"
proof -
  let ?n = "length ids - trim" and ?acc = "drop (length prompt) (map int acc)"
  have len: "length c = length prompt + length ids" using arg_cong[OF c, of length] by simp
  have "take ?n ids = take ?n ?acc"
  proof (cases "trim < length ids")
    case True
    have "take (length c - trim) (map int acc) = take (length c - trim) (prompt @ ids)"
      using e by (simp add: extends_upto_def take_map c[symmetric])
    then have "drop (length prompt) (take (length c - trim) (map int acc)) = drop (length prompt) (take (length c - trim) (prompt @ ids))"
      by simp
    then show ?thesis using True by (simp add: drop_take len)
  qed simp
  from matched_ge[OF this] have "?n \<le> matched ids ?acc" using le by (simp add: len)
  then show ?thesis by (simp add: trim_count_def)
qed


definition demo_completion :: completion where
  "demo_completion = \<lparr>c_response = demo_response [(0, 7)] ''stop'', c_message = [(''content'', JStr ''x'')], c_token_ids = [7]\<rparr>"

definition demo_events :: "session_event list" where
  "demo_events = [Begin (client_of [user_msg ''a'']), Finish 0 demo_completion]"


end
