(* ===== verification/Data_Source.thy ===== *)
theory Data_Source
  imports Sample_Types
begin

text \<open>
  \<^verbatim>\<open>miles/rollout/data_source.py\<close> with the datasets of \<^verbatim>\<open>miles/utils/data.py\<close> and the mix configuration of
  \<^verbatim>\<open>miles/utils/rollout_data_config.py\<close>: where the prompts of a rollout come from, in which order, and how the
  position survives a checkpoint.  The draws of Python's random generator, the lengths of tokenized
  prompts and the digests of files are parameters; a checkpoint is the state dictionary that was saved.
\<close>

section \<open>Datasets\<close>

text \<open>\<open>rng seed n i\<close> is the index at most \<open>i\<close> that \<open>random.shuffle\<close> draws for position \<open>i\<close> of \<open>n\<close> items
  after seeding with \<open>seed\<close>.\<close>

type_synonym rng = "int \<Rightarrow> nat \<Rightarrow> nat \<Rightarrow> nat"

definition rng_ok :: "rng \<Rightarrow> bool" where
  "rng_ok rng \<longleftrightarrow> (\<forall>seed n i. i < n \<longrightarrow> rng seed n i \<le> i)"

definition swap_items :: "nat \<Rightarrow> nat \<Rightarrow> 'a list \<Rightarrow> 'a list" where
  "swap_items i j xs = xs[i := xs ! j, j := xs ! i]"

definition py_shuffle :: "rng \<Rightarrow> int \<Rightarrow> 'a list \<Rightarrow> 'a list" where
  "py_shuffle rng seed xs = fold (\<lambda>i. swap_items i (rng seed (length xs) i)) (rev [1..<length xs]) xs"

record dataset =
  origin_samples :: "sample list"
  ds_samples :: "sample list"
  ds_epoch :: int
  ds_seed :: int

text \<open>The lengths of prompts: of a text in tokens, and of a sample with media as its processor expands it.\<close>

definition is_multimodal :: "sample \<Rightarrow> bool" where
  "is_multimodal s \<longleftrightarrow> list_ex (\<lambda>(k, v). v \<noteq> JNull) (as_obj (multimodal_inputs s))"

definition filter_long_prompt ::
    "(prompt \<Rightarrow> nat) \<Rightarrow> (sample \<Rightarrow> nat) option \<Rightarrow> nat option \<Rightarrow> sample list \<Rightarrow> py_exn + sample list" where
  "filter_long_prompt text_length media_length max_length samples =
     (case max_length of
        None \<Rightarrow> Inr samples
      | Some m \<Rightarrow>
          (case samples of
             [] \<Rightarrow> Inl IndexError
           | s # _ \<Rightarrow>
               (case sample_prompt s of
                  Messages _ \<Rightarrow> Inr samples
                | Text _ \<Rightarrow>
                    (case media_length of
                       None \<Rightarrow> Inr (filter (\<lambda>s. text_length (sample_prompt s) \<le> m) samples)
                     | Some f \<Rightarrow>
                         Inr (filter (\<lambda>s. text_length (sample_prompt s) \<le> m) (filter (\<lambda>s. \<not> is_multimodal s) samples) @
                              filter (\<lambda>s. f s \<le> m) (filter is_multimodal samples))))))"

definition new_dataset :: "int \<Rightarrow> sample list \<Rightarrow> dataset" where
  "new_dataset seed samples = \<lparr>origin_samples = samples, ds_samples = samples, ds_epoch = -1, ds_seed = seed\<rparr>"

definition dataset_shuffle :: "rng \<Rightarrow> int \<Rightarrow> dataset \<Rightarrow> dataset" where
  "dataset_shuffle rng e d =
     (if ds_epoch d = e then d
      else let permutation = py_shuffle rng (ds_seed d + e) [0..<length (ds_samples d)]
           in d\<lparr>ds_samples := map (\<lambda>i. origin_samples d ! i) permutation, ds_epoch := e\<rparr>)"

text \<open>How many micro-batches first fit needs.\<close>

fun place_length :: "int \<Rightarrow> int \<Rightarrow> int list \<Rightarrow> int list" where
  "place_length cap l [] = [l]"
| "place_length cap l (b # bs) = (if b + l \<le> cap then (b + l) # bs else b # place_length cap l bs)"

definition get_minimum_num_micro_batch_size :: "int list \<Rightarrow> int \<Rightarrow> nat" where
  "get_minimum_num_micro_batch_size total_lengths max_tokens =
     length (fold (place_length max_tokens) total_lengths [])"

section \<open>A single dataset\<close>

record data_args =
  rollout_global_dataset :: bool
  rollout_shuffle :: bool
  rollout_seed :: int
  n_samples_per_prompt :: nat

record single_source =
  ss_dataset :: "dataset option"
  epoch_id :: int
  sample_offset :: nat
  sample_group_index :: int
  next_sample_index :: int
  ss_metadata :: obj

text \<open>The groups of \<open>n\<close> copies, one per prompt, with consecutive group and sample indices.\<close>

definition sample_group :: "nat \<Rightarrow> int \<Rightarrow> int \<Rightarrow> sample \<Rightarrow> sample list" where
  "sample_group n g i s = map (\<lambda>j. s\<lparr>group_index := Some g, sample_index := Some (i + int j)\<rparr>) [0..<n]"

fun sample_groups :: "nat \<Rightarrow> int \<Rightarrow> int \<Rightarrow> sample list \<Rightarrow> sample list list" where
  "sample_groups n g i [] = []"
| "sample_groups n g i (s # ss) = sample_group n g i s # sample_groups n (g + 1) (i + int n) ss"

definition new_single_source :: "rng \<Rightarrow> data_args \<Rightarrow> sample list \<Rightarrow> single_source" where
  "new_single_source rng args samples =
     \<lparr>ss_dataset = (if rollout_global_dataset args
        then Some (let d = new_dataset (rollout_seed args) samples in if rollout_shuffle args then dataset_shuffle rng 0 d else d)
        else None),
      epoch_id = 0, sample_offset = 0, sample_group_index = 0, next_sample_index = 0, ss_metadata = []\<rparr>"

definition take_prompts :: "rng \<Rightarrow> data_args \<Rightarrow> nat \<Rightarrow> single_source \<Rightarrow> sample list \<times> single_source" where
  "take_prompts rng args n s =
     (case ss_dataset s of
        None \<Rightarrow> (replicate n new_sample, s)
      | Some d \<Rightarrow>
          if sample_offset s + n \<le> length (ds_samples d)
          then (take n (drop (sample_offset s) (ds_samples d)), s\<lparr>sample_offset := sample_offset s + n\<rparr>)
          else let rest = drop (sample_offset s) (ds_samples d);
                   missing = n - length rest;
                   d' = (if rollout_shuffle args then dataset_shuffle rng (epoch_id s + 1) d else d)
               in (rest @ take missing (ds_samples d'),
                   s\<lparr>ss_dataset := Some d', epoch_id := epoch_id s + 1, sample_offset := missing\<rparr>))"

definition get_samples :: "rng \<Rightarrow> data_args \<Rightarrow> nat \<Rightarrow> single_source \<Rightarrow> sample list list \<times> single_source" where
  "get_samples rng args n s =
     (let (prompts, s') = take_prompts rng args n s; k = n_samples_per_prompt args
      in (sample_groups k (sample_group_index s') (next_sample_index s') prompts,
          s'\<lparr>sample_group_index := sample_group_index s' + int (length prompts),
             next_sample_index := next_sample_index s' + int (length prompts * k)\<rparr>))"

text \<open>State dictionaries: a single dataset's, in which older checkpoints miss entries, and a mix's.\<close>

record single_state =
  sv_sample_offset :: "nat option"
  sv_epoch_id :: "int option"
  sv_sample_group_index :: "int option"
  sv_sample_index :: "int option"
  sv_metadata :: "obj option"

record mix_state =
  mx_offsets :: "(string \<times> nat) list"
  mx_epoch_ids :: "(string \<times> int) list"
  mx_credits :: "(string \<times> int) list"
  mx_num_requests :: nat
  mx_sample_group_index :: int
  mx_sample_index :: int
  mx_sha256 :: "(string \<times> string option) list"
  mx_settings :: "(string \<times> obj) list option"

datatype saved_state = Single_State single_state | Mix_State mix_state

text \<open>\<open>RolloutDataResumeMismatch\<close> with \<open>needs_flag\<close>, or another exception.\<close>

datatype data_error = Resume_Mismatch bool | Data_Raised py_exn

definition option_or :: "'a \<Rightarrow> 'a option \<Rightarrow> 'a" where
  "option_or x v = (case v of None \<Rightarrow> x | Some y \<Rightarrow> y)"

text \<open>\<open>save\<close> gives the file that a directory holds afterwards, if any.\<close>

definition save_single :: "data_args \<Rightarrow> single_source \<Rightarrow> saved_state option" where
  "save_single args s =
     (if \<not> rollout_global_dataset args then None
      else Some (Single_State
        \<lparr>sv_sample_offset = Some (sample_offset s), sv_epoch_id = Some (epoch_id s),
         sv_sample_group_index = Some (sample_group_index s), sv_sample_index = Some (next_sample_index s),
         sv_metadata = Some (ss_metadata s)\<rparr>))"

definition load_single :: "rng \<Rightarrow> data_args \<Rightarrow> saved_state option \<Rightarrow> single_source \<Rightarrow> data_error + single_source" where
  "load_single rng args file s =
     (if \<not> rollout_global_dataset args then Inr s
      else case file of
        None \<Rightarrow> Inl (Data_Raised AssertionError)
      | Some (Mix_State m) \<Rightarrow> Inl (Resume_Mismatch False)
      | Some (Single_State m) \<Rightarrow>
          let e = option_or 0 (sv_epoch_id m)
          in Inr (s\<lparr>sample_offset := option_or 0 (sv_sample_offset m), epoch_id := e,
                    sample_group_index := option_or 0 (sv_sample_group_index m),
                    next_sample_index := option_or 0 (sv_sample_index m), ss_metadata := option_or [] (sv_metadata m),
                    ss_dataset := (if rollout_shuffle args then map_option (dataset_shuffle rng e) (ss_dataset s) else ss_dataset s)\<rparr>))"

definition saved_sample_ids :: "saved_state \<Rightarrow> py_exn + int \<times> int" where
  "saved_sample_ids m =
     (case m of
        Single_State st \<Rightarrow>
          (case (sv_sample_group_index st, sv_sample_index st) of (Some g, Some i) \<Rightarrow> Inr (g, i) | _ \<Rightarrow> Inl KeyError)
      | Mix_State st \<Rightarrow> Inr (mx_sample_group_index st, mx_sample_index st))"

definition load_single_ids :: "saved_state option \<Rightarrow> single_source \<Rightarrow> py_exn + single_source" where
  "load_single_ids file s =
     (case file of
        None \<Rightarrow> Inl AssertionError
      | Some m \<Rightarrow> rbind (saved_sample_ids m) (\<lambda>(g, i). Inr (s\<lparr>sample_group_index := g, next_sample_index := i\<rparr>)))"

section \<open>A buffer in front of it\<close>

record buffered_source =
  bs_source :: single_source
  bs_buffer :: "sample list list"

text \<open>A buffer filter gives what is taken of the buffer, at most the given number of groups, and what stays.\<close>

type_synonym buffer_filter = "sample list list \<Rightarrow> nat \<Rightarrow> sample list list \<times> sample list list"

definition pop_first :: buffer_filter where
  "pop_first buffer n = (let k = min (length buffer) n in (take k buffer, drop k buffer))"

definition get_buffered :: "rng \<Rightarrow> data_args \<Rightarrow> buffer_filter \<Rightarrow> nat \<Rightarrow> buffered_source \<Rightarrow> sample list list \<times> buffered_source" where
  "get_buffered rng args flt n b =
     (let (taken, rest) = (if bs_buffer b = [] \<or> n = 0 then ([], bs_buffer b) else flt (bs_buffer b) n)
      in if length taken = n then (taken, b\<lparr>bs_buffer := rest\<rparr>)
         else let (fresh, s) = get_samples rng args (n - length taken) (bs_source b)
              in (taken @ fresh, b\<lparr>bs_source := s, bs_buffer := rest\<rparr>))"

text \<open>Groups before one of a wrong size are added all the same.\<close>

fun add_samples :: "data_args \<Rightarrow> sample list list \<Rightarrow> buffered_source \<Rightarrow> (py_exn + unit) \<times> buffered_source" where
  "add_samples args [] b = (Inr (), b)"
| "add_samples args (g # gs) b =
     (if length g \<noteq> n_samples_per_prompt args then (Inl AssertionError, b)
      else add_samples args gs (b\<lparr>bs_buffer := bs_buffer b @ [g]\<rparr>))"

definition get_buffer_length :: "buffered_source \<Rightarrow> nat" where
  "get_buffer_length b = length (bs_buffer b)"

definition load_buffered :: "saved_state option \<Rightarrow> buffered_source \<Rightarrow> py_exn + buffered_source" where
  "load_buffered file b = Inl NotImplementedError"

section \<open>The configuration of a mix\<close>

record dataset_config =
  cfg_name :: string
  cfg_path :: string
  samples_per_step :: int
  cfg_sha256 :: "string option"
  cfg_max_prompt_len :: "int option"
  cfg_max_response_len :: "int option"
  cfg_generate :: "string option"
  cfg_agent_function :: "string option"
  cfg_max_seq_len :: "int option"
  cfg_custom_rm :: "string option"
  cfg_rm_type :: "string option"
  cfg_agent :: "obj option"

definition name_char :: "char \<Rightarrow> bool" where
  "name_char c \<longleftrightarrow> c \<in> set ''ABCDEFGHIJKLMNOPQRSTUVWXYZabcdefghijklmnopqrstuvwxyz0123456789_.-''"

definition hex_char :: "char \<Rightarrow> bool" where
  "hex_char c \<longleftrightarrow> c \<in> set ''0123456789abcdef''"

text \<open>The fields of a dataset, each validated by its declaration; a failure is reported as \<open>ValueError\<close>.\<close>

definition required_field :: "obj \<Rightarrow> string \<Rightarrow> (json \<Rightarrow> py_exn + 'a) \<Rightarrow> py_exn + 'a" where
  "required_field d k f = (case map_of d k of None \<Rightarrow> Inl ValueError | Some v \<Rightarrow> f v)"

definition optional_field :: "obj \<Rightarrow> string \<Rightarrow> (json \<Rightarrow> py_exn + 'a) \<Rightarrow> py_exn + 'a option" where
  "optional_field d k f =
     (case map_of d k of None \<Rightarrow> Inr None | Some JNull \<Rightarrow> Inr None | Some v \<Rightarrow> rbind (f v) (\<lambda>x. Inr (Some x)))"

fun positive_int :: "json \<Rightarrow> py_exn + int" where
  "positive_int (JInt i) = (if 1 \<le> i then Inr i else Inl ValueError)"
| "positive_int _ = Inl ValueError"

fun nonempty_string :: "json \<Rightarrow> py_exn + string" where
  "nonempty_string (JStr s) = (if s \<noteq> [] then Inr s else Inl ValueError)"
| "nonempty_string _ = Inl ValueError"

fun sha_prefix :: "json \<Rightarrow> py_exn + string" where
  "sha_prefix (JStr s) = (if length s = 8 \<and> list_all hex_char s then Inr s else Inl ValueError)"
| "sha_prefix _ = Inl ValueError"

fun mapping_value :: "json \<Rightarrow> py_exn + obj" where
  "mapping_value (JObj d) = Inr d"
| "mapping_value _ = Inl ValueError"

definition DATASET_FIELDS :: "string list" where
  "DATASET_FIELDS = [''path'', ''samples_per_step'', ''sha256'', ''max_prompt_len'', ''max_response_len'',
     ''custom_generate_function_path'', ''custom_agent_function_path'', ''max_seq_len'', ''custom_rm_path'', ''rm_type'', ''agent'']"

definition parse_dataset :: "string \<Rightarrow> json \<Rightarrow> py_exn + dataset_config" where
  "parse_dataset name body =
     rbind (mapping_value body) (\<lambda>d.
     if dhas d ''name'' \<or> name = [] \<or> \<not> list_all name_char name \<or> \<not> fst ` set d \<subseteq> set DATASET_FIELDS then Inl ValueError
     else rbind (required_field d ''path'' nonempty_string) (\<lambda>path.
          rbind (required_field d ''samples_per_step'' positive_int) (\<lambda>weight.
          rbind (optional_field d ''sha256'' sha_prefix) (\<lambda>sha.
          rbind (optional_field d ''max_prompt_len'' positive_int) (\<lambda>prompt_len.
          rbind (optional_field d ''max_response_len'' positive_int) (\<lambda>response_len.
          rbind (optional_field d ''custom_generate_function_path'' nonempty_string) (\<lambda>generate.
          rbind (optional_field d ''custom_agent_function_path'' nonempty_string) (\<lambda>agent_function.
          rbind (optional_field d ''max_seq_len'' positive_int) (\<lambda>seq_len.
          rbind (optional_field d ''custom_rm_path'' nonempty_string) (\<lambda>custom_rm.
          rbind (optional_field d ''rm_type'' nonempty_string) (\<lambda>rm.
          rbind (optional_field d ''agent'' mapping_value) (\<lambda>agent.
          Inr \<lparr>cfg_name = name, cfg_path = path, samples_per_step = weight, cfg_sha256 = sha, cfg_max_prompt_len = prompt_len,
               cfg_max_response_len = response_len, cfg_generate = generate, cfg_agent_function = agent_function,
               cfg_max_seq_len = seq_len, cfg_custom_rm = custom_rm, cfg_rm_type = rm, cfg_agent = agent\<rparr>))))))))))))"

definition parse_rollout_datasets :: "json \<Rightarrow> py_exn + dataset_config list" where
  "parse_rollout_datasets document =
     rbind (mapping_value document) (\<lambda>d.
     if map fst d \<noteq> [''datasets''] then Inl ValueError
     else rbind (mapping_value (dget d ''datasets'')) (\<lambda>raw.
          if raw = [] then Inl ValueError else rmap (\<lambda>(name, body). parse_dataset name body) raw))"

definition exceeds :: "int option \<Rightarrow> int option \<Rightarrow> bool" where
  "exceeds x bound \<longleftrightarrow> (case (x, bound) of (Some v, Some b) \<Rightarrow> b < v | _ \<Rightarrow> False)"

definition check_dataset_length_limits ::
    "int option \<Rightarrow> int option \<Rightarrow> int option \<Rightarrow> dataset_config list \<Rightarrow> py_exn + unit" where
  "check_dataset_length_limits prompt_len response_len seq_len configs =
     guard ValueError (list_all (\<lambda>c. \<not> exceeds (cfg_max_prompt_len c) prompt_len \<and>
       \<not> exceeds (cfg_max_response_len c) response_len \<and> \<not> exceeds (cfg_max_seq_len c) seq_len) configs)"

definition lower_limit :: "int option list \<Rightarrow> int option" where
  "lower_limit limits = (let known = List.map_filter id limits in if known = [] then None else Some (Min (set known)))"

text \<open>The settings a resume compares, without those that are free to change and without absent ones.\<close>

definition opt_entry :: "string \<Rightarrow> ('a \<Rightarrow> json) \<Rightarrow> 'a option \<Rightarrow> obj" where
  "opt_entry k f x = (case x of None \<Rightarrow> [] | Some v \<Rightarrow> [(k, f v)])"

definition resumed_settings :: "dataset_config \<Rightarrow> obj" where
  "resumed_settings c =
     opt_entry ''max_prompt_len'' JInt (cfg_max_prompt_len c) @ opt_entry ''max_response_len'' JInt (cfg_max_response_len c) @
     opt_entry ''custom_generate_function_path'' JStr (cfg_generate c) @
     opt_entry ''custom_agent_function_path'' JStr (cfg_agent_function c) @ opt_entry ''max_seq_len'' JInt (cfg_max_seq_len c) @
     opt_entry ''custom_rm_path'' JStr (cfg_custom_rm c) @ opt_entry ''rm_type'' JStr (cfg_rm_type c) @
     opt_entry ''agent'' JObj (cfg_agent c)"

definition changed_settings :: "obj \<Rightarrow> obj \<Rightarrow> string list" where
  "changed_settings saved now = filter (\<lambda>k. \<not> py_eq (dget saved k) (dget now k)) (map fst saved @ map fst now)"

section \<open>Splitting a request by weight\<close>

fun split_loop :: "int list \<Rightarrow> nat \<Rightarrow> nat list \<Rightarrow> int list \<Rightarrow> py_exn + nat list \<times> int list" where
  "split_loop weights 0 counts credits = Inr (counts, credits)"
| "split_loop weights (Suc n) counts credits =
     (if length credits \<noteq> length weights then Inl ValueError
      else let gained = map2 (+) credits weights
           in case find_index (\<lambda>c. c = Max (set gained)) gained of
                None \<Rightarrow> Inl ValueError
              | Some i \<Rightarrow> split_loop weights n (counts[i := counts ! i + 1]) (gained[i := gained ! i - sum_list weights]))"

definition split_by_weight :: "nat \<Rightarrow> int list \<Rightarrow> int list \<Rightarrow> py_exn + nat list \<times> int list" where
  "split_by_weight n weights credits = split_loop weights n (replicate (length weights) 0) credits"

section \<open>A mix of datasets\<close>

text \<open>A dataset with its position and epoch.\<close>

record data_cursor =
  dc_dataset :: dataset
  dc_offset :: nat
  dc_epoch :: int

record mixed_source =
  ms_configs :: "dataset_config list"
  ms_sha256 :: "(string \<times> string option) list"
  ms_cursors :: "(string \<times> data_cursor) list"
  ms_credits :: "int list"
  ms_num_requests :: nat
  ms_group_index :: int
  ms_sample_index :: int

definition advance :: "rng \<Rightarrow> data_args \<Rightarrow> nat \<Rightarrow> data_cursor \<Rightarrow> data_cursor" where
  "advance rng args k c =
     (let off = dc_offset c + k
      in if off < length (ds_samples (dc_dataset c)) then c\<lparr>dc_offset := off\<rparr>
         else let e = dc_epoch c + 1
              in c\<lparr>dc_offset := 0, dc_epoch := e,
                   dc_dataset := (if rollout_shuffle args then dataset_shuffle rng e (dc_dataset c) else dc_dataset c)\<rparr>)"

text \<open>\<open>_take\<close>; \<open>None\<close> is a loop that does not end, on a dataset without prompts.\<close>

partial_function (option) take_loop ::
    "rng \<Rightarrow> data_args \<Rightarrow> nat \<Rightarrow> sample list \<Rightarrow> data_cursor \<Rightarrow> (sample list \<times> data_cursor) option" where
  "take_loop rng args n prompts c =
     (if n = 0 then Some (prompts, c)
      else let chunk = take n (drop (dc_offset c) (ds_samples (dc_dataset c)))
           in take_loop rng args (n - length chunk) (prompts @ chunk) (advance rng args (length chunk) c))"



fun take_all ::
    "rng \<Rightarrow> data_args \<Rightarrow> (dataset_config \<times> nat) list \<Rightarrow> (string \<times> data_cursor) list \<Rightarrow>
     (py_exn + (dataset_config \<times> sample) list \<times> (string \<times> data_cursor) list) option" where
  "take_all rng args [] cursors = Some (Inr ([], cursors))"
| "take_all rng args ((cfg, n) # rest) cursors =
     (case map_of cursors (cfg_name cfg) of
        None \<Rightarrow> Some (Inl KeyError)
      | Some c \<Rightarrow>
          (case take_loop rng args n [] c of
             None \<Rightarrow> None
           | Some (ps, c') \<Rightarrow>
               map_option (\<lambda>r. rbind r (\<lambda>(qs, cs). Inr (map (Pair cfg) ps @ qs, cs)))
                 (take_all rng args rest (AList.update (cfg_name cfg) c' cursors))))"

definition MIX_SEED_STRIDE :: int where
  "MIX_SEED_STRIDE = 1000003"

text \<open>A prompt's metadata is a mapping: the constructor rejects others.\<close>

definition stamp :: "dataset_config \<Rightarrow> sample \<Rightarrow> sample" where
  "stamp c s =
     (let md = dset ''dataset_name'' (JStr (cfg_name c)) (option_or [] (metadata s))
      in s\<lparr>metadata := Some (case cfg_agent c of None \<Rightarrow> md | Some a \<Rightarrow> dset ''agent_config'' (JObj a) md),
           agent_function_path := cfg_agent_function c, max_seq_len := cfg_max_seq_len c,
           max_response_len := cfg_max_response_len c, generate_function_path := cfg_generate c,
           sample_reward_spec := (if cfg_custom_rm c \<noteq> None \<or> cfg_rm_type c \<noteq> None
             then Some \<lparr>rm_type = cfg_rm_type c, custom_rm_path = cfg_custom_rm c\<rparr> else sample_reward_spec s)\<rparr>)"

definition get_mixed :: "rng \<Rightarrow> data_args \<Rightarrow> nat \<Rightarrow> mixed_source \<Rightarrow> (py_exn + sample list list \<times> mixed_source) option" where
  "get_mixed rng args n s =
     (case split_by_weight n (map samples_per_step (ms_configs s)) (ms_credits s) of
        Inl e \<Rightarrow> Some (Inl e)
      | Inr (counts, credits) \<Rightarrow>
          map_option (\<lambda>r. rbind r (\<lambda>(prompts, cursors).
            let shuffled = py_shuffle rng (rollout_seed args * MIX_SEED_STRIDE + int (ms_num_requests s)) prompts;
                k = n_samples_per_prompt args
            in Inr (sample_groups k (ms_group_index s) (ms_sample_index s) (map (\<lambda>(c, p). stamp c p) shuffled),
                    s\<lparr>ms_cursors := cursors, ms_credits := credits, ms_num_requests := ms_num_requests s + 1,
                      ms_group_index := ms_group_index s + int (length prompts),
                      ms_sample_index := ms_sample_index s + int (length prompts * k)\<rparr>)))
            (take_all rng args (zip (ms_configs s) counts) (ms_cursors s)))"

section \<open>Construction and checkpoints of a mix\<close>

text \<open>\<open>path@[start:end]\<close>, read from the back: the digits and the sign of a bound, then what stands before it.\<close>

definition take_bound :: "string \<Rightarrow> bool \<times> string \<times> string" where
  "take_bound r =
     (let digits = takeWhile is_digit r; rest = dropWhile is_digit r
      in (case rest of CHR ''-'' # r \<Rightarrow> (True, rev digits, r) | _ \<Rightarrow> (False, rev digits, rest)))"

definition bound_value :: "bool \<Rightarrow> string \<Rightarrow> py_exn + int option" where
  "bound_value negative digits =
     (if digits = [] then (if negative then Inl ValueError else Inr None)
      else Inr (Some (if negative then - int (nat_of_string digits) else int (nat_of_string digits))))"

definition parse_generalized_path :: "string \<Rightarrow> py_exn + string \<times> (int option \<times> int option) option" where
  "parse_generalized_path s =
     (case rev s of
        CHR '']'' # r1 \<Rightarrow>
          (let (end_neg, end_digits, r2) = take_bound r1
           in case r2 of
                CHR '':'' # r3 \<Rightarrow>
                  (let (start_neg, start_digits, r4) = take_bound r3
                   in case r4 of
                        CHR ''['' # CHR ''@'' # p \<Rightarrow>
                          rbind (bound_value start_neg start_digits) (\<lambda>a.
                          rbind (bound_value end_neg end_digits) (\<lambda>b. Inr (rev p, Some (a, b))))
                      | _ \<Rightarrow> Inr (s, None))
              | _ \<Rightarrow> Inr (s, None))
      | _ \<Rightarrow> Inr (s, None))"

text \<open>\<open>digest\<close> is the SHA-256 of the file at a path, in hexadecimal digits, if there is one.\<close>

definition check_dataset_sha256 :: "(string \<Rightarrow> string option) \<Rightarrow> dataset_config \<Rightarrow> py_exn + string option" where
  "check_dataset_sha256 digest c =
     rbind (parse_generalized_path (cfg_path c)) (\<lambda>(path, slice).
     case digest path of
       None \<Rightarrow> if cfg_sha256 c \<noteq> None then Inl ValueError else Inr None
     | Some actual \<Rightarrow>
         (case cfg_sha256 c of
            None \<Rightarrow> Inr (Some actual)
          | Some pin \<Rightarrow> if pin \<noteq> take 8 actual then Inl ValueError else Inr (Some actual)))"

text \<open>The prompts of a dataset are accepted unless there are none, one has no mapping as its metadata, or a pinned
  file changed while it was read.\<close>

definition load_mixed_dataset ::
    "rng \<Rightarrow> data_args \<Rightarrow> (dataset_config \<Rightarrow> py_exn + sample list) \<Rightarrow> (string \<Rightarrow> string option) \<Rightarrow>
     dataset_config \<times> string option \<Rightarrow> py_exn + string \<times> data_cursor" where
  "load_mixed_dataset rng args prompts_of digest' =
     (\<lambda>(c, sha).
       rbind (prompts_of c) (\<lambda>ps.
       rbind (guard ValueError (ps \<noteq> [])) (\<lambda>_.
       rbind (guard ValueError (list_all (\<lambda>p. metadata p \<noteq> None) ps)) (\<lambda>_.
       rbind (if cfg_sha256 c \<noteq> None \<and> sha \<noteq> None
              then rbind (parse_generalized_path (cfg_path c)) (\<lambda>(path, slice). guard ValueError (digest' path = sha))
              else Inr ()) (\<lambda>_.
       let d = new_dataset (rollout_seed args) ps
       in Inr (cfg_name c, \<lparr>dc_dataset = (if rollout_shuffle args then dataset_shuffle rng 0 d else d), dc_offset = 0, dc_epoch = 0\<rparr>))))))"

definition new_mixed_source ::
    "rng \<Rightarrow> data_args \<Rightarrow> (dataset_config \<Rightarrow> py_exn + sample list) \<Rightarrow> (string \<Rightarrow> string option) \<Rightarrow> (string \<Rightarrow> string option) \<Rightarrow>
     dataset_config list \<Rightarrow> py_exn + mixed_source" where
  "new_mixed_source rng args prompts_of digest digest' configs =
     rbind (rmap (check_dataset_sha256 digest) configs) (\<lambda>shas.
     rbind (rmap (load_mixed_dataset rng args prompts_of digest') (zip configs shas)) (\<lambda>cursors.
     Inr \<lparr>ms_configs = configs, ms_sha256 = zip (map cfg_name configs) shas, ms_cursors = cursors,
          ms_credits = replicate (length configs) 0, ms_num_requests = 0, ms_group_index = 0, ms_sample_index = 0\<rparr>))"

definition save_mixed :: "mixed_source \<Rightarrow> py_exn + saved_state" where
  "save_mixed s =
     (let names = map fst (ms_cursors s)
      in if length names \<noteq> length (ms_credits s) then Inl ValueError
         else Inr (Mix_State
           \<lparr>mx_offsets = map (\<lambda>(n, c). (n, dc_offset c)) (ms_cursors s), mx_epoch_ids = map (\<lambda>(n, c). (n, dc_epoch c)) (ms_cursors s),
            mx_credits = zip names (ms_credits s), mx_num_requests = ms_num_requests s,
            mx_sample_group_index = ms_group_index s, mx_sample_index = ms_sample_index s, mx_sha256 = ms_sha256 s,
            mx_settings = Some (map (\<lambda>c. (cfg_name c, resumed_settings c)) (ms_configs s))\<rparr>))"

abbreviation data_lookup :: "(string \<times> 'a) list \<Rightarrow> string \<Rightarrow> data_error + 'a" where
  "data_lookup d k \<equiv> (case map_of d k of None \<Rightarrow> Inl (Data_Raised KeyError) | Some v \<Rightarrow> Inr v)"

definition check_settings :: "mix_state \<Rightarrow> dataset_config \<Rightarrow> data_error + unit" where
  "check_settings m c =
     (case mx_settings m of
        None \<Rightarrow> Inr ()
      | Some st \<Rightarrow> rbind (data_lookup st (cfg_name c)) (\<lambda>saved. guard (Resume_Mismatch True) (changed_settings saved (resumed_settings c) = [])))"

definition resume_cursor :: "rng \<Rightarrow> data_args \<Rightarrow> mix_state \<Rightarrow> string \<times> data_cursor \<Rightarrow> data_error + string \<times> data_cursor" where
  "resume_cursor rng args m = (\<lambda>(name, c).
     rbind (data_lookup (mx_offsets m) name) (\<lambda>off.
     rbind (data_lookup (mx_epoch_ids m) name) (\<lambda>e.
     Inr (name, c\<lparr>dc_offset := off, dc_epoch := e,
                   dc_dataset := (if rollout_shuffle args then dataset_shuffle rng e (dc_dataset c) else dc_dataset c)\<rparr>))))"

definition load_mixed :: "rng \<Rightarrow> data_args \<Rightarrow> saved_state option \<Rightarrow> mixed_source \<Rightarrow> data_error + mixed_source" where
  "load_mixed rng args file s =
     (case file of
        None \<Rightarrow> Inl (Resume_Mismatch True)
      | Some (Single_State m) \<Rightarrow> Inl (Resume_Mismatch True)
      | Some (Mix_State m) \<Rightarrow>
          rbind (guard (Resume_Mismatch True) (fst ` set (mx_offsets m) = fst ` set (ms_cursors s))) (\<lambda>_.
          rbind (rmap (check_settings m) (ms_configs s)) (\<lambda>_.
          rbind (rmap (\<lambda>(name, saved). rbind (data_lookup (ms_sha256 s) name) (\<lambda>now. guard (Resume_Mismatch True) (saved = now))) (mx_sha256 m)) (\<lambda>_.
          rbind (guard (Resume_Mismatch True) (list_all (\<lambda>(name, off). case map_of (ms_cursors s) name of
                   None \<Rightarrow> True | Some c \<Rightarrow> off \<le> length (ds_samples (dc_dataset c))) (mx_offsets m))) (\<lambda>_.
          rbind (rmap (\<lambda>(name, c). data_lookup (mx_credits m) name) (ms_cursors s)) (\<lambda>credits.
          rbind (rmap (resume_cursor rng args m) (ms_cursors s)) (\<lambda>cursors.
          Inr (s\<lparr>ms_cursors := cursors, ms_credits := credits, ms_num_requests := mx_num_requests m,
                 ms_group_index := mx_sample_group_index m, ms_sample_index := mx_sample_index m\<rparr>))))))))"

definition load_mixed_ids :: "saved_state option \<Rightarrow> mixed_source \<Rightarrow> py_exn + mixed_source" where
  "load_mixed_ids file s =
     (case file of
        None \<Rightarrow> Inr s
      | Some m \<Rightarrow> rbind (saved_sample_ids m) (\<lambda>(g, i). Inr (s\<lparr>ms_group_index := g, ms_sample_index := i\<rparr>)))"

end
