(* ===== verification/Data_Streams.thy ===== *)
theory Data_Streams
  imports Data_Source
begin

text \<open>
  What \<^verbatim>\<open>Data_Source\<close> promises a training loop.  Every dataset is a stream of epochs, each a permutation of its
  prompts, and requests read it without gaps or repetitions: the interface \<open>epoch_stream\<close>, interpreted on the
  single source and on the cursors of a mix.  The split of requests over a mix follows the weights, and a
  checkpoint resumes a mix exactly.
\<close>

section \<open>Shuffling\<close>

lemma length_swap_items [simp]: "length (swap_items i j xs) = length xs"
  by (simp add: swap_items_def)

lemma mset_swap_items: "i < length xs \<Longrightarrow> j < length xs \<Longrightarrow> mset (swap_items i j xs) = mset xs"
  by (simp add: swap_items_def mset_swap)

lemma fold_swaps:
  assumes "\<forall>i \<in> set is. i < length xs \<and> f i < length xs"
  shows "mset (fold (\<lambda>i. swap_items i (f i)) is xs) = mset xs"
  using assms by (induction "is" arbitrary: xs) (auto simp: mset_swap_items)

lemma mset_py_shuffle:
  assumes "rng_ok rng"
  shows "mset (py_shuffle rng seed xs) = mset xs"
  unfolding py_shuffle_def
proof (rule fold_swaps, intro ballI)
  fix i assume "i \<in> set (rev [1..<length xs])"
  then have "i < length xs" "rng seed (length xs) i \<le> i" using assms by (auto simp: rng_ok_def)
  then show "i < length xs \<and> rng seed (length xs) i < length xs" by auto
qed

lemma length_py_shuffle [simp]: "length (py_shuffle rng seed xs) = length xs"
proof -
  have "length (fold (\<lambda>i. swap_items i (f i)) is ys) = length ys" for f "is" and ys :: "'a list"
    by (induction "is" arbitrary: ys) auto
  then show ?thesis by (simp add: py_shuffle_def)
qed

text \<open>The order of the prompts in an epoch.\<close>

definition epoch_order :: "rng \<Rightarrow> data_args \<Rightarrow> dataset \<Rightarrow> int \<Rightarrow> sample list" where
  "epoch_order rng args d e =
     (if rollout_shuffle args
      then map (\<lambda>i. origin_samples d ! i) (py_shuffle rng (ds_seed d + e) [0..<length (origin_samples d)])
      else origin_samples d)"

lemma length_epoch_order [simp]: "length (epoch_order rng args d e) = length (origin_samples d)"
  by (simp add: epoch_order_def)

lemma mset_epoch_order:
  assumes "rng_ok rng"
  shows "mset (epoch_order rng args d e) = mset (origin_samples d)"
proof -
  have "mset (map (\<lambda>i. origin_samples d ! i) (py_shuffle rng s [0..<length (origin_samples d)])) =
      mset (map (\<lambda>i. origin_samples d ! i) [0..<length (origin_samples d)])" for s
    by (simp only: mset_map mset_py_shuffle[OF assms])
  then show ?thesis by (simp add: epoch_order_def map_nth)
qed

lemma shuffle_keeps [simp]:
  "origin_samples (dataset_shuffle rng e d) = origin_samples d" "ds_seed (dataset_shuffle rng e d) = ds_seed d"
  by (simp_all add: dataset_shuffle_def Let_def)

lemma epoch_order_shuffle [simp]: "epoch_order rng args (dataset_shuffle rng e' d) e = epoch_order rng args d e"
  by (simp add: epoch_order_def)

text \<open>A dataset in the order of an epoch; a fresh one counts as the epoch before the first.\<close>

definition in_epoch :: "rng \<Rightarrow> data_args \<Rightarrow> int \<Rightarrow> dataset \<Rightarrow> bool" where
  "in_epoch rng args e d \<longleftrightarrow> ds_samples d = epoch_order rng args d e \<and> ds_epoch d = (if rollout_shuffle args then e else -1)"

definition next_order :: "rng \<Rightarrow> data_args \<Rightarrow> int \<Rightarrow> dataset \<Rightarrow> dataset" where
  "next_order rng args e d = (if rollout_shuffle args then dataset_shuffle rng e d else d)"

lemma in_epoch_next: "in_epoch rng args e d \<Longrightarrow> in_epoch rng args e' (next_order rng args e' d)"
  by (auto simp: in_epoch_def next_order_def dataset_shuffle_def epoch_order_def Let_def)

lemma in_epoch_new: "in_epoch rng args 0 (next_order rng args 0 (new_dataset seed samples))"
  by (auto simp: in_epoch_def next_order_def dataset_shuffle_def epoch_order_def new_dataset_def Let_def)

lemma next_order_keeps [simp]:
  "origin_samples (next_order rng args e d) = origin_samples d" "ds_seed (next_order rng args e d) = ds_seed d"
  "epoch_order rng args (next_order rng args e' d) e = epoch_order rng args d e"
  by (simp_all add: next_order_def)

text \<open>An epoch's order depends on the prompts and the seed only, so a dataset in an epoch is determined by them.\<close>

lemma in_epoch_unique:
  assumes "in_epoch rng args e d" and "in_epoch rng args e' d0" and "origin_samples d0 = origin_samples d" and "ds_seed d0 = ds_seed d"
  shows "next_order rng args e d0 = d"
proof -
  have "in_epoch rng args e (next_order rng args e d0)" by (rule in_epoch_next[OF assms(2)])
  moreover have "epoch_order rng args d0 e = epoch_order rng args d e" using assms(3,4) by (simp add: epoch_order_def)
  ultimately show ?thesis using assms(1,3,4) by (auto simp: in_epoch_def intro!: dataset.equality)
qed

section \<open>Streams of prompts\<close>

lemma upt_glue: "[a..<a + n] @ [a + n..<a + (n + m)] = [a..<a + (n + (m::nat))]"
  using upt_add_eq_append[of a "a + n" m] by (simp add: add.assoc)

lemma map_upt_glue: "map f [a..<a + n] @ map f [a + n..<a + (n + (m::nat))] = map f [a..<a + (n + m)]"
  unfolding map_append[symmetric] upt_glue ..

text \<open>What a training loop relies on: requests read one stream of prompts, without gaps or repetitions.\<close>

locale prompt_stream =
  fixes draw :: "nat \<Rightarrow> 's \<Rightarrow> ('p list \<times> 's) option" and ok :: "'s \<Rightarrow> bool" and fits :: "'s \<Rightarrow> nat \<Rightarrow> bool"
    and position :: "'s \<Rightarrow> nat" and stream :: "'s \<Rightarrow> nat \<Rightarrow> 'p"
  assumes draw_spec: "ok s \<Longrightarrow> fits s n \<Longrightarrow>
      \<exists>s'. draw n s = Some (map (stream s) [position s..<position s + n], s') \<and> ok s' \<and> position s' = position s + n \<and>
        stream s' = stream s \<and> fits s' = fits s"
begin

fun draws :: "nat list \<Rightarrow> 's \<Rightarrow> ('p list \<times> 's) option" where
  "draws [] s = Some ([], s)"
| "draws (n # ns) s =
     (case draw n s of None \<Rightarrow> None | Some (ps, s') \<Rightarrow> map_option (\<lambda>(qs, t). (ps @ qs, t)) (draws ns s'))"

lemma draws_spec:
  assumes "ok s" and "\<forall>n \<in> set ns. fits s n"
  shows "\<exists>s'. draws ns s = Some (map (stream s) [position s..<position s + sum_list ns], s') \<and> ok s' \<and>
    position s' = position s + sum_list ns \<and> stream s' = stream s \<and> fits s' = fits s"
  using assms
proof (induction ns arbitrary: s)
  case (Cons n ns)
  from draw_spec[of s n] Cons.prems obtain t where t: "draw n s = Some (map (stream s) [position s..<position s + n], t)" "ok t"
    "position t = position s + n" "stream t = stream s" "fits t = fits s" by auto
  from Cons.IH[of t] Cons.prems t obtain u where "draws ns t = Some (map (stream t) [position t..<position t + sum_list ns], u)" "ok u"
    "position u = position t + sum_list ns" "stream u = stream t" "fits u = fits t" by auto
  then show ?case using t
    by (auto simp: add.assoc map_upt_glue)
qed simp

end

locale epoch_stream = prompt_stream draw ok fits position stream
  for draw :: "nat \<Rightarrow> 's \<Rightarrow> ('p list \<times> 's) option" and ok and fits and position and stream +
  fixes items :: "'s \<Rightarrow> 'p list"
  assumes epoch: "ok s \<Longrightarrow> mset (map (stream s) [k * length (items s)..<k * length (items s) + length (items s)]) = mset (items s)"
begin

text \<open>Requests that start at an epoch and read as many prompts as there are read each exactly once.\<close>

lemma draws_epoch:
  assumes "ok s" and "\<forall>n \<in> set ns. fits s n" and "position s = k * length (items s)" and "sum_list ns = length (items s)"
  shows "\<exists>ps s'. draws ns s = Some (ps, s') \<and> mset ps = mset (items s)"
  using draws_spec[OF assms(1,2)] epoch[OF assms(1), of k] assms(3,4) by auto

end

section \<open>The datasets of a mix read their streams\<close>

definition prompt_at :: "rng \<Rightarrow> data_args \<Rightarrow> dataset \<Rightarrow> nat \<Rightarrow> sample" where
  "prompt_at rng args d p =
     epoch_order rng args d (int (p div length (origin_samples d))) ! (p mod length (origin_samples d))"

definition cursor_ok :: "rng \<Rightarrow> data_args \<Rightarrow> data_cursor \<Rightarrow> bool" where
  "cursor_ok rng args c \<longleftrightarrow>
     in_epoch rng args (dc_epoch c) (dc_dataset c) \<and> 0 \<le> dc_epoch c \<and> dc_offset c < length (origin_samples (dc_dataset c))"

definition cursor_position :: "data_cursor \<Rightarrow> nat" where
  "cursor_position c = nat (dc_epoch c) * length (origin_samples (dc_dataset c)) + dc_offset c"

lemma prompt_at_next [simp]: "prompt_at rng args (next_order rng args e d) = prompt_at rng args d"
  by (rule ext) (simp add: prompt_at_def)

lemma prompt_at_epoch:
  assumes "i < length (origin_samples d)"
  shows "prompt_at rng args d (e * length (origin_samples d) + i) = epoch_order rng args d (int e) ! i"
proof -
  have "length (origin_samples d) \<noteq> 0" using assms by auto
  then show ?thesis using assms by (simp add: prompt_at_def)
qed

text \<open>A slice of an epoch is a piece of the stream.\<close>

lemma epoch_slice:
  assumes "off + k \<le> length (origin_samples d)"
  shows "take k (drop off (epoch_order rng args d (int e))) =
    map (prompt_at rng args d) [e * length (origin_samples d) + off..<e * length (origin_samples d) + off + k]"
proof (rule nth_equalityI)
  fix i assume "i < length (take k (drop off (epoch_order rng args d (int e))))"
  then have i: "i < k" "off + i < length (origin_samples d)" using assms by auto
  then show "take k (drop off (epoch_order rng args d (int e))) ! i =
      map (prompt_at rng args d) [e * length (origin_samples d) + off..<e * length (origin_samples d) + off + k] ! i"
    using prompt_at_epoch[of "off + i" d rng args e] by (simp add: nth_append add.assoc)
qed (use assms in simp)

lemma mset_epoch_stream:
  assumes "rng_ok rng"
  shows "mset (map (prompt_at rng args d) [e * length (origin_samples d)..<e * length (origin_samples d) + length (origin_samples d)]) =
    mset (origin_samples d)"
proof -
  have "map (prompt_at rng args d) [e * length (origin_samples d)..<e * length (origin_samples d) + length (origin_samples d)] =
      epoch_order rng args d (int e)"
    using epoch_slice[of 0 "length (origin_samples d)" d rng args e] by simp
  then show ?thesis by (simp only: mset_epoch_order[OF assms])
qed

lemma advance_spec:
  assumes "cursor_ok rng args c" and "dc_offset c + k \<le> length (origin_samples (dc_dataset c))"
  shows "cursor_ok rng args (advance rng args k c) \<and> cursor_position (advance rng args k c) = cursor_position c + k \<and>
    prompt_at rng args (dc_dataset (advance rng args k c)) = prompt_at rng args (dc_dataset c) \<and>
    origin_samples (dc_dataset (advance rng args k c)) = origin_samples (dc_dataset c) \<and>
    ds_seed (dc_dataset (advance rng args k c)) = ds_seed (dc_dataset c)"
proof -
  let ?d = "dc_dataset c" and ?e = "dc_epoch c"
  have c: "in_epoch rng args ?e ?d" "0 \<le> ?e" "dc_offset c < length (origin_samples ?d)" using assms(1) by (auto simp: cursor_ok_def)
  then have len: "length (ds_samples ?d) = length (origin_samples ?d)" by (simp add: in_epoch_def)
  show ?thesis
  proof (cases "dc_offset c + k < length (origin_samples ?d)")
    case True
    then show ?thesis using c len by (simp add: advance_def cursor_ok_def cursor_position_def)
  next
    case False
    then have a: "advance rng args k c = c\<lparr>dc_offset := 0, dc_epoch := ?e + 1, dc_dataset := next_order rng args (?e + 1) ?d\<rparr>"
      using len by (simp add: advance_def Let_def next_order_def)
    have "dc_offset c + k = length (origin_samples ?d)" using False assms(2) by simp
    then show ?thesis using c in_epoch_next[OF c(1), of "?e + 1"]
      by (auto simp: a cursor_ok_def cursor_position_def nat_add_distrib)
  qed
qed

lemma take_loop_spec:
  assumes "cursor_ok rng args c"
  shows "\<exists>c'. take_loop rng args n prompts c =
      Some (prompts @ map (prompt_at rng args (dc_dataset c)) [cursor_position c..<cursor_position c + n], c') \<and>
    cursor_ok rng args c' \<and> cursor_position c' = cursor_position c + n \<and>
    prompt_at rng args (dc_dataset c') = prompt_at rng args (dc_dataset c) \<and>
    origin_samples (dc_dataset c') = origin_samples (dc_dataset c) \<and> ds_seed (dc_dataset c') = ds_seed (dc_dataset c)"
  using assms
proof (induction n arbitrary: prompts c rule: less_induct)
  case (less n)
  let ?d = "dc_dataset c"
  show ?case
  proof (cases "n = 0")
    case True
    then show ?thesis using less.prems by (simp add: take_loop.simps)
  next
    case False
    have c: "in_epoch rng args (dc_epoch c) ?d" "0 \<le> dc_epoch c" "dc_offset c < length (origin_samples ?d)"
      using less.prems by (auto simp: cursor_ok_def)
    define k where "k = min n (length (origin_samples ?d) - dc_offset c)"
    have k: "0 < k" "k \<le> n" "dc_offset c + k \<le> length (origin_samples ?d)" using c(3) False by (auto simp: k_def)
    have ds: "ds_samples ?d = epoch_order rng args ?d (int (nat (dc_epoch c)))" using c(1,2) by (simp add: in_epoch_def)
    have chunk: "take n (drop (dc_offset c) (ds_samples ?d)) =
        map (prompt_at rng args ?d) [cursor_position c..<cursor_position c + k]"
    proof -
      have "take n (drop (dc_offset c) (ds_samples ?d)) = take k (drop (dc_offset c) (ds_samples ?d))"
        by (simp add: k_def ds take_all_iff min_def)
      then show ?thesis using epoch_slice[OF k(3), of rng args "nat (dc_epoch c)"] by (simp add: ds cursor_position_def)
    qed
    have a: "cursor_ok rng args (advance rng args k c)" "cursor_position (advance rng args k c) = cursor_position c + k"
      "prompt_at rng args (dc_dataset (advance rng args k c)) = prompt_at rng args ?d"
      "origin_samples (dc_dataset (advance rng args k c)) = origin_samples ?d" "ds_seed (dc_dataset (advance rng args k c)) = ds_seed ?d"
      using advance_spec[OF less.prems k(3)] by blast+
    have "n - k < n" using k(1,2) by simp
    note ih = less.IH[OF this a(1), of "prompts @ map (prompt_at rng args ?d) [cursor_position c..<cursor_position c + k]", unfolded a(2-5)]
    have n: "n = k + (n - k)" using k(2) by simp
    have "take_loop rng args n prompts c =
        take_loop rng args (n - k) (prompts @ map (prompt_at rng args ?d) [cursor_position c..<cursor_position c + k]) (advance rng args k c)"
      using False by (subst take_loop.simps) (simp add: chunk Let_def)
    moreover have "map (prompt_at rng args ?d) [cursor_position c..<cursor_position c + k] @
        map (prompt_at rng args ?d) [cursor_position c + k..<cursor_position c + k + (n - k)] =
        map (prompt_at rng args ?d) [cursor_position c..<cursor_position c + n]"
      using map_upt_glue[of "prompt_at rng args ?d" "cursor_position c" k "n - k"] k(2) by simp
    moreover have "cursor_position c + k + (n - k) = cursor_position c + n" using k(2) by simp
    ultimately show ?thesis using ih by (simp only: append_assoc)
  qed
qed

interpretation mixed: epoch_stream "\<lambda>n c. take_loop rng args n [] c" "\<lambda>c. rng_ok rng \<and> cursor_ok rng args c" "\<lambda>c n. True"
  cursor_position "\<lambda>c. prompt_at rng args (dc_dataset c)" "\<lambda>c. origin_samples (dc_dataset c)"
proof (unfold_locales, goal_cases)
  case (1 s n)
  then show ?case using take_loop_spec[of rng args s n "[]"] by fastforce
next
  case (2 s k)
  then show ?case using mset_epoch_stream by blast
qed

section \<open>A single dataset reads its stream\<close>

definition source_ok :: "rng \<Rightarrow> data_args \<Rightarrow> single_source \<Rightarrow> bool" where
  "source_ok rng args s \<longleftrightarrow>
     (case ss_dataset s of None \<Rightarrow> False
      | Some d \<Rightarrow> in_epoch rng args (epoch_id s) d \<and> 0 \<le> epoch_id s \<and> sample_offset s \<le> length (origin_samples d) \<and> origin_samples d \<noteq> [])"

definition source_items :: "single_source \<Rightarrow> sample list" where
  "source_items s = (case ss_dataset s of None \<Rightarrow> [] | Some d \<Rightarrow> origin_samples d)"

definition source_position :: "single_source \<Rightarrow> nat" where
  "source_position s = nat (epoch_id s) * length (source_items s) + sample_offset s"

definition source_stream :: "rng \<Rightarrow> data_args \<Rightarrow> single_source \<Rightarrow> nat \<Rightarrow> sample" where
  "source_stream rng args s = prompt_at rng args (the (ss_dataset s))"

lemma take_prompts_spec:
  assumes "source_ok rng args s" and "n \<le> length (source_items s)"
  shows "\<exists>s'. take_prompts rng args n s = (map (source_stream rng args s) [source_position s..<source_position s + n], s') \<and>
    source_ok rng args s' \<and> source_position s' = source_position s + n \<and>
    source_stream rng args s' = source_stream rng args s \<and> source_items s' = source_items s"
proof -
  from assms(1) obtain d where d: "ss_dataset s = Some d" "in_epoch rng args (epoch_id s) d" "0 \<le> epoch_id s"
    "sample_offset s \<le> length (origin_samples d)" "origin_samples d \<noteq> []" by (auto simp: source_ok_def split: option.splits)
  have ds: "ds_samples d = epoch_order rng args d (int (nat (epoch_id s)))" using d(2,3) by (simp add: in_epoch_def)
  have items: "source_items s = origin_samples d" "source_stream rng args s = prompt_at rng args d"
    using d(1) by (simp_all add: source_items_def source_stream_def)
  show ?thesis
  proof (cases "sample_offset s + n \<le> length (origin_samples d)")
    case True
    then show ?thesis using d epoch_slice[OF True, of rng args "nat (epoch_id s)"] items
      by (auto simp: take_prompts_def ds source_ok_def source_position_def source_items_def source_stream_def add.assoc
          intro!: exI[of _ "s\<lparr>sample_offset := sample_offset s + n\<rparr>"])
  next
    case False
    let ?r = "length (origin_samples d) - sample_offset s" and ?e = "epoch_id s + 1"
    define d' where "d' = next_order rng args ?e d"
    have in': "in_epoch rng args ?e d'" and o': "origin_samples d' = origin_samples d" unfolding d'_def by (simp_all add: in_epoch_next[OF d(2)])
    have ds': "ds_samples d' = epoch_order rng args d (int (nat ?e))" using in' d(3) by (simp add: in_epoch_def d'_def)
    define s' where "s' = s\<lparr>ss_dataset := Some d', epoch_id := ?e, sample_offset := n - ?r\<rparr>"
    have t: "take_prompts rng args n s = (drop (sample_offset s) (ds_samples d) @ take (n - ?r) (ds_samples d'), s')"
      using False d(1) by (simp add: take_prompts_def ds Let_def s'_def d'_def next_order_def)
    have rest: "drop (sample_offset s) (ds_samples d) =
        map (prompt_at rng args d) [source_position s..<source_position s + ?r]"
      using epoch_slice[of "sample_offset s" ?r d rng args "nat (epoch_id s)"] d(4) by (simp add: ds source_position_def items)
    have le: "n - ?r \<le> length (origin_samples d)" using assms(2) items by simp
    have pos: "source_position s + ?r = nat ?e * length (origin_samples d)" using d(3,4) by (simp add: source_position_def items nat_add_distrib)
    have new: "take (n - ?r) (ds_samples d') = map (prompt_at rng args d) [source_position s + ?r..<source_position s + (?r + (n - ?r))]"
      using epoch_slice[of 0 "n - ?r" d rng args "nat ?e"] le by (simp add: ds' pos[symmetric] add.assoc)
    have n: "?r + (n - ?r) = n" using False by simp
    have "fst (take_prompts rng args n s) = map (prompt_at rng args d) [source_position s..<source_position s + n]"
      using map_upt_glue[of "prompt_at rng args d" "source_position s" ?r "n - ?r"] unfolding t rest new n by simp
    moreover have "source_ok rng args s'" using in' d(3,5) le o' by (simp add: source_ok_def s'_def)
    moreover have "source_items s' = source_items s" by (simp add: s'_def source_items_def o' d(1))
    moreover have "source_position s' = nat ?e * length (origin_samples d) + (n - ?r)"
      by (simp add: source_position_def source_items_def o' s'_def)
    then have "source_position s' = source_position s + n" using n pos by linarith
    moreover have "source_stream rng args s' = source_stream rng args s"
      by (simp add: s'_def source_stream_def d(1) d'_def)
    ultimately show ?thesis using t items by (metis fst_conv)
  qed
qed

interpretation single: epoch_stream "\<lambda>n s. Some (take_prompts rng args n s)" "\<lambda>s. rng_ok rng \<and> source_ok rng args s"
  "\<lambda>s n. n \<le> length (source_items s)" source_position "source_stream rng args" source_items
proof (unfold_locales, goal_cases)
  case (1 s n)
  then show ?case using take_prompts_spec[of rng args s n] by auto
next
  case (2 s k)
  then obtain d where "ss_dataset s = Some d" by (auto simp: source_ok_def split: option.splits)
  then show ?case using mset_epoch_stream[of rng args d k] 2 by (simp add: source_items_def source_stream_def)
qed

section \<open>The split follows the weights\<close>

text \<open>What a prefix of the rounds leaves: each credit is the share that is due less what was given, none is as low
  as minus the total weight, and they balance.\<close>

definition split_inv :: "int list \<Rightarrow> nat \<Rightarrow> nat list \<Rightarrow> int list \<Rightarrow> bool" where
  "split_inv weights n counts credits \<longleftrightarrow>
     length counts = length weights \<and> length credits = length weights \<and> sum_list counts = n \<and> sum_list credits = 0 \<and>
     (\<forall>i < length weights. credits ! i = int n * weights ! i - sum_list weights * int (counts ! i) \<and> - sum_list weights < credits ! i)"

lemma sum_list_update_int: "i < length xs \<Longrightarrow> sum_list (xs[i := v]) = sum_list xs + v - (xs ! i :: int)"
  by (induction xs arbitrary: i) (auto split: nat.splits)

lemma sum_list_map2: "length xs = length ys \<Longrightarrow> sum_list (map2 (+) xs ys) = sum_list xs + sum_list (ys :: int list)"
  by (induction xs ys rule: list_induct2) auto

lemma Max_index:
  assumes "xs \<noteq> []"
  shows "\<exists>i. find_index (\<lambda>c. c = Max (set xs)) xs = Some i \<and> i < length xs \<and> (\<forall>c \<in> set xs. c \<le> xs ! i)"
proof (cases "find_index (\<lambda>c. c = Max (set xs)) xs")
  case None
  then have "Max (set xs) \<notin> set xs" by (auto simp: find_index_None_iff)
  then show ?thesis using assms by simp
next
  case (Some i)
  from find_index_SomeD[OF this] show ?thesis using Some by auto
qed

lemma sum_list_pos_ex: "0 < sum_list (xs :: int list) \<Longrightarrow> \<exists>c \<in> set xs. 0 < c"
  using sum_list_nonpos[of xs] by (metis not_less)

lemma split_loop_inv:
  assumes "split_inv weights m counts credits" and w: "weights \<noteq> []" "\<forall>w \<in> set weights. 0 < w"
  shows "\<exists>counts' credits'. split_loop weights n counts credits = Inr (counts', credits') \<and> split_inv weights (m + n) counts' credits'"
  using assms(1)
proof (induction n arbitrary: m counts credits)
  case (Suc n)
  let ?W = "sum_list weights" and ?g = "map2 (+) credits weights"
  from Suc.prems have len: "length counts = length weights" "length credits = length weights" and sums: "sum_list counts = m" "sum_list credits = 0"
    and each: "\<And>i. i < length weights \<Longrightarrow> credits ! i = int m * weights ! i - ?W * int (counts ! i) \<and> - ?W < credits ! i"
    by (auto simp: split_inv_def)
  have W: "0 < ?W" using w by (cases weights) (auto intro!: add_pos_nonneg sum_list_nonneg)
  have sg: "sum_list ?g = ?W" using sum_list_map2[OF len(2)] sums(2) by simp
  have "?g \<noteq> []" using w(1) len(2) by auto
  from Max_index[OF this] obtain i where i: "find_index (\<lambda>c. c = Max (set ?g)) ?g = Some i" "i < length weights" "\<forall>c \<in> set ?g. c \<le> ?g ! i"
    using len(2) by auto
  obtain c where "c \<in> set ?g" "0 < c" using sum_list_pos_ex[of ?g] W sg by auto
  then have pos: "0 < ?g ! i" using i(3) by fastforce
  define counts' where "counts' = counts[i := counts ! i + 1]"
  define credits' where "credits' = ?g[i := ?g ! i - ?W]"
  have "split_inv weights (m + 1) counts' credits'"
    unfolding split_inv_def
  proof (intro conjI allI impI)
    show "length counts' = length weights" "length credits' = length weights" by (simp_all add: counts'_def credits'_def len)
    show "sum_list counts' = m + 1" using i(2) len(1) sums(1) by (simp add: counts'_def sum_list_update elem_le_sum_list)
    have lg: "length ?g = length weights" using len(2) by simp
    show "sum_list credits' = 0" using i(2) len(2) sg by (simp add: credits'_def sum_list_update_int)
    fix j assume j: "j < length weights"
    have gj: "?g ! j = credits ! j + weights ! j" using j len(2) by simp
    have "0 < weights ! j" using w(2) j by simp
    moreover have "credits' ! j = (if j = i then ?g ! j - ?W else ?g ! j)" "counts' ! j = (if j = i then counts ! j + 1 else counts ! j)"
      using i(2) lg len(1) by (simp_all add: credits'_def counts'_def nth_list_update)
    ultimately show "credits' ! j = int (m + 1) * weights ! j - ?W * int (counts' ! j)" "- ?W < credits' ! j"
      using each[OF j] pos gj by (auto simp: algebra_simps split: if_splits)
  qed
  from Suc.IH[OF this] show ?case
    using i(1) len(2) by (simp add: Let_def counts'_def credits'_def)
qed simp

lemma split_inv_start: "0 < sum_list weights \<Longrightarrow> split_inv weights 0 (replicate (length weights) 0) (replicate (length weights) 0)"
  by (simp add: split_inv_def sum_list_replicate)

text \<open>Requests in sequence, with the credits carried over and the counts added up.\<close>

fun split_requests :: "int list \<Rightarrow> nat list \<Rightarrow> nat list \<Rightarrow> int list \<Rightarrow> py_exn + nat list \<times> int list" where
  "split_requests weights [] counts credits = Inr (counts, credits)"
| "split_requests weights (n # ns) counts credits =
     rbind (split_by_weight n weights credits) (\<lambda>(cs, credits'). split_requests weights ns (map2 (+) counts cs) credits')"

lemma split_loop_counts:
  "length counts = length weights \<Longrightarrow>
   split_loop weights n counts credits =
     rbind (split_loop weights n (replicate (length weights) 0) credits) (\<lambda>(cs, cr). Inr (map2 (+) counts cs, cr))"
proof (induction n arbitrary: counts credits)
  case 0
  then show ?case by (auto simp: intro!: nth_equalityI)
next
  case (Suc n)
  show ?case
  proof (cases "length credits = length weights")
    case True
    let ?g = "map2 (+) credits weights"
    show ?thesis
    proof (cases "find_index (\<lambda>c. c = Max (set ?g)) ?g")
      case (Some i)
      let ?z = "replicate (length weights) (0::nat)"
      let ?r = "split_loop weights n (replicate (length weights) 0) (?g[i := ?g ! i - sum_list weights])"
      have i: "i < length weights" using find_index_SomeD[OF Some] True by simp
      have add: "map2 (+) (counts[i := counts ! i + 1]) cs = map2 (+) counts (map2 (+) (?z[i := 1]) cs)" if "length cs = length weights" for cs
        using that i Suc.prems by (intro nth_equalityI) (auto simp: nth_list_update)
      have "split_loop weights (Suc n) counts credits = split_loop weights n (counts[i := counts ! i + 1]) (?g[i := ?g ! i - sum_list weights])"
        and "split_loop weights (Suc n) ?z credits = split_loop weights n (?z[i := 1]) (?g[i := ?g ! i - sum_list weights])"
        using True Some i by (simp_all add: Let_def)
      moreover have "length cs = length weights" if "?r = Inr (cs, cr)" for cs cr
      proof -
        have "length cs = length zs" if "split_loop weights k zs crs = Inr (cs, cr)" for k zs crs
          using that by (induction k arbitrary: zs crs) (auto simp: Let_def split: if_splits option.splits)
        from this[OF that] show ?thesis by simp
      qed
      ultimately show ?thesis using Suc.IH[of "counts[i := counts ! i + 1]"] Suc.IH[of "?z[i := 1]"] Suc.prems add
        by (cases ?r) auto
    qed (use True in \<open>simp add: Let_def\<close>)
  qed simp
qed

lemma split_requests_inv:
  assumes "split_inv weights m counts credits" and w: "weights \<noteq> []" "\<forall>w \<in> set weights. 0 < w"
  shows "\<exists>counts' credits'. split_requests weights ns counts credits = Inr (counts', credits') \<and>
    split_inv weights (m + sum_list ns) counts' credits'"
  using assms(1)
proof (induction ns arbitrary: m counts credits)
  case (Cons n ns)
  from split_loop_inv[OF Cons.prems w, of n] obtain counts' credits' where
    s: "split_loop weights n counts credits = Inr (counts', credits')" "split_inv weights (m + n) counts' credits'" by blast
  have "length counts = length weights" using Cons.prems by (simp add: split_inv_def)
  from split_loop_counts[OF this, of n credits] s(1)
  have "rbind (split_loop weights n (replicate (length weights) 0) credits) (\<lambda>(cs, cr). Inr (map2 (+) counts cs, cr)) = Inr (counts', credits')"
    by simp
  then obtain cs where "split_by_weight n weights credits = Inr (cs, credits')" "counts' = map2 (+) counts cs"
    by (auto simp: split_by_weight_def rbind_Inr_iff)
  then show ?case using Cons.IH[OF s(2)] by (simp add: add.assoc)
qed simp

text \<open>
  C19. Smooth weighted round-robin: however a number of prompts is split into requests, the datasets together give that
  many; none gives more than its exact share and less than one prompt more; and whenever the number is a multiple of
  the total weight, every dataset has given exactly its share and the credits are back at zero.
\<close>

theorem split_follows_weights:
  assumes "weights \<noteq> []" and "\<forall>w \<in> set weights. 0 < w"
  shows "\<exists>counts credits.
    split_requests weights ns (replicate (length weights) 0) (replicate (length weights) 0) = Inr (counts, credits) \<and>
    length counts = length weights \<and> sum_list counts = sum_list ns \<and>
    (\<forall>i < length weights. sum_list weights * int (counts ! i) < int (sum_list ns) * weights ! i + sum_list weights) \<and>
    (\<forall>k. int (sum_list ns) = int k * sum_list weights \<longrightarrow>
       (\<forall>i < length weights. int (counts ! i) = int k * weights ! i \<and> credits ! i = 0))"
proof -
  have W: "0 < sum_list weights" using assms by (cases weights) (auto intro!: add_pos_nonneg sum_list_nonneg)
  from split_requests_inv[OF split_inv_start[OF W] assms, of ns] obtain counts credits where
    s: "split_requests weights ns (replicate (length weights) 0) (replicate (length weights) 0) = Inr (counts, credits)"
    and inv: "split_inv weights (sum_list ns) counts credits" by auto
  from inv have len: "length counts = length weights" "length credits = length weights" and sums: "sum_list counts = sum_list ns" "sum_list credits = 0"
    and each: "\<And>i. i < length weights \<Longrightarrow> credits ! i = int (sum_list ns) * weights ! i - sum_list weights * int (counts ! i) \<and>
        - sum_list weights < credits ! i"
    by (auto simp: split_inv_def)
  have "int (counts ! i) = int k * weights ! i \<and> credits ! i = 0"
    if k: "int (sum_list ns) = int k * sum_list weights" and i: "i < length weights" for k i
  proof -
    have eq: "credits ! j = sum_list weights * (int k * weights ! j - int (counts ! j))" if "j < length weights" for j
      using each[OF that] k by (simp add: algebra_simps)
    have nonneg: "0 \<le> credits ! j" if "j < length weights" for j
    proof -
      have "sum_list weights * (- 1) < sum_list weights * (int k * weights ! j - int (counts ! j))" using each[OF that] eq[OF that] by simp
      then have "- 1 < int k * weights ! j - int (counts ! j)" using W by (simp only: mult_less_cancel_left_pos)
      then show ?thesis using eq[OF that] W by (simp add: mult_nonneg_nonneg)
    qed
    have "\<forall>c \<in> set credits. c = 0"
      using sum_list_nonneg_eq_0_iff[of credits] nonneg sums(2) len(2) by (metis in_set_conv_nth)
    then have "credits ! i = 0" using i len(2) by simp
    then show ?thesis using eq[OF i] W by simp
  qed
  then show ?thesis using s len sums each by fastforce
qed

lemma split_follows_weights_witness:
  "\<exists>counts credits. split_requests [3, 5 :: int] [1, 1, 4, 2] [0, 0] [0, 0] = Inr (counts, credits) \<and> counts = [3, 5 :: nat]"
proof -
  obtain counts credits where s: "split_requests [3, 5 :: int] [1, 1, 4, 2] [0, 0] [0, 0] = Inr (counts, credits)" "length counts = 2"
    and k: "\<forall>k. int (sum_list [1, 1, 4, 2 :: nat]) = int k * sum_list [3, 5 :: int] \<longrightarrow>
       (\<forall>i < 2. int (counts ! i) = int k * [3, 5] ! i \<and> credits ! i = 0)"
    using split_follows_weights[of "[3, 5]" "[1, 1, 4, 2]"] by (auto simp: numeral_2_eq_2)
  have "int (counts ! 0) = 3" "int (counts ! 1) = 5" using k[rule_format, of 1 0] k[rule_format, of 1 1] by simp_all
  then have "counts = [3, 5]" using s(2) by (auto simp: length_Suc_conv numeral_2_eq_2)
  then show ?thesis using s(1) by blast
qed

section \<open>Requests to a single dataset\<close>

fun get_all :: "rng \<Rightarrow> data_args \<Rightarrow> nat list \<Rightarrow> single_source \<Rightarrow> sample list list \<times> single_source" where
  "get_all rng args [] s = ([], s)"
| "get_all rng args (n # ns) s =
     (let (groups, s1) = get_samples rng args n s; (rest, s2) = get_all rng args ns s1 in (groups @ rest, s2))"

lemma sample_groups_append:
  "sample_groups k g i (xs @ ys) = sample_groups k g i xs @ sample_groups k (g + int (length xs)) (i + int (length xs * k)) ys"
  by (induction xs arbitrary: g i) (simp_all add: algebra_simps)

lemma length_sample_groups [simp]: "length (sample_groups k g i xs) = length xs"
  by (induction xs arbitrary: g i) simp_all

lemma source_ok_indices [simp]:
  "source_ok rng args (s\<lparr>sample_group_index := g, next_sample_index := i\<rparr>) = source_ok rng args s"
  "source_position (s\<lparr>sample_group_index := g, next_sample_index := i\<rparr>) = source_position s"
  "source_items (s\<lparr>sample_group_index := g, next_sample_index := i\<rparr>) = source_items s"
  "source_stream rng args (s\<lparr>sample_group_index := g, next_sample_index := i\<rparr>) = source_stream rng args s"
  by (simp_all add: source_ok_def source_position_def source_items_def source_stream_def split: option.split)

lemma take_prompts_indices:
  "take_prompts rng args n s = (ps, s') \<Longrightarrow> sample_group_index s' = sample_group_index s \<and> next_sample_index s' = next_sample_index s"
  by (auto simp: take_prompts_def Let_def split: option.splits if_splits)

lemma get_all_spec:
  assumes "rng_ok rng" and "source_ok rng args s" and "\<forall>n \<in> set ns. n \<le> length (source_items s)"
  shows "\<exists>s'. get_all rng args ns s = (sample_groups (n_samples_per_prompt args) (sample_group_index s) (next_sample_index s)
      (map (source_stream rng args s) [source_position s..<source_position s + sum_list ns]), s') \<and> source_ok rng args s' \<and>
    source_position s' = source_position s + sum_list ns \<and> source_items s' = source_items s \<and>
    source_stream rng args s' = source_stream rng args s"
  using assms(2,3)
proof (induction ns arbitrary: s)
  case (Cons n ns)
  let ?k = "n_samples_per_prompt args" and ?ps = "map (source_stream rng args s) [source_position s..<source_position s + n]"
  from take_prompts_spec[OF Cons.prems(1), of n] Cons.prems(2) obtain t where t: "take_prompts rng args n s = (?ps, t)"
    "source_ok rng args t" "source_position t = source_position s + n" "source_stream rng args t = source_stream rng args s"
    "source_items t = source_items s" by auto
  define u where "u = t\<lparr>sample_group_index := sample_group_index s + int n, next_sample_index := next_sample_index s + int (n * ?k)\<rparr>"
  have g: "get_samples rng args n s = (sample_groups ?k (sample_group_index s) (next_sample_index s) ?ps, u)"
    using take_prompts_indices[OF t(1)] by (simp add: get_samples_def t(1) u_def Let_def)
  have u: "source_ok rng args u" "source_position u = source_position s + n" "source_stream rng args u = source_stream rng args s"
    "source_items u = source_items s" using t by (simp_all add: u_def)
  then obtain v where v: "get_all rng args ns u = (sample_groups ?k (sample_group_index u) (next_sample_index u)
      (map (source_stream rng args u) [source_position u..<source_position u + sum_list ns]), v)" "source_ok rng args v"
    "source_position v = source_position u + sum_list ns" "source_items v = source_items u" "source_stream rng args v = source_stream rng args u"
    using Cons.IH[of u] Cons.prems(2) by auto
  have ind: "sample_group_index u = sample_group_index s + int n" "next_sample_index u = next_sample_index s + int (n * ?k)"
    by (simp_all add: u_def)
  have "get_all rng args (n # ns) s = (sample_groups ?k (sample_group_index s) (next_sample_index s) ?ps @
      sample_groups ?k (sample_group_index s + int n) (next_sample_index s + int (n * ?k))
        (map (source_stream rng args s) [source_position s + n..<source_position s + (n + sum_list ns)]), v)"
    by (simp add: g v(1) ind u add.assoc)
  also have "\<dots> = (sample_groups ?k (sample_group_index s) (next_sample_index s)
      (?ps @ map (source_stream rng args s) [source_position s + n..<source_position s + (n + sum_list ns)]), v)"
    by (simp add: sample_groups_append)
  finally show ?case using v(2-5) u by (simp add: map_upt_glue add.assoc)
qed simp

lemma new_source_ok:
  assumes "rollout_global_dataset args" and "samples \<noteq> []"
  shows "source_ok rng args (new_single_source rng args samples) \<and> source_items (new_single_source rng args samples) = samples \<and>
    source_position (new_single_source rng args samples) = 0 \<and>
    source_stream rng args (new_single_source rng args samples) = prompt_at rng args (new_dataset (rollout_seed args) samples)"
proof -
  have "ss_dataset (new_single_source rng args samples) = Some (next_order rng args 0 (new_dataset (rollout_seed args) samples))"
    using assms(1) by (simp add: new_single_source_def next_order_def Let_def)
  then show ?thesis using in_epoch_new[of rng args "rollout_seed args" samples] assms
    by (simp add: source_ok_def source_items_def source_position_def source_stream_def)
      (simp add: new_single_source_def new_dataset_def)
qed

text \<open>
  A single dataset: requests that ask for no more prompts than it has read its epochs one after the other, without
  gaps or repetitions, whatever their sizes; every epoch is a permutation of the dataset; the groups and samples are
  numbered consecutively across requests.
\<close>

theorem requests_read_epochs:
  assumes "rng_ok rng" and "rollout_global_dataset args" and "samples \<noteq> []" and "\<forall>n \<in> set ns. n \<le> length samples"
  shows "fst (get_all rng args ns (new_single_source rng args samples)) =
      sample_groups (n_samples_per_prompt args) 0 0
        (map (prompt_at rng args (new_dataset (rollout_seed args) samples)) [0..<sum_list ns]) \<and>
    mset (map (prompt_at rng args (new_dataset (rollout_seed args) samples)) [e * length samples..<e * length samples + length samples]) =
      mset samples"
proof -
  let ?s = "new_single_source rng args samples"
  note ok = new_source_ok[OF assms(2,3), of rng]
  have "fst (get_all rng args ns ?s) = sample_groups (n_samples_per_prompt args) (sample_group_index ?s) (next_sample_index ?s)
      (map (source_stream rng args ?s) [source_position ?s..<source_position ?s + sum_list ns])"
    using get_all_spec[OF assms(1), of args ?s ns] ok assms(4) by force
  moreover have "sample_group_index ?s = 0" "next_sample_index ?s = 0" by (simp_all add: new_single_source_def)
  ultimately show ?thesis using single.epoch[of rng args ?s e] ok assms(1) by simp
qed

text \<open>
  C39. A request for more prompts than the rest of the epoch and one whole epoch gets fewer than it asks for, and leaves
  the position behind the end of the dataset.
\<close>

theorem oversized_request_is_short:
  assumes "rng_ok rng" and "source_ok rng args s" and "length (source_items s) - sample_offset s + length (source_items s) < n"
  shows "length (fst (get_samples rng args n s)) = length (source_items s) - sample_offset s + length (source_items s) \<and>
    length (source_items s) < sample_offset (snd (get_samples rng args n s))"
proof -
  from assms(2) obtain d where d: "ss_dataset s = Some d" "in_epoch rng args (epoch_id s) d" "sample_offset s \<le> length (origin_samples d)"
    by (auto simp: source_ok_def split: option.splits)
  have items: "source_items s = origin_samples d" using d(1) by (simp add: source_items_def)
  have len: "length (ds_samples d) = length (origin_samples d)" using d(2) by (simp add: in_epoch_def)
  have "length (ds_samples (next_order rng args (epoch_id s + 1) d)) = length (origin_samples d)"
    using in_epoch_next[OF d(2), of "epoch_id s + 1"] by (simp add: in_epoch_def)
  then have "length (fst (take_prompts rng args n s)) = length (origin_samples d) - sample_offset s + length (origin_samples d)"
    and "sample_offset (snd (take_prompts rng args n s)) = n - (length (origin_samples d) - sample_offset s)"
    using assms(3) d(1,3) len by (auto simp: take_prompts_def items Let_def next_order_def)
  then show ?thesis using assms(3) d(3) items by (simp add: get_samples_def split_beta Let_def)
qed

definition demo_rng :: rng where
  "demo_rng seed n i = 0"

definition demo_args :: data_args where
  "demo_args = \<lparr>rollout_global_dataset = True, rollout_shuffle = True, rollout_seed = 42, n_samples_per_prompt = 2\<rparr>"

definition demo_prompts :: "sample list" where
  "demo_prompts = map (\<lambda>t. new_sample\<lparr>sample_prompt := Text t\<rparr>) [''a'', ''b'', ''c'']"

lemma demo_rng_ok: "rng_ok demo_rng"
  by (simp add: rng_ok_def demo_rng_def)

lemma requests_read_epochs_witness:
  "length (fst (get_all demo_rng demo_args [2, 3] (new_single_source demo_rng demo_args demo_prompts))) = 5"
proof -
  have "demo_prompts \<noteq> []" "\<forall>n \<in> set [2, 3]. n \<le> length demo_prompts" "rollout_global_dataset demo_args"
    by (simp_all add: demo_prompts_def demo_args_def)
  then show ?thesis using requests_read_epochs[OF demo_rng_ok, of demo_args demo_prompts "[2, 3]" 0] by simp
qed

lemma oversized_request_is_short_witness:
  "length (fst (get_samples demo_rng demo_args 8 (new_single_source demo_rng demo_args demo_prompts))) = 6"
proof -
  have g: "demo_prompts \<noteq> []" "rollout_global_dataset demo_args" "length demo_prompts = 3" by (simp_all add: demo_prompts_def demo_args_def)
  note ok = new_source_ok[OF g(2,1), of demo_rng]
  have "sample_offset (new_single_source demo_rng demo_args demo_prompts) = 0" by (simp add: new_single_source_def)
  then show ?thesis using oversized_request_is_short[OF demo_rng_ok, of demo_args "new_single_source demo_rng demo_args demo_prompts" 8] ok g(3)
    by simp
qed

section \<open>Requests to a mix\<close>

definition advanced :: "rng \<Rightarrow> data_args \<Rightarrow> nat \<Rightarrow> data_cursor \<Rightarrow> data_cursor \<Rightarrow> bool" where
  "advanced rng args n c c' \<longleftrightarrow> cursor_ok rng args c' \<and> cursor_position c' = cursor_position c + n \<and>
     prompt_at rng args (dc_dataset c') = prompt_at rng args (dc_dataset c) \<and>
     origin_samples (dc_dataset c') = origin_samples (dc_dataset c) \<and> ds_seed (dc_dataset c') = ds_seed (dc_dataset c)"

definition mixed_ok :: "rng \<Rightarrow> data_args \<Rightarrow> mixed_source \<Rightarrow> bool" where
  "mixed_ok rng args s \<longleftrightarrow>
     ms_configs s \<noteq> [] \<and> (\<forall>c \<in> set (ms_configs s). 0 < samples_per_step c) \<and> distinct (map cfg_name (ms_configs s)) \<and>
     map fst (ms_cursors s) = map cfg_name (ms_configs s) \<and> map fst (ms_sha256 s) = map cfg_name (ms_configs s) \<and>
     (\<forall>(name, c) \<in> set (ms_cursors s). cursor_ok rng args c) \<and>
     (\<exists>n counts. split_inv (map samples_per_step (ms_configs s)) n counts (ms_credits s))"

text \<open>The cursor, the position and the stream of a dataset of the mix.\<close>

definition mixed_cursor :: "mixed_source \<Rightarrow> dataset_config \<Rightarrow> data_cursor" where
  "mixed_cursor s c = the (map_of (ms_cursors s) (cfg_name c))"

definition pieces :: "rng \<Rightarrow> data_args \<Rightarrow> (dataset_config \<Rightarrow> data_cursor) \<Rightarrow> (dataset_config \<times> nat) list \<Rightarrow> (dataset_config \<times> sample) list" where
  "pieces rng args cur work = concat (map (\<lambda>(c, n). map (\<lambda>i. (c, prompt_at rng args (dc_dataset (cur c)) i))
     [cursor_position (cur c)..<cursor_position (cur c) + n]) work)"

lemma update_keys: "map_of d k = Some v \<Longrightarrow> map fst (AList.update k v' d) = map fst d"
  by (induction d) (auto split: if_splits)

lemma take_all_spec:
  assumes "\<forall>(name, c) \<in> set cursors. cursor_ok rng args c" and "distinct (map (cfg_name \<circ> fst) work)"
    and "(cfg_name \<circ> fst) ` set work \<subseteq> fst ` set cursors" and "distinct (map fst cursors)"
  shows "\<exists>cursors'. take_all rng args work cursors = Some (Inr (pieces rng args (\<lambda>c. the (map_of cursors (cfg_name c))) work, cursors')) \<and>
    map fst cursors' = map fst cursors \<and>
    (\<forall>(c, n) \<in> set work. \<exists>y. map_of cursors' (cfg_name c) = Some y \<and> advanced rng args n (the (map_of cursors (cfg_name c))) y) \<and>
    (\<forall>name. name \<notin> (cfg_name \<circ> fst) ` set work \<longrightarrow> map_of cursors' name = map_of cursors name)"
  using assms
proof (induction work arbitrary: cursors)
  case (Cons w work)
  obtain cfg n where w: "w = (cfg, n)" by fastforce
  have "cfg_name cfg \<in> fst ` set cursors" using Cons.prems(3) by (simp add: w)
  then have "map_of cursors (cfg_name cfg) \<noteq> None" by (simp add: map_of_eq_None_iff)
  then obtain c where c: "map_of cursors (cfg_name cfg) = Some c" by blast
  have "cursor_ok rng args c" using map_of_SomeD[OF c] Cons.prems(1) by auto
  from take_loop_spec[OF this, of n "[]"] obtain c' where c': "take_loop rng args n [] c =
      Some (map (prompt_at rng args (dc_dataset c)) [cursor_position c..<cursor_position c + n], c')" "advanced rng args n c c'"
    by (auto simp: advanced_def)
  let ?u = "AList.update (cfg_name cfg) c' cursors"
  have keys: "map fst ?u = map fst cursors" by (rule update_keys[OF c])
  have ok: "\<forall>(name, c) \<in> set ?u. cursor_ok rng args c"
  proof (intro ballI)
    fix y assume y: "y \<in> set ?u"
    have "distinct (map fst ?u)" using keys Cons.prems(4) by simp
    then have "map_of ?u (fst y) = Some (snd y)" using y by (cases y) auto
    then show "case y of (name, c) \<Rightarrow> cursor_ok rng args c"
      using c'(2) Cons.prems(1) map_of_SomeD[of cursors "fst y" "snd y"]
      by (auto simp: map_of_update advanced_def split: if_splits)
  qed
  have "fst ` set ?u = fst ` set cursors" using arg_cong[OF keys, of set] by simp
  then have sub: "(cfg_name \<circ> fst) ` set work \<subseteq> fst ` set ?u" using Cons.prems(3) by simp
  have fresh: "cfg_name cfg \<notin> (cfg_name \<circ> fst) ` set work" using Cons.prems(2) w by auto
  from Cons.IH[OF ok _ sub] Cons.prems(2,4) keys obtain cs where
    ih: "take_all rng args work ?u = Some (Inr (pieces rng args (\<lambda>c. the (map_of ?u (cfg_name c))) work, cs))" "map fst cs = map fst ?u"
    "\<forall>(c, n) \<in> set work. \<exists>y. map_of cs (cfg_name c) = Some y \<and> advanced rng args n (the (map_of ?u (cfg_name c))) y"
    "\<forall>name. name \<notin> (cfg_name \<circ> fst) ` set work \<longrightarrow> map_of cs name = map_of ?u name" by auto
  have same: "map_of ?u (cfg_name (fst x)) = map_of cursors (cfg_name (fst x))" if "x \<in> set work" for x
  proof -
    have "cfg_name (fst x) \<in> (cfg_name \<circ> fst) ` set work" using that by auto
    then have "cfg_name (fst x) \<noteq> cfg_name cfg" using fresh by metis
    then show ?thesis by (simp add: map_of_update)
  qed
  have "pieces rng args (\<lambda>c. the (map_of ?u (cfg_name c))) work = pieces rng args (\<lambda>c. the (map_of cursors (cfg_name c))) work"
    unfolding pieces_def using same by (intro arg_cong[of _ _ concat] map_cong) auto
  then have "take_all rng args (w # work) cursors = Some (Inr (pieces rng args (\<lambda>c. the (map_of cursors (cfg_name c))) (w # work), cs))"
    using c c'(1) ih(1) by (simp add: w pieces_def comp_def)
  moreover have "\<forall>(d, m) \<in> set (w # work). \<exists>y. map_of cs (cfg_name d) = Some y \<and> advanced rng args m (the (map_of cursors (cfg_name d))) y"
  proof (intro ballI, clarify)
    fix d m assume "(d, m) \<in> set (w # work)"
    then consider "(d, m) = (cfg, n)" | "(d, m) \<in> set work" using w by auto
    then show "\<exists>y. map_of cs (cfg_name d) = Some y \<and> advanced rng args m (the (map_of cursors (cfg_name d))) y"
    proof cases
      case 1
      then show ?thesis using ih(4) fresh c c'(2) by (simp add: map_of_update)
    next
      case 2
      then show ?thesis using ih(3) same[OF 2] by fastforce
    qed
  qed
  ultimately show ?case using ih(2,4) keys w by (intro exI[of _ cs]) (auto simp: map_of_update)
qed (simp add: pieces_def)

lemma sum_list_map2_nat: "length xs = length ys \<Longrightarrow> sum_list (map2 (+) xs ys) = sum_list xs + sum_list (ys :: nat list)"
  by (induction xs ys rule: list_induct2) auto

lemma split_loop_length: "split_loop weights n counts credits = Inr (cs, cr) \<Longrightarrow> length cs = length counts"
  by (induction n arbitrary: counts credits) (auto simp: Let_def split: if_splits option.splits)

lemma split_by_weight_inv:
  assumes "split_inv weights m counts credits" and w: "weights \<noteq> []" "\<forall>w \<in> set weights. 0 < w"
  shows "\<exists>cs credits'. split_by_weight n weights credits = Inr (cs, credits') \<and> length cs = length weights \<and> sum_list cs = n \<and>
    split_inv weights (m + n) (map2 (+) counts cs) credits'"
proof -
  from split_loop_inv[OF assms, of n] obtain counts' credits' where
    s: "split_loop weights n counts credits = Inr (counts', credits')" "split_inv weights (m + n) counts' credits'" by blast
  have len: "length counts = length weights" "sum_list counts = m" using assms(1) by (simp_all add: split_inv_def)
  from split_loop_counts[OF len(1), of n credits] s(1)
  have "rbind (split_loop weights n (replicate (length weights) 0) credits) (\<lambda>(cs, cr). Inr (map2 (+) counts cs, cr)) = Inr (counts', credits')"
    by simp
  then obtain cs where cs: "split_by_weight n weights credits = Inr (cs, credits')" "counts' = map2 (+) counts cs"
    by (auto simp: split_by_weight_def rbind_Inr_iff)
  have "length cs = length weights" using split_loop_length cs(1) by (fastforce simp: split_by_weight_def)
  moreover from this have "sum_list cs = n" using s(2) cs(2) len sum_list_map2_nat[of counts cs] by (simp add: split_inv_def)
  ultimately show ?thesis using s(2) cs by blast
qed

lemma map_of_zip_nth': "map fst d = ks \<Longrightarrow> distinct ks \<Longrightarrow> i < length d \<Longrightarrow> map_of d (ks ! i) = Some (snd (d ! i))"
  by (metis length_map map_of_eq_Some_iff nth_map nth_mem prod.collapse)

text \<open>What relates a mix to the one it was: the same data and identity of the datasets.\<close>

definition same_mix :: "mixed_source \<Rightarrow> mixed_source \<Rightarrow> bool" where
  "same_mix s t \<longleftrightarrow> ms_configs t = ms_configs s \<and> ms_sha256 t = ms_sha256 s \<and>
     (\<forall>c \<in> set (ms_configs s). origin_samples (dc_dataset (mixed_cursor t c)) = origin_samples (dc_dataset (mixed_cursor s c)) \<and>
        ds_seed (dc_dataset (mixed_cursor t c)) = ds_seed (dc_dataset (mixed_cursor s c)))"

lemma mixed_request_spec:
  assumes rng: "rng_ok rng" and ok: "mixed_ok rng args s"
  shows "\<exists>counts prompts s'.
    get_mixed rng args n s = Some (Inr (sample_groups (n_samples_per_prompt args) (ms_group_index s) (ms_sample_index s)
      (map (\<lambda>(c, p). stamp c p) prompts), s')) \<and>
    mixed_ok rng args s' \<and> same_mix s s' \<and> length counts = length (ms_configs s) \<and> sum_list counts = n \<and>
    mset prompts = mset (pieces rng args (mixed_cursor s) (zip (ms_configs s) counts)) \<and>
    (\<forall>i < length counts. advanced rng args (counts ! i) (mixed_cursor s (ms_configs s ! i)) (mixed_cursor s' (ms_configs s ! i)))"
proof -
  let ?w = "map samples_per_step (ms_configs s)" and ?names = "map cfg_name (ms_configs s)"
  from ok have c: "ms_configs s \<noteq> []" "\<forall>w \<in> set ?w. 0 < w" "distinct ?names" "map fst (ms_cursors s) = ?names"
    "\<forall>(name, c) \<in> set (ms_cursors s). cursor_ok rng args c" "map fst (ms_sha256 s) = ?names" by (auto simp: mixed_ok_def)
  from ok obtain m counts0 where inv: "split_inv ?w m counts0 (ms_credits s)" by (auto simp: mixed_ok_def)
  obtain counts credits where sp: "split_by_weight n ?w (ms_credits s) = Inr (counts, credits)" "length counts = length ?w" "sum_list counts = n"
    "split_inv ?w (m + n) (map2 (+) counts0 counts) credits"
    using split_by_weight_inv[OF inv _ c(2), of n] c(1) by auto
  let ?work = "zip (ms_configs s) counts"
  have fw: "map (cfg_name \<circ> fst) ?work = ?names" using sp(2) by (simp add: map_fst_zip flip: map_map)
  have "(cfg_name \<circ> fst) ` set ?work = set ?names" using arg_cong[OF fw, of set] by (metis set_map)
  also have "\<dots> = fst ` set (ms_cursors s)" using arg_cong[OF c(4), of set] by simp
  finally have names: "(cfg_name \<circ> fst) ` set ?work = fst ` set (ms_cursors s)" .
  obtain cursors' where t: "take_all rng args ?work (ms_cursors s) = Some (Inr (pieces rng args (mixed_cursor s) ?work, cursors'))"
    "map fst cursors' = map fst (ms_cursors s)"
    "\<forall>(c, k) \<in> set ?work. \<exists>y. map_of cursors' (cfg_name c) = Some y \<and> advanced rng args k (mixed_cursor s c) y"
    using take_all_spec[OF c(5), of ?work] fw c(3,4) names unfolding mixed_cursor_def by auto
  define prompts where "prompts = py_shuffle rng (rollout_seed args * MIX_SEED_STRIDE + int (ms_num_requests s)) (pieces rng args (mixed_cursor s) ?work)"
  define s' where "s' = s\<lparr>ms_cursors := cursors', ms_credits := credits, ms_num_requests := ms_num_requests s + 1,
      ms_group_index := ms_group_index s + int (length (pieces rng args (mixed_cursor s) ?work)),
      ms_sample_index := ms_sample_index s + int (length (pieces rng args (mixed_cursor s) ?work) * n_samples_per_prompt args)\<rparr>"
  have g: "get_mixed rng args n s = Some (Inr (sample_groups (n_samples_per_prompt args) (ms_group_index s) (ms_sample_index s)
      (map (\<lambda>(c, p). stamp c p) prompts), s'))"
    using sp(1) t(1) by (simp add: get_mixed_def prompts_def s'_def Let_def)
  have adv: "advanced rng args (counts ! i) (mixed_cursor s (ms_configs s ! i)) (mixed_cursor s' (ms_configs s ! i))" if "i < length counts" for i
  proof -
    have "(ms_configs s ! i, counts ! i) \<in> set ?work" using that sp(2) by (auto simp: in_set_zip)
    then obtain y where "map_of cursors' (cfg_name (ms_configs s ! i)) = Some y" "advanced rng args (counts ! i) (mixed_cursor s (ms_configs s ! i)) y"
      using t(3) by blast
    then show ?thesis by (simp add: mixed_cursor_def s'_def)
  qed
  have same: "same_mix s s'"
    unfolding same_mix_def
  proof (intro conjI ballI)
    fix d assume "d \<in> set (ms_configs s)"
    then obtain i where "i < length counts" "d = ms_configs s ! i" using sp(2) by (metis in_set_conv_nth length_map)
    then show "origin_samples (dc_dataset (mixed_cursor s' d)) = origin_samples (dc_dataset (mixed_cursor s d))"
      "ds_seed (dc_dataset (mixed_cursor s' d)) = ds_seed (dc_dataset (mixed_cursor s d))"
      using adv by (auto simp: advanced_def)
  qed (simp_all add: s'_def)
  have "\<forall>(name, x) \<in> set cursors'. cursor_ok rng args x"
  proof (intro ballI)
    fix y assume "y \<in> set cursors'"
    then obtain i where i: "i < length cursors'" "y = cursors' ! i" by (metis in_set_conv_nth)
    have len: "length cursors' = length counts" using arg_cong[OF t(2), of length] arg_cong[OF c(4), of length] sp(2) by simp
    have "map_of cursors' (?names ! i) = Some (snd y)"
      using map_of_zip_nth'[of cursors' ?names i] t(2) c(3,4) i by simp
    then have "mixed_cursor s' (ms_configs s ! i) = snd y" using i len sp(2) by (simp add: mixed_cursor_def s'_def)
    then show "case y of (name, x) \<Rightarrow> cursor_ok rng args x" using adv[of i] i len by (auto simp: advanced_def)
  qed
  then have "mixed_ok rng args s'" using c t(2) sp(4) by (auto simp: mixed_ok_def s'_def)
  then show ?thesis using g same adv sp(2,3) mset_py_shuffle[OF rng]
    by (intro exI[of _ counts] exI[of _ prompts] exI[of _ s']) (simp add: prompts_def)
qed


section \<open>Resuming a mix\<close>

fun run_mixed :: "rng \<Rightarrow> data_args \<Rightarrow> nat list \<Rightarrow> mixed_source \<Rightarrow> (py_exn + mixed_source) option" where
  "run_mixed rng args [] s = Some (Inr s)"
| "run_mixed rng args (n # ns) s =
     (case get_mixed rng args n s of
        Some (Inr (groups, s')) \<Rightarrow> run_mixed rng args ns s'
      | Some (Inl e) \<Rightarrow> Some (Inl e)
      | None \<Rightarrow> None)"

lemma same_mix_trans: "same_mix s t \<Longrightarrow> same_mix t u \<Longrightarrow> same_mix s u"
  by (auto simp: same_mix_def)

lemma run_mixed_ok:
  assumes "rng_ok rng" and "mixed_ok rng args s"
  shows "\<exists>t. run_mixed rng args ns s = Some (Inr t) \<and> mixed_ok rng args t \<and> same_mix s t"
  using assms(2)
proof (induction ns arbitrary: s)
  case (Cons n ns)
  from mixed_request_spec[OF assms(1) Cons.prems, of n] obtain groups u where u: "get_mixed rng args n s = Some (Inr (groups, u))"
    "mixed_ok rng args u" "same_mix s u" by blast
  from Cons.IH[OF u(2)] show ?case using u same_mix_trans[OF u(3)] by auto
qed (simp add: same_mix_def)

lemma new_mixed_ok:
  assumes new: "new_mixed_source rng args prompts_of digest digest' configs = Inr s"
    and "configs \<noteq> []" "\<forall>c \<in> set configs. 0 < samples_per_step c" "distinct (map cfg_name configs)"
  shows "mixed_ok rng args s"
proof -
  from new obtain shas cursors where sh: "rmap (check_dataset_sha256 digest) configs = Inr shas"
    and cu: "rmap (load_mixed_dataset rng args prompts_of digest') (zip configs shas) = Inr cursors"
    and s: "s = \<lparr>ms_configs = configs, ms_sha256 = zip (map cfg_name configs) shas, ms_cursors = cursors,
          ms_credits = replicate (length configs) 0, ms_num_requests = 0, ms_group_index = 0, ms_sample_index = 0\<rparr>"
    by (auto simp: new_mixed_source_def rbind_Inr_iff)
  have len: "length shas = length configs" using sh by (auto simp: rmap_Inr_iff dest: list_all2_lengthD)
  have each: "fst y = cfg_name (fst x) \<and> cursor_ok rng args (snd y)" if l: "load_mixed_dataset rng args prompts_of digest' x = Inr y" for x y
  proof -
    obtain ps where "ps \<noteq> []" "y = (cfg_name (fst x), \<lparr>dc_dataset = next_order rng args 0 (new_dataset (rollout_seed args) ps), dc_offset = 0, dc_epoch = 0\<rparr>)"
      using l by (auto simp: load_mixed_dataset_def rbind_Inr_iff guard_Inr_iff Let_def next_order_def split: prod.splits)
    moreover have "origin_samples (new_dataset (rollout_seed args) ps) = ps" for ps by (simp add: new_dataset_def)
    ultimately show ?thesis using in_epoch_new[of rng args "rollout_seed args" ps] by (simp add: cursor_ok_def)
  qed
  have all: "list_all2 (\<lambda>x y. load_mixed_dataset rng args prompts_of digest' x = Inr y) (zip configs shas) cursors"
    using cu by (simp add: rmap_Inr_iff)
  have n: "length cursors = length configs" using list_all2_lengthD[OF all] len by simp
  have "map fst cursors = map cfg_name configs"
  proof (rule nth_equalityI)
    fix i assume "i < length (map fst cursors)"
    then show "map fst cursors ! i = map cfg_name configs ! i"
      using each list_all2_nthD2[OF all, of i] n len by fastforce
  qed (simp add: n)
  moreover have "\<forall>(name, c) \<in> set cursors. cursor_ok rng args c"
  proof (intro ballI)
    fix y assume "y \<in> set cursors"
    then obtain i where "i < length cursors" "y = cursors ! i" by (metis in_set_conv_nth)
    then show "case y of (name, c) \<Rightarrow> cursor_ok rng args c" using each list_all2_nthD2[OF all, of i] by (auto simp: split_beta)
  qed
  moreover have "0 < sum_list (map samples_per_step configs)"
    using assms(2,3) by (cases configs) (auto intro!: add_pos_nonneg sum_list_nonneg simp: less_imp_le)
  then have "split_inv (map samples_per_step configs) 0 (replicate (length configs) 0) (replicate (length configs) 0)"
    using split_inv_start[of "map samples_per_step configs"] by simp
  ultimately show ?thesis using assms(2-4) len by (auto simp: mixed_ok_def s)
qed

lemma rmap_nth: "length xs = length ys \<Longrightarrow> (\<And>i. i < length xs \<Longrightarrow> f (xs ! i) = Inr (ys ! i)) \<Longrightarrow> rmap f xs = Inr ys"
  by (simp add: rmap_Inr_iff list_all2_conv_all_nth)

lemma rmap_unit: "(\<And>x. x \<in> set xs \<Longrightarrow> f x = Inr ()) \<Longrightarrow> rmap f xs = Inr (replicate (length xs) ())"
  by (rule rmap_nth) auto

lemma mixed_cursor_nth:
  assumes "mixed_ok rng args s" and "i < length (ms_configs s)"
  shows "mixed_cursor s (ms_configs s ! i) = snd (ms_cursors s ! i)"
proof -
  have d: "map fst (ms_cursors s) = map cfg_name (ms_configs s)" "distinct (map cfg_name (ms_configs s))"
    using assms(1) by (auto simp: mixed_ok_def)
  then have "length (ms_cursors s) = length (ms_configs s)" by (metis length_map)
  then show ?thesis using map_of_zip_nth'[OF d, of i] assms(2) by (simp add: mixed_cursor_def)
qed

lemma resume_exact:
  assumes s0: "mixed_ok rng args s0" and s: "mixed_ok rng args s" and same: "same_mix s0 s"
  shows "\<exists>m. save_mixed s = Inr m \<and> load_mixed rng args (Some m) s0 = Inr s"
proof -
  let ?names = "map cfg_name (ms_configs s0)" and ?cs = "ms_cursors s" and ?fresh = "ms_cursors s0"
  have cf: "ms_configs s = ms_configs s0" "ms_sha256 s = ms_sha256 s0" using same by (auto simp: same_mix_def)
  have d: "distinct ?names" "map fst ?cs = ?names" "map fst ?fresh = ?names" "map fst (ms_sha256 s0) = ?names"
    using s0 s cf by (auto simp: mixed_ok_def)
  have len: "length ?cs = length ?names" "length ?fresh = length ?names" using d(2,3) by (metis length_map)+
  have cr: "length (ms_credits s) = length ?names" using s cf by (auto simp: mixed_ok_def split_inv_def)
  have name: "fst (?cs ! i) = ?names ! i" "fst (?fresh ! i) = ?names ! i" if "i < length ?names" for i
    using that d(2,3) len by (metis nth_map)+
  have cur: "cursor_ok rng args (snd (?cs ! i))" "cursor_ok rng args (snd (?fresh ! i))"
    "origin_samples (dc_dataset (snd (?cs ! i))) = origin_samples (dc_dataset (snd (?fresh ! i)))"
    "ds_seed (dc_dataset (snd (?cs ! i))) = ds_seed (dc_dataset (snd (?fresh ! i)))" if i: "i < length ?names" for i
  proof -
    have "?cs ! i \<in> set ?cs" "?fresh ! i \<in> set ?fresh" using i len by simp_all
    then show "cursor_ok rng args (snd (?cs ! i))" "cursor_ok rng args (snd (?fresh ! i))" using s s0 by (auto simp: mixed_ok_def)
    have "ms_configs s0 ! i \<in> set (ms_configs s0)" using i by simp
    then show "origin_samples (dc_dataset (snd (?cs ! i))) = origin_samples (dc_dataset (snd (?fresh ! i)))"
      "ds_seed (dc_dataset (snd (?cs ! i))) = ds_seed (dc_dataset (snd (?fresh ! i)))"
      using same mixed_cursor_nth[OF s, of i] mixed_cursor_nth[OF s0, of i] i cf unfolding same_mix_def
      by (metis length_map)+
  qed
  define m where "m = \<lparr>mx_offsets = map (\<lambda>(n, c). (n, dc_offset c)) ?cs, mx_epoch_ids = map (\<lambda>(n, c). (n, dc_epoch c)) ?cs,
            mx_credits = zip (map fst ?cs) (ms_credits s), mx_num_requests = ms_num_requests s,
            mx_sample_group_index = ms_group_index s, mx_sample_index = ms_sample_index s, mx_sha256 = ms_sha256 s,
            mx_settings = Some (map (\<lambda>c. (cfg_name c, resumed_settings c)) (ms_configs s))\<rparr>"
  have saved: "save_mixed s = Inr (Mix_State m)" using cr len by (simp add: save_mixed_def m_def Let_def)
  have off: "map_of (mx_offsets m) (?names ! i) = Some (dc_offset (snd (?cs ! i)))"
    and ep: "map_of (mx_epoch_ids m) (?names ! i) = Some (dc_epoch (snd (?cs ! i)))" if "i < length ?names" for i
    using map_of_zip_nth'[of "mx_offsets m" ?names i] map_of_zip_nth'[of "mx_epoch_ids m" ?names i] that d(1,2) len
    by (simp_all add: m_def comp_def split_beta)
  have "fst ` set (mx_offsets m) = fst ` set ?fresh"
    using arg_cong[OF d(2), of set] arg_cong[OF d(3), of set] by (simp add: m_def image_image split_beta)
  moreover have "rmap (check_settings m) (ms_configs s0) = Inr (replicate (length (ms_configs s0)) ())"
  proof (rule rmap_unit)
    fix c assume "c \<in> set (ms_configs s0)"
    then have "map_of (map (\<lambda>c. (cfg_name c, resumed_settings c)) (ms_configs s)) (cfg_name c) = Some (resumed_settings c)"
      using d(1) cf by (auto simp: map_of_eq_Some_iff comp_def)
    then show "check_settings m c = Inr ()" by (simp add: check_settings_def m_def changed_settings_def)
  qed
  moreover have "rmap (\<lambda>(name, saved). rbind (data_lookup (ms_sha256 s0) name) (\<lambda>now. guard (Resume_Mismatch True) (saved = now))) (mx_sha256 m) =
      Inr (replicate (length (mx_sha256 m)) ())"
  proof (rule rmap_unit)
    fix x assume "x \<in> set (mx_sha256 m)"
    then have "map_of (ms_sha256 s0) (fst x) = Some (snd x)" using d(1,4) cf by (simp add: m_def)
    then show "(case x of (name, saved) \<Rightarrow> rbind (data_lookup (ms_sha256 s0) name) (\<lambda>now. guard (Resume_Mismatch True) (saved = now))) = Inr ()"
      by (simp add: split_beta)
  qed
  moreover have "list_all (\<lambda>(name, off). case map_of ?fresh name of
                   None \<Rightarrow> True | Some c \<Rightarrow> off \<le> length (ds_samples (dc_dataset c))) (mx_offsets m)"
    unfolding list_all_length
  proof (intro allI impI)
    fix i assume "i < length (mx_offsets m)"
    then have i: "i < length ?names" "mx_offsets m ! i = (?names ! i, dc_offset (snd (?cs ! i)))"
      using len name by (auto simp: m_def split_beta)
    have "map_of ?fresh (?names ! i) = Some (snd (?fresh ! i))" using map_of_zip_nth'[OF d(3,1), of i] i(1) len by simp
    then show "case mx_offsets m ! i of (name, off) \<Rightarrow> (case map_of ?fresh name of
                   None \<Rightarrow> True | Some c \<Rightarrow> off \<le> length (ds_samples (dc_dataset c)))"
      using cur[OF i(1)] i(2) by (simp add: cursor_ok_def in_epoch_def)
  qed
  moreover have "rmap (\<lambda>(name, c). data_lookup (mx_credits m) name) ?fresh = Inr (ms_credits s)"
  proof (rule rmap_nth)
    fix i assume "i < length ?fresh"
    then have i: "i < length ?names" using len by simp
    have "map_of (mx_credits m) (?names ! i) = Some (ms_credits s ! i)"
      using map_of_zip_nth'[of "mx_credits m" ?names i] i d(1,2) len cr by (simp add: m_def)
    then show "(case ?fresh ! i of (name, c) \<Rightarrow> data_lookup (mx_credits m) name) = Inr (ms_credits s ! i)"
      using name[OF i] by (simp add: split_beta)
  qed (simp add: cr len)
  moreover have "rmap (resume_cursor rng args m) ?fresh = Inr ?cs"
  proof (rule rmap_nth)
    fix i assume "i < length ?fresh"
    then have i: "i < length ?names" using len by simp
    note o = off[OF i] and e = ep[OF i] and c = cur[OF i]
    have "next_order rng args (dc_epoch (snd (?cs ! i))) (dc_dataset (snd (?fresh ! i))) = dc_dataset (snd (?cs ! i))"
      by (rule in_epoch_unique[where e' = "dc_epoch (snd (?fresh ! i))"]) (use c in \<open>auto simp: cursor_ok_def\<close>)
    then have "resume_cursor rng args m (?fresh ! i) = Inr (?names ! i, snd (?cs ! i))"
      using o e name[OF i] by (simp add: resume_cursor_def split_beta next_order_def)
    then show "resume_cursor rng args m (?fresh ! i) = Inr (?cs ! i)" using name[OF i] by (metis prod.collapse)
  qed (simp add: len)
  moreover have "s0\<lparr>ms_cursors := ?cs, ms_credits := ms_credits s, ms_num_requests := mx_num_requests m,
                 ms_group_index := mx_sample_group_index m, ms_sample_index := mx_sample_index m\<rparr> = s"
    using cf by (simp add: m_def)
  ultimately have "load_mixed rng args (Some (Mix_State m)) s0 = Inr s" by (simp add: load_mixed_def)
  then show ?thesis using saved by blast
qed

text \<open>
  C21. A mix built again from the same configuration and files, after any number of requests to the first one, resumes
  from its checkpoint in exactly its state: the same positions, orders, credits, counters and numbering.
\<close>

theorem mix_resumes_exactly:
  assumes "new_mixed_source rng args prompts_of digest digest' configs = Inr s0" and "rng_ok rng"
    and "configs \<noteq> []" and "\<forall>c \<in> set configs. 0 < samples_per_step c" and "distinct (map cfg_name configs)"
  shows "\<exists>s m. run_mixed rng args ns s0 = Some (Inr s) \<and> save_mixed s = Inr m \<and> load_mixed rng args (Some m) s0 = Inr s"
proof -
  have ok: "mixed_ok rng args s0" by (rule new_mixed_ok[OF assms(1,3,4,5)])
  from run_mixed_ok[OF assms(2) ok, of ns] obtain s where s: "run_mixed rng args ns s0 = Some (Inr s)" "mixed_ok rng args s" "same_mix s0 s" by blast
  from resume_exact[OF ok s(2,3)] show ?thesis using s(1) by blast
qed

definition demo_config :: "string \<Rightarrow> int \<Rightarrow> dataset_config" where
  "demo_config name weight = \<lparr>cfg_name = name, cfg_path = name, samples_per_step = weight, cfg_sha256 = None, cfg_max_prompt_len = None,
     cfg_max_response_len = Some 8, cfg_generate = None, cfg_agent_function = None, cfg_max_seq_len = None, cfg_custom_rm = None,
     cfg_rm_type = Some ''math'', cfg_agent = None\<rparr>"

definition demo_mix :: "py_exn + mixed_source" where
  "demo_mix = new_mixed_source demo_rng demo_args (\<lambda>c. Inr demo_prompts) (\<lambda>p. Some ''0123456789'') (\<lambda>p. None)
     [demo_config ''math'' 3, demo_config ''code'' 1]"

lemma demo_mix_built: "\<exists>s. demo_mix = Inr s"
proof -
  have "map_sum id ms_num_requests demo_mix = Inr 0" by code_simp
  then show ?thesis by (metis map_sum.simps(1) sum.exhaust sum.distinct(1))
qed

lemma mix_resumes_exactly_witness:
  "\<exists>s0 s m. demo_mix = Inr s0 \<and> run_mixed demo_rng demo_args [2, 5] s0 = Some (Inr s) \<and> save_mixed s = Inr m \<and>
    load_mixed demo_rng demo_args (Some m) s0 = Inr s"
proof -
  obtain s0 where s0: "demo_mix = Inr s0" using demo_mix_built by blast
  have "distinct (map cfg_name [demo_config ''math'' 3, demo_config ''code'' 1])" by (simp add: demo_config_def)
  then show ?thesis using mix_resumes_exactly[OF s0[unfolded demo_mix_def] demo_rng_ok, of "[2, 5]"] s0 by (auto simp: demo_config_def)
qed


end
