(* ===== verification/Adapter_Commit.thy ===== *)
theory Adapter_Commit
  imports Py_Json
begin

text \<open>
  \<^verbatim>\<open>miles/backends/training_utils/checkpoint/adapter/commit.py\<close>: an adapter directory is written under
  a name of its own, \<^verbatim>\<open>.<name>.<commit_id>\<close>, and committed by pointing the symbolic link \<^verbatim>\<open><name>\<close> at it.
  The state is one directory, the root: its entries in the order a listing gives them.  Every call that
  changes the directory is one atomic step; a run records the directory after each of its steps, so that
  a crash is the loss of everything after one of them, and every step may fail with an \<^verbatim>\<open>OSError\<close> instead.
  The properties of these operations are in \<^verbatim>\<open>Commit_Safety\<close>.
\<close>

section \<open>A directory\<close>

text \<open>
  A file that holds JSON text, any other file, or a directory inside an adapter's directory.
\<close>

datatype content = Json_File json | Other_File | Subdirectory

type_synonym folder = "(string \<times> content) list"

text \<open>
  Where a symbolic link in the root leads: to another entry of the root, or elsewhere, given by the
  directory and the last component of the path.
\<close>

datatype link_target = Sibling string | Elsewhere string string

fun base_name :: "link_target \<Rightarrow> string" where
  "base_name (Sibling t) = t"
| "base_name (Elsewhere p t) = t"

datatype entry = Regular_File | Folder folder | Symlink link_target

type_synonym root_dir = "(string \<times> entry) list"

text \<open>
  What the program does not decide: which steps fail, which files of a directory are left when its
  removal is interrupted, and what there is outside the root.
\<close>

record environment =
  fails :: "nat \<Rightarrow> bool"
  leaves :: "nat \<Rightarrow> string \<Rightarrow> bool"
  outside :: "string \<Rightarrow> string \<Rightarrow> folder option option"

record disk =
  entries :: root_dir
  trail :: "root_dir list"
  ticks :: nat

definition on_disk :: "root_dir \<Rightarrow> disk" where
  "on_disk es = \<lparr>entries = es, trail = [], ticks = 0\<rparr>"

section \<open>Steps and their sequencing\<close>

text \<open>
  \<open>FileExists\<close>, \<open>FileNotFound\<close>, \<open>OsFailure\<close> (any other one) and \<open>NotOwner\<close> are subclasses of \<^verbatim>\<open>OSError\<close>;
  \<open>ForeignLink\<close> is the \<^verbatim>\<open>ValueError\<close> for a link the library did not write, \<open>BadOwnerJson\<close> the \<^verbatim>\<open>ValueError\<close>
  of a \<^verbatim>\<open>tenant.json\<close> that is no JSON, \<open>BadOwnerSchema\<close> the \<^verbatim>\<open>KeyError\<close> or \<^verbatim>\<open>TypeError\<close> of one without an owner,
  \<open>FailedAssertion\<close> an \<^verbatim>\<open>AssertionError\<close> and \<open>RankFailure\<close> a \<^verbatim>\<open>RuntimeError\<close>.
\<close>

datatype os_exn = FileExists | FileNotFound | OsFailure | NotOwner | ForeignLink | BadOwnerJson
  | BadOwnerSchema | FailedAssertion | RankFailure

type_synonym 'a io = "disk \<Rightarrow> (os_exn + 'a) \<times> disk"

definition io_pure :: "'a \<Rightarrow> 'a io" where
  "io_pure x d = (Inr x, d)"

definition io_raise :: "os_exn \<Rightarrow> 'a io" where
  "io_raise e d = (Inl e, d)"

definition io_then :: "'a io \<Rightarrow> ('a \<Rightarrow> 'b io) \<Rightarrow> 'b io" where
  "io_then m f d = (case m d of (Inl e, d') \<Rightarrow> (Inl e, d') | (Inr x, d') \<Rightarrow> f x d')"

text \<open>\<^verbatim>\<open>try: ... except OSError: log\<close>, and \<^verbatim>\<open>try: ... except BaseException: handler; raise\<close>.\<close>

definition logged :: "unit io \<Rightarrow> unit io" where
  "logged m d = (Inr (), snd (m d))"

definition or_clean_up :: "'a io \<Rightarrow> unit io \<Rightarrow> 'a io" where
  "or_clean_up m handler d = (case m d of
       (Inl e, d') \<Rightarrow> io_then handler (\<lambda>_. io_raise e) d'
     | (Inr x, d') \<Rightarrow> (Inr x, d'))"

definition io_read :: "(root_dir \<Rightarrow> 'a) \<Rightarrow> 'a io" where
  "io_read f d = (Inr (f (entries d)), d)"

definition io_when :: "bool \<Rightarrow> unit io \<Rightarrow> unit io" where
  "io_when b m = (if b then m else io_pure ())"

fun io_fold :: "('x \<Rightarrow> 's \<Rightarrow> 's io) \<Rightarrow> 'x list \<Rightarrow> 's \<Rightarrow> 's io" where
  "io_fold f [] s = io_pure s"
| "io_fold f (x # xs) s = io_then (f x s) (io_fold f xs)"

text \<open>One step: it fails as the environment decides, or as the directory does not permit it, and
  otherwise the directory it leaves is recorded.\<close>

definition io_step :: "environment \<Rightarrow> (root_dir \<Rightarrow> os_exn + root_dir) \<Rightarrow> unit io" where
  "io_step env change d =
     (if fails env (ticks d) then (Inl OsFailure, d\<lparr>ticks := ticks d + 1\<rparr>)
      else case change (entries d) of
          Inl e \<Rightarrow> (Inl e, d\<lparr>ticks := ticks d + 1\<rparr>)
        | Inr es \<Rightarrow> (Inr (), \<lparr>entries = es, trail = trail d @ [es], ticks = ticks d + 1\<rparr>))"

section \<open>Calls to the file system\<close>

text \<open>
  What a path to an entry leads to when links are followed: nothing, something that is no directory, or
  a directory.  The system gives up after forty links, as in a cycle; \<^verbatim>\<open>exists\<close> is then false.
\<close>

fun follow :: "environment \<Rightarrow> nat \<Rightarrow> root_dir \<Rightarrow> link_target \<Rightarrow> folder option option" where
  "follow env n es (Elsewhere p t) = outside env p t"
| "follow env n es (Sibling t) = (case map_of es t of
       None \<Rightarrow> None
     | Some Regular_File \<Rightarrow> Some None
     | Some (Folder f) \<Rightarrow> Some (Some f)
     | Some (Symlink u) \<Rightarrow> (case n of 0 \<Rightarrow> None | Suc m \<Rightarrow> follow env m es u))"

definition path_exists :: "environment \<Rightarrow> root_dir \<Rightarrow> link_target \<Rightarrow> bool" where
  "path_exists env es t \<longleftrightarrow> follow env 40 es t \<noteq> None"

definition folder_at :: "environment \<Rightarrow> root_dir \<Rightarrow> link_target \<Rightarrow> folder option" where
  "folder_at env es t = (case follow env 40 es t of Some (Some f) \<Rightarrow> Some f | _ \<Rightarrow> None)"

definition lexists :: "root_dir \<Rightarrow> string \<Rightarrow> bool" where
  "lexists es k \<longleftrightarrow> map_of es k \<noteq> None"

definition link_target :: "root_dir \<Rightarrow> string \<Rightarrow> link_target option" where
  "link_target es k = (case map_of es k of Some (Symlink t) \<Rightarrow> Some t | _ \<Rightarrow> None)"

definition is_plain_folder :: "root_dir \<Rightarrow> string \<Rightarrow> bool" where
  "is_plain_folder es k = (case map_of es k of Some (Folder f) \<Rightarrow> True | _ \<Rightarrow> False)"

definition unlink_at :: "string \<Rightarrow> root_dir \<Rightarrow> os_exn + root_dir" where
  "unlink_at k es = (case map_of es k of
       None \<Rightarrow> Inl FileNotFound
     | Some (Folder f) \<Rightarrow> Inl OsFailure
     | Some _ \<Rightarrow> Inr (AList.delete k es))"

definition symlink_at :: "string \<Rightarrow> link_target \<Rightarrow> root_dir \<Rightarrow> os_exn + root_dir" where
  "symlink_at k t es = (if lexists es k then Inl FileExists else Inr (AList.update k (Symlink t) es))"

definition mkdir_at :: "string \<Rightarrow> root_dir \<Rightarrow> os_exn + root_dir" where
  "mkdir_at k es = (if lexists es k then Inl FileExists else Inr (AList.update k (Folder []) es))"

text \<open>\<open>rename(2)\<close>, which both \<^verbatim>\<open>os.rename\<close> and \<^verbatim>\<open>os.replace\<close> are: a directory replaces nothing but an empty
  directory, anything else replaces anything but a directory.\<close>

definition rename_at :: "string \<Rightarrow> string \<Rightarrow> root_dir \<Rightarrow> os_exn + root_dir" where
  "rename_at src dst es = (case map_of es src of
       None \<Rightarrow> Inl FileNotFound
     | Some e \<Rightarrow>
         if src = dst then Inr es
         else let moved = Inr (AList.update dst e (AList.delete src es)) in
           (case map_of es dst of
              None \<Rightarrow> moved
            | Some (Folder f) \<Rightarrow> if is_plain_folder es src \<and> f = [] then moved else Inl OsFailure
            | Some _ \<Rightarrow> if is_plain_folder es src then Inl OsFailure else moved))"

definition set_folder :: "string \<Rightarrow> folder \<Rightarrow> root_dir \<Rightarrow> os_exn + root_dir" where
  "set_folder k f es = (if is_plain_folder es k then Inr (AList.update k (Folder f) es) else Inl OsFailure)"

text \<open>
  \<^verbatim>\<open>shutil.rmtree\<close> removes the files one after the other and then the directory; what its interruption
  leaves of the files is the environment's choice.  On a link or a file it raises.
\<close>

definition thin_out :: "environment \<Rightarrow> string \<Rightarrow> disk \<Rightarrow> root_dir \<Rightarrow> os_exn + root_dir" where
  "thin_out env k d es = (case map_of es k of
       Some (Folder f) \<Rightarrow> Inr (AList.update k (Folder (filter (\<lambda>(name, _). leaves env (ticks d) name) f)) es)
     | _ \<Rightarrow> Inl OsFailure)"

definition remove_folder :: "string \<Rightarrow> root_dir \<Rightarrow> os_exn + root_dir" where
  "remove_folder k es = (if is_plain_folder es k then Inr (AList.delete k es) else Inl OsFailure)"

definition rmtree :: "environment \<Rightarrow> string \<Rightarrow> unit io" where
  "rmtree env k = logged (io_then (\<lambda>d. io_step env (thin_out env k d) d) (\<lambda>_. io_step env (remove_folder k)))"

definition fsync :: "environment \<Rightarrow> unit io" where
  "fsync env = io_step env Inr"

section \<open>Names\<close>

text \<open>
  \<^verbatim>\<open>_INTERNAL_ENTRY\<close>: \<^verbatim>\<open>.<name>.<commit_id>\<close> with one of four endings.  A dot does not match a line feed, and
  the dollar sign also matches before a last line feed.
\<close>

datatype ending = Committed | Deleting | Staging | Adopting

definition is_hex :: "char \<Rightarrow> bool" where
  "is_hex c \<longleftrightarrow> c \<in> set ''0123456789abcdef''"

definition newline :: char where
  "newline = CHR 0x0A"

definition ending_text :: "ending \<Rightarrow> string" where
  "ending_text e = (case e of Committed \<Rightarrow> '''' | Deleting \<Rightarrow> ''.deleting'' | Staging \<Rightarrow> ''.link'' | Adopting \<Rightarrow> ''.adopting'')"

definition ends_with :: "string \<Rightarrow> string \<Rightarrow> bool" where
  "ends_with s t \<longleftrightarrow> length t \<le> length s \<and> drop (length s - length t) s = t"

definition committed_name :: "string \<Rightarrow> string option" where
  "committed_name s =
     (let hex = drop (length s - 16) s; front = take (length s - 16) s; name = butlast (tl front) in
      if 19 \<le> length s \<and> hd front = CHR ''.'' \<and> last front = CHR ''.'' \<and> (\<forall>c \<in> set hex. is_hex c) \<and> newline \<notin> set name
      then Some name else None)"

definition chop :: "string \<Rightarrow> string \<Rightarrow> string" where
  "chop s t = take (length s - length t) s"

definition internal_entry :: "string \<Rightarrow> (string \<times> ending) option" where
  "internal_entry entry =
     (let s = (if entry \<noteq> [] \<and> last entry = newline then butlast entry else entry);
          e = (if ends_with s ''.deleting'' then Deleting else if ends_with s ''.link'' then Staging
               else if ends_with s ''.adopting'' then Adopting else Committed)
      in map_option (\<lambda>name. (name, e)) (committed_name (chop s (ending_text e))))"

definition physical_dir :: "string \<Rightarrow> string \<Rightarrow> string" where
  "physical_dir name commit_id = ''.'' @ name @ ''.'' @ commit_id"

definition user_name :: "string \<Rightarrow> bool" where
  "user_name name \<longleftrightarrow> name \<noteq> [] \<and> hd name \<noteq> CHR ''.'' \<and> CHR ''/'' \<notin> set name"

definition is_library_dir :: "string \<Rightarrow> link_target \<Rightarrow> bool" where
  "is_library_dir name target = (case target of
       Sibling t \<Rightarrow> internal_entry t = Some (name, Committed)
     | Elsewhere p t \<Rightarrow> False)"

text \<open>\<^verbatim>\<open>target.name.rsplit(".", 1)[1]\<close>: what follows the last dot.\<close>

definition commit_id_of :: "string \<Rightarrow> string" where
  "commit_id_of t = rev (takeWhile (\<lambda>c. c \<noteq> CHR ''.'') (rev t))"

section \<open>Recovery\<close>

text \<open>
  The first loop of \<^verbatim>\<open>delete_unreferenced_adapter_dirs\<close> finishes or drops interrupted adoptions, removes
  staging links and dangling links, and collects what the other links refer to; the second one removes
  the directories of the library that nothing refers to.  Both go over a listing taken at their start.
\<close>

definition selected :: "string option \<Rightarrow> string \<Rightarrow> bool" where
  "selected name own \<longleftrightarrow> name = None \<or> name = Some own"

definition scan_link :: "environment \<Rightarrow> string option \<Rightarrow> string \<Rightarrow> string list \<Rightarrow> string list io" where
  "scan_link env name k referenced = io_then (io_read id) (\<lambda>es. case link_target es k of
       None \<Rightarrow> io_pure referenced
     | Some t \<Rightarrow> (case internal_entry k of
         Some (own, Adopting) \<Rightarrow>
           if \<not> selected name own then io_pure referenced
           else if path_exists env es t \<and> \<not> lexists es own
           then io_then (io_step env (rename_at k own)) (\<lambda>_. io_pure (referenced @ [base_name t]))
           else io_then (io_step env (unlink_at k)) (\<lambda>_. io_pure referenced)
       | Some (own, Staging) \<Rightarrow>
           io_then (io_when (selected name own) (io_step env (unlink_at k))) (\<lambda>_. io_pure referenced)
       | _ \<Rightarrow>
           if path_exists env es t then io_pure (referenced @ [base_name t])
           else io_then (io_when (selected name k \<and> is_library_dir k t) (io_step env (unlink_at k))) (\<lambda>_. io_pure referenced)))"

definition sweep_folder :: "environment \<Rightarrow> string option \<Rightarrow> string option \<Rightarrow> string list \<Rightarrow> string \<Rightarrow> unit \<Rightarrow> unit io" where
  "sweep_folder env name keep referenced k u = (case internal_entry k of
       None \<Rightarrow> io_pure ()
     | Some (own, e) \<Rightarrow> io_then (io_read (\<lambda>es. link_target es k)) (\<lambda>target.
         if e = Staging \<or> target \<noteq> None \<or> Some k = keep then io_pure ()
         else if e = Deleting then io_when (name = None) (rmtree env k)
         else io_when (k \<notin> set referenced \<and> selected name own) (rmtree env k)))"

definition delete_unreferenced :: "environment \<Rightarrow> string option \<Rightarrow> string option \<Rightarrow> unit io" where
  "delete_unreferenced env name keep =
     io_then (io_read (map fst)) (\<lambda>listing.
     io_then (io_fold (scan_link env name) listing []) (\<lambda>referenced.
     io_then (io_read (map fst)) (\<lambda>listing.
       io_fold (sweep_folder env name keep referenced) listing ())))"

text \<open>\<^verbatim>\<open>delete_retired_adapter_dirs\<close>, run after a commit by a task of its own.\<close>

definition sweep_retired :: "environment \<Rightarrow> string \<Rightarrow> unit \<Rightarrow> unit io" where
  "sweep_retired env k u = (case internal_entry k of
       Some (own, Deleting) \<Rightarrow> io_then (io_read (\<lambda>es. link_target es k)) (\<lambda>target. io_when (target = None) (rmtree env k))
     | _ \<Rightarrow> io_pure ())"

definition delete_retired :: "environment \<Rightarrow> unit io" where
  "delete_retired env = io_then (io_read (map fst)) (\<lambda>listing. io_fold (sweep_retired env) listing ())"

section \<open>Writing, committing, resolving and deleting\<close>

text \<open>
  \<^verbatim>\<open>write_adapter_dir\<close> on rank 0: \<open>written\<close> is what the ranks put into the directory, or \<open>None\<close> when the
  write of some rank fails; each file and the directory are made durable before the result is used.
\<close>

definition write_files :: "environment \<Rightarrow> string \<Rightarrow> folder \<Rightarrow> folder \<Rightarrow> folder io" where
  "write_files env path files present =
     io_fold (\<lambda>file written. io_then (io_step env (set_folder path (written @ [file]))) (\<lambda>_. io_pure (written @ [file]))) files present"

definition as_rank_failure :: "'a io \<Rightarrow> 'a io" where
  "as_rank_failure m d = (case m d of (Inl e, d') \<Rightarrow> (Inl RankFailure, d') | (Inr x, d') \<Rightarrow> (Inr x, d'))"

definition tenant_file :: "string option \<Rightarrow> folder" where
  "tenant_file owner = (case owner of
       None \<Rightarrow> []
     | Some digest \<Rightarrow> [(''tenant.json'', Json_File (JObj [(''tenant_digest'', JStr digest)]))])"

definition write_adapter_dir :: "environment \<Rightarrow> string \<Rightarrow> string \<Rightarrow> string option \<Rightarrow> folder option \<Rightarrow> string io" where
  "write_adapter_dir env name commit_id owner files =
     (if \<not> user_name name then io_raise FailedAssertion
      else let path = physical_dir name commit_id;
               prepare = io_then (io_step env (mkdir_at path))
                 (\<lambda>_. or_clean_up (write_files env path (tenant_file owner) []) (rmtree env path));
               body = (\<lambda>present. io_then (case files of None \<Rightarrow> io_raise OsFailure | Some f \<Rightarrow> write_files env path f present)
                 (\<lambda>all. io_fold (\<lambda>_ _. fsync env) [0..<length all + 1] ()))
           in io_then (as_rank_failure prepare) (\<lambda>present.
              io_then (or_clean_up (as_rank_failure (body present)) (rmtree env path)) (\<lambda>_. io_pure path)))"

definition retire :: "environment \<Rightarrow> string \<Rightarrow> unit io" where
  "retire env path = logged (io_step env (rename_at path (path @ ending_text Deleting)))"

text \<open>
  A checkpoint saved before commits is a plain directory; an overwrite first gives it the committed
  layout, under the commit id \<open>fresh\<close>.
\<close>

definition adopt_pre_commit_dir :: "environment \<Rightarrow> string \<Rightarrow> string \<Rightarrow> unit io" where
  "adopt_pre_commit_dir env name fresh =
     (let physical = physical_dir name fresh; staging_link = physical @ ending_text Adopting in
      io_then (io_step env (symlink_at staging_link (Sibling physical))) (\<lambda>_.
      io_then (io_step env (rename_at name physical)) (\<lambda>_.
      io_then (io_step env (rename_at staging_link name)) (\<lambda>_.
        fsync env))))"

text \<open>The body of the \<^verbatim>\<open>try\<close> of \<^verbatim>\<open>commit_adapter_dir\<close>: what the name referred to before it is swapped.\<close>

definition swap_link :: "environment \<Rightarrow> string \<Rightarrow> string \<Rightarrow> string \<Rightarrow> bool \<Rightarrow> link_target option io" where
  "swap_link env fresh name path overwrite =
     (let staging_link = path @ ending_text Staging in
      io_then (io_read id) (\<lambda>es.
        if lexists es name \<and> link_target es name = None \<and> \<not> is_plain_folder es name then io_raise FileExists
        else if \<not> overwrite \<and> lexists es name then io_raise FileExists
        else io_then (io_when (is_plain_folder es name) (adopt_pre_commit_dir env name fresh)) (\<lambda>_.
          io_then (io_read (\<lambda>es. link_target es name)) (\<lambda>previous.
            if (case previous of None \<Rightarrow> False | Some t \<Rightarrow> \<not> is_library_dir name t) then io_raise ForeignLink
            else io_then (io_step env (symlink_at staging_link (Sibling path))) (\<lambda>_.
                 io_then (io_step env (rename_at staging_link name)) (\<lambda>_. io_pure previous))))))"

definition drop_failed_commit :: "environment \<Rightarrow> string \<Rightarrow> unit io" where
  "drop_failed_commit env path =
     (let staging_link = path @ ending_text Staging in
      io_then (io_read (\<lambda>es. lexists es staging_link)) (\<lambda>present.
      io_then (io_when present (io_step env (unlink_at staging_link))) (\<lambda>_.
        rmtree env path)))"

definition retire_previous :: "environment \<Rightarrow> link_target option \<Rightarrow> unit io" where
  "retire_previous env previous = (case previous of
       None \<Rightarrow> io_pure ()
     | Some t \<Rightarrow> io_then (io_read (\<lambda>es. path_exists env es t)) (\<lambda>present. io_when present (retire env (base_name t))))"

definition commit_adapter_dir :: "environment \<Rightarrow> string \<Rightarrow> string \<Rightarrow> string \<Rightarrow> string \<Rightarrow> bool \<Rightarrow> (string \<times> string) io" where
  "commit_adapter_dir env fresh name path commit_id overwrite =
     (if path \<noteq> physical_dir name commit_id then io_raise FailedAssertion
      else io_then (io_read (\<lambda>es. folder_at env es (Sibling path))) (\<lambda>present.
        if present = None then io_raise FileNotFound
        else io_then (delete_unreferenced env (Some name) (Some path)) (\<lambda>_.
          io_then (io_read (\<lambda>es. link_target es name)) (\<lambda>current.
            if current = Some (Sibling path) then io_pure (path, commit_id)
            else io_then (or_clean_up (swap_link env fresh name path overwrite) (drop_failed_commit env path)) (\<lambda>previous.
              io_then (fsync env) (\<lambda>_.
              io_then (retire_previous env previous) (\<lambda>_. io_pure (path, commit_id))))))))"

text \<open>
  \<open>digest\<close> stands for the hash of a tenant's key.  \<open>owner_of\<close> is what \<^verbatim>\<open>tenant.json\<close> names, \<^verbatim>\<open>None\<close> without
  such a file.
\<close>

definition owner_of :: "folder \<Rightarrow> os_exn + json" where
  "owner_of f = (case map_of f ''tenant.json'' of
       Some (Json_File (JObj d)) \<Rightarrow> (case map_of d ''tenant_digest'' of None \<Rightarrow> Inl BadOwnerSchema | Some v \<Rightarrow> Inr v)
     | Some (Json_File _) \<Rightarrow> Inl BadOwnerSchema
     | Some Other_File \<Rightarrow> Inl BadOwnerJson
     | _ \<Rightarrow> Inr JNull)"

definition resolve_adapter_dir ::
  "environment \<Rightarrow> (string \<Rightarrow> string) \<Rightarrow> root_dir \<Rightarrow> string \<Rightarrow> string option \<Rightarrow> os_exn + (string \<times> string) option" where
  "resolve_adapter_dir env digest es name tenant =
     (if \<not> user_name name then Inl FailedAssertion
      else case link_target es name of
          None \<Rightarrow> Inr None
        | Some t \<Rightarrow>
            if \<not> is_library_dir name t then Inl ForeignLink
            else case folder_at env es t of
                None \<Rightarrow> Inr None
              | Some f \<Rightarrow>
                  rbind (case tenant of
                      None \<Rightarrow> Inr ()
                    | Some who \<Rightarrow> rbind (owner_of f) (\<lambda>owner. guard NotOwner (py_eq owner (JStr (digest who)))))
                  (\<lambda>_. Inr (Some (base_name t, commit_id_of (base_name t)))))"

definition delete_adapter_dir :: "environment \<Rightarrow> (string \<Rightarrow> string) \<Rightarrow> string \<Rightarrow> string option \<Rightarrow> unit io" where
  "delete_adapter_dir env digest name tenant =
     io_then (io_read (\<lambda>es. resolve_adapter_dir env digest es name tenant)) (\<lambda>committed. case committed of
       Inl e \<Rightarrow> io_raise e
     | Inr None \<Rightarrow> io_raise FileNotFound
     | Inr (Some (path, commit_id)) \<Rightarrow> io_then (io_step env (unlink_at name)) (\<lambda>_. retire env path))"

end
