(* ===== verification/Commit_View.thy ===== *)
theory Commit_View
  imports Adapter_Commit
begin

text \<open>
  What a name of the root stands for, an interrupted adoption included, the invariant of a root, and how
  each kind of change acts on both: only the swap of a link and the removal of a name change a view.
\<close>

section \<open>Names\<close>

definition commit_id_ok :: "string \<Rightarrow> bool" where
  "commit_id_ok c \<longleftrightarrow> length c = 16 \<and> (\<forall>x \<in> set c. is_hex x)"

definition adapter_name :: "string \<Rightarrow> bool" where
  "adapter_name n \<longleftrightarrow> user_name n \<and> newline \<notin> set n"

lemma ends_with_append [simp]: "ends_with (s @ t) t"
  by (simp add: ends_with_def)

lemma ends_with_last: "ends_with s t \<Longrightarrow> t \<noteq> [] \<Longrightarrow> last s = last t"
  by (metis append_take_drop_id ends_with_def last_appendR)

lemma chop_append [simp]: "chop (s @ t) t = s"
  by (simp add: chop_def)

lemma is_hex_last: "commit_id_ok c \<Longrightarrow> is_hex (last (physical_dir n c))"
  by (cases "c = []") (auto simp: commit_id_ok_def physical_dir_def)

lemma committed_name_physical:
  assumes "adapter_name n" "commit_id_ok c"
  shows "committed_name (physical_dir n c) = Some n"
proof -
  have len: "length (physical_dir n c) = 18 + length n" "n \<noteq> []"
    using assms by (auto simp: physical_dir_def commit_id_ok_def adapter_name_def user_name_def)
  have "drop (length (physical_dir n c) - 16) (physical_dir n c) = c" "take (length (physical_dir n c) - 16) (physical_dir n c) = ''.'' @ n @ ''.''"
    using assms(2) by (auto simp: physical_dir_def commit_id_ok_def)
  moreover have "Suc 0 \<le> length n" using len(2) by (cases n) auto
  ultimately show ?thesis using assms len by (auto simp: committed_name_def Let_def adapter_name_def commit_id_ok_def)
qed

lemma internal_entry_physical:
  assumes "adapter_name n" "commit_id_ok c"
  shows "internal_entry (physical_dir n c @ ending_text e) = Some (n, e)"
proof -
  let ?p = "physical_dir n c"
  have ne: "?p \<noteq> []" and hex: "is_hex (last ?p)" by (simp add: physical_dir_def, rule is_hex_last[OF assms(2)])
  have ends: "\<not> ends_with ?p ''.deleting''" "\<not> ends_with ?p ''.link''" "\<not> ends_with ?p ''.adopting''" "last ?p \<noteq> newline"
    using hex by (auto dest!: ends_with_last simp: is_hex_def newline_def)
  have rest: "\<not> ends_with (?p @ ''.link'') ''.deleting''" "\<not> ends_with (?p @ ''.adopting'') ''.link''"
    by (auto dest!: ends_with_last)
  have "\<not> ends_with (?p @ ''.adopting'') ''.deleting''" by (simp add: ends_with_def)
  then show ?thesis
    using ends rest ne committed_name_physical[OF assms]
    by (cases e) (simp_all add: internal_entry_def ending_text_def Let_def newline_def chop_def)
qed

lemma internal_entry_committed [simp]:
  "adapter_name n \<Longrightarrow> commit_id_ok c \<Longrightarrow> internal_entry (physical_dir n c) = Some (n, Committed)"
  using internal_entry_physical[of n c Committed] by (simp add: ending_text_def)

lemma internal_entry_user [simp]: "user_name n \<Longrightarrow> internal_entry n = None"
proof (rule ccontr)
  assume u: "user_name n" and "internal_entry n \<noteq> None"
  then obtain s t where s: "s = n \<or> s = butlast n" "committed_name (chop s t) \<noteq> None"
    by (auto simp: internal_entry_def Let_def split: if_splits)
  let ?c = "chop s t"
  have "19 \<le> length ?c" "hd (take (length ?c - 16) ?c) = CHR ''.''"
    using s(2) by (auto simp: committed_name_def Let_def split: if_splits)
  then have "hd s = CHR ''.''" "s \<noteq> []"
    by (auto simp: chop_def hd_take)
  then have "hd n = CHR ''.''" using s(1) by (cases n) (auto split: if_splits)
  then show False using u by (simp add: user_name_def)
qed

text \<open>A committed directory's name, and the name it is retired to.\<close>

lemma committed_name_SomeD:
  assumes "committed_name s = Some n"
  shows "\<exists>c. s = physical_dir n c \<and> commit_id_ok c \<and> newline \<notin> set n \<and> n \<noteq> []"
proof -
  let ?front = "take (length s - 16) s" and ?hex = "drop (length s - 16) s"
  from assms have h: "19 \<le> length s" "hd ?front = CHR ''.''" "last ?front = CHR ''.''" "\<forall>c \<in> set ?hex. is_hex c"
      "newline \<notin> set n" "n = butlast (tl ?front)"
    by (auto simp: committed_name_def Let_def split: if_splits)
  then have len: "length ?front = length s - 16" "3 \<le> length ?front" by auto
  then have "\<exists>x rest. ?front = x # rest \<and> rest \<noteq> []" by (cases ?front; cases "tl ?front") auto
  then obtain x rest where r: "?front = x # rest" "rest \<noteq> []" by blast
  then have front: "?front = ''.'' @ n @ ''.''"
    using h(2,3,6) append_butlast_last_id[OF r(2)] by auto
  moreover have "s = ?front @ ?hex" by simp
  ultimately have "s = physical_dir n ?hex" unfolding physical_dir_def by (metis append.assoc)
  moreover have "commit_id_ok ?hex" using h(1,4) by (auto simp: commit_id_ok_def)
  moreover have "n \<noteq> []" using front len(2) by auto
  ultimately show ?thesis using h(5) by blast
qed

lemma internal_entry_SomeD:
  assumes "internal_entry k = Some (n, e)" "newline \<notin> set k"
  shows "\<exists>c. k = physical_dir n c @ ending_text e \<and> commit_id_ok c \<and> newline \<notin> set n \<and> n \<noteq> []"
proof -
  have "internal_entry [] = None" by code_simp
  then have "k \<noteq> []" using assms(1) by auto
  then have last: "last k \<noteq> newline" using assms(2) by (metis last_in_set)
  have name: "committed_name (chop k (ending_text e)) = Some n" and ends: "ends_with k (ending_text e)"
    using assms(1) last by (auto simp: internal_entry_def Let_def ending_text_def ends_with_def split: if_splits)
  have "k = chop k (ending_text e) @ ending_text e"
    using ends by (metis append_take_drop_id chop_def ends_with_def)
  then show ?thesis using committed_name_SomeD[OF name] by metis
qed

lemma internal_entry_retired:
  assumes "internal_entry p = Some (n, Committed)" "newline \<notin> set p" "user_name n"
  shows "internal_entry (p @ ending_text Deleting) = Some (n, Deleting)" "newline \<notin> set (p @ ending_text Deleting)"
proof -
  obtain c where c: "p = physical_dir n c" "commit_id_ok c" "newline \<notin> set n"
    using internal_entry_SomeD[OF assms(1,2)] by (auto simp: ending_text_def)
  show "internal_entry (p @ ending_text Deleting) = Some (n, Deleting)"
    unfolding c(1) using c assms(3) by (intro internal_entry_physical) (auto simp: adapter_name_def)
  show "newline \<notin> set (p @ ending_text Deleting)" using assms(2) by (auto simp: ending_text_def newline_def)
qed

section \<open>What a name stands for\<close>

datatype view = Absent | User_File | Foreign link_target | Plain folder | Stored string folder

definition folder_of :: "root_dir \<Rightarrow> string \<Rightarrow> folder option" where
  "folder_of es t = (case map_of es t of Some (Folder f) \<Rightarrow> Some f | _ \<Rightarrow> None)"

definition adoptee :: "root_dir \<Rightarrow> string \<Rightarrow> (string \<times> folder) option" where
  "adoptee es k = (case map_of es k of Some (Symlink (Sibling t)) \<Rightarrow> map_option (Pair t) (folder_of es t) | _ \<Rightarrow> None)"

text \<open>The directory of an adoption that was interrupted between its rename and its swap.\<close>

definition pending_adoption :: "root_dir \<Rightarrow> string \<Rightarrow> (string \<times> folder) option" where
  "pending_adoption es n =
     (case List.find (\<lambda>k. internal_entry k = Some (n, Adopting) \<and> adoptee es k \<noteq> None) (map fst es) of
        None \<Rightarrow> None
      | Some k \<Rightarrow> adoptee es k)"

definition view :: "root_dir \<Rightarrow> string \<Rightarrow> view" where
  "view es n = (case map_of es n of
       None \<Rightarrow> (case pending_adoption es n of None \<Rightarrow> Absent | Some (p, f) \<Rightarrow> Stored p f)
     | Some Regular_File \<Rightarrow> User_File
     | Some (Folder f) \<Rightarrow> Plain f
     | Some (Symlink t) \<Rightarrow>
         if is_library_dir n t then (case folder_of es (base_name t) of None \<Rightarrow> Absent | Some f \<Rightarrow> Stored (base_name t) f)
         else Foreign t)"

text \<open>
  The library's own entries are of the kind their names say, belong to names it permits, and an adoption
  whose directory is renamed is the only one of its name, which is still absent.
\<close>

definition entry_fits :: "string \<Rightarrow> entry \<Rightarrow> bool" where
  "entry_fits k e = (case internal_entry k of
       None \<Rightarrow> True
     | Some (own, en) \<Rightarrow> user_name own \<and> newline \<notin> set k \<and>
         (case en of
            Staging \<Rightarrow> (case e of Symlink t \<Rightarrow> True | _ \<Rightarrow> False)
          | Adopting \<Rightarrow> (case e of Symlink t \<Rightarrow> is_library_dir own t | _ \<Rightarrow> False)
          | _ \<Rightarrow> (case e of Folder f \<Rightarrow> True | _ \<Rightarrow> False)))"

definition adopts :: "root_dir \<Rightarrow> string \<Rightarrow> string \<Rightarrow> bool" where
  "adopts es k n \<longleftrightarrow> internal_entry k = Some (n, Adopting) \<and> adoptee es k \<noteq> None"

definition root_ok :: "root_dir \<Rightarrow> bool" where
  "root_ok es \<longleftrightarrow> dict_ok es \<and> (\<forall>(k, e) \<in> set es. entry_fits k e) \<and>
     (\<forall>k \<in> set (map fst es). case internal_entry k of
        Some (n, Adopting) \<Rightarrow> adoptee es k \<noteq> None \<longrightarrow> map_of es n = None \<and> (\<forall>k' \<in> set (map fst es). adopts es k' n \<longrightarrow> k' = k)
      | _ \<Rightarrow> True)"

lemma adoptee_SomeD: "adoptee es k = Some x \<Longrightarrow> \<exists>t. map_of es k = Some (Symlink (Sibling t)) \<and> folder_of es t = Some (snd x)"
  by (auto simp: adoptee_def split: option.splits entry.splits link_target.splits)

lemma folder_of_Some [simp]: "folder_of es t = Some f \<longleftrightarrow> map_of es t = Some (Folder f)"
  by (auto simp: folder_of_def split: option.splits entry.splits)

lemma map_of_present: "map_of es k \<noteq> None \<Longrightarrow> k \<in> set (map fst es)"
  by (metis image_set map_of_None_fst)

lemma root_ok_iff:
  "root_ok es \<longleftrightarrow> dict_ok es \<and> (\<forall>k e. map_of es k = Some e \<longrightarrow> entry_fits k e) \<and>
     (\<forall>k n. adopts es k n \<longrightarrow> map_of es n = None \<and> (\<forall>k'. adopts es k' n \<longrightarrow> k' = k))"
proof -
  have present: "k \<in> set (map fst es)" if "adopts es k n" for k n
    using that by (intro map_of_present) (auto simp: adopts_def dest!: adoptee_SomeD)
  have "(\<forall>k \<in> set (map fst es). case internal_entry k of
        Some (n, Adopting) \<Rightarrow> adoptee es k \<noteq> None \<longrightarrow> map_of es n = None \<and> (\<forall>k' \<in> set (map fst es). adopts es k' n \<longrightarrow> k' = k)
      | _ \<Rightarrow> True) \<longleftrightarrow>
      (\<forall>k n. adopts es k n \<longrightarrow> map_of es n = None \<and> (\<forall>k'. adopts es k' n \<longrightarrow> k' = k))" (is "?l \<longleftrightarrow> ?r")
  proof
    assume l: ?l
    show ?r
    proof (intro allI impI)
      fix k n assume a: "adopts es k n"
      from bspec[OF l present[OF a]] a have "map_of es n = None \<and> (\<forall>k' \<in> set (map fst es). adopts es k' n \<longrightarrow> k' = k)"
        by (auto simp: adopts_def)
      then show "map_of es n = None \<and> (\<forall>k'. adopts es k' n \<longrightarrow> k' = k)" using present by blast
    qed
  next
    assume r: ?r
    show ?l
    proof
      fix k assume "k \<in> set (map fst es)"
      show "case internal_entry k of
        Some (n, Adopting) \<Rightarrow> adoptee es k \<noteq> None \<longrightarrow> map_of es n = None \<and> (\<forall>k' \<in> set (map fst es). adopts es k' n \<longrightarrow> k' = k)
      | _ \<Rightarrow> True"
      proof (cases "\<exists>n. internal_entry k = Some (n, Adopting)")
        case True
        then obtain n where n: "internal_entry k = Some (n, Adopting)" by blast
        then have "adopts es k n \<longleftrightarrow> adoptee es k \<noteq> None" unfolding adopts_def by blast
        then show ?thesis unfolding n option.case prod.case ending.case using r by blast
      next
        case False
        then show ?thesis by (cases "internal_entry k"; cases "snd (the (internal_entry k))") auto
      qed
    qed
  qed
  moreover have "(\<forall>(k, e) \<in> set es. entry_fits k e) \<longleftrightarrow> (\<forall>k e. map_of es k = Some e \<longrightarrow> entry_fits k e)" if "dict_ok es"
    using map_of_eq_Some_iff[OF that] by auto
  then have "dict_ok es \<and> (\<forall>(k, e) \<in> set es. entry_fits k e) \<longleftrightarrow> dict_ok es \<and> (\<forall>k e. map_of es k = Some e \<longrightarrow> entry_fits k e)"
    by (rule conj_cong[OF refl])
  ultimately show ?thesis unfolding root_ok_def conj_assoc[symmetric] by (simp only:)
qed

lemma pending_adoption_iff:
  assumes "root_ok es"
  shows "pending_adoption es n = Some f \<longleftrightarrow> (\<exists>k. internal_entry k = Some (n, Adopting) \<and> adoptee es k = Some f)"
proof -
  have one: "k' = k" if "adopts es k n" "adopts es k' n" for k k'
    using assms that unfolding root_ok_iff by blast
  show ?thesis
  proof
    assume "pending_adoption es n = Some f"
    then show "\<exists>k. internal_entry k = Some (n, Adopting) \<and> adoptee es k = Some f"
      unfolding pending_adoption_def by (auto split: option.splits simp: find_Some_iff)
  next
    assume "\<exists>k. internal_entry k = Some (n, Adopting) \<and> adoptee es k = Some f"
    then obtain k where k: "internal_entry k = Some (n, Adopting)" "adoptee es k = Some f" by blast
    then have "k \<in> set (map fst es)" by (intro map_of_present) (auto dest!: adoptee_SomeD)
    then have "List.find (\<lambda>k. internal_entry k = Some (n, Adopting) \<and> adoptee es k \<noteq> None) (map fst es) \<noteq> None"
      using k by (auto simp: find_None_iff)
    then obtain k' where k': "List.find (\<lambda>k. internal_entry k = Some (n, Adopting) \<and> adoptee es k \<noteq> None) (map fst es) = Some k'"
      by auto
    then have "adopts es k' n" by (auto simp: find_Some_iff adopts_def)
    moreover have "adopts es k n" using k by (simp add: adopts_def)
    ultimately have "k' = k" by (rule one[rotated])
    then show "pending_adoption es n = Some f" using k k' by (simp add: pending_adoption_def)
  qed
qed

lemma user_not_internal: "user_name n \<Longrightarrow> internal_entry k \<noteq> None \<Longrightarrow> k \<noteq> n"
  by auto

lemma root_okD:
  assumes "root_ok es"
  shows "dict_ok es" "\<And>k e. map_of es k = Some e \<Longrightarrow> entry_fits k e"
    "\<And>k n. adopts es k n \<Longrightarrow> map_of es n = None" "\<And>k k' n. adopts es k n \<Longrightarrow> adopts es k' n \<Longrightarrow> k' = k"
  using assms unfolding root_ok_iff by blast+

lemma root_ok_internal:
  assumes "root_ok es" "map_of es k = Some e" "internal_entry k = Some (own, en)"
  shows "user_name own" "newline \<notin> set k"
    "en = Committed \<or> en = Deleting \<Longrightarrow> \<exists>f. e = Folder f"
    "en = Adopting \<Longrightarrow> \<exists>t. e = Symlink (Sibling t) \<and> internal_entry t = Some (own, Committed)"
    "en = Staging \<Longrightarrow> \<exists>t. e = Symlink t"
  using root_okD(2)[OF assms(1,2)] assms(3)
  by (auto simp: entry_fits_def is_library_dir_def split: ending.splits entry.splits link_target.splits)

lemma adoptee_Some_iff: "adoptee es k = Some (t, f) \<longleftrightarrow> map_of es k = Some (Symlink (Sibling t)) \<and> map_of es t = Some (Folder f)"
  by (auto simp: adoptee_def split: option.splits entry.splits link_target.splits)

lemma view_cong:
  assumes "root_ok es" "root_ok es'" "map_of es' n = map_of es n"
    and "\<And>t. map_of es n = Some (Symlink (Sibling t)) \<Longrightarrow> internal_entry t = Some (n, Committed) \<Longrightarrow> folder_of es' t = folder_of es t"
    and "map_of es n = None \<Longrightarrow> \<forall>k. internal_entry k = Some (n, Adopting) \<longrightarrow> adoptee es' k = adoptee es k"
  shows "view es' n = view es n"
proof (cases "map_of es n")
  case None
  then have "pending_adoption es' n = Some f \<longleftrightarrow> pending_adoption es n = Some f" for f
    using assms(5) unfolding pending_adoption_iff[OF assms(1)] pending_adoption_iff[OF assms(2)] by metis
  then have "pending_adoption es' n = pending_adoption es n"
    by (metis option.exhaust)
  then show ?thesis using None assms(3) by (simp add: view_def)
next
  case (Some e)
  show ?thesis
  proof (cases e)
    case (Symlink t)
    then show ?thesis using Some assms(3,4) by (cases t) (auto simp: view_def is_library_dir_def)
  qed (use Some assms(3) in \<open>simp_all add: view_def\<close>)
qed

lemma root_ok_cong:
  assumes "root_ok es" "dict_ok es'"
    and "\<And>k e. map_of es' k = Some e \<Longrightarrow> map_of es k = Some e \<or> entry_fits k e"
    and "\<And>k n. adopts es' k n \<Longrightarrow> adopts es k n \<and> map_of es' n = None"
  shows "root_ok es'"
  using assms root_okD[OF assms(1)] unfolding root_ok_iff by blast

text \<open>A directory of the library that no name needs, and changes to it.\<close>

definition unused_by :: "root_dir \<Rightarrow> string \<Rightarrow> string \<Rightarrow> bool" where
  "unused_by es p n \<longleftrightarrow> map_of es n \<noteq> Some (Symlink (Sibling p)) \<and>
     (\<forall>k. internal_entry k = Some (n, Adopting) \<longrightarrow> map_of es k \<noteq> Some (Symlink (Sibling p)))"

definition free_dir :: "root_dir \<Rightarrow> string \<Rightarrow> bool" where
  "free_dir es p \<longleftrightarrow> newline \<notin> set p \<and> (case internal_entry p of
       Some (n, Deleting) \<Rightarrow> user_name n
     | Some (n, Committed) \<Rightarrow> user_name n \<and> unused_by es p n
     | _ \<Rightarrow> False)"

definition same_view :: "root_dir \<Rightarrow> root_dir \<Rightarrow> bool" where
  "same_view es es' \<longleftrightarrow> root_ok es' \<and> (\<forall>n. user_name n \<longrightarrow> view es' n = view es n)"

lemma free_dir_internal: "free_dir es p \<Longrightarrow> \<exists>n e. internal_entry p = Some (n, e) \<and> user_name n \<and> (e = Deleting \<or> e = Committed \<and> unused_by es p n)"
proof (cases "internal_entry p")
  case (Some q)
  assume "free_dir es p"
  then show ?thesis using Some by (cases q; cases "snd q") (simp_all add: free_dir_def)
qed (simp add: free_dir_def)

lemma free_dir_change:
  assumes ok: "root_ok es" and free: "free_dir es p" and d: "dict_ok es'"
    and m: "map_of es' = (map_of es)(p := x)" and x: "x = None \<or> (\<exists>f. x = Some (Folder f))"
  shows "same_view es es'" "free_dir es' p"
proof -
  obtain n e where p: "internal_entry p = Some (n, e)" "user_name n" "e = Deleting \<or> e = Committed \<and> unused_by es p n"
    using free_dir_internal[OF free] by blast
  have user: "map_of es' k = map_of es k" if "user_name k" for k
    using user_not_internal[OF that] p(1) by (auto simp: m)
  have link: "map_of es' k = Some (Symlink t) \<longleftrightarrow> map_of es k = Some (Symlink t) \<and> k \<noteq> p" for k t
    using x by (auto simp: m)
  have plink: "map_of es p \<noteq> Some (Symlink t)" for t
    using root_ok_internal(3)[OF ok _ p(1)] p(3) by blast
  have notp: "t \<noteq> p" if "map_of es k = Some (Symlink (Sibling t))" "internal_entry t = Some (own, Committed)"
      "k = own \<or> internal_entry k = Some (own, Adopting)" for k t own
    using p that by (auto simp: unused_by_def)
  have adoptee: "adoptee es' k = adoptee es k" if k: "internal_entry k = Some (own, Adopting)" for k own
  proof (cases "map_of es k")
    case (Some e')
    then obtain t where t: "e' = Symlink (Sibling t)" "internal_entry t = Some (own, Committed)"
      using root_ok_internal(4)[OF ok _ k] by blast
    have "t \<noteq> p" "k \<noteq> p" using notp[of k t own] t Some k plink by auto
    then show ?thesis by (simp add: adoptee_def m Some t folder_of_def)
  next
    case None
    then have "map_of es' k = None" using k p by (auto simp: m)
    then show ?thesis by (simp add: adoptee_def None)
  qed
  have ok': "root_ok es'"
  proof (rule root_ok_cong[OF ok d])
    fix k e' assume "map_of es' k = Some e'"
    then show "map_of es k = Some e' \<or> entry_fits k e'"
      using x p free by (auto simp: m entry_fits_def free_dir_def split: if_splits)
  next
    fix k own assume "adopts es' k own"
    then have "adopts es k own" using adoptee by (auto simp: adopts_def)
    moreover have "user_name own"
      using calculation root_ok_internal(1)[OF ok] by (auto simp: adopts_def adoptee_Some_iff)
    ultimately show "adopts es k own \<and> map_of es' own = None" using root_okD(3)[OF ok] user by simp
  qed
  moreover have "view es' k = view es k" if k: "user_name k" for k
  proof (rule view_cong[OF ok ok' user[OF k]])
    fix t assume "map_of es k = Some (Symlink (Sibling t))" "internal_entry t = Some (k, Committed)"
    then show "folder_of es' t = folder_of es t" using notp[of k t k] by (simp add: folder_of_def m)
  qed (use adoptee in blast)
  ultimately show "same_view es es'" by (simp add: same_view_def)
  show "free_dir es' p"
    using free p by (auto simp: free_dir_def unused_by_def link)
qed

text \<open>A change of what belongs to one name: the name itself and the library's entries for it.\<close>

lemma adoptee_area:
  assumes "root_ok es" "internal_entry k = Some (m, Adopting)" "map_of es' k = map_of es k"
    and "\<And>t. internal_entry t = Some (m, Committed) \<Longrightarrow> map_of es' t = map_of es t"
  shows "adoptee es' k = adoptee es k"
proof (cases "map_of es k")
  case (Some e)
  then obtain t where "e = Symlink (Sibling t)" "internal_entry t = Some (m, Committed)"
    using root_ok_internal(4)[OF assms(1) Some assms(2)] by blast
  then show ?thesis using Some assms(3,4) by (simp add: adoptee_def folder_of_def)
qed (use assms(3) in \<open>simp add: adoptee_def\<close>)

lemma adopts_user: "root_ok es \<Longrightarrow> adopts es k n \<Longrightarrow> user_name n"
  by (auto simp: adopts_def adoptee_Some_iff intro: root_ok_internal(1))

lemma local_change:
  assumes ok: "root_ok es" and d: "dict_ok es'" and n: "user_name n"
    and changed: "\<And>k. map_of es' k \<noteq> map_of es k \<Longrightarrow> k = n \<or> (\<exists>e. internal_entry k = Some (n, e))"
    and fits: "\<And>k e. map_of es' k \<noteq> map_of es k \<Longrightarrow> map_of es' k = Some e \<Longrightarrow> entry_fits k e"
    and adopt: "\<And>k. adopts es' k n \<Longrightarrow> map_of es' n = None \<and> (\<forall>k'. adopts es' k' n \<longrightarrow> k' = k)"
  shows "root_ok es'" "\<And>m. user_name m \<Longrightarrow> m \<noteq> n \<Longrightarrow> view es' m = view es m"
proof -
  have same: "map_of es' k = map_of es k" if "internal_entry k = Some (m, e)" "m \<noteq> n" for k m e
    using changed[of k] that n by (metis internal_entry_user option.distinct(1) option.inject prod.inject)
  have user: "map_of es' m = map_of es m" if "user_name m" "m \<noteq> n" for m
    using changed[of m] that by auto
  have adoptee: "adoptee es' k = adoptee es k" if "internal_entry k = Some (m, Adopting)" "m \<noteq> n" for k m
    using that same by (intro adoptee_area[OF ok]) auto
  show ok': "root_ok es'"
    unfolding root_ok_iff
  proof (intro conjI allI impI)
    show "dict_ok es'" by (rule d)
    show "entry_fits k e" if "map_of es' k = Some e" for k e
      using fits that root_okD(2)[OF ok] by (cases "map_of es' k = map_of es k") auto
    show "map_of es' m = None" if a: "adopts es' k m" for k m
    proof (cases "m = n")
      case False
      then have "adopts es k m" using a adoptee by (auto simp: adopts_def)
      then have "map_of es m = None" "user_name m" by (rule root_okD(3)[OF ok], rule adopts_user[OF ok])
      then show ?thesis using user False by simp
    next
      case True
      then show ?thesis using adopt[of k] a by simp
    qed
    show "k' = k" if a: "adopts es' k m" "adopts es' k' m" for k k' m
    proof (cases "m = n")
      case False
      then have "adopts es k m" "adopts es k' m" using a adoptee by (auto simp: adopts_def)
      then show ?thesis by (rule root_okD(4)[OF ok])
    next
      case True
      then show ?thesis using adopt[of k] a by simp
    qed
  qed
  show "view es' m = view es m" if "user_name m" "m \<noteq> n" for m
    using that same adoptee by (intro view_cong[OF ok ok' user]) (auto simp: folder_of_def)
qed

lemma fits_internal:
  assumes "internal_entry k = Some (n, e)" "user_name n" "newline \<notin> set k"
  shows "e = Committed \<or> e = Deleting \<Longrightarrow> entry_fits k (Folder f)"
    "e = Staging \<Longrightarrow> entry_fits k (Symlink t)"
    "e = Adopting \<Longrightarrow> is_library_dir n t \<Longrightarrow> entry_fits k (Symlink t)"
  using assms by (auto simp: entry_fits_def)

lemma staging_change:
  assumes ok: "root_ok es" and k: "internal_entry k = Some (n, Staging)" "user_name n" "newline \<notin> set k" and d: "dict_ok es'"
    and m: "map_of es' = (map_of es)(k := x)" and x: "x = None \<or> (\<exists>t. x = Some (Symlink t))"
  shows "same_view es es'"
proof -
  have adoptee: "adoptee es' a = adoptee es a" if "internal_entry a = Some (own, Adopting)" for a own
    using that k by (intro adoptee_area[OF ok]) (auto simp: m)
  note local = local_change[OF ok d k(2)]
  have ok': "root_ok es'"
  proof (rule local(1))
    show "map_of es' n = None \<and> (\<forall>k'. adopts es' k' n \<longrightarrow> k' = a)" if "adopts es' a n" for a
    proof -
      have "adopts es a n" using that adoptee by (auto simp: adopts_def)
      moreover have "map_of es' n = map_of es n" using k by (auto simp: m)
      ultimately show ?thesis using root_okD(3,4)[OF ok] adoptee by (auto simp: adopts_def)
    qed
  qed (use k x fits_internal(2)[OF k] in \<open>auto simp: m split: if_splits\<close>)
  moreover have "view es' j = view es j" if "user_name j" for j
    using that k adoptee by (intro view_cong[OF ok ok']) (auto simp: m folder_of_def)
  ultimately show ?thesis by (simp add: same_view_def)
qed

lemma unlink_adopting:
  assumes ok: "root_ok es" and k: "internal_entry k = Some (n, Adopting)" "user_name n" and d: "dict_ok es'"
    and m: "map_of es' = (map_of es)(k := None)" and dead: "adoptee es k = None"
  shows "same_view es es'"
proof -
  have adoptee: "adoptee es' a = adoptee es a" if "internal_entry a = Some (own, Adopting)" for a own
  proof (cases "a = k")
    case True
    then show ?thesis using dead by (simp add: adoptee_def m)
  qed (use that k in \<open>auto intro!: adoptee_area[OF ok] simp: m\<close>)
  have ok': "root_ok es'"
  proof (rule root_ok_cong[OF ok d])
    show "adopts es a own \<and> map_of es' own = None" if "adopts es' a own" for a own
    proof -
      have "adopts es a own" using that adoptee by (auto simp: adopts_def)
      then show ?thesis using root_okD(3)[OF ok] by (simp add: m)
    qed
  qed (auto simp: m split: if_splits)
  moreover have "view es' j = view es j" if "user_name j" for j
    using that k adoptee by (intro view_cong[OF ok ok']) (auto simp: m folder_of_def)
  ultimately show ?thesis by (simp add: same_view_def)
qed

lemma unlink_name:
  assumes ok: "root_ok es" and n: "user_name n" "map_of es n \<noteq> None" and d: "dict_ok es'"
    and m: "map_of es' = (map_of es)(n := None)"
  shows "root_ok es'" "view es' n = Absent" "\<And>j. user_name j \<Longrightarrow> j \<noteq> n \<Longrightarrow> view es' j = view es j"
proof -
  have none: "\<not> adopts es' a n" for a
  proof
    assume a: "adopts es' a n"
    then have "internal_entry a = Some (n, Adopting)" "adoptee es' a \<noteq> None" by (auto simp: adopts_def)
    moreover have "adoptee es' a = adoptee es a"
      using calculation(1) n by (intro adoptee_area[OF ok]) (auto simp: m)
    ultimately have "adopts es a n" by (simp add: adopts_def)
    then show False using root_okD(3)[OF ok] n(2) by simp
  qed
  note local = local_change[OF ok d n(1)]
  show ok': "root_ok es'" by (rule local(1)) (use none in \<open>auto simp: m split: if_splits\<close>)
  have "pending_adoption es' n = None"
    using none by (metis adopts_def option.exhaust option.simps(3) pending_adoption_iff[OF ok'])
  then show "view es' n = Absent" by (simp add: view_def m)
  show "view es' j = view es j" if "user_name j" "j \<noteq> n" for j
    using that none by (intro local(2)) (auto simp: m split: if_splits)
qed

lemma library_target: "is_library_dir n t \<longleftrightarrow> (\<exists>p. t = Sibling p \<and> internal_entry p = Some (n, Committed))"
  by (auto simp: is_library_dir_def split: link_target.splits)

lemma swap_view:
  assumes ok: "root_ok es" and d: "dict_ok es'" and n: "user_name n" and s: "internal_entry s = Some (n, en)" "en \<noteq> Committed"
    and p: "internal_entry p = Some (n, Committed)" "map_of es p = Some (Folder f)"
    and none: "\<And>a. a \<noteq> s \<Longrightarrow> \<not> adopts es a n" and m: "map_of es' = (map_of es)(s := None, n \<mapsto> Symlink (Sibling p))"
  shows "root_ok es'" "view es' n = Stored p f" "\<And>j. user_name j \<Longrightarrow> j \<noteq> n \<Longrightarrow> view es' j = view es j"
proof -
  have neq: "s \<noteq> n" "p \<noteq> n" "p \<noteq> s" using n s p by auto
  have no: "\<not> adopts es' a n" for a
  proof (cases "a = s")
    case True
    then show ?thesis using neq by (simp add: adopts_def adoptee_def m)
  next
    case False
    show ?thesis
    proof
      assume a: "adopts es' a n"
      then have ia: "internal_entry a = Some (n, Adopting)" by (simp add: adopts_def)
      have "adoptee es' a = adoptee es a"
      proof (rule adoptee_area[OF ok ia])
        show "map_of es' a = map_of es a" using False ia n by (auto simp: m)
        show "map_of es' t = map_of es t" if "internal_entry t = Some (n, Committed)" for t
          using that n s by (auto simp: m)
      qed
      then have "adopts es a n" using a by (simp add: adopts_def)
      then show False using none False by blast
    qed
  qed
  note local = local_change[OF ok d n]
  have changed: "k = n \<or> (\<exists>e. internal_entry k = Some (n, e))" if "map_of es' k \<noteq> map_of es k" for k
    using that s(1) by (auto simp: m split: if_splits)
  have fits: "entry_fits k e" if "map_of es' k \<noteq> map_of es k" "map_of es' k = Some e" for k e
    using that n by (auto simp: m entry_fits_def split: if_splits)
  show "root_ok es'" by (rule local(1)[OF changed fits]) (use no in auto)
  show "view es' n = Stored p f" using p neq by (simp add: view_def is_library_dir_def m folder_of_def)
  show "view es' j = view es j" if "user_name j" "j \<noteq> n" for j
    by (rule local(2)[OF changed fits _ that]) (use no in auto)
qed

lemma finish_adoption:
  assumes ok: "root_ok es" and d: "dict_ok es'" and k: "adopts es k n" "map_of es k = Some (Symlink (Sibling t))"
    and m: "map_of es' = (map_of es)(k := None, n \<mapsto> Symlink (Sibling t))"
  shows "same_view es es'"
proof -
  have n: "user_name n" by (rule adopts_user[OF ok k(1)])
  have ik: "internal_entry k = Some (n, Adopting)" using k(1) by (simp add: adopts_def)
  have t: "internal_entry t = Some (n, Committed)" using root_ok_internal(4)[OF ok k(2) ik] by auto
  obtain f where f: "adoptee es k = Some (t, f)" "map_of es t = Some (Folder f)" using k by (auto simp: adopts_def adoptee_Some_iff)
  have only: "\<not> adopts es a n" if "a \<noteq> k" for a using root_okD(4)[OF ok k(1)] that by blast
  note swap = swap_view[OF ok d n ik _ t f(2) only m]
  have "pending_adoption es n = Some (t, f)" using ik f(1) pending_adoption_iff[OF ok] by blast
  then have "view es n = Stored t f" using root_okD(3)[OF ok k(1)] by (simp add: view_def)
  then show ?thesis using swap unfolding same_view_def by (metis ending.distinct(5))
qed

lemma link_adoption:
  assumes ok: "root_ok es" and d: "dict_ok es'" and n: "user_name n" and a: "internal_entry a = Some (n, Adopting)" "newline \<notin> set a"
    and q: "internal_entry q = Some (n, Committed)" "map_of es q = None" "map_of es a = None"
    and m: "map_of es' = (map_of es)(a \<mapsto> Symlink (Sibling q))"
  shows "same_view es es'"
proof -
  have neq: "a \<noteq> n" "q \<noteq> n" "q \<noteq> a" using n a q by auto
  have adoptee: "adoptee es' b = adoptee es b" if b: "internal_entry b = Some (own, Adopting)" for b own
  proof (cases "b = a")
    case True
    then show ?thesis using q neq by (simp add: adoptee_def m folder_of_def)
  next
    case False
    then show ?thesis using b a by (intro adoptee_area[OF ok b]) (auto simp: m)
  qed
  have same: "adopts es' b own \<longleftrightarrow> adopts es b own" for b own using adoptee by (auto simp: adopts_def)
  have user: "map_of es' j = map_of es j" if "user_name j" for j using that a by (auto simp: m)
  have ok': "root_ok es'"
  proof (rule root_ok_cong[OF ok d])
    show "map_of es k = Some e \<or> entry_fits k e" if "map_of es' k = Some e" for k e
      using that fits_internal(3)[OF a(1) n a(2)] q(1) by (auto simp: m library_target split: if_splits)
    show "adopts es b own \<and> map_of es' own = None" if "adopts es' b own" for b own
      using that root_okD(3)[OF ok] adopts_user[OF ok] user by (auto simp: same)
  qed
  have "view es' j = view es j" if "user_name j" for j
    using that user adoptee a by (intro view_cong[OF ok ok']) (auto simp: m folder_of_def)
  then show ?thesis using ok' by (simp add: same_view_def)
qed

lemma rename_adoptee:
  assumes ok: "root_ok es" and d: "dict_ok es'" and n: "user_name n" "map_of es n = Some (Folder f)"
    and a: "internal_entry a = Some (n, Adopting)" "map_of es a = Some (Symlink (Sibling q))"
    and only: "\<And>b. internal_entry b = Some (n, Adopting) \<Longrightarrow> map_of es b = Some (Symlink (Sibling q)) \<Longrightarrow> b = a"
    and q: "internal_entry q = Some (n, Committed)" "newline \<notin> set q" "map_of es q = None"
    and m: "map_of es' = (map_of es)(n := None, q \<mapsto> Folder f)"
  shows "root_ok es'" "view es' n = Stored q f" "\<And>j. user_name j \<Longrightarrow> j \<noteq> n \<Longrightarrow> view es' j = view es j"
proof -
  have neq: "a \<noteq> n" "q \<noteq> n" "q \<noteq> a" using n a q by auto
  have one: "b = a" if b: "adopts es' b n" for b
  proof -
    have ib: "internal_entry b = Some (n, Adopting)" using b by (simp add: adopts_def)
    then have bn: "b \<noteq> n" "b \<noteq> q" using n q by auto
    obtain t g where t: "map_of es b = Some (Symlink (Sibling t))" "map_of es' t = Some (Folder g)"
      using b bn by (auto simp: adopts_def adoptee_Some_iff m)
    show ?thesis
    proof (cases "t = q")
      case False
      then have "map_of es t = Some (Folder g)" using t(2) by (auto simp: m split: if_splits)
      then have "adopts es b n" using ib t(1) by (simp add: adopts_def adoptee_def folder_of_def)
      then show ?thesis using root_okD(3)[OF ok] n(2) by fastforce
    qed (use only[OF ib] t(1) in auto)
  qed
  have pend: "adoptee es' a = Some (q, f)" using a neq by (simp add: adoptee_Some_iff m)
  note local = local_change[OF ok d n(1)]
  have changed: "k = n \<or> (\<exists>e. internal_entry k = Some (n, e))" if "map_of es' k \<noteq> map_of es k" for k
    using that q(1) by (auto simp: m split: if_splits)
  have fits: "entry_fits k e" if "map_of es' k \<noteq> map_of es k" "map_of es' k = Some e" for k e
    using that fits_internal(1)[OF q(1) n(1) q(2)] by (auto simp: m split: if_splits)
  show ok': "root_ok es'" by (rule local(1)[OF changed fits]) (use one neq in \<open>auto simp: m\<close>)
  have "pending_adoption es' n = Some (q, f)" using a(1) pend pending_adoption_iff[OF ok'] by blast
  then show "view es' n = Stored q f" using neq by (simp add: view_def m)
  show "view es' j = view es j" if "user_name j" "j \<noteq> n" for j
    by (rule local(2)[OF changed fits _ that]) (use one neq in \<open>auto simp: m\<close>)
qed

lemma unlink_dangling:
  assumes ok: "root_ok es" and n: "user_name n" "map_of es n = Some (Symlink (Sibling t))" "internal_entry t = Some (n, Committed)"
    and gone: "folder_of es t = None" and d: "dict_ok es'" and m: "map_of es' = (map_of es)(n := None)"
  shows "same_view es es'"
proof -
  have "view es n = Absent" using n gone by (simp add: view_def is_library_dir_def)
  then show ?thesis using unlink_name[OF ok n(1) _ d m] n(2) unfolding same_view_def by (metis option.distinct(1))
qed

end
