(* ===== verification/Step_Logic.thy ===== *)
theory Step_Logic
  imports Adapter_Commit
begin

text \<open>
  A weakest precondition for computations over a directory: \<open>wp I m Q E es\<close> says that from \<open>es\<close> every
  directory that a step of \<open>m\<close> leaves satisfies \<open>I\<close>, its last one satisfies \<open>Q\<close> of the result, and when \<open>m\<close>
  raises, \<open>E\<close> of the exception, whichever steps fail.
\<close>

definition wp :: "(root_dir \<Rightarrow> bool) \<Rightarrow> 'a io \<Rightarrow> ('a \<Rightarrow> root_dir \<Rightarrow> bool) \<Rightarrow> (os_exn \<Rightarrow> root_dir \<Rightarrow> bool) \<Rightarrow> root_dir \<Rightarrow> bool" where
  "wp I m Q E es \<longleftrightarrow> (\<forall>d :: disk. entries d = es \<longrightarrow>
     (\<exists>r d' new. m d = (r, d') \<and> trail d' = trail d @ new \<and> (\<forall>e \<in> set new. I e) \<and>
        (case r of Inl x \<Rightarrow> E x (entries d') | Inr x \<Rightarrow> Q x (entries d'))))"

named_theorems wp_rules

lemma wpI:
  assumes "\<And>d :: disk. entries d = es \<Longrightarrow> \<exists>r d' new. m d = (r, d') \<and> trail d' = trail d @ new \<and> (\<forall>e \<in> set new. I e) \<and>
        (case r of Inl x \<Rightarrow> E x (entries d') | Inr x \<Rightarrow> Q x (entries d'))"
  shows "wp I m Q E es"
  using assms unfolding wp_def by blast

lemma wpE:
  fixes d :: disk
  assumes "wp I m Q E es" "entries d = es"
  obtains r d' new where "m d = (r, d')" "trail d' = trail d @ new" "\<forall>e \<in> set new. I e"
    "case r of Inl x \<Rightarrow> E x (entries d') | Inr x \<Rightarrow> Q x (entries d')"
  using assms unfolding wp_def by blast

lemma wp_mono:
  assumes w: "wp I m Q E es" and I: "\<And>e. I e \<Longrightarrow> I' e" and Q: "\<And>x e. Q x e \<Longrightarrow> Q' x e" and E: "\<And>x e. E x e \<Longrightarrow> E' x e"
  shows "wp I' m Q' E' es"
proof (rule wpI)
  fix d :: disk assume "entries d = es"
  with w obtain r d' new where h: "m d = (r, d')" "trail d' = trail d @ new" "\<forall>e \<in> set new. I e"
    "case r of Inl x \<Rightarrow> E x (entries d') | Inr x \<Rightarrow> Q x (entries d')" by (rule wpE)
  moreover have "case r of Inl x \<Rightarrow> E' x (entries d') | Inr x \<Rightarrow> Q' x (entries d')"
    using h(4) Q E by (cases r) auto
  ultimately show "\<exists>r d' new. m d = (r, d') \<and> trail d' = trail d @ new \<and> (\<forall>e \<in> set new. I' e) \<and>
        (case r of Inl x \<Rightarrow> E' x (entries d') | Inr x \<Rightarrow> Q' x (entries d'))" using I by blast
qed

lemma wp_pure [wp_rules]: "Q x es \<Longrightarrow> wp I (io_pure x) Q E es"
  by (simp add: wp_def io_pure_def)

lemma wp_raise [wp_rules]: "E e es \<Longrightarrow> wp I (io_raise e) Q E es"
  by (simp add: wp_def io_raise_def)

lemma wp_read [wp_rules]: "Q (f es) es \<Longrightarrow> wp I (io_read f) Q E es"
  by (simp add: wp_def io_read_def)

lemma wp_entries: "wp I (F es) Q E es \<Longrightarrow> wp I (\<lambda>d. F (entries d) d) Q E es"
  unfolding wp_def by auto

lemma wp_sequence:
  assumes m: "wp I m (\<lambda>x. wp I (f x) Q E) (\<lambda>x. wp I (g x) Q E) es"
    and c: "\<And>d. c d = (case m d of (Inl e, d') \<Rightarrow> g e d' | (Inr x, d') \<Rightarrow> f x d')"
  shows "wp I c Q E es"
proof (rule wpI)
  fix d :: disk assume d: "entries d = es"
  obtain r d1 new1 where m: "m d = (r, d1)" "trail d1 = trail d @ new1" "\<forall>e \<in> set new1. I e"
    "case r of Inl x \<Rightarrow> wp I (g x) Q E (entries d1) | Inr x \<Rightarrow> wp I (f x) Q E (entries d1)" by (rule wpE[OF m d])
  define k where "k = (case r of Inl x \<Rightarrow> g x | Inr x \<Rightarrow> f x)"
  have k: "c d = k d1" "wp I k Q E (entries d1)" using m by (auto simp: c k_def split: sum.splits)
  obtain r2 d2 new2 where "k d1 = (r2, d2)" "trail d2 = trail d1 @ new2" "\<forall>e \<in> set new2. I e"
    "case r2 of Inl x \<Rightarrow> E x (entries d2) | Inr x \<Rightarrow> Q x (entries d2)" by (rule wpE[OF k(2) refl])
  then show "\<exists>r d' new. c d = (r, d') \<and> trail d' = trail d @ new \<and> (\<forall>e \<in> set new. I e) \<and>
        (case r of Inl x \<Rightarrow> E x (entries d') | Inr x \<Rightarrow> Q x (entries d'))"
    using m k(1) by (intro exI[of _ r2] exI[of _ d2] exI[of _ "new1 @ new2"]) auto
qed

lemma wp_then [wp_rules]: "wp I m (\<lambda>x. wp I (f x) Q E) E es \<Longrightarrow> wp I (io_then m f) Q E es"
  by (rule wp_sequence[of I m f Q E io_raise], rule wp_mono, assumption) (auto intro: wp_raise simp: io_then_def io_raise_def split: prod.splits sum.splits)

lemma wp_or_clean_up [wp_rules]:
  "wp I m Q (\<lambda>e. wp I handler (\<lambda>_. E e) E) es \<Longrightarrow> wp I (or_clean_up m handler) Q E es"
  by (rule wp_sequence[of I m io_pure Q E "\<lambda>e. io_then handler (\<lambda>_. io_raise e)"], rule wp_mono, assumption)
    (auto intro!: wp_pure wp_then intro: wp_mono wp_raise simp: or_clean_up_def io_pure_def split: prod.splits sum.splits)

lemma wp_logged [wp_rules]: "wp I m Q (\<lambda>_. Q ()) es \<Longrightarrow> wp I (logged m) Q E es"
  by (rule wp_sequence[of I m "\<lambda>_. io_pure ()" Q E "\<lambda>_. io_pure ()"], rule wp_mono, assumption)
    (auto intro: wp_pure simp: logged_def io_pure_def split: prod.splits sum.splits)

definition faulty :: "environment \<Rightarrow> bool" where
  "faulty env \<longleftrightarrow> (\<exists>t. fails env t)"

lemma wp_step:
  assumes "faulty env \<Longrightarrow> E OsFailure es" "\<And>e. change es = Inl e \<Longrightarrow> E e es" "\<And>es'. change es = Inr es' \<Longrightarrow> I es' \<and> Q () es'"
  shows "wp I (io_step env change) Q E es"
proof (rule wpI)
  fix d :: disk assume d: "entries d = es"
  show "\<exists>r d' new. io_step env change d = (r, d') \<and> trail d' = trail d @ new \<and> (\<forall>e \<in> set new. I e) \<and>
        (case r of Inl x \<Rightarrow> E x (entries d') | Inr x \<Rightarrow> Q x (entries d'))"
    using assms d by (cases "change es") (auto simp: io_step_def faulty_def)
qed

lemma wp_when [wp_rules]: "(b \<Longrightarrow> wp I m Q E es) \<Longrightarrow> (\<not> b \<Longrightarrow> Q () es) \<Longrightarrow> wp I (io_when b m) Q E es"
  by (auto simp: io_when_def intro: wp_pure)

lemma wp_then_pure [wp_rules]: "wp I m (\<lambda>_. Q y) E es \<Longrightarrow> wp I (io_then m (\<lambda>_. io_pure y)) Q E es"
  by (rule wp_then, rule wp_mono, assumption) (auto intro: wp_pure)

lemma wp_conj:
  assumes "wp I m Q E es" "wp I' m Q' E' es"
  shows "wp I m (\<lambda>x e. Q x e \<and> Q' x e) (\<lambda>x e. E x e \<and> E' x e) es"
proof (rule wpI)
  fix d :: disk assume d: "entries d = es"
  obtain r d' new where h: "m d = (r, d')" "trail d' = trail d @ new" "\<forall>e \<in> set new. I e"
    "case r of Inl x \<Rightarrow> E x (entries d') | Inr x \<Rightarrow> Q x (entries d')" by (rule wpE[OF assms(1) d])
  moreover have "case r of Inl x \<Rightarrow> E' x (entries d') | Inr x \<Rightarrow> Q' x (entries d')" by (rule wpE[OF assms(2) d]) (simp add: h(1))
  ultimately show "\<exists>r d' new. m d = (r, d') \<and> trail d' = trail d @ new \<and> (\<forall>e \<in> set new. I e) \<and>
        (case r of Inl x \<Rightarrow> E x (entries d') \<and> E' x (entries d') | Inr x \<Rightarrow> Q x (entries d') \<and> Q' x (entries d'))"
    by (cases r) auto
qed

lemma wp_fold:
  assumes "J xs s es" "\<And>s es. J [] s es \<Longrightarrow> Q s es"
    and "\<And>x xs s es. J (x # xs) s es \<Longrightarrow> wp I (f x s) (J xs) E es"
  shows "wp I (io_fold f xs s) Q E es"
  using assms(1)
proof (induction xs arbitrary: s es)
  case Nil
  then show ?case by (auto intro: wp_pure assms(2))
next
  case (Cons x xs)
  show ?case unfolding io_fold.simps
    by (rule wp_then, rule wp_mono[OF assms(3)[OF Cons.prems]]) (auto intro: Cons.IH)
qed

end
