(* ===== verification/Commit_Safety.thy ===== *)
theory Commit_Safety
  imports Commit_View Step_Logic
begin

text \<open>
  Commits are atomic: every step of writing, committing, recovering and cleaning up keeps the view of
  every name, but for the one step of a commit that swaps the link.  So a crash after any step, or a
  failure at any step, leaves the name at what it was or at the new directory, and recovery changes
  nothing that is visible.
\<close>

section \<open>What the calls do to the map of entries\<close>

definition stable :: "(string \<Rightarrow> view) \<Rightarrow> root_dir \<Rightarrow> bool" where
  "stable V es \<longleftrightarrow> root_ok es \<and> (\<forall>n. user_name n \<longrightarrow> view es n = V n)"

lemma stable_same: "stable V es \<Longrightarrow> same_view es es' \<Longrightarrow> stable V es'"
  by (simp add: stable_def same_view_def)

lemma stable_ok: "stable V es \<Longrightarrow> root_ok es"
  by (simp add: stable_def)

lemma unlink_at_Inr:
  "unlink_at k es = Inr es' \<Longrightarrow> map_of es' = (map_of es)(k := None) \<and> (dict_ok es \<longrightarrow> dict_ok es') \<and>
     map_of es k \<noteq> None \<and> (\<forall>f. map_of es k \<noteq> Some (Folder f))"
  by (auto simp: unlink_at_def dict_simps split: option.splits entry.splits)

lemma symlink_at_Inr:
  "symlink_at k t es = Inr es' \<Longrightarrow> map_of es' = (map_of es)(k \<mapsto> Symlink t) \<and> (dict_ok es \<longrightarrow> dict_ok es') \<and> map_of es k = None"
  by (auto simp: symlink_at_def lexists_def dict_simps split: if_splits)

lemma mkdir_at_Inr:
  "mkdir_at k es = Inr es' \<Longrightarrow> map_of es' = (map_of es)(k \<mapsto> Folder []) \<and> (dict_ok es \<longrightarrow> dict_ok es') \<and> map_of es k = None"
  by (auto simp: mkdir_at_def lexists_def dict_simps split: if_splits)

lemma rename_at_Inr:
  "rename_at src dst es = Inr es' \<Longrightarrow> src \<noteq> dst \<Longrightarrow>
     \<exists>e. map_of es src = Some e \<and> map_of es' = (map_of es)(src := None, dst \<mapsto> e) \<and> (dict_ok es \<longrightarrow> dict_ok es')"
  by (auto simp: rename_at_def Let_def dict_simps split: option.splits entry.splits if_splits)

lemma is_plain_folder_iff: "is_plain_folder es k \<longleftrightarrow> (\<exists>f. map_of es k = Some (Folder f))"
  by (auto simp: is_plain_folder_def split: option.splits entry.splits)

lemma set_folder_Inr:
  "set_folder k f es = Inr es' \<Longrightarrow> map_of es' = (map_of es)(k \<mapsto> Folder f) \<and> (dict_ok es \<longrightarrow> dict_ok es')"
  by (auto simp: set_folder_def dict_simps split: if_splits)

lemma thin_out_Inr:
  "thin_out env k d es = Inr es' \<Longrightarrow> \<exists>f. map_of es' = (map_of es)(k \<mapsto> Folder f) \<and> (dict_ok es \<longrightarrow> dict_ok es')"
  by (auto simp: thin_out_def dict_simps split: option.splits entry.splits)

lemma remove_folder_Inr:
  "remove_folder k es = Inr es' \<Longrightarrow> map_of es' = (map_of es)(k := None) \<and> (dict_ok es \<longrightarrow> dict_ok es')"
  by (auto simp: remove_folder_def dict_simps split: if_splits)

lemma link_target_iff [simp]: "link_target es k = Some t \<longleftrightarrow> map_of es k = Some (Symlink t)"
  by (auto simp: link_target_def split: option.splits entry.splits)

lemma link_target_None: "link_target es k = None \<longleftrightarrow> (\<forall>t. map_of es k \<noteq> Some (Symlink t))"
  by (metis link_target_iff not_Some_eq)

lemma path_exists_committed:
  assumes "root_ok es" "internal_entry p = Some (n, Committed)"
  shows "path_exists env es (Sibling p) \<longleftrightarrow> (\<exists>f. map_of es p = Some (Folder f))"
    "folder_at env es (Sibling p) = folder_of es p" "map_of es p \<noteq> None \<longleftrightarrow> (\<exists>f. map_of es p = Some (Folder f))"
  using root_ok_internal(3)[OF assms(1) _ assms(2)]
  by (auto simp: path_exists_def folder_at_def folder_of_def eval_nat_numeral split: option.splits entry.splits)

section \<open>Removing directories\<close>

text \<open>
  \<open>tidier keep es es'\<close>: what recovery may do to a root, as far as a commit depends on it.  Links are
  removed or become the links of names, none of the library's entries appears and the directory kept
  stays as it is.
\<close>

definition tidier :: "string option \<Rightarrow> root_dir \<Rightarrow> root_dir \<Rightarrow> bool" where
  "tidier keep es es' \<longleftrightarrow>
     (\<forall>k t. map_of es' k = Some (Symlink t) \<longrightarrow> map_of es k = Some (Symlink t) \<or>
        (user_name k \<and> (\<exists>a. internal_entry a = Some (k, Adopting) \<and> map_of es a = Some (Symlink t)))) \<and>
     (\<forall>k. internal_entry k \<noteq> None \<longrightarrow> map_of es k = None \<longrightarrow> map_of es' k = None) \<and>
     (\<forall>k f. Some k = keep \<longrightarrow> map_of es k = Some (Folder f) \<longrightarrow> map_of es' k = Some (Folder f))"

definition kept_by_tidying :: "string option \<Rightarrow> (root_dir \<Rightarrow> bool) \<Rightarrow> bool" where
  "kept_by_tidying keep J \<longleftrightarrow> (\<forall>es es'. root_ok es \<longrightarrow> tidier keep es es' \<longrightarrow> J es \<longrightarrow> J es')"

lemma kept_by_tidyingD: "kept_by_tidying keep J \<Longrightarrow> root_ok es \<Longrightarrow> J es \<Longrightarrow> tidier keep es es' \<Longrightarrow> J es'"
  by (auto simp: kept_by_tidying_def)

lemma rmtree_wp:
  assumes "stable V es" "free_dir es p" "J es"
    and step: "\<And>es es' x. J es \<Longrightarrow> stable V es \<Longrightarrow> x = None \<or> (map_of es p \<noteq> None \<and> (\<exists>f. x = Some (Folder f))) \<Longrightarrow>
        map_of es' = (map_of es)(p := x) \<Longrightarrow> J es'"
    and Q: "\<And>es. stable V es \<Longrightarrow> J es \<Longrightarrow> Q () es"
  shows "wp (stable V) (rmtree env p) Q E es"
proof -
  have change: "stable V es' \<and> free_dir es' p \<and> J es'"
    if "stable V es" "free_dir es p" "J es" "map_of es' = (map_of es)(p := x) \<and> (dict_ok es \<longrightarrow> dict_ok es')"
      "x = None \<or> (map_of es p \<noteq> None \<and> (\<exists>f. x = Some (Folder f)))" for es es' x
  proof -
    have d: "dict_ok es'" using that(1,4) root_okD(1)[OF stable_ok] by blast
    have "x = None \<or> (\<exists>f. x = Some (Folder f))" using that(5) by blast
    note ch = free_dir_change[OF stable_ok[OF that(1)] that(2) d conjunct1[OF that(4)] this]
    show ?thesis using ch step[OF that(3,1,5)] that(4) stable_same[OF that(1)] by blast
  qed
  have thin: "stable V es' \<and> free_dir es' p \<and> J es'"
    if "thin_out env p d es = Inr es'" for es' d
  proof -
    have "map_of es p \<noteq> None" using that by (auto simp: thin_out_def split: option.splits)
    then show ?thesis using thin_out_Inr[OF that] change[OF assms(1-3)] by blast
  qed
  have removed: "stable V es2 \<and> J es2" if "remove_folder p es1 = Inr es2" "stable V es1 \<and> free_dir es1 p \<and> J es1" for es1 es2
    using remove_folder_Inr[OF that(1)] change[of es1 es2 None] that(2) by blast
  have first: "wp (stable V) (\<lambda>d. io_step env (thin_out env p d) d) (\<lambda>_ es. stable V es \<and> free_dir es p \<and> J es)
      (\<lambda>_ es. stable V es \<and> J es) es"
    unfolding wp_def
  proof (intro allI impI)
    fix d :: disk assume d: "entries d = es"
    have "wp (stable V) (io_step env (thin_out env p d)) (\<lambda>_ es. stable V es \<and> free_dir es p \<and> J es) (\<lambda>_ es. stable V es \<and> J es) es"
      using assms(1,3) thin by (intro wp_step) auto
    then show "\<exists>r d' new. io_step env (thin_out env p d) d = (r, d') \<and> trail d' = trail d @ new \<and> (\<forall>e \<in> set new. stable V e) \<and>
        (case r of Inl x \<Rightarrow> stable V (entries d') \<and> J (entries d') | Inr x \<Rightarrow> stable V (entries d') \<and> free_dir (entries d') p \<and> J (entries d'))"
      by (rule wpE[OF _ d]) auto
  qed
  show ?thesis
    unfolding rmtree_def
    by (intro wp_logged wp_then, rule wp_mono[OF first])
      (use Q removed in \<open>auto intro!: wp_step\<close>)
qed

section \<open>The first loop of recovery\<close>

text \<open>
  The state of the loop when \<open>rest\<close> is still to be visited: names and what they stand for are as at the
  start, unfinished entries of the selected names are still to be visited, and every directory a visited
  name needs is collected.
\<close>

record scan_context =
  sc_name :: "string option"
  sc_view :: "string \<Rightarrow> view"
  sc_extra :: "root_dir \<Rightarrow> bool"

definition unfinished_in :: "scan_context \<Rightarrow> string list \<Rightarrow> root_dir \<Rightarrow> bool" where
  "unfinished_in c rest es \<longleftrightarrow> (\<forall>k own en. internal_entry k = Some (own, en) \<longrightarrow> en = Adopting \<or> en = Staging \<longrightarrow>
     selected (sc_name c) own \<longrightarrow> map_of es k \<noteq> None \<longrightarrow> k \<in> set rest)"

definition needed_in :: "scan_context \<Rightarrow> string list \<Rightarrow> string list \<Rightarrow> root_dir \<Rightarrow> bool" where
  "needed_in c rest referenced es \<longleftrightarrow>
     (\<forall>n p. user_name n \<longrightarrow> map_of es n = Some (Symlink (Sibling p)) \<longrightarrow> internal_entry p = Some (n, Committed) \<longrightarrow>
        n \<in> set rest \<or> (if map_of es p = None then \<not> selected (sc_name c) n else p \<in> set referenced))"

definition linked_from :: "string list \<Rightarrow> string list \<Rightarrow> root_dir \<Rightarrow> bool" where
  "linked_from rest referenced es \<longleftrightarrow>
     (\<forall>p \<in> set referenced. \<exists>k t. k \<notin> set rest \<and> internal_entry k = None \<and> map_of es k = Some (Symlink t) \<and> base_name t = p)"

definition scan_inv :: "scan_context \<Rightarrow> string list \<Rightarrow> string list \<Rightarrow> root_dir \<Rightarrow> bool" where
  "scan_inv c rest referenced es \<longleftrightarrow>
     stable (sc_view c) es \<and> sc_extra c es \<and> distinct rest \<and> (\<forall>k n. adopts es k n \<longrightarrow> n \<notin> set rest) \<and>
     unfinished_in c rest es \<and> needed_in c rest referenced es \<and> linked_from rest referenced es"

lemma scan_invD:
  assumes "scan_inv c rest referenced es"
  shows "stable (sc_view c) es" "sc_extra c es" "distinct rest" "\<And>k n. adopts es k n \<Longrightarrow> n \<notin> set rest"
    "unfinished_in c rest es" "needed_in c rest referenced es" "linked_from rest referenced es" "root_ok es"
  using assms by (auto simp: scan_inv_def stable_def)

lemma scan_invI:
  assumes "stable (sc_view c) es" "sc_extra c es" "distinct rest" "\<And>k n. adopts es k n \<Longrightarrow> n \<notin> set rest"
    "unfinished_in c rest es" "needed_in c rest referenced es" "linked_from rest referenced es"
  shows "scan_inv c rest referenced es"
  using assms by (simp add: scan_inv_def)

lemma scan_start:
  assumes "stable V es" "J es"
  shows "scan_inv \<lparr>sc_name = name, sc_view = V, sc_extra = J\<rparr> (map fst es) [] es" (is "scan_inv ?c _ _ _")
proof (rule scan_invI)
  show "n \<notin> set (map fst es)" if "adopts es k n" for k n
    using root_okD(3)[OF stable_ok[OF assms(1)] that] by (simp add: map_of_None_fst)
  show "unfinished_in ?c (map fst es) es" unfolding unfinished_in_def by (intro allI impI map_of_present)
  show "needed_in ?c (map fst es) [] es"
    unfolding needed_in_def by (intro allI impI disjI1 map_of_present) simp
qed (use assms root_okD(1)[OF stable_ok[OF assms(1)]] in \<open>auto simp: linked_from_def\<close>)

lemma tidier_unlink:
  assumes "map_of es' = (map_of es)(k := None)" "\<And>f. map_of es k \<noteq> Some (Folder f)"
  shows "tidier keep es es'"
  using assms by (auto simp: tidier_def)

lemma scan_drop:
  assumes inv: "scan_inv c (x # xs) referenced es" and same: "same_view es es'" and extra: "sc_extra c es'"
    and m: "map_of es' = (map_of es)(x := None)" and link: "map_of es x = Some (Symlink t)"
  shows "scan_inv c xs referenced es'"
proof (rule scan_invI)
  have nofolder: "x \<noteq> p" if "internal_entry p = Some (n, Committed)" for n p
    using root_ok_internal(3)[OF scan_invD(8)[OF inv] link] that by blast
  show "stable (sc_view c) es'" by (rule stable_same[OF scan_invD(1)[OF inv] same])
  show "sc_extra c es'" by (rule extra)
  show "distinct xs" using scan_invD(3)[OF inv] by simp
  show "n \<notin> set xs" if "adopts es' k n" for k n
  proof -
    have "adopts es k n" using that by (auto simp: adopts_def adoptee_Some_iff m split: if_splits)
    then show ?thesis using scan_invD(4)[OF inv] by auto
  qed
  show "linked_from xs referenced es'"
    unfolding linked_from_def
  proof
    fix p assume "p \<in> set referenced"
    then obtain k t where "k \<notin> set (x # xs)" "internal_entry k = None" "map_of es k = Some (Symlink t)" "base_name t = p"
      using scan_invD(7)[OF inv] unfolding linked_from_def by blast
    then show "\<exists>k t. k \<notin> set xs \<and> internal_entry k = None \<and> map_of es' k = Some (Symlink t) \<and> base_name t = p"
      by (intro exI[of _ k] exI[of _ t]) (auto simp: m)
  qed
  show "needed_in c xs referenced es'"
    unfolding needed_in_def
  proof (intro allI impI)
    fix n p assume n: "user_name n" "map_of es' n = Some (Symlink (Sibling p))" "internal_entry p = Some (n, Committed)"
    then have n': "n \<noteq> x" "map_of es n = Some (Symlink (Sibling p))" by (auto simp: m split: if_splits)
    have "n \<in> set (x # xs) \<or> (if map_of es p = None then \<not> selected (sc_name c) n else p \<in> set referenced)"
      using scan_invD(6)[OF inv] n(1,3) n'(2) unfolding needed_in_def by blast
    then show "n \<in> set xs \<or> (if map_of es' p = None then \<not> selected (sc_name c) n else p \<in> set referenced)"
      using n'(1) nofolder[OF n(3)] by (simp add: m)
  qed
  show "unfinished_in c xs es'"
    unfolding unfinished_in_def
  proof (intro allI impI)
    fix k own en assume k: "internal_entry k = Some (own, en)" "en = Adopting \<or> en = Staging" "selected (sc_name c) own" "map_of es' k \<noteq> None"
    then have "k \<noteq> x" "map_of es k \<noteq> None" by (auto simp: m split: if_splits)
    moreover have "k \<in> set (x # xs)" using scan_invD(5)[OF inv] k(1-3) calculation(2) unfolding unfinished_in_def by blast
    ultimately show "k \<in> set xs" by simp
  qed
qed

lemma scan_skip:
  assumes inv: "scan_inv c (x # xs) referenced es"
    and unfinished: "\<And>own en. internal_entry x = Some (own, en) \<Longrightarrow> en = Adopting \<or> en = Staging \<Longrightarrow> map_of es x \<noteq> None \<Longrightarrow> \<not> selected (sc_name c) own"
    and needed: "\<And>p. user_name x \<Longrightarrow> map_of es x = Some (Symlink (Sibling p)) \<Longrightarrow> internal_entry p = Some (x, Committed) \<Longrightarrow>
        (if map_of es p = None then \<not> selected (sc_name c) x else p \<in> set referenced')"
    and grows: "set referenced \<subseteq> set referenced'"
    and new: "\<And>p. p \<in> set referenced' \<Longrightarrow> p \<notin> set referenced \<Longrightarrow> \<exists>t. internal_entry x = None \<and> map_of es x = Some (Symlink t) \<and> base_name t = p"
  shows "scan_inv c xs referenced' es"
proof (rule scan_invI)
  have dist: "x \<notin> set xs" "distinct xs" using scan_invD(3)[OF inv] by auto
  show "linked_from xs referenced' es"
    unfolding linked_from_def
  proof
    fix p assume p: "p \<in> set referenced'"
    show "\<exists>k t. k \<notin> set xs \<and> internal_entry k = None \<and> map_of es k = Some (Symlink t) \<and> base_name t = p"
    proof (cases "p \<in> set referenced")
      case True
      then obtain k t where "k \<notin> set (x # xs)" "internal_entry k = None" "map_of es k = Some (Symlink t)" "base_name t = p"
        using scan_invD(7)[OF inv] unfolding linked_from_def by blast
      then show ?thesis by (intro exI[of _ k] exI[of _ t]) auto
    next
      case False
      then show ?thesis using new[OF p False] dist(1) by blast
    qed
  qed
  show "needed_in c xs referenced' es"
    unfolding needed_in_def
  proof (intro allI impI)
    fix n p assume n: "user_name n" "map_of es n = Some (Symlink (Sibling p))" "internal_entry p = Some (n, Committed)"
    show "n \<in> set xs \<or> (if map_of es p = None then \<not> selected (sc_name c) n else p \<in> set referenced')"
    proof (cases "n = x")
      case True
      then show ?thesis using needed[of p] n by simp
    next
      case False
      have "n \<in> set (x # xs) \<or> (if map_of es p = None then \<not> selected (sc_name c) n else p \<in> set referenced)"
        using scan_invD(6)[OF inv] n unfolding needed_in_def by blast
      then show ?thesis using False grows by (cases "map_of es p = None") auto
    qed
  qed
  show "unfinished_in c xs es"
    unfolding unfinished_in_def
  proof (intro allI impI)
    fix k own en assume k: "internal_entry k = Some (own, en)" "en = Adopting \<or> en = Staging" "selected (sc_name c) own" "map_of es k \<noteq> None"
    then have "k \<in> set (x # xs)" using scan_invD(5)[OF inv] unfolding unfinished_in_def by blast
    moreover have "k \<noteq> x" using unfinished k by blast
    ultimately show "k \<in> set xs" by simp
  qed
  show "n \<notin> set xs" if "adopts es k n" for k n using scan_invD(4)[OF inv that] by simp
  show "distinct xs" by (rule dist)
qed (rule scan_invD[OF inv])+

lemma scan_adopt:
  assumes inv: "scan_inv c (x # xs) referenced es" and same: "same_view es es'" and extra: "sc_extra c es'"
    and x: "adopts es x own" "map_of es x = Some (Symlink (Sibling t))"
    and m: "map_of es' = (map_of es)(x := None, own \<mapsto> Symlink (Sibling t))"
  shows "scan_inv c xs (referenced @ [t]) es'"
proof (rule scan_invI)
  note ok = scan_invD(8)[OF inv]
  have ix: "internal_entry x = Some (own, Adopting)" using x(1) by (simp add: adopts_def)
  have own: "user_name own" "map_of es own = None" "own \<notin> set (x # xs)"
    using adopts_user[OF ok x(1)] root_okD(3)[OF ok x(1)] scan_invD(4)[OF inv x(1)] by auto
  have xo: "x \<noteq> own" using own(1) ix by auto
  have t: "\<exists>f. map_of es t = Some (Folder f)" "internal_entry t = Some (own, Committed)"
    using x root_ok_internal(4)[OF ok x(2) ix] by (auto simp: adopts_def adoptee_Some_iff)
  have other: "map_of es' p = map_of es p" if "internal_entry p = Some (n, e)" "p \<noteq> x" for n p e
    using that own(1) by (auto simp: m)
  show "stable (sc_view c) es'" by (rule stable_same[OF scan_invD(1)[OF inv] same])
  show "sc_extra c es'" by (rule extra)
  show "distinct xs" using scan_invD(3)[OF inv] by simp
  show "n \<notin> set xs" if a: "adopts es' k n" for k n
  proof -
    have "k \<noteq> x" "internal_entry k = Some (n, Adopting)" using a xo by (auto simp: adopts_def adoptee_def m)
    moreover obtain q f where "map_of es' k = Some (Symlink (Sibling q))" "map_of es' q = Some (Folder f)"
      using a by (auto simp: adopts_def adoptee_Some_iff)
    ultimately have "adopts es k n" using other by (auto simp: adopts_def adoptee_Some_iff m split: if_splits)
    then show ?thesis using scan_invD(4)[OF inv] by auto
  qed
  show "linked_from xs (referenced @ [t]) es'"
    unfolding linked_from_def
  proof
    fix p assume p: "p \<in> set (referenced @ [t])"
    show "\<exists>k u. k \<notin> set xs \<and> internal_entry k = None \<and> map_of es' k = Some (Symlink u) \<and> base_name u = p"
    proof (cases "p \<in> set referenced")
      case True
      then obtain k u where k: "k \<notin> set (x # xs)" "internal_entry k = None" "map_of es k = Some (Symlink u)" "base_name u = p"
        using scan_invD(7)[OF inv] unfolding linked_from_def by blast
      then have "k \<noteq> own" using own(2) by auto
      then show ?thesis using k by (intro exI[of _ k] exI[of _ u]) (auto simp: m)
    next
      case False
      then show ?thesis using own p by (intro exI[of _ own] exI[of _ "Sibling t"]) (auto simp: m)
    qed
  qed
  show "needed_in c xs (referenced @ [t]) es'"
    unfolding needed_in_def
  proof (intro allI impI)
    fix n p assume n: "user_name n" "map_of es' n = Some (Symlink (Sibling p))" "internal_entry p = Some (n, Committed)"
    have p: "map_of es' p = map_of es p" using other[OF n(3)] n(3) ix by (cases "p = x") simp_all
    show "n \<in> set xs \<or> (if map_of es' p = None then \<not> selected (sc_name c) n else p \<in> set (referenced @ [t]))"
    proof (cases "n = own")
      case True
      then have "p = t" using n(2) by (simp add: m)
      then show ?thesis using t(1) p by auto
    next
      case False
      then have n': "n \<noteq> x" "map_of es n = Some (Symlink (Sibling p))" using n(2) by (auto simp: m split: if_splits)
      have "n \<in> set (x # xs) \<or> (if map_of es p = None then \<not> selected (sc_name c) n else p \<in> set referenced)"
        using scan_invD(6)[OF inv] n(1,3) n'(2) unfolding needed_in_def by blast
      then show ?thesis using n'(1) p by (cases "map_of es p = None") auto
    qed
  qed
  show "unfinished_in c xs es'"
    unfolding unfinished_in_def
  proof (intro allI impI)
    fix k own' en assume k: "internal_entry k = Some (own', en)" "en = Adopting \<or> en = Staging" "selected (sc_name c) own'" "map_of es' k \<noteq> None"
    have "k \<noteq> x"
    proof
      assume "k = x"
      then show False using k(4) xo by (simp add: m)
    qed
    moreover have "k \<in> set (x # xs)"
      using scan_invD(5)[OF inv] k other[OF k(1) calculation] unfolding unfinished_in_def by metis
    ultimately show "k \<in> set xs" by simp
  qed
qed

lemma unlink_step_wp:
  assumes st: "stable V es" and J: "J es" and x: "map_of es x = Some (Symlink t)" and kept: "kept_by_tidying keep J"
    and same: "\<And>es'. dict_ok es' \<Longrightarrow> map_of es' = (map_of es)(x := None) \<Longrightarrow> same_view es es'"
    and post: "\<And>es'. same_view es es' \<Longrightarrow> J es' \<Longrightarrow> map_of es' = (map_of es)(x := None) \<Longrightarrow> Q () es'"
  shows "wp (stable V) (io_step env (unlink_at x)) Q (\<lambda>_ es. faulty env \<and> stable V es \<and> J es) es"
proof (rule wp_step)
  fix es' assume u: "unlink_at x es = Inr es'"
  have m: "map_of es' = (map_of es)(x := None)" "dict_ok es'" using unlink_at_Inr[OF u] root_okD(1)[OF stable_ok[OF st]] by blast+
  have "tidier keep es es'" by (rule tidier_unlink[OF m(1)]) (use x in simp)
  then have "J es'" by (rule kept_by_tidyingD[OF kept stable_ok[OF st] J])
  then show "stable V es' \<and> Q () es'" using post same m stable_same[OF st] by blast
qed (use st J x in \<open>auto simp: unlink_at_def\<close>)

lemma unlink_other:
  assumes ok: "root_ok es" and x: "internal_entry x = None" "\<not> user_name x" and d: "dict_ok es'"
    and m: "map_of es' = (map_of es)(x := None)"
  shows "same_view es es'"
proof -
  have adoptee: "adoptee es' k = adoptee es k" if "internal_entry k = Some (n, Adopting)" for k n
    using that x by (intro adoptee_area[OF ok]) (auto simp: m)
  have ok': "root_ok es'"
  proof (rule root_ok_cong[OF ok d])
    show "adopts es k n \<and> map_of es' n = None" if "adopts es' k n" for k n
      using that adoptee root_okD(3)[OF ok, of k n] by (auto simp: adopts_def m)
  qed (auto simp: m split: if_splits)
  have "view es' n = view es n" if "user_name n" for n
    using that x adoptee by (intro view_cong[OF ok ok']) (auto simp: m folder_of_def)
  then show ?thesis using ok' by (simp add: same_view_def)
qed

lemma scan_link_wp:
  assumes inv: "scan_inv c (x # xs) referenced es" and kept: "kept_by_tidying keep (sc_extra c)"
  shows "wp (stable (sc_view c)) (scan_link env (sc_name c) x referenced) (scan_inv c xs)
           (\<lambda>_ es. faulty env \<and> stable (sc_view c) es \<and> sc_extra c es) es"
proof -
  note ok = scan_invD(8)[OF inv] and st = scan_invD(1)[OF inv] and J = scan_invD(2)[OF inv]
  show ?thesis
    unfolding scan_link_def
  proof (rule wp_then, rule wp_read, unfold id_apply)
    show "wp (stable (sc_view c)) (case link_target es x of
       None \<Rightarrow> io_pure referenced
     | Some t \<Rightarrow> (case internal_entry x of
         Some (own, Adopting) \<Rightarrow>
           if \<not> selected (sc_name c) own then io_pure referenced
           else if path_exists env es t \<and> \<not> lexists es own
           then io_then (io_step env (rename_at x own)) (\<lambda>_. io_pure (referenced @ [base_name t]))
           else io_then (io_step env (unlink_at x)) (\<lambda>_. io_pure referenced)
       | Some (own, Staging) \<Rightarrow>
           io_then (io_when (selected (sc_name c) own) (io_step env (unlink_at x))) (\<lambda>_. io_pure referenced)
       | _ \<Rightarrow>
           if path_exists env es t then io_pure (referenced @ [base_name t])
           else io_then (io_when (selected (sc_name c) x \<and> is_library_dir x t) (io_step env (unlink_at x))) (\<lambda>_. io_pure referenced)))
       (scan_inv c xs) (\<lambda>_ es. faulty env \<and> stable (sc_view c) es \<and> sc_extra c es) es"
    proof (cases "link_target es x")
      case None
      then have none: "map_of es x \<noteq> Some (Symlink t)" for t by (simp add: link_target_None)
      have "scan_inv c xs referenced es"
      proof (rule scan_skip[OF inv])
        fix own en assume x: "internal_entry x = Some (own, en)" "en = Adopting \<or> en = Staging" "map_of es x \<noteq> None"
        then show "\<not> selected (sc_name c) own" using root_ok_internal(4,5)[OF ok _ x(1)] none by blast
      qed (use none in auto)
      then show ?thesis by (simp add: None wp_pure)
    next
      case (Some t)
      then have x: "map_of es x = Some (Symlink t)" and lt: "link_target es x = Some t" by simp_all
      show ?thesis
      proof (cases "internal_entry x")
        case None
        have drop: "wp (stable (sc_view c)) (io_step env (unlink_at x)) (\<lambda>_. scan_inv c xs referenced) (\<lambda>_ es. faulty env \<and> stable (sc_view c) es \<and> sc_extra c es) es"
          if lib: "is_library_dir x t" and gone: "\<not> path_exists env es t"
        proof -
          obtain p where p: "t = Sibling p" "internal_entry p = Some (x, Committed)" using lib by (auto simp: library_target)
          have "folder_of es p = None"
            using gone path_exists_committed(1)[OF ok p(2)] p(1) by (metis folder_of_Some option.exhaust)
          then have "same_view es es'" if "dict_ok es'" "map_of es' = (map_of es)(x := None)" for es'
            using that unlink_dangling[OF ok _ x[unfolded p(1)] p(2)] unlink_other[OF ok None] by blast
          then show ?thesis
            using scan_drop[OF inv _ _ _ x] by (intro unlink_step_wp[OF st J x kept]) auto
        qed
        have visit: "scan_inv c xs (referenced @ [base_name t]) es" if "path_exists env es t"
        proof (rule scan_skip[OF inv])
          fix p assume "map_of es x = Some (Symlink (Sibling p))" "internal_entry p = Some (x, Committed)"
          then show "if map_of es p = None then \<not> selected (sc_name c) x else p \<in> set (referenced @ [base_name t])"
            using that path_exists_committed(1)[OF ok, of p x env] x by auto
        qed (use None x in auto)
        have ignore: "scan_inv c xs referenced es" if "\<not> path_exists env es t" "\<not> (selected (sc_name c) x \<and> is_library_dir x t)"
        proof (rule scan_skip[OF inv])
          fix p assume "map_of es x = Some (Symlink (Sibling p))" and p: "internal_entry p = Some (x, Committed)"
          then have "t = Sibling p" using x by simp
          then show "if map_of es p = None then \<not> selected (sc_name c) x else p \<in> set referenced"
            using that path_exists_committed(1,3)[OF ok p] p by (auto simp: library_target)
        qed (use None in auto)
        show ?thesis
          unfolding lt None option.case using visit ignore drop
          by (auto intro!: wp_rules)
      next
        case (Some q)
        obtain own en where q: "internal_entry x = Some (own, en)" using Some by (cases q) simp
        note int = root_ok_internal[OF ok x q]
        have skip: "scan_inv c xs referenced es" if "\<not> selected (sc_name c) own"
          by (rule scan_skip[OF inv]) (use q that in auto)
        have "en = Adopting \<or> en = Staging" using int(3) by (cases en) auto
        then show ?thesis
        proof
          assume en: "en = Staging"
          have "same_view es es'" if "dict_ok es'" "map_of es' = (map_of es)(x := None)" for es'
            using staging_change[OF ok _ int(1,2) that] q en by blast
          then have "wp (stable (sc_view c)) (io_step env (unlink_at x)) (\<lambda>_. scan_inv c xs referenced) (\<lambda>_ es. faulty env \<and> stable (sc_view c) es \<and> sc_extra c es) es"
            using scan_drop[OF inv _ _ _ x] by (intro unlink_step_wp[OF st J x kept]) auto
          then show ?thesis unfolding lt q option.case prod.case en ending.case using skip by (auto intro!: wp_rules)
        next
          assume en: "en = Adopting"
          obtain t' where t: "t = Sibling t'" "internal_entry t' = Some (own, Committed)" using int(4)[OF en] by auto
          have xo: "x \<noteq> own" using q int(1) by auto
          have live: "adopts es x own \<longleftrightarrow> path_exists env es t"
            using path_exists_committed(1)[OF ok t(2)] q en x t by (auto simp: adopts_def adoptee_def)
          have drop: "wp (stable (sc_view c)) (io_step env (unlink_at x)) (\<lambda>_. scan_inv c xs referenced) (\<lambda>_ es. faulty env \<and> stable (sc_view c) es \<and> sc_extra c es) es"
            if "\<not> (path_exists env es t \<and> \<not> lexists es own)"
          proof -
            have "\<not> adopts es x own" using that live root_okD(3)[OF ok, of x own] by (auto simp: lexists_def)
            then have "adoptee es x = None" using q en by (cases "adoptee es x") (auto simp: adopts_def)
            then have "same_view es es'" if "dict_ok es'" "map_of es' = (map_of es)(x := None)" for es'
              using unlink_adopting[OF ok _ int(1) that] q en by blast
            then show ?thesis using scan_drop[OF inv _ _ _ x] by (intro unlink_step_wp[OF st J x kept]) auto
          qed
          have adopt: "wp (stable (sc_view c)) (io_step env (rename_at x own)) (\<lambda>_. scan_inv c xs (referenced @ [t'])) (\<lambda>_ es. faulty env \<and> stable (sc_view c) es \<and> sc_extra c es) es"
            if "path_exists env es t"
          proof (rule wp_step)
            fix es' assume "rename_at x own es = Inr es'"
            then have m: "map_of es' = (map_of es)(x := None, own \<mapsto> Symlink (Sibling t'))" "dict_ok es'"
              using rename_at_Inr[OF _ xo] x t(1) root_okD(1)[OF ok] by fastforce+
            have a: "adopts es x own" using live that by simp
            have same: "same_view es es'" by (rule finish_adoption[OF ok m(2) a x[unfolded t(1)] m(1)])
            have "tidier keep es es'"
              using x t q en int(1) root_okD(3)[OF ok a] by (auto simp: tidier_def m)
            then have "sc_extra c es'" by (rule kept_by_tidyingD[OF kept ok J])
            then show "stable (sc_view c) es' \<and> scan_inv c xs (referenced @ [t']) es'"
              using scan_adopt[OF inv same _ a x[unfolded t(1)] m(1)] stable_same[OF st same] by blast
          qed (use st J x root_okD(3)[OF ok, of x own] live that in \<open>auto simp: rename_at_def Let_def split: if_splits\<close>)
          show ?thesis unfolding lt q option.case prod.case en ending.case
            using skip drop adopt root_okD(3)[OF ok, of x own] live t(1) by (auto intro!: wp_rules)
        qed
      qed
    qed
  qed
qed

lemma scan_wp:
  assumes "stable V es" "J es" "kept_by_tidying keep J"
  shows "wp (stable V) (io_fold (scan_link env name) (map fst es) []) (scan_inv \<lparr>sc_name = name, sc_view = V, sc_extra = J\<rparr> [])
     (\<lambda>_ es. faulty env \<and> stable V es \<and> J es) es"
  by (rule wp_fold[where J = "scan_inv \<lparr>sc_name = name, sc_view = V, sc_extra = J\<rparr>"], rule scan_start[of V es J, OF assms(1,2)])
    (use scan_link_wp[of "\<lparr>sc_name = name, sc_view = V, sc_extra = J\<rparr>"] assms(3) in auto)

section \<open>The second loop of recovery\<close>

definition settled :: "string option \<Rightarrow> string list \<Rightarrow> root_dir \<Rightarrow> bool" where
  "settled name referenced es \<longleftrightarrow>
     (\<forall>k own en. internal_entry k = Some (own, en) \<longrightarrow> en = Adopting \<or> en = Staging \<longrightarrow> selected name own \<longrightarrow> map_of es k = None) \<and>
     (\<forall>n p. user_name n \<longrightarrow> selected name n \<longrightarrow> map_of es n = Some (Symlink (Sibling p)) \<longrightarrow>
        internal_entry p = Some (n, Committed) \<longrightarrow> p \<in> set referenced \<and> map_of es p \<noteq> None) \<and>
     linked_from [] referenced es"

definition swept :: "string list \<Rightarrow> string list \<Rightarrow> root_dir \<Rightarrow> bool" where
  "swept rest referenced es \<longleftrightarrow> (\<forall>k own en. internal_entry k = Some (own, en) \<longrightarrow> map_of es k \<noteq> None \<longrightarrow> k \<notin> set rest \<longrightarrow>
     en = Committed \<and> k \<in> set referenced)"

lemma scan_settled: "scan_inv c [] referenced es \<Longrightarrow> settled (sc_name c) referenced es"
  unfolding settled_def
proof (intro conjI allI impI)
  fix k own en assume "scan_inv c [] referenced es" "internal_entry k = Some (own, en)" "en = Adopting \<or> en = Staging" "selected (sc_name c) own"
  then show "map_of es k = None" using scan_invD(5) unfolding unfinished_in_def by (metis empty_iff empty_set)
next
  fix n p assume inv: "scan_inv c [] referenced es" and n: "user_name n" "selected (sc_name c) n" "map_of es n = Some (Symlink (Sibling p))" "internal_entry p = Some (n, Committed)"
  have "n \<in> set [] \<or> (if map_of es p = None then \<not> selected (sc_name c) n else p \<in> set referenced)"
    using scan_invD(6)[OF inv] n unfolding needed_in_def by blast
  then show "p \<in> set referenced" "map_of es p \<noteq> None" using n(2) by (cases "map_of es p = None"; simp)+
qed (rule scan_invD)

lemma settled_remove:
  assumes set: "settled name referenced es" and m: "map_of es' = (map_of es)(p := x)" "x = None \<or> (map_of es p \<noteq> None \<and> (\<exists>f. x = Some (Folder f)))"
    "\<And>t. map_of es p \<noteq> Some (Symlink t)" and p: "p \<notin> set referenced \<or> (\<exists>own. internal_entry p = Some (own, Deleting))"
  shows "settled name referenced es'"
proof -
  have link: "map_of es' k = Some (Symlink t) \<longleftrightarrow> map_of es k = Some (Symlink t)" for k t
    using m by auto
  have none: "map_of es k = None \<Longrightarrow> map_of es' k = None" for k using m(1,2) by auto
  have present: "map_of es' q \<noteq> None" if "map_of es q \<noteq> None" "q \<in> set referenced" "internal_entry q = Some (n, Committed)" for q n
    using that p m(1) by (cases "q = p") auto
  show ?thesis using set none present unfolding settled_def linked_from_def link by blast
qed

lemma tidier_remove:
  assumes "map_of es' = (map_of es)(p := x)" "x = None \<or> (map_of es p \<noteq> None \<and> (\<exists>f. x = Some (Folder f)))" "Some p \<noteq> keep"
  shows "tidier keep es es'"
  using assms by (auto simp: tidier_def)

lemma rmtree_absent:
  assumes "map_of es p = None" "Q () es"
  shows "wp I (rmtree env p) Q E es"
  unfolding rmtree_def
proof (rule wp_logged, rule wp_then)
  show "wp I (\<lambda>d. io_step env (thin_out env p d) d) (\<lambda>x. wp I (io_step env (remove_folder p)) Q (\<lambda>_. Q ())) (\<lambda>_. Q ()) es"
    unfolding wp_def using assms by (auto simp: io_step_def thin_out_def)
qed

lemma rmtree_sure:
  assumes "\<not> faulty env" "map_of es p = Some (Folder f)"
  shows "wp (\<lambda>_. True) (rmtree env p) (\<lambda>_ es'. map_of es' = (map_of es)(p := None)) E es"
proof -
  have first: "wp (\<lambda>_. True) (\<lambda>d. io_step env (thin_out env p d) d) (\<lambda>_ es'. \<exists>f. map_of es' = (map_of es)(p \<mapsto> Folder f)) (\<lambda>_ _. False) es"
    unfolding wp_def
  proof (intro allI impI)
    fix d :: disk assume "entries d = es"
    then show "\<exists>r d' new. io_step env (thin_out env p d) d = (r, d') \<and> trail d' = trail d @ new \<and> (\<forall>e \<in> set new. True) \<and>
        (case r of Inl x \<Rightarrow> False | Inr x \<Rightarrow> \<exists>f. map_of (entries d') = (map_of es)(p \<mapsto> Folder f))"
      using assms by (auto simp: io_step_def thin_out_def faulty_def dict_simps)
  qed
  have second: "wp (\<lambda>_. True) (io_step env (remove_folder p)) (\<lambda>_ es'. map_of es' = (map_of es)(p := None)) (\<lambda>_ _. False) es1"
    if "map_of es1 = (map_of es)(p \<mapsto> Folder g)" for es1 g
    by (rule wp_step) (use assms(1) that in \<open>auto simp: remove_folder_def is_plain_folder_iff dict_simps split: if_splits\<close>)
  show ?thesis
    unfolding rmtree_def
    by (rule wp_logged, rule wp_then, rule wp_mono[OF first]) (auto intro: wp_mono[OF second])
qed

definition sweep_inv :: "environment \<Rightarrow> scan_context \<Rightarrow> string list \<Rightarrow> string list \<Rightarrow> root_dir \<Rightarrow> bool" where
  "sweep_inv env c referenced rest es \<longleftrightarrow> stable (sc_view c) es \<and> sc_extra c es \<and> distinct rest \<and>
     settled (sc_name c) referenced es \<and> (\<not> faulty env \<and> sc_name c = None \<longrightarrow> swept rest referenced es)"

lemma sweep_folder_wp:
  assumes inv: "sweep_inv env c referenced (x # xs) es" and kept: "kept_by_tidying keep (sc_extra c)"
    and keep: "sc_name c = None \<Longrightarrow> keep = None"
  shows "wp (stable (sc_view c)) (sweep_folder env (sc_name c) keep referenced x ()) (\<lambda>_. sweep_inv env c referenced xs) (\<lambda>_ _. False) es"
proof -
  have st: "stable (sc_view c) es" and J: "sc_extra c es" and set: "settled (sc_name c) referenced es" and ok: "root_ok es"
    using inv by (auto simp: sweep_inv_def stable_def)
  have skip: "sweep_inv env c referenced xs es"
    if h: "\<And>own en. internal_entry x = Some (own, en) \<Longrightarrow> map_of es x \<noteq> None \<Longrightarrow> \<not> faulty env \<Longrightarrow> sc_name c = None \<Longrightarrow> en = Committed \<and> x \<in> set referenced"
  proof -
    have "swept xs referenced es" if nf: "\<not> faulty env" "sc_name c = None"
      unfolding swept_def
    proof (intro allI impI)
      fix k own en assume k: "internal_entry k = Some (own, en)" "map_of es k \<noteq> None" "k \<notin> set xs"
      show "en = Committed \<and> k \<in> set referenced"
      proof (cases "k = x")
        case True
        then show ?thesis using h k nf by blast
      next
        case False
        then show ?thesis using inv nf k unfolding sweep_inv_def swept_def by auto
      qed
    qed
    then show ?thesis using inv by (simp add: sweep_inv_def)
  qed
  have gone: "wp (stable (sc_view c)) (rmtree env x) (\<lambda>_. sweep_inv env c referenced xs) (\<lambda>_ _. False) es"
    if free: "free_dir es x" and unref: "x \<notin> set referenced \<or> (\<exists>own. internal_entry x = Some (own, Deleting))" and k: "Some x \<noteq> keep" and folder: "\<And>t. map_of es x \<noteq> Some (Symlink t)" "map_of es x \<noteq> None \<Longrightarrow> \<exists>f. map_of es x = Some (Folder f)"
  proof -
    define K where "K = (\<lambda>es'. sc_extra c es' \<and> settled (sc_name c) referenced es' \<and> (\<forall>k. k \<noteq> x \<longrightarrow> map_of es' k = map_of es k) \<and> (\<forall>t. map_of es' x \<noteq> Some (Symlink t))
      \<and> (map_of es x = None \<longrightarrow> map_of es' x = None))"
    have keepK: "K e2" if "K e1" "stable (sc_view c) e1" "x' = None \<or> (map_of e1 x \<noteq> None \<and> (\<exists>f. x' = Some (Folder f)))" "map_of e2 = (map_of e1)(x := x')" for e1 e2 x'
    proof -
      have "tidier keep e1 e2" by (rule tidier_remove[OF that(4,3) k])
      then have "sc_extra c e2" using kept_by_tidyingD[OF kept stable_ok[OF that(2)]] that(1) unfolding K_def by blast
      moreover have "settled (sc_name c) referenced e2" using settled_remove[OF _ that(4,3) _ unref] that(1) unfolding K_def by blast
      ultimately show ?thesis using that(1,3,4) unfolding K_def by auto
    qed
    have first: "wp (stable (sc_view c)) (rmtree env x) (\<lambda>_ es'. stable (sc_view c) es' \<and> K es') (\<lambda>_ _. False) es"
    proof (rule rmtree_wp[where J = K, OF st free])
      show "K es" using J set folder by (simp add: K_def)
      show "K e2" if "K e1" "stable (sc_view c) e1" "x' = None \<or> map_of e1 x \<noteq> None \<and> (\<exists>f. x' = Some (Folder f))" "map_of e2 = (map_of e1)(x := x')" for e1 e2 x'
        by (rule keepK[OF that])
    qed auto
    have second: "wp (stable (sc_view c)) (rmtree env x) (\<lambda>_ es'. (stable (sc_view c) es' \<and> K es') \<and> (\<not> faulty env \<longrightarrow> map_of es' x = None)) (\<lambda>_ _. False) es"
    proof (cases "faulty env \<or> map_of es x = None")
      case True
      then show ?thesis by (intro wp_mono[OF first]) (auto simp: K_def)
    next
      case False
      then obtain f where "map_of es x = Some (Folder f)" using folder by blast
      then show ?thesis using wp_conj[OF first rmtree_sure[where E = "\<lambda>_ _. False"]] False by (auto elim!: wp_mono)
    qed
    show ?thesis
    proof (rule wp_mono[OF second])
      fix u es' assume h: "(stable (sc_view c) es' \<and> K es') \<and> (\<not> faulty env \<longrightarrow> map_of es' x = None)"
      have "swept xs referenced es'" if nf: "\<not> faulty env" "sc_name c = None"
        unfolding swept_def
      proof (intro allI impI)
        fix k own en assume kk: "internal_entry k = Some (own, en)" "map_of es' k \<noteq> None" "k \<notin> set xs"
        then have "k \<noteq> x" using h nf by auto
        then show "en = Committed \<and> k \<in> set referenced" using h inv nf kk unfolding sweep_inv_def swept_def K_def by (metis set_ConsD)
      qed
      then show "sweep_inv env c referenced xs es'" using h inv by (simp add: sweep_inv_def K_def)
    qed auto
  qed
  show ?thesis
  proof (cases "internal_entry x")
    case None
    then show ?thesis using skip by (auto simp: sweep_folder_def intro: wp_pure)
  next
    case (Some q)
    obtain own en where q: "internal_entry x = Some (own, en)" using Some by (cases q) simp
    show ?thesis
    proof (cases "map_of es x")
      case None
      have "sweep_inv env c referenced xs es" by (rule skip) (simp add: None)
      then show ?thesis
        using q None by (auto simp: sweep_folder_def link_target_def intro!: wp_then wp_read wp_pure wp_when rmtree_absent)
    next
      case (Some e)
      note int = root_ok_internal[OF ok Some q]
      have notlink: "link_target es x = None" "map_of es x \<noteq> Some (Symlink t)" if "en = Committed \<or> en = Deleting" for t
        using int(3)[OF that] Some by (auto simp: link_target_None)
      have unlinked: "map_of es own \<noteq> Some (Symlink (Sibling x))" if "x \<notin> set referenced" "selected (sc_name c) own" "en = Committed"
        using set that q int(1) unfolding settled_def by blast
      have unadopted: "map_of es k \<noteq> Some (Symlink (Sibling x))" if "internal_entry k = Some (own, Adopting)" "selected (sc_name c) own" for k
        using set that unfolding settled_def by fastforce
      have free: "free_dir es x" if "en = Deleting \<or> en = Committed \<and> x \<notin> set referenced \<and> selected (sc_name c) own"
        using that q int(1,2) unlinked unadopted by (auto simp: free_dir_def unused_by_def)
      have gone': "wp (stable (sc_view c)) (rmtree env x) (\<lambda>_. sweep_inv env c referenced xs) (\<lambda>_ _. False) es"
        if "en = Deleting \<or> en = Committed \<and> x \<notin> set referenced \<and> selected (sc_name c) own" "Some x \<noteq> keep"
        using that int(3) Some notlink q by (intro gone[OF free]) auto
      show ?thesis
      proof (cases "en = Committed \<or> en = Deleting")
        case True
        have "sweep_inv env c referenced xs es" if "Some x = keep \<or> en = Deleting \<and> sc_name c \<noteq> None \<or> en = Committed \<and> \<not> (x \<notin> set referenced \<and> selected (sc_name c) own)"
          using that keep by (intro skip) (auto simp: q selected_def)
        then show ?thesis
          unfolding sweep_folder_def q option.case prod.case
          using gone' True notlink by (intro wp_then wp_read) (auto intro!: wp_pure wp_when)
      next
        case False
        then have link: "en = Staging \<or> link_target es x \<noteq> None" using int(4) Some by (cases en) auto
        have "sweep_inv env c referenced xs es"
        proof (rule skip)
          fix own' en' assume "map_of es x \<noteq> None" "sc_name c = None"
          moreover have "en = Adopting \<or> en = Staging" using False by (cases en) auto
          ultimately have False using conjunct1[OF set[unfolded settled_def selected_def]] q by (metis (no_types))
          then show "en' = Committed \<and> x \<in> set referenced" ..
        qed
        then show ?thesis
          unfolding sweep_folder_def q option.case prod.case using link
          by (intro wp_then wp_read) (auto intro!: wp_pure)
      qed
    qed
  qed
qed

section \<open>Recovery\<close>

lemma delete_unreferenced_wp:
  assumes st: "stable V es" and J: "J es" and kept: "kept_by_tidying keep J" and keep: "name = None \<Longrightarrow> keep = None"
  shows "wp (stable V) (delete_unreferenced env name keep)
     (\<lambda>_ es'. stable V es' \<and> J es' \<and> (\<exists>referenced. settled name referenced es' \<and> (\<not> faulty env \<and> name = None \<longrightarrow> swept [] referenced es')))
     (\<lambda>_ es'. faulty env \<and> stable V es' \<and> J es') es"
proof -
  let ?c = "\<lparr>sc_name = name, sc_view = V, sc_extra = J\<rparr>"
  have sweep: "wp (stable V) (io_fold (sweep_folder env name keep referenced) (map fst es1) ())
      (\<lambda>_ es'. stable V es' \<and> J es' \<and> (\<exists>referenced. settled name referenced es' \<and> (\<not> faulty env \<and> name = None \<longrightarrow> swept [] referenced es'))) E es1"
    if inv: "scan_inv ?c [] referenced es1" for referenced es1 E
  proof (rule wp_fold[where J = "\<lambda>xs _. sweep_inv env ?c referenced xs"])
    have "stable V es1" "J es1" using scan_invD(1,2)[OF inv] by simp_all
    moreover have "settled name referenced es1" using scan_settled[OF inv] by simp
    moreover have "swept (map fst es1) referenced es1" unfolding swept_def by (metis map_of_present)
    ultimately show "sweep_inv env ?c referenced (map fst es1) es1"
      using root_okD(1)[OF stable_ok] unfolding sweep_inv_def by simp
    show "wp (stable V) (sweep_folder env name keep referenced x s) (\<lambda>_. sweep_inv env ?c referenced xs) E es2"
      if "sweep_inv env ?c referenced (x # xs) es2" for x xs s es2
      using wp_mono[OF sweep_folder_wp[OF that, of keep]] kept keep by simp
  qed (auto simp: sweep_inv_def)
  show ?thesis
    unfolding delete_unreferenced_def
    by (intro wp_then wp_read, rule wp_mono[OF scan_wp[OF st J kept]]) (auto intro!: wp_then wp_read sweep)
qed

text \<open>A root in which nothing of the library is left over: every entry of its own is a committed directory
  that a link of the root leads to.\<close>

definition tidy :: "root_dir \<Rightarrow> bool" where
  "tidy es \<longleftrightarrow> (\<forall>k own en. internal_entry k = Some (own, en) \<longrightarrow> map_of es k \<noteq> None \<longrightarrow>
     en = Committed \<and> (\<exists>n t. internal_entry n = None \<and> map_of es n = Some (Symlink t) \<and> base_name t = k))"

lemma recovery_wp:
  assumes "root_ok es"
  shows "wp (stable (view es)) (delete_unreferenced env None None) (\<lambda>_ es'. stable (view es) es' \<and> (\<not> faulty env \<longrightarrow> tidy es'))
     (\<lambda>_ es'. faulty env \<and> stable (view es) es') es"
proof (rule wp_mono[OF delete_unreferenced_wp[where J = "\<lambda>_. True"]])
  show "stable (view es) es" using assms by (simp add: stable_def)
  show "kept_by_tidying None (\<lambda>_. True)" by (simp add: kept_by_tidying_def)
  fix u es' assume h: "stable (view es) es' \<and> True \<and> (\<exists>referenced. settled None referenced es' \<and> (\<not> faulty env \<and> None = None \<longrightarrow> swept [] referenced es'))"
  then obtain referenced where r: "settled None referenced es'" "\<not> faulty env \<Longrightarrow> swept [] referenced es'" by auto
  have "tidy es'" if "\<not> faulty env"
    unfolding tidy_def
  proof (intro allI impI)
    fix k own en assume "internal_entry k = Some (own, en)" "map_of es' k \<noteq> None"
    then have "en = Committed" "k \<in> set referenced" using r(2)[OF that] unfolding swept_def by auto
    then show "en = Committed \<and> (\<exists>n t. internal_entry n = None \<and> map_of es' n = Some (Symlink t) \<and> base_name t = k)"
      using r(1) unfolding settled_def linked_from_def by blast
  qed
  then show "stable (view es) es' \<and> (\<not> faulty env \<longrightarrow> tidy es')" using h by blast
qed auto

lemma tidy_visible:
  assumes "root_ok es" "tidy es" "view es n = Stored p f"
  shows "map_of es n = Some (Symlink (Sibling p))" "internal_entry p = Some (n, Committed)" "map_of es p = Some (Folder f)"
proof -
  have "pending_adoption es n = None"
  proof (rule ccontr)
    assume "pending_adoption es n \<noteq> None"
    then obtain k where "internal_entry k = Some (n, Adopting)" "adoptee es k \<noteq> None"
      using pending_adoption_iff[OF assms(1)] by fastforce
    then show False using assms(2) by (auto simp: tidy_def adoptee_Some_iff)
  qed
  then show "map_of es n = Some (Symlink (Sibling p))" "internal_entry p = Some (n, Committed)" "map_of es p = Some (Folder f)"
    using assms(3) by (auto simp: view_def library_target split: option.splits entry.splits if_splits)
qed

section \<open>Deleting what a commit retired\<close>

lemma delete_retired_wp:
  assumes "root_ok es"
  shows "wp (stable (view es)) (delete_retired env) (\<lambda>_. stable (view es)) (\<lambda>_ _. False) es"
proof -
  have one: "wp (stable V) (sweep_retired env x s) (\<lambda>_. stable V) E es1" if st: "stable V es1" for x s V E es1
  proof (cases "\<exists>own. internal_entry x = Some (own, Deleting)")
    case True
    then obtain own where x: "internal_entry x = Some (own, Deleting)" by blast
    have "wp (stable V) (rmtree env x) (\<lambda>_. stable V) E es1"
    proof (cases "map_of es1 x")
      case None
      then show ?thesis using st by (rule rmtree_absent)
    next
      case (Some e)
      have "free_dir es1 x" using root_ok_internal(1,2)[OF stable_ok[OF st] Some x] x by (simp add: free_dir_def)
      then show ?thesis by (rule rmtree_wp[where J = "\<lambda>_. True", OF st]) auto
    qed
    then show ?thesis
      unfolding sweep_retired_def x option.case prod.case ending.case using st by (intro wp_then wp_read wp_when) auto
  next
    case False
    then show ?thesis using st
      by (cases "internal_entry x"; cases "snd (the (internal_entry x))") (auto simp: sweep_retired_def intro!: wp_pure)
  qed
  have "stable (view es) es" using assms by (simp add: stable_def)
  then show ?thesis
    unfolding delete_retired_def
    by (intro wp_then wp_read wp_fold[where J = "\<lambda>_ _. stable (view es)"]) (auto intro: one)
qed

section \<open>Committing\<close>

text \<open>
  What a commit of \<open>f\<close>, written at \<open>path\<close>, under the name \<open>n\<close> starts from: the directory is there, and
  nothing refers to it or uses the name \<open>phys\<close> of a directory it may have to adopt.
\<close>

record commit_context =
  cc_name :: string
  cc_path :: string
  cc_phys :: string
  cc_folder :: folder

abbreviation cc_link :: "commit_context \<Rightarrow> string" where
  "cc_link c \<equiv> cc_phys c @ ending_text Adopting"

definition names_ok :: "commit_context \<Rightarrow> bool" where
  "names_ok c \<longleftrightarrow> user_name (cc_name c) \<and>
     internal_entry (cc_path c) = Some (cc_name c, Committed) \<and> newline \<notin> set (cc_path c) \<and>
     internal_entry (cc_path c @ ending_text Staging) = Some (cc_name c, Staging) \<and> newline \<notin> set (cc_path c @ ending_text Staging) \<and>
     internal_entry (cc_phys c) = Some (cc_name c, Committed) \<and> newline \<notin> set (cc_phys c) \<and>
     internal_entry (cc_link c) = Some (cc_name c, Adopting) \<and> newline \<notin> set (cc_link c)"

definition unlinked :: "root_dir \<Rightarrow> string \<Rightarrow> bool" where
  "unlinked es p \<longleftrightarrow> (\<forall>k. map_of es k \<noteq> Some (Symlink (Sibling p)))"

definition ready :: "commit_context \<Rightarrow> root_dir \<Rightarrow> bool" where
  "ready c es \<longleftrightarrow> map_of es (cc_path c) = Some (Folder (cc_folder c)) \<and> unlinked es (cc_path c) \<and>
     map_of es (cc_phys c) = None \<and> unlinked es (cc_phys c) \<and> map_of es (cc_link c) = None"

definition no_leftovers :: "commit_context \<Rightarrow> root_dir \<Rightarrow> bool" where
  "no_leftovers c es \<longleftrightarrow> (\<forall>k en. internal_entry k = Some (cc_name c, en) \<longrightarrow> en = Adopting \<or> en = Staging \<longrightarrow> map_of es k = None)"

lemma ready_kept: "names_ok c \<Longrightarrow> kept_by_tidying (Some (cc_path c)) (ready c)"
  unfolding kept_by_tidying_def ready_def unlinked_def tidier_def names_ok_def by (metis option.distinct(1))

lemma ready_free:
  assumes "names_ok c" "ready c es"
  shows "free_dir es (cc_path c)"
  using assms by (auto simp: names_ok_def ready_def free_dir_def unused_by_def unlinked_def)

text \<open>The swap itself.\<close>

definition replaceable :: "bool \<Rightarrow> view \<Rightarrow> bool" where
  "replaceable overwrite v \<longleftrightarrow> (case v of Absent \<Rightarrow> True | Plain f \<Rightarrow> overwrite | Stored p f \<Rightarrow> overwrite | _ \<Rightarrow> False)"

abbreviation swapped :: "commit_context \<Rightarrow> (string \<Rightarrow> view) \<Rightarrow> string \<Rightarrow> view" where
  "swapped c V \<equiv> V(cc_name c := Stored (cc_path c) (cc_folder c))"

text \<open>A plain directory that is overwritten is first given the committed layout.\<close>

definition adopted :: "commit_context \<Rightarrow> (string \<Rightarrow> view) \<Rightarrow> string \<Rightarrow> view" where
  "adopted c V = (case V (cc_name c) of Plain g \<Rightarrow> V(cc_name c := Stored (cc_phys c) g) | _ \<Rightarrow> V)"

definition held :: "commit_context \<Rightarrow> bool \<Rightarrow> (string \<Rightarrow> view) \<Rightarrow> root_dir \<Rightarrow> bool" where
  "held c overwrite V es \<longleftrightarrow> stable V es \<or> overwrite \<and> stable (adopted c V) es"

definition committing :: "commit_context \<Rightarrow> bool \<Rightarrow> (string \<Rightarrow> view) \<Rightarrow> root_dir \<Rightarrow> bool" where
  "committing c overwrite V es \<longleftrightarrow> held c overwrite V es \<or> replaceable overwrite (V (cc_name c)) \<and> stable (swapped c V) es"

lemma swapped_adopted [simp]: "swapped c (adopted c V) = swapped c V"
  by (simp add: adopted_def split: view.split)

lemma replaceable_adopted [simp]: "replaceable overwrite (adopted c V (cc_name c)) = replaceable overwrite (V (cc_name c))"
  by (simp add: adopted_def replaceable_def split: view.splits)

lemma adopted_adopted [simp]: "adopted c (adopted c V) = adopted c V"
  by (simp add: adopted_def split: view.splits)

lemma held_stable: "stable V es \<Longrightarrow> held c overwrite V es" "overwrite \<Longrightarrow> stable (adopted c V) es \<Longrightarrow> held c overwrite V es"
  by (simp_all add: held_def)

lemma committing_adopted: "overwrite \<Longrightarrow> committing c overwrite (adopted c V) es \<Longrightarrow> committing c overwrite V es"
  by (auto simp: committing_def held_def)

lemma held_committing: "held c overwrite V es \<Longrightarrow> committing c overwrite V es"
  by (simp add: committing_def)

definition blocked :: "environment \<Rightarrow> commit_context \<Rightarrow> bool \<Rightarrow> (string \<Rightarrow> view) \<Rightarrow> bool" where
  "blocked env c overwrite V \<longleftrightarrow> faulty env \<or> \<not> replaceable overwrite (V (cc_name c))"

lemma adopt_wp:
  assumes names: "names_ok c" "phys = cc_phys c" "phys = physical_dir (cc_name c) fresh"
    and st: "stable V es" and ready: "ready c es" and left: "no_leftovers c es" and n: "map_of es (cc_name c) = Some (Folder g)"
  shows "wp (held c True V) (adopt_pre_commit_dir env (cc_name c) fresh)
     (\<lambda>_ es'. stable (adopted c V) es' \<and> map_of es' (cc_path c) = Some (Folder (cc_folder c)) \<and> unlinked es' (cc_path c) \<and> no_leftovers c es' \<and>
        map_of es' (cc_name c) = Some (Symlink (Sibling phys)))
     (\<lambda>_ es'. faulty env \<and> held c True V es' \<and> free_dir es' (cc_path c)) es"
proof -
  let ?n = "cc_name c" and ?a = "cc_link c" and ?q = "cc_phys c" and ?p = "cc_path c"
  note ok = stable_ok[OF st]
  have nm: "user_name ?n" "internal_entry ?a = Some (?n, Adopting)" "newline \<notin> set ?a" "internal_entry ?q = Some (?n, Committed)"
      "newline \<notin> set ?q" "internal_entry ?p = Some (?n, Committed)" "newline \<notin> set ?p"
    using names(1) by (auto simp: names_ok_def)
  have rd: "map_of es ?p = Some (Folder (cc_folder c))" "unlinked es ?p" "map_of es ?q = None" "unlinked es ?q" "map_of es ?a = None"
    using ready by (auto simp: ready_def)
  have neq: "?a \<noteq> ?n" "?q \<noteq> ?n" "?p \<noteq> ?n" "?a \<noteq> ?q" "?a \<noteq> ?p" "?p \<noteq> ?q"
    using nm rd by auto
  have "view es ?n = Plain g" using n by (simp add: view_def)
  then have V: "V ?n = Plain g" using st nm(1) by (metis stable_def)
  let ?V = "adopted c V"
  have V': "?V = V(?n := Stored ?q g)" by (simp add: adopted_def V)
  define m1 where "m1 = (map_of es)(?a \<mapsto> Symlink (Sibling ?q))"
  define m2 where "m2 = m1(?n := None, ?q \<mapsto> Folder g)"
  define m3 where "m3 = m2(?a := None, ?n \<mapsto> Symlink (Sibling ?q))"
  have free: "free_dir e ?p" if "map_of e = m1 \<or> map_of e = m2 \<or> map_of e = m3" for e
  proof -
    have "map_of e k \<noteq> Some (Symlink (Sibling ?p))" for k
      using that rd(2) neq(6) by (auto simp: unlinked_def m1_def m2_def m3_def split: if_splits)
    then show ?thesis using nm by (simp add: free_dir_def unused_by_def)
  qed
  have s1: "stable V e1" if "map_of e1 = m1" "dict_ok e1" for e1
    using link_adoption[OF ok that(2) nm(1,2,3,4) rd(3,5) that(1)[unfolded m1_def]] stable_same[OF st] by blast
  have s2: "stable ?V e2" if "stable V e1" "map_of e1 = m1" "map_of e2 = m2" "dict_ok e2" for e1 e2
  proof -
    have only: "b = ?a" if "map_of e1 b = Some (Symlink (Sibling ?q))" for b
      using that rd(4) \<open>map_of e1 = m1\<close> by (auto simp: m1_def unlinked_def split: if_splits)
    have "map_of e1 ?n = Some (Folder g)" "map_of e1 ?a = Some (Symlink (Sibling ?q))" "map_of e1 ?q = None"
        "map_of e2 = (map_of e1)(?n := None, ?q \<mapsto> Folder g)"
      using that n rd neq by (auto simp: m1_def m2_def)
    note ren = rename_adoptee[OF stable_ok[OF that(1)] that(4) nm(1) this(1) nm(2) this(2) only nm(4,5) this(3,4)]
    show ?thesis using ren that(1) by (simp add: stable_def V')
  qed
  have s3: "stable ?V e3" if "stable ?V e2" "map_of e2 = m2" "map_of e3 = m3" "dict_ok e3" for e2 e3
  proof -
    have "same_view e2 e3"
      by (rule finish_adoption[OF stable_ok[OF that(1)] that(4), of ?a ?n ?q])
        (use that nm neq in \<open>auto simp: adopts_def adoptee_Some_iff m1_def m2_def m3_def\<close>)
    then show ?thesis by (rule stable_same[OF that(1)])
  qed
  have last: "stable ?V e3 \<and> map_of e3 ?p = Some (Folder (cc_folder c)) \<and> unlinked e3 ?p \<and> no_leftovers c e3 \<and>
      map_of e3 ?n = Some (Symlink (Sibling ?q))" if "stable ?V e3" "map_of e3 = m3" for e3
  proof (intro conjI)
    show "no_leftovers c e3"
      unfolding no_leftovers_def
    proof (intro allI impI)
      fix k en assume k: "internal_entry k = Some (?n, en)" "en = Adopting \<or> en = Staging"
      then have "k \<noteq> ?n" "k \<noteq> ?q" using nm by auto
      then show "map_of e3 k = None" using left k that by (auto simp: m1_def m2_def m3_def no_leftovers_def)
    qed
    show "unlinked e3 ?p" using that rd neq by (auto simp: m1_def m2_def m3_def unlinked_def)
  qed (use that rd neq in \<open>auto simp: m1_def m2_def m3_def\<close>)
  have step1: "wp (held c True V) (io_step env (symlink_at ?a (Sibling ?q))) (\<lambda>_ e. stable V e \<and> map_of e = m1) (\<lambda>_ e. faulty env \<and> held c True V e \<and> free_dir e ?p) es"
  proof (rule wp_step)
    fix e1 assume "symlink_at ?a (Sibling ?q) es = Inr e1"
    then show "held c True V e1 \<and> stable V e1 \<and> map_of e1 = m1"
      using symlink_at_Inr s1 root_okD(1)[OF ok] held_stable(1) unfolding m1_def by blast
  qed (use held_stable(1)[OF st] ready_free[OF names(1) ready] rd in \<open>auto simp: symlink_at_def lexists_def\<close>)
  have step2: "wp (held c True V) (io_step env (rename_at ?n ?q)) (\<lambda>_ e. stable ?V e \<and> map_of e = m2) (\<lambda>_ e. faulty env \<and> held c True V e \<and> free_dir e ?p) e1"
    if e1: "stable V e1" "map_of e1 = m1" for e1
  proof (rule wp_step)
    fix e2 assume "rename_at ?n ?q e1 = Inr e2"
    then have "map_of e2 = m2" "dict_ok e2"
      using rename_at_Inr[of ?n ?q e1 e2] neq e1 n root_okD(1)[OF stable_ok[OF e1(1)]] by (auto simp: m1_def m2_def)
    then have "stable ?V e2" "map_of e2 = m2" using s2[OF e1] by simp_all
    then show "held c True V e2 \<and> stable ?V e2 \<and> map_of e2 = m2" by (simp add: held_def)
  qed (use e1 held_stable(1)[OF e1(1)] free n rd neq in \<open>auto simp: rename_at_def m1_def\<close>)
  have step3: "wp (held c True V) (io_step env (rename_at ?a ?n)) (\<lambda>_ e. stable ?V e \<and> map_of e = m3) (\<lambda>_ e. faulty env \<and> held c True V e \<and> free_dir e ?p) e2"
    if e2: "stable ?V e2" "map_of e2 = m2" for e2
  proof (rule wp_step)
    fix e3 assume "rename_at ?a ?n e2 = Inr e3"
    then have "map_of e3 = m3" "dict_ok e3"
      using rename_at_Inr[of ?a ?n e2 e3] neq e2 root_okD(1)[OF stable_ok[OF e2(1)]] by (auto simp: m1_def m2_def m3_def)
    then have "stable ?V e3" "map_of e3 = m3" using s3[OF e2] by simp_all
    then show "held c True V e3 \<and> stable ?V e3 \<and> map_of e3 = m3" by (simp add: held_def)
  qed (use e2 held_stable(2)[OF _ e2(1)] free neq in \<open>auto simp: rename_at_def m1_def m2_def\<close>)
  have step4: "wp (held c True V) (fsync env) (\<lambda>_ e. stable ?V e \<and> map_of e = m3) (\<lambda>_ e. faulty env \<and> held c True V e \<and> free_dir e ?p) e3"
    if "stable ?V e3" "map_of e3 = m3" for e3
    unfolding fsync_def by (rule wp_step) (use that free held_stable(2)[OF _ that(1)] in auto)
  show ?thesis
    unfolding adopt_pre_commit_dir_def Let_def names(3)[symmetric] unfolding names(2)
    by (rule wp_then, rule wp_mono[OF step1], assumption, rule wp_then, rule wp_mono[OF step2], blast, blast, assumption,
        rule wp_then, rule wp_mono[OF step3], blast, blast, assumption, rule wp_mono[OF step4]) (use last in blast)+
qed

text \<open>Before the swap nothing is in the name's way but its present link, which is the library's own.\<close>

definition swappable :: "commit_context \<Rightarrow> root_dir \<Rightarrow> bool" where
  "swappable c es \<longleftrightarrow> map_of es (cc_path c) = Some (Folder (cc_folder c)) \<and> unlinked es (cc_path c) \<and> no_leftovers c es"

definition after_swap :: "commit_context \<Rightarrow> link_target option \<Rightarrow> root_dir \<Rightarrow> bool" where
  "after_swap c previous es \<longleftrightarrow> map_of es (cc_name c) = Some (Symlink (Sibling (cc_path c))) \<and> no_leftovers c es \<and>
     (case previous of None \<Rightarrow> True | Some t \<Rightarrow> \<exists>q. t = Sibling q \<and> internal_entry q = Some (cc_name c, Committed) \<and> q \<noteq> cc_path c)"

lemma swappable_free: "names_ok c \<Longrightarrow> swappable c es \<Longrightarrow> free_dir es (cc_path c)"
  by (auto simp: names_ok_def swappable_def free_dir_def unused_by_def unlinked_def)

lemma ready_swappable: "ready c es \<Longrightarrow> no_leftovers c es \<Longrightarrow> swappable c es"
  by (simp add: ready_def swappable_def)

lemma no_leftovers_adopts:
  assumes "no_leftovers c es"
  shows "\<not> adopts es k (cc_name c)"
proof
  assume a: "adopts es k (cc_name c)"
  then have "map_of es k = None" using assms unfolding no_leftovers_def adopts_def by blast
  then show False using a by (simp add: adopts_def adoptee_def)
qed

lemma view_settled:
  assumes ok: "root_ok es" and left: "no_leftovers c es"
  shows "view es (cc_name c) = (case map_of es (cc_name c) of
       None \<Rightarrow> Absent | Some Regular_File \<Rightarrow> User_File | Some (Folder f) \<Rightarrow> Plain f
     | Some (Symlink t) \<Rightarrow> if is_library_dir (cc_name c) t then (case folder_of es (base_name t) of None \<Rightarrow> Absent | Some f \<Rightarrow> Stored (base_name t) f)
         else Foreign t)"
proof -
  have "pending_adoption es (cc_name c) = None"
    using no_leftovers_adopts[OF left] pending_adoption_iff[OF ok] unfolding adopts_def
    by (metis option.exhaust option.distinct(1))
  then show ?thesis by (simp add: view_def split: option.split)
qed

lemma swap_wp:
  assumes names: "names_ok c" and st: "stable V es" and sw: "swappable c es" and rep: "replaceable overwrite (V (cc_name c))"
    and n: "\<And>f. map_of es (cc_name c) \<noteq> Some (Folder f)" "map_of es (cc_name c) \<noteq> Some Regular_File"
    and prev: "previous = link_target es (cc_name c)" "\<And>t. previous = Some t \<Longrightarrow> is_library_dir (cc_name c) t"
  shows "wp (committing c overwrite V)
     (io_then (io_step env (symlink_at (cc_path c @ ending_text Staging) (Sibling (cc_path c))))
        (\<lambda>_. io_then (io_step env (rename_at (cc_path c @ ending_text Staging) (cc_name c))) (\<lambda>_. io_pure previous)))
     (\<lambda>previous es'. stable (swapped c V) es' \<and> after_swap c previous es')
     (\<lambda>_ es'. faulty env \<and> stable V es' \<and> free_dir es' (cc_path c)) es"
proof -
  let ?n = "cc_name c" and ?p = "cc_path c" and ?s = "cc_path c @ ending_text Staging"
  note ok = stable_ok[OF st]
  have nm: "user_name ?n" "internal_entry ?s = Some (?n, Staging)" "newline \<notin> set ?s" "internal_entry ?p = Some (?n, Committed)" "newline \<notin> set ?p"
    using names by (auto simp: names_ok_def)
  have rd: "map_of es ?p = Some (Folder (cc_folder c))" "unlinked es ?p" "no_leftovers c es" using sw by (auto simp: swappable_def)
  have neq: "?s \<noteq> ?n" "?p \<noteq> ?n" "?p \<noteq> ?s" using nm by auto
  have absent: "map_of es ?s = None" using rd(3) nm(2) by (auto simp: no_leftovers_def)
  define m1 where "m1 = (map_of es)(?s \<mapsto> Symlink (Sibling ?p))"
  define m2 where "m2 = m1(?s := None, ?n \<mapsto> Symlink (Sibling ?p))"
  have free: "free_dir e ?p" if "map_of e = m1" for e
  proof -
    have "map_of e k = Some (Symlink (Sibling ?p)) \<longleftrightarrow> k = ?s" for k
      using that rd(2) by (auto simp: unlinked_def m1_def)
    moreover have "k \<noteq> ?s" if "internal_entry k = Some (?n, Adopting)" for k using that nm(2) by auto
    ultimately show ?thesis using nm(1,4,5) neq(1) by (auto simp: free_dir_def unused_by_def)
  qed
  have step1: "wp (committing c overwrite V) (io_step env (symlink_at ?s (Sibling ?p))) (\<lambda>_ e. stable V e \<and> map_of e = m1)
      (\<lambda>_ e. faulty env \<and> stable V e \<and> free_dir e ?p) es"
  proof (rule wp_step)
    fix e1 assume "symlink_at ?s (Sibling ?p) es = Inr e1"
    then have e1: "map_of e1 = m1" "dict_ok e1" using symlink_at_Inr root_okD(1)[OF ok] unfolding m1_def by blast+
    have "same_view es e1" by (rule staging_change[OF ok nm(2,1,3) e1(2)]) (use e1(1) in \<open>auto simp: m1_def\<close>)
    then show "committing c overwrite V e1 \<and> stable V e1 \<and> map_of e1 = m1"
      using stable_same[OF st] e1(1) held_committing[OF held_stable(1)] by blast
  qed (use st swappable_free[OF names sw] absent in \<open>auto simp: symlink_at_def lexists_def\<close>)
  have step2: "wp (committing c overwrite V) (io_step env (rename_at ?s ?n)) (\<lambda>_ e. stable (swapped c V) e \<and> after_swap c previous e)
      (\<lambda>_ e. faulty env \<and> stable V e \<and> free_dir e ?p) e1"
    if e1: "stable V e1" "map_of e1 = m1" for e1
  proof (rule wp_step)
    fix e2 assume "rename_at ?s ?n e1 = Inr e2"
    then have e2: "map_of e2 = m2" "dict_ok e2"
      using rename_at_Inr[of ?s ?n e1 e2] neq e1 root_okD(1)[OF stable_ok[OF e1(1)]] by (auto simp: m1_def m2_def)
    have m: "map_of e2 = (map_of e1)(?s := None, ?n \<mapsto> Symlink (Sibling ?p))" by (simp add: e2 e1 m2_def)
    have p: "map_of e1 ?p = Some (Folder (cc_folder c))" using rd neq by (simp add: e1 m1_def)
    have none: "\<not> adopts e1 a ?n" for a
    proof
      assume a: "adopts e1 a ?n"
      then have "map_of e1 a \<noteq> None" "a \<noteq> ?s" using nm by (auto simp: adopts_def adoptee_Some_iff)
      then show False using a rd(3) by (auto simp: e1 m1_def no_leftovers_def adopts_def)
    qed
    note swap = swap_view[OF stable_ok[OF e1(1)] e2(2) nm(1,2) _ nm(4) p none m]
    have "stable (swapped c V) e2" using swap e1(1) by (simp add: stable_def)
    moreover have "after_swap c previous e2"
    proof -
      have "no_leftovers c e2"
        using rd(3) nm neq by (auto simp: no_leftovers_def e2 m2_def m1_def)
      moreover have "q \<noteq> ?p" if "previous = Some (Sibling q)" for q
        using that rd(2) prev(1) by (auto simp: unlinked_def)
      ultimately show ?thesis
        using prev(2) by (cases previous) (auto simp: after_swap_def e2 m2_def library_target)
    qed
    ultimately show "committing c overwrite V e2 \<and> stable (swapped c V) e2 \<and> after_swap c previous e2"
      using rep by (simp add: committing_def)
  qed (use e1 free n neq in \<open>auto simp: rename_at_def m1_def is_plain_folder_def Let_def split: option.splits entry.splits if_splits\<close>)
  show ?thesis
    by (rule wp_then, rule wp_mono[OF step1], assumption, rule wp_then_pure, rule wp_mono[OF step2]) auto
qed

lemma swap_link_wp:
  assumes names: "names_ok c" "cc_phys c = physical_dir (cc_name c) fresh"
    and st: "stable V es" and ready: "ready c es" and left: "no_leftovers c es"
    and live: "\<And>q. map_of es (cc_name c) = Some (Symlink (Sibling q)) \<Longrightarrow> internal_entry q = Some (cc_name c, Committed) \<Longrightarrow> map_of es q \<noteq> None"
  shows "wp (committing c overwrite V) (swap_link env fresh (cc_name c) (cc_path c) overwrite)
     (\<lambda>previous es'. replaceable overwrite (V (cc_name c)) \<and> stable (swapped c V) es' \<and> after_swap c previous es')
     (\<lambda>_ es'. blocked env c overwrite V \<and> held c overwrite V es' \<and> free_dir es' (cc_path c)) es"
proof -
  let ?n = "cc_name c" and ?p = "cc_path c"
  note ok = stable_ok[OF st]
  have n: "user_name ?n" using names(1) by (simp add: names_ok_def)
  have V: "V ?n = view es ?n" using st n by (simp add: stable_def)
  note view = view_settled[OF ok left]
  note free = ready_free[OF names(1) ready]
  have refuse: "wp (committing c overwrite V) (io_raise e) Q (\<lambda>_ es'. blocked env c overwrite V \<and> held c overwrite V es' \<and> free_dir es' ?p) es"
    if "\<not> replaceable overwrite (V ?n)" for e Q
    using that held_stable(1)[OF st] free by (intro wp_raise) (simp add: blocked_def)
  let ?tail = "io_then (io_read (\<lambda>es. link_target es ?n)) (\<lambda>previous.
        if (case previous of None \<Rightarrow> False | Some t \<Rightarrow> \<not> is_library_dir ?n t) then io_raise ForeignLink
        else io_then (io_step env (symlink_at (?p @ ending_text Staging) (Sibling ?p))) (\<lambda>_.
             io_then (io_step env (rename_at (?p @ ending_text Staging) ?n)) (\<lambda>_. io_pure previous)))"
  have swap: "wp (committing c overwrite V) ?tail
     (\<lambda>previous es'. replaceable overwrite (V (cc_name c)) \<and> stable (swapped c V) es' \<and> after_swap c previous es')
     (\<lambda>_ es'. blocked env c overwrite V \<and> held c overwrite V es' \<and> free_dir es' ?p) e1"
    if e1: "stable W e1" "swappable c e1" "replaceable overwrite (W ?n)" "\<And>f. map_of e1 ?n \<noteq> Some (Folder f)" "map_of e1 ?n \<noteq> Some Regular_File"
      and lib: "\<And>t. link_target e1 ?n = Some t \<Longrightarrow> is_library_dir ?n t" and W: "W = V \<or> overwrite \<and> W = adopted c V" for e1 W
  proof (rule wp_then, rule wp_read)
    have "\<not> (case link_target e1 ?n of None \<Rightarrow> False | Some t \<Rightarrow> \<not> is_library_dir ?n t)"
      using lib by (auto split: option.split)
    then show "wp (committing c overwrite V)
       (if (case link_target e1 ?n of None \<Rightarrow> False | Some t \<Rightarrow> \<not> is_library_dir ?n t) then io_raise ForeignLink
        else io_then (io_step env (symlink_at (?p @ ending_text Staging) (Sibling ?p))) (\<lambda>_.
             io_then (io_step env (rename_at (?p @ ending_text Staging) ?n)) (\<lambda>_. io_pure (link_target e1 ?n))))
       (\<lambda>previous es'. replaceable overwrite (V (cc_name c)) \<and> stable (swapped c V) es' \<and> after_swap c previous es')
       (\<lambda>_ es'. blocked env c overwrite V \<and> held c overwrite V es' \<and> free_dir es' ?p) e1"
    proof (simp only: if_False, intro wp_mono[OF swap_wp[OF names(1) e1 refl lib]])
      show "committing c overwrite V e" if "committing c overwrite W e" for e
        using that W committing_adopted by metis
    qed (use e1(3) W in \<open>auto simp: blocked_def held_def\<close>)
  qed
  show ?thesis
  proof (cases "map_of es ?n")
    case None
    have "replaceable overwrite (V ?n)" using V view None by (simp add: replaceable_def)
    then show ?thesis
      unfolding swap_link_def Let_def using swap[OF st ready_swappable[OF ready left] _ _ _ _ disjI1[OF refl]] None
      by (intro wp_then wp_read) (auto simp: lexists_def link_target_def is_plain_folder_def io_when_def intro!: wp_then wp_pure)
  next
    case (Some e)
    show ?thesis
    proof (cases e)
      case Regular_File
      then have "\<not> replaceable overwrite (V ?n)" using V view Some by (simp add: replaceable_def)
      then show ?thesis
        unfolding swap_link_def Let_def using refuse Some Regular_File
        by (intro wp_then wp_read) (auto simp: lexists_def link_target_def is_plain_folder_def)
    next
      case (Folder g)
      have stored: "V ?n = Plain g" using V view Some Folder by simp
      note m = Some[unfolded Folder]
      have adopt: "wp (held c True V) (adopt_pre_commit_dir env ?n fresh)
          (\<lambda>_ es'. stable (adopted c V) es' \<and> swappable c es' \<and> map_of es' ?n = Some (Symlink (Sibling (cc_phys c))))
          (\<lambda>_ es'. faulty env \<and> held c True V es' \<and> free_dir es' ?p) es"
        by (rule wp_mono[OF adopt_wp[OF names(1) refl names(2) st ready left m]]) (auto simp: swappable_def)
      have lib: "is_library_dir ?n (Sibling (cc_phys c))" using names(1) by (simp add: names_ok_def is_library_dir_def)
      show ?thesis
      proof (cases overwrite)
        case True
        then have rep: "replaceable overwrite (V ?n)" by (simp add: replaceable_def stored)
        have tail: "wp (committing c overwrite V) ?tail (\<lambda>previous es'. replaceable overwrite (V (cc_name c)) \<and> stable (swapped c V) es' \<and> after_swap c previous es')
          (\<lambda>_ es'. blocked env c overwrite V \<and> held c overwrite V es' \<and> free_dir es' ?p) e"
          if "stable (adopted c V) e \<and> swappable c e \<and> map_of e ?n = Some (Symlink (Sibling (cc_phys c)))" for e
          using that lib rep True by (intro swap[OF _ _ _ _ _ _ disjI2[OF conjI[OF True refl]]]) auto
        have "wp (committing c overwrite V) (io_then (adopt_pre_commit_dir env ?n fresh) (\<lambda>_. ?tail))
          (\<lambda>previous es'. replaceable overwrite (V (cc_name c)) \<and> stable (swapped c V) es' \<and> after_swap c previous es')
          (\<lambda>_ es'. blocked env c overwrite V \<and> held c overwrite V es' \<and> free_dir es' ?p) es"
          by (rule wp_then, rule wp_mono[OF adopt]) (erule tail | use True in \<open>simp add: blocked_def held_committing\<close>)+
        then show ?thesis
          unfolding swap_link_def Let_def using True m
          by (intro wp_then wp_read) (auto simp: lexists_def link_target_def is_plain_folder_def io_when_def)
      next
        case False
        then have "\<not> replaceable overwrite (V ?n)" by (simp add: replaceable_def stored)
        then show ?thesis
          unfolding swap_link_def Let_def using refuse m False
          by (intro wp_then wp_read) (auto simp: lexists_def link_target_def is_plain_folder_def)
      qed
    next
      case (Symlink t)
      note m = Some[unfolded Symlink]
      have lib: "V ?n \<noteq> Absent \<and> (\<forall>u. V ?n \<noteq> Foreign u) \<and> V ?n \<noteq> User_File" if l: "is_library_dir ?n t"
      proof -
        obtain q where q: "t = Sibling q" "internal_entry q = Some (?n, Committed)" using l by (auto simp: library_target)
        have "\<exists>f. folder_of es q = Some f" using live[of q] m q path_exists_committed(3)[OF ok q(2)] by simp
        then obtain f where "folder_of es q = Some f" by blast
        then show ?thesis using V view m q(1) l by (simp del: folder_of_Some)
      qed
      have foreign: "V ?n = Foreign t" if "\<not> is_library_dir ?n t" using V view m that by simp
      show ?thesis
      proof (cases "overwrite \<and> is_library_dir ?n t")
        case True
        then have "replaceable overwrite (V ?n)" using lib by (auto simp: replaceable_def split: view.splits)
        then show ?thesis
          unfolding swap_link_def Let_def using swap[OF st ready_swappable[OF ready left] _ _ _ _ disjI1[OF refl]] m True
          by (intro wp_then wp_read) (auto simp: lexists_def link_target_def is_plain_folder_def io_when_def intro!: wp_then wp_pure)
      next
        case False
        then have "\<not> replaceable overwrite (V ?n)" using lib foreign by (cases "is_library_dir ?n t") (auto simp: replaceable_def split: view.splits)
        then show ?thesis
          unfolding swap_link_def Let_def using refuse m False
          by (intro wp_then wp_read) (auto simp: lexists_def link_target_def is_plain_folder_def io_when_def intro!: wp_then wp_read wp_pure)
      qed
    qed
  qed
qed

lemma drop_failed_commit_wp:
  assumes names: "names_ok c" and st: "stable V es" and free: "free_dir es (cc_path c)"
  shows "wp (stable V) (drop_failed_commit env (cc_path c)) (\<lambda>_. stable V) (\<lambda>_ es'. stable V es') es"
proof -
  let ?p = "cc_path c" and ?s = "cc_path c @ ending_text Staging"
  have nm: "user_name (cc_name c)" "internal_entry ?s = Some (cc_name c, Staging)" "newline \<notin> set ?s" "internal_entry ?p = Some (cc_name c, Committed)"
    using names by (auto simp: names_ok_def)
  have drop: "wp (stable V) (io_step env (unlink_at ?s)) (\<lambda>_ e. stable V e \<and> free_dir e ?p) (\<lambda>_. stable V) es"
  proof (rule wp_step)
    fix e1 assume "unlink_at ?s es = Inr e1"
    then have e1: "map_of e1 = (map_of es)(?s := None)" "dict_ok e1" using unlink_at_Inr root_okD(1)[OF stable_ok[OF st]] by blast+
    have "same_view es e1" by (rule staging_change[OF stable_ok[OF st] nm(2,1,3) e1(2,1)]) simp
    moreover have "free_dir e1 ?p" using free nm by (auto simp: free_dir_def unused_by_def e1)
    ultimately show "stable V e1 \<and> stable V e1 \<and> free_dir e1 ?p" using stable_same[OF st] by blast
  qed (use st in auto)
  have tree: "wp (stable V) (rmtree env ?p) (\<lambda>_. stable V) (\<lambda>_. stable V) e1" if "stable V e1" "free_dir e1 ?p" for e1
    by (rule rmtree_wp[where J = "\<lambda>_. True", OF that]) auto
  show ?thesis
    unfolding drop_failed_commit_def Let_def
    by (intro wp_then wp_read wp_when, rule wp_mono[OF drop]) (use tree st free in auto)
qed

lemma retire_wp:
  assumes st: "stable V es" and free: "free_dir es q" and q: "internal_entry q = Some (n, Committed)"
  shows "wp (stable V) (retire env q) (\<lambda>_ e. stable V e \<and> (\<forall>k. user_name k \<longrightarrow> map_of e k = map_of es k)) E es"
proof -
  let ?d = "q @ ending_text Deleting"
  have n: "user_name n" "newline \<notin> set q" using free q by (auto simp: free_dir_def)
  have d: "internal_entry ?d = Some (n, Deleting)" "newline \<notin> set ?d" using internal_entry_retired[OF q n(2,1)] by auto
  have "wp (stable V) (io_step env (rename_at q ?d)) (\<lambda>_ e. stable V e \<and> (\<forall>k. user_name k \<longrightarrow> map_of e k = map_of es k))
      (\<lambda>_ e. stable V e \<and> (\<forall>k. user_name k \<longrightarrow> map_of e k = map_of es k)) es"
  proof (rule wp_step)
    fix e2 assume "rename_at q ?d es = Inr e2"
    moreover have "q \<noteq> ?d" using q d by auto
    ultimately obtain e where e: "map_of es q = Some e" "map_of e2 = (map_of es)(q := None, ?d \<mapsto> e)" "dict_ok es \<longrightarrow> dict_ok e2"
      using rename_at_Inr by blast
    then obtain f where f: "e = Folder f" using root_ok_internal(3)[OF stable_ok[OF st] e(1) q] by blast
    have dict: "dict_ok es" by (rule root_okD(1)[OF stable_ok[OF st]])
    define e1 where "e1 = AList.delete q es"
    have e1: "map_of e1 = (map_of es)(q := None)" "dict_ok e1" using dict by (simp_all add: e1_def dict_simps)
    have s1: "stable V e1" using free_dir_change(1)[OF stable_ok[OF st] free e1(2,1)] stable_same[OF st] by blast
    have "free_dir e1 ?d" using d n by (simp add: free_dir_def)
    moreover have "map_of e2 = (map_of e1)(?d := Some (Folder f))" by (simp add: e e1 f)
    ultimately have "same_view e1 e2" using free_dir_change(1)[OF stable_ok[OF s1] _ _ ] e(3) dict by blast
    moreover have "map_of e2 k = map_of es k" if "user_name k" for k using that q d e(2) by auto
    ultimately show "stable V e2 \<and> stable V e2 \<and> (\<forall>k. user_name k \<longrightarrow> map_of e2 k = map_of es k)" using stable_same[OF s1] by blast
  qed (use st in auto)
  then show ?thesis unfolding retire_def by (rule wp_logged)
qed

lemma retire_previous_wp:
  assumes names: "names_ok c" and st: "stable (swapped c V) es" and after: "after_swap c previous es"
  shows "wp (stable (swapped c V)) (retire_previous env previous)
     (\<lambda>_ e. stable (swapped c V) e \<and> map_of e (cc_name c) = Some (Symlink (Sibling (cc_path c)))) E es"
proof (cases previous)
  case None
  then show ?thesis using st after by (auto simp: retire_previous_def after_swap_def intro: wp_pure)
next
  case (Some t)
  then obtain q where q: "t = Sibling q" "internal_entry q = Some (cc_name c, Committed)" "q \<noteq> cc_path c"
    using after by (auto simp: after_swap_def)
  have link: "map_of es (cc_name c) = Some (Symlink (Sibling (cc_path c)))" using after by (simp add: after_swap_def)
  have n: "user_name (cc_name c)" using names by (simp add: names_ok_def)
  have "wp (stable (swapped c V)) (retire env q)
     (\<lambda>_ e. stable (swapped c V) e \<and> map_of e (cc_name c) = Some (Symlink (Sibling (cc_path c)))) E es" if present: "path_exists env es t"
  proof (rule wp_mono[OF retire_wp[OF st _ q(2)]])
    obtain f where f: "map_of es q = Some (Folder f)" using present path_exists_committed(1)[OF stable_ok[OF st] q(2)] q(1) by blast
    have "map_of es k \<noteq> Some (Symlink (Sibling q))" if "internal_entry k = Some (cc_name c, Adopting)" for k
      using after that by (auto simp: after_swap_def no_leftovers_def)
    then show "free_dir es q"
      using root_ok_internal(1,2)[OF stable_ok[OF st] f q(2)] q(2,3) after
      by (auto simp: free_dir_def unused_by_def after_swap_def)
  qed (use link n in auto)
  then show ?thesis
    using Some q(1) st link by (auto simp: retire_previous_def intro!: wp_then wp_read wp_when)
qed

lemma commit_wp:
  assumes names: "names_ok c" "cc_phys c = physical_dir (cc_name c) fresh" "cc_path c = physical_dir (cc_name c) commit_id"
    and st: "stable V es" and ready: "ready c es"
  shows "wp (committing c overwrite V) (commit_adapter_dir env fresh (cc_name c) (cc_path c) commit_id overwrite)
     (\<lambda>r es'. replaceable overwrite (V (cc_name c)) \<and> r = (cc_path c, commit_id) \<and> stable (swapped c V) es' \<and>
        map_of es' (cc_name c) = Some (Symlink (Sibling (cc_path c))))
     (\<lambda>_ es'. blocked env c overwrite V \<and> committing c overwrite V es') es"
    (is "wp ?I ?m ?Q ?E es")
proof -
  let ?n = "cc_name c" and ?p = "cc_path c"
  have nm: "user_name ?n" "internal_entry ?p = Some (?n, Committed)" using names(1) by (auto simp: names_ok_def)
  have present: "folder_at env es (Sibling ?p) \<noteq> None"
    using path_exists_committed(2)[OF stable_ok[OF st] nm(2)] ready by (simp add: ready_def folder_of_def)
  have start: "wp ?I (delete_unreferenced env (Some ?n) (Some ?p))
      (\<lambda>_ e. stable V e \<and> ready c e \<and> (\<exists>referenced. settled (Some ?n) referenced e)) ?E es"
    by (rule wp_mono[OF delete_unreferenced_wp[OF st, where J = "ready c"]]) (use ready ready_kept[OF names(1)] in \<open>auto simp: blocked_def committing_def held_def\<close>)
  have swap: "wp ?I (or_clean_up (swap_link env fresh ?n ?p overwrite) (drop_failed_commit env ?p))
      (\<lambda>previous e. replaceable overwrite (V ?n) \<and> stable (swapped c V) e \<and> after_swap c previous e) ?E e"
    if e: "stable V e" "ready c e" "settled (Some ?n) referenced e" for e referenced
  proof (rule wp_or_clean_up, rule wp_mono[OF swap_link_wp[OF names(1,2) e(1,2)]])
    show "no_leftovers c e" using e(3) by (auto simp: settled_def no_leftovers_def selected_def)
    show "map_of e q \<noteq> None" if "map_of e ?n = Some (Symlink (Sibling q))" "internal_entry q = Some (?n, Committed)" for q
      using e(3) that nm(1) unfolding settled_def selected_def by blast
    show "wp ?I (drop_failed_commit env ?p) (\<lambda>_. ?E x) ?E e'" if h: "blocked env c overwrite V \<and> held c overwrite V e' \<and> free_dir e' ?p" for x e'
    proof -
      obtain W where W: "stable W e'" "W = V \<or> overwrite \<and> W = adopted c V" using h unfolding held_def by blast
      then have "committing c overwrite V e" if "stable W e" for e using that by (auto simp: committing_def held_def)
      moreover have "committing c overwrite V e'" using calculation W(1) .
      ultimately show ?thesis
        by (intro wp_mono[OF drop_failed_commit_wp[OF names(1) W(1)]]) (use h in simp_all)
    qed
  qed auto
  have sync: "wp ?I (fsync env) (\<lambda>_ e'. replaceable overwrite (V ?n) \<and> stable (swapped c V) e' \<and> after_swap c previous e') ?E e"
    if "replaceable overwrite (V ?n) \<and> stable (swapped c V) e \<and> after_swap c previous e" for previous e
    unfolding fsync_def by (rule wp_step) (use that in \<open>auto simp: blocked_def committing_def\<close>)
  have finish: "wp ?I (io_then (retire_previous env previous) (\<lambda>_. io_pure (?p, commit_id))) ?Q ?E e"
    if "replaceable overwrite (V ?n) \<and> stable (swapped c V) e \<and> after_swap c previous e" for previous e
    by (rule wp_then_pure, rule wp_mono[OF retire_previous_wp[OF names(1), where previous = previous]]) (use that in \<open>auto simp: committing_def\<close>)
  have rest: "wp ?I (io_then (io_read (\<lambda>es. link_target es ?n)) (\<lambda>current.
            if current = Some (Sibling ?p) then io_pure (?p, commit_id)
            else io_then (or_clean_up (swap_link env fresh ?n ?p overwrite) (drop_failed_commit env ?p)) (\<lambda>previous.
              io_then (fsync env) (\<lambda>_.
              io_then (retire_previous env previous) (\<lambda>_. io_pure (?p, commit_id)))))) ?Q ?E e"
    if e: "stable V e \<and> ready c e \<and> (\<exists>referenced. settled (Some ?n) referenced e)" for e
  proof (rule wp_then, rule wp_read)
    obtain referenced where r: "settled (Some ?n) referenced e" using e by blast
    have "link_target e ?n \<noteq> Some (Sibling ?p)" using e by (auto simp: ready_def unlinked_def)
    moreover have "wp ?I (io_then (or_clean_up (swap_link env fresh ?n ?p overwrite) (drop_failed_commit env ?p)) (\<lambda>previous.
              io_then (fsync env) (\<lambda>_. io_then (retire_previous env previous) (\<lambda>_. io_pure (?p, commit_id))))) ?Q ?E e"
      by (rule wp_then, rule wp_mono[OF swap[OF _ _ r]], use e in blast, use e in blast, assumption,
          rule wp_then, erule wp_mono[OF sync], assumption, erule finish, assumption, assumption)
    ultimately show "wp ?I (if link_target e ?n = Some (Sibling ?p) then io_pure (?p, commit_id)
            else io_then (or_clean_up (swap_link env fresh ?n ?p overwrite) (drop_failed_commit env ?p)) (\<lambda>previous.
              io_then (fsync env) (\<lambda>_.
              io_then (retire_previous env previous) (\<lambda>_. io_pure (?p, commit_id))))) ?Q ?E e" by simp
  qed
  have main: "wp ?I (io_then (delete_unreferenced env (Some ?n) (Some ?p)) (\<lambda>_. io_then (io_read (\<lambda>es. link_target es ?n)) (\<lambda>current.
            if current = Some (Sibling ?p) then io_pure (?p, commit_id)
            else io_then (or_clean_up (swap_link env fresh ?n ?p overwrite) (drop_failed_commit env ?p)) (\<lambda>previous.
              io_then (fsync env) (\<lambda>_.
              io_then (retire_previous env previous) (\<lambda>_. io_pure (?p, commit_id))))))) ?Q ?E es"
    by (rule wp_then, rule wp_mono[OF start], assumption, erule rest, assumption)
  show ?thesis
    unfolding commit_adapter_dir_def
    by (subst if_not_P, use names(3) in simp, rule wp_then, rule wp_read, subst if_not_P, rule present, rule main)
qed

section \<open>Writing\<close>

lemma wp_as_rank_failure: "wp I m Q (\<lambda>_. E RankFailure) es \<Longrightarrow> wp I (as_rank_failure m) Q E es"
  by (rule wp_sequence[of I m io_pure Q E "\<lambda>_. io_raise RankFailure"], rule wp_mono, assumption)
    (auto intro: wp_pure wp_raise simp: as_rank_failure_def io_pure_def io_raise_def split: prod.splits sum.splits)

text \<open>The directory being written: the rest of the root is as it was.\<close>

definition writing :: "(string \<Rightarrow> view) \<Rightarrow> root_dir \<Rightarrow> string \<Rightarrow> folder \<Rightarrow> root_dir \<Rightarrow> bool" where
  "writing V es path f e \<longleftrightarrow> stable V e \<and> map_of e = (map_of es)(path \<mapsto> Folder f)"

lemma writing_free:
  assumes "writing V es path f e" "unlinked es path" "internal_entry path = Some (n, Committed)" "user_name n" "newline \<notin> set path"
  shows "free_dir e path"
  using assms by (auto simp: writing_def free_dir_def unused_by_def unlinked_def)

lemma write_files_wp:
  assumes path: "internal_entry path = Some (n, Committed)" "user_name n" "newline \<notin> set path" "unlinked es path"
    and w: "writing V es path present e"
  shows "wp (stable V) (write_files env path files present) (\<lambda>all e'. all = present @ files \<and> writing V es path all e')
     (\<lambda>_ e'. faulty env \<and> (\<exists>f. writing V es path f e')) e"
  unfolding write_files_def
proof (rule wp_fold[where J = "\<lambda>xs s e'. s @ xs = present @ files \<and> writing V es path s e'"])
  fix x xs s e1 assume h: "s @ x # xs = present @ files \<and> writing V es path s e1"
  have "wp (stable V) (io_step env (set_folder path (s @ [x]))) (\<lambda>_ e'. (s @ [x]) @ xs = present @ files \<and> writing V es path (s @ [x]) e')
     (\<lambda>_ e'. faulty env \<and> (\<exists>f. writing V es path f e')) e1"
  proof (rule wp_step)
    fix e2 assume "set_folder path (s @ [x]) e1 = Inr e2"
    then have e2: "map_of e2 = (map_of e1)(path \<mapsto> Folder (s @ [x]))" "dict_ok e2"
      using set_folder_Inr root_okD(1)[OF stable_ok] h unfolding writing_def by blast+
    have "same_view e1 e2"
      by (rule free_dir_change(1)[OF stable_ok writing_free e2(2,1)]) (use h path in \<open>auto simp: writing_def\<close>)
    then have "stable V e2" using stable_same h unfolding writing_def by blast
    then show "stable V e2 \<and> (s @ [x]) @ xs = present @ files \<and> writing V es path (s @ [x]) e2"
      using h e2(1) by (simp add: writing_def)
  qed (use h in \<open>auto simp: set_folder_def is_plain_folder_iff writing_def\<close>)
  then show "wp (stable V) (io_then (io_step env (set_folder path (s @ [x]))) (\<lambda>_. io_pure (s @ [x])))
     (\<lambda>s' e'. s' @ xs = present @ files \<and> writing V es path s' e') (\<lambda>_ e'. faulty env \<and> (\<exists>f. writing V es path f e')) e1"
    by (rule wp_then_pure)
qed (use w in auto)

lemma physical_newline: "adapter_name n \<Longrightarrow> commit_id_ok c \<Longrightarrow> newline \<notin> set (physical_dir n c)"
proof -
  assume h: "adapter_name n" "commit_id_ok c"
  have "\<not> is_hex newline" by (simp add: is_hex_def newline_def)
  then have "newline \<notin> set c" using h(2) unfolding commit_id_ok_def by blast
  moreover have "newline \<noteq> CHR ''.''" by (simp add: newline_def)
  ultimately show ?thesis using h(1) by (simp add: physical_dir_def adapter_name_def)
qed

lemma write_wp:
  assumes names: "adapter_name n" "commit_id_ok commit_id" and path: "path = physical_dir n commit_id"
    and st: "stable V es" and fresh: "map_of es path = None" "unlinked es path"
  shows "wp (stable V) (write_adapter_dir env n commit_id owner files)
     (\<lambda>r e. r = path \<and> (\<exists>f. files = Some f \<and> writing V es path (tenant_file owner @ f) e))
     (\<lambda>_ e. (faulty env \<or> files = None) \<and> stable V e) es"
proof -
  have nm: "internal_entry path = Some (n, Committed)" "user_name n" "newline \<notin> set path"
    using names physical_newline[OF names] by (simp_all add: path adapter_name_def)
  have clean: "wp (stable V) (rmtree env path) (\<lambda>_. stable V) E e" if w: "writing V es path f e" for f e E
  proof -
    have "stable V e" using w by (simp add: writing_def)
    then show ?thesis by (rule rmtree_wp[where J = "\<lambda>_. True", OF _ writing_free[OF w fresh(2) nm]]) auto
  qed
  have make: "wp (stable V) (io_step env (mkdir_at path)) (\<lambda>_. writing V es path []) (\<lambda>_ e. faulty env \<and> stable V e) es"
  proof (rule wp_step)
    fix e1 assume "mkdir_at path es = Inr e1"
    then have e1: "map_of e1 = (map_of es)(path \<mapsto> Folder [])" "dict_ok e1" using mkdir_at_Inr root_okD(1)[OF stable_ok[OF st]] by blast+
    have "free_dir es path" using fresh(2) nm by (auto simp: free_dir_def unused_by_def unlinked_def)
    then have "same_view es e1" using free_dir_change(1)[OF stable_ok[OF st] _ e1(2,1)] by blast
    then show "stable V e1 \<and> writing V es path [] e1" using e1(1) stable_same[OF st] by (simp add: writing_def)
  qed (use st fresh in \<open>auto simp: mkdir_at_def lexists_def\<close>)
  have prepare: "wp (stable V) (as_rank_failure (io_then (io_step env (mkdir_at path)) (\<lambda>_. or_clean_up (write_files env path (tenant_file owner) []) (rmtree env path))))
      (\<lambda>all e. writing V es path (tenant_file owner) e \<and> all = tenant_file owner) (\<lambda>_ e. faulty env \<and> stable V e) es"
  proof (rule wp_as_rank_failure, rule wp_then, rule wp_mono[OF make])
    fix u e1 assume e1: "writing V es path [] e1"
    show "wp (stable V) (or_clean_up (write_files env path (tenant_file owner) []) (rmtree env path))
      (\<lambda>all e. writing V es path (tenant_file owner) e \<and> all = tenant_file owner) (\<lambda>_ e. faulty env \<and> stable V e) e1"
      by (rule wp_or_clean_up, rule wp_mono[OF write_files_wp[OF nm fresh(2) e1]]) (auto intro: wp_mono[OF clean])
  qed auto
  have body: "wp (stable V) (or_clean_up (as_rank_failure (io_then (case files of None \<Rightarrow> io_raise OsFailure | Some f \<Rightarrow> write_files env path f (tenant_file owner))
        (\<lambda>all. io_fold (\<lambda>_ _. fsync env) [0..<length all + 1] ()))) (rmtree env path))
      (\<lambda>_ e. \<exists>f. files = Some f \<and> writing V es path (tenant_file owner @ f) e) (\<lambda>_ e. (faulty env \<or> files = None) \<and> stable V e) e1"
    if e1: "writing V es path (tenant_file owner) e1" for e1
  proof -
    have st1: "stable V e1" using e1 by (simp add: writing_def)
    have sync: "wp (stable V) (io_fold (\<lambda>_ _. fsync env) xs ()) (\<lambda>_. writing V es path g) (\<lambda>_ e. faulty env \<and> writing V es path g e) e"
      if "writing V es path g e" for xs :: "nat list" and g e
      by (rule wp_fold[where J = "\<lambda>_ _. writing V es path g"])
        (use that in \<open>auto simp: fsync_def writing_def intro!: wp_step\<close>)
    have "wp (stable V) (io_then (case files of None \<Rightarrow> io_raise OsFailure | Some f \<Rightarrow> write_files env path f (tenant_file owner))
        (\<lambda>all. io_fold (\<lambda>_ _. fsync env) [0..<length all + 1] ()))
      (\<lambda>_ e. \<exists>f. files = Some f \<and> writing V es path (tenant_file owner @ f) e)
      (\<lambda>_ e. (faulty env \<or> files = None) \<and> (\<exists>f. writing V es path f e)) e1"
    proof (cases files)
      case None
      then show ?thesis using e1 by (auto intro!: wp_then wp_raise)
    next
      case (Some f)
      show ?thesis
        unfolding Some option.case
      proof (rule wp_then, rule wp_mono[OF write_files_wp[OF nm fresh(2) e1]])
        fix all e assume "all = tenant_file owner @ f \<and> writing V es path all e"
        then show "wp (stable V) (io_fold (\<lambda>_ _. fsync env) [0..<length all + 1] ())
          (\<lambda>_ e. \<exists>fa. Some f = Some fa \<and> writing V es path (tenant_file owner @ fa) e)
          (\<lambda>_ e. (faulty env \<or> Some f = None) \<and> (\<exists>f. writing V es path f e)) e"
          by (intro wp_mono[OF sync]) auto
      qed auto
    qed
    then show ?thesis
      by (intro wp_or_clean_up wp_as_rank_failure, elim wp_mono) (auto intro: wp_mono[OF clean])
  qed
  show ?thesis
    unfolding write_adapter_dir_def Let_def path[symmetric]
    by (subst if_not_P, use nm(2) in simp, rule wp_then, rule wp_mono[OF prepare], assumption, elim conjE, hypsubst,
        rule wp_then_pure, rule wp_mono[OF body]) auto
qed

end
