(* ===== verification/Adapter_Store.thy ===== *)
theory Adapter_Store
  imports Commit_Safety
begin

text \<open>
  What the calls of \<^verbatim>\<open>commit.py\<close> promise their callers: a commit is atomic under failures and crashes,
  recovery is invisible and leaves nothing over, and what was saved resolves to what was written, for its
  owner only.
\<close>

section \<open>Resolving a name\<close>

lemma commit_id_of_physical: "commit_id_ok c \<Longrightarrow> commit_id_of (physical_dir n c) = c"
proof -
  assume "commit_id_ok c"
  moreover have "\<not> is_hex CHR ''.''" by (simp add: is_hex_def)
  ultimately have "\<forall>x \<in> set (rev c). x \<noteq> CHR ''.''" unfolding commit_id_ok_def by (metis set_rev)
  then have "takeWhile (\<lambda>x. x \<noteq> CHR ''.'') (rev c @ CHR ''.'' # rest) = rev c" for rest
    by (subst takeWhile_append2) auto
  then show ?thesis by (simp add: commit_id_of_def physical_dir_def)
qed

lemma folder_of_eq: "map_of es q = Some (Folder f) \<Longrightarrow> folder_of es q = Some f"
  by simp

definition access :: "(string \<Rightarrow> string) \<Rightarrow> folder \<Rightarrow> string option \<Rightarrow> os_exn + unit" where
  "access digest f tenant = (case tenant of
       None \<Rightarrow> Inr ()
     | Some who \<Rightarrow> rbind (owner_of f) (\<lambda>owner. guard NotOwner (py_eq owner (JStr (digest who)))))"

lemma resolve_link:
  assumes "root_ok es" "user_name n" "map_of es n = Some (Symlink (Sibling p))" "internal_entry p = Some (n, Committed)"
  shows "resolve_adapter_dir env digest es n tenant = (case folder_of es p of
       None \<Rightarrow> Inr None
     | Some f \<Rightarrow> rbind (access digest f tenant) (\<lambda>_. Inr (Some (p, commit_id_of p))))"
proof -
  have "link_target es n = Some (Sibling p)" "is_library_dir n (Sibling p)" using assms by (simp_all add: is_library_dir_def)
  then show ?thesis
    using assms(2) path_exists_committed(2)[OF assms(1,4), of env]
    by (simp add: resolve_adapter_dir_def access_def split: option.split del: link_target_iff folder_of_Some)
qed

lemma resolve_SomeD:
  assumes ok: "root_ok es" and r: "resolve_adapter_dir env digest es n tenant = Inr (Some (p, c))"
  shows "user_name n" "map_of es n = Some (Symlink (Sibling p))" "internal_entry p = Some (n, Committed)" "c = commit_id_of p"
    "\<exists>f. map_of es p = Some (Folder f) \<and> view es n = Stored p f \<and> access digest f tenant = Inr ()"
proof -
  show n: "user_name n" using r by (auto simp: resolve_adapter_dir_def split: if_splits)
  then obtain t where t: "map_of es n = Some (Symlink t)" "is_library_dir n t"
    using r by (auto simp: resolve_adapter_dir_def split: option.splits if_splits)
  obtain q where q: "t = Sibling q" "internal_entry q = Some (n, Committed)" using t(2) by (auto simp: library_target)
  have m: "map_of es n = Some (Symlink (Sibling q))" using t q by simp
  obtain f where f: "folder_of es q = Some f" "access digest f tenant = Inr ()" "p = q" "c = commit_id_of q"
    using r unfolding resolve_link[OF ok n m q(2)] by (auto simp: result_simps simp del: folder_of_Some split: option.splits)
  show "map_of es n = Some (Symlink (Sibling p))" "internal_entry p = Some (n, Committed)" "c = commit_id_of p" using m q f by simp_all
  show "\<exists>f. map_of es p = Some (Folder f) \<and> view es n = Stored p f \<and> access digest f tenant = Inr ()"
    using f m q by (auto simp: view_def is_library_dir_def folder_of_eq)
qed

lemma owner_of_tenant_file: "owner_of (tenant_file (Some d) @ f) = Inr (JStr d)"
  by (simp add: owner_of_def tenant_file_def)

lemma access_tenant_file:
  "access digest (tenant_file (Some d) @ f) tenant = (case tenant of None \<Rightarrow> Inr () | Some who \<Rightarrow> guard NotOwner (d = digest who))"
  by (simp add: access_def owner_of_tenant_file py_eq_def split: option.split)

section \<open>Commits\<close>

text \<open>A commit under fresh ids: what \<^verbatim>\<open>secrets.token_hex\<close> yields is used nowhere in the root.\<close>

definition unused_id :: "root_dir \<Rightarrow> string \<Rightarrow> string \<Rightarrow> bool" where
  "unused_id es n c \<longleftrightarrow> commit_id_ok c \<and> unlinked es (physical_dir n c) \<and> map_of es (physical_dir n c @ ending_text Adopting) = None"

lemma commit_names:
  assumes "adapter_name n" "commit_id_ok c" "commit_id_ok fresh"
  shows "names_ok \<lparr>cc_name = n, cc_path = physical_dir n c, cc_phys = physical_dir n fresh, cc_folder = f\<rparr>"
proof -
  have "newline \<notin> set (ending_text e)" for e by (cases e) (simp_all add: ending_text_def newline_def)
  then show ?thesis
    using assms physical_newline[OF assms(1)] internal_entry_physical[OF assms(1)]
    by (simp add: names_ok_def adapter_name_def)
qed

lemma run_on_disk:
  assumes "wp I m Q E es" "m (on_disk es) = (r, d)"
  shows "\<forall>e \<in> set (trail d). I e" "case r of Inl x \<Rightarrow> E x (entries d) | Inr x \<Rightarrow> Q x (entries d)"
  using wpE[OF assms(1), of "on_disk es"] assms(2) by (auto simp: on_disk_def)

text \<open>What a name holds while a commit of \<open>f\<close> at \<open>p\<close> is under way: what it held, the same directory under
  the committed layout, or, when it may be replaced, the new one.\<close>

definition during_commit :: "bool \<Rightarrow> string \<Rightarrow> string \<Rightarrow> folder \<Rightarrow> view \<Rightarrow> view \<Rightarrow> bool" where
  "during_commit overwrite phys p f before v \<longleftrightarrow>
     v = before \<or> overwrite \<and> (\<exists>g. before = Plain g \<and> v = Stored phys g) \<or> replaceable overwrite before \<and> v = Stored p f"

lemma committing_during:
  assumes "committing \<lparr>cc_name = n, cc_path = p, cc_phys = phys, cc_folder = f\<rparr> overwrite (view es) e" "user_name n"
  shows "root_ok e \<and> (\<forall>m. user_name m \<longrightarrow> m \<noteq> n \<longrightarrow> view e m = view es m) \<and> during_commit overwrite phys p f (view es n) (view e n)"
  using assms unfolding committing_def held_def stable_def during_commit_def adopted_def
  by (auto split: view.splits)

text \<open>
  C6. A commit is atomic.  From a well-formed root that holds the written directory, under unused ids,
  whichever of its steps fail, every state it leaves on disk, so every state a crash can leave, is well
  formed, every other name stands for what it did, and the name itself stands for what it did (a plain
  directory possibly moved to the committed layout) or, if it was replaceable, for the new directory.
  It returns normally exactly with the new directory in place, and raises only if a step failed or the
  name was not replaceable.
\<close>

theorem commit_is_atomic:
  assumes "root_ok es" "adapter_name n" "map_of es (physical_dir n c) = Some (Folder f)"
    and "unused_id es n c" "unused_id es n fresh" "map_of es (physical_dir n fresh) = None"
    and "commit_adapter_dir env fresh n (physical_dir n c) c overwrite (on_disk es) = (r, d)"
  shows "(\<forall>e \<in> insert (entries d) (set (trail d)). root_ok e \<and> (\<forall>m. user_name m \<longrightarrow> m \<noteq> n \<longrightarrow> view e m = view es m) \<and>
           during_commit overwrite (physical_dir n fresh) (physical_dir n c) f (view es n) (view e n)) \<and>
         (case r of
            Inr committed \<Rightarrow> committed = (physical_dir n c, c) \<and> replaceable overwrite (view es n) \<and>
              view (entries d) n = Stored (physical_dir n c) f
          | Inl x \<Rightarrow> faulty env \<or> \<not> replaceable overwrite (view es n))"
proof -
  let ?c = "\<lparr>cc_name = n, cc_path = physical_dir n c, cc_phys = physical_dir n fresh, cc_folder = f\<rparr>"
  have n: "user_name n" using assms(2) by (simp add: adapter_name_def)
  have ids: "commit_id_ok c" "commit_id_ok fresh" using assms(4,5) by (simp_all add: unused_id_def)
  have st: "stable (view es) es" using assms(1) by (simp add: stable_def)
  have "ready ?c es" using assms(3-6) by (simp add: ready_def unused_id_def)
  then have w: "wp (committing ?c overwrite (view es)) (commit_adapter_dir env fresh n (physical_dir n c) c overwrite)
      (\<lambda>r es'. replaceable overwrite (view es n) \<and> r = (physical_dir n c, c) \<and> stable (swapped ?c (view es)) es' \<and>
        map_of es' n = Some (Symlink (Sibling (physical_dir n c))))
      (\<lambda>_ es'. blocked env ?c overwrite (view es) \<and> committing ?c overwrite (view es) es') es"
    using commit_wp[OF commit_names[OF assms(2) ids, of f], where V = "view es" and env = env and overwrite = overwrite] st by simp
  note run = run_on_disk[OF w assms(7)]
  have last: "committing ?c overwrite (view es) (entries d)"
    using run(2) by (auto simp: committing_def split: sum.splits)
  then show ?thesis
    using run committing_during[OF _ n] n
    by (auto simp: blocked_def stable_def split: sum.splits)
qed

section \<open>Recovery\<close>

lemma tidy_resolves:
  assumes "root_ok es" "tidy es" "user_name n" "view es n = Stored p f"
  shows "resolve_adapter_dir env digest es n None = Inr (Some (p, commit_id_of p))"
  using tidy_visible[OF assms(1,2,4)] resolve_link[OF assms(1,3)] by (simp add: access_def folder_of_eq)

text \<open>
  C7. Recovery is invisible and complete.  From a well-formed root, such as any crash leaves, no step of
  recovery changes what a name stands for, whichever steps fail and wherever it is interrupted in turn.
  If no step fails it returns, and then every entry of the library that is left is a committed directory
  some link leads to, and every name that holds a committed directory resolves to it.
\<close>

theorem recovery_is_invisible:
  assumes "root_ok es" "delete_unreferenced env None None (on_disk es) = (r, d)"
  shows "(\<forall>e \<in> insert (entries d) (set (trail d)). root_ok e \<and> (\<forall>m. user_name m \<longrightarrow> view e m = view es m)) \<and>
         (\<not> faulty env \<longrightarrow> r = Inr () \<and> tidy (entries d) \<and>
            (\<forall>m p f. user_name m \<longrightarrow> view es m = Stored p f \<longrightarrow>
               resolve_adapter_dir env digest (entries d) m None = Inr (Some (p, commit_id_of p))))"
proof -
  note run = run_on_disk[OF recovery_wp[OF assms(1)] assms(2)]
  have last: "stable (view es) (entries d)" using run(2) by (auto split: sum.splits)
  moreover have "r = Inr () \<and> tidy (entries d)" if "\<not> faulty env" using run(2) that by (auto split: sum.splits)
  moreover have "resolve_adapter_dir env digest (entries d) m None = Inr (Some (p, commit_id_of p))"
    if "tidy (entries d)" "user_name m" "view es m = Stored p f" for m p f
    using tidy_resolves[OF stable_ok[OF last] that(1,2)] last that(2,3) by (simp add: stable_def)
  ultimately show ?thesis using run(1) unfolding stable_def by blast
qed

section \<open>Saving\<close>

text \<open>What the trainer writes and the gateway then commits.\<close>

definition save_adapter ::
  "environment \<Rightarrow> string \<Rightarrow> string \<Rightarrow> string \<Rightarrow> string option \<Rightarrow> folder option \<Rightarrow> bool \<Rightarrow> (string \<times> string) io" where
  "save_adapter env fresh name commit_id owner files overwrite =
     io_then (write_adapter_dir env name commit_id owner files) (\<lambda>path. commit_adapter_dir env fresh name path commit_id overwrite)"

lemma writing_unused:
  assumes w: "writing V es path f e" and n: "adapter_name n" "path = physical_dir n c" "commit_id_ok c"
  shows "unlinked es q \<Longrightarrow> unlinked e q" "q \<noteq> path \<Longrightarrow> map_of e q = map_of es q"
  using w by (auto simp: writing_def unlinked_def split: if_splits)

lemma save_wp:
  assumes st: "stable V es" and n: "adapter_name n" and ids: "unused_id es n c" "unused_id es n fresh" "c \<noteq> fresh"
    and absent: "map_of es (physical_dir n c) = None" "map_of es (physical_dir n fresh) = None"
  shows "wp (\<lambda>e. \<exists>f. committing \<lparr>cc_name = n, cc_path = physical_dir n c, cc_phys = physical_dir n fresh, cc_folder = f\<rparr> overwrite V e)
     (save_adapter env fresh n c owner files overwrite)
     (\<lambda>r e. \<exists>f. files = Some f \<and> replaceable overwrite (V n) \<and> r = (physical_dir n c, c) \<and>
        stable (V(n := Stored (physical_dir n c) (tenant_file owner @ f))) e \<and>
        map_of e n = Some (Symlink (Sibling (physical_dir n c))))
     (\<lambda>_ e. (faulty env \<or> files = None \<or> \<not> replaceable overwrite (V n)) \<and>
        (\<exists>f. committing \<lparr>cc_name = n, cc_path = physical_dir n c, cc_phys = physical_dir n fresh, cc_folder = f\<rparr> overwrite V e)) es"
    (is "wp ?I _ ?Q ?E es")
proof -
  let ?p = "physical_dir n c" and ?q = "physical_dir n fresh"
  have ok: "commit_id_ok c" "commit_id_ok fresh" using ids by (simp_all add: unused_id_def)
  have held: "?I e" if "stable V e" for e using that by (auto simp: committing_def held_def)
  have pq: "?p \<noteq> ?q" using ids(3) by (simp add: physical_dir_def)
  have pa: "?q @ ending_text Adopting \<noteq> ?p"
  proof
    assume "?q @ ending_text Adopting = ?p"
    then show False using internal_entry_physical[OF n ok(2), of Adopting] internal_entry_committed[OF n ok(1)] by simp
  qed
  have commit: "wp ?I (commit_adapter_dir env fresh n ?p c overwrite) ?Q ?E e"
    if w: "writing V es ?p (tenant_file owner @ f) e" and f: "files = Some f" for e f
  proof -
    let ?c = "\<lparr>cc_name = n, cc_path = ?p, cc_phys = ?q, cc_folder = tenant_file owner @ f\<rparr>"
    have e: "stable V e" "map_of e ?p = Some (Folder (tenant_file owner @ f))" using w by (simp_all add: writing_def)
    note same = writing_unused[OF w n refl ok(1)]
    have "ready ?c e"
      using e(2) same(1)[of ?p] same(1)[of ?q] same(2)[of ?q] same(2)[OF pa] ids(1,2) absent(2) pq
      by (simp add: ready_def unused_id_def)
    then have "wp (committing ?c overwrite V) (commit_adapter_dir env fresh n ?p c overwrite)
      (\<lambda>r es'. replaceable overwrite (V n) \<and> r = (?p, c) \<and> stable (swapped ?c V) es' \<and> map_of es' n = Some (Symlink (Sibling ?p)))
      (\<lambda>_ es'. blocked env ?c overwrite V \<and> committing ?c overwrite V es') e"
      using commit_wp[OF commit_names[OF n ok, of "tenant_file owner @ f"], where V = V and env = env and overwrite = overwrite] e(1) by simp
    then show ?thesis by (rule wp_mono) (use f in \<open>auto simp: blocked_def\<close>)
  qed
  show ?thesis
    unfolding save_adapter_def
    by (rule wp_then, rule wp_mono[OF write_wp[OF n ok(1) refl st absent(1)]]) (use ids held commit in \<open>auto simp: unused_id_def\<close>)
qed

text \<open>
  C15. What is saved is what is found, by its owner only.  When writing and committing under unused ids
  returns, the name resolves for the tenant it was saved for to the directory and commit returned, which
  holds the tenant's digest and exactly the files written; a tenant with another digest is refused.
\<close>

theorem saved_adapter_resolves:
  assumes "root_ok es" "adapter_name n" "unused_id es n c" "unused_id es n fresh" "c \<noteq> fresh"
    and "map_of es (physical_dir n c) = None" "map_of es (physical_dir n fresh) = None"
    and "save_adapter env fresh n c (Some (digest tenant)) files overwrite (on_disk es) = (Inr (p, i), d)"
  shows "resolve_adapter_dir env digest (entries d) n (Some tenant) = Inr (Some (p, i)) \<and> i = c \<and>
         (\<exists>f. files = Some f \<and> folder_of (entries d) p = Some (tenant_file (Some (digest tenant)) @ f)) \<and>
         (\<forall>other. digest other \<noteq> digest tenant \<longrightarrow> resolve_adapter_dir env digest (entries d) n (Some other) = Inl NotOwner)"
proof -
  have n: "user_name n" using assms(2) by (simp add: adapter_name_def)
  have id: "commit_id_ok c" using assms(3) by (simp add: unused_id_def)
  have "stable (view es) es" using assms(1) by (simp add: stable_def)
  note run = run_on_disk(2)[OF save_wp[OF this assms(2-7)] assms(8)]
  then obtain f where f: "files = Some f" "p = physical_dir n c" "i = c" "map_of (entries d) n = Some (Symlink (Sibling p))"
    and st: "stable ((view es)(n := Stored p (tenant_file (Some (digest tenant)) @ f))) (entries d)" by auto
  have lib: "internal_entry p = Some (n, Committed)" using f(2) assms(2) id by simp
  have "view (entries d) n = Stored p (tenant_file (Some (digest tenant)) @ f)" using st n by (simp add: stable_def)
  then have "folder_of (entries d) p = Some (tenant_file (Some (digest tenant)) @ f)"
    using f(4) lib by (auto simp: view_def is_library_dir_def split: option.splits simp del: folder_of_Some)
  then show ?thesis
    using resolve_link[OF stable_ok[OF st] n f(4) lib] f(1-3) id
    by (simp add: access_tenant_file commit_id_of_physical guard_def del: folder_of_Some)
qed

section \<open>Deleting\<close>

lemma delete_adapter_wp:
  assumes st: "stable V es"
  shows "wp (\<lambda>e. stable V e \<or> stable (V(n := Absent)) e) (delete_adapter_dir env digest n tenant)
     (\<lambda>_ e. stable (V(n := Absent)) e \<and> (\<exists>p c. resolve_adapter_dir env digest es n tenant = Inr (Some (p, c))))
     (\<lambda>x e. stable V e \<and> (faulty env \<or> resolve_adapter_dir env digest es n tenant = Inl x \<or>
        resolve_adapter_dir env digest es n tenant = Inr None \<and> x = FileNotFound)) es"
proof (cases "\<exists>p c. resolve_adapter_dir env digest es n tenant = Inr (Some (p, c))")
  case False
  then have "(\<exists>e. resolve_adapter_dir env digest es n tenant = Inl e) \<or> resolve_adapter_dir env digest es n tenant = Inr None"
    by (metis option.exhaust prod.exhaust sum.exhaust)
  then show ?thesis
    unfolding delete_adapter_dir_def using st by (auto intro!: wp_then wp_read wp_raise)
next
  case True
  then obtain p c where r: "resolve_adapter_dir env digest es n tenant = Inr (Some (p, c))" by blast
  note res = resolve_SomeD[OF stable_ok[OF st] r]
  have gone: "stable (V(n := Absent)) e1 \<and> free_dir e1 p"
    if "map_of e1 = (map_of es)(n := None)" "dict_ok e1" for e1
  proof -
    note un = unlink_name[OF stable_ok[OF st] res(1) _ that(2,1)]
    obtain f where f: "map_of es p = Some (Folder f)" using res(5) by blast
    have "map_of es k \<noteq> Some (Symlink (Sibling p))" if k: "internal_entry k = Some (n, Adopting)" for k
    proof
      assume "map_of es k = Some (Symlink (Sibling p))"
      then have "adopts es k n" using k f by (simp add: adopts_def adoptee_def folder_of_eq)
      then show False using root_okD(3)[OF stable_ok[OF st]] res(2) by fastforce
    qed
    then have "free_dir e1 p"
      using root_ok_internal(1,2)[OF stable_ok[OF st] f res(3)] res(3) that(1)
      by (auto simp: free_dir_def unused_by_def split: if_splits)
    then show ?thesis using un st res(2) by (simp add: stable_def)
  qed
  have unlink: "wp (\<lambda>e. stable V e \<or> stable (V(n := Absent)) e) (io_step env (unlink_at n))
      (\<lambda>_ e. stable (V(n := Absent)) e \<and> free_dir e p) (\<lambda>_ e. stable V e \<and> faulty env) es"
  proof (rule wp_step)
    fix e1 assume "unlink_at n es = Inr e1"
    then show "(stable V e1 \<or> stable (V(n := Absent)) e1) \<and> stable (V(n := Absent)) e1 \<and> free_dir e1 p"
      using unlink_at_Inr gone root_okD(1)[OF stable_ok[OF st]] by blast
  qed (use st res(2) in \<open>auto simp: unlink_at_def\<close>)
  have retire: "wp (\<lambda>e. stable V e \<or> stable (V(n := Absent)) e) (retire env p) (\<lambda>_. stable (V(n := Absent))) E e1"
    if "stable (V(n := Absent)) e1 \<and> free_dir e1 p" for e1 E
    by (rule wp_mono[OF retire_wp[of "V(n := Absent)" e1 p n, where E = E]]) (use that res(3) in auto)
  show ?thesis
    unfolding delete_adapter_dir_def
    by (rule wp_then, rule wp_read, unfold r, simp, rule wp_then, rule wp_mono[OF unlink]) (auto intro: wp_mono[OF retire])
qed

section \<open>Examples\<close>

text \<open>A root with a committed checkpoint, one from before commits, a user's link and an interrupted adoption.\<close>

definition calm :: environment where
  "calm = \<lparr>fails = (\<lambda>_. False), leaves = (\<lambda>_ _. False), outside = (\<lambda>_ _. None)\<rparr>"

definition demo_id :: "char \<Rightarrow> string" where
  "demo_id x = ''000000000000000'' @ [x]"

definition demo_root :: root_dir where
  "demo_root =
     [(''w'', Symlink (Sibling (physical_dir ''w'' (demo_id CHR ''1'')))),
      (physical_dir ''w'' (demo_id CHR ''1''), Folder [(''adapter.safetensors'', Other_File)]),
      (''old'', Folder [(''META.json'', Other_File)]),
      (''shared'', Symlink (Elsewhere ''/mnt'' ''shared'')),
      (physical_dir ''a'' (demo_id CHR ''2'') @ ''.adopting'', Symlink (Sibling (physical_dir ''a'' (demo_id CHR ''2'')))),
      (physical_dir ''a'' (demo_id CHR ''2''), Folder [(''META.json'', Other_File)])]"

definition demo_written :: root_dir where
  "demo_written = demo_root @ [(physical_dir ''w'' (demo_id CHR ''3''), Folder [(''new'', Other_File)])]"

lemma map_sum_Inr_iff: "map_sum f g s = Inr y \<longleftrightarrow> (\<exists>x. s = Inr x \<and> g x = y)"
  by (cases s) auto

lemma calm_not_faulty: "\<not> faulty calm"
  by (simp add: faulty_def calm_def)

lemma unlinked_list: "list_all (\<lambda>(k, e). e \<noteq> Symlink (Sibling p)) es \<Longrightarrow> unlinked es p"
  by (auto simp: unlinked_def list_all_iff dest!: map_of_SomeD)

lemma demo_unused:
  "unused_id demo_written ''w'' (demo_id CHR ''3'')" "unused_id demo_written ''w'' (demo_id CHR ''4'')"
  "unused_id demo_root ''w'' (demo_id CHR ''3'')" "unused_id demo_root ''w'' (demo_id CHR ''4'')"
  unfolding unused_id_def by (intro conjI unlinked_list; code_simp)+

lemma demo_ok: "root_ok demo_root" "root_ok demo_written"
  by code_simp+

lemma demo_views:
  "view demo_written ''w'' = Stored (physical_dir ''w'' (demo_id CHR ''1'')) [(''adapter.safetensors'', Other_File)]"
  "view demo_root ''a'' = Stored (physical_dir ''a'' (demo_id CHR ''2'')) [(''META.json'', Other_File)]"
  by code_simp+

theorem commit_is_atomic_witness:
  "\<exists>d. commit_adapter_dir calm (demo_id CHR ''4'') ''w'' (physical_dir ''w'' (demo_id CHR ''3'')) (demo_id CHR ''3'') True (on_disk demo_written)
       = (Inr (physical_dir ''w'' (demo_id CHR ''3''), demo_id CHR ''3''), d) \<and>
     view (entries d) ''w'' = Stored (physical_dir ''w'' (demo_id CHR ''3'')) [(''new'', Other_File)] \<and> root_ok (entries d)"
proof -
  obtain r d where run: "commit_adapter_dir calm (demo_id CHR ''4'') ''w'' (physical_dir ''w'' (demo_id CHR ''3'')) (demo_id CHR ''3'') True (on_disk demo_written) = (r, d)"
    by (metis surj_pair)
  have "adapter_name ''w''" "map_of demo_written (physical_dir ''w'' (demo_id CHR ''3'')) = Some (Folder [(''new'', Other_File)])"
    "map_of demo_written (physical_dir ''w'' (demo_id CHR ''4'')) = None" by code_simp+
  note atomic = commit_is_atomic[OF demo_ok(2) this(1,2) demo_unused(1,2) this(3) run]
  have "replaceable True (view demo_written ''w'')" by (simp add: demo_views replaceable_def)
  then show ?thesis using atomic calm_not_faulty run by (auto split: sum.splits)
qed

theorem recovery_is_invisible_witness:
  "\<exists>d. delete_unreferenced calm None None (on_disk demo_root) = (Inr (), d) \<and> tidy (entries d) \<and>
     resolve_adapter_dir calm id (entries d) ''a'' None = Inr (Some (physical_dir ''a'' (demo_id CHR ''2''), demo_id CHR ''2''))"
proof -
  obtain r d where run: "delete_unreferenced calm None None (on_disk demo_root) = (r, d)" by (metis surj_pair)
  have "user_name ''a''" "commit_id_of (physical_dir ''a'' (demo_id CHR ''2'')) = demo_id CHR ''2''" by code_simp+
  then show ?thesis using recovery_is_invisible[OF demo_ok(1) run, where digest = id] calm_not_faulty demo_views(2) run by auto
qed

theorem saved_adapter_resolves_witness:
  "\<exists>d. save_adapter calm (demo_id CHR ''4'') ''w'' (demo_id CHR ''3'') (Some ''alice'') (Some [(''new'', Other_File)]) True (on_disk demo_root)
       = (Inr (physical_dir ''w'' (demo_id CHR ''3''), demo_id CHR ''3''), d) \<and>
     resolve_adapter_dir calm id (entries d) ''w'' (Some ''bob'') = Inl NotOwner"
proof -
  have "map_sum id fst (fst (save_adapter calm (demo_id CHR ''4'') ''w'' (demo_id CHR ''3'') (Some (id ''alice'')) (Some [(''new'', Other_File)]) True (on_disk demo_root)))
     = Inr (physical_dir ''w'' (demo_id CHR ''3''))"
    by code_simp
  then obtain i where "fst (save_adapter calm (demo_id CHR ''4'') ''w'' (demo_id CHR ''3'') (Some (id ''alice'')) (Some [(''new'', Other_File)]) True (on_disk demo_root))
     = Inr (physical_dir ''w'' (demo_id CHR ''3''), i)"
    by (auto simp: map_sum_Inr_iff)
  then obtain d where run: "save_adapter calm (demo_id CHR ''4'') ''w'' (demo_id CHR ''3'') (Some (id ''alice'')) (Some [(''new'', Other_File)]) True (on_disk demo_root)
     = (Inr (physical_dir ''w'' (demo_id CHR ''3''), i), d)"
    by (metis prod.collapse)
  have "adapter_name ''w''" "demo_id CHR ''3'' \<noteq> demo_id CHR ''4''" "map_of demo_root (physical_dir ''w'' (demo_id CHR ''3'')) = None"
    "map_of demo_root (physical_dir ''w'' (demo_id CHR ''4'')) = None" by code_simp+
  note saved = saved_adapter_resolves[where digest = id and tenant = "''alice''", OF demo_ok(1) this(1) demo_unused(3,4) this(2-4) run]
  show ?thesis using saved run by auto
qed

end
