(* ===== verification/Tinker_Types.thy ===== *)
theory Tinker_Types
  imports Py_Json
begin

text \<open>
  The Tinker gateway: \<^verbatim>\<open>miles/tinker/core/types.py\<close> and the admission checks of
  \<^verbatim>\<open>input_validation.py\<close>.  Identifiers drawn from \<open>uuid4\<close> are natural numbers from a counter: only
  their distinctness matters.  Payloads are decoded JSON objects.  Python's \<open>nan\<close> and infinities are
  not values of the model, so every float is finite.
\<close>

type_synonym uid = nat

datatype command_op = FORWARD_BACKWARD | FORWARD_ONLY | OPTIM_STEP | SAVE_STATE | LOAD_STATE
  | SAVE_WEIGHTS_FOR_SAMPLER | SAVE_WEIGHTS_EXTERNAL

definition command_ops :: "(string \<times> command_op) list" where
  "command_ops = [(''forward_backward'', FORWARD_BACKWARD), (''forward_only'', FORWARD_ONLY),
     (''optim_step'', OPTIM_STEP), (''save_state'', SAVE_STATE), (''load_state'', LOAD_STATE),
     (''save_weights_for_sampler'', SAVE_WEIGHTS_FOR_SAMPLER), (''save_weights_external'', SAVE_WEIGHTS_EXTERNAL)]"

definition is_batch :: "command_op \<Rightarrow> bool" where
  "is_batch op \<longleftrightarrow> op \<in> {FORWARD_BACKWARD, FORWARD_ONLY}"

datatype error_category = User_Error | Server_Error

definition requires_model_close_on_failure :: "command_op \<Rightarrow> error_category \<Rightarrow> bool" where
  "requires_model_close_on_failure op category =
     (if op = LOAD_STATE then category \<noteq> User_Error else op \<in> {FORWARD_BACKWARD, OPTIM_STEP})"

definition LOSS_INPUT_KEYS :: "(string \<times> string) list" where
  "LOSS_INPUT_KEYS = [(''weights'', ''weights''), (''advantages'', ''advantages''), (''logprobs'', ''sampling_logprobs'')]"

definition LOSS_FN_INPUTS :: "(string \<times> string list) list" where
  "LOSS_FN_INPUTS = [(''cross_entropy'', [''weights'']), (''importance_sampling'', [''logprobs'', ''advantages'']),
     (''ppo'', [''logprobs'', ''advantages'']), (''cispo'', [''logprobs'', ''advantages'']),
     (''dro'', [''logprobs'', ''advantages''])]"

datatype tinker_error = UserInputError | NotFoundError | OwnershipError | Tinker_Raised py_exn

record gateway_config =
  cfg_base_model :: string
  n_slots :: nat
  vocab_size :: int
  max_datums_per_request :: nat
  max_tokens_per_datum :: nat
  max_tokens_per_sample :: int
  max_tokens_per_request :: nat
  max_samples_per_request :: int
  max_lora_rank :: int
  cfg_lora_alpha :: "rat option"
  trains_attn :: bool
  trains_mlp :: bool
  trains_unembed :: bool
  lease_timeout_s :: rat
  batch_token_budget :: nat

record command =
  cmd_model_id :: uid
  cmd_seq_id :: int
  cmd_op :: command_op
  cmd_payload :: obj
  cmd_request_id :: uid
  cmd_arrival :: nat
  validation_error :: bool

section \<open>Admission checks\<close>

text \<open>\<open>UserInputError\<close> unless the test holds.\<close>

abbreviation require :: "bool \<Rightarrow> tinker_error + unit" where
  "require b \<equiv> guard UserInputError b"

fun json_list :: "json \<Rightarrow> tinker_error + json list" where
  "json_list (JArr xs) = Inr xs"
| "json_list _ = Inl (Tinker_Raised TypeError)"

text \<open>What \<open>for x in value\<close> yields; its number is \<open>len(value)\<close>.\<close>

fun items :: "json \<Rightarrow> tinker_error + json list" where
  "items (JArr xs) = Inr xs"
| "items (JStr s) = Inr (map (\<lambda>c. JStr [c]) s)"
| "items (JObj d) = Inr (map (\<lambda>(k, v). JStr k) d)"
| "items _ = Inl (Tinker_Raised TypeError)"

text \<open>\<open>d[key]\<close>, and \<open>value[key]\<close> for any value.\<close>

definition item :: "obj \<Rightarrow> string \<Rightarrow> tinker_error + json" where
  "item d k = (case map_of d k of None \<Rightarrow> Inl (Tinker_Raised KeyError) | Some v \<Rightarrow> Inr v)"

fun subscript :: "json \<Rightarrow> string \<Rightarrow> tinker_error + json" where
  "subscript (JObj d) k = item d k"
| "subscript _ k = Inl (Tinker_Raised TypeError)"

fun is_token :: "int \<Rightarrow> json \<Rightarrow> bool" where
  "is_token vocab (JInt i) = (0 \<le> i \<and> i < vocab)"
| "is_token vocab _ = False"

definition validate_token_ids :: "json list \<Rightarrow> int \<Rightarrow> tinker_error + unit" where
  "validate_token_ids tokens vocab = require (list_all (is_token vocab) tokens)"

text \<open>
  \<open>type(value) in (int, float) and math.isfinite(value)\<close>: an integer that is no double, \<open>2^1024 - 2^970\<close>
  or more in absolute value, makes \<open>isfinite\<close> raise.
\<close>

fun require_finite :: "json \<Rightarrow> tinker_error + unit" where
  "require_finite (JInt i) = guard (Tinker_Raised OverflowError) (\<bar>i\<bar> < 2 ^ 1024 - 2 ^ 970)"
| "require_finite (JFloat r) = Inr ()"
| "require_finite _ = Inl UserInputError"

definition validate_model_config :: "obj \<Rightarrow> gateway_config \<Rightarrow> tinker_error + unit" where
  "validate_model_config lora config =
     rbind (require (dget lora ''seed'' = JNull)) (\<lambda>_.
     rbind (rmap (\<lambda>(k, trains). require (dget lora k = JNull \<or> py_eq (dget lora k) (JBool trains)))
        [(''train_attn'', trains_attn config), (''train_mlp'', trains_mlp config), (''train_unembed'', trains_unembed config)]) (\<lambda>_.
     case dget_or lora ''rank'' (JInt 32) of
       JInt rank \<Rightarrow> require (1 \<le> rank \<and> rank \<le> max_lora_rank config)
     | _ \<Rightarrow> Inl UserInputError))"

definition loss_config_keys :: "string \<Rightarrow> string list" where
  "loss_config_keys loss =
     (if loss \<in> {''ppo'', ''cispo''} then [''clip_low_threshold'', ''clip_high_threshold'']
      else if loss = ''dro'' then [''beta''] else [])"

definition validate_loss_config :: "string \<Rightarrow> json \<Rightarrow> tinker_error + unit" where
  "validate_loss_config loss c =
     (case c of
        JNull \<Rightarrow> Inr ()
      | JObj d \<Rightarrow> rbind (rmap (\<lambda>k. if dhas d k then require_finite (dget d k) else Inr ()) (loss_config_keys loss)) (\<lambda>_. Inr ())
      | _ \<Rightarrow> Inl UserInputError)"

text \<open>One datum: its tokens are in the vocabulary and within bounds, it carries the inputs its loss reads,
  one value per target, and no input the loss ignores.\<close>

definition validate_datum :: "gateway_config \<Rightarrow> string list \<Rightarrow> obj \<Rightarrow> tinker_error + nat" where
  "validate_datum config required datum =
     rbind (rbind (item datum ''tokens'') items) (\<lambda>tokens.
     rbind (validate_token_ids tokens (vocab_size config)) (\<lambda>_.
     rbind (rbind (item datum ''target_tokens'') items) (\<lambda>targets.
     rbind (validate_token_ids targets (vocab_size config)) (\<lambda>_.
     rbind (require (length tokens \<le> max_tokens_per_datum config)) (\<lambda>_.
     rbind (rmap (\<lambda>wire. case dget datum (the (map_of LOSS_INPUT_KEYS wire)) of
                JNull \<Rightarrow> Inl UserInputError
              | v \<Rightarrow> rbind (items v) (\<lambda>values. rbind (item datum ''target_len'') (\<lambda>n.
                  require (py_eq n (JInt (int (length values))))))) required) (\<lambda>_.
     rbind (require (filter (\<lambda>(wire, k). wire \<notin> set required \<and> dhas datum k) LOSS_INPUT_KEYS = [])) (\<lambda>_.
     Inr (length tokens))))))))"

definition validate_batch_payload :: "command_op \<Rightarrow> obj \<Rightarrow> gateway_config \<Rightarrow> tinker_error + unit" where
  "validate_batch_payload op payload config =
     (if \<not> is_batch op then Inr ()
      else rbind (item payload ''datums'') (\<lambda>v.
       rbind (require (truthy v)) (\<lambda>_.
       rbind (items v) (\<lambda>datums.
       rbind (require (length datums \<le> max_datums_per_request config)) (\<lambda>_.
       rbind (item payload ''loss_fn'') (\<lambda>loss.
       case loss of
         JStr l \<Rightarrow>
           (case map_of LOSS_FN_INPUTS l of
              None \<Rightarrow> Inl UserInputError
            | Some required \<Rightarrow>
                rbind (validate_loss_config l (dget payload ''loss_fn_config'')) (\<lambda>_.
                rbind (rmap (\<lambda>d. case d of JObj datum \<Rightarrow> validate_datum config required datum | _ \<Rightarrow> Inl (Tinker_Raised TypeError)) datums) (\<lambda>lens.
                require (sum_list lens \<le> max_tokens_per_request config))))
       | JArr _ \<Rightarrow> Inl (Tinker_Raised TypeError)
       | JObj _ \<Rightarrow> Inl (Tinker_Raised TypeError)
       | _ \<Rightarrow> Inl UserInputError))))))"

definition validate_sample_payload :: "obj \<Rightarrow> gateway_config \<Rightarrow> tinker_error + unit" where
  "validate_sample_payload payload config =
     rbind (rbind (item payload ''prompt_tokens'') items) (\<lambda>prompt.
     rbind (validate_token_ids prompt (vocab_size config)) (\<lambda>_.
     rbind (rbind (item payload ''sampling_params'') (\<lambda>p. subscript p ''max_tokens'')) (\<lambda>m.
     case m of
       JInt max_tokens \<Rightarrow>
         rbind (require (0 \<le> max_tokens)) (\<lambda>_.
         let n = int (length prompt); window = max_tokens_per_sample config;
             scoring = truthy (dget payload ''prompt_logprobs'') \<or> truthy (dget payload ''topk_prompt_logprobs'')
         in rbind (require (\<not> (window < n \<or> 0 < max_tokens \<and> n = window \<and> \<not> scoring))) (\<lambda>_.
            rbind (case dget_or payload ''num_samples'' (JInt 1) of
                     JInt k \<Rightarrow> require (1 \<le> k \<and> k \<le> max_samples_per_request config) | _ \<Rightarrow> Inl UserInputError) (\<lambda>_.
            case dget_or payload ''topk_prompt_logprobs'' (JInt 0) of JInt k \<Rightarrow> require (0 \<le> k) | _ \<Rightarrow> Inl UserInputError)))
     | _ \<Rightarrow> Inl UserInputError)))"

text \<open>\<open>isinstance(value, int)\<close> accepts booleans, as \<open>0\<close> and \<open>1\<close>.\<close>

definition validate_seq_id :: "json \<Rightarrow> int \<Rightarrow> tinker_error + int" where
  "validate_seq_id v minimum =
     (case v of
        JInt i \<Rightarrow> if i < minimum then Inl UserInputError else Inr i
      | JBool b \<Rightarrow> if (if b then 1 else 0) < minimum then Inl UserInputError else Inr (if b then 1 else 0)
      | _ \<Rightarrow> Inl UserInputError)"

section \<open>What is admitted\<close>

definition token_count :: "obj \<Rightarrow> nat" where
  "token_count d = (case items (dget d ''tokens'') of Inr ts \<Rightarrow> length ts | Inl _ \<Rightarrow> 0)"

definition tokens_in :: "int \<Rightarrow> json \<Rightarrow> bool" where
  "tokens_in vocab v = (case items v of Inr ts \<Rightarrow> list_all (is_token vocab) ts | Inl _ \<Rightarrow> False)"

definition aligned :: "obj \<Rightarrow> string \<Rightarrow> bool" where
  "aligned d k = (case items (dget d k) of Inr vs \<Rightarrow> py_eq (dget d ''target_len'') (JInt (int (length vs))) | Inl _ \<Rightarrow> False)"

definition datum_typed :: "gateway_config \<Rightarrow> string list \<Rightarrow> obj \<Rightarrow> bool" where
  "datum_typed config required d \<longleftrightarrow>
     tokens_in (vocab_size config) (dget d ''tokens'') \<and> tokens_in (vocab_size config) (dget d ''target_tokens'') \<and>
     token_count d \<le> max_tokens_per_datum config \<and>
     list_all (\<lambda>(wire, k). if wire \<in> set required then aligned d k else \<not> dhas d k) LOSS_INPUT_KEYS"

lemma item_items_iff: "(\<exists>v. item d k = Inr v \<and> items v = Inr xs) \<longleftrightarrow> items (dget d k) = Inr xs"
  by (auto simp: item_def dget_def result_simps split: option.splits)

lemma aligned_iff:
  "(case dget d k of JNull \<Rightarrow> Inl UserInputError
    | v \<Rightarrow> rbind (items v) (\<lambda>values. rbind (item d ''target_len'') (\<lambda>n. require (py_eq n (JInt (int (length values))))))) = Inr u
   \<longleftrightarrow> aligned d k"
proof -
  have n: "rbind (item d ''target_len'') (\<lambda>n. require (py_eq n (JInt i))) = Inr () \<longleftrightarrow> py_eq (dget d ''target_len'') (JInt i)" for i
    by (auto simp: item_def dget_def guard_def py_eq_def result_simps split: option.splits)
  show ?thesis by (cases "dget d k") (auto simp: aligned_def n split: sum.splits)
qed

lemma required_cases:
  assumes "map_of LOSS_FN_INPUTS l = Some required"
  obtains "required = [''weights'']" | "required = [''logprobs'', ''advantages'']"
  using assms by (auto simp: LOSS_FN_INPUTS_def split: if_splits)

lemma required_aligned:
  assumes "map_of LOSS_FN_INPUTS l = Some required"
  shows "list_all (\<lambda>(wire, k). if wire \<in> set required then aligned d k else \<not> dhas d k) LOSS_INPUT_KEYS \<longleftrightarrow>
    (\<forall>wire \<in> set required. aligned d (the (map_of LOSS_INPUT_KEYS wire))) \<and>
    filter (\<lambda>(wire, k). wire \<notin> set required \<and> dhas d k) LOSS_INPUT_KEYS = []"
  by (rule required_cases[OF assms]) (auto simp: LOSS_INPUT_KEYS_def)

lemma rmap_unit_iff: "(\<exists>ys. rmap f xs = Inr (ys::unit list)) \<longleftrightarrow> (\<forall>x \<in> set xs. f x = Inr ())"
  by (induction xs) (auto simp: result_simps)

lemma validate_datum_iff:
  assumes "map_of LOSS_FN_INPUTS l = Some required"
  shows "validate_datum config required d = Inr n \<longleftrightarrow> datum_typed config required d \<and> n = token_count d"
proof -
  let ?f = "\<lambda>wire. case dget d (the (map_of LOSS_INPUT_KEYS wire)) of JNull \<Rightarrow> Inl UserInputError
    | v \<Rightarrow> rbind (items v) (\<lambda>values. rbind (item d ''target_len'') (\<lambda>n. require (py_eq n (JInt (int (length values))))))"
  have al: "(\<exists>ys. rmap ?f required = Inr ys) \<longleftrightarrow> (\<forall>wire \<in> set required. aligned d (the (map_of LOSS_INPUT_KEYS wire)))"
    unfolding rmap_unit_iff by (simp only: aligned_iff)
  have v: "validate_datum config required d = Inr n \<longleftrightarrow>
     (\<exists>ts. items (dget d ''tokens'') = Inr ts \<and> list_all (is_token (vocab_size config)) ts \<and> tokens_in (vocab_size config) (dget d ''target_tokens'') \<and>
       length ts \<le> max_tokens_per_datum config \<and> (\<exists>ys. rmap ?f required = Inr ys) \<and>
       filter (\<lambda>(wire, k). wire \<notin> set required \<and> dhas d k) LOSS_INPUT_KEYS = [] \<and> n = length ts)"
    unfolding validate_datum_def rbind_Inr_iff item_items_iff validate_token_ids_def guard_Inr_iff
    by (cases "items (dget d ''target_tokens'')") (auto simp: tokens_in_def)
  show ?thesis unfolding v al datum_typed_def required_aligned[OF assms]
    by (auto simp: tokens_in_def token_count_def split: sum.splits)
qed

lemma validate_batch_payload_iff:
  assumes "is_batch op"
  shows "validate_batch_payload op payload config = Inr () \<longleftrightarrow>
    (\<exists>l required ds. dget payload ''loss_fn'' = JStr l \<and> map_of LOSS_FN_INPUTS l = Some required \<and>
      validate_loss_config l (dget payload ''loss_fn_config'') = Inr () \<and>
      dget payload ''datums'' = JArr (map JObj ds) \<and> ds \<noteq> [] \<and> length ds \<le> max_datums_per_request config \<and>
      list_all (datum_typed config required) ds \<and> sum_list (map token_count ds) \<le> max_tokens_per_request config)"
  (is "?L \<longleftrightarrow> ?R")
proof -
  let ?v = "\<lambda>required d. case d of JObj datum \<Rightarrow> validate_datum config required datum | _ \<Rightarrow> Inl (Tinker_Raised TypeError)"
  have ds: "rmap (?v required) xs = Inr lens \<longleftrightarrow>
      (\<exists>ds. xs = map JObj ds \<and> list_all (datum_typed config required) ds \<and> lens = map token_count ds)"
    if "map_of LOSS_FN_INPUTS l = Some required" for l required xs lens
  proof (induction xs arbitrary: lens)
    case (Cons x xs)
    then show ?case
      by (cases x) (auto simp: rbind_Inr_iff validate_datum_iff[OF that] Cons_eq_map_conv)
  qed auto
  have loss: "(case x of
         JStr l \<Rightarrow> (case map_of LOSS_FN_INPUTS l of None \<Rightarrow> Inl UserInputError | Some required \<Rightarrow> f l required)
       | JArr _ \<Rightarrow> Inl (Tinker_Raised TypeError) | JObj _ \<Rightarrow> Inl (Tinker_Raised TypeError) | _ \<Rightarrow> Inl UserInputError) = Inr u \<longleftrightarrow>
      (\<exists>l required. x = JStr l \<and> map_of LOSS_FN_INPUTS l = Some required \<and> f l required = Inr u)"
    for x :: json and f :: "string \<Rightarrow> string list \<Rightarrow> tinker_error + unit" and u
    by (cases x) (auto split: option.splits)
  have it: "truthy v \<and> items v = Inr (map JObj ds) \<longleftrightarrow> v = JArr (map JObj ds) \<and> ds \<noteq> []" for v ds
    by (cases v; cases ds) auto
  have L: "?L \<longleftrightarrow> (\<exists>v. item payload ''datums'' = Inr v \<and> truthy v \<and> (\<exists>xs. items v = Inr xs \<and>
      length xs \<le> max_datums_per_request config \<and> (\<exists>x. item payload ''loss_fn'' = Inr x \<and> (\<exists>l required. x = JStr l \<and>
      map_of LOSS_FN_INPUTS l = Some required \<and> (\<exists>u. validate_loss_config l (dget payload ''loss_fn_config'') = Inr u \<and>
      (\<exists>lens. rmap (?v required) xs = Inr lens \<and> sum_list lens \<le> max_tokens_per_request config))))))"
    unfolding validate_batch_payload_def by (simp only: assms not_True_eq_False if_False rbind_Inr_iff guard_Inr_iff loss ex_simps simp_thms)
  have dg: "item payload k = Inr v \<longleftrightarrow> dget payload k = v" if "v \<noteq> JNull" for k v
    using that by (auto simp: item_def dget_def split: option.splits)
  show ?thesis
  proof
    assume ?L
    then obtain v xs l required lens where h: "item payload ''datums'' = Inr v" "truthy v" "items v = Inr xs"
      "length xs \<le> max_datums_per_request config" "item payload ''loss_fn'' = Inr (JStr l)" "map_of LOSS_FN_INPUTS l = Some required"
      "validate_loss_config l (dget payload ''loss_fn_config'') = Inr ()" "rmap (?v required) xs = Inr lens"
      "sum_list lens \<le> max_tokens_per_request config" unfolding L by (elim exE conjE) simp
    from ds[OF h(6)] h(8) obtain ds' where d: "xs = map JObj ds'" "list_all (datum_typed config required) ds'" "lens = map token_count ds'" by blast
    have "v = JArr (map JObj ds')" "ds' \<noteq> []" using it[of v ds'] h(2,3) d(1) by auto
    then show ?R using h dg[of v] dg[of "JStr l"] d by (intro exI[of _ l] exI[of _ required] exI[of _ ds']) auto
  next
    assume ?R
    then obtain l required ds' where h: "dget payload ''loss_fn'' = JStr l" "map_of LOSS_FN_INPUTS l = Some required"
      "validate_loss_config l (dget payload ''loss_fn_config'') = Inr ()" "dget payload ''datums'' = JArr (map JObj ds')" "ds' \<noteq> []"
      "length ds' \<le> max_datums_per_request config" "list_all (datum_typed config required) ds'"
      "sum_list (map token_count ds') \<le> max_tokens_per_request config" by blast
    have "rmap (?v required) (map JObj ds') = Inr (map token_count ds')" using ds[OF h(2)] h(7) by blast
    then show ?L unfolding L using h dg[of "JArr (map JObj ds')"] dg[of "JStr l"] it[of "JArr (map JObj ds')" ds'] by (intro exI conjI) auto
  qed
qed



end
