(* ===== verification/Tinker_Paths.thy ===== *)
theory Tinker_Paths
  imports Tinker_Types
begin

text \<open>
  How checkpoints are named and when they expire: the checks of \<^verbatim>\<open>miles/tinker/core/input_validation.py\<close> on
  path segments and lifetimes, the paths of \<^verbatim>\<open>utils.py\<close> and the table of \<^verbatim>\<open>checkpoint_expiry.py\<close>.  Times are
  rationals, which stand for the floats of the table.
\<close>

section \<open>Segments, lifetimes and paths\<close>

definition is_alnum :: "char \<Rightarrow> bool" where
  "is_alnum c \<longleftrightarrow> c \<in> set ''ABCDEFGHIJKLMNOPQRSTUVWXYZabcdefghijklmnopqrstuvwxyz0123456789''"

definition segment_char :: "char \<Rightarrow> bool" where
  "segment_char c \<longleftrightarrow> is_alnum c \<or> c \<in> set ''._-''"

definition checkpoint_segment :: "string \<Rightarrow> bool" where
  "checkpoint_segment s \<longleftrightarrow> s \<noteq> [] \<and> is_alnum (hd s) \<and> list_all segment_char (tl s) \<and> length (tl s) \<le> 127"

definition validate_checkpoint_segment :: "string \<Rightarrow> tinker_error + unit" where
  "validate_checkpoint_segment s = require (checkpoint_segment s)"

definition MIN_TTL_S :: int where
  "MIN_TTL_S = 3600"

definition MAX_TTL_S :: int where
  "MAX_TTL_S = 10 * 365 * 24 * 3600"

fun validate_ttl_seconds :: "json \<Rightarrow> tinker_error + unit" where
  "validate_ttl_seconds JNull = Inr ()"
| "validate_ttl_seconds (JInt t) = require (MIN_TTL_S \<le> t \<and> t \<le> MAX_TTL_S)"
| "validate_ttl_seconds _ = Inl UserInputError"

definition validate_save_options :: "json \<Rightarrow> json \<Rightarrow> tinker_error + unit" where
  "validate_save_options ttl user_metadata = rbind (validate_ttl_seconds ttl) (\<lambda>_. require (user_metadata = JNull))"

definition CHECKPOINT_KINDS :: "string list" where
  "CHECKPOINT_KINDS = [''weights'', ''sampler_weights'', ''external_weights'']"

fun split_slash :: "string \<Rightarrow> string list" where
  "split_slash [] = [[]]"
| "split_slash (c # cs) = (if c = CHR ''/'' then [] # split_slash cs
     else case split_slash cs of [] \<Rightarrow> [[c]] | s # ss \<Rightarrow> (c # s) # ss)"

definition tinker_path :: "string \<Rightarrow> string \<Rightarrow> string \<Rightarrow> string" where
  "tinker_path model_id kind name = ''tinker://'' @ model_id @ ''/'' @ kind @ ''/'' @ name"

definition parse_tinker_path :: "string \<Rightarrow> tinker_error + string \<times> string \<times> string" where
  "parse_tinker_path path =
     (if take 9 path \<noteq> ''tinker://'' then Inl UserInputError
      else case split_slash (drop 9 path) of
          [model_id, kind, name] \<Rightarrow>
            if kind \<notin> set CHECKPOINT_KINDS then Inl UserInputError
            else rbind (rmap validate_checkpoint_segment [model_id, kind, name]) (\<lambda>_. Inr (model_id, kind, name))
        | _ \<Rightarrow> Inl UserInputError)"

lemma split_slash_segment: "CHR ''/'' \<notin> set s \<Longrightarrow> split_slash s = [s]"
  by (induction s) auto

lemma split_slash_append: "CHR ''/'' \<notin> set s \<Longrightarrow> split_slash (s @ CHR ''/'' # t) = s # split_slash t"
  by (induction s) auto

lemma split_slash_nonempty: "split_slash s \<noteq> []"
  by (induction s) (auto split: list.splits)

fun join_slash :: "string list \<Rightarrow> string" where
  "join_slash [] = []"
| "join_slash [s] = s"
| "join_slash (s # ss) = s @ CHR ''/'' # join_slash ss"

lemma join_slash_push: "join_slash ((c # s) # ss) = c # join_slash (s # ss)"
  by (cases ss) auto

lemma join_split_slash: "join_slash (split_slash s) = s"
proof (induction s)
  case (Cons c s)
  obtain u us where u: "split_slash s = u # us" using split_slash_nonempty by (metis list.exhaust)
  then show ?case using Cons.IH join_slash_push[of c u us] by auto
qed simp

lemma segment_no_slash: "checkpoint_segment s \<Longrightarrow> CHR ''/'' \<notin> set s"
proof -
  assume s: "checkpoint_segment s"
  have "\<not> segment_char CHR ''/''" "\<not> is_alnum CHR ''/''" by (simp_all add: segment_char_def is_alnum_def)
  then show ?thesis using s by (cases s) (auto simp: checkpoint_segment_def list_all_iff)
qed

lemma kind_segments: "kind \<in> set CHECKPOINT_KINDS \<Longrightarrow> checkpoint_segment kind"
  by (auto simp: CHECKPOINT_KINDS_def checkpoint_segment_def segment_char_def is_alnum_def)

lemma parse_tinker_path_iff:
  "parse_tinker_path path = Inr (m, k, n) \<longleftrightarrow>
     path = tinker_path m k n \<and> checkpoint_segment m \<and> k \<in> set CHECKPOINT_KINDS \<and> checkpoint_segment n" (is "?l \<longleftrightarrow> ?r")
proof
  assume l: ?l
  then have p: "take 9 path = ''tinker://''" by (auto simp: parse_tinker_path_def split: if_splits)
  have s: "split_slash (drop 9 path) = [m, k, n]" "k \<in> set CHECKPOINT_KINDS" "checkpoint_segment m" "checkpoint_segment n"
    using l p by (auto simp: parse_tinker_path_def validate_checkpoint_segment_def result_simps split: list.splits if_splits)
  then have "drop 9 path = join_slash [m, k, n]" using join_split_slash by metis
  then show ?r using s p append_take_drop_id[of 9 path] by (simp add: tinker_path_def)
next
  assume r: ?r
  note slash = segment_no_slash[of m] segment_no_slash[of k] segment_no_slash[of n] kind_segments[of k]
  have "split_slash (m @ CHR ''/'' # k @ CHR ''/'' # n) = [m, k, n]"
    using r slash split_slash_append[of m] split_slash_append[of k n] split_slash_segment[of n] by simp
  then show ?l using r kind_segments[of k]
    by (simp add: parse_tinker_path_def tinker_path_def validate_checkpoint_segment_def)
qed

lemma tinker_path_inject:
  assumes "tinker_path m k n = tinker_path m' k' n'" "checkpoint_segment m" "k \<in> set CHECKPOINT_KINDS" "checkpoint_segment n"
    "checkpoint_segment m'" "k' \<in> set CHECKPOINT_KINDS" "checkpoint_segment n'"
  shows "m' = m \<and> k' = k \<and> n' = n"
  using assms parse_tinker_path_iff[of "tinker_path m k n" m k n] parse_tinker_path_iff[of "tinker_path m' k' n'" m' k' n'] by simp

section \<open>The table of expiries\<close>

record expiry =
  ex_commit :: string
  ex_at :: rat

type_synonym expiry_table = "(string \<times> expiry) list"

text \<open>The file the table is kept in, as JSON, and what \<^verbatim>\<open>CheckpointExpiry.__init__\<close> reads from one.\<close>

definition dump_expiries :: "expiry_table \<Rightarrow> json" where
  "dump_expiries es = JObj (map (\<lambda>(path, e). (path, JObj [(''commit_id'', JStr (ex_commit e)), (''expires_at'', JFloat (ex_at e))])) (sort_key fst es))"

fun float_of :: "json \<Rightarrow> tinker_error + rat" where
  "float_of (JFloat r) = Inr r"
| "float_of (JInt i) = rbind (require_finite (JInt i)) (\<lambda>_. Inr (of_int i))"
| "float_of (JBool b) = Inr (if b then 1 else 0)"
| "float_of _ = Inl (Tinker_Raised AssertionError)"

fun commit_id_text :: "json \<Rightarrow> tinker_error + string" where
  "commit_id_text (JStr s) = Inr s"
| "commit_id_text _ = Inl (Tinker_Raised AssertionError)"

definition load_expiry :: "string \<times> json \<Rightarrow> expiry_table \<Rightarrow> tinker_error + expiry_table" where
  "load_expiry item_of es = (case item_of of (path, entry) \<Rightarrow>
     rbind (parse_tinker_path path) (\<lambda>_.
     rbind (subscript entry ''commit_id'') (\<lambda>commit_id.
     rbind (subscript entry ''expires_at'') (\<lambda>time.
     rbind (commit_id_text commit_id) (\<lambda>c.
     rbind (float_of time) (\<lambda>t. Inr (AList.update path \<lparr>ex_commit = c, ex_at = t\<rparr> es)))))))"

definition load_expiries :: "json option \<Rightarrow> tinker_error + expiry_table" where
  "load_expiries file = (case file of
       None \<Rightarrow> Inr []
     | Some (JObj d) \<Rightarrow> rfold load_expiry d []
     | Some _ \<Rightarrow> Inl (Tinker_Raised AttributeError))"

definition expiry_entry :: "string \<Rightarrow> expiry_table \<Rightarrow> expiry option" where
  "expiry_entry path es = map_of es path"

definition expires_at :: "string \<Rightarrow> string \<Rightarrow> expiry_table \<Rightarrow> rat option" where
  "expires_at path commit_id es = (case map_of es path of
       None \<Rightarrow> None
     | Some e \<Rightarrow> if ex_commit e = commit_id then Some (ex_at e) else None)"

definition expired :: "rat \<Rightarrow> expiry_table \<Rightarrow> expiry_table" where
  "expired now es = sort_key fst (filter (\<lambda>(path, e). ex_at e \<le> now) es)"

text \<open>
  Writing the table: it fails before the file is replaced, or after it when only the directory cannot be
  synced, and the table in memory follows the file.
\<close>

datatype write_outcome = Written | Not_Written | Not_Synced

definition write_expiries :: "write_outcome \<Rightarrow> expiry_table \<Rightarrow> expiry_table \<Rightarrow> bool \<times> expiry_table" where
  "write_expiries outcome new old = (case outcome of Written \<Rightarrow> (True, new) | Not_Written \<Rightarrow> (False, old) | Not_Synced \<Rightarrow> (False, new))"

definition drop_expiry :: "write_outcome \<Rightarrow> string \<Rightarrow> expiry_table \<Rightarrow> bool \<times> expiry_table" where
  "drop_expiry outcome path es =
     (if map_of es path \<noteq> None then write_expiries outcome (AList.delete path es) es else (True, es))"

definition set_expiry :: "write_outcome \<Rightarrow> string \<Rightarrow> string \<Rightarrow> json \<Rightarrow> rat \<Rightarrow> expiry_table \<Rightarrow> tinker_error + bool \<times> expiry_table" where
  "set_expiry outcome path commit_id ttl now es =
     rbind (validate_ttl_seconds ttl) (\<lambda>_. Inr (case ttl of
         JInt t \<Rightarrow> write_expiries outcome (AList.update path \<lparr>ex_commit = commit_id, ex_at = now + of_int t\<rparr> es) es
       | _ \<Rightarrow> drop_expiry outcome path es))"

section \<open>A table that survives restarts\<close>

definition table_ok :: "expiry_table \<Rightarrow> bool" where
  "table_ok es \<longleftrightarrow> dict_ok es \<and> (\<forall>(path, e) \<in> set es. \<exists>m k n. parse_tinker_path path = Inr (m, k, n))"

lemma table_okD:
  assumes "table_ok es"
  shows "dict_ok es" "(path, e) \<in> set es \<Longrightarrow> \<exists>m k n. parse_tinker_path path = Inr (m, k, n)"
  using assms by (auto simp: table_ok_def)

lemma table_ok_update:
  assumes ok: "table_ok es" and p: "parse_tinker_path path = Inr (m, k, n)"
  shows "table_ok (AList.update path e es)"
proof -
  have "set (AList.update path e es) \<subseteq> insert (path, e) (set es)"
    by (induction es) auto
  moreover have "dict_ok (AList.update path e es)" using table_okD(1)[OF ok] by (simp add: dict_simps)
  ultimately show ?thesis using ok p unfolding table_ok_def by blast
qed

lemma table_ok_delete: "table_ok es \<Longrightarrow> table_ok (AList.delete path es)"
  unfolding table_ok_def using dict_ok_delete[of es path] by (auto simp: AList.delete_eq)

lemma table_ok_write: "table_ok new \<Longrightarrow> table_ok old \<Longrightarrow> table_ok (snd (write_expiries outcome new old))"
  by (cases outcome) (simp_all add: write_expiries_def)

lemma table_ok_drop: "table_ok es \<Longrightarrow> table_ok (snd (drop_expiry outcome path es))"
  by (simp add: drop_expiry_def table_ok_write table_ok_delete)

lemma set_expiry_cases:
  assumes "set_expiry outcome path commit_id ttl now es = Inr r"
  obtains "ttl = JNull" "r = drop_expiry outcome path es"
  | t where "ttl = JInt t" "MIN_TTL_S \<le> t" "t \<le> MAX_TTL_S"
      "r = write_expiries outcome (AList.update path \<lparr>ex_commit = commit_id, ex_at = now + of_int t\<rparr> es) es"
  using assms by (cases ttl) (auto simp: set_expiry_def result_simps)

lemma table_ok_set:
  assumes "table_ok es" "parse_tinker_path path = Inr (m, k, n)" "set_expiry outcome path c ttl now es = Inr (done', es')"
  shows "table_ok es'"
  using assms(3)
proof (cases rule: set_expiry_cases)
  case 1
  then show ?thesis using table_ok_drop[OF assms(1), of outcome path] by (metis snd_conv)
next
  case (2 t)
  then show ?thesis using table_ok_write[OF table_ok_update[OF assms(1,2)] assms(1)] by (metis snd_conv)
qed

lemma load_dumped:
  assumes "dict_ok (acc @ es)" "\<forall>(path, e) \<in> set es. \<exists>m k n. parse_tinker_path path = Inr (m, k, n)"
  shows "rfold load_expiry (map (\<lambda>(path, e). (path, JObj [(''commit_id'', JStr (ex_commit e)), (''expires_at'', JFloat (ex_at e))])) es) acc
    = Inr (acc @ es)"
  using assms
proof (induction es arbitrary: acc)
  case (Cons x es)
  obtain path e where x: "x = (path, e)" by (cases x)
  obtain t where t: "parse_tinker_path path = Inr t" using Cons.prems(2) x by auto
  have fresh: "path \<notin> fst ` set acc" using Cons.prems(1) x by auto
  have "load_expiry (path, JObj [(''commit_id'', JStr (ex_commit e)), (''expires_at'', JFloat (ex_at e))]) acc = Inr (acc @ [x])"
    using t x by (simp add: load_expiry_def item_def update_fresh[OF fresh])
  then show ?case using Cons.IH[of "acc @ [x]"] Cons.prems x by simp
qed simp

lemma load_dump:
  assumes "table_ok es"
  shows "load_expiries (Some (dump_expiries es)) = Inr (sort_key fst es)" "map_of (sort_key fst es) = map_of es"
proof -
  have d: "dict_ok (sort_key fst es)"
    using table_okD(1)[OF assms] by (metis distinct_map distinct_sort set_sort)
  then show "load_expiries (Some (dump_expiries es)) = Inr (sort_key fst es)"
    using load_dumped[of "[]" "sort_key fst es"] assms by (simp add: load_expiries_def dump_expiries_def table_ok_def)
  show "map_of (sort_key fst es) = map_of es"
    by (subst map_of_inject_set) (use d table_okD(1)[OF assms] in simp_all)
qed


definition demo_path :: string where
  "demo_path = tinker_path ''m'' ''weights'' ''w''"


end
