(* ===== verification/Tinker_Checkpoints.thy ===== *)
theory Tinker_Checkpoints
  imports Tinker_Paths Adapter_Store
begin

text \<open>
  The checkpoint operations of the Tinker gateway: saving, lifetimes, deletion and downloads
  (\<^verbatim>\<open>miles/tinker/core/service.py\<close>) over the adapter roots (\<^verbatim>\<open>miles/tinker/runtime.py\<close>).  There is one root
  for each model and kind of checkpoint, and the table of expiries.  The parts of an operation between two
  awaits are definitions of their own; how the operations interleave is in \<^verbatim>\<open>Checkpoint_Machine\<close>.
\<close>

section \<open>Roots and files\<close>

text \<open>
  What is fixed for a gateway: which paths that links name elsewhere lie under the checkpoint root, the
  digest of a tenant's key, and whether official names can be exported.
\<close>

record deployment =
  within_root :: "string \<Rightarrow> string \<Rightarrow> bool"
  key_digest :: "string \<Rightarrow> string"
  exports_names :: bool

text \<open>A refusal has a class of the gateway's; any other exception is one the store raised and nothing caught.\<close>

datatype service_error = Refused tinker_error | Uncaught os_exn

definition checked :: "tinker_error + 'a \<Rightarrow> service_error + 'a" where
  "checked r = map_sum Refused id r"

lemma checked_Inr_iff [result_simps]: "checked r = Inr x \<longleftrightarrow> r = Inr x"
  by (cases r) (simp_all add: checked_def)

text \<open>\<^verbatim>\<open>os.path.realpath\<close> follows all links; a cycle ends at an entry of the root.\<close>

fun leads_within :: "deployment \<Rightarrow> nat \<Rightarrow> root_dir \<Rightarrow> link_target \<Rightarrow> bool" where
  "leads_within d n es (Elsewhere p t) = within_root d p t"
| "leads_within d n es (Sibling t) = (case map_of es t of
       Some (Symlink u) \<Rightarrow> (case n of 0 \<Rightarrow> True | Suc m \<Rightarrow> leads_within d m es u)
     | _ \<Rightarrow> True)"

definition resolve_checkpoint_dir :: "deployment \<Rightarrow> root_dir \<Rightarrow> string \<Rightarrow> service_error + unit" where
  "resolve_checkpoint_dir d es name = guard (Uncaught FailedAssertion) (leads_within d (length es) es (Sibling name))"

definition is_file :: "folder \<Rightarrow> string \<Rightarrow> bool" where
  "is_file f k = (case map_of f k of Some (Json_File v) \<Rightarrow> True | Some Other_File \<Rightarrow> True | _ \<Rightarrow> False)"

definition is_pre_commit_dir :: "environment \<Rightarrow> root_dir \<Rightarrow> string \<Rightarrow> bool" where
  "is_pre_commit_dir env es name = (case folder_at env es (Sibling name) of
       None \<Rightarrow> False
     | Some f \<Rightarrow> is_file f ''META.json'' \<and> \<not> is_file f ''adapter_parametrization.json'')"

text \<open>A committed directory, its commit id and the files a client may download.\<close>

type_synonym checkpoint_files = "string \<times> string \<times> string list"

definition files_in :: "environment \<Rightarrow> root_dir \<Rightarrow> string \<Rightarrow> string list" where
  "files_in env es p = (case folder_at env es (Sibling p) of
       None \<Rightarrow> []
     | Some f \<Rightarrow> sort (filter (\<lambda>k. is_file f k \<and> k \<noteq> ''tenant.json'') (map fst f)))"

definition resolve_checkpoint_files ::
  "environment \<Rightarrow> deployment \<Rightarrow> root_dir \<Rightarrow> string \<Rightarrow> string option \<Rightarrow> service_error + checkpoint_files option" where
  "resolve_checkpoint_files env d es name tenant =
     (if is_pre_commit_dir env es name then Inr None
      else case resolve_adapter_dir env (key_digest d) es name tenant of
          Inl NotOwner \<Rightarrow> Inl (Refused OwnershipError)
        | Inl e \<Rightarrow> Inl (Uncaught e)
        | Inr None \<Rightarrow> Inr None
        | Inr (Some (p, c)) \<Rightarrow> Inr (Some (p, c, files_in env es p)))"

definition delete_adapter ::
  "environment \<Rightarrow> deployment \<Rightarrow> string \<Rightarrow> string option \<Rightarrow> root_dir \<Rightarrow> (service_error + unit) \<times> disk" where
  "delete_adapter env d name tenant es = (case delete_adapter_dir env (key_digest d) name tenant (on_disk es) of
       (Inl NotOwner, dsk) \<Rightarrow> (Inl (Refused OwnershipError), dsk)
     | (Inl e, dsk) \<Rightarrow> (Inl (Uncaught e), dsk)
     | (Inr _, dsk) \<Rightarrow> (Inr (), dsk))"

section \<open>State\<close>

text \<open>What a download URL is good for.\<close>

record download =
  dl_tenant :: string
  dl_path :: string
  dl_commit :: string
  dl_expires :: rat

record checkpoint_store =
  roots :: "string \<Rightarrow> string \<Rightarrow> root_dir"
  expiries :: expiry_table
  downloads :: "(string \<times> download) list"
  download_tokens :: "((string \<times> string \<times> string) \<times> string) list"

text \<open>A checkpoint the tenant owns: its path, kind and name, and its files.\<close>

definition owned_checkpoint ::
  "environment \<Rightarrow> deployment \<Rightarrow> (string \<Rightarrow> root_dir) \<Rightarrow> string \<Rightarrow> string \<Rightarrow> string \<Rightarrow>
   service_error + string \<times> string \<times> string \<times> checkpoint_files" where
  "owned_checkpoint env d roots_of tenant model_id checkpoint_id =
     (let path = ''tinker://'' @ model_id @ ''/'' @ checkpoint_id in
      rbind (checked (parse_tinker_path path)) (\<lambda>(_, kind, name).
      rbind (resolve_checkpoint_dir d (roots_of kind) name) (\<lambda>_.
        case resolve_checkpoint_files env d (roots_of kind) name (Some tenant) of
          Inl (Uncaught ForeignLink) \<Rightarrow> Inl (Refused UserInputError)
        | Inl (Uncaught BadOwnerJson) \<Rightarrow> Inl (Refused UserInputError)
        | Inl e \<Rightarrow> Inl e
        | Inr None \<Rightarrow> Inl (Refused (if folder_at env (roots_of kind) (Sibling name) \<noteq> None then UserInputError else NotFoundError))
        | Inr (Some files) \<Rightarrow> Inr (path, kind, name, files))))"

section \<open>Saving\<close>

text \<open>
  The three requests that save: parameters and optimizer state, weights for sampling (named, or by the
  model's next version), and the official export.
\<close>

datatype save_request = Save_State "string option" nat bool | Save_Sampler "string option" nat | Save_External string

fun save_kind :: "save_request \<Rightarrow> string" where
  "save_kind (Save_State name seq overwrite) = ''weights''"
| "save_kind (Save_Sampler path version) = ''sampler_weights''"
| "save_kind (Save_External name) = ''external_weights''"

fun overwrites :: "save_request \<Rightarrow> bool" where
  "overwrites (Save_State name seq overwrite) = overwrite"
| "overwrites _ = False"

fun decimal :: "nat \<Rightarrow> string" where
  "decimal n = (if n < 10 then [''0123456789'' ! n] else decimal (n div 10) @ [''0123456789'' ! (n mod 10)])"

declare decimal.simps [simp del]

definition zero_pad :: "nat \<Rightarrow> string \<Rightarrow> string" where
  "zero_pad w s = replicate (w - length s) CHR ''0'' @ s"

definition unused_name :: "root_dir \<Rightarrow> string \<Rightarrow> service_error + string" where
  "unused_name es name = rbind (guard (Refused UserInputError) (\<not> lexists es name)) (\<lambda>_. Inr name)"

text \<open>What comes before the trainer writes: the name of the new checkpoint.\<close>

definition start_save_state :: "deployment \<Rightarrow> root_dir \<Rightarrow> string option \<Rightarrow> nat \<Rightarrow> bool \<Rightarrow> service_error + string" where
  "start_save_state d es name seq overwrite =
     (let n = (case name of Some (c # cs) \<Rightarrow> c # cs | _ \<Rightarrow> ''checkpoint-'' @ zero_pad 6 (decimal seq)) in
      rbind (checked (validate_checkpoint_segment n)) (\<lambda>_.
      rbind (resolve_checkpoint_dir d es n) (\<lambda>_. if overwrite then Inr n else unused_name es n)))"

definition start_save_sampler :: "deployment \<Rightarrow> root_dir \<Rightarrow> string option \<Rightarrow> nat \<Rightarrow> service_error + string" where
  "start_save_sampler d es path version =
     rbind (case path of None \<Rightarrow> Inr (decimal version) | Some n \<Rightarrow> rbind (checked (validate_checkpoint_segment n)) (\<lambda>_. Inr n)) (\<lambda>n.
     rbind (resolve_checkpoint_dir d es n) (\<lambda>_. unused_name es n))"

definition start_save_external :: "deployment \<Rightarrow> root_dir \<Rightarrow> string \<Rightarrow> service_error + string" where
  "start_save_external d es n =
     rbind (guard (Refused UserInputError) (exports_names d)) (\<lambda>_.
     rbind (checked (validate_checkpoint_segment n)) (\<lambda>_.
     rbind (resolve_checkpoint_dir d es n) (\<lambda>_. unused_name es n)))"

fun start_save :: "deployment \<Rightarrow> root_dir \<Rightarrow> save_request \<Rightarrow> service_error + string" where
  "start_save d es (Save_State name seq overwrite) = start_save_state d es name seq overwrite"
| "start_save d es (Save_Sampler path version) = start_save_sampler d es path version"
| "start_save d es (Save_External name) = start_save_external d es name"

text \<open>What the commit says: whether the save succeeded, or the request is refused.\<close>

definition commit_answer :: "save_request \<Rightarrow> os_exn + 'a \<Rightarrow> service_error + bool" where
  "commit_answer req res = (case res of
       Inr _ \<Rightarrow> Inr True
     | Inl e \<Rightarrow>
         if e \<in> {FileExists, FileNotFound, OsFailure, NotOwner} then Inr False
         else if e \<in> {ForeignLink, BadOwnerJson} \<and> save_kind req \<noteq> ''external_weights'' then Inl (Refused UserInputError)
         else Inl (Uncaught e))"

text \<open>A save under way: the directory is written under the commit id, which the trainer drew.\<close>

record save_job =
  sj_tenant :: string
  sj_model :: string
  sj_request :: save_request
  sj_name :: string
  sj_commit :: string
  sj_ttl :: json

abbreviation sj_kind :: "save_job \<Rightarrow> string" where
  "sj_kind job \<equiv> save_kind (sj_request job)"

definition job_path :: "save_job \<Rightarrow> string" where
  "job_path job = tinker_path (sj_model job) (sj_kind job) (sj_name job)"

section \<open>Downloads\<close>

definition DOWNLOAD_URL_TTL_S :: rat where
  "DOWNLOAD_URL_TTL_S = 3600"

text \<open>
  Signing: what a URL is handed out for, and the token it carries; \<open>token\<close> is the new one, used unless the
  last one for this commit still has half the life a new one would get.
\<close>

definition sign_url ::
  "string \<Rightarrow> rat \<Rightarrow> string \<Rightarrow> string \<Rightarrow> string \<Rightarrow> 'm checkpoint_store_scheme \<Rightarrow> (service_error + string \<times> rat) \<times> 'm checkpoint_store_scheme" where
  "sign_url token now tenant path commit_id st =
     (let ends_at = expires_at path commit_id (expiries st);
          cap = (case ends_at of None \<Rightarrow> now + DOWNLOAD_URL_TTL_S | Some e \<Rightarrow> min (now + DOWNLOAD_URL_TTL_S) e);
          key = (tenant, path, commit_id);
          fresh = (Inr (token, cap),
            st\<lparr>downloads := AList.update token \<lparr>dl_tenant = tenant, dl_path = path, dl_commit = commit_id, dl_expires = cap\<rparr> (downloads st),
               download_tokens := AList.update key token (download_tokens st)\<rparr>)
      in if (case ends_at of None \<Rightarrow> False | Some e \<Rightarrow> e \<le> now) then (Inl (Refused NotFoundError), st)
         else case map_of (download_tokens st) key of
             None \<Rightarrow> fresh
           | Some old \<Rightarrow> (case map_of (downloads st) old of
                 None \<Rightarrow> fresh
               | Some live \<Rightarrow> if (cap - now) / 2 \<le> dl_expires live - now then (Inr (old, dl_expires live), st) else fresh))"

definition find_download :: "string \<Rightarrow> rat \<Rightarrow> 'm checkpoint_store_scheme \<Rightarrow> service_error + download" where
  "find_download token now st = (case map_of (downloads st) token of
       None \<Rightarrow> Inl (Refused NotFoundError)
     | Some dl \<Rightarrow> if dl_expires dl \<le> now then Inl (Refused NotFoundError) else Inr dl)"

text \<open>The directory and the file a download names.\<close>

definition download_path ::
  "environment \<Rightarrow> deployment \<Rightarrow> (string \<Rightarrow> string \<Rightarrow> root_dir) \<Rightarrow> download \<Rightarrow> string \<Rightarrow> service_error + string \<times> string" where
  "download_path env d rs dl filename =
     rbind (checked (parse_tinker_path (dl_path dl))) (\<lambda>(model_id, kind, name).
     rbind (owned_checkpoint env d (rs model_id) (dl_tenant dl) model_id (kind @ ''/'' @ name)) (\<lambda>(_, _, _, p, commit_id, files).
     rbind (guard (Refused NotFoundError) (commit_id = dl_commit dl)) (\<lambda>_.
     rbind (guard (Refused NotFoundError) (filename \<in> set files)) (\<lambda>_. Inr (p, filename)))))"

definition drop_download :: "rat \<Rightarrow> string \<times> download \<Rightarrow> 'm checkpoint_store_scheme \<Rightarrow> 'm checkpoint_store_scheme" where
  "drop_download now x st = (case x of (token, dl) \<Rightarrow>
     if now < dl_expires dl then st
     else let key = (dl_tenant dl, dl_path dl, dl_commit dl); st' = st\<lparr>downloads := AList.delete token (downloads st)\<rparr>
       in if map_of (download_tokens st) key = Some token then st'\<lparr>download_tokens := AList.delete key (download_tokens st)\<rparr> else st')"

definition drop_expired_downloads :: "rat \<Rightarrow> 'm checkpoint_store_scheme \<Rightarrow> 'm checkpoint_store_scheme" where
  "drop_expired_downloads now st = fold (drop_download now) (downloads st) st"

section \<open>Lifetimes\<close>

text \<open>The table after the lifetime of a checkpoint was set; a refused lifetime leaves it alone.\<close>

definition table_after :: "write_outcome \<Rightarrow> string \<Rightarrow> string \<Rightarrow> json \<Rightarrow> rat \<Rightarrow> expiry_table \<Rightarrow> expiry_table" where
  "table_after outcome path commit_id ttl now es = (case set_expiry outcome path commit_id ttl now es of Inl e \<Rightarrow> es | Inr (_, es') \<Rightarrow> es')"

section \<open>Links the library did not write\<close>

lemma segment_user_name: "checkpoint_segment n \<Longrightarrow> user_name n"
proof -
  assume n: "checkpoint_segment n"
  have "\<not> is_alnum CHR ''.''" by (simp add: is_alnum_def)
  then show ?thesis using n segment_no_slash[OF n] by (auto simp: user_name_def checkpoint_segment_def)
qed

lemma linked_out:
  assumes "map_of es n = Some (Symlink (Elsewhere p t))"
  shows "resolve_checkpoint_dir d es n = (if within_root d p t then Inr () else Inl (Uncaught FailedAssertion))"
  using assms by (cases es) (auto simp: resolve_checkpoint_dir_def guard_def)

text \<open>
  C26. An operator's link to a shared adapter.  The library refuses to replace or delete what it did not
  write, and every request for such a name is refused as the user's error, as long as the link leads
  somewhere under the checkpoint root.  A link out of the root makes the same requests, and a save that
  overwrites, raise an assertion that nothing catches.
\<close>

theorem foreign_link_errors:
  assumes "checkpoint_segment m" "k \<in> set CHECKPOINT_KINDS" "checkpoint_segment n"
    and "map_of (roots_of k) n = Some (Symlink (Elsewhere p t))"
  shows "owned_checkpoint env d roots_of tenant m (k @ ''/'' @ n) =
           Inl (if within_root d p t then Refused UserInputError else Uncaught FailedAssertion) \<and>
         start_save d (roots_of k) (Save_State (Some n) seq True) = (if within_root d p t then Inr n else Inl (Uncaught FailedAssertion)) \<and>
         (within_root d p t \<longrightarrow> (\<forall>fresh c. fst (swap_link e fresh n c True (on_disk (roots_of k))) = Inl ForeignLink))"
proof -
  have parse: "parse_tinker_path (''tinker://'' @ m @ ''/'' @ k @ ''/'' @ n) = Inr (m, k, n)"
    using assms(1-3) parse_tinker_path_iff[of "tinker_path m k n" m k n] by (simp add: tinker_path_def)
  have link: "link_target (roots_of k) n = Some (Elsewhere p t)" "lexists (roots_of k) n" "\<not> is_plain_folder (roots_of k) n"
    using assms(4) by (simp_all add: link_target_def lexists_def is_plain_folder_def)
  have refused: "resolve_adapter_dir env (key_digest d) (roots_of k) n (Some tenant) = Inl ForeignLink"
    using segment_user_name[OF assms(3)] link by (simp add: resolve_adapter_dir_def is_library_dir_def del: link_target_iff)
  have owned: "owned_checkpoint env d roots_of tenant m (k @ ''/'' @ n) = Inl (if within_root d p t then Refused UserInputError else Uncaught FailedAssertion)"
    using parse linked_out[OF assms(4), of d] refused
    by (auto simp: owned_checkpoint_def checked_def resolve_checkpoint_files_def is_pre_commit_dir_def split: option.splits)
  have "n \<noteq> []" using assms(3) by (simp add: checkpoint_segment_def)
  then have save: "start_save d (roots_of k) (Save_State (Some n) seq True) = (if within_root d p t then Inr n else Inl (Uncaught FailedAssertion))"
    using linked_out[OF assms(4), of d] assms(3)
    by (cases n) (simp_all add: start_save_state_def Let_def checked_def validate_checkpoint_segment_def)
  have "fst (swap_link e fresh n c True (on_disk (roots_of k))) = Inl ForeignLink" for fresh c
    using link by (simp add: swap_link_def Let_def io_then_def io_read_def io_when_def io_pure_def io_raise_def on_disk_def is_library_dir_def del: link_target_iff)
  then show ?thesis using owned save by blast
qed

theorem foreign_link_errors_witness:
  "start_save \<lparr>within_root = (\<lambda>_ _. False), key_digest = id, exports_names = True\<rparr> [(''shared'', Symlink (Elsewhere ''/mnt'' ''adapter''))]
     (Save_State (Some ''shared'') 1 True) = Inl (Uncaught FailedAssertion)"
proof -
  have "checkpoint_segment ''m''" "''weights'' \<in> set CHECKPOINT_KINDS" "checkpoint_segment ''shared''" by code_simp+
  then show ?thesis
    using foreign_link_errors[where roots_of = "\<lambda>_. [(''shared'', Symlink (Elsewhere ''/mnt'' ''adapter''))]" and k = "''weights''" and m = "''m''"
        and n = "''shared''" and p = "''/mnt''" and t = "''adapter''" and seq = 1 and d = "\<lparr>within_root = (\<lambda>_ _. False), key_digest = id, exports_names = True\<rparr>"]
    by simp
qed

end
