(* ===== verification/Checkpoint_Machine.thy ===== *)
theory Checkpoint_Machine
  imports Tinker_Checkpoints
begin

text \<open>
  The checkpoint operations of \<^verbatim>\<open>miles/tinker/core/service.py\<close> as they interleave.  One step is one call in
  a thread or the code between two awaits.  The trainer lock is held from the start of a save to its end,
  and, with the expiry lock, by deletions and sweeps; the expiry lock is also held while a lifetime is set.
  Every call that changes a root may be cut short by a crash after any of its steps, and the gateway may
  restart at any time; recovery, which runs before requests are served, is a step wherever no save or
  deletion is under way, and so is the removal of retired directories.  \<open>lag\<close> bounds how long the write of the table of expiries takes.
\<close>

section \<open>States\<close>

datatype trainer_job = No_Job | Written_Job save_job | Committed_Job save_job
  | Deleting_Job string string string string string | Dropping string
  | Sweeping "(string \<times> expiry) list" | Sweep_Dropping string "(string \<times> expiry) list"

datatype expiry_job = Idle | Ttl_Resolved string string json | Setting string string json rat bool | With_Trainer

record checkpoints = checkpoint_store +
  clock :: rat
  committed_ids :: "string set"
  trainer :: trainer_job
  expiry_lock :: expiry_job
  signing :: "(string \<times> string \<times> string) list"
  fetching :: "(download \<times> string) list"

text \<open>What the other components see of a step: a save, deletion or expiry that reaches a name, the lifetime
  that was granted to a commit, and what a download is served.\<close>

datatype event = Quiet
  | Saved save_job
  | Deleted string string string string
  | Expired string string string expiry
  | Granted string string json rat
  | Served download string "service_error + string \<times> string"

definition set_root :: "string \<Rightarrow> string \<Rightarrow> root_dir \<Rightarrow> checkpoints \<Rightarrow> checkpoints" where
  "set_root m k es s = s\<lparr>roots := (roots s)(m := (roots s m)(k := es))\<rparr>"

definition restarted :: "expiry_table \<Rightarrow> checkpoints \<Rightarrow> checkpoints" where
  "restarted table s = s\<lparr>expiries := table, downloads := [], download_tokens := [], trainer := No_Job, expiry_lock := Idle,
     signing := [], fetching := []\<rparr>"

text \<open>What a crash leaves: a directory some step of the call had left, and the table as its file holds it.\<close>

definition crashes :: "string \<Rightarrow> string \<Rightarrow> disk \<Rightarrow> checkpoints \<Rightarrow> checkpoints \<Rightarrow> bool" where
  "crashes m k dsk s s' \<longleftrightarrow> (\<exists>es \<in> set (trail dsk). \<exists>table.
     load_expiries (Some (dump_expiries (expiries s))) = Inr table \<and> s' = restarted table (set_root m k es s))"

text \<open>A commit id that is new: it was never committed and no entry of the root bears it.\<close>

definition new_id :: "checkpoints \<Rightarrow> root_dir \<Rightarrow> string \<Rightarrow> string \<Rightarrow> bool" where
  "new_id s es n c \<longleftrightarrow> c \<notin> committed_ids s \<and> unused_id es n c \<and> map_of es (physical_dir n c) = None"

definition releases :: "checkpoints \<Rightarrow> checkpoints" where
  "releases s = s\<lparr>trainer := No_Job, expiry_lock := Idle\<rparr>"

section \<open>Steps\<close>

inductive checkpoint_step :: "deployment \<Rightarrow> rat \<Rightarrow> checkpoints \<Rightarrow> event \<Rightarrow> checkpoints \<Rightarrow> bool" for d lag where
  tick: "checkpoint_step d lag s Quiet (s\<lparr>clock := clock s + dt\<rparr>)"
    if "0 \<le> dt" and "\<And>p c ttl now b. expiry_lock s = Setting p c ttl now b \<Longrightarrow> clock s + dt \<le> now + lag"
| write_dir: "checkpoint_step d lag s Quiet
      (case r of Inr p \<Rightarrow> (set_root (sj_model job) (sj_kind job) (entries dsk) s)\<lparr>trainer := Written_Job job\<rparr>
               | Inl e \<Rightarrow> set_root (sj_model job) (sj_kind job) (entries dsk) s)"
    if "trainer s = No_Job" and "start_save d (roots s (sj_model job) (sj_kind job)) (sj_request job) = Inr (sj_name job)"
      and "new_id s (roots s (sj_model job) (sj_kind job)) (sj_name job) (sj_commit job)"
      and "write_adapter_dir env (sj_name job) (sj_commit job) (Some (key_digest d (sj_tenant job))) files
         (on_disk (roots s (sj_model job) (sj_kind job))) = (r, dsk)"
| write_crash: "checkpoint_step d lag s Quiet s'"
    if "trainer s = No_Job" and "start_save d (roots s (sj_model job) (sj_kind job)) (sj_request job) = Inr (sj_name job)"
      and "new_id s (roots s (sj_model job) (sj_kind job)) (sj_name job) (sj_commit job)"
      and "write_adapter_dir env (sj_name job) (sj_commit job) (Some (key_digest d (sj_tenant job))) files
         (on_disk (roots s (sj_model job) (sj_kind job))) = (r, dsk)"
      and "crashes (sj_model job) (sj_kind job) dsk s s'"
| commit: "checkpoint_step d lag s (Saved job)
      ((set_root (sj_model job) (sj_kind job) (entries dsk) s)
         \<lparr>committed_ids := committed_ids s \<union> {sj_commit job, fresh},
          trainer := (if commit_answer (sj_request job) r = Inr True then Committed_Job job else No_Job)\<rparr>)"
    if "trainer s = Written_Job job" and "new_id s (roots s (sj_model job) (sj_kind job)) (sj_name job) fresh" and "fresh \<noteq> sj_commit job"
      and "commit_adapter_dir env fresh (sj_name job) (physical_dir (sj_name job) (sj_commit job)) (sj_commit job) (overwrites (sj_request job))
         (on_disk (roots s (sj_model job) (sj_kind job))) = (r, dsk)"
| commit_crash: "checkpoint_step d lag s (Saved job) (s'\<lparr>committed_ids := committed_ids s \<union> {sj_commit job, fresh}\<rparr>)"
    if "trainer s = Written_Job job" and "new_id s (roots s (sj_model job) (sj_kind job)) (sj_name job) fresh" and "fresh \<noteq> sj_commit job"
      and "commit_adapter_dir env fresh (sj_name job) (physical_dir (sj_name job) (sj_commit job)) (sj_commit job) (overwrites (sj_request job))
         (on_disk (roots s (sj_model job) (sj_kind job))) = (r, dsk)"
      and "crashes (sj_model job) (sj_kind job) dsk s s'"
| set_after_commit: "checkpoint_step d lag s Quiet (s\<lparr>expiry_lock := Setting (job_path job) (sj_commit job) (sj_ttl job) (clock s) True\<rparr>)"
    if "trainer s = Committed_Job job" and "expiry_lock s = Idle"
| set_write: "checkpoint_step d lag s (Granted path c ttl now)
      (s\<lparr>expiries := table_after outcome path c ttl now (expiries s), expiry_lock := Idle,
         trainer := (if b then No_Job else trainer s)\<rparr>)"
    if "expiry_lock s = Setting path c ttl now b"
| ttl_resolve: "checkpoint_step d lag s Quiet (s\<lparr>expiry_lock := Ttl_Resolved path c ttl\<rparr>)"
    if "expiry_lock s = Idle" and "owned_checkpoint env d (roots s m) tenant m cid = Inr (path, k, n, p, c, files)"
| ttl_set: "checkpoint_step d lag s Quiet (s\<lparr>expiry_lock := Setting path c ttl (clock s) False\<rparr>)"
    if "expiry_lock s = Ttl_Resolved path c ttl"
| delete: "checkpoint_step d lag s Quiet (s\<lparr>trainer := Deleting_Job path m k n tenant, expiry_lock := With_Trainer\<rparr>)"
    if "trainer s = No_Job" and "expiry_lock s = Idle"
      and "owned_checkpoint env d (roots s m) tenant m cid = Inr (path, k, n, p, c, files)"
| delete_dir: "checkpoint_step d lag s (Deleted tenant m k n)
      (case r of Inr _ \<Rightarrow> (set_root m k (entries dsk) s)\<lparr>trainer := Dropping path\<rparr>
               | Inl e \<Rightarrow> releases (set_root m k (entries dsk) s))"
    if "trainer s = Deleting_Job path m k n tenant" and "delete_adapter env d n (Some tenant) (roots s m k) = (r, dsk)"
| delete_crash: "checkpoint_step d lag s (Deleted tenant m k n) s'"
    if "trainer s = Deleting_Job path m k n tenant" and "delete_adapter env d n (Some tenant) (roots s m k) = (r, dsk)" and "crashes m k dsk s s'"
| drop: "checkpoint_step d lag s Quiet (releases (s\<lparr>expiries := snd (drop_expiry outcome path (expiries s))\<rparr>))"
    if "trainer s = Dropping path"
| sweep: "checkpoint_step d lag s Quiet (s\<lparr>trainer := Sweeping (expired (clock s) (expiries s)), expiry_lock := With_Trainer\<rparr>)"
    if "trainer s = No_Job" and "expiry_lock s = Idle" and "expired (clock s) (expiries s) \<noteq> []"
| sweep_skip: "checkpoint_step d lag s Quiet (s\<lparr>trainer := Sweeping rest\<rparr>)"
    if "trainer s = Sweeping ((path, e) # rest)" and "parse_tinker_path path = Inr (m, k, n)"
      and "rbind (resolve_checkpoint_dir d (roots s m k) n) (\<lambda>_. resolve_checkpoint_files env d (roots s m k) n None) = Inl x"
| sweep_stale: "checkpoint_step d lag s Quiet (s\<lparr>expiries := snd (drop_expiry outcome path (expiries s)), trainer := Sweeping rest\<rparr>)"
    if "trainer s = Sweeping ((path, e) # rest)" and "parse_tinker_path path = Inr (m, k, n)"
      and "rbind (resolve_checkpoint_dir d (roots s m k) n) (\<lambda>_. resolve_checkpoint_files env d (roots s m k) n None) = Inr found"
      and "\<And>p c files. found = Some (p, c, files) \<Longrightarrow> c \<noteq> ex_commit e"
| sweep_delete: "checkpoint_step d lag s (Expired m k n e)
      ((set_root m k (entries dsk) s)\<lparr>trainer := (case r of Inr _ \<Rightarrow> Sweep_Dropping path rest | Inl e \<Rightarrow> Sweeping rest)\<rparr>)"
    if "trainer s = Sweeping ((path, e) # rest)" and "parse_tinker_path path = Inr (m, k, n)"
      and "rbind (resolve_checkpoint_dir d (roots s m k) n) (\<lambda>_. resolve_checkpoint_files env d (roots s m k) n None) = Inr (Some (p, ex_commit e, files))"
      and "delete_adapter env' d n None (roots s m k) = (r, dsk)"
| sweep_crash: "checkpoint_step d lag s (Expired m k n e) s'"
    if "trainer s = Sweeping ((path, e) # rest)" and "parse_tinker_path path = Inr (m, k, n)"
      and "rbind (resolve_checkpoint_dir d (roots s m k) n) (\<lambda>_. resolve_checkpoint_files env d (roots s m k) n None) = Inr (Some (p, ex_commit e, files))"
      and "delete_adapter env' d n None (roots s m k) = (r, dsk)" and "crashes m k dsk s s'"
| sweep_drop: "checkpoint_step d lag s Quiet (s\<lparr>expiries := snd (drop_expiry outcome path (expiries s)), trainer := Sweeping rest\<rparr>)"
    if "trainer s = Sweep_Dropping path rest"
| sweep_end: "checkpoint_step d lag s Quiet (releases s)"
    if "trainer s = Sweeping []"
| sign_resolve: "checkpoint_step d lag s Quiet (s\<lparr>signing := signing s @ [(tenant, path, c)]\<rparr>)"
    if "take 17 cid = ''external_weights/''" and "owned_checkpoint env d (roots s m) tenant m cid = Inr (path, k, n, p, c, files)"
| sign: "checkpoint_step d lag s Quiet (snd (sign_url token (clock s) tenant path c (s\<lparr>signing := remove1 (tenant, path, c) (signing s)\<rparr>)))"
    if "(tenant, path, c) \<in> set (signing s)" and "token \<notin> fst ` set (downloads s)"
| fetch: "checkpoint_step d lag s Quiet (s\<lparr>fetching := fetching s @ [(dl, filename)]\<rparr>)"
    if "find_download token (clock s) s = Inr dl"
| serve: "checkpoint_step d lag s (Served dl filename (download_path env d (roots s) dl filename))
      (s\<lparr>fetching := remove1 (dl, filename) (fetching s)\<rparr>)"
    if "(dl, filename) \<in> set (fetching s)"
| drop_downloads: "checkpoint_step d lag s Quiet (drop_expired_downloads (clock s) s)"
| clean_up: "checkpoint_step d lag s Quiet (set_root m k (entries dsk) s)"
    if "trainer s = No_Job" and "delete_retired env (on_disk (roots s m k)) = (r, dsk)"
| restart: "checkpoint_step d lag s Quiet (restarted table s)"
    if "load_expiries (Some (dump_expiries (expiries s))) = Inr table"
| recover: "checkpoint_step d lag s Quiet (set_root m k (entries dsk) s)"
    if "trainer s = No_Job" and "delete_unreferenced env None None (on_disk (roots s m k)) = (r, dsk)"
| recover_crash: "checkpoint_step d lag s Quiet s'"
    if "trainer s = No_Job" and "delete_unreferenced env None None (on_disk (roots s m k)) = (r, dsk)" and "crashes m k dsk s s'"

inductive checkpoint_run :: "deployment \<Rightarrow> rat \<Rightarrow> checkpoints \<Rightarrow> event list \<Rightarrow> checkpoints \<Rightarrow> bool" for d lag where
  run_nil: "checkpoint_run d lag s [] s"
| run_snoc: "checkpoint_run d lag s ls s' \<Longrightarrow> checkpoint_step d lag s' l s'' \<Longrightarrow> checkpoint_run d lag s (ls @ [l]) s''"

text \<open>A gateway that starts: well-formed roots and nothing under way.\<close>

definition starting :: "checkpoints \<Rightarrow> bool" where
  "starting s \<longleftrightarrow> (\<forall>m k. root_ok (roots s m k)) \<and> dict_ok (expiries s) \<and>
     (\<forall>m k n p f. user_name n \<longrightarrow> view (roots s m k) n = Stored p f \<longrightarrow> commit_id_of p \<in> committed_ids s) \<and>
     downloads s = [] \<and> download_tokens s = [] \<and> trainer s = No_Job \<and> expiry_lock s = Idle \<and> signing s = [] \<and> fetching s = []"

definition checkpoint_reachable :: "deployment \<Rightarrow> rat \<Rightarrow> checkpoints \<Rightarrow> bool" where
  "checkpoint_reachable d lag s \<longleftrightarrow> (\<exists>s0 ls. starting s0 \<and> checkpoint_run d lag s0 ls s)"

section \<open>What one call does to a root\<close>

text \<open>A change of a root that keeps it well formed and lets each name keep what it stands for, or change it as \<open>P\<close> says.\<close>

definition moved :: "(string \<Rightarrow> view \<Rightarrow> view \<Rightarrow> bool) \<Rightarrow> root_dir \<Rightarrow> root_dir \<Rightarrow> bool" where
  "moved P es es' \<longleftrightarrow> root_ok es' \<and> (\<forall>n. user_name n \<longrightarrow> view es' n = view es n \<or> P n (view es n) (view es' n))"

lemma moved_mono: "moved P es es' \<Longrightarrow> (\<And>n v v'. P n v v' \<Longrightarrow> P' n v v') \<Longrightarrow> moved P' es es'"
  unfolding moved_def by blast

lemma moved_stable: "stable (view es) es' \<Longrightarrow> moved P es es'"
  by (auto simp: moved_def stable_def)

lemma moved_refl: "root_ok es \<Longrightarrow> moved P es es"
  by (simp add: moved_def)

lemma segment_adapter_name:
  assumes "checkpoint_segment n"
  shows "adapter_name n"
proof -
  have "\<not> segment_char CHR ''/''" "\<not> is_alnum CHR ''/''" "\<not> segment_char newline" "\<not> is_alnum newline" "\<not> is_alnum CHR ''.''"
    by (simp_all add: segment_char_def is_alnum_def newline_def)
  then show ?thesis using assms by (cases n) (auto simp: checkpoint_segment_def adapter_name_def user_name_def list_all_iff)
qed

lemma decimal_digits: "decimal n \<noteq> [] \<and> set (decimal n) \<subseteq> set ''0123456789''"
proof (induction n rule: decimal.induct)
  case (1 n)
  have digit: "(''0123456789'' :: string) ! i \<in> set ''0123456789''" if "i < 10" for i
    using nth_mem[of i "''0123456789'' :: string"] that by simp
  show ?case
  proof (cases "n < 10")
    case True
    then show ?thesis using digit[of n] by (simp add: decimal.simps[of n])
  next
    case False
    then show ?thesis using 1 digit[of "n mod 10"] by (simp add: decimal.simps[of n])
  qed
qed

lemma decimal_adapter_name: "adapter_name (decimal n)"
proof -
  have "x \<in> set (decimal n) \<Longrightarrow> x \<noteq> CHR ''.'' \<and> x \<noteq> CHR ''/'' \<and> x \<noteq> newline" for x
    using decimal_digits[of n] by (auto simp: newline_def)
  then show ?thesis using decimal_digits[of n] by (auto simp: adapter_name_def user_name_def hd_in_set)
qed

lemma start_save_name: "start_save d es req = Inr n \<Longrightarrow> adapter_name n"
  using segment_adapter_name decimal_adapter_name
  by (cases req) (auto simp: start_save_state_def start_save_sampler_def start_save_external_def Let_def result_simps unused_name_def validate_checkpoint_segment_def split: if_splits option.splits)

lemma write_run:
  assumes "root_ok es" "adapter_name n" "new_id s es n c"
    and "write_adapter_dir env n c owner files (on_disk es) = (r, dsk)"
  shows "\<forall>e \<in> insert (entries dsk) (set (trail dsk)). stable (view es) e"
    "r = Inr p \<Longrightarrow> (\<exists>f. map_of (entries dsk) (physical_dir n c) = Some (Folder f)) \<and> unused_id (entries dsk) n c"
proof -
  have id: "unused_id es n c" "map_of es (physical_dir n c) = None" using assms(3) by (simp_all add: new_id_def)
  have ok: "commit_id_ok c" "unlinked es (physical_dir n c)" "map_of es (physical_dir n c @ ending_text Adopting) = None"
    using id(1) by (simp_all add: unused_id_def)
  have "stable (view es) es" using assms(1) by (simp add: stable_def)
  note run = run_on_disk[OF write_wp[OF assms(2) ok(1) refl this id(2) ok(2)] assms(4)]
  have last: "stable (view es) (entries dsk)" using run(2) by (auto simp: writing_def split: sum.splits)
  then show "\<forall>e \<in> insert (entries dsk) (set (trail dsk)). stable (view es) e" using run(1) by simp
  assume "r = Inr p"
  then obtain f where w: "writing (view es) es (physical_dir n c) (tenant_file owner @ f) (entries dsk)" using run(2) by auto
  have ne: "physical_dir n c @ ending_text Adopting \<noteq> physical_dir n c" by (simp add: ending_text_def)
  show "(\<exists>f. map_of (entries dsk) (physical_dir n c) = Some (Folder f)) \<and> unused_id (entries dsk) n c"
    using writing_unused(1)[OF w assms(2) refl ok(1) ok(2)] writing_unused(2)[OF w assms(2) refl ok(1) ne] w ok
    by (simp add: unused_id_def writing_def)
qed

definition save_moves :: "string \<Rightarrow> bool \<Rightarrow> string set \<Rightarrow> string \<Rightarrow> view \<Rightarrow> view \<Rightarrow> bool" where
  "save_moves n overwrite ids m v v' \<longleftrightarrow> m = n \<and> (v = Absent \<or> overwrite) \<and> (\<exists>p f. v' = Stored p f \<and> commit_id_of p \<in> ids)"

lemma commit_run:
  assumes "root_ok es" "adapter_name n" "map_of es (physical_dir n c) = Some (Folder f)" "unused_id es n c" "new_id s es n fresh"
    and "commit_adapter_dir env fresh n (physical_dir n c) c overwrite (on_disk es) = (r, dsk)"
  shows "\<forall>e \<in> insert (entries dsk) (set (trail dsk)). moved (save_moves n overwrite {c, fresh}) es e"
proof -
  let ?c = "\<lparr>cc_name = n, cc_path = physical_dir n c, cc_phys = physical_dir n fresh, cc_folder = f\<rparr>"
  have n: "user_name n" using assms(2) by (simp add: adapter_name_def)
  have fresh: "unused_id es n fresh" "map_of es (physical_dir n fresh) = None" using assms(5) by (simp_all add: new_id_def)
  have ids: "commit_id_ok c" "commit_id_ok fresh" using assms(4) fresh by (simp_all add: unused_id_def)
  have st: "stable (view es) es" using assms(1) by (simp add: stable_def)
  have "ready ?c es" using assms(3,4) fresh by (simp add: ready_def unused_id_def)
  then have w: "wp (committing ?c overwrite (view es)) (commit_adapter_dir env fresh n (physical_dir n c) c overwrite)
      (\<lambda>_. committing ?c overwrite (view es)) (\<lambda>_. committing ?c overwrite (view es)) es"
    by (intro wp_mono[OF commit_wp[OF commit_names[OF assms(2) ids, of f], where V = "view es" and env = env and overwrite = overwrite, simplified]])
      (use st in \<open>auto simp: committing_def\<close>)
  have all: "\<forall>e \<in> insert (entries dsk) (set (trail dsk)). committing ?c overwrite (view es) e"
    using run_on_disk[OF w assms(6)] by (auto split: sum.splits)
  have "moved (save_moves n overwrite {c, fresh}) es e" if e: "committing ?c overwrite (view es) e" for e
  proof -
    have d: "root_ok e" "\<And>m. user_name m \<Longrightarrow> m \<noteq> n \<Longrightarrow> view e m = view es m"
      "during_commit overwrite (physical_dir n fresh) (physical_dir n c) f (view es n) (view e n)"
      using committing_during[OF e n] by auto
    have "view e n = view es n \<or> save_moves n overwrite {c, fresh} n (view es n) (view e n)"
      using d(3) commit_id_of_physical[OF ids(1), of n] commit_id_of_physical[OF ids(2), of n]
      by (auto simp: during_commit_def save_moves_def replaceable_def split: view.splits)
    then show ?thesis using d(1,2) unfolding moved_def by metis
  qed
  then show ?thesis using all by blast
qed

text \<open>What a tenant, or the gateway itself, may remove.\<close>

definition delete_moves :: "(string \<Rightarrow> string) \<Rightarrow> string \<Rightarrow> string option \<Rightarrow> string \<Rightarrow> string \<Rightarrow> view \<Rightarrow> view \<Rightarrow> bool" where
  "delete_moves digest n tenant c m v v' \<longleftrightarrow> m = n \<and> v' = Absent \<and> (\<exists>p f. v = Stored p f \<and> commit_id_of p = c \<and> access digest f tenant = Inr ())"

lemma delete_run:
  assumes ok: "root_ok es" and run: "delete_adapter env d n tenant es = (r, dsk)"
  shows "\<forall>e \<in> insert (entries dsk) (set (trail dsk)). moved (\<lambda>m v v'. \<exists>c. delete_moves (key_digest d) n tenant c m v v' \<and>
    (\<forall>env' p c' files. resolve_checkpoint_files env' d es n tenant = Inr (Some (p, c', files)) \<longrightarrow> c' = c)) es e"
proof -
  obtain r' where run': "delete_adapter_dir env (key_digest d) n tenant (on_disk es) = (r', dsk)"
    using run by (auto simp: delete_adapter_def split: prod.splits sum.splits os_exn.splits)
  show ?thesis
  proof (cases "\<exists>p c. resolve_adapter_dir env (key_digest d) es n tenant = Inr (Some (p, c))")
    case False
    then have "(\<exists>e. resolve_adapter_dir env (key_digest d) es n tenant = Inl e) \<or> resolve_adapter_dir env (key_digest d) es n tenant = Inr None"
      by (metis option.exhaust prod.exhaust sum.exhaust)
    then have "dsk = on_disk es"
      using run' by (auto simp: delete_adapter_dir_def io_then_def io_read_def io_raise_def on_disk_def)
    then show ?thesis using moved_refl[OF ok] by (auto simp: on_disk_def)
  next
    case True
    then obtain p c where res: "resolve_adapter_dir env (key_digest d) es n tenant = Inr (Some (p, c))" by blast
    note R = resolve_SomeD[OF ok res]
    have st: "stable (view es) es" using ok by (simp add: stable_def)
    note w = run_on_disk[OF delete_adapter_wp[OF st, of n env "key_digest d" tenant] run']
    have all: "stable (view es) e \<or> stable ((view es)(n := Absent)) e" if "e \<in> insert (entries dsk) (set (trail dsk))" for e
      using w that by (auto split: sum.splits)
    have "moved (delete_moves (key_digest d) n tenant c) es e" if "e \<in> insert (entries dsk) (set (trail dsk))" for e
      using all[OF that]
    proof
      assume "stable ((view es)(n := Absent)) e"
      then show ?thesis using R unfolding moved_def stable_def delete_moves_def by auto
    qed (rule moved_stable)
    moreover have "c' = c" if r: "resolve_checkpoint_files env' d es n tenant = Inr (Some (p', c', files))" for env' p' c' files
    proof -
      have "resolve_adapter_dir env' (key_digest d) es n tenant = Inr (Some (p', c'))"
        using r by (auto simp: resolve_checkpoint_files_def split: if_splits sum.splits option.splits os_exn.splits)
      then show ?thesis using resolve_SomeD(2,4)[OF ok, of env' "key_digest d" n tenant p' c'] R(2,4) by simp
    qed
    ultimately show ?thesis by (blast intro: moved_mono)
  qed
qed

section \<open>What one step may change\<close>

text \<open>
  A save gives a name a commit never seen before, and replaces one only if the request says so; a deletion
  removes what its tenant owns; the sweep removes the commit that an expired entry of the table names.
\<close>

definition allowed :: "deployment \<Rightarrow> checkpoints \<Rightarrow> event \<Rightarrow> checkpoints \<Rightarrow> string \<Rightarrow> string \<Rightarrow> string \<Rightarrow> view \<Rightarrow> view \<Rightarrow> bool" where
  "allowed d s l s' m k n v v' = (case l of
       Saved job \<Rightarrow> m = sj_model job \<and> k = sj_kind job \<and> n = sj_name job \<and> (v = Absent \<or> overwrites (sj_request job)) \<and>
         (\<exists>p f. v' = Stored p f \<and> commit_id_of p \<in> committed_ids s' - committed_ids s)
     | Deleted tenant m' k' n' \<Rightarrow> m = m' \<and> k = k' \<and> n = n' \<and> v' = Absent \<and>
         (\<exists>p f. v = Stored p f \<and> access (key_digest d) f (Some tenant) = Inr ())
     | Expired m' k' n' e \<Rightarrow> m = m' \<and> k = k' \<and> n = n' \<and> v' = Absent \<and> (\<exists>p f. v = Stored p f \<and> commit_id_of p = ex_commit e) \<and>
         map_of (expiries s) (tinker_path m k n) = Some e \<and> ex_at e \<le> clock s
     | _ \<Rightarrow> False)"

definition step_moves :: "deployment \<Rightarrow> checkpoints \<Rightarrow> event \<Rightarrow> checkpoints \<Rightarrow> bool" where
  "step_moves d s l s' \<longleftrightarrow> (\<forall>m k. moved (allowed d s l s' m k) (roots s m k) (roots s' m k))"

definition roots_ok :: "checkpoints \<Rightarrow> bool" where
  "roots_ok s \<longleftrightarrow> (\<forall>m k. root_ok (roots s m k)) \<and> dict_ok (expiries s) \<and>
     (\<forall>m k n p f. user_name n \<longrightarrow> view (roots s m k) n = Stored p f \<longrightarrow> commit_id_of p \<in> committed_ids s)"

text \<open>The entries a sweep has still to look at are those of the table.\<close>

definition due :: "checkpoints \<Rightarrow> (string \<times> expiry) list \<Rightarrow> bool" where
  "due s rest \<longleftrightarrow> distinct (map fst rest) \<and> (\<forall>(path, e) \<in> set rest. map_of (expiries s) path = Some e \<and> ex_at e \<le> clock s)"

definition written_ok :: "checkpoints \<Rightarrow> save_job \<Rightarrow> bool" where
  "written_ok s job \<longleftrightarrow> (let es = roots s (sj_model job) (sj_kind job); n = sj_name job; c = sj_commit job in
     adapter_name n \<and> (\<exists>f. map_of es (physical_dir n c) = Some (Folder f)) \<and> unused_id es n c \<and> c \<notin> committed_ids s)"

definition job_ok :: "checkpoints \<Rightarrow> bool" where
  "job_ok s \<longleftrightarrow> (case trainer s of
       No_Job \<Rightarrow> True
     | Written_Job job \<Rightarrow> written_ok s job
     | Committed_Job job \<Rightarrow> True
     | Deleting_Job path m k n tenant \<Rightarrow> expiry_lock s = With_Trainer
     | Dropping path \<Rightarrow> expiry_lock s = With_Trainer
     | Sweeping rest \<Rightarrow> expiry_lock s = With_Trainer \<and> due s rest
     | Sweep_Dropping path rest \<Rightarrow> expiry_lock s = With_Trainer \<and> due s rest \<and> path \<notin> fst ` set rest)"

lemma roots_set_root: "roots (set_root m k es s) m' k' = (if m' = m \<and> k' = k then es else roots s m' k')"
  by (simp add: set_root_def)

lemma set_root_frame [simp]:
  "expiries (set_root m k es s) = expiries s" "downloads (set_root m k es s) = downloads s"
  "download_tokens (set_root m k es s) = download_tokens s" "clock (set_root m k es s) = clock s"
  "committed_ids (set_root m k es s) = committed_ids s" "trainer (set_root m k es s) = trainer s"
  "expiry_lock (set_root m k es s) = expiry_lock s" "signing (set_root m k es s) = signing s" "fetching (set_root m k es s) = fetching s"
  by (simp_all add: set_root_def)

lemma restarted_frame [simp]:
  "roots (restarted t s) = roots s" "expiries (restarted t s) = t" "downloads (restarted t s) = []" "download_tokens (restarted t s) = []"
  "clock (restarted t s) = clock s" "committed_ids (restarted t s) = committed_ids s" "trainer (restarted t s) = No_Job"
  "expiry_lock (restarted t s) = Idle" "signing (restarted t s) = []" "fetching (restarted t s) = []"
  by (simp_all add: restarted_def)

lemma releases_frame [simp]:
  "roots (releases s) = roots s" "expiries (releases s) = expiries s" "downloads (releases s) = downloads s"
  "clock (releases s) = clock s" "committed_ids (releases s) = committed_ids s" "trainer (releases s) = No_Job"
  "expiry_lock (releases s) = Idle" "signing (releases s) = signing s" "fetching (releases s) = fetching s"
  by (simp_all add: releases_def)

lemma roots_okD:
  assumes "roots_ok s"
  shows "root_ok (roots s m k)" "dict_ok (expiries s)"
    "user_name n \<Longrightarrow> view (roots s m k) n = Stored p f \<Longrightarrow> commit_id_of p \<in> committed_ids s"
  using assms unfolding roots_ok_def by blast+

lemma step_moves_same: "roots_ok s \<Longrightarrow> roots s' = roots s \<Longrightarrow> step_moves d s l s'"
  by (simp add: step_moves_def moved_refl roots_okD)

lemma step_moves_root:
  assumes "roots_ok s" "roots s' = roots (set_root m k es s)" "moved (allowed d s l s' m k) (roots s m k) es"
  shows "step_moves d s l s'"
  using assms by (auto simp: step_moves_def roots_set_root moved_refl roots_okD)

lemma crashesD:
  assumes "crashes m k dsk s s'"
  obtains es table where "es \<in> set (trail dsk)" "load_expiries (Some (dump_expiries (expiries s))) = Inr table"
    "s' = restarted table (set_root m k es s)"
  using assms by (auto simp: crashes_def)

text \<open>Signing and forgetting downloads touch nothing else.\<close>

definition same_store :: "checkpoints \<Rightarrow> checkpoints \<Rightarrow> bool" where
  "same_store s s' \<longleftrightarrow> roots s' = roots s \<and> expiries s' = expiries s \<and> clock s' = clock s \<and> committed_ids s' = committed_ids s \<and>
     trainer s' = trainer s \<and> expiry_lock s' = expiry_lock s \<and> fetching s' = fetching s"

lemma sign_frame: "same_store s (snd (sign_url token now tenant path c (s\<lparr>signing := x\<rparr>)))"
  by (auto simp: sign_url_def Let_def same_store_def split: option.splits)

lemma drop_frame: "same_store s (drop_expired_downloads now s)"
proof -
  have "same_store s t \<Longrightarrow> same_store s (fold (drop_download now) xs t)" for xs t
    by (induction xs arbitrary: t) (auto simp: drop_download_def Let_def same_store_def split: prod.splits if_splits)
  then show ?thesis by (simp add: drop_expired_downloads_def same_store_def)
qed

lemma same_storeD:
  assumes "same_store s s'"
  shows "roots s' = roots s" "expiries s' = expiries s" "clock s' = clock s" "committed_ids s' = committed_ids s"
    "trainer s' = trainer s" "expiry_lock s' = expiry_lock s" "fetching s' = fetching s"
  using assms by (simp_all add: same_store_def)

lemmas sign_simps [simp] = same_storeD[OF sign_frame]
lemmas drop_simps [simp] = same_storeD[OF drop_frame]

lemma committed_ids_mono: "checkpoint_step d lag s l s' \<Longrightarrow> committed_ids s \<subseteq> committed_ids s'"
  by (cases rule: checkpoint_step.cases) (auto elim!: crashesD split: sum.splits)

lemma retired_run:
  assumes "root_ok es" "delete_retired env (on_disk es) = (r, dsk)" "e \<in> insert (entries dsk) (set (trail dsk))"
  shows "stable (view es) e"
  using run_on_disk[OF delete_retired_wp[OF assms(1)] assms(2)] assms(3) by (auto split: sum.splits)

lemma recovery_run:
  assumes "root_ok es" "delete_unreferenced env None None (on_disk es) = (r, dsk)" "e \<in> insert (entries dsk) (set (trail dsk))"
  shows "stable (view es) e"
  using run_on_disk[OF recovery_wp[OF assms(1)] assms(2)] assms(3) by (auto split: sum.splits)

lemma saved_moves:
  assumes job: "written_ok s job" and ok: "roots_ok s" and fresh: "new_id s (roots s (sj_model job) (sj_kind job)) (sj_name job) fresh"
    and run: "commit_adapter_dir env fresh (sj_name job) (physical_dir (sj_name job) (sj_commit job)) (sj_commit job) (overwrites (sj_request job))
         (on_disk (roots s (sj_model job) (sj_kind job))) = (r, dsk)"
    and ids: "committed_ids s' = committed_ids s \<union> {sj_commit job, fresh}" and e: "e \<in> insert (entries dsk) (set (trail dsk))"
  shows "moved (allowed d s (Saved job) s' (sj_model job) (sj_kind job)) (roots s (sj_model job) (sj_kind job)) e"
proof -
  let ?es = "roots s (sj_model job) (sj_kind job)"
  obtain f where j: "adapter_name (sj_name job)" "map_of ?es (physical_dir (sj_name job) (sj_commit job)) = Some (Folder f)"
    "unused_id ?es (sj_name job) (sj_commit job)" "sj_commit job \<notin> committed_ids s" using job by (auto simp: written_ok_def Let_def)
  have "moved (save_moves (sj_name job) (overwrites (sj_request job)) {sj_commit job, fresh}) ?es e"
    using commit_run[OF roots_okD(1)[OF ok] j(1-3) fresh run] e by blast
  then show ?thesis
    by (rule moved_mono) (use j(4) fresh in \<open>auto simp: save_moves_def allowed_def ids new_id_def\<close>)
qed

lemma deleted_moves:
  assumes ok: "roots_ok s" and run: "delete_adapter env d n (Some tenant) (roots s m k) = (r, dsk)" and e: "e \<in> insert (entries dsk) (set (trail dsk))"
  shows "moved (allowed d s (Deleted tenant m k n) s' m k) (roots s m k) e"
  using delete_run[OF roots_okD(1)[OF ok] run, rule_format, OF e]
  by (rule moved_mono) (auto simp: delete_moves_def allowed_def)

lemma expired_moves:
  assumes ok: "roots_ok s" and due: "due s ((path, x) # rest)" and path: "parse_tinker_path path = Inr (m, k, n)"
    and found: "rbind (resolve_checkpoint_dir d (roots s m k) n) (\<lambda>_. resolve_checkpoint_files env d (roots s m k) n None) = Inr (Some (p, ex_commit x, files))"
    and run: "delete_adapter env' d n None (roots s m k) = (r, dsk)" and e: "e \<in> insert (entries dsk) (set (trail dsk))"
  shows "moved (allowed d s (Expired m k n x) s' m k) (roots s m k) e"
proof -
  have "path = tinker_path m k n" "map_of (expiries s) path = Some x" "ex_at x \<le> clock s"
    using path due by (auto simp: parse_tinker_path_iff due_def)
  moreover have "resolve_checkpoint_files env d (roots s m k) n None = Inr (Some (p, ex_commit x, files))"
    using found by (auto simp: result_simps)
  moreover have "\<exists>c. delete_moves (key_digest d) n None c n' v v' \<and> c = ex_commit x"
    if "\<exists>c. delete_moves (key_digest d) n None c n' v v' \<and> (\<forall>env' p c' files. resolve_checkpoint_files env' d (roots s m k) n None = Inr (Some (p, c', files)) \<longrightarrow> c' = c)"
    for n' v v' using that calculation(4) by metis
  ultimately show ?thesis using delete_run[OF roots_okD(1)[OF ok] run, rule_format, OF e]
    by (elim moved_mono) (fastforce simp: delete_moves_def allowed_def)
qed

lemma step_moves:
  assumes ok: "roots_ok s" and job: "job_ok s" and step: "checkpoint_step d lag s l s'"
  shows "step_moves d s l s'"
proof -
  note root = step_moves_root[OF ok] and rok = roots_okD(1)[OF ok]
  from step show ?thesis
  proof cases
    case (write_dir job env files r dsk)
    have st: "stable (view (roots s (sj_model job) (sj_kind job))) (entries dsk)"
      using write_run(1)[OF rok start_save_name[OF write_dir(4)] write_dir(5,6)] by simp
    have "roots s' = roots (set_root (sj_model job) (sj_kind job) (entries dsk) s)"
      unfolding write_dir(2) by (simp split: sum.split)
    then show ?thesis by (rule root) (rule moved_stable[OF st])
  next
    case (write_crash job env files r dsk)
    obtain es table where c: "es \<in> set (trail dsk)" "s' = restarted table (set_root (sj_model job) (sj_kind job) es s)"
      using write_crash(6) by (rule crashesD)
    have st: "stable (view (roots s (sj_model job) (sj_kind job))) es"
      using write_run(1)[OF rok start_save_name[OF write_crash(3)] write_crash(4,5)] c(1) by simp
    show ?thesis by (rule root[where es = es, OF _ moved_stable[OF st]]) (simp add: c(2))
  next
    case (commit job fresh env r dsk)
    have w: "written_ok s job" using job commit(3) by (simp add: job_ok_def)
    show ?thesis unfolding commit(1)
      by (rule root[OF _ saved_moves[OF w ok commit(4,6), where e = "entries dsk"]]) (simp_all add: commit(2))
  next
    case (commit_crash job fresh env r dsk s1)
    have w: "written_ok s job" using job commit_crash(3) by (simp add: job_ok_def)
    obtain es table where c: "es \<in> set (trail dsk)" "s1 = restarted table (set_root (sj_model job) (sj_kind job) es s)"
      using commit_crash(7) by (rule crashesD)
    show ?thesis unfolding commit_crash(1)
      by (rule root[OF _ saved_moves[OF w ok commit_crash(4,6), where e = es]]) (use c in \<open>simp_all add: commit_crash(2)\<close>)
  next
    case (delete_dir path m k n tenant env r dsk)
    have "roots s' = roots (set_root m k (entries dsk) s)" unfolding delete_dir(2) by (simp split: sum.split)
    then show ?thesis unfolding delete_dir(1) by (rule root) (rule deleted_moves[OF ok delete_dir(4)], simp)
  next
    case (delete_crash path m k n tenant env r dsk)
    obtain es table where c: "es \<in> set (trail dsk)" "s' = restarted table (set_root m k es s)"
      using delete_crash(4) by (rule crashesD)
    show ?thesis unfolding delete_crash(1)
      by (rule root[OF _ deleted_moves[OF ok delete_crash(3), where e = es]]) (use c in simp_all)
  next
    case (sweep_delete path e rest m k n env p files env' r dsk)
    have due: "due s ((path, e) # rest)" using job sweep_delete(3) by (simp add: job_ok_def)
    show ?thesis unfolding sweep_delete(1)
      by (rule root[OF _ expired_moves[OF ok due sweep_delete(4-6), where e = "entries dsk"]]) (simp_all add: sweep_delete(2))
  next
    case (sweep_crash path e rest m k n env p files env' r dsk)
    have due: "due s ((path, e) # rest)" using job sweep_crash(2) by (simp add: job_ok_def)
    obtain es table where c: "es \<in> set (trail dsk)" "s' = restarted table (set_root m k es s)"
      using sweep_crash(6) by (rule crashesD)
    show ?thesis unfolding sweep_crash(1)
      by (rule root[OF _ expired_moves[OF ok due sweep_crash(3-5), where e = es]]) (use c in simp_all)
  next
    case (clean_up env m k r dsk)
    show ?thesis by (rule root[OF _ moved_stable[OF retired_run[OF rok clean_up(4), where e = "entries dsk"]]]) (simp_all add: clean_up(2))
  next
    case (recover env m k r dsk)
    show ?thesis by (rule root[OF _ moved_stable[OF recovery_run[OF rok recover(4), where e = "entries dsk"]]]) (simp_all add: recover(2))
  next
    case (recover_crash env m k r dsk)
    obtain es table where c: "es \<in> set (trail dsk)" "s' = restarted table (set_root m k es s)"
      using recover_crash(4) by (rule crashesD)
    show ?thesis by (rule root[OF _ moved_stable[OF recovery_run[OF rok recover_crash(3), where e = es]]]) (use c in simp_all)
  qed (rule step_moves_same[OF ok], simp)+
qed

section \<open>Invariants\<close>

lemma load_dict_ok: "load_expiries f = Inr t \<Longrightarrow> dict_ok t"
proof (cases f)
  case (Some j)
  assume l: "load_expiries f = Inr t"
  then obtain d where d: "rfold load_expiry d [] = Inr t" using Some by (auto simp: load_expiries_def split: json.splits)
  show "dict_ok t"
    by (rule rfold_invariant[where I = dict_ok, OF d])
      (auto simp: load_expiry_def result_simps dict_simps split: prod.splits)
qed (simp add: load_expiries_def)

lemma drop_table: "snd (drop_expiry outcome path es) = es \<or> snd (drop_expiry outcome path es) = AList.delete path es"
  by (auto simp: drop_expiry_def write_expiries_def split: write_outcome.splits)

lemma table_after_cases:
  "table_after outcome path c ttl now es = es \<or> table_after outcome path c ttl now es = AList.delete path es \<or>
   (\<exists>t. ttl = JInt t \<and> MIN_TTL_S \<le> t \<and> table_after outcome path c ttl now es = AList.update path \<lparr>ex_commit = c, ex_at = now + of_int t\<rparr> es)"
proof (cases "set_expiry outcome path c ttl now es")
  case (Inr r)
  obtain b t' where r: "r = (b, t')" by (cases r)
  have after: "table_after outcome path c ttl now es = t'" using Inr r by (simp add: table_after_def)
  from Inr show ?thesis
  proof (cases rule: set_expiry_cases)
    case 1
    then have "t' = snd (drop_expiry outcome path es)" using r by (metis snd_conv)
    then show ?thesis using after drop_table[of outcome path es] by metis
  next
    case (2 t)
    then show ?thesis using after r by (auto simp: write_expiries_def split: write_outcome.splits)
  qed
qed (simp add: table_after_def)

lemma dict_ok_drop: "dict_ok es \<Longrightarrow> dict_ok (snd (drop_expiry outcome path es))"
  using drop_table[of outcome path es] by (auto simp: dict_simps)

lemma dict_ok_after: "dict_ok es \<Longrightarrow> dict_ok (table_after outcome path c ttl now es)"
  using table_after_cases[of outcome path c ttl now es] by (auto simp: dict_simps)

lemma step_dict_ok: "checkpoint_step d lag s l s' \<Longrightarrow> dict_ok (expiries s) \<Longrightarrow> dict_ok (expiries s')"
  by (cases rule: checkpoint_step.cases) (auto elim!: crashesD dest: load_dict_ok intro!: dict_ok_drop dict_ok_after split: sum.splits)

lemma roots_ok_step:
  assumes ok: "roots_ok s" and step: "checkpoint_step d lag s l s'" and moves: "step_moves d s l s'"
  shows "roots_ok s'"
proof -
  note M = moves[unfolded step_moves_def moved_def]
  have "commit_id_of p \<in> committed_ids s'" if n: "user_name n" "view (roots s' m k) n = Stored p f" for m k n p f
  proof (cases "view (roots s' m k) n = view (roots s m k) n")
    case True
    then show ?thesis using roots_okD(3)[OF ok n(1), of m k p f] n(2) committed_ids_mono[OF step] by auto
  next
    case False
    then have "allowed d s l s' m k n (view (roots s m k) n) (Stored p f)" using M n by metis
    then show ?thesis by (auto simp: allowed_def split: event.splits)
  qed
  then show ?thesis using M step_dict_ok[OF step roots_okD(2)[OF ok]] by (simp add: roots_ok_def)
qed

lemma due_tail: "due s ((path, e) # rest) \<Longrightarrow> due s rest \<and> path \<notin> fst ` set rest"
  by (auto simp: due_def)

lemma due_cong: "due s rest \<Longrightarrow> expiries s' = expiries s \<Longrightarrow> clock s \<le> clock s' \<Longrightarrow> due s' rest"
  unfolding due_def by (auto dest!: bspec)

lemma due_drop:
  assumes due: "due s rest" and path: "path \<notin> fst ` set rest" and s': "expiries s' = snd (drop_expiry outcome path (expiries s))" "clock s' = clock s"
  shows "due s' rest"
proof -
  have "map_of (expiries s') p = map_of (expiries s) p" if "p \<noteq> path" for p
    using drop_table[of outcome path "expiries s"] that s'(1) by (auto simp: dict_simps)
  moreover have "map_of (expiries s) p = Some e" "ex_at e \<le> clock s" "p \<noteq> path" if "(p, e) \<in> set rest" for p e
    using due path that by (auto simp: due_def rev_image_eqI)
  moreover have "distinct (map fst rest)" using due by (simp add: due_def)
  ultimately show ?thesis using s'(2) unfolding due_def by auto
qed

lemma due_expired:
  assumes "dict_ok (expiries s)" "expiries s' = expiries s" "clock s' = clock s"
  shows "due s' (expired (clock s) (expiries s))"
proof -
  have "distinct (map fst (filter (\<lambda>(path, e). ex_at e \<le> clock s) (expiries s)))"
    using assms(1) by (rule distinct_map_filter)
  then have "distinct (map fst (expired (clock s) (expiries s)))"
    unfolding expired_def by (metis distinct_map distinct_sort set_sort)
  then show ?thesis using assms by (auto simp: due_def expired_def)
qed

lemma job_ok_step:
  assumes ok: "roots_ok s" and job: "job_ok s" and step: "checkpoint_step d lag s l s'"
  shows "job_ok s'"
proof -
  have idle: "job_ok s1" if "trainer s1 = No_Job" for s1 using that by (simp add: job_ok_def)
  have same: "job_ok s1" if "same_store s s1" for s1
    using job same_storeD[OF that] due_cong[of s _ s1] unfolding job_ok_def written_ok_def
    by (auto split: trainer_job.splits)
  from step show ?thesis
  proof cases
    case (tick dt)
    then show ?thesis using job due_cong[of s _ s'] unfolding job_ok_def written_ok_def by (auto split: trainer_job.splits)
  next
    case (write_dir job env files r dsk)
    note run = write_run[OF roots_okD(1)[OF ok] start_save_name[OF write_dir(4)] write_dir(5,6)]
    show ?thesis
    proof (cases r)
      case (Inl e)
      then show ?thesis using write_dir by (intro idle) simp
    next
      case (Inr p)
      then show ?thesis using run(2)[OF Inr] write_dir start_save_name[OF write_dir(4)]
        by (simp add: job_ok_def written_ok_def Let_def roots_set_root new_id_def)
    qed
  next
    case (set_write path c ttl now b outcome)
    then show ?thesis using job by (auto simp: job_ok_def written_ok_def split: trainer_job.splits)
  next
    case (sweep)
    then show ?thesis using due_expired[OF roots_okD(2)[OF ok], of s'] by (simp add: job_ok_def)
  next
    case (sweep_skip path e rest m k n env x)
    then show ?thesis using job due_tail[of s path e rest] due_cong[of s rest s'] by (simp add: job_ok_def)
  next
    case (sweep_stale path e rest m k n env found outcome)
    then have "due s rest" "path \<notin> fst ` set rest" "expiry_lock s = With_Trainer" using job due_tail[of s path e rest] by (simp_all add: job_ok_def)
    then show ?thesis using due_drop[of s rest path s' outcome] sweep_stale by (simp add: job_ok_def)
  next
    case (sweep_delete path e rest m k n env p files env' r dsk)
    then have "due s rest" "path \<notin> fst ` set rest" "expiry_lock s = With_Trainer" using job due_tail[of s path e rest] by (simp_all add: job_ok_def)
    then show ?thesis using sweep_delete by (cases r) (auto simp: job_ok_def intro: due_cong[of s rest])
  next
    case (sweep_drop path rest outcome)
    then have "due s rest" "path \<notin> fst ` set rest" "expiry_lock s = With_Trainer" using job by (simp_all add: job_ok_def)
    then show ?thesis using due_drop[of s rest path s' outcome] sweep_drop by (simp add: job_ok_def)
  next
    case (sign tenant path c token)
    then show ?thesis by (intro same) (simp add: sign_frame)
  next
    case (drop_downloads)
    then show ?thesis by (intro same) (simp add: drop_frame)
  next
    case (set_after_commit job)
    then show ?thesis by (simp add: job_ok_def)
  next
    case (ttl_resolve env m tenant cid path k n p c files ttl)
    then show ?thesis using job by (auto simp: job_ok_def written_ok_def split: trainer_job.splits)
  next
    case (ttl_set path c ttl)
    then show ?thesis using job by (auto simp: job_ok_def written_ok_def split: trainer_job.splits)
  next
    case (delete_dir path m k n tenant env r dsk)
    then show ?thesis using job by (simp add: job_ok_def split: sum.split)
  next
    case (sign_resolve cid env m tenant path k n p c files)
    then show ?thesis using job due_cong[of s _ s'] by (auto simp: job_ok_def written_ok_def split: trainer_job.splits)
  next
    case (fetch token dl filename)
    then show ?thesis using job due_cong[of s _ s'] by (auto simp: job_ok_def written_ok_def split: trainer_job.splits)
  next
    case (serve dl filename env)
    then show ?thesis using job due_cong[of s _ s'] by (auto simp: job_ok_def written_ok_def split: trainer_job.splits)
  qed (auto simp: job_ok_def elim!: crashesD)
qed

lemma starting_ok: "starting s \<Longrightarrow> roots_ok s \<and> job_ok s"
  by (simp add: starting_def roots_ok_def job_ok_def)

lemma run_ok:
  assumes "checkpoint_run d lag s ls s'" "roots_ok s" "job_ok s"
  shows "roots_ok s' \<and> job_ok s' \<and> committed_ids s \<subseteq> committed_ids s'"
  using assms
proof (induction rule: checkpoint_run.induct)
  case (run_snoc s ls s' l s'')
  then show ?case
    using step_moves[of s' d lag l s''] roots_ok_step[of s' d lag l s''] job_ok_step[of s' d lag l s''] committed_ids_mono[of d lag s' l s''] by blast
qed simp

lemma checkpoints_ok: "checkpoint_reachable d lag s \<Longrightarrow> roots_ok s \<and> job_ok s"
  unfolding checkpoint_reachable_def using run_ok starting_ok by blast

text \<open>Commits are never replayed: a commit of an earlier state that a name holds later is held by it throughout.\<close>

lemma commits_persist:
  assumes "checkpoint_run d lag s ls s'" "roots_ok s" "job_ok s" "user_name n"
    and "view (roots s' m k) n = Stored p f" "commit_id_of p \<in> committed_ids s"
  shows "view (roots s m k) n = Stored p f"
  using assms
proof (induction rule: checkpoint_run.induct)
  case (run_snoc s ls s' l s'')
  note ok = run_ok[OF run_snoc.hyps(1) run_snoc.prems(1,2)]
  have "step_moves d s' l s''" using step_moves ok run_snoc.hyps(2) by blast
  then have "view (roots s'' m k) n = view (roots s' m k) n \<or> allowed d s' l s'' m k n (view (roots s' m k) n) (view (roots s'' m k) n)"
    using run_snoc.prems(3) by (simp add: step_moves_def moved_def)
  moreover have "\<not> allowed d s' l s'' m k n (view (roots s' m k) n) (view (roots s'' m k) n)"
    using run_snoc.prems(4,5) ok by (auto simp: allowed_def split: event.splits)
  ultimately show ?case using run_snoc.IH run_snoc.prems by metis
qed simp

section \<open>Where an expiry comes from\<close>

lemma load_parses:
  assumes "rfold load_expiry (map (\<lambda>(path, e). (path, g e)) es) acc = Inr t" "(path, e) \<in> set es"
  shows "\<exists>m k n. parse_tinker_path path = Inr (m, k, n)"
  using assms
proof (induction es arbitrary: acc)
  case (Cons x es)
  then obtain acc' where a: "load_expiry (fst x, g (snd x)) acc = Inr acc'" "rfold load_expiry (map (\<lambda>(path, e). (path, g e)) es) acc' = Inr t"
    by (auto simp: result_simps split: prod.splits)
  show ?case
  proof (cases "(path, e) \<in> set es")
    case True
    then show ?thesis by (rule Cons.IH[OF a(2)])
  next
    case False
    then show ?thesis using a(1) Cons.prems(2) by (auto simp: load_expiry_def result_simps)
  qed
qed simp

lemma reload:
  assumes ok: "dict_ok es" and load: "load_expiries (Some (dump_expiries es)) = Inr t"
  shows "map_of t = map_of es"
proof -
  have "\<exists>m k n. parse_tinker_path path = Inr (m, k, n)" if "(path, e) \<in> set es" for path e
  proof (rule load_parses)
    show "rfold load_expiry (map (\<lambda>(path, e). (path, JObj [(''commit_id'', JStr (ex_commit e)), (''expires_at'', JFloat (ex_at e))])) (sort_key fst es)) [] = Inr t"
      using load by (simp add: load_expiries_def dump_expiries_def)
  qed (use that in simp)
  then have "table_ok es" using ok by (auto simp: table_ok_def)
  then show ?thesis using load_dump load by auto
qed

definition granted :: "event list \<Rightarrow> string \<Rightarrow> expiry \<Rightarrow> bool" where
  "granted ls path e \<longleftrightarrow> (\<exists>t now. Granted path (ex_commit e) (JInt t) now \<in> set ls \<and> MIN_TTL_S \<le> t \<and> ex_at e = now + of_int t)"

lemma expiry_granted_step:
  assumes ok: "dict_ok (expiries s)" and step: "checkpoint_step d lag s l s'" and e: "map_of (expiries s') path = Some e"
  shows "map_of (expiries s) path = Some e \<or> granted [l] path e"
proof -
  have same: ?thesis if "expiries s' = expiries s" using that e by simp
  have load: ?thesis if "load_expiries (Some (dump_expiries (expiries s))) = Inr (expiries s')"
    using reload[OF ok that] e by simp
  have dropped: ?thesis if "expiries s' = snd (drop_expiry outcome p (expiries s))" for outcome p
    using drop_table[of outcome p "expiries s"] that e by (auto simp: dict_simps split: if_splits)
  have crash: ?thesis if "crashes m k dsk s s1" "expiries s' = expiries s1" for m k dsk s1
    using that(1) by (rule crashesD) (use that(2) load in simp)
  from step show ?thesis
  proof cases
    case (set_write p c ttl now b outcome)
    then show ?thesis using table_after_cases[of outcome p c ttl now "expiries s"] e
      by (auto simp: granted_def dict_simps split: if_splits)
  next
    case (write_dir job env files r dsk)
    then show ?thesis using same by (simp split: sum.splits)
  next
    case (delete_dir p m k n tenant env r dsk)
    then show ?thesis using same by (simp split: sum.splits)
  next
    case (drop p outcome)
    then show ?thesis using dropped by simp
  next
    case (sweep_stale p e' rest m k n env found outcome)
    then show ?thesis using dropped by simp
  next
    case (sweep_drop p rest outcome)
    then show ?thesis using dropped by simp
  next
    case (restart table)
    then show ?thesis using load by simp
  next
    case (write_crash job env files r dsk)
    then show ?thesis using crash by blast
  next
    case (commit_crash job fresh env r dsk s1)
    then show ?thesis using crash[of _ _ dsk s1] by simp
  next
    case (delete_crash p m k n tenant env r dsk)
    then show ?thesis using crash by blast
  next
    case (sweep_crash p e' rest m k n env q files env' r dsk)
    then show ?thesis using crash by blast
  next
    case (recover_crash env m k r dsk)
    then show ?thesis using crash by blast
  qed (rule same, simp)+
qed

lemma expiry_granted:
  assumes "checkpoint_run d lag s ls s'" "roots_ok s" "job_ok s" "map_of (expiries s') path = Some e"
  shows "map_of (expiries s) path = Some e \<or> granted ls path e"
  using assms
proof (induction rule: checkpoint_run.induct)
  case (run_snoc s ls s' l s'')
  have "dict_ok (expiries s')" using run_ok[OF run_snoc.hyps(1) run_snoc.prems(1,2)] roots_okD(2) by blast
  then have "map_of (expiries s') path = Some e \<or> granted [l] path e"
    by (rule expiry_granted_step[OF _ run_snoc.hyps(2) run_snoc.prems(3)])
  then show ?case using run_snoc.IH[OF run_snoc.prems(1,2)] by (auto simp: granted_def)
qed simp

section \<open>What the operations promise\<close>

text \<open>
  C8. A checkpoint goes only by right.  Whatever operations interleave, fail or crash, the commit a name
  holds is given up only by a save of the same model under that name that asked to overwrite, which puts a
  commit never seen before in its place; by a deletion that a tenant asked for who owns it; or by the sweep,
  for an expiry of exactly this commit that has passed, and which the table held when the gateway started or
  was granted to it since, by a lifetime of at least an hour.
\<close>

theorem checkpoints_go_by_right:
  assumes "starting s0" "checkpoint_run d lag s0 ls s" "checkpoint_step d lag s l s'"
    and "user_name n" "view (roots s m k) n = Stored p f" "view (roots s' m k) n \<noteq> Stored p f"
  shows "(\<exists>job p' f'. l = Saved job \<and> sj_model job = m \<and> sj_kind job = k \<and> sj_name job = n \<and> overwrites (sj_request job) \<and>
            view (roots s' m k) n = Stored p' f' \<and> commit_id_of p' \<notin> committed_ids s) \<or>
         (\<exists>tenant. l = Deleted tenant m k n \<and> access (key_digest d) f (Some tenant) = Inr () \<and> view (roots s' m k) n = Absent) \<or>
         (\<exists>e. l = Expired m k n e \<and> ex_commit e = commit_id_of p \<and> ex_at e \<le> clock s \<and> view (roots s' m k) n = Absent \<and>
            (map_of (expiries s0) (tinker_path m k n) = Some e \<or> granted ls (tinker_path m k n) e))"
proof -
  have ok: "roots_ok s" "job_ok s" using run_ok[OF assms(2)] starting_ok[OF assms(1)] by auto
  have "allowed d s l s' m k n (Stored p f) (view (roots s' m k) n)"
    using step_moves[OF ok assms(3)] assms(4-6) unfolding step_moves_def moved_def by metis
  then show ?thesis
    using expiry_granted[OF assms(2) _ _, of "tinker_path m k n"] starting_ok[OF assms(1)]
    by (auto simp: allowed_def split: event.splits)
qed

lemma owned_checkpointD:
  assumes ok: "\<And>k. root_ok (rs k)" and m: "checkpoint_segment m"
    and own: "owned_checkpoint env d rs tenant m cid = Inr (path, k, n, p, c, files)"
  shows "parse_tinker_path path = Inr (m, k, n)" "path = ''tinker://'' @ m @ ''/'' @ cid" "user_name n" "c = commit_id_of p"
    "\<exists>f. map_of (rs k) p = Some (Folder f) \<and> view (rs k) n = Stored p f \<and> access (key_digest d) f (Some tenant) = Inr () \<and> files = files_in env (rs k) p"
proof -
  let ?path = "''tinker://'' @ m @ ''/'' @ cid"
  obtain m' k' n' where parse: "parse_tinker_path ?path = Inr (m', k', n')"
    and found: "(case resolve_checkpoint_files env d (rs k') n' (Some tenant) of
          Inl (Uncaught ForeignLink) \<Rightarrow> Inl (Refused UserInputError)
        | Inl (Uncaught BadOwnerJson) \<Rightarrow> Inl (Refused UserInputError)
        | Inl e \<Rightarrow> Inl e
        | Inr None \<Rightarrow> Inl (Refused (if folder_at env (rs k') (Sibling n') \<noteq> None then UserInputError else NotFoundError))
        | Inr (Some files) \<Rightarrow> Inr (?path, k', n', files)) = Inr (path, k, n, p, c, files)"
    using own unfolding owned_checkpoint_def Let_def by (auto simp only: result_simps prod.case split_paired_Ex)
  have res: "resolve_checkpoint_files env d (rs k) n (Some tenant) = Inr (Some (p, c, files))" and same: "k' = k" "n' = n" "path = ?path"
    using found by (auto split: sum.splits option.splits service_error.splits os_exn.splits)
  have adapter: "resolve_adapter_dir env (key_digest d) (rs k) n (Some tenant) = Inr (Some (p, c))" "files = files_in env (rs k) p"
    using res by (auto simp: resolve_checkpoint_files_def split: if_splits sum.splits option.splits os_exn.splits)
  note R = resolve_SomeD[OF ok adapter(1)]
  have "split_slash (m @ CHR ''/'' # cid) = [m', k', n']"
    using parse by (auto simp: parse_tinker_path_def result_simps split: list.splits if_splits)
  then have "m' = m" using split_slash_append[OF segment_no_slash[OF m], of cid] by simp
  then show "parse_tinker_path path = Inr (m, k, n)" "path = ?path"
    using parse same by simp_all
  show "user_name n" "c = commit_id_of p" using R(1,4) by simp_all
  show "\<exists>f. map_of (rs k) p = Some (Folder f) \<and> view (rs k) n = Stored p f \<and> access (key_digest d) f (Some tenant) = Inr () \<and> files = files_in env (rs k) p"
    using R(5) adapter(2) by auto
qed

lemma download_pathD:
  assumes ok: "\<And>m k. root_ok (rs m k)" and run: "download_path env d rs dl filename = Inr (p, file)"
  obtains m k n f where "parse_tinker_path (dl_path dl) = Inr (m, k, n)" "user_name n" "file = filename" "dl_commit dl = commit_id_of p"
    "view (rs m k) n = Stored p f" "access (key_digest d) f (Some (dl_tenant dl)) = Inr ()" "is_file f filename" "filename \<noteq> ''tenant.json''"
proof -
  obtain m k n where parse: "parse_tinker_path (dl_path dl) = Inr (m, k, n)"
    and rest: "rbind (owned_checkpoint env d (rs m) (dl_tenant dl) m (k @ ''/'' @ n)) (\<lambda>(_, _, _, p, commit_id, files).
       rbind (guard (Refused NotFoundError) (commit_id = dl_commit dl)) (\<lambda>_.
       rbind (guard (Refused NotFoundError) (filename \<in> set files)) (\<lambda>_. Inr (p, filename)))) = Inr (p, file)"
    using run unfolding download_path_def rbind_Inr_iff[of "checked _"] checked_Inr_iff split_paired_Ex prod.case by metis
  have seg: "checkpoint_segment m" "dl_path dl = tinker_path m k n" using parse by (simp_all add: parse_tinker_path_iff)
  obtain path k' n' c files where own: "owned_checkpoint env d (rs m) (dl_tenant dl) m (k @ ''/'' @ n) = Inr (path, k', n', p, c, files)"
    and c: "c = dl_commit dl" "filename \<in> set files" "file = filename"
    using rest by (auto simp: result_simps)
  note O = owned_checkpointD[of "rs m", OF ok seg(1) own]
  have "path = tinker_path m k n" using O(2) by (simp add: tinker_path_def)
  then have "k' = k" "n' = n" using O(1) parse seg(2) by simp_all
  then obtain f where f: "map_of (rs m k) p = Some (Folder f)" "view (rs m k) n = Stored p f" "access (key_digest d) f (Some (dl_tenant dl)) = Inr ()"
    "files = files_in env (rs m k) p" using O(5) by auto
  have "folder_at env (rs m k) (Sibling p) = Some f" using f(1) by (simp add: folder_at_def)
  then have "is_file f filename" "filename \<noteq> ''tenant.json''" using c(2) f(4) by (auto simp: files_in_def)
  then show ?thesis using that[OF parse _ c(3) _ f(2,3)] O(3,4) \<open>n' = n\<close> c(1) by simp
qed

text \<open>
  C9. A download URL serves what it was signed for.  Take any earlier time at which the name of the URL's
  path held the commit the URL was signed for.  Whatever was saved, overwritten, deleted, saved again or
  recovered since, a file the URL serves is a file of that commit's directory as it was then, never the
  owner's record, the name still holds the commit, and the tenant the URL was signed for owns it.
\<close>

theorem downloads_serve_the_signed_commit:
  assumes "checkpoint_reachable d lag s0" "checkpoint_run d lag s0 ls s"
    and "checkpoint_step d lag s (Served dl filename (Inr (dir, file))) s'"
    and "parse_tinker_path (dl_path dl) = Inr (m, k, n)" "view (roots s0 m k) n = Stored p f" "dl_commit dl = commit_id_of p"
  shows "dir = p \<and> file = filename \<and> is_file f filename \<and> filename \<noteq> ''tenant.json'' \<and> view (roots s m k) n = Stored p f \<and>
         access (key_digest d) f (Some (dl_tenant dl)) = Inr ()"
proof -
  have ok: "roots_ok s0" "job_ok s0" using checkpoints_ok[OF assms(1)] by simp_all
  have ok': "root_ok (roots s m k)" for m k using run_ok[OF assms(2) ok] roots_okD(1) by blast
  obtain env where "download_path env d (roots s) dl filename = Inr (dir, file)"
    using assms(3) by (cases rule: checkpoint_step.cases) auto
  then obtain m' k' n' f' where D: "parse_tinker_path (dl_path dl) = Inr (m', k', n')" "user_name n'" "file = filename" "dl_commit dl = commit_id_of dir"
    "view (roots s m' k') n' = Stored dir f'" "access (key_digest d) f' (Some (dl_tenant dl)) = Inr ()" "is_file f' filename" "filename \<noteq> ''tenant.json''"
    using download_pathD[of "roots s", OF ok'] by metis
  then have same: "m' = m" "k' = k" "n' = n" using assms(4) by simp_all
  have "commit_id_of dir \<in> committed_ids s0"
    using roots_okD(3)[OF ok(1), of n m k p f] assms(5,6) D(2,4) same by simp
  then have "view (roots s0 m k) n = Stored dir f'"
    using commits_persist[OF assms(2) ok, of n m k dir f'] D(2,5) same by simp
  then show ?thesis using D same assms(5) by simp
qed

section \<open>How long a download lives\<close>

text \<open>The table is written within \<open>lag\<close>; a URL lives an hour, and \<open>lag\<close> past its commit's expiry at most.\<close>

definition url_ok :: "rat \<Rightarrow> checkpoints \<Rightarrow> download \<Rightarrow> bool" where
  "url_ok lag s dl \<longleftrightarrow> dl_expires dl \<le> clock s + DOWNLOAD_URL_TTL_S \<and>
     (\<forall>e. expires_at (dl_path dl) (dl_commit dl) (expiries s) = Some e \<longrightarrow> dl_expires dl \<le> e + lag)"

definition urls_ok :: "rat \<Rightarrow> checkpoints \<Rightarrow> bool" where
  "urls_ok lag s \<longleftrightarrow> (\<forall>token dl. map_of (downloads s) token = Some dl \<longrightarrow> url_ok lag s dl) \<and>
     (\<forall>p c ttl now b. expiry_lock s = Setting p c ttl now b \<longrightarrow> now \<le> clock s \<and> clock s \<le> now + lag)"

lemma urls_okD:
  assumes "urls_ok lag s"
  shows "map_of (downloads s) token = Some dl \<Longrightarrow> url_ok lag s dl"
    "expiry_lock s = Setting p c ttl now b \<Longrightarrow> now \<le> clock s \<and> clock s \<le> now + lag"
  using assms unfolding urls_ok_def by blast+

text \<open>A state with fewer URLs, no later an expiry lost and the same clock is as good.\<close>

lemma urls_ok_shrink:
  assumes ok: "urls_ok lag s" and c: "clock s \<le> clock s'"
    and d: "\<And>token dl. map_of (downloads s') token = Some dl \<Longrightarrow> map_of (downloads s) token = Some dl"
    and e: "\<And>path c t. expires_at path c (expiries s') = Some t \<Longrightarrow> expires_at path c (expiries s) = Some t"
    and l: "\<And>p c ttl now b. expiry_lock s' = Setting p c ttl now b \<Longrightarrow> now \<le> clock s' \<and> clock s' \<le> now + lag"
  shows "urls_ok lag s'"
  using urls_okD(1)[OF ok d] c e l unfolding urls_ok_def url_ok_def by (meson add_mono_thms_linordered_semiring(3) order_trans)

lemma expires_at_drop: "expires_at path c (snd (drop_expiry outcome p es)) = Some t \<Longrightarrow> expires_at path c es = Some t"
  using drop_table[of outcome p es] by (auto simp: expires_at_def dict_simps split: if_splits)

lemma map_of_drop_downloads:
  assumes "map_of (downloads (drop_expired_downloads now s)) token = Some dl"
  shows "map_of (downloads s) token = Some dl"
proof -
  have "map_of (downloads (fold (drop_download now) xs t)) token = Some dl \<Longrightarrow> map_of (downloads t) token = Some dl" for xs t
  proof (induction xs arbitrary: t)
    case (Cons x xs)
    then have "map_of (downloads (drop_download now x t)) token = Some dl" by simp
    then show ?case by (auto simp: drop_download_def Let_def dict_simps split: prod.splits if_splits)
  qed simp
  then show ?thesis using assms unfolding drop_expired_downloads_def by blast
qed

lemma sign_downloads:
  assumes "map_of (downloads (snd (sign_url new now tenant path c s))) token = Some dl" "0 \<le> lag"
  shows "map_of (downloads s) token = Some dl \<or>
    dl_path dl = path \<and> dl_commit dl = c \<and> dl_expires dl \<le> now + DOWNLOAD_URL_TTL_S \<and>
    (\<forall>e. expires_at path c (expiries s) = Some e \<longrightarrow> dl_expires dl \<le> e)"
  using assms by (auto simp: sign_url_def Let_def dict_simps split: option.splits if_splits)

lemma urls_ok_sign:
  assumes ok: "urls_ok lag s" and lag: "0 \<le> lag"
  shows "urls_ok lag (snd (sign_url new (clock s) tenant path c (s\<lparr>signing := x\<rparr>)))" (is "urls_ok lag ?s'")
proof -
  have "url_ok lag ?s' dl" if dl: "map_of (downloads ?s') token = Some dl" for token dl
    using sign_downloads[OF dl lag] urls_okD(1)[OF ok, of token dl] lag
    by (auto simp: url_ok_def)
  then show ?thesis using urls_okD(2)[OF ok] by (simp add: urls_ok_def)
qed

lemma urls_ok_set:
  assumes ok: "urls_ok lag s" and l: "expiry_lock s = Setting path c ttl now b"
    and s': "expiries s' = table_after outcome path c ttl now (expiries s)" "downloads s' = downloads s" "clock s' = clock s" "expiry_lock s' = Idle"
  shows "urls_ok lag s'"
proof -
  have now: "now \<le> clock s" "clock s \<le> now + lag" using urls_okD(2)[OF ok l] by simp_all
  have "url_ok lag s' dl" if dl: "map_of (downloads s') token = Some dl" for token dl
  proof -
    have old: "url_ok lag s dl" using urls_okD(1)[OF ok] dl s'(2) by simp
    have "dl_expires dl \<le> e + lag" if e: "expires_at (dl_path dl) (dl_commit dl) (expiries s') = Some e" for e
    proof (cases "expires_at (dl_path dl) (dl_commit dl) (expiries s) = Some e")
      case True
      then show ?thesis using old by (simp add: url_ok_def)
    next
      case False
      then obtain t where "MIN_TTL_S \<le> t" "e = now + of_int t"
        using table_after_cases[of outcome path c ttl now "expiries s"] e unfolding s'(1)
        by (auto simp: expires_at_def dict_simps split: if_splits)
      moreover from this have "3600 \<le> (of_int t :: rat)" by (simp add: MIN_TTL_S_def)
      ultimately show ?thesis using old now by (simp add: url_ok_def DOWNLOAD_URL_TTL_S_def)
    qed
    then show ?thesis using old s'(3) by (simp add: url_ok_def)
  qed
  then show ?thesis using s'(4) by (simp add: urls_ok_def)
qed

lemma urls_ok_step:
  assumes ok: "urls_ok lag s" and lag: "0 \<le> lag" and dict: "dict_ok (expiries s)" and step: "checkpoint_step d lag s l s'"
  shows "urls_ok lag s'"
proof -
  have same: ?thesis if "clock s' = clock s" "downloads s' = downloads s" "expiries s' = expiries s"
    "expiry_lock s' = expiry_lock s \<or> (\<forall>p c ttl now b. expiry_lock s' = Setting p c ttl now b \<longrightarrow> now = clock s)"
    by (rule urls_ok_shrink[OF ok]) (use that lag in \<open>auto dest: urls_okD(2)[OF ok] urls_okD(2)[OF ok, OF sym]\<close>)
  have dropped: ?thesis if that2: "clock s' = clock s" "downloads s' = downloads s" "expiries s' = snd (drop_expiry outcome p (expiries s))"
    "expiry_lock s' = expiry_lock s \<or> expiry_lock s' = Idle" for outcome p
  proof (rule urls_ok_shrink[OF ok])
    show "expires_at path c (expiries s) = Some t" if "expires_at path c (expiries s') = Some t" for path c t
      using that expires_at_drop unfolding that2(3) by blast
    show "now \<le> clock s' \<and> clock s' \<le> now + lag" if "expiry_lock s' = Setting p c ttl now b" for p c ttl now b
      using that2(4) that urls_okD(2)[OF ok, of p c ttl now b] that2(1) by auto
  qed (use that2 in simp_all)
  have fresh: ?thesis if "downloads s' = []" "expiry_lock s' = Idle" using that by (simp add: urls_ok_def)
  from step show ?thesis
  proof cases
    case (tick dt)
    show ?thesis by (rule urls_ok_shrink[OF ok]) (use tick urls_okD(2)[OF ok] in fastforce)+
  next
    case (set_write path c ttl now b outcome)
    show ?thesis by (rule urls_ok_set[OF ok set_write(3)]) (simp_all add: set_write(2))
  next
    case (sign tenant path c token)
    then show ?thesis using urls_ok_sign[OF ok lag] by simp
  next
    case drop_downloads
    show ?thesis by (rule urls_ok_shrink[OF ok]) (use drop_downloads map_of_drop_downloads in \<open>auto dest: urls_okD(2)[OF ok]\<close>)
  next
    case (drop path outcome)
    then show ?thesis using dropped[of outcome path] by simp
  next
    case (sweep_stale path e rest m k n env found outcome)
    then show ?thesis using dropped[of outcome path] by simp
  next
    case (sweep_drop path rest outcome)
    then show ?thesis using dropped[of outcome path] by simp
  next
    case (write_dir job env files r dsk)
    then show ?thesis using same by (simp split: sum.splits)
  next
    case (delete_dir path m k n tenant env r dsk)
    then show ?thesis using same by (simp split: sum.splits)
  next
    case (write_crash job env files r dsk)
    show ?thesis by (rule fresh; use write_crash(6) in \<open>auto elim!: crashesD\<close>)
  next
    case (set_after_commit job)
    show ?thesis by (rule same) (simp_all add: set_after_commit)
  qed ((rule same; simp; fail) | (rule fresh; auto elim!: crashesD; fail))+
qed

lemma urls_ok_run:
  assumes "checkpoint_run d lag s ls s'" "roots_ok s" "job_ok s" "urls_ok lag s" "0 \<le> lag"
  shows "urls_ok lag s'"
  using assms
proof (induction rule: checkpoint_run.induct)
  case (run_snoc s ls s' l s'')
  have "dict_ok (expiries s')" using run_ok[OF run_snoc.hyps(1) run_snoc.prems(1,2)] roots_okD(2) by blast
  then show ?case using urls_ok_step[OF _ _ _ run_snoc.hyps(2)] run_snoc.IH run_snoc.prems by blast
qed

text \<open>
  C20. A download URL expires with its checkpoint.  In every reachable state a URL lives no longer than an
  hour from now, and if its commit expires, then at most \<open>lag\<close> longer than the commit, where \<open>lag\<close> bounds the
  time the gateway takes to write its table of expiries.
\<close>

theorem urls_expire_with_checkpoints:
  assumes "checkpoint_reachable d lag s" "0 \<le> lag" "map_of (downloads s) token = Some dl"
  shows "dl_expires dl \<le> clock s + 3600 \<and>
         (\<forall>e. expires_at (dl_path dl) (dl_commit dl) (expiries s) = Some e \<longrightarrow> dl_expires dl \<le> e + lag)"
proof -
  obtain s0 ls where s0: "starting s0" "checkpoint_run d lag s0 ls s" using assms(1) by (auto simp: checkpoint_reachable_def)
  have "urls_ok lag s0" using s0(1) by (simp add: starting_def urls_ok_def)
  then have "urls_ok lag s" using urls_ok_run[OF s0(2) _ _ _ assms(2)] starting_ok[OF s0(1)] by blast
  then show ?thesis using urls_okD(1)[OF _ assms(3)] by (simp add: url_ok_def DOWNLOAD_URL_TTL_S_def)
qed

section \<open>Examples\<close>

text \<open>Alice's export \<open>w\<close> of the model \<open>m\<close>, which expired at 5, and which a second gateway holds without an expiry.\<close>

definition demo_dir :: string where
  "demo_dir = physical_dir ''w'' (demo_id CHR ''1'')"

definition demo_export :: folder where
  "demo_export = tenant_file (Some ''alice'') @ [(''adapter.safetensors'', Other_File)]"

definition demo_exports :: "string \<Rightarrow> string \<Rightarrow> root_dir" where
  "demo_exports m k = (if m = ''m'' \<and> k = ''external_weights''
     then [(''w'', Symlink (Sibling demo_dir)), (demo_dir, Folder demo_export)] else [])"

definition demo_url_path :: string where
  "demo_url_path = tinker_path ''m'' ''external_weights'' ''w''"

definition demo_checkpoints :: "expiry_table \<Rightarrow> checkpoints" where
  "demo_checkpoints table = \<lparr>roots = demo_exports, expiries = table, downloads = [], download_tokens = [], clock = 10,
     committed_ids = {demo_id CHR ''1''}, trainer = No_Job, expiry_lock = Idle, signing = [], fetching = []\<rparr>"

definition demo_deployment :: deployment where
  "demo_deployment = \<lparr>within_root = (\<lambda>_ _. True), key_digest = id, exports_names = True\<rparr>"

definition demo_table :: expiry_table where
  "demo_table = [(demo_url_path, \<lparr>ex_commit = demo_id CHR ''1'', ex_at = 5\<rparr>)]"

lemma demo_export_ok:
  "root_ok (demo_exports ''m'' ''external_weights'')" "view (demo_exports ''m'' ''external_weights'') ''w'' = Stored demo_dir demo_export"
  "commit_id_of demo_dir = demo_id CHR ''1''" "user_name ''w''" "parse_tinker_path demo_url_path = Inr (''m'', ''external_weights'', ''w'')"
  by code_simp+

lemma demo_other_names:
  assumes "view (demo_exports m k) n = Stored p f"
  shows "p = demo_dir"
proof -
  have "internal_entry demo_dir = Some (''w'', Committed)" "internal_entry ''w'' = None" by code_simp+
  then show ?thesis using assms
    by (auto simp: view_def demo_exports_def pending_adoption_def is_library_dir_def adoptee_def find_Some_iff split: if_splits option.splits entry.splits link_target.splits)
qed

lemma demo_starts: "dict_ok table \<Longrightarrow> starting (demo_checkpoints table)"
proof -
  have "root_ok (demo_exports m k)" for m k
  proof (cases "m = ''m'' \<and> k = ''external_weights''")
    case False
    then have "demo_exports m k = []" by (auto simp: demo_exports_def)
    then show ?thesis by (simp add: root_ok_def)
  qed (use demo_export_ok(1) in simp)
  moreover have "commit_id_of p = demo_id CHR ''1''" if "view (demo_exports m k) n = Stored p f" for m k n p f
    using demo_other_names[OF that] demo_export_ok(3) by simp
  ultimately show "dict_ok table \<Longrightarrow> starting (demo_checkpoints table)" by (auto simp: starting_def demo_checkpoints_def)
qed

lemma demo_owned:
  "owned_checkpoint calm demo_deployment (demo_exports ''m'') ''alice'' ''m'' ''external_weights/w'' =
     Inr (demo_url_path, ''external_weights'', ''w'', demo_dir, demo_id CHR ''1'', [''adapter.safetensors''])"
  "resolve_checkpoint_dir demo_deployment (demo_exports ''m'' ''external_weights'') ''w'' = Inr ()"
  "resolve_checkpoint_files calm demo_deployment (demo_exports ''m'' ''external_weights'') ''w'' None =
     Inr (Some (demo_dir, demo_id CHR ''1'', [''adapter.safetensors'']))"
  by code_simp+

lemma demo_checkpoints_simps [simp]:
  "roots (demo_checkpoints t) = demo_exports" "expiries (demo_checkpoints t) = t" "downloads (demo_checkpoints t) = []" "download_tokens (demo_checkpoints t) = []"
  "clock (demo_checkpoints t) = 10" "trainer (demo_checkpoints t) = No_Job" "expiry_lock (demo_checkpoints t) = Idle" "signing (demo_checkpoints t) = []"
  "fetching (demo_checkpoints t) = []"
  by (simp_all add: demo_checkpoints_def)

lemma demo_deleted: "view (entries (snd (delete_adapter calm demo_deployment ''w'' None (demo_exports ''m'' ''external_weights'')))) ''w'' = Absent"
  by code_simp

theorem checkpoints_go_by_right_witness:
  "\<exists>s s' e. checkpoint_step demo_deployment 0 s (Expired ''m'' ''external_weights'' ''w'' e) s' \<and>
     view (roots s' ''m'' ''external_weights'') ''w'' = Absent \<and> ex_commit e = commit_id_of demo_dir \<and> ex_at e \<le> clock s"
proof -
  let ?d = demo_deployment and ?g = "demo_checkpoints demo_table" and ?x = "\<lparr>ex_commit = demo_id CHR ''1'', ex_at = 5\<rparr>" and ?es = "demo_exports ''m'' ''external_weights''"
  let ?s = "?g\<lparr>trainer := Sweeping (expired (clock ?g) (expiries ?g)), expiry_lock := With_Trainer\<rparr>"
  have table: "expired (clock ?g) (expiries ?g) = [(demo_url_path, ?x)]"
    by (simp add: demo_checkpoints_def demo_table_def expired_def)
  have start: "starting ?g" by (rule demo_starts) (simp add: demo_table_def)
  have "checkpoint_step ?d 0 ?g Quiet ?s"
    by (rule sweep) (simp_all only: table, simp_all)
  then have run: "checkpoint_run ?d 0 ?g ([] @ [Quiet]) ?s" by (rule run_snoc[OF run_nil])
  obtain r dsk where del: "delete_adapter calm ?d ''w'' None ?es = (r, dsk)" by (metis surj_pair)
  define s' where "s' = (set_root ''m'' ''external_weights'' (entries dsk) ?s)\<lparr>trainer := (case r of Inr _ \<Rightarrow> Sweep_Dropping demo_url_path [] | Inl e \<Rightarrow> Sweeping [])\<rparr>"
  have roots: "roots ?s ''m'' ''external_weights'' = ?es" by (simp add: demo_checkpoints_def)
  have step: "checkpoint_step ?d 0 ?s (Expired ''m'' ''external_weights'' ''w'' ?x) s'"
    unfolding s'_def
    by (rule sweep_delete[where env = calm and env' = calm and p = demo_dir and files = "[''adapter.safetensors'']" and path = demo_url_path])
      (use table in \<open>simp_all add: del demo_owned demo_export_ok\<close>)
  have gone: "view (roots s' ''m'' ''external_weights'') ''w'' = Absent"
    using demo_deleted del by (simp add: s'_def roots_set_root)
  have held: "view (roots ?s ''m'' ''external_weights'') ''w'' = Stored demo_dir demo_export" using demo_export_ok(2) roots by simp
  have "ex_commit ?x = commit_id_of demo_dir \<and> ex_at ?x \<le> clock ?s"
    using checkpoints_go_by_right[OF start run step demo_export_ok(4) held] gone by auto
  then show ?thesis using step gone by blast
qed

theorem downloads_serve_the_signed_commit_witness:
  "\<exists>s dl s'. checkpoint_step demo_deployment 0 s (Served dl ''adapter.safetensors'' (Inr (demo_dir, ''adapter.safetensors''))) s' \<and>
     is_file demo_export ''adapter.safetensors'' \<and> access id demo_export (Some (dl_tenant dl)) = Inr ()"
proof -
  let ?d = demo_deployment and ?g = "demo_checkpoints []" and ?c = "demo_id CHR ''1''"
  let ?dl = "\<lparr>dl_tenant = ''alice'', dl_path = demo_url_path, dl_commit = ?c, dl_expires = 3610\<rparr>"
  let ?ga = "?g\<lparr>signing := signing ?g @ [(''alice'', demo_url_path, ?c)]\<rparr>"
  obtain gb where gb_eq: "gb = snd (sign_url ''t'' (clock ?ga) ''alice'' demo_url_path ?c (?ga\<lparr>signing := remove1 (''alice'', demo_url_path, ?c) (signing ?ga)\<rparr>))"
    by blast
  let ?gc = "gb\<lparr>fetching := fetching gb @ [(?dl, ''adapter.safetensors'')]\<rparr>"
  have start: "starting ?g" by (rule demo_starts) simp
  have own: "owned_checkpoint calm ?d (roots ?g ''m'') ''alice'' ''m'' ''external_weights/w'' =
      Inr (demo_url_path, ''external_weights'', ''w'', demo_dir, ?c, [''adapter.safetensors''])"
    using demo_owned(1) by (simp add: demo_checkpoints_def)
  have resolve: "checkpoint_step ?d 0 ?g Quiet ?ga" by (rule sign_resolve[OF _ own]) simp
  have sign: "checkpoint_step ?d 0 ?ga Quiet gb" unfolding gb_eq by (rule sign) simp_all
  have gb: "downloads gb = [(''t'', ?dl)]" "roots gb = demo_exports" "clock gb = 10" "fetching gb = []"
    unfolding gb_eq by (simp_all add: sign_url_def expires_at_def DOWNLOAD_URL_TTL_S_def)
  have fetch: "checkpoint_step ?d 0 gb Quiet ?gc"
    by (rule fetch[where token = "''t''"]) (simp add: find_download_def gb)
  have run: "checkpoint_run ?d 0 ?g ((([] @ [Quiet]) @ [Quiet]) @ [Quiet]) ?gc"
    by (rule run_snoc[OF run_snoc[OF run_snoc[OF run_nil resolve] sign] fetch])
  have "download_path calm ?d demo_exports ?dl ''adapter.safetensors'' = Inr (demo_dir, ''adapter.safetensors'')" by code_simp
  then have "download_path calm ?d (roots ?gc) ?dl ''adapter.safetensors'' = Inr (demo_dir, ''adapter.safetensors'')" using gb(2) by simp
  then have "checkpoint_step ?d 0 ?gc (Served ?dl ''adapter.safetensors'' (Inr (demo_dir, ''adapter.safetensors'')))
      (?gc\<lparr>fetching := remove1 (?dl, ''adapter.safetensors'') (fetching ?gc)\<rparr>)"
    using serve[where s = ?gc and dl = ?dl and filename = "''adapter.safetensors''" and env = calm and d = ?d and lag = 0] by simp
  note served = this
  have reach: "checkpoint_reachable ?d 0 ?g" using start run_nil unfolding checkpoint_reachable_def by blast
  have held: "view (roots ?g ''m'' ''external_weights'') ''w'' = Stored demo_dir demo_export" using demo_export_ok(2) by (simp add: demo_checkpoints_def)
  have "is_file demo_export ''adapter.safetensors'' \<and> access id demo_export (Some (dl_tenant ?dl)) = Inr ()"
    using downloads_serve_the_signed_commit[OF reach run served _ held] demo_export_ok(3,5) by (simp add: demo_deployment_def)
  then show ?thesis using served by blast
qed


text \<open>
  The bound is reached: a lifetime of an hour that is granted at 10 and written until 20, and a URL signed
  meanwhile.
\<close>

theorem urls_expire_with_checkpoints_witness:
  "\<exists>s dl. checkpoint_reachable demo_deployment 10 s \<and> map_of (downloads s) ''t'' = Some dl \<and>
     expires_at (dl_path dl) (dl_commit dl) (expiries s) = Some 3610 \<and> dl_expires dl = 3620 \<and> dl_expires dl \<le> 3610 + 10"
proof -
  let ?d = demo_deployment and ?g = "demo_checkpoints []" and ?c = "demo_id CHR ''1''"
  let ?dl = "\<lparr>dl_tenant = ''alice'', dl_path = demo_url_path, dl_commit = ?c, dl_expires = 3620\<rparr>"
  let ?ga = "?g\<lparr>expiry_lock := Ttl_Resolved demo_url_path ?c (JInt 3600)\<rparr>"
  let ?gb = "?ga\<lparr>expiry_lock := Setting demo_url_path ?c (JInt 3600) (clock ?ga) False\<rparr>"
  let ?gc = "?gb\<lparr>clock := clock ?gb + 10\<rparr>"
  let ?gd = "?gc\<lparr>signing := signing ?gc @ [(''alice'', demo_url_path, ?c)]\<rparr>"
  obtain ge where ge_eq: "ge = snd (sign_url ''t'' (clock ?gd) ''alice'' demo_url_path ?c (?gd\<lparr>signing := remove1 (''alice'', demo_url_path, ?c) (signing ?gd)\<rparr>))"
    by blast
  let ?gf = "ge\<lparr>expiries := table_after Written demo_url_path ?c (JInt 3600) 10 (expiries ge), expiry_lock := Idle, trainer := (if False then No_Job else trainer ge)\<rparr>"
  have own: "owned_checkpoint calm ?d (roots ?g ''m'') ''alice'' ''m'' ''external_weights/w'' =
      Inr (demo_url_path, ''external_weights'', ''w'', demo_dir, ?c, [''adapter.safetensors''])"
    using demo_owned(1) by (simp add: demo_checkpoints_def)
  have a: "checkpoint_step ?d 10 ?g Quiet ?ga" by (rule ttl_resolve[OF _ own]) (simp add: demo_checkpoints_def)
  have b: "checkpoint_step ?d 10 ?ga Quiet ?gb" by (rule ttl_set) simp
  have c: "checkpoint_step ?d 10 ?gb Quiet ?gc" by (rule tick) auto
  have own': "owned_checkpoint calm ?d (roots ?gc ''m'') ''alice'' ''m'' ''external_weights/w'' =
      Inr (demo_url_path, ''external_weights'', ''w'', demo_dir, ?c, [''adapter.safetensors''])" using own by simp
  have e: "checkpoint_step ?d 10 ?gc Quiet ?gd" by (rule sign_resolve[OF _ own']) simp
  have f: "checkpoint_step ?d 10 ?gd Quiet ge" unfolding ge_eq by (rule sign) simp_all
  have ge_facts: "downloads ge = [(''t'', ?dl)]" "expiries ge = []" "expiry_lock ge = Setting demo_url_path ?c (JInt 3600) 10 False"
    unfolding ge_eq by (simp_all add: sign_url_def expires_at_def DOWNLOAD_URL_TTL_S_def)
  have h: "checkpoint_step ?d 10 ge (Granted demo_url_path ?c (JInt 3600) 10) ?gf"
    by (rule set_write) (simp add: ge_facts)
  have "downloads ?gf = [(''t'', ?dl)]" "expires_at demo_url_path ?c (expiries ?gf) = Some 3610"
    by (simp_all add: ge_facts expires_at_def table_after_def set_expiry_def write_expiries_def MIN_TTL_S_def MAX_TTL_S_def)
  moreover have reach: "checkpoint_reachable ?d 10 ?gf"
    unfolding checkpoint_reachable_def
    using demo_starts[of "[]"] run_snoc[OF run_snoc[OF run_snoc[OF run_snoc[OF run_snoc[OF run_snoc[OF run_nil a] b] c] e] f] h] by auto
  moreover note urls_expire_with_checkpoints[OF reach, of "''t''" ?dl]
  ultimately show ?thesis by (intro exI[of _ ?gf] exI[of _ ?dl]) simp
qed

end
