(* ===== verification/Tinker_Loading.thy ===== *)
theory Tinker_Loading
  imports Tinker_Checkpoints
begin

text \<open>
  Reading checkpoints back (\<^verbatim>\<open>miles/tinker/core/utils.py\<close>, \<^verbatim>\<open>miles/tinker/runtime.py\<close> and
  \<^verbatim>\<open>adapter/parametrization.py\<close>): what an adapter records of itself, the metadata of checkpoints saved before
  commits, the adapter that a sampling path names, and the source a model is loaded from.
\<close>

section \<open>Metadata of checkpoints saved before commits\<close>

fun is_str :: "json \<Rightarrow> bool" where
  "is_str (JStr s) = True"
| "is_str _ = False"

fun is_int :: "json \<Rightarrow> bool" where
  "is_int (JInt i) = True"
| "is_int _ = False"

fun is_number :: "json \<Rightarrow> bool" where
  "is_number (JInt i) = True"
| "is_number (JFloat r) = True"
| "is_number _ = False"

fun is_bool :: "json \<Rightarrow> bool" where
  "is_bool (JBool b) = True"
| "is_bool _ = False"

definition metadata_types :: "(string \<times> (json \<Rightarrow> bool)) list" where
  "metadata_types = [(''tenant_digest'', is_str), (''base_model'', is_str), (''lora_rank'', is_int), (''lora_alpha'', is_number),
     (''train_attn'', is_bool), (''train_mlp'', is_bool), (''train_unembed'', is_bool)]"

definition positive :: "json \<Rightarrow> bool" where
  "positive v = (case v of JInt i \<Rightarrow> 0 < i | JFloat r \<Rightarrow> 0 < r | JBool b \<Rightarrow> b | _ \<Rightarrow> False)"

definition validate_checkpoint_metadata :: "json \<Rightarrow> tinker_error + obj" where
  "validate_checkpoint_metadata meta = (case meta of
       JObj d \<Rightarrow>
         rbind (require (list_all (\<lambda>(k, is_type). is_type (dget d k)) metadata_types)) (\<lambda>_.
         rbind (require (positive (dget d ''lora_rank''))) (\<lambda>_.
         rbind (require_finite (dget d ''lora_alpha'')) (\<lambda>_. Inr d)))
     | _ \<Rightarrow> Inl UserInputError)"

definition read_checkpoint_metadata :: "environment \<Rightarrow> deployment \<Rightarrow> root_dir \<Rightarrow> string \<Rightarrow> string \<Rightarrow> tinker_error + obj" where
  "read_checkpoint_metadata env d es name tenant = (case folder_at env es (Sibling name) of
       None \<Rightarrow> Inl UserInputError
     | Some f \<Rightarrow> (case map_of f ''META.json'' of
         Some (Json_File v) \<Rightarrow>
           rbind (validate_checkpoint_metadata v) (\<lambda>meta.
           rbind (guard OwnershipError (py_eq (dget meta ''tenant_digest'') (JStr (key_digest d tenant)))) (\<lambda>_. Inr meta))
       | _ \<Rightarrow> Inl UserInputError))"

section \<open>What an adapter records of itself\<close>

definition PARAMETRIZATION_REQUIRED :: "string list" where
  "PARAMETRIZATION_REQUIRED = [''base_model'', ''lora_rank'', ''lora_alpha'', ''lora_type'', ''target_modules'', ''experts_shared_outer_loras'']"

definition PARAMETRIZATION_FIELDS :: "string list" where
  "PARAMETRIZATION_FIELDS = PARAMETRIZATION_REQUIRED @ [''shared_lora_a_groups'', ''base_model_fingerprint'']"

fun string_of :: "json \<Rightarrow> tinker_error + string" where
  "string_of (JStr s) = Inr s"
| "string_of _ = Inl (Tinker_Raised TypeError)"

definition strings_of :: "json \<Rightarrow> tinker_error + string list" where
  "strings_of v = rbind (items v) (rmap string_of)"

fun rank_positive :: "json \<Rightarrow> tinker_error + unit" where
  "rank_positive (JInt i) = guard (Tinker_Raised AssertionError) (0 < i)"
| "rank_positive (JFloat r) = guard (Tinker_Raised AssertionError) (0 < r)"
| "rank_positive (JBool b) = guard (Tinker_Raised AssertionError) b"
| "rank_positive _ = Inl (Tinker_Raised TypeError)"

text \<open>
  \<^verbatim>\<open>AdapterParametrization.__post_init__\<close>: the groups of modules that share a factor are put in one order,
  and are disjoint groups of targets.  Modules are strings, as in every file the library writes; a module
  that is none is a \<open>TypeError\<close> here.
\<close>

definition parametrization_of :: "obj \<Rightarrow> tinker_error + obj" where
  "parametrization_of stored =
     rbind (rbind (item stored ''target_modules'') strings_of) (\<lambda>targets.
     rbind (rbind (rbind (item stored ''shared_lora_a_groups'') items) (rmap strings_of)) (\<lambda>groups.
     rbind (rank_positive (dget stored ''lora_rank'')) (\<lambda>_.
     let sorted_groups = sort (map sort groups); grouped = concat sorted_groups in
     rbind (guard (Tinker_Raised AssertionError) (distinct grouped)) (\<lambda>_.
     rbind (guard (Tinker_Raised AssertionError) (set grouped \<subseteq> set targets)) (\<lambda>_.
       Inr (dset ''target_modules'' (JArr (map JStr targets))
              (dset ''shared_lora_a_groups'' (JArr (map (\<lambda>g. JArr (map JStr g)) sorted_groups)) stored)))))))"

definition parse_parametrization :: "json \<Rightarrow> tinker_error + obj" where
  "parse_parametrization file = (case file of
       JObj d \<Rightarrow>
         rbind (item d ''format_version'') (\<lambda>version.
         let kept = dpop ''format_version'' d in
         rbind (guard (Tinker_Raised ValueError) (py_eq version (JInt 1))) (\<lambda>_.
         rbind (guard (Tinker_Raised ValueError) (fst ` set kept \<subseteq> set PARAMETRIZATION_FIELDS)) (\<lambda>_.
         rbind (guard (Tinker_Raised ValueError) (list_all (dhas kept) PARAMETRIZATION_REQUIRED)) (\<lambda>_.
           parametrization_of kept))))
     | JArr xs \<Rightarrow> Inl (Tinker_Raised TypeError)
     | _ \<Rightarrow> Inl (Tinker_Raised AttributeError))"

text \<open>A file that is missing or no JSON raises \<^verbatim>\<open>OSError\<close> or \<^verbatim>\<open>ValueError\<close>, both of which \<^verbatim>\<open>resolve_adapter\<close> reports.\<close>

definition read_parametrization :: "folder \<Rightarrow> tinker_error + obj" where
  "read_parametrization f = (case map_of f ''adapter_parametrization.json'' of
       Some (Json_File v) \<Rightarrow> parse_parametrization v
     | _ \<Rightarrow> Inl (Tinker_Raised ValueError))"

section \<open>Resolving an adapter\<close>

definition lora_name :: "string \<Rightarrow> string \<Rightarrow> string \<Rightarrow> string" where
  "lora_name model_id name commit_id = model_id @ ''@'' @ name @ ''@'' @ commit_id"

definition reported_to_user :: "tinker_error + 'a \<Rightarrow> tinker_error + 'a" where
  "reported_to_user r = (case r of
       Inl e \<Rightarrow> Inl (if e \<in> {Tinker_Raised ValueError, Tinker_Raised KeyError, Tinker_Raised TypeError} then UserInputError else e)
     | Inr x \<Rightarrow> Inr x)"

definition resolve_adapter ::
  "environment \<Rightarrow> deployment \<Rightarrow> root_dir \<Rightarrow> string \<Rightarrow> string \<Rightarrow> string \<Rightarrow> tinker_error + (string \<times> string \<times> obj) option" where
  "resolve_adapter env d es name tenant model_id =
     (if is_pre_commit_dir env es name then Inr None
      else case resolve_adapter_dir env (key_digest d) es name (Some tenant) of
          Inl NotOwner \<Rightarrow> Inl OwnershipError
        | Inl FailedAssertion \<Rightarrow> Inl (Tinker_Raised AssertionError)
        | Inl e \<Rightarrow> Inl UserInputError
        | Inr None \<Rightarrow> Inr None
        | Inr (Some (p, c)) \<Rightarrow> (case folder_at env es (Sibling p) of
            None \<Rightarrow> Inl UserInputError
          | Some f \<Rightarrow> rbind (reported_to_user (read_parametrization f)) (\<lambda>stored. Inr (Some (p, lora_name model_id name c, stored)))))"

definition resolve_sampler_export ::
  "environment \<Rightarrow> deployment \<Rightarrow> root_dir \<Rightarrow> string \<Rightarrow> string \<Rightarrow> string \<Rightarrow> tinker_error + (string \<times> string \<times> obj) option" where
  "resolve_sampler_export env d es name tenant model_id =
     (if link_target es name = None then Inr None
      else rbind (resolve_adapter env d es name tenant model_id) (\<lambda>committed.
        if committed = None then Inl UserInputError else Inr committed))"

text \<open>An assertion of \<open>resolve_checkpoint_dir\<close>.\<close>

definition checkpoint_dir :: "deployment \<Rightarrow> root_dir \<Rightarrow> string \<Rightarrow> tinker_error + unit" where
  "checkpoint_dir d es name = (case resolve_checkpoint_dir d es name of Inl e \<Rightarrow> Inl (Tinker_Raised AssertionError) | Inr u \<Rightarrow> Inr u)"

text \<open>
  The adapter and directory engines sample from; \<open>experts\<close> is the layout of experts the gateway serves.
\<close>

definition resolve_sampler_checkpoint ::
  "environment \<Rightarrow> deployment \<Rightarrow> gateway_config \<Rightarrow> bool \<Rightarrow> (string \<Rightarrow> string \<Rightarrow> root_dir) \<Rightarrow> string \<Rightarrow> string \<Rightarrow> tinker_error + string \<times> string" where
  "resolve_sampler_checkpoint env d cfg experts rs tenant model_path =
     rbind (parse_tinker_path model_path) (\<lambda>(model_id, kind, name).
     rbind (require (kind = ''sampler_weights'')) (\<lambda>_.
     let es = rs model_id ''sampler_weights'' in
     rbind (checkpoint_dir d es name) (\<lambda>_.
     rbind (resolve_sampler_export env d es name tenant model_id) (\<lambda>committed.
     rbind (case committed of
         None \<Rightarrow> rbind (read_checkpoint_metadata env d es name tenant) (\<lambda>meta.
           Inr (dupdate [(''experts_shared_outer_loras'', JBool False)] meta, model_id @ ''@'' @ name, name))
       | Some (p, lora, stored) \<Rightarrow> Inr (stored, lora, p)) (\<lambda>(meta, lora, dir).
     rbind (require (py_eq (dget meta ''base_model'') (JStr (cfg_base_model cfg)))) (\<lambda>_.
     rbind (require (py_eq (dget meta ''experts_shared_outer_loras'') (JBool experts))) (\<lambda>_.
       Inr (lora, dir))))))))"

section \<open>Loading into a model\<close>

text \<open>
  \<^verbatim>\<open>_load_state\<close> up to the trainer: the directory to read and the alpha the model takes over when the
  trainer has loaded it.  \<open>token\<close> is the key of the tenant that owns the checkpoint, if it is another one.
\<close>

definition load_source ::
  "environment \<Rightarrow> deployment \<Rightarrow> (string \<Rightarrow> string \<Rightarrow> root_dir) \<Rightarrow> string \<Rightarrow> string \<Rightarrow> int \<Rightarrow> string option \<Rightarrow> string \<Rightarrow>
   tinker_error + string \<times> json" where
  "load_source env d rs tenant base_model rank token path =
     rbind (parse_tinker_path path) (\<lambda>(source_id, kind, name).
     rbind (require (kind = ''weights'')) (\<lambda>_.
     let es = rs source_id kind; source_tenant = (case token of None \<Rightarrow> tenant | Some t \<Rightarrow> t) in
     rbind (checkpoint_dir d es name) (\<lambda>_.
     rbind (resolve_adapter env d es name source_tenant source_id) (\<lambda>committed.
     rbind (case committed of
         None \<Rightarrow> rbind (read_checkpoint_metadata env d es name source_tenant) (\<lambda>meta. Inr (meta, name))
       | Some (p, _, stored) \<Rightarrow> Inr (stored, p)) (\<lambda>(source, dir).
     rbind (require (py_eq (dget source ''base_model'') (JStr base_model))) (\<lambda>_.
     rbind (require (py_eq (dget source ''lora_rank'') (JInt rank))) (\<lambda>_.
       Inr (dir, dget source ''lora_alpha''))))))))"

section \<open>What an engine's adapter name stands for\<close>

lemma segment_no_at: "checkpoint_segment s \<Longrightarrow> CHR ''@'' \<notin> set s"
proof -
  assume s: "checkpoint_segment s"
  have "\<not> segment_char CHR ''@''" "\<not> is_alnum CHR ''@''" by (simp_all add: segment_char_def is_alnum_def)
  then show ?thesis using s by (cases s) (auto simp: checkpoint_segment_def list_all_iff)
qed

lemma at_inject:
  assumes "CHR ''@'' \<notin> set a" "CHR ''@'' \<notin> set b" "a @ CHR ''@'' # x = b @ CHR ''@'' # y"
  shows "a = b" "x = y"
proof -
  have take: "takeWhile (\<lambda>c. c \<noteq> CHR ''@'') (u @ CHR ''@'' # v) = u" if "CHR ''@'' \<notin> set u" for u v
  proof -
    have "\<forall>c \<in> set u. c \<noteq> CHR ''@''" using that by auto
    then show ?thesis by simp
  qed
  show "a = b" using take[OF assms(1), of x] take[OF assms(2), of y] assms(3) by simp
  then show "x = y" using assms(3) by simp
qed

lemma resolved_name:
  assumes ok: "root_ok es" and res: "resolve_adapter_dir env digest es n tenant = Inr (Some (p, c))"
  shows "p = physical_dir n c"
proof -
  note R = resolve_SomeD[OF ok res]
  obtain f where f: "map_of es p = Some (Folder f)" using R(5) by blast
  obtain c' where "p = physical_dir n c'" "commit_id_ok c'"
    using internal_entry_SomeD[OF R(3) root_ok_internal(2)[OF ok f R(3)]] by (auto simp: ending_text_def)
  then show ?thesis using R(4) commit_id_of_physical by simp
qed

text \<open>What a sampling path resolves to: a committed directory under its full name, or one from before commits.\<close>

lemma sampler_checkpoint_cases:
  assumes ok: "\<And>m k. root_ok (rs m k)" and res: "resolve_sampler_checkpoint env d cfg experts rs tenant path = Inr (lora, dir)"
  obtains m n c where "path = tinker_path m ''sampler_weights'' n" "checkpoint_segment m" "checkpoint_segment n"
      "lora = lora_name m n c" "dir = physical_dir n c"
  | m n where "path = tinker_path m ''sampler_weights'' n" "checkpoint_segment m" "checkpoint_segment n" "lora = m @ ''@'' @ n" "dir = n"
proof -
  obtain m k n where parse: "parse_tinker_path path = Inr (m, k, n)" and k: "k = ''sampler_weights''"
    and rest: "rbind (resolve_sampler_export env d (rs m ''sampler_weights'') n tenant m) (\<lambda>committed.
     rbind (case committed of
         None \<Rightarrow> rbind (read_checkpoint_metadata env d (rs m ''sampler_weights'') n tenant) (\<lambda>meta.
           Inr (dupdate [(''experts_shared_outer_loras'', JBool False)] meta, m @ ''@'' @ n, n))
       | Some (p, lora, stored) \<Rightarrow> Inr (stored, lora, p)) (\<lambda>(meta, lora, dir).
     rbind (require (py_eq (dget meta ''base_model'') (JStr (cfg_base_model cfg)))) (\<lambda>_.
     rbind (require (py_eq (dget meta ''experts_shared_outer_loras'') (JBool experts))) (\<lambda>_.
       Inr (lora, dir))))) = Inr (lora, dir)"
    using res unfolding resolve_sampler_checkpoint_def by (auto simp: result_simps Let_def)
  have path: "path = tinker_path m ''sampler_weights'' n" "checkpoint_segment m" "checkpoint_segment n"
    using parse k by (simp_all add: parse_tinker_path_iff)
  obtain committed where c: "resolve_sampler_export env d (rs m ''sampler_weights'') n tenant m = Inr committed"
    using rest by (auto simp: result_simps)
  show ?thesis
  proof (cases committed)
    case None
    then have "lora = m @ ''@'' @ n" "dir = n" using rest c by (auto simp: result_simps)
    then show ?thesis using that(2) path by blast
  next
    case (Some x)
    obtain p l f where x: "x = (p, l, f)" by (cases x)
    have "lora = l" "dir = p" using rest c Some x by (auto simp: result_simps)
    moreover have "resolve_adapter env d (rs m ''sampler_weights'') n tenant m = Inr (Some (p, l, f))"
      using c Some x by (auto simp: resolve_sampler_export_def result_simps split: if_splits)
    then obtain c where "resolve_adapter_dir env (key_digest d) (rs m ''sampler_weights'') n (Some tenant) = Inr (Some (p, c))" "l = lora_name m n c"
      by (auto simp: resolve_adapter_def result_simps split: if_splits sum.splits option.splits os_exn.splits)
    ultimately show ?thesis using that(1) path resolved_name[OF ok] by metis
  qed
qed

text \<open>
  C10. Engines cache adapters by name.  Whenever two sampling requests, of any tenants and at any times,
  resolve to the same adapter name, they mean the same checkpoint and the same directory: a name never
  stands for the weights of another model, of another checkpoint or of another commit.
\<close>

theorem adapter_names_identify_commits:
  assumes "\<And>m k. root_ok (rs m k)" "\<And>m k. root_ok (rs' m k)"
    and "resolve_sampler_checkpoint env d cfg experts rs tenant path = Inr (lora, dir)"
    and "resolve_sampler_checkpoint env' d cfg' experts' rs' tenant' path' = Inr (lora, dir')"
  shows "path' = path \<and> dir' = dir"
proof -
  note at = segment_no_at at_inject
  have split: "lora_name m n c = m @ CHR ''@'' # n @ CHR ''@'' # c" for m n c by (simp add: lora_name_def)
  have plain: "m @ ''@'' @ n \<noteq> m' @ CHR ''@'' # n' @ CHR ''@'' # c" if "checkpoint_segment m" "checkpoint_segment m'" "checkpoint_segment n" for m n m' n' c
  proof
    assume "m @ ''@'' @ n = m' @ CHR ''@'' # n' @ CHR ''@'' # c"
    then have "n = n' @ CHR ''@'' # c" using at_inject(2)[OF segment_no_at segment_no_at, OF that(1,2)] by simp
    then show False using segment_no_at[OF that(3)] by simp
  qed
  from sampler_checkpoint_cases[OF assms(1,3)] show ?thesis
  proof cases
    case (1 m n c)
    note a = this
    from sampler_checkpoint_cases[OF assms(2,4)] show ?thesis
    proof cases
      case (1 m' n' c')
      have eq: "m' @ CHR ''@'' # n' @ CHR ''@'' # c' = m @ CHR ''@'' # n @ CHR ''@'' # c" using a(4) 1(4) by (simp add: split)
      note o1 = at_inject[OF segment_no_at[OF 1(2)] segment_no_at[OF a(2)] eq]
      note o2 = at_inject[OF segment_no_at[OF 1(3)] segment_no_at[OF a(3)] o1(2)]
      show ?thesis using a 1 o1(1) o2 by simp
    next
      case (2 m' n')
      then show ?thesis using a plain[of m' m n' n c] by (simp add: split)
    qed
  next
    case (2 m n)
    note a = this
    from sampler_checkpoint_cases[OF assms(2,4)] show ?thesis
    proof cases
      case (1 m' n' c')
      then show ?thesis using a plain[of m m' n n' c'] by (simp add: split)
    next
      case (2 m' n')
      have eq: "m' @ CHR ''@'' # n' = m @ CHR ''@'' # n" using a(4) 2(4) by simp
      note o1 = at_inject[OF segment_no_at[OF 2(2)] segment_no_at[OF a(2)] eq]
      show ?thesis using a 2 o1 by simp
    qed
  qed
qed

text \<open>Two gateways with the same commit of Alice's, one of which holds another name besides.\<close>

definition demo_adapter :: folder where
  "demo_adapter = tenant_file (Some ''alice'') @ [(''adapter_parametrization.json'', Json_File (JObj
     [(''format_version'', JInt 1), (''base_model'', JStr ''b''), (''lora_rank'', JInt 8), (''lora_alpha'', JFloat 16), (''lora_type'', JStr ''lora''),
      (''target_modules'', JArr [JStr ''q'', JStr ''k'']), (''experts_shared_outer_loras'', JBool False),
      (''shared_lora_a_groups'', JArr [JArr [JStr ''q'', JStr ''k'']])]))]"

definition demo_samplers :: "root_dir \<Rightarrow> string \<Rightarrow> string \<Rightarrow> root_dir" where
  "demo_samplers others m k =
     (if m = ''m'' \<and> k = ''sampler_weights''
      then [(''1'', Symlink (Sibling (physical_dir ''1'' (demo_id CHR ''1'')))), (physical_dir ''1'' (demo_id CHR ''1''), Folder demo_adapter)] @ others
      else [])"

definition demo_served :: gateway_config where
  "demo_served = \<lparr>cfg_base_model = ''b'', n_slots = 1, vocab_size = 1, max_datums_per_request = 1, max_tokens_per_datum = 1,
     max_tokens_per_sample = 1, max_tokens_per_request = 1, max_samples_per_request = 1, max_lora_rank = 8, cfg_lora_alpha = None,
     trains_attn = True, trains_mlp = True, trains_unembed = False, lease_timeout_s = 1, batch_token_budget = 1\<rparr>"

lemma demo_samplers_ok: "root_ok (demo_samplers [] m k)" "root_ok (demo_samplers [(''old'', Regular_File)] m k)"
proof -
  have "root_ok (demo_samplers [] ''m'' ''sampler_weights'')" "root_ok (demo_samplers [(''old'', Regular_File)] ''m'' ''sampler_weights'')"
    "root_ok []" by code_simp+
  then show "root_ok (demo_samplers [] m k)" "root_ok (demo_samplers [(''old'', Regular_File)] m k)"
    by (cases "m = ''m'' \<and> k = ''sampler_weights''"; auto simp: demo_samplers_def simp del: root_ok_iff)+
qed

theorem adapter_names_identify_commits_witness:
  "\<exists>lora dir dir'.
     resolve_sampler_checkpoint calm \<lparr>within_root = (\<lambda>_ _. True), key_digest = id, exports_names = True\<rparr> demo_served False (demo_samplers [])
       ''alice'' (tinker_path ''m'' ''sampler_weights'' ''1'') = Inr (lora, dir) \<and>
     resolve_sampler_checkpoint calm \<lparr>within_root = (\<lambda>_ _. True), key_digest = id, exports_names = True\<rparr> demo_served False
       (demo_samplers [(''old'', Regular_File)]) ''alice'' (tinker_path ''m'' ''sampler_weights'' ''1'') = Inr (lora, dir') \<and> dir' = dir"
proof -
  let ?d = "\<lparr>within_root = (\<lambda>_ _. True), key_digest = id, exports_names = True\<rparr>" and ?path = "tinker_path ''m'' ''sampler_weights'' ''1''"
  have a: "resolve_sampler_checkpoint calm ?d demo_served False (demo_samplers []) ''alice'' ?path =
      Inr (lora_name ''m'' ''1'' (demo_id CHR ''1''), physical_dir ''1'' (demo_id CHR ''1''))" by code_simp
  have "map_sum id fst (resolve_sampler_checkpoint calm ?d demo_served False (demo_samplers [(''old'', Regular_File)]) ''alice'' ?path) =
      Inr (lora_name ''m'' ''1'' (demo_id CHR ''1''))" by code_simp
  then obtain dir' where b: "resolve_sampler_checkpoint calm ?d demo_served False (demo_samplers [(''old'', Regular_File)]) ''alice'' ?path =
      Inr (lora_name ''m'' ''1'' (demo_id CHR ''1''), dir')" by (auto simp: map_sum_Inr_iff)
  have "?path = ?path \<and> dir' = physical_dir ''1'' (demo_id CHR ''1'')"
    by (rule adapter_names_identify_commits[OF demo_samplers_ok a b])
  then show ?thesis using a b by blast
qed

end
