(* ===== verification/Tinker_Queue.thy ===== *)
theory Tinker_Queue
  imports Tinker_Types
begin

text \<open>
  \<^verbatim>\<open>miles/tinker/core/model_queue.py\<close>: commands of one model run in the order of their sequence
  numbers, whatever order they arrive in.  A pending request is named by its command's request id.
\<close>

record pending_request =
  pr_command :: command
  datums :: "obj list"
  num_issued_datums :: nat
  outputs :: "obj option list"
  remaining :: nat

definition pending_is_batch :: "pending_request \<Rightarrow> bool" where
  "pending_is_batch p = is_batch (cmd_op (pr_command p))"

abbreviation rejected :: "pending_request \<Rightarrow> bool" where
  "rejected p \<equiv> validation_error (pr_command p)"

text \<open>Store one datum's result; the flag says whether every datum has reported.\<close>

definition record_output :: "nat \<Rightarrow> obj \<Rightarrow> pending_request \<Rightarrow> pending_request \<times> bool" where
  "record_output i out p =
     (let p' = p\<lparr>outputs := (outputs p)[i := Some out], remaining := remaining p - 1\<rparr> in (p', remaining p' = 0))"

type_synonym packing = "command_op \<times> json \<times> (string \<times> json) list"

definition pack_key :: "command \<Rightarrow> packing" where
  "pack_key c =
     (let payload = cmd_payload c
      in (cmd_op c, canon (dget payload ''loss_fn''),
          map (map_prod id canon) (sort_key fst (as_obj (dget payload ''loss_fn_config'')))))"

record model_queue =
  mq_model_id :: uid
  mq_tenant :: string
  mq_slot :: nat
  last_enqueued_seq_id :: int
  pending_by_seq :: "(int \<times> command) list"
  mq_queue :: "pending_request list"

definition new_queue :: "uid \<Rightarrow> string \<Rightarrow> nat \<Rightarrow> model_queue" where
  "new_queue m tenant slot =
     \<lparr>mq_model_id = m, mq_tenant = tenant, mq_slot = slot, last_enqueued_seq_id = 0, pending_by_seq = [], mq_queue = []\<rparr>"

definition datums_of :: "command \<Rightarrow> obj list" where
  "datums_of c = (case dget (cmd_payload c) ''datums'' of JArr xs \<Rightarrow> map as_obj xs | _ \<Rightarrow> [])"

definition pending_of :: "command \<Rightarrow> pending_request" where
  "pending_of c =
     (let ds = (if is_batch (cmd_op c) \<and> \<not> validation_error c then datums_of c else [])
      in \<lparr>pr_command = c, datums = ds, num_issued_datums = 0, outputs = replicate (length ds) None, remaining = length ds\<rparr>)"

text \<open>The loop that feeds the queue while the next sequence number is there.\<close>

lemma length_delete_mem: "map_of d k = Some v \<Longrightarrow> length (AList.delete k d) < length d"
  by (induction d) (auto simp: le_imp_less_Suc length_delete_le)

function enqueue_contiguous :: "model_queue \<Rightarrow> model_queue" where
  "enqueue_contiguous q =
     (let k = last_enqueued_seq_id q + 1
      in case map_of (pending_by_seq q) k of
           None \<Rightarrow> q
         | Some c \<Rightarrow> enqueue_contiguous (q\<lparr>last_enqueued_seq_id := k, pending_by_seq := AList.delete k (pending_by_seq q),
                        mq_queue := mq_queue q @ [pending_of c]\<rparr>))"
  by pat_completeness auto
termination
  by (relation "measure (\<lambda>q. length (pending_by_seq q))") (auto simp: length_delete_mem)

declare enqueue_contiguous.simps [simp del]

lemma enqueue_contiguous_None: "map_of (pending_by_seq q) (last_enqueued_seq_id q + 1) = None \<Longrightarrow> enqueue_contiguous q = q"
  by (subst enqueue_contiguous.simps) simp

lemma enqueue_contiguous_Some:
  "map_of (pending_by_seq q) (last_enqueued_seq_id q + 1) = Some c \<Longrightarrow> enqueue_contiguous q =
     enqueue_contiguous (q\<lparr>last_enqueued_seq_id := last_enqueued_seq_id q + 1,
       pending_by_seq := AList.delete (last_enqueued_seq_id q + 1) (pending_by_seq q), mq_queue := mq_queue q @ [pending_of c]\<rparr>)"
  by (subst enqueue_contiguous.simps) (simp add: Let_def)

definition submit_command :: "command \<Rightarrow> model_queue \<Rightarrow> model_queue" where
  "submit_command c q = enqueue_contiguous (q\<lparr>pending_by_seq := AList.update (cmd_seq_id c) c (pending_by_seq q)\<rparr>)"

definition open_batch_run :: "model_queue \<Rightarrow> pending_request list" where
  "open_batch_run q = takeWhile (\<lambda>p. pending_is_batch p \<and> \<not> rejected p) (mq_queue q)"

definition ready_barrier :: "model_queue \<Rightarrow> pending_request option" where
  "ready_barrier q =
     (case mq_queue q of p # _ \<Rightarrow> if \<not> pending_is_batch p \<and> \<not> rejected p then Some p else None | [] \<Rightarrow> None)"

text \<open>\<open>queue.remove(pending)\<close>: the first entry of that request.\<close>

fun remove_request :: "uid \<Rightarrow> pending_request list \<Rightarrow> pending_request list" where
  "remove_request r [] = []"
| "remove_request r (p # ps) = (if cmd_request_id (pr_command p) = r then ps else p # remove_request r ps)"

definition finish_in_queue :: "uid \<Rightarrow> model_queue \<Rightarrow> model_queue" where
  "finish_in_queue r q = q\<lparr>mq_queue := remove_request r (mq_queue q)\<rparr>"

section \<open>Sequence order\<close>

text \<open>The abstract queue: the commands received, by sequence number.  What has been fed to the queue is
  the longest run \<open>1, 2, \<dots>\<close> of received numbers.\<close>

definition run_end :: "int set \<Rightarrow> int \<Rightarrow> bool" where
  "run_end received k \<longleftrightarrow> 0 \<le> k \<and> {1..k} \<subseteq> received \<and> k + 1 \<notin> received"

definition queue_ok :: "(int \<Rightarrow> command option) \<Rightarrow> model_queue \<Rightarrow> bool" where
  "queue_ok cmds q \<longleftrightarrow> dict_ok (pending_by_seq q) \<and> run_end (dom cmds) (last_enqueued_seq_id q) \<and>
     (\<forall>k. map_of (pending_by_seq q) k = (if last_enqueued_seq_id q < k then cmds k else None))"

lemma run_end_unique: "run_end A j \<Longrightarrow> run_end A k \<Longrightarrow> j = k"
  unfolding run_end_def by (rule linorder_cases[of j k]) (force simp: subset_iff)+

text \<open>The loop invariant: before the loop ends the run may still be extended.\<close>

lemma enqueue_contiguous_spec:
  assumes "dict_ok (pending_by_seq q)" and "0 \<le> last_enqueued_seq_id q" and "{1..last_enqueued_seq_id q} \<subseteq> dom cmds"
    and "\<forall>k. map_of (pending_by_seq q) k = (if last_enqueued_seq_id q < k then cmds k else None)"
  shows "queue_ok cmds (enqueue_contiguous q) \<and>
    mq_queue (enqueue_contiguous q) = mq_queue q @
      map (\<lambda>k. pending_of (the (cmds k))) [last_enqueued_seq_id q + 1..last_enqueued_seq_id (enqueue_contiguous q)] \<and>
    last_enqueued_seq_id q \<le> last_enqueued_seq_id (enqueue_contiguous q) \<and>
    mq_model_id (enqueue_contiguous q) = mq_model_id q \<and> mq_tenant (enqueue_contiguous q) = mq_tenant q \<and>
    mq_slot (enqueue_contiguous q) = mq_slot q"
  using assms
proof (induction q rule: enqueue_contiguous.induct)
  case (1 q)
  let ?k = "last_enqueued_seq_id q + 1"
  have look: "map_of (pending_by_seq q) ?k = cmds ?k" using 1(5) by simp
  show ?case
  proof (cases "cmds ?k")
    case None
    then have "enqueue_contiguous q = q" using look by (simp add: enqueue_contiguous_None)
    then show ?thesis using 1(2-5) None by (auto simp: queue_ok_def run_end_def)
  next
    case (Some c)
    let ?q = "q\<lparr>last_enqueued_seq_id := ?k, pending_by_seq := AList.delete ?k (pending_by_seq q), mq_queue := mq_queue q @ [pending_of c]\<rparr>"
    have step: "enqueue_contiguous q = enqueue_contiguous ?q" using look Some by (simp add: enqueue_contiguous_Some)
    have ivl: "{1..?k} = insert ?k {1..last_enqueued_seq_id q}" using 1(3) by auto
    have IH: "queue_ok cmds (enqueue_contiguous ?q) \<and> mq_queue (enqueue_contiguous ?q) = mq_queue ?q @
      map (\<lambda>k. pending_of (the (cmds k))) [last_enqueued_seq_id ?q + 1..last_enqueued_seq_id (enqueue_contiguous ?q)] \<and>
      last_enqueued_seq_id ?q \<le> last_enqueued_seq_id (enqueue_contiguous ?q) \<and>
      mq_model_id (enqueue_contiguous ?q) = mq_model_id ?q \<and> mq_tenant (enqueue_contiguous ?q) = mq_tenant ?q \<and>
      mq_slot (enqueue_contiguous ?q) = mq_slot ?q"
      using 1(2-5) Some look ivl by (intro 1(1)[OF refl]) (auto simp: dict_simps)
    then show ?thesis using Some upto_rec1[of ?k "last_enqueued_seq_id (enqueue_contiguous ?q)"]
      by (simp add: step)
  qed
qed

lemma new_queue_ok: "queue_ok Map.empty (new_queue m tenant slot)"
  by (simp add: queue_ok_def new_queue_def run_end_def)

lemma submit_command_spec:
  assumes ok: "queue_ok cmds q" and new: "cmds (cmd_seq_id c) = None" and pos: "1 \<le> cmd_seq_id c"
  shows "queue_ok (cmds(cmd_seq_id c \<mapsto> c)) (submit_command c q) \<and>
    mq_queue (submit_command c q) = mq_queue q @ map (\<lambda>k. pending_of (the ((cmds(cmd_seq_id c \<mapsto> c)) k)))
      [last_enqueued_seq_id q + 1..last_enqueued_seq_id (submit_command c q)] \<and>
    last_enqueued_seq_id q \<le> last_enqueued_seq_id (submit_command c q) \<and>
    mq_model_id (submit_command c q) = mq_model_id q \<and> mq_tenant (submit_command c q) = mq_tenant q \<and>
    mq_slot (submit_command c q) = mq_slot q"
proof -
  have "last_enqueued_seq_id q < cmd_seq_id c"
  proof (rule ccontr)
    assume "\<not> last_enqueued_seq_id q < cmd_seq_id c"
    then have "cmd_seq_id c \<in> {1..last_enqueued_seq_id q}" using pos by simp
    then show False using ok new by (auto simp: queue_ok_def run_end_def)
  qed
  then show ?thesis
    using enqueue_contiguous_spec[of "q\<lparr>pending_by_seq := AList.update (cmd_seq_id c) c (pending_by_seq q)\<rparr>" "cmds(cmd_seq_id c \<mapsto> c)"] ok
    unfolding submit_command_def by (simp add: queue_ok_def run_end_def dict_simps subset_insertI2)
qed

lemma upto_from_1: "0 \<le> n \<Longrightarrow> n \<le> m \<Longrightarrow> [1..m] = [1..n] @ [n + 1..m]"
  by (cases "n = 0") (simp_all add: upto_split2)

lemma submit_all_spec:
  assumes "distinct (map cmd_seq_id cs)" and "\<forall>c \<in> set cs. 1 \<le> cmd_seq_id c"
  shows "queue_ok (map_of (map (\<lambda>c. (cmd_seq_id c, c)) (rev cs))) (fold submit_command cs (new_queue m tenant slot)) \<and>
    mq_queue (fold submit_command cs (new_queue m tenant slot)) =
      map (\<lambda>k. pending_of (the (map_of (map (\<lambda>c. (cmd_seq_id c, c)) (rev cs)) k)))
        [1..last_enqueued_seq_id (fold submit_command cs (new_queue m tenant slot))]"
  using assms
proof (induction cs rule: rev_induct)
  case Nil
  then show ?case using new_queue_ok by (simp add: new_queue_def)
next
  case (snoc c cs)
  let ?q = "fold submit_command cs (new_queue m tenant slot)"
  let ?m = "map_of (map (\<lambda>c. (cmd_seq_id c, c)) (rev cs))"
  have IH: "queue_ok ?m ?q" "mq_queue ?q = map (\<lambda>k. pending_of (the (?m k))) [1..last_enqueued_seq_id ?q]"
    using snoc by auto
  have new: "?m (cmd_seq_id c) = None" using snoc.prems(1) by (auto simp: map_of_eq_None_iff)
  have sp: "queue_ok (?m(cmd_seq_id c \<mapsto> c)) (submit_command c ?q)"
    "mq_queue (submit_command c ?q) = mq_queue ?q @ map (\<lambda>k. pending_of (the ((?m(cmd_seq_id c \<mapsto> c)) k)))
      [last_enqueued_seq_id ?q + 1..last_enqueued_seq_id (submit_command c ?q)]"
    "last_enqueued_seq_id ?q \<le> last_enqueued_seq_id (submit_command c ?q)"
    using submit_command_spec[OF IH(1) new] snoc.prems(2) by auto
  have "k \<noteq> cmd_seq_id c" if "k \<in> {1..last_enqueued_seq_id ?q}" for k
    using that IH(1) new by (auto simp: queue_ok_def run_end_def)
  then have "mq_queue ?q = map (\<lambda>k. pending_of (the ((?m(cmd_seq_id c \<mapsto> c)) k))) [1..last_enqueued_seq_id ?q]"
    unfolding IH(2) by (intro map_cong) auto
  moreover have "0 \<le> last_enqueued_seq_id ?q" using IH(1) by (simp add: queue_ok_def run_end_def)
  then have "[1..last_enqueued_seq_id (submit_command c ?q)] = [1..last_enqueued_seq_id ?q] @
      [last_enqueued_seq_id ?q + 1..last_enqueued_seq_id (submit_command c ?q)]"
    using sp(3) by (intro upto_from_1)
  ultimately show ?case using sp(1,2) by (simp add: fun_upd_def)
qed

end
