(* ===== verification/Tinker_Scheduler.thy ===== *)
theory Tinker_Scheduler
  imports Tinker_Queue "HOL-Library.Product_Lexorder"
begin

text \<open>
  \<^verbatim>\<open>miles/tinker/core/scheduler.py\<close>: the earliest ready request is the seed, and compatible datums of
  every model are packed with it.  The scheduler's dictionary of model queues is insertion ordered.
\<close>

type_synonym scheduler = "(uid \<times> model_queue) list"

record datum_ref =
  ref_model :: uid
  ref_slot :: nat
  ref_command :: command
  local_index :: nat
  ref_datum :: obj

abbreviation ref_arrival :: "datum_ref \<Rightarrow> nat" where
  "ref_arrival r \<equiv> cmd_arrival (ref_command r)"

abbreviation ref_request :: "datum_ref \<Rightarrow> uid" where
  "ref_request r \<equiv> cmd_request_id (ref_command r)"

abbreviation pr_id :: "pending_request \<Rightarrow> uid" where
  "pr_id p \<equiv> cmd_request_id (pr_command p)"

abbreviation pr_arrival :: "pending_request \<Rightarrow> nat" where
  "pr_arrival p \<equiv> cmd_arrival (pr_command p)"

datatype work_unit =
    Batch_Unit command_op json json "datum_ref list"
  | Barrier_Unit command_op "(uid \<times> pending_request) list"

definition add_model_queue :: "model_queue \<Rightarrow> scheduler \<Rightarrow> scheduler" where
  "add_model_queue q s = AList.update (mq_model_id q) q s"

definition remove_model_queue :: "uid \<Rightarrow> scheduler \<Rightarrow> scheduler" where
  "remove_model_queue m s = AList.delete m s"

definition ready_rejections :: "scheduler \<Rightarrow> (uid \<times> pending_request) list" where
  "ready_rejections s = concat (map (\<lambda>(m, q). case mq_queue q of p # _ \<Rightarrow> if rejected p then [(m, p)] else [] | [] \<Rightarrow> []) s)"

definition request_refs :: "uid \<Rightarrow> nat \<Rightarrow> pending_request \<Rightarrow> datum_ref list" where
  "request_refs m slot p =
     map (\<lambda>i. \<lparr>ref_model = m, ref_slot = slot, ref_command = pr_command p, local_index = i, ref_datum = datums p ! i\<rparr>)
       [num_issued_datums p..<length (datums p)]"

definition queue_refs :: "uid \<times> model_queue \<Rightarrow> datum_ref list" where
  "queue_refs mq = (case mq of (m, q) \<Rightarrow> concat (map (request_refs m (mq_slot q)) (open_batch_run q)))"

definition ready_datums :: "scheduler \<Rightarrow> datum_ref list" where
  "ready_datums s = concat (map queue_refs s)"

definition ready_barriers :: "scheduler \<Rightarrow> (uid \<times> pending_request) list" where
  "ready_barriers s = concat (map (\<lambda>(m, q). case ready_barrier q of None \<Rightarrow> [] | Some p \<Rightarrow> [(m, p)]) s)"

definition datum_tokens :: "datum_ref \<Rightarrow> nat" where
  "datum_tokens r = (case dget (ref_datum r) ''tokens'' of JArr xs \<Rightarrow> length xs | _ \<Rightarrow> 0)"

text \<open>The packing loop: the first datum always goes in, a later one while the token budget lasts.\<close>

fun pick_datums :: "nat \<Rightarrow> datum_ref list \<Rightarrow> nat \<Rightarrow> datum_ref list \<Rightarrow> datum_ref list" where
  "pick_datums budget picked tokens [] = picked"
| "pick_datums budget picked tokens (r # rs) =
     (if picked \<noteq> [] \<and> budget < tokens + datum_tokens r then picked
      else pick_datums budget (picked @ [r]) (tokens + datum_tokens r) rs)"

definition compatible_refs :: "datum_ref \<Rightarrow> datum_ref list \<Rightarrow> datum_ref list" where
  "compatible_refs seed refs =
     sort_key (\<lambda>r. (ref_arrival r, local_index r)) (filter (\<lambda>r. pack_key (ref_command r) = pack_key (ref_command seed)) refs)"

text \<open>A mutation of one pending request, found by its model and request id.\<close>

definition update_pending :: "uid \<Rightarrow> uid \<Rightarrow> (pending_request \<Rightarrow> pending_request) \<Rightarrow> scheduler \<Rightarrow> scheduler" where
  "update_pending m r f s =
     map (\<lambda>(m', q). (m', if m' = m then q\<lparr>mq_queue := map (\<lambda>p. if pr_id p = r then f p else p) (mq_queue q)\<rparr> else q)) s"

definition issue_datum :: "datum_ref \<Rightarrow> scheduler \<Rightarrow> scheduler" where
  "issue_datum r = update_pending (ref_model r) (ref_request r) (\<lambda>p. p\<lparr>num_issued_datums := num_issued_datums p + 1\<rparr>)"

definition pack_batch :: "nat \<Rightarrow> datum_ref \<Rightarrow> datum_ref list \<Rightarrow> scheduler \<Rightarrow> work_unit \<times> scheduler" where
  "pack_batch budget seed refs s =
     (let picked = pick_datums budget [] 0 (compatible_refs seed refs); c = ref_command seed
      in (Batch_Unit (cmd_op c) (dget (cmd_payload c) ''loss_fn'') (dget (cmd_payload c) ''loss_fn_config'') picked,
          fold issue_datum picked s))"

definition merge_barriers :: "uid \<times> pending_request \<Rightarrow> (uid \<times> pending_request) list \<Rightarrow> work_unit" where
  "merge_barriers seed barriers =
     (let op = cmd_op (pr_command (snd seed))
      in Barrier_Unit op (if op = OPTIM_STEP then filter (\<lambda>(m, p). cmd_op (pr_command p) = op) barriers else [seed]))"

text \<open>\<open>min(xs, key=key)\<close> is the first of the least, as \<open>arg_min_list\<close> is.\<close>

definition schedule_next :: "nat \<Rightarrow> scheduler \<Rightarrow> work_unit option \<times> scheduler" where
  "schedule_next budget s =
     (let refs = ready_datums s; barriers = ready_barriers s;
          datum_seed = (if refs = [] then None else Some (arg_min_list ref_arrival refs));
          barrier_seed = (if barriers = [] then None else Some (arg_min_list (\<lambda>e. pr_arrival (snd e)) barriers))
      in case (barrier_seed, datum_seed) of
           (None, None) \<Rightarrow> (None, s)
         | (None, Some d) \<Rightarrow> map_prod Some id (pack_batch budget d refs s)
         | (Some e, None) \<Rightarrow> (Some (merge_barriers e barriers), s)
         | (Some e, Some d) \<Rightarrow>
             if pr_arrival (snd e) < ref_arrival d then (Some (merge_barriers e barriers), s)
             else map_prod Some id (pack_batch budget d refs s))"

section \<open>Well-formed schedulers\<close>

text \<open>Queues are keyed by their models, and a request occurs once.\<close>

definition scheduler_ok :: "scheduler \<Rightarrow> bool" where
  "scheduler_ok s \<longleftrightarrow> dict_ok s \<and> (\<forall>(m, q) \<in> set s. mq_model_id q = m \<and> distinct (map pr_id (mq_queue q)))"

lemma open_batch_run_subset: "p \<in> set (open_batch_run q) \<Longrightarrow> p \<in> set (mq_queue q) \<and> pending_is_batch p \<and> \<not> rejected p"
  by (auto simp: open_batch_run_def dest: set_takeWhileD)

lemma ready_datum_iff:
  "r \<in> set (ready_datums s) \<longleftrightarrow> (\<exists>q p. (ref_model r, q) \<in> set s \<and> p \<in> set (open_batch_run q) \<and>
     r \<in> set (request_refs (ref_model r) (mq_slot q) p))"
  by (fastforce simp: ready_datums_def queue_refs_def request_refs_def)

lemma request_ref_iff:
  "r \<in> set (request_refs m slot p) \<longleftrightarrow> ref_model r = m \<and> ref_slot r = slot \<and> ref_command r = pr_command p \<and>
     num_issued_datums p \<le> local_index r \<and> local_index r < length (datums p) \<and> ref_datum r = datums p ! local_index r"
  by (cases r) (auto simp: request_refs_def image_iff)

lemma pick_datums_prefix: "\<exists>n. pick_datums b picked t rs = picked @ take n rs \<and> (picked = [] \<longrightarrow> rs \<noteq> [] \<longrightarrow> 0 < n)"
proof (induction b picked t rs rule: pick_datums.induct)
  case (2 b picked t r rs)
  show ?case
  proof (cases "picked \<noteq> [] \<and> b < t + datum_tokens r")
    case False
    with 2 obtain n where "pick_datums b (picked @ [r]) (t + datum_tokens r) rs = (picked @ [r]) @ take n rs" by blast
    with False show ?thesis by (intro exI[of _ "Suc n"]) auto
  qed (auto intro: exI[of _ 0])
qed simp

lemma pick_datums_budget:
  "t = sum_list (map datum_tokens picked) \<Longrightarrow> (length picked \<le> 1 \<or> t \<le> b) \<Longrightarrow>
   length (pick_datums b picked t rs) \<le> 1 \<or> sum_list (map datum_tokens (pick_datums b picked t rs)) \<le> b"
  by (induction b picked t rs rule: pick_datums.induct) (auto simp: Suc_le_eq)

section \<open>Issuing a batch\<close>

abbreviation ref_key :: "datum_ref \<Rightarrow> uid \<times> uid \<times> nat" where
  "ref_key r \<equiv> (ref_model r, ref_request r, local_index r)"

lemma distinct_request_refs: "distinct (map pr_id ps) \<Longrightarrow> distinct (map ref_key (concat (map (request_refs m slot) ps)))"
proof (induction ps)
  case (Cons p ps)
  have "distinct (map ref_key (request_refs m slot p))"
    by (auto simp: request_refs_def distinct_map comp_def inj_on_def)
  moreover have "ref_key r \<noteq> ref_key r'" if "r \<in> set (request_refs m slot p)" "r' \<in> set (request_refs m slot p')" "p' \<in> set ps" for r r' p'
    using that Cons.prems by (auto simp: request_ref_iff)
  then have "ref_key ` set (request_refs m slot p) \<inter> ref_key ` set (concat (map (request_refs m slot) ps)) = {}"
    by fastforce
  ultimately show ?case using Cons by (simp add: image_Un)
qed simp

lemma distinct_ready_keys: "scheduler_ok s \<Longrightarrow> distinct (map ref_key (ready_datums s))"
proof (induction s)
  case (Cons x s)
  obtain m q where x: "x = (m, q)" by (cases x)
  have q: "distinct (map pr_id (mq_queue q))" using Cons.prems by (simp add: x scheduler_ok_def)
  obtain n where "open_batch_run q = take n (mq_queue q)"
    unfolding open_batch_run_def by (metis takeWhile_eq_take)
  then have "distinct (map pr_id (open_batch_run q))" using q by (simp flip: take_map)
  then have here: "distinct (map ref_key (queue_refs (m, q)))"
    unfolding queue_refs_def by (simp only: prod.case distinct_request_refs)
  have "scheduler_ok s" "m \<notin> fst ` set s" using Cons.prems by (auto simp: scheduler_ok_def x)
  moreover have "ref_model r = m" if "r \<in> set (queue_refs (m, q))" for r
    using that by (auto simp: queue_refs_def request_ref_iff)
  moreover have "ref_model r \<in> fst ` set s" if "r \<in> set (ready_datums s)" for r
    using that by (force simp: ready_datum_iff)
  ultimately have "ref_key ` set (queue_refs (m, q)) \<inter> ref_key ` set (ready_datums s) = {}" by fastforce
  then show ?case using here Cons.IH \<open>scheduler_ok s\<close> by (simp add: ready_datums_def x)
qed (simp add: ready_datums_def)

lemma ready_distinct: "scheduler_ok s \<Longrightarrow> distinct (ready_datums s)"
  using distinct_ready_keys distinct_map by blast

definition issued_count :: "datum_ref list \<Rightarrow> uid \<Rightarrow> uid \<Rightarrow> nat" where
  "issued_count rs m r = length (filter (\<lambda>x. ref_model x = m \<and> ref_request x = r) rs)"

definition issue_all :: "datum_ref list \<Rightarrow> scheduler \<Rightarrow> scheduler" where
  "issue_all rs s = map (\<lambda>(m, q). (m, q\<lparr>mq_queue := map (\<lambda>p. p\<lparr>num_issued_datums := num_issued_datums p + issued_count rs m (pr_id p)\<rparr>) (mq_queue q)\<rparr>)) s"

lemma fold_issue_datum: "fold issue_datum rs s = issue_all rs s"
proof (induction rs arbitrary: s)
  case Nil
  show ?case by (induction s) (auto simp: issue_all_def issued_count_def)
next
  case (Cons r rs)
  have "issue_all rs (issue_datum r s) = issue_all (r # rs) s"
    by (auto simp: issue_all_def issue_datum_def update_pending_def issued_count_def)
  then show ?case by (simp add: Cons.IH)
qed

lemma issue_all_ok [simp]: "scheduler_ok (issue_all rs s) = scheduler_ok s"
  by (auto simp: scheduler_ok_def issue_all_def comp_def split_beta)

lemma open_run_issue:
  "open_batch_run (q\<lparr>mq_queue := map (\<lambda>p. p\<lparr>num_issued_datums := f p\<rparr>) (mq_queue q)\<rparr>) =
   map (\<lambda>p. p\<lparr>num_issued_datums := f p\<rparr>) (open_batch_run q)"
  by (simp add: open_batch_run_def takeWhile_map pending_is_batch_def comp_def)

lemma ready_after_issue:
  "r \<in> set (ready_datums (issue_all rs s)) \<longleftrightarrow>
   r \<in> set (ready_datums s) \<and> (\<exists>q p. (ref_model r, q) \<in> set s \<and> p \<in> set (open_batch_run q) \<and>
     r \<in> set (request_refs (ref_model r) (mq_slot q) p) \<and>
     num_issued_datums p + issued_count rs (ref_model r) (pr_id p) \<le> local_index r)"
  (is "?L \<longleftrightarrow> ?R")
proof
  assume ?L
  then obtain q p where qp: "(ref_model r, q) \<in> set s" "p \<in> set (open_batch_run q)"
    and r: "r \<in> set (request_refs (ref_model r) (mq_slot q) (p\<lparr>num_issued_datums := num_issued_datums p + issued_count rs (ref_model r) (pr_id p)\<rparr>))"
    by (auto simp: ready_datum_iff issue_all_def open_run_issue)
  have "r \<in> set (request_refs (ref_model r) (mq_slot q) p)"
    and "num_issued_datums p + issued_count rs (ref_model r) (pr_id p) \<le> local_index r"
    using r by (simp_all add: request_ref_iff)
  then show ?R unfolding ready_datum_iff using qp by blast
next
  assume ?R
  then obtain q p where "(ref_model r, q) \<in> set s" "p \<in> set (open_batch_run q)"
    "r \<in> set (request_refs (ref_model r) (mq_slot q) p)" "num_issued_datums p + issued_count rs (ref_model r) (pr_id p) \<le> local_index r"
    by blast
  then show ?L unfolding ready_datum_iff
    by (auto simp: issue_all_def open_run_issue request_ref_iff intro!: bexI rev_image_eqI)
qed

lemma initial_interval:
  fixes S :: "nat set"
  assumes "finite S" and "\<And>i. i \<in> S \<Longrightarrow> a \<le> i" and "\<And>i j. i \<in> S \<Longrightarrow> a \<le> j \<Longrightarrow> j < i \<Longrightarrow> j \<in> S"
  shows "S = {a..<a + card S}"
proof (cases "S = {}")
  case False
  let ?M = "Max S"
  have M: "?M \<in> S" using assms(1) False by (rule Max_in)
  have "S = {a..?M}"
  proof (rule equalityI; rule subsetI)
    fix i assume "i \<in> S"
    then show "i \<in> {a..?M}" using assms(1,2) by simp
  next
    fix i assume "i \<in> {a..?M}"
    then show "i \<in> S" using assms(3)[OF M, of i] M by (cases "i = ?M") auto
  qed
  moreover have "a \<le> ?M" using assms(2)[OF M] .
  ultimately show ?thesis by (metis card_atLeastAtMost atLeastLessThanSuc_atLeastAtMost le_SucI le_add_diff_inverse)
qed simp

lemma take_sorted_closed:
  assumes "sorted (map k xs)" and "x \<in> set (take n xs)" and "y \<in> set xs" and "k y < (k x :: 'b::linorder)"
  shows "y \<in> set (take n xs)"
proof (rule ccontr)
  assume "y \<notin> set (take n xs)"
  then have "y \<in> set (drop n xs)" using assms(3) by (metis UnE append_take_drop_id set_append)
  moreover have "sorted (map k (take n xs @ drop n xs))" using assms(1) by simp
  ultimately have "k x \<le> k y" using assms(2) by (simp only: map_append sorted_append) auto
  with assms(4) show False by simp
qed

lemma issued_count_card:
  assumes "distinct (map ref_key rs)"
  shows "issued_count rs m r = card (local_index ` {x \<in> set rs. ref_model x = m \<and> ref_request x = r})"
proof -
  have d: "distinct rs" and inj: "inj_on ref_key (set rs)" using assms by (simp_all add: distinct_map)
  have "inj_on local_index {x \<in> set rs. ref_model x = m \<and> ref_request x = r}"
    by (rule inj_onI) (use inj in \<open>auto dest: inj_onD\<close>)
  then have "card (local_index ` {x \<in> set rs. ref_model x = m \<and> ref_request x = r}) = card {x \<in> set rs. ref_model x = m \<and> ref_request x = r}"
    by (rule card_image)
  also have "{x \<in> set rs. ref_model x = m \<and> ref_request x = r} = set (filter (\<lambda>x. ref_model x = m \<and> ref_request x = r) rs)"
    by auto
  also have "card \<dots> = issued_count rs m r"
    unfolding issued_count_def by (rule distinct_card) (simp add: d)
  finally show ?thesis by simp
qed

lemma pending_unique:
  assumes "scheduler_ok s" and "(m, q) \<in> set s" "(m, q') \<in> set s" and "p \<in> set (open_batch_run q)" "p' \<in> set (open_batch_run q')"
    and "pr_id p = pr_id p'"
  shows "q = q' \<and> p = p'"
proof -
  have q: "q = q'" using assms(1-3) by (auto simp: scheduler_ok_def dest: eq_key_imp_eq_value)
  have "distinct (map pr_id (mq_queue q))" using assms(1,2) by (auto simp: scheduler_ok_def)
  then show ?thesis using assms(4-6) q open_batch_run_subset by (metis distinct_map inj_onD)
qed

text \<open>Issuing the first datums of a sorted list of candidates removes exactly them.\<close>

lemma ready_after_prefix:
  assumes ok: "scheduler_ok s" and rs: "rs = take n (compatible_refs seed (ready_datums s))"
  shows "set (ready_datums (issue_all rs s)) = set (ready_datums s) - set rs"
proof -
  let ?c = "compatible_refs seed (ready_datums s)"
  have cset: "set ?c = {x \<in> set (ready_datums s). pack_key (ref_command x) = pack_key (ref_command seed)}"
    by (auto simp: compatible_refs_def)
  have sorted: "sorted (map (\<lambda>r. (ref_arrival r, local_index r)) ?c)" by (simp add: compatible_refs_def)
  have "distinct (map ref_key ?c)"
    using distinct_ready_keys[OF ok] by (simp add: compatible_refs_def distinct_map inj_on_def)
  then have d: "distinct (map ref_key rs)" unfolding rs by (simp flip: take_map)
  have sub: "set rs \<subseteq> set ?c" unfolding rs by (rule set_take_subset)
  have idx: "local_index r < num_issued_datums p + issued_count rs (ref_model r) (pr_id p) \<longleftrightarrow> r \<in> set rs"
    if r: "(ref_model r, q) \<in> set s" "p \<in> set (open_batch_run q)" "r \<in> set (request_refs (ref_model r) (mq_slot q) p)" for r q p
  proof -
    let ?X = "{x \<in> set rs. ref_model x = ref_model r \<and> ref_request x = pr_id p}"
    have refs: "x \<in> set (request_refs (ref_model r) (mq_slot q) p)" if "x \<in> ?X" for x
    proof -
      have "x \<in> set (ready_datums s)" "ref_model x = ref_model r" "ref_request x = pr_id p" using that sub cset by auto
      then obtain q' p' where x: "(ref_model r, q') \<in> set s" "p' \<in> set (open_batch_run q')"
        "x \<in> set (request_refs (ref_model r) (mq_slot q') p')" unfolding ready_datum_iff by auto
      then have "pr_id p = pr_id p'" using \<open>ref_request x = pr_id p\<close> by (simp add: request_ref_iff)
      then show ?thesis using pending_unique[OF ok r(1) x(1) r(2) x(2)] x(3) by simp
    qed
    have down: "j \<in> local_index ` ?X" if i: "i \<in> local_index ` ?X" and j: "num_issued_datums p \<le> j" "j < i" for i j
    proof -
      obtain x where x: "x \<in> ?X" "local_index x = i" using i by blast
      define y where "y = x\<lparr>local_index := j, ref_datum := datums p ! j\<rparr>"
      have y: "y \<in> set (request_refs (ref_model r) (mq_slot q) p)" "ref_command y = ref_command x" "local_index y = j" "ref_model y = ref_model r"
        using refs[OF x(1)] x j by (auto simp: y_def request_ref_iff)
      then have "y \<in> set (ready_datums s)" unfolding ready_datum_iff using r by auto
      then have "y \<in> set ?c" using cset x sub y by auto
      moreover have "(ref_arrival y, local_index y) < (ref_arrival x, local_index x)" using y x j by simp
      ultimately have "y \<in> set rs" unfolding rs using take_sorted_closed[OF sorted, of x n y] x(1) rs by blast
      then have "y \<in> ?X" using y x by simp
      then show ?thesis using y(3) by blast
    qed
    have "local_index ` ?X = {num_issued_datums p..<num_issued_datums p + card (local_index ` ?X)}"
      by (rule initial_interval) (use refs down in \<open>auto simp: request_ref_iff\<close>)
    then have ivl: "local_index ` ?X = {num_issued_datums p..<num_issued_datums p + issued_count rs (ref_model r) (pr_id p)}"
      by (simp add: issued_count_card[OF d])
    have "local_index r \<in> local_index ` ?X \<longleftrightarrow> r \<in> set rs"
    proof
      assume "local_index r \<in> local_index ` ?X"
      then obtain x where x: "x \<in> ?X" "local_index x = local_index r" by (auto simp: image_iff)
      then have "x = r" using refs[OF x(1)] r(3) by (simp add: request_ref_iff)
      then show "r \<in> set rs" using x(1) by simp
    qed (use r in \<open>auto simp: request_ref_iff\<close>)
    moreover have "num_issued_datums p \<le> local_index r" using r(3) by (simp add: request_ref_iff)
    ultimately show ?thesis using ivl by simp
  qed
  show ?thesis
  proof (rule set_eqI)
    fix r
    show "r \<in> set (ready_datums (issue_all rs s)) \<longleftrightarrow> r \<in> set (ready_datums s) - set rs"
      unfolding ready_after_issue using idx[of r] ready_datum_iff[of r s] by (auto simp: not_le[symmetric])
  qed
qed

section \<open>What is scheduled\<close>

lemma arg_min_seed:
  assumes "xs \<noteq> []"
  shows "arg_min_list f xs \<in> set xs" and "x \<in> set xs \<Longrightarrow> f (arg_min_list f xs) \<le> (f x :: 'b::linorder)"
  using assms arg_min_list_in[of xs f] f_arg_min_list_f[of xs f] by simp_all

lemma map_prod_Some_iff: "map_prod Some id x = (Some u, t) \<longleftrightarrow> x = (u, t)" "map_prod Some id x \<noteq> (None, t)"
  by (cases x; auto)+

lemma compatible_refs_set:
  "set (compatible_refs seed refs) = {x \<in> set refs. pack_key (ref_command x) = pack_key (ref_command seed)}"
  by (auto simp: compatible_refs_def)

lemma pack_batch_spec:
  assumes ok: "scheduler_ok s" and seed: "seed \<in> set (ready_datums s)"
    and run: "pack_batch b seed (ready_datums s) s = (u, s')"
  obtains picked where "u = Batch_Unit (cmd_op (ref_command seed)) (dget (cmd_payload (ref_command seed)) ''loss_fn'')
        (dget (cmd_payload (ref_command seed)) ''loss_fn_config'') picked"
    and "picked \<noteq> []" and "distinct (map ref_key picked)" and "set picked \<subseteq> set (ready_datums s)"
    and "set (ready_datums s') = set (ready_datums s) - set picked"
    and "\<forall>r \<in> set picked. pack_key (ref_command r) = pack_key (ref_command seed)"
    and "length picked = 1 \<or> sum_list (map datum_tokens picked) \<le> b"
    and "sorted (map (\<lambda>r. (ref_arrival r, local_index r)) picked)"
    and "ref_arrival (hd picked) \<le> ref_arrival seed"
    and "s' = issue_all picked s"
proof -
  let ?c = "compatible_refs seed (ready_datums s)"
  define picked where "picked = pick_datums b [] 0 ?c"
  have seedc: "seed \<in> set ?c" using seed by (simp add: compatible_refs_set)
  then have ne: "?c \<noteq> []" by auto
  obtain n where n: "picked = take n ?c" "0 < n"
    using pick_datums_prefix[of b "[]" 0 ?c] ne unfolding picked_def by auto
  have sorted: "sorted (map (\<lambda>r. (ref_arrival r, local_index r)) ?c)" by (simp add: compatible_refs_def)
  have "distinct (map ref_key ?c)"
    using distinct_ready_keys[OF ok] by (simp add: compatible_refs_def distinct_map inj_on_def)
  then have d: "distinct (map ref_key picked)" unfolding n by (simp flip: take_map)
  have s': "s' = issue_all picked s" and u: "u = Batch_Unit (cmd_op (ref_command seed)) (dget (cmd_payload (ref_command seed)) ''loss_fn'')
        (dget (cmd_payload (ref_command seed)) ''loss_fn_config'') picked"
    using run by (auto simp: pack_batch_def Let_def picked_def fold_issue_datum)
  have hd: "hd picked = hd ?c" and pne: "picked \<noteq> []" using n ne by (auto simp: hd_take)
  obtain x xs where xs: "?c = x # xs" using ne by (cases ?c) auto
  have "ref_arrival x \<le> ref_arrival seed" using sorted seedc unfolding xs by auto
  moreover have "sorted (map (\<lambda>r. (ref_arrival r, local_index r)) picked)"
    unfolding n take_map[symmetric] by (rule sorted_wrt_take) (use sorted in simp)
  moreover have "length picked \<le> 1 \<or> sum_list (map datum_tokens picked) \<le> b"
    unfolding picked_def by (rule pick_datums_budget) auto
  moreover have sub: "set picked \<subseteq> {x \<in> set (ready_datums s). pack_key (ref_command x) = pack_key (ref_command seed)}"
    unfolding n compatible_refs_set[symmetric] by (rule set_take_subset)
  moreover have "length picked = 1 \<longleftrightarrow> length picked \<le> 1" using pne by (cases picked) auto
  ultimately show ?thesis
    by (intro that[OF u pne d]) (use ready_after_prefix[OF ok n(1)] s' hd xs in \<open>simp_all add: subset_iff\<close>)
qed

lemma schedule_next_batch:
  assumes ok: "scheduler_ok s" and run: "schedule_next b s = (Some (Batch_Unit op loss cfg picked), s')"
  shows "picked \<noteq> []" "distinct (map ref_key picked)" "set picked \<subseteq> set (ready_datums s)"
    "set (ready_datums s') = set (ready_datums s) - set picked"
    "\<And>r. r \<in> set picked \<Longrightarrow> pack_key (ref_command r) = pack_key (ref_command (hd picked)) \<and> cmd_op (ref_command r) = op"
    "length picked = 1 \<or> sum_list (map datum_tokens picked) \<le> b"
    "sorted (map (\<lambda>r. (ref_arrival r, local_index r)) picked)"
    "\<And>r. r \<in> set (ready_datums s) \<Longrightarrow> ref_arrival (hd picked) \<le> ref_arrival r"
    "\<And>m p. (m, p) \<in> set (ready_barriers s) \<Longrightarrow> ref_arrival (hd picked) \<le> pr_arrival p"
    "s' = issue_all picked s"
proof -
  let ?seed = "arg_min_list ref_arrival (ready_datums s)"
  let ?bar = "arg_min_list (\<lambda>e. pr_arrival (snd e)) (ready_barriers s)"
  have ne: "ready_datums s \<noteq> []" and pk: "pack_batch b ?seed (ready_datums s) s = (Batch_Unit op loss cfg picked, s')"
    and bar: "ready_barriers s \<noteq> [] \<Longrightarrow> ref_arrival ?seed \<le> pr_arrival (snd ?bar)"
    using run by (auto simp: schedule_next_def merge_barriers_def Let_def map_prod_Some_iff split: if_splits prod.splits)
  note seed = arg_min_seed[OF ne, where f = ref_arrival]
  obtain p where p: "Batch_Unit op loss cfg picked = Batch_Unit (cmd_op (ref_command ?seed)) (dget (cmd_payload (ref_command ?seed)) ''loss_fn'')
        (dget (cmd_payload (ref_command ?seed)) ''loss_fn_config'') p"
    and f: "p \<noteq> []" "distinct (map ref_key p)" "set p \<subseteq> set (ready_datums s)" "set (ready_datums s') = set (ready_datums s) - set p"
    and key: "\<forall>r \<in> set p. pack_key (ref_command r) = pack_key (ref_command ?seed)"
    and g: "length p = 1 \<or> sum_list (map datum_tokens p) \<le> b" "sorted (map (\<lambda>r. (ref_arrival r, local_index r)) p)"
    and first: "ref_arrival (hd p) \<le> ref_arrival ?seed" and s': "s' = issue_all p s"
    by (rule pack_batch_spec[OF ok seed(1) pk]) (rule that)
  have [simp]: "p = picked" and op: "op = cmd_op (ref_command ?seed)" using p by auto
  show "picked \<noteq> []" "distinct (map ref_key picked)" "set picked \<subseteq> set (ready_datums s)"
    "set (ready_datums s') = set (ready_datums s) - set picked" "length picked = 1 \<or> sum_list (map datum_tokens picked) \<le> b"
    "sorted (map (\<lambda>r. (ref_arrival r, local_index r)) picked)" "s' = issue_all picked s"
    using f g s' by auto
  show "pack_key (ref_command r) = pack_key (ref_command (hd picked)) \<and> cmd_op (ref_command r) = op" if "r \<in> set picked" for r
  proof -
    have "hd picked \<in> set p" using f(1) by simp
    then show ?thesis using key that by (auto simp: op pack_key_def Let_def)
  qed
  show least: "ref_arrival (hd picked) \<le> ref_arrival r" if "r \<in> set (ready_datums s)" for r
    using first seed(2)[OF that] by simp
  show "ref_arrival (hd picked) \<le> pr_arrival p'" if "(m, p') \<in> set (ready_barriers s)" for m p'
  proof -
    have bne: "ready_barriers s \<noteq> []" using that by auto
    show ?thesis using first bar[OF bne] arg_min_seed(2)[OF bne that, where f = "\<lambda>e. pr_arrival (snd e)"] by simp
  qed
qed

lemma schedule_next_barrier:
  assumes "schedule_next b s = (Some (Barrier_Unit op entries), s')"
  shows "s' = s" "entries \<noteq> []" "set entries \<subseteq> set (ready_barriers s)"
    "\<And>m p. (m, p) \<in> set entries \<Longrightarrow> cmd_op (pr_command p) = op" "op \<noteq> OPTIM_STEP \<Longrightarrow> length entries = 1"
proof -
  let ?bar = "arg_min_list (\<lambda>e. pr_arrival (snd e)) (ready_barriers s)"
  have ne: "ready_barriers s \<noteq> []" and s': "s' = s" and u: "merge_barriers ?bar (ready_barriers s) = Barrier_Unit op entries"
    using assms by (auto simp: schedule_next_def pack_batch_def Let_def split: if_splits prod.splits)
  have bar: "?bar \<in> set (ready_barriers s)" using arg_min_seed(1)[OF ne] .
  show "s' = s" by (rule s')
  show "entries \<noteq> []" "set entries \<subseteq> set (ready_barriers s)" "op \<noteq> OPTIM_STEP \<Longrightarrow> length entries = 1"
    using u bar by (auto simp: merge_barriers_def Let_def filter_empty_conv split_beta split: if_splits)
  show "cmd_op (pr_command p) = op" if "(m, p) \<in> set entries" for m p
    using u that by (cases ?bar) (auto simp: merge_barriers_def Let_def split: if_splits)
qed

lemma schedule_next_None_iff: "fst (schedule_next b s) = None \<longleftrightarrow> ready_datums s = [] \<and> ready_barriers s = []"
  by (auto simp: schedule_next_def Let_def split_beta)

lemma schedule_next_None: "schedule_next b s = (None, s') \<Longrightarrow> s' = s"
  by (auto simp: schedule_next_def Let_def map_prod_Some_iff split: if_splits)

lemma ready_barrier_Some: "ready_barrier q = Some p \<longleftrightarrow> (\<exists>ps. mq_queue q = p # ps \<and> \<not> pending_is_batch p \<and> \<not> rejected p)"
  by (auto simp: ready_barrier_def split: list.splits)

lemma ready_barrier_iff: "(m, p) \<in> set (ready_barriers s) \<longleftrightarrow> (\<exists>q. (m, q) \<in> set s \<and> ready_barrier q = Some p)"
  by (induction s) (auto simp: ready_barriers_def split: option.splits)

lemma ready_rejection_iff:
  "(m, p) \<in> set (ready_rejections s) \<longleftrightarrow> (\<exists>q. (m, q) \<in> set s \<and> mq_queue q \<noteq> [] \<and> hd (mq_queue q) = p \<and> rejected p)"
proof (induction s)
  case (Cons x s)
  obtain m' q where x: "x = (m', q)" by (cases x)
  show ?case using Cons unfolding x by (cases "mq_queue q") (auto simp: ready_rejections_def)
qed (simp add: ready_rejections_def)

section \<open>The properties\<close>

text \<open>
  C27. A batch unit packs ready datums, no datum twice, all of one operation, loss and loss configuration,
  within the token budget unless it is a single datum, in order of arrival and index, starting with the
  earliest ready request, which no ready barrier precedes; afterwards exactly the packed datums are no longer ready.
\<close>

theorem batch_packing:
  assumes "scheduler_ok s" and "schedule_next b s = (Some (Batch_Unit op loss cfg picked), s')"
  shows "picked \<noteq> [] \<and> distinct (map ref_key picked) \<and> set picked \<subseteq> set (ready_datums s) \<and>
    set (ready_datums s') = set (ready_datums s) - set picked \<and>
    (\<forall>r \<in> set picked. pack_key (ref_command r) = pack_key (ref_command (hd picked)) \<and> cmd_op (ref_command r) = op) \<and>
    (length picked = 1 \<or> sum_list (map datum_tokens picked) \<le> b) \<and>
    sorted (map (\<lambda>r. (ref_arrival r, local_index r)) picked) \<and>
    (\<forall>r \<in> set (ready_datums s). ref_arrival (hd picked) \<le> ref_arrival r) \<and>
    (\<forall>(m, p) \<in> set (ready_barriers s). ref_arrival (hd picked) \<le> pr_arrival p)"
  using schedule_next_batch[OF assms] by blast

definition demo_command :: "uid \<Rightarrow> int \<Rightarrow> command_op \<Rightarrow> nat \<Rightarrow> nat list \<Rightarrow> command" where
  "demo_command m seq op arrival lens =
     \<lparr>cmd_model_id = m, cmd_seq_id = seq, cmd_op = op,
      cmd_payload = [(''loss_fn'', JStr ''ppo''),
        (''datums'', JArr (map (\<lambda>n. JObj [(''tokens'', JArr (map (\<lambda>i. JInt (int i)) [0..<n]))]) lens))],
      cmd_request_id = 100 + arrival, cmd_arrival = arrival, validation_error = False\<rparr>"

definition demo_scheduler :: scheduler where
  "demo_scheduler =
     add_model_queue (submit_command (demo_command 8 2 OPTIM_STEP 4 []) (submit_command (demo_command 8 1 FORWARD_BACKWARD 2 [3, 4]) (new_queue 8 ''t'' 1)))
     (add_model_queue (submit_command (demo_command 7 1 FORWARD_BACKWARD 3 [2, 1]) (new_queue 7 ''t'' 0)) [])"

lemma demo_scheduler_ok: "scheduler_ok demo_scheduler"
  by code_simp

lemma batch_packing_witness:
  "set (ready_datums (snd (schedule_next 9 demo_scheduler))) =
     set (ready_datums demo_scheduler) - set (case fst (schedule_next 9 demo_scheduler) of Some (Batch_Unit op loss cfg picked) \<Rightarrow> picked | _ \<Rightarrow> []) \<and>
   map (\<lambda>r. (ref_model r, local_index r)) (case fst (schedule_next 9 demo_scheduler) of Some (Batch_Unit op loss cfg picked) \<Rightarrow> picked | _ \<Rightarrow> []) = [(8, 0), (8, 1), (7, 0)]"
proof -
  have run: "schedule_next 9 demo_scheduler = (Some (Batch_Unit FORWARD_BACKWARD (JStr ''ppo'') JNull
      (case fst (schedule_next 9 demo_scheduler) of Some (Batch_Unit op loss cfg picked) \<Rightarrow> picked | _ \<Rightarrow> [])), snd (schedule_next 9 demo_scheduler))"
    by code_simp
  moreover have "map (\<lambda>r. (ref_model r, local_index r)) (case fst (schedule_next 9 demo_scheduler) of Some (Batch_Unit op loss cfg picked) \<Rightarrow> picked | _ \<Rightarrow> []) = [(8, 0), (8, 1), (7, 0)]"
    by code_simp
  ultimately show ?thesis using batch_packing[OF demo_scheduler_ok run] by blast
qed

text \<open>
  C28. The order in which the commands of a model arrive does not matter: its queue holds the commands
  of the longest run \<open>1, 2, \<dots>\<close> of sequence numbers received, in that order.
\<close>

theorem arrival_order_irrelevant:
  assumes "distinct (map cmd_seq_id cs)" and "\<forall>c \<in> set cs. 1 \<le> cmd_seq_id c" and "mset cs' = mset cs"
  shows "mq_queue (fold submit_command cs' (new_queue m tenant slot)) = mq_queue (fold submit_command cs (new_queue m tenant slot)) \<and>
    map (\<lambda>p. cmd_seq_id (pr_command p)) (mq_queue (fold submit_command cs (new_queue m tenant slot))) =
      [1..last_enqueued_seq_id (fold submit_command cs (new_queue m tenant slot))] \<and>
    set (map pr_command (mq_queue (fold submit_command cs (new_queue m tenant slot)))) \<subseteq> set cs \<and>
    last_enqueued_seq_id (fold submit_command cs (new_queue m tenant slot)) + 1 \<notin> cmd_seq_id ` set cs"
proof -
  let ?d = "\<lambda>cs. map_of (map (\<lambda>c. (cmd_seq_id c, c)) (rev cs))"
  let ?q = "\<lambda>cs. fold submit_command cs (new_queue m tenant slot)"
  have sets: "set cs' = set cs" using assms(3) by (rule mset_eq_setD)
  have d': "distinct (map cmd_seq_id cs')" using assms(1) mset_eq_imp_distinct_iff[of "map cmd_seq_id cs'" "map cmd_seq_id cs"] by (simp add: assms(3))
  have look: "?d xs (cmd_seq_id c) = Some c" if "distinct (map cmd_seq_id xs)" "c \<in> set xs" for xs c
    using that by (intro map_of_is_SomeI) (auto simp: rev_map[symmetric] comp_def image_iff)
  have dom: "?d xs k = None \<longleftrightarrow> k \<notin> cmd_seq_id ` set xs" for xs k
    by (simp add: map_of_eq_None_iff image_image)
  have same: "?d cs' = ?d cs"
  proof
    fix k
    show "?d cs' k = ?d cs k"
      using look[OF d'] look[OF assms(1)] dom[of cs' k] dom[of cs k] sets by (cases "k \<in> cmd_seq_id ` set cs") auto
  qed
  note q = submit_all_spec[OF assms(1,2), of m tenant slot]
  have q': "queue_ok (?d cs) (?q cs')" "mq_queue (?q cs') = map (\<lambda>k. pending_of (the (?d cs k))) [1..last_enqueued_seq_id (?q cs')]"
    using submit_all_spec[OF d', of m tenant slot] assms(2) sets same by auto
  have "last_enqueued_seq_id (?q cs') = last_enqueued_seq_id (?q cs)"
    using q q'(1) run_end_unique unfolding queue_ok_def by blast
  moreover have mem: "\<exists>c \<in> set cs. cmd_seq_id c = k \<and> ?d cs k = Some c" if k: "k \<in> {1..last_enqueued_seq_id (?q cs)}" for k
  proof -
    have "{1..last_enqueued_seq_id (?q cs)} \<subseteq> dom (?d cs)" using q unfolding queue_ok_def run_end_def by blast
    then have "?d cs k \<noteq> None" using k by blast
    then obtain c where "c \<in> set cs" "cmd_seq_id c = k" using dom[of cs k] by auto
    then show ?thesis using look[OF assms(1), of c] by auto
  qed
  moreover have "map (\<lambda>k. cmd_seq_id (pr_command (pending_of (the (?d cs k))))) [1..last_enqueued_seq_id (?q cs)] = map id [1..last_enqueued_seq_id (?q cs)]"
    by (rule map_cong[OF refl]) (use mem in \<open>force simp: pending_of_def Let_def\<close>)
  moreover have "pr_command (pending_of (the (?d cs k))) \<in> set cs" if "k \<in> set [1..last_enqueued_seq_id (?q cs)]" for k
    using mem[of k] that by (auto simp: pending_of_def Let_def)
  moreover have "last_enqueued_seq_id (?q cs) + 1 \<notin> cmd_seq_id ` set cs"
    using q dom unfolding queue_ok_def run_end_def by blast
  ultimately show ?thesis using q q' by (auto simp: comp_def)
qed

lemma arrival_order_irrelevant_witness:
  "map (\<lambda>p. cmd_seq_id (pr_command p)) (mq_queue (fold submit_command
     [demo_command 8 2 OPTIM_STEP 1 [], demo_command 8 4 OPTIM_STEP 2 [], demo_command 8 1 FORWARD_ONLY 3 [5]] (new_queue 8 ''t'' 1))) =
   [1..last_enqueued_seq_id (fold submit_command
     [demo_command 8 2 OPTIM_STEP 1 [], demo_command 8 4 OPTIM_STEP 2 [], demo_command 8 1 FORWARD_ONLY 3 [5]] (new_queue 8 ''t'' 1))]"
  by (rule arrival_order_irrelevant[THEN conjunct2, THEN conjunct1, OF _ _ refl]) (simp_all add: demo_command_def)

end
