(* ===== verification/Tinker_Futures.thy ===== *)
theory Tinker_Futures
  imports Tinker_Types
begin

text \<open>
  \<^verbatim>\<open>miles/tinker/core/future.py\<close>: the results of submitted requests, kept until an hour after they
  settle.  The monotonic clock is an argument; fresh request ids come from the store's counter.  The
  event that wakes long polls is left out: it is set exactly when the state leaves \<open>PENDING\<close>.
\<close>

datatype future_state = PENDING | DONE | FAILED

datatype future_owner = Training_Model uid | Sampling_Path string

record request_future =
  rf_model :: future_owner
  rf_tenant :: string
  rf_state :: future_state
  rf_result :: "obj option"
  rf_category :: "error_category option"
  finished_at :: "rat option"

record future_store =
  fs_futures :: "(uid \<times> request_future) list"
  fs_next :: uid

definition FINISHED_TTL_S :: rat where
  "FINISHED_TTL_S = 3600"

definition empty_futures :: future_store where
  "empty_futures = \<lparr>fs_futures = [], fs_next = 0\<rparr>"

abbreviation lookup_future :: "future_store \<Rightarrow> uid \<Rightarrow> request_future option" where
  "lookup_future fs r \<equiv> map_of (fs_futures fs) r"

definition create_future :: "future_owner \<Rightarrow> string \<Rightarrow> future_store \<Rightarrow> uid \<times> future_store" where
  "create_future m tenant fs =
     (fs_next fs,
      fs\<lparr>fs_futures := AList.update (fs_next fs) \<lparr>rf_model = m, rf_tenant = tenant, rf_state = PENDING, rf_result = None,
           rf_category = None, finished_at = None\<rparr> (fs_futures fs), fs_next := fs_next fs + 1\<rparr>)"

definition resolve_future :: "rat \<Rightarrow> uid \<Rightarrow> obj \<Rightarrow> future_store \<Rightarrow> tinker_error + future_store" where
  "resolve_future now r res fs =
     (case lookup_future fs r of
        None \<Rightarrow> Inl (Tinker_Raised KeyError)
      | Some f \<Rightarrow>
          if rf_state f \<noteq> PENDING then Inr fs
          else Inr (fs\<lparr>fs_futures := AList.update r (f\<lparr>rf_state := DONE, rf_result := Some res, finished_at := Some now\<rparr>) (fs_futures fs)\<rparr>))"

definition fail_future :: "rat \<Rightarrow> uid \<Rightarrow> error_category \<Rightarrow> future_store \<Rightarrow> tinker_error + future_store" where
  "fail_future now r category fs =
     (case lookup_future fs r of
        None \<Rightarrow> Inl (Tinker_Raised KeyError)
      | Some f \<Rightarrow>
          if rf_state f \<noteq> PENDING then Inr fs
          else Inr (fs\<lparr>fs_futures := AList.update r (f\<lparr>rf_state := FAILED, rf_category := Some category, finished_at := Some now\<rparr>) (fs_futures fs)\<rparr>))"

definition future_expired :: "rat \<Rightarrow> request_future \<Rightarrow> bool" where
  "future_expired now f = (case finished_at f of None \<Rightarrow> False | Some t \<Rightarrow> FINISHED_TTL_S < now - t)"

definition sweep :: "rat \<Rightarrow> future_store \<Rightarrow> future_store" where
  "sweep now fs = fs\<lparr>fs_futures := filter (\<lambda>(r, f). \<not> future_expired now f) (fs_futures fs)\<rparr>"

definition get_future :: "rat \<Rightarrow> uid \<Rightarrow> string \<Rightarrow> future_store \<Rightarrow> (tinker_error + request_future option) \<times> future_store" where
  "get_future now r tenant fs =
     (let fs' = sweep now fs
      in (case lookup_future fs' r of
            None \<Rightarrow> Inr None
          | Some f \<Rightarrow> if rf_tenant f \<noteq> tenant then Inl OwnershipError else Inr (Some f), fs'))"

definition request_id_for_retry :: "rat \<Rightarrow> uid \<Rightarrow> future_owner \<Rightarrow> string \<Rightarrow> future_store \<Rightarrow> (tinker_error + uid) \<times> future_store" where
  "request_id_for_retry now r m tenant fs =
     (case get_future now r tenant fs of
        (Inl e, fs') \<Rightarrow> (Inl e, fs')
      | (Inr (Some f), fs') \<Rightarrow> (Inr r, fs')
      | (Inr None, fs') \<Rightarrow>
          (let (r', fs2) = create_future m tenant fs'
           in case fail_future now r' User_Error fs2 of Inl e \<Rightarrow> (Inl e, fs2) | Inr fs3 \<Rightarrow> (Inr r', fs3)))"

section \<open>Invariant\<close>

definition future_ok :: "request_future \<Rightarrow> bool" where
  "future_ok f = (case rf_state f of
       PENDING \<Rightarrow> rf_result f = None \<and> rf_category f = None \<and> finished_at f = None
     | DONE \<Rightarrow> rf_result f \<noteq> None \<and> rf_category f = None \<and> finished_at f \<noteq> None
     | FAILED \<Rightarrow> rf_result f = None \<and> rf_category f \<noteq> None \<and> finished_at f \<noteq> None)"

definition store_ok :: "future_store \<Rightarrow> bool" where
  "store_ok fs \<longleftrightarrow> dict_ok (fs_futures fs) \<and> (\<forall>r f. lookup_future fs r = Some f \<longrightarrow> r < fs_next fs \<and> future_ok f)"

lemma future_ok_settle:
  "future_ok f \<Longrightarrow> rf_state f = PENDING \<Longrightarrow> future_ok (f\<lparr>rf_state := DONE, rf_result := Some res, finished_at := Some now\<rparr>)"
  "future_ok f \<Longrightarrow> rf_state f = PENDING \<Longrightarrow> future_ok (f\<lparr>rf_state := FAILED, rf_category := Some c, finished_at := Some now\<rparr>)"
  by (simp_all add: future_ok_def)

lemma map_of_filter_dict: "dict_ok d \<Longrightarrow> map_of (filter (\<lambda>(k, v). P v) d) k = (case map_of d k of Some v \<Rightarrow> if P v then Some v else None | None \<Rightarrow> None)"
  by (induction d) (auto simp: map_of_eq_None_iff split: option.splits)

lemma dict_ok_filter: "dict_ok d \<Longrightarrow> dict_ok (filter P d)"
  by (rule distinct_map_filter)

lemma lookup_create [simp]:
  "fst (create_future m t fs) = fs_next fs"
  "fs_next (snd (create_future m t fs)) = fs_next fs + 1"
  "lookup_future (snd (create_future m t fs)) r =
     (if r = fs_next fs then Some \<lparr>rf_model = m, rf_tenant = t, rf_state = PENDING, rf_result = None, rf_category = None, finished_at = None\<rparr>
      else lookup_future fs r)"
  by (simp_all add: create_future_def dict_simps)

lemma lookup_sweep:
  "store_ok fs \<Longrightarrow> lookup_future (sweep now fs) r =
     (case lookup_future fs r of Some f \<Rightarrow> if future_expired now f then None else Some f | None \<Rightarrow> None)"
  by (auto simp: sweep_def store_ok_def map_of_filter_dict split: option.splits)

lemma fs_next_sweep [simp]: "fs_next (sweep now fs) = fs_next fs"
  by (simp add: sweep_def)

lemma lookup_resolve:
  "resolve_future now r res fs = Inr fs' \<Longrightarrow> fs_next fs' = fs_next fs \<and> (\<exists>f. lookup_future fs r = Some f \<and>
     lookup_future fs' = (if rf_state f = PENDING then (lookup_future fs)(r \<mapsto> f\<lparr>rf_state := DONE, rf_result := Some res, finished_at := Some now\<rparr>)
       else lookup_future fs))"
  by (cases "lookup_future fs r") (auto simp: resolve_future_def dict_simps fun_upd_def split: if_splits)

lemma lookup_fail:
  "fail_future now r c fs = Inr fs' \<Longrightarrow> fs_next fs' = fs_next fs \<and> (\<exists>f. lookup_future fs r = Some f \<and>
     lookup_future fs' = (if rf_state f = PENDING then (lookup_future fs)(r \<mapsto> f\<lparr>rf_state := FAILED, rf_category := Some c, finished_at := Some now\<rparr>)
       else lookup_future fs))"
  by (cases "lookup_future fs r") (auto simp: fail_future_def dict_simps fun_upd_def split: if_splits)

lemma settle_total: "lookup_future fs r \<noteq> None \<Longrightarrow> \<exists>fs'. resolve_future now r res fs = Inr fs'"
  "lookup_future fs r \<noteq> None \<Longrightarrow> \<exists>fs'. fail_future now r c fs = Inr fs'"
  by (auto simp: resolve_future_def fail_future_def)

lemma store_ok_empty: "store_ok empty_futures"
  by (simp add: store_ok_def empty_futures_def)

lemma store_ok_create: "store_ok fs \<Longrightarrow> store_ok (snd (create_future m t fs))"
  by (auto simp: store_ok_def create_future_def dict_simps future_ok_def less_SucI simp del: map_of_eq_Some_iff split: if_splits)

lemma store_ok_resolve: "store_ok fs \<Longrightarrow> resolve_future now r res fs = Inr fs' \<Longrightarrow> store_ok fs'"
  by (auto simp: store_ok_def resolve_future_def dict_simps future_ok_settle simp del: map_of_eq_Some_iff split: option.splits if_splits)

lemma store_ok_fail: "store_ok fs \<Longrightarrow> fail_future now r c fs = Inr fs' \<Longrightarrow> store_ok fs'"
  by (auto simp: store_ok_def fail_future_def dict_simps future_ok_settle simp del: map_of_eq_Some_iff split: option.splits if_splits)

lemma store_ok_sweep: "store_ok fs \<Longrightarrow> store_ok (sweep now fs)"
  unfolding store_ok_def by (auto simp: sweep_def dict_ok_filter map_of_filter_dict simp del: map_of_eq_Some_iff split: option.splits if_splits)

lemma store_ok_get: "store_ok fs \<Longrightarrow> store_ok (snd (get_future now r t fs))"
  by (simp add: get_future_def Let_def store_ok_sweep)

lemma retry_cases:
  assumes "store_ok fs"
  shows "(\<exists>f. lookup_future (sweep now fs) r = Some f \<and>
      request_id_for_retry now r m t fs = (if rf_tenant f = t then Inr r else Inl OwnershipError, sweep now fs)) \<or>
    (lookup_future (sweep now fs) r = None \<and> (\<exists>fs'. request_id_for_retry now r m t fs = (Inr (fs_next fs), fs') \<and> store_ok fs' \<and>
      fs_next fs' = fs_next fs + 1 \<and>
      lookup_future fs' = (lookup_future (sweep now fs))(fs_next fs \<mapsto> \<lparr>rf_model = m, rf_tenant = t, rf_state = FAILED, rf_result = None,
        rf_category = Some User_Error, finished_at = Some now\<rparr>)))"
proof (cases "lookup_future (sweep now fs) r")
  case None
  have "store_ok (snd (create_future m t (sweep now fs)))" using assms by (intro store_ok_create store_ok_sweep)
  moreover obtain fs' where fs': "fail_future now (fs_next fs) User_Error (snd (create_future m t (sweep now fs))) = Inr fs'"
    using settle_total(2)[of "snd (create_future m t (sweep now fs))" "fs_next fs"] by auto
  ultimately have "store_ok fs'" using store_ok_fail by blast
  then show ?thesis using None fs' lookup_fail[OF fs']
    by (auto simp: request_id_for_retry_def get_future_def Let_def split_beta fun_eq_iff)
qed (auto simp: request_id_for_retry_def get_future_def Let_def)

section \<open>Write-once results\<close>

text \<open>
  The interface a client of such a store relies on: once an entry is settled no operation changes it, it
  can only be forgotten, and a forgotten identifier is not given out again.
\<close>

locale write_once =
  fixes step :: "'op \<Rightarrow> 's \<Rightarrow> 's"
    and entry :: "'s \<Rightarrow> 'r \<Rightarrow> 'f option"
    and settled :: "'f \<Rightarrow> bool"
    and retired :: "'s \<Rightarrow> 'r \<Rightarrow> bool"
    and ok :: "'s \<Rightarrow> bool"
  assumes ok_step: "ok s \<Longrightarrow> ok (step x s)"
    and settled_step: "ok s \<Longrightarrow> entry s r = Some f \<Longrightarrow> settled f \<Longrightarrow> entry (step x s) r = Some f \<or> entry (step x s) r = None"
    and entry_retired: "ok s \<Longrightarrow> entry s r = Some f \<Longrightarrow> retired s r"
    and retired_step: "ok s \<Longrightarrow> retired s r \<Longrightarrow> retired (step x s) r"
    and absent_step: "ok s \<Longrightarrow> retired s r \<Longrightarrow> entry s r = None \<Longrightarrow> entry (step x s) r = None"
begin

lemma ok_run: "ok s \<Longrightarrow> ok (fold step xs s)"
  by (induction xs arbitrary: s) (auto simp: ok_step)

lemma absent_run: "ok s \<Longrightarrow> retired s r \<Longrightarrow> entry s r = None \<Longrightarrow> entry (fold step xs s) r = None"
  by (induction xs arbitrary: s) (auto simp: ok_step absent_step retired_step)

lemma settled_run:
  assumes "ok s" and "entry s r = Some f" and "settled f"
  shows "entry (fold step xs s) r = Some f \<or> entry (fold step xs s) r = None"
  using assms
proof (induction xs arbitrary: s)
  case (Cons x xs)
  have "retired (step x s) r" using Cons.prems by (metis entry_retired retired_step)
  then show ?case
    using Cons.IH[of "step x s"] absent_run[of "step x s" r xs] settled_step[of s r f x] Cons.prems ok_step by auto
qed simp

end

text \<open>The operations of the store as the gateway calls them; an exception leaves the store as it was.\<close>

datatype future_op = Create_Op future_owner string | Resolve_Op rat uid obj | Fail_Op rat uid error_category
  | Get_Op rat uid string | Retry_Op rat uid future_owner string

fun future_step :: "future_op \<Rightarrow> future_store \<Rightarrow> future_store" where
  "future_step (Create_Op m t) fs = snd (create_future m t fs)"
| "future_step (Resolve_Op now r res) fs = (case resolve_future now r res fs of Inl e \<Rightarrow> fs | Inr fs' \<Rightarrow> fs')"
| "future_step (Fail_Op now r c) fs = (case fail_future now r c fs of Inl e \<Rightarrow> fs | Inr fs' \<Rightarrow> fs')"
| "future_step (Get_Op now r t) fs = snd (get_future now r t fs)"
| "future_step (Retry_Op now r m t) fs = snd (request_id_for_retry now r m t fs)"

lemma store_ok_retry: "store_ok fs \<Longrightarrow> store_ok (snd (request_id_for_retry now r m t fs))"
  using retry_cases[of fs now r m t] store_ok_sweep[of fs now] by auto

lemma store_ok_step: "store_ok fs \<Longrightarrow> store_ok (future_step x fs)"
  by (cases x) (auto simp: store_ok_create store_ok_get store_ok_retry split: sum.splits intro: store_ok_resolve store_ok_fail)

lemma fs_next_step: "store_ok fs \<Longrightarrow> fs_next fs \<le> fs_next (future_step x fs)"
proof (cases x)
  case (Retry_Op now r m t)
  assume "store_ok fs"
  then show ?thesis using retry_cases[of fs now r m t] Retry_Op by auto
qed (auto simp: get_future_def Let_def dest: lookup_resolve lookup_fail split: sum.splits)

lemma lookup_step:
  assumes "store_ok fs" and "r < fs_next fs"
  shows "lookup_future (future_step x fs) r = lookup_future fs r \<or>
    (case lookup_future fs r of None \<Rightarrow> False
     | Some f \<Rightarrow> rf_state f = PENDING \<or> lookup_future (future_step x fs) r = None)"
proof (cases x)
  case (Resolve_Op now r' res)
  then show ?thesis by (auto dest!: lookup_resolve split: sum.splits option.splits if_splits)
next
  case (Fail_Op now r' c)
  then show ?thesis by (auto dest!: lookup_fail split: sum.splits option.splits if_splits)
next
  case (Get_Op now r' t)
  then show ?thesis using lookup_sweep[OF assms(1), of now r] by (auto simp: get_future_def Let_def split: option.splits)
next
  case (Retry_Op now r' m t)
  then show ?thesis
    using retry_cases[OF assms(1), of now r' m t] lookup_sweep[OF assms(1), of now r] assms(2)
    by (auto split: option.splits if_splits)
qed (use assms(2) in simp)

interpretation fut: write_once future_step lookup_future "\<lambda>f. rf_state f \<noteq> PENDING" "\<lambda>fs r. r < fs_next fs" store_ok
proof
  show "lookup_future (future_step x fs) r = Some f \<or> lookup_future (future_step x fs) r = None"
    if "store_ok fs" "lookup_future fs r = Some f" "rf_state f \<noteq> PENDING" for fs r f x
    using lookup_step[OF that(1), of r x] that by (auto simp: store_ok_def)
  show "r < fs_next fs" if "store_ok fs" "lookup_future fs r = Some f" for fs r f
    using that by (auto simp: store_ok_def)
  show "lookup_future (future_step x fs) r = None" if "store_ok fs" "r < fs_next fs" "lookup_future fs r = None" for fs r x
    using lookup_step[OF that(1,2), of x] that(3) by simp
qed (use store_ok_step fs_next_step in \<open>auto intro: less_le_trans\<close>)

text \<open>
  C29. A request settles at most once: after any operations on the store, a result or an error that a
  client could have seen is still the one it was, or it has been forgotten, for good.
\<close>

theorem futures_settle_once:
  assumes "lookup_future (fold future_step xs empty_futures) r = Some f" and "rf_state f \<noteq> PENDING"
  shows "lookup_future (fold future_step (xs @ ys) empty_futures) r = Some f \<or>
    (\<forall>zs. lookup_future (fold future_step (xs @ ys @ zs) empty_futures) r = None)"
proof -
  let ?fs = "fold future_step xs empty_futures"
  have ok: "store_ok ?fs" by (rule fut.ok_run[OF store_ok_empty])
  have oky: "store_ok (fold future_step ys ?fs)" by (rule fut.ok_run[OF ok])
  have "r < fs_next (fold future_step ys ?fs)"
    using fut.entry_retired[OF ok assms(1)] ok by (induction ys rule: rev_induct) (auto intro: fut.retired_step fut.ok_run)
  then show ?thesis
    using fut.settled_run[OF ok assms, of ys] fut.absent_run[OF oky] by auto
qed

lemma futures_settle_once_witness:
  "rf_state (the (lookup_future (fold future_step
     ([Create_Op (Training_Model 1) ''t'', Fail_Op 5 0 User_Error] @ [Resolve_Op 6 0 [], Get_Op 3000 0 ''t'']) empty_futures) 0)) = FAILED"
proof -
  let ?xs = "[Create_Op (Training_Model 1) ''t'', Fail_Op 5 0 User_Error]"
  let ?ys = "[Resolve_Op 6 0 [], Get_Op 3000 0 ''t'']"
  let ?f = "\<lparr>rf_model = Training_Model 1, rf_tenant = ''t'', rf_state = FAILED, rf_result = None, rf_category = Some User_Error,
    finished_at = Some (5::rat)\<rparr>"
  have "lookup_future (fold future_step ?xs empty_futures) 0 = Some ?f"
    by (simp add: create_future_def fail_future_def empty_futures_def)
  then have "lookup_future (fold future_step (?xs @ ?ys) empty_futures) 0 = Some ?f \<or>
      (\<forall>zs. lookup_future (fold future_step (?xs @ ?ys @ zs) empty_futures) 0 = None)"
    by (rule futures_settle_once) simp
  moreover have "lookup_future (fold future_step (?xs @ ?ys) empty_futures) 0 \<noteq> None"
    by (simp add: create_future_def fail_future_def resolve_future_def empty_futures_def get_future_def sweep_def future_expired_def FINISHED_TTL_S_def)
  ultimately show ?thesis by (metis append_Nil2 append_assoc future_state.simps option.sel request_future.select_convs(3))
qed

end
