(* ===== verification/Tinker_Service.thy ===== *)
theory Tinker_Service
  imports Tinker_Scheduler Tinker_Futures
begin

text \<open>
  \<^verbatim>\<open>miles/tinker/core/service.py\<close>: sessions, models, commands, the dispatcher and sampling.  The
  trainer and the engines are the backend: what they answer is an argument of the operation that waits
  for them.  The trainer lock is the field \<open>lock\<close>: it is held by the dispatcher from the selection of a
  unit to its completion, and while the models of ended sessions are closed one after the other.  Texts
  of errors are not modelled.
\<close>

record model_record =
  mr_session :: uid
  mr_tenant :: string
  mr_slot :: nat
  mr_base_model :: string
  mr_rank :: int
  mr_alpha :: rat
  create_request_id :: uid
  request_id_by_seq :: "(int \<times> uid) list"
  slot_initialized :: bool
  next_sampler_version :: nat

record tinker_session =
  sr_tenant :: string
  last_heartbeat :: rat
  models_by_seq :: "(int \<times> (uid \<times> uid)) list"
  sampling_sessions_by_seq :: "(int \<times> uid) list"

record sampling_session_record =
  ssr_tenant :: string
  ssr_model_path :: "string option"
  ssr_session :: uid
  samples_by_seq :: "(int \<times> (uid \<times> uid list)) list"

record ended_session =
  es_tenant :: string
  lease_expired :: bool
  ended_at :: rat

record sample_task =
  st_session :: "uid option"
  st_sequences :: "uid list"
  st_payload :: obj
  st_lora :: "(string \<times> string) option"
  st_cancelled :: bool

datatype lock_holder = Unlocked | Running work_unit | Ending "uid list" error_category

record gateway =
  futures :: future_store
  sched :: scheduler
  models :: "(uid \<times> model_record) list"
  sessions :: "(uid \<times> tinker_session) list"
  sampling_sessions :: "(uid \<times> sampling_session_record) list"
  free_slots :: "nat set"
  releasing :: "(nat \<times> bool) list"
  creating :: "uid list"
  sample_tasks :: "(uid \<times> sample_task) list"
  arrival_counter :: nat
  batch_counter :: nat
  close_reasons :: "uid list"
  ended_sessions :: "(uid \<times> ended_session) list"
  uids :: uid
  lock :: lock_holder

definition initial_gateway :: "gateway_config \<Rightarrow> gateway" where
  "initial_gateway cfg =
     \<lparr>futures = empty_futures, sched = [], models = [], sessions = [], sampling_sessions = [], free_slots = {0..<n_slots cfg},
      releasing = [], creating = [], sample_tasks = [], arrival_counter = 0, batch_counter = 0, close_reasons = [],
      ended_sessions = [], uids = 0, lock = Unlocked\<rparr>"

section \<open>Sessions and models\<close>

definition create_session :: "rat \<Rightarrow> string \<Rightarrow> gateway \<Rightarrow> uid \<times> gateway" where
  "create_session now tenant gw =
     (uids gw, gw\<lparr>uids := uids gw + 1,
        sessions := AList.update (uids gw) \<lparr>sr_tenant = tenant, last_heartbeat = now, models_by_seq = [], sampling_sessions_by_seq = []\<rparr> (sessions gw)\<rparr>)"

definition session_for :: "string \<Rightarrow> uid \<Rightarrow> gateway \<Rightarrow> tinker_error + tinker_session" where
  "session_for tenant sid gw =
     (case map_of (sessions gw) sid of
        None \<Rightarrow> Inl UserInputError
      | Some s \<Rightarrow> if sr_tenant s \<noteq> tenant then Inl UserInputError else Inr s)"

definition heartbeat :: "rat \<Rightarrow> string \<Rightarrow> uid \<Rightarrow> gateway \<Rightarrow> bool \<times> gateway" where
  "heartbeat now tenant sid gw =
     (case map_of (sessions gw) sid of
        None \<Rightarrow> (False, gw)
      | Some s \<Rightarrow>
          if sr_tenant s \<noteq> tenant then (False, gw)
          else (True, gw\<lparr>sessions := AList.update sid (s\<lparr>last_heartbeat := now\<rparr>) (sessions gw)\<rparr>))"

definition lora_alpha_of :: "gateway_config \<Rightarrow> int \<Rightarrow> rat" where
  "lora_alpha_of cfg rank = (case cfg_lora_alpha cfg of Some a \<Rightarrow> a | None \<Rightarrow> of_int (2 * rank))"

text \<open>The new model: its slot is allocated now, it is initialised behind the future of its creation.\<close>

definition allocate_model :: "gateway_config \<Rightarrow> string \<Rightarrow> uid \<Rightarrow> tinker_session \<Rightarrow> int \<Rightarrow> int \<Rightarrow> gateway \<Rightarrow> (uid \<times> uid) \<times> gateway" where
  "allocate_model cfg tenant sid session k rank gw =
     (let slot = Min (free_slots gw); m = uids gw;
          (r, fs) = create_future (Training_Model m) tenant (futures gw);
          rec = \<lparr>mr_session = sid, mr_tenant = tenant, mr_slot = slot, mr_base_model = cfg_base_model cfg, mr_rank = rank,
                 mr_alpha = lora_alpha_of cfg rank, create_request_id = r, request_id_by_seq = [], slot_initialized = False,
                 next_sampler_version = 1\<rparr>
      in ((r, m), gw\<lparr>futures := fs, uids := m + 1, free_slots := free_slots gw - {slot},
            models := AList.update m rec (models gw), sched := add_model_queue (new_queue m tenant slot) (sched gw),
            creating := creating gw @ [m],
            sessions := AList.update sid (session\<lparr>models_by_seq := AList.update k (r, m) (models_by_seq session)\<rparr>) (sessions gw)\<rparr>))"

definition create_model ::
    "gateway_config \<Rightarrow> rat \<Rightarrow> string \<Rightarrow> uid \<Rightarrow> json \<Rightarrow> string \<Rightarrow> obj \<Rightarrow> gateway \<Rightarrow> (tinker_error + uid \<times> uid) \<times> gateway" where
  "create_model cfg now tenant sid seq base_model lora gw =
     (case session_for tenant sid gw of
        Inl e \<Rightarrow> (Inl e, gw)
      | Inr session \<Rightarrow>
     (case validate_seq_id seq 0 of
        Inl e \<Rightarrow> (Inl e, gw)
      | Inr k \<Rightarrow>
     (case map_of (models_by_seq session) k of
        Some (r, m) \<Rightarrow>
          (case request_id_for_retry now r (Training_Model m) tenant (futures gw) of
             (Inl e, fs) \<Rightarrow> (Inl e, gw\<lparr>futures := fs\<rparr>)
           | (Inr r', fs) \<Rightarrow>
               (Inr (r', m), gw\<lparr>futures := fs,
                  sessions := AList.update sid (session\<lparr>models_by_seq := AList.update k (r', m) (models_by_seq session)\<rparr>) (sessions gw)\<rparr>))
      | None \<Rightarrow>
          if base_model \<noteq> cfg_base_model cfg then (Inl UserInputError, gw)
          else (case validate_model_config lora cfg of
             Inl e \<Rightarrow> (Inl e, gw)
           | Inr _ \<Rightarrow>
               if free_slots gw = {} then (Inl UserInputError, gw)
               else (case dget_or lora ''rank'' (JInt 32) of
                       JInt rank \<Rightarrow> map_prod Inr id (allocate_model cfg tenant sid session k rank gw)
                     | _ \<Rightarrow> (Inl UserInputError, gw))))))"

definition get_model :: "string \<Rightarrow> uid \<Rightarrow> gateway \<Rightarrow> tinker_error + model_record" where
  "get_model tenant m gw =
     (case map_of (models gw) m of
        None \<Rightarrow> Inl UserInputError
      | Some rec \<Rightarrow> if mr_tenant rec \<noteq> tenant then Inl OwnershipError else Inr rec)"

text \<open>Closing: the model and its queue go, its requests fail, and its slot waits to be released.\<close>

definition fail_if_known :: "rat \<Rightarrow> error_category \<Rightarrow> string \<Rightarrow> uid \<Rightarrow> future_store \<Rightarrow> tinker_error + future_store" where
  "fail_if_known now category tenant r fs =
     (case get_future now r tenant fs of
        (Inl e, fs') \<Rightarrow> Inl e
      | (Inr None, fs') \<Rightarrow> Inr fs'
      | (Inr (Some f), fs') \<Rightarrow> fail_future now r category fs')"

definition close_model :: "gateway_config \<Rightarrow> rat \<Rightarrow> uid \<Rightarrow> error_category \<Rightarrow> gateway \<Rightarrow> tinker_error + gateway" where
  "close_model cfg now m category gw =
     (case map_of (models gw) m of
        None \<Rightarrow> Inr gw
      | Some rec \<Rightarrow>
          let reasons = (if m \<in> set (close_reasons gw) then close_reasons gw else close_reasons gw @ [m]);
              reasons' = drop (length reasons - 4 * n_slots cfg) reasons
          in rbind (rfold (fail_if_known now category (mr_tenant rec)) (create_request_id rec # map snd (request_id_by_seq rec)) (futures gw))
               (\<lambda>fs. Inr (gw\<lparr>models := AList.delete m (models gw), close_reasons := reasons', sched := remove_model_queue m (sched gw),
                  futures := fs, releasing := releasing gw @ [(mr_slot rec, slot_initialized rec)]\<rparr>)))"

text \<open>The end of closing, once the backend has answered: a slot whose unload failed, or a dead trainer's, stays out of use.\<close>

definition release_slot :: "bool \<Rightarrow> bool \<Rightarrow> gateway \<Rightarrow> gateway" where
  "release_slot trainer_dead unload_failed gw =
     (case releasing gw of
        [] \<Rightarrow> gw
      | (slot, initialized) # rest \<Rightarrow>
          let gw' = gw\<lparr>releasing := rest\<rparr>
          in if trainer_dead \<or> initialized \<and> unload_failed then gw' else gw'\<lparr>free_slots := insert slot (free_slots gw)\<rparr>)"

definition run_create_model :: "gateway_config \<Rightarrow> rat \<Rightarrow> uid \<Rightarrow> bool \<Rightarrow> gateway \<Rightarrow> tinker_error + gateway" where
  "run_create_model cfg now m failed gw0 =
     (let gw = gw0\<lparr>creating := remove1 m (creating gw0)\<rparr>
      in case map_of (models gw) m of
           None \<Rightarrow> Inr gw
         | Some rec \<Rightarrow>
             let gw' = gw\<lparr>models := AList.update m (rec\<lparr>slot_initialized := True\<rparr>) (models gw)\<rparr>
             in if failed then close_model cfg now m Server_Error gw'
                else rbind (resolve_future now (create_request_id rec) [(''op'', JStr ''create_model'')] (futures gw'))
                       (\<lambda>fs. Inr (gw'\<lparr>futures := fs\<rparr>)))"

section \<open>Commands\<close>

definition submit ::
    "gateway_config \<Rightarrow> rat \<Rightarrow> string \<Rightarrow> string \<Rightarrow> uid \<Rightarrow> json \<Rightarrow> obj \<Rightarrow> bool \<Rightarrow> gateway \<Rightarrow> (tinker_error + uid) \<times> gateway" where
  "submit cfg now tenant op_name m seq payload content_error gw =
     (case map_of command_ops op_name of
        None \<Rightarrow> (Inl UserInputError, gw)
      | Some op \<Rightarrow>
     (case get_model tenant m gw of
        Inl e \<Rightarrow> (Inl e, gw)
      | Inr rec \<Rightarrow>
     (case validate_seq_id seq 1 of
        Inl e \<Rightarrow> (Inl e, gw)
      | Inr k \<Rightarrow>
     (case map_of (sched gw) m of
        None \<Rightarrow> (Inl (Tinker_Raised KeyError), gw)
      | Some q \<Rightarrow>
     (case map_of (request_id_by_seq rec) k of
        Some r \<Rightarrow>
          (case request_id_for_retry now r (Training_Model m) tenant (futures gw) of
             (Inl e, fs) \<Rightarrow> (Inl e, gw\<lparr>futures := fs\<rparr>)
           | (Inr r', fs) \<Rightarrow>
               (Inr r', gw\<lparr>futures := fs, models := AList.update m (rec\<lparr>request_id_by_seq := AList.update k r' (request_id_by_seq rec)\<rparr>) (models gw)\<rparr>))
      | None \<Rightarrow>
          (let (r, fs) = create_future (Training_Model m) tenant (futures gw);
               arrival = arrival_counter gw + 1;
               gw' = gw\<lparr>futures := fs, arrival_counter := arrival,
                        models := AList.update m (rec\<lparr>request_id_by_seq := AList.update k r (request_id_by_seq rec)\<rparr>) (models gw)\<rparr>;
               enqueue = (\<lambda>invalid. gw'\<lparr>sched := AList.update m (submit_command
                  \<lparr>cmd_model_id = m, cmd_seq_id = k, cmd_op = op, cmd_payload = payload, cmd_request_id = r,
                   cmd_arrival = arrival, validation_error = invalid\<rparr> q) (sched gw)\<rparr>)
           in if content_error then (Inr r, enqueue True)
              else (case validate_batch_payload op payload cfg of
                      Inr _ \<Rightarrow> (Inr r, enqueue False)
                    | Inl UserInputError \<Rightarrow> (Inr r, enqueue True)
                    | Inl e \<Rightarrow> (Inl e, gw'))))))))"

section \<open>The dispatcher\<close>

datatype outcome = Success obj | Failure error_category

datatype batch_result = Outputs "obj list" | Batch_Raised | Batch_Error

text \<open>What the trainer answers: the outputs of a batch, per slot the outcome of an optimizer step, and the
  outcome of a single-entry barrier or the exception it raised.\<close>

record backend_answer =
  batch_result :: batch_result
  slot_outcomes :: "nat \<Rightarrow> outcome"
  barrier_result :: "tinker_error + outcome"

definition finish_in_scheduler :: "uid \<Rightarrow> uid \<Rightarrow> scheduler \<Rightarrow> scheduler" where
  "finish_in_scheduler m r s = map (\<lambda>(m', q). (m', if m' = m then finish_in_queue r q else q)) s"

definition finish_request :: "gateway_config \<Rightarrow> rat \<Rightarrow> uid \<Rightarrow> command \<Rightarrow> outcome \<Rightarrow> gateway \<Rightarrow> tinker_error + gateway" where
  "finish_request cfg now m c out gw =
     (case out of
        Failure category \<Rightarrow>
          if requires_model_close_on_failure (cmd_op c) category then close_model cfg now m category gw
          else rbind (fail_future now (cmd_request_id c) category (futures gw))
                 (\<lambda>fs. Inr (gw\<lparr>futures := fs, sched := finish_in_scheduler m (cmd_request_id c) (sched gw)\<rparr>))
      | Success res \<Rightarrow>
          rbind (resolve_future now (cmd_request_id c) res (futures gw))
            (\<lambda>fs. Inr (gw\<lparr>futures := fs, sched := finish_in_scheduler m (cmd_request_id c) (sched gw)\<rparr>)))"

definition finish_rejections :: "gateway_config \<Rightarrow> rat \<Rightarrow> gateway \<Rightarrow> tinker_error + gateway" where
  "finish_rejections cfg now gw =
     rfold (\<lambda>(m, p). finish_request cfg now m (pr_command p) (Failure User_Error)) (ready_rejections (sched gw)) gw"

text \<open>One pass of the loop under the lock, up to the call of the trainer: \<open>None\<close> says there is nothing to do.\<close>

definition select_unit :: "gateway_config \<Rightarrow> rat \<Rightarrow> gateway \<Rightarrow> (tinker_error + gateway) option" where
  "select_unit cfg now gw =
     (if ready_rejections (sched gw) \<noteq> [] then Some (finish_rejections cfg now gw)
      else case schedule_next (batch_token_budget cfg) (sched gw) of
             (None, s) \<Rightarrow> None
           | (Some u, s) \<Rightarrow> Some (Inr (gw\<lparr>sched := s, lock := Running u\<rparr>)))"

definition find_pending :: "uid \<Rightarrow> uid \<Rightarrow> scheduler \<Rightarrow> pending_request option" where
  "find_pending m r s = (case map_of s m of None \<Rightarrow> None | Some q \<Rightarrow> find (\<lambda>p. pr_id p = r) (mq_queue q))"

definition store_output :: "gateway_config \<Rightarrow> rat \<Rightarrow> datum_ref \<times> obj \<Rightarrow> gateway \<Rightarrow> tinker_error + gateway" where
  "store_output cfg now x gw =
     (let r = fst x; out = snd x
      in case find_pending (ref_model r) (ref_request r) (sched gw) of
           None \<Rightarrow> Inl (Tinker_Raised ValueError)
         | Some p \<Rightarrow>
             let (p', finished) = record_output (local_index r) out p;
                 gw' = gw\<lparr>sched := update_pending (ref_model r) (ref_request r) (\<lambda>_. p') (sched gw)\<rparr>
             in if finished
                then finish_request cfg now (ref_model r) (ref_command r)
                       (Success [(''outputs'', JArr (map (\<lambda>v. case v of None \<Rightarrow> JNull | Some d \<Rightarrow> JObj d) (outputs p')))]) gw'
                else Inr gw')"

text \<open>The requests of a batch, each once, in the order their first datums appear.\<close>

definition batch_requests :: "datum_ref list \<Rightarrow> (uid \<times> (uid \<times> command)) list" where
  "batch_requests refs = fold (\<lambda>r. AList.update (ref_request r) (ref_model r, ref_command r)) refs []"

definition fail_batch :: "gateway_config \<Rightarrow> rat \<Rightarrow> datum_ref list \<Rightarrow> error_category \<Rightarrow> gateway \<Rightarrow> tinker_error + gateway" where
  "fail_batch cfg now refs category gw =
     rfold (\<lambda>(r, (m, c)). finish_request cfg now m c (Failure category)) (batch_requests refs) gw"

definition run_batch :: "gateway_config \<Rightarrow> rat \<Rightarrow> batch_result \<Rightarrow> datum_ref list \<Rightarrow> gateway \<Rightarrow> tinker_error + gateway" where
  "run_batch cfg now answer picked gw0 =
     (let refs = sort_key ref_slot picked; gw = gw0\<lparr>batch_counter := batch_counter gw0 + 1\<rparr>
      in case answer of
           Batch_Raised \<Rightarrow> fail_batch cfg now picked User_Error gw
         | Batch_Error \<Rightarrow> fail_batch cfg now picked Server_Error gw
         | Outputs outs \<Rightarrow>
             if length outs \<noteq> length refs then Inl (Tinker_Raised AssertionError)
             else rfold (store_output cfg now) (zip refs outs) gw)"

text \<open>One trainer call steps the optimizers of every entry; the answer is read back by slot.\<close>

definition step_optimizers :: "(nat \<Rightarrow> outcome) \<Rightarrow> (uid \<times> pending_request) list \<Rightarrow> gateway \<Rightarrow> tinker_error + outcome list" where
  "step_optimizers answer entries gw =
     rbind (rmap (\<lambda>(m, p). rbind (item (cmd_payload (pr_command p)) ''adam_params'') (\<lambda>_.
        case map_of (sched gw) m of None \<Rightarrow> Inl (Tinker_Raised KeyError) | Some q \<Rightarrow> Inr (mq_slot q))) entries)
       (\<lambda>slots. Inr (map answer slots))"

definition dispatch_barrier_op :: "backend_answer \<Rightarrow> command_op \<Rightarrow> (uid \<times> pending_request) list \<Rightarrow> gateway \<Rightarrow> tinker_error + outcome list" where
  "dispatch_barrier_op answer op entries gw =
     (if op = OPTIM_STEP then step_optimizers (slot_outcomes answer) entries gw
      else if length entries \<noteq> 1 then Inl (Tinker_Raised ValueError)
      else if op \<in> {SAVE_STATE, LOAD_STATE, SAVE_WEIGHTS_FOR_SAMPLER, SAVE_WEIGHTS_EXTERNAL} then rbind (barrier_result answer) (\<lambda>out. Inr [out])
      else Inl UserInputError)"

definition run_barrier :: "gateway_config \<Rightarrow> rat \<Rightarrow> backend_answer \<Rightarrow> command_op \<Rightarrow> (uid \<times> pending_request) list \<Rightarrow> gateway \<Rightarrow> tinker_error + gateway" where
  "run_barrier cfg now answer op entries gw =
     rbind (case dispatch_barrier_op answer op entries gw of
              Inl UserInputError \<Rightarrow> Inr (map (\<lambda>_. Failure User_Error) entries)
            | Inl OwnershipError \<Rightarrow> Inr (map (\<lambda>_. Failure User_Error) entries)
            | other \<Rightarrow> other)
       (\<lambda>outs. rfold (\<lambda>((m, p), out). finish_request cfg now m (pr_command p) out) (zip entries outs) gw)"

definition complete_unit :: "gateway_config \<Rightarrow> rat \<Rightarrow> backend_answer \<Rightarrow> work_unit \<Rightarrow> gateway \<Rightarrow> tinker_error + gateway" where
  "complete_unit cfg now answer u gw0 =
     (let gw = gw0\<lparr>lock := Unlocked\<rparr>
      in case u of
           Batch_Unit op loss config picked \<Rightarrow> run_batch cfg now (batch_result answer) picked gw
         | Barrier_Unit op entries \<Rightarrow> run_barrier cfg now answer op entries gw)"

section \<open>Sampling\<close>

text \<open>\<open>resolve\<close> stands for \<open>resolve_sampler_checkpoint\<close>: the adapter a model path names, or the error.\<close>

type_synonym resolver = "string \<Rightarrow> string \<Rightarrow> tinker_error + string \<times> string"

abbreviation base_model_refused :: "gateway_config \<Rightarrow> string option \<Rightarrow> bool" where
  "base_model_refused cfg b \<equiv> b \<noteq> None \<and> b \<noteq> Some (cfg_base_model cfg)"

definition new_sampling_session :: "resolver \<Rightarrow> string \<Rightarrow> uid \<Rightarrow> string option \<Rightarrow> gateway \<Rightarrow> tinker_error + uid \<times> gateway" where
  "new_sampling_session resolve tenant sid path gw =
     rbind (case path of None \<Rightarrow> Inr () | Some p \<Rightarrow> rbind (resolve tenant p) (\<lambda>_. Inr ())) (\<lambda>_.
     Inr (uids gw, gw\<lparr>uids := uids gw + 1,
       sampling_sessions := AList.update (uids gw) \<lparr>ssr_tenant = tenant, ssr_model_path = path, ssr_session = sid, samples_by_seq = []\<rparr> (sampling_sessions gw)\<rparr>))"

definition create_sampling_session ::
    "gateway_config \<Rightarrow> resolver \<Rightarrow> string \<Rightarrow> uid \<Rightarrow> json \<Rightarrow> string option \<Rightarrow> string option \<Rightarrow> gateway \<Rightarrow> tinker_error + uid \<times> gateway" where
  "create_sampling_session cfg resolve tenant sid seq base path gw =
     rbind (session_for tenant sid gw) (\<lambda>session.
     rbind (require (\<not> base_model_refused cfg base)) (\<lambda>_.
     rbind (validate_seq_id seq 0) (\<lambda>k.
     case map_of (sampling_sessions_by_seq session) k of
       Some previous \<Rightarrow> Inr (previous, gw)
     | None \<Rightarrow> rbind (new_sampling_session resolve tenant sid path gw) (\<lambda>(x, gw').
         Inr (x, gw'\<lparr>sessions := AList.update sid (session\<lparr>sampling_sessions_by_seq :=
           AList.update k x (sampling_sessions_by_seq session)\<rparr>) (sessions gw')\<rparr>)))))"

definition get_sampler :: "string \<Rightarrow> uid \<Rightarrow> gateway \<Rightarrow> tinker_error + string option" where
  "get_sampler tenant x gw =
     (case map_of (sampling_sessions gw) x of
        None \<Rightarrow> Inl UserInputError
      | Some s \<Rightarrow> if ssr_tenant s \<noteq> tenant then Inl OwnershipError else Inr (ssr_model_path s))"

definition path_or :: "string option \<Rightarrow> string option \<Rightarrow> string option" where
  "path_or a b = (if a = None \<or> a = Some [] then b else a)"

definition sampling_owner :: "string option \<Rightarrow> future_owner" where
  "sampling_owner path = Sampling_Path (case path_or path None of None \<Rightarrow> ''base'' | Some p \<Rightarrow> p)"

text \<open>The shared window takes precedence over the requested maximum.\<close>

definition clamp_max_tokens :: "gateway_config \<Rightarrow> obj \<Rightarrow> obj" where
  "clamp_max_tokens cfg payload =
     (let params = as_obj (dget payload ''sampling_params'');
          room = max_tokens_per_sample cfg - (case dget payload ''prompt_tokens'' of JArr xs \<Rightarrow> int (length xs) | _ \<Rightarrow> 0);
          m = (case dget params ''max_tokens'' of JInt i \<Rightarrow> i | _ \<Rightarrow> 0)
      in dset ''sampling_params'' (JObj (dset ''max_tokens'' (JInt (if room < m then room else m)) params)) payload)"

definition start_sample :: "gateway_config \<Rightarrow> resolver \<Rightarrow> string \<Rightarrow> obj \<Rightarrow> string option \<Rightarrow> uid option \<Rightarrow> gateway \<Rightarrow> tinker_error + (uid \<times> uid list) \<times> gateway" where
  "start_sample cfg resolve tenant payload path session gw =
     rbind (validate_sample_payload payload cfg) (\<lambda>_.
     rbind (case path_or path None of None \<Rightarrow> Inr None | Some p \<Rightarrow> rbind (resolve tenant p) (\<lambda>l. Inr (Some l))) (\<lambda>lora.
     let (r, fs) = create_future (sampling_owner path) tenant (futures gw);
         n = (case dget_or payload ''num_samples'' (JInt 1) of JInt i \<Rightarrow> nat i | _ \<Rightarrow> 0);
         ids = map (\<lambda>i. uids gw + i) [0..<n]
     in Inr ((r, ids), gw\<lparr>futures := fs, uids := uids gw + n,
          sample_tasks := AList.update r \<lparr>st_session = session, st_sequences = ids, st_payload = clamp_max_tokens cfg payload,
            st_lora = lora, st_cancelled = False\<rparr> (sample_tasks gw)\<rparr>)))"

definition submit_sample ::
    "gateway_config \<Rightarrow> resolver \<Rightarrow> rat \<Rightarrow> string \<Rightarrow> obj \<Rightarrow> string option \<Rightarrow> string option \<Rightarrow> uid option \<Rightarrow> json \<Rightarrow> gateway \<Rightarrow>
     (tinker_error + uid \<times> uid list) \<times> gateway" where
  "submit_sample cfg resolve now tenant payload base path x seq gw =
     (if base_model_refused cfg base then (Inl UserInputError, gw)
      else case x of
        None \<Rightarrow>
          (case start_sample cfg resolve tenant payload path None gw of Inl e \<Rightarrow> (Inl e, gw) | Inr (res, gw') \<Rightarrow> (Inr res, gw'))
      | Some xid \<Rightarrow>
          (case map_of (sampling_sessions gw) xid of
             None \<Rightarrow> (Inl UserInputError, gw)
           | Some s \<Rightarrow>
               if ssr_tenant s \<noteq> tenant then (Inl OwnershipError, gw)
               else let path' = path_or path (ssr_model_path s);
                        remember = (\<lambda>k res g. g\<lparr>sampling_sessions :=
                          AList.update xid (s\<lparr>samples_by_seq := AList.update k res (samples_by_seq s)\<rparr>) (sampling_sessions g)\<rparr>)
                    in (case validate_seq_id seq 0 of
                          Inl e \<Rightarrow> (Inl e, gw)
                        | Inr k \<Rightarrow>
                            (case map_of (samples_by_seq s) k of
                               Some (r, ids) \<Rightarrow>
                                 (case request_id_for_retry now r (sampling_owner path') tenant (futures gw) of
                                    (Inl e, fs) \<Rightarrow> (Inl e, gw\<lparr>futures := fs\<rparr>)
                                  | (Inr r', fs) \<Rightarrow> (Inr (r', ids), remember k (r', ids) (gw\<lparr>futures := fs\<rparr>)))
                             | None \<Rightarrow>
                                 (case start_sample cfg resolve tenant payload path' (Some (ssr_session s)) gw of
                                    Inl e \<Rightarrow> (Inl e, gw)
                                  | Inr (res, gw') \<Rightarrow> (Inr res, remember k res gw'))))))"

datatype sample_answer = Sample_Cancelled | Sample_Raised | Sample_Error | Sample_Result obj

definition label_sequences :: "uid list \<Rightarrow> obj \<Rightarrow> tinker_error + obj" where
  "label_sequences ids res =
     rbind (rbind (item res ''sequences'') json_list) (\<lambda>seqs.
     if length ids \<noteq> length seqs then Inl (Tinker_Raised ValueError)
     else Inr (dupdate [(''op'', JStr ''sample'')]
       (dset ''sequences'' (JArr (map (\<lambda>(i, q). JObj (dset ''sequence_id'' (JInt (int i)) (as_obj q))) (zip ids seqs))) res)))"

definition run_sample :: "rat \<Rightarrow> uid \<Rightarrow> sample_answer \<Rightarrow> gateway \<Rightarrow> tinker_error + gateway" where
  "run_sample now r answer gw0 =
     (case map_of (sample_tasks gw0) r of
        None \<Rightarrow> Inr gw0
      | Some t \<Rightarrow>
          let gw = gw0\<lparr>sample_tasks := AList.delete r (sample_tasks gw0)\<rparr>;
              failed = (\<lambda>category. fail_future now r category (futures gw))
          in rbind (case (if st_cancelled t then Sample_Cancelled else answer) of
                      Sample_Cancelled \<Rightarrow> failed User_Error
                    | Sample_Raised \<Rightarrow> failed User_Error
                    | Sample_Error \<Rightarrow> failed Server_Error
                    | Sample_Result res \<Rightarrow> rbind (label_sequences (st_sequences t) res) (\<lambda>labelled. resolve_future now r labelled (futures gw)))
               (\<lambda>fs. Inr (gw\<lparr>futures := fs\<rparr>)))"

definition cancel_task :: "uid \<Rightarrow> gateway \<Rightarrow> gateway" where
  "cancel_task r gw =
     (case map_of (sample_tasks gw) r of
        None \<Rightarrow> gw
      | Some t \<Rightarrow> gw\<lparr>sample_tasks := AList.update r (t\<lparr>st_cancelled := True\<rparr>) (sample_tasks gw)\<rparr>)"

definition cancel :: "rat \<Rightarrow> string \<Rightarrow> uid \<Rightarrow> gateway \<Rightarrow> (tinker_error + unit) \<times> gateway" where
  "cancel now tenant r gw =
     (case get_future now r tenant (futures gw) of
        (Inl e, fs) \<Rightarrow> (Inl e, gw\<lparr>futures := fs\<rparr>)
      | (Inr None, fs) \<Rightarrow> (Inr (), gw\<lparr>futures := fs\<rparr>)
      | (Inr (Some f), fs) \<Rightarrow> (Inr (), cancel_task r (gw\<lparr>futures := fs\<rparr>)))"

definition retrieve_future :: "rat \<Rightarrow> string \<Rightarrow> uid \<Rightarrow> gateway \<Rightarrow> (tinker_error + request_future option) \<times> gateway" where
  "retrieve_future now tenant r gw = (case get_future now r tenant (futures gw) of (res, fs) \<Rightarrow> (res, gw\<lparr>futures := fs\<rparr>))"

section \<open>The end of sessions\<close>

definition SDK_FINISH_RETRY_S :: rat where
  "SDK_FINISH_RETRY_S = 300"

text \<open>
  Sessions, their sampling sessions and their samples go at once; their models are left to the steps of
  \<open>end_next\<close>, each of which closes one of them and waits for its slot.
\<close>

definition end_sessions :: "rat \<Rightarrow> uid list \<Rightarrow> bool \<Rightarrow> gateway \<Rightarrow> tinker_error + gateway" where
  "end_sessions now sids expired gw =
     (let gone = filter (\<lambda>(sid, s). sid \<in> set sids) (sessions gw);
          cancelled = filter (\<lambda>(r, t). case st_session t of None \<Rightarrow> False | Some sid \<Rightarrow> sid \<in> set sids) (sample_tasks gw)
      in rbind (rfold (\<lambda>(r, t). fail_future now r User_Error) cancelled (futures gw)) (\<lambda>fs.
         Inr (gw\<lparr>futures := fs,
           ended_sessions := fold (\<lambda>(sid, s). AList.update sid \<lparr>es_tenant = sr_tenant s, lease_expired = expired, ended_at = now\<rparr>) gone (ended_sessions gw),
           sessions := filter (\<lambda>(sid, s). sid \<notin> set sids) (sessions gw),
           sampling_sessions := filter (\<lambda>(x, s). ssr_session s \<notin> set sids) (sampling_sessions gw),
           sample_tasks := map (\<lambda>(r, t). (r, if (r, t) \<in> set cancelled then t\<lparr>st_cancelled := True\<rparr> else t)) (sample_tasks gw),
           lock := Ending (map fst (filter (\<lambda>(m, rec). mr_session rec \<in> set sids) (models gw))) User_Error\<rparr>)))"

definition end_next :: "gateway_config \<Rightarrow> rat \<Rightarrow> gateway \<Rightarrow> tinker_error + gateway" where
  "end_next cfg now gw =
     (case lock gw of
        Ending (m # ms) category \<Rightarrow> close_model cfg now m category (gw\<lparr>lock := Ending ms category\<rparr>)
      | Ending [] category \<Rightarrow> Inr (gw\<lparr>lock := Unlocked\<rparr>)
      | _ \<Rightarrow> Inr gw)"

definition expire_sessions :: "gateway_config \<Rightarrow> rat \<Rightarrow> gateway \<Rightarrow> tinker_error + gateway" where
  "expire_sessions cfg now gw =
     (let stale = map fst (filter (\<lambda>(sid, s). lease_timeout_s cfg \<le> now - last_heartbeat s) (sessions gw));
          retention = max (lease_timeout_s cfg) SDK_FINISH_RETRY_S
      in rbind (end_sessions now stale True gw) (\<lambda>gw'.
         Inr (gw'\<lparr>ended_sessions := filter (\<lambda>(sid, e). now - ended_at e < retention) (ended_sessions gw')\<rparr>)))"

definition finish_session :: "rat \<Rightarrow> string \<Rightarrow> uid \<Rightarrow> gateway \<Rightarrow> tinker_error + bool \<times> gateway" where
  "finish_session now tenant sid gw =
     (case map_of (ended_sessions gw) sid of
        Some e \<Rightarrow>
          if es_tenant e = tenant then Inr (\<not> lease_expired e, gw)
          else rbind (session_for tenant sid gw) (\<lambda>_. rbind (end_sessions now [sid] False gw) (\<lambda>gw'. Inr (True, gw')))
      | None \<Rightarrow> rbind (session_for tenant sid gw) (\<lambda>_. rbind (end_sessions now [sid] False gw) (\<lambda>gw'. Inr (True, gw'))))"

end
