(* ===== verification/Tinker_Backend.thy ===== *)
theory Tinker_Backend
  imports Tinker_Service
begin

text \<open>
  The gateway's backend (\<^verbatim>\<open>miles/tinker/runtime.py\<close>): training batches out of the datums of a unit, their
  outputs back, and sampling requests to the engines and their answers.  The trainer's workers and the
  engines are outside: what they answer is an argument.  The data-parallel size of a trainer is positive.
\<close>

section \<open>Training batches\<close>

definition pad_to_dp_multiple :: "nat \<Rightarrow> (nat \<times> obj) list \<Rightarrow> (nat \<times> obj) list" where
  "pad_to_dp_multiple dp_size slot_datums =
     (let remainder = length slot_datums mod dp_size in
      if remainder = 0 then slot_datums
      else let (slot, datum) = last slot_datums
           in slot_datums @ replicate (dp_size - remainder) (slot, dset ''padding'' (JBool True) datum))"

definition DATUM_TO_BATCH_KEYS :: "(string \<times> string) list" where
  "DATUM_TO_BATCH_KEYS = [(''weights'', ''loss_weights''), (''advantages'', ''advantages''), (''sampling_logprobs'', ''rollout_log_probs'')]"

text \<open>\<^verbatim>\<open>[x] * n\<close>.\<close>

fun repeat_count :: "json \<Rightarrow> tinker_error + nat" where
  "repeat_count (JInt n) = Inr (nat n)"
| "repeat_count (JBool b) = Inr (if b then 1 else 0)"
| "repeat_count _ = Inl (Tinker_Raised TypeError)"

definition loss_mask_of :: "obj \<Rightarrow> tinker_error + json" where
  "loss_mask_of datum = rbind (rbind (item datum ''target_len'') repeat_count) (\<lambda>n.
     Inr (JArr (replicate n (JInt (if truthy (dget datum ''padding'') then 0 else 1)))))"

definition batch_column :: "string \<Rightarrow> obj list \<Rightarrow> tinker_error + json" where
  "batch_column key ds = rbind (rmap (\<lambda>datum. item datum key) ds) (\<lambda>vs. Inr (JArr vs))"

definition extra_columns :: "obj list \<Rightarrow> tinker_error + obj" where
  "extra_columns ds = (case ds of
       [] \<Rightarrow> Inl (Tinker_Raised IndexError)
     | first # rest \<Rightarrow> rmap (\<lambda>(key, batch_key). rbind (batch_column key ds) (\<lambda>c. Inr (batch_key, c)))
         (filter (\<lambda>(key, batch_key). dhas first key) DATUM_TO_BATCH_KEYS))"

definition build_train_data :: "(nat \<times> obj) list \<Rightarrow> tinker_error + obj" where
  "build_train_data slot_datums =
     (let ds = map snd slot_datums in
      rbind (batch_column ''tokens'' ds) (\<lambda>tokens.
      rbind (batch_column ''target_tokens'' ds) (\<lambda>targets.
      rbind (rmap loss_mask_of ds) (\<lambda>masks.
      rbind (batch_column ''target_len'' ds) (\<lambda>lens.
      rbind (rmap (\<lambda>d. rbind (rbind (item d ''tokens'') items) (\<lambda>ts. Inr (JInt (int (length ts))))) ds) (\<lambda>totals.
      rbind (extra_columns ds) (\<lambda>extra.
        Inr ([(''tokens'', tokens), (''target_tokens'', targets), (''loss_masks'', JArr masks), (''response_lengths'', lens),
              (''total_lengths'', JArr totals), (''sample_indices'', JArr (map (\<lambda>i. JInt (int i)) [0..<length ds])),
              (''adapter_slots'', JArr (map (\<lambda>(slot, d). JInt (int slot)) slot_datums)),
              (''dynamic_global_batch_size'', JInt (int (length ds)))] @ extra))))))))"

text \<open>
  What a worker answers: an error, or its datums' outputs under their indices in the batch.  The first output
  of an index counts; workers that share a datum repeat it.
\<close>

datatype worker_result = Worker_Error | Per_Datum "(int \<times> obj) list"

definition add_output :: "int \<times> obj \<Rightarrow> (int \<times> obj) list \<Rightarrow> (int \<times> obj) list" where
  "add_output x by_index = (if map_of by_index (fst x) = None then by_index @ [x] else by_index)"

fun gather_outputs :: "worker_result list \<Rightarrow> (int \<times> obj) list \<Rightarrow> (int \<times> obj) list option" where
  "gather_outputs [] by_index = Some by_index"
| "gather_outputs (Worker_Error # rs) by_index = None"
| "gather_outputs (Per_Datum outs # rs) by_index = gather_outputs rs (fold add_output outs by_index)"

text \<open>\<open>answer\<close> is the trainer: what its workers say to the training data of the padded batch.\<close>

definition execute_batch :: "nat \<Rightarrow> (obj \<Rightarrow> worker_result list) \<Rightarrow> string \<Rightarrow> json \<Rightarrow> (nat \<times> obj) list \<Rightarrow> tinker_error + batch_result" where
  "execute_batch dp_size answer loss_fn loss_fn_config slot_datums =
     rbind (build_train_data (pad_to_dp_multiple dp_size slot_datums)) (\<lambda>train_data.
       case gather_outputs (answer (dset ''loss_fn_config'' loss_fn_config (dset ''loss_fn'' (JStr loss_fn) train_data))) [] of
         None \<Rightarrow> Inr Batch_Error
       | Some by_index \<Rightarrow> rbind (rmap (\<lambda>i. case map_of by_index (int i) of None \<Rightarrow> Inl (Tinker_Raised KeyError) | Some out \<Rightarrow> Inr out)
           [0..<length slot_datums]) (\<lambda>outs. Inr (Outputs outs)))"

section \<open>Every datum gets its own output\<close>

lemma map_of_add_output: "map_of (fold add_output outs by_index) i = (case map_of by_index i of Some v \<Rightarrow> Some v | None \<Rightarrow> map_of outs i)"
proof (induction outs arbitrary: by_index)
  case (Cons x outs)
  then show ?case by (cases x) (auto simp: add_output_def map_add_def split: option.splits)
qed (auto split: option.splits)

text \<open>Outputs that say of every index what \<open>out\<close> says.\<close>

definition reports :: "(nat \<Rightarrow> obj) \<Rightarrow> worker_result \<Rightarrow> bool" where
  "reports out w = (case w of Worker_Error \<Rightarrow> False | Per_Datum outs \<Rightarrow> list_all (\<lambda>(i, v). 0 \<le> i \<and> v = out (nat i)) outs)"

definition reported_indices :: "worker_result \<Rightarrow> int set" where
  "reported_indices w = (case w of Worker_Error \<Rightarrow> {} | Per_Datum outs \<Rightarrow> fst ` set outs)"

lemma gather_reports:
  assumes "list_all (reports out) ws" "\<forall>i v. map_of by_index i = Some v \<longrightarrow> v = out (nat i)"
  shows "\<exists>b. gather_outputs ws by_index = Some b \<and> (\<forall>i v. map_of b i = Some v \<longrightarrow> v = out (nat i)) \<and>
    dom (map_of b) = dom (map_of by_index) \<union> \<Union>(reported_indices ` set ws)"
  using assms
proof (induction ws arbitrary: by_index)
  case (Cons w ws)
  then obtain outs where w: "w = Per_Datum outs" "list_all (\<lambda>(i, v). 0 \<le> i \<and> v = out (nat i)) outs"
    by (auto simp: reports_def split: worker_result.splits)
  let ?b = "fold add_output outs by_index"
  have "v = out (nat i)" if "map_of ?b i = Some v" for i v
  proof (cases "map_of by_index i")
    case None
    then have "(i, v) \<in> set outs" using that by (simp add: map_of_add_output map_of_SomeD)
    then show ?thesis using w(2) by (auto simp: list_all_iff)
  next
    case (Some v')
    then show ?thesis using that Cons.prems(2) by (simp add: map_of_add_output)
  qed
  moreover have "i \<in> dom (map_of ?b) \<longleftrightarrow> i \<in> dom (map_of by_index) \<or> i \<in> dom (map_of outs)" for i
    by (simp add: dom_def map_of_add_output split: option.split)
  then have "dom (map_of ?b) = dom (map_of by_index) \<union> fst ` set outs"
    unfolding dom_map_of_conv_image_fst[of outs, symmetric] by blast
  ultimately show ?case using Cons.IH[of ?b] Cons.prems(1) w(1) by (auto simp: reported_indices_def)
qed auto

lemma pad_spec:
  assumes "0 < dp_size" "xs \<noteq> []"
  shows "dp_size dvd length (pad_to_dp_multiple dp_size xs)" "take (length xs) (pad_to_dp_multiple dp_size xs) = xs"
    "x \<in> set (drop (length xs) (pad_to_dp_multiple dp_size xs)) \<Longrightarrow> x = (fst (last xs), dset ''padding'' (JBool True) (snd (last xs)))"
    "length xs \<le> length (pad_to_dp_multiple dp_size xs) \<and> length (pad_to_dp_multiple dp_size xs) < length xs + dp_size"
proof -
  let ?r = "length xs mod dp_size"
  have r: "?r < dp_size" using assms(1) by simp
  have "dp_size dvd length xs + (dp_size - ?r)"
  proof -
    have "length xs + (dp_size - ?r) = length xs div dp_size * dp_size + dp_size"
      using div_mult_mod_eq[of "length xs" dp_size] r by linarith
    then show ?thesis by simp
  qed
  then show "dp_size dvd length (pad_to_dp_multiple dp_size xs)"
    by (auto simp: pad_to_dp_multiple_def Let_def split: prod.splits)
  show "take (length xs) (pad_to_dp_multiple dp_size xs) = xs"
    by (auto simp: pad_to_dp_multiple_def Let_def split: prod.splits)
  show "x = (fst (last xs), dset ''padding'' (JBool True) (snd (last xs)))" if "x \<in> set (drop (length xs) (pad_to_dp_multiple dp_size xs))"
    using that by (auto simp: pad_to_dp_multiple_def Let_def split: prod.splits if_splits)
  show "length xs \<le> length (pad_to_dp_multiple dp_size xs) \<and> length (pad_to_dp_multiple dp_size xs) < length xs + dp_size"
  proof (cases "?r = 0")
    case False
    have "length (pad_to_dp_multiple dp_size xs) = length xs + (dp_size - ?r)"
      using False by (simp add: pad_to_dp_multiple_def Let_def split: prod.split)
    then show ?thesis using r False by linarith
  qed (use assms(1) in \<open>simp add: pad_to_dp_multiple_def\<close>)
qed

lemma loss_masks:
  assumes "build_train_data xs = Inr td"
  shows "\<exists>masks. map_of td ''loss_masks'' = Some (JArr masks) \<and> list_all2 (\<lambda>x m. \<exists>n. item (snd x) ''target_len'' = Inr n \<and>
    (\<exists>k. repeat_count n = Inr k \<and> m = JArr (replicate k (JInt (if truthy (dget (snd x) ''padding'') then 0 else 1))))) xs masks"
proof -
  obtain tokens targets masks rest where td: "td = [(''tokens'', tokens), (''target_tokens'', targets), (''loss_masks'', JArr masks)] @ rest"
    and m: "rmap loss_mask_of (map snd xs) = Inr masks"
    using assms by (auto simp: build_train_data_def Let_def result_simps)
  have "list_all2 (\<lambda>x m. loss_mask_of (snd x) = Inr m) xs masks"
    using m by (simp add: rmap_Inr_iff list_all2_map1)
  then have "list_all2 (\<lambda>x m. \<exists>n. item (snd x) ''target_len'' = Inr n \<and>
    (\<exists>k. repeat_count n = Inr k \<and> m = JArr (replicate k (JInt (if truthy (dget (snd x) ''padding'') then 0 else 1))))) xs masks"
    by (rule list_all2_mono) (auto simp: loss_mask_of_def result_simps)
  then show ?thesis using td by simp
qed

lemma padded_padding:
  assumes "0 < dp_size" "xs \<noteq> []" "list_all (\<lambda>x. \<not> truthy (dget (snd x) ''padding'')) xs" "i < length (pad_to_dp_multiple dp_size xs)"
  shows "truthy (dget (snd (pad_to_dp_multiple dp_size xs ! i)) ''padding'') \<longleftrightarrow> length xs \<le> i"
proof (cases "i < length xs")
  case True
  then have "pad_to_dp_multiple dp_size xs ! i = xs ! i" using pad_spec(2)[OF assms(1,2)] by (metis nth_take)
  then show ?thesis using assms(3) True by (simp add: list_all_length)
next
  case False
  then have "pad_to_dp_multiple dp_size xs ! i \<in> set (drop (length xs) (pad_to_dp_multiple dp_size xs))"
    using assms(4) pad_spec(4)[OF assms(1,2)] by (auto simp: in_set_conv_nth intro!: exI[of _ "i - length xs"])
  then have filler: "pad_to_dp_multiple dp_size xs ! i = (fst (last xs), dset ''padding'' (JBool True) (snd (last xs)))"
    by (rule pad_spec(3)[OF assms(1,2)])
  show ?thesis using False unfolding filler by (simp add: dict_simps)
qed

text \<open>
  C11. Every datum gets its own output.  A batch is padded to equal shares for the data-parallel ranks by
  fewer fillers than there are ranks, and the fillers' loss masks are zero while those of the datums are
  one.  However the workers divide the padded batch, and also when several of them report the same datum,
  if they report on all of it then the backend's answer has one output per datum of the unit, in the order
  of the unit, and nothing of the fillers.
\<close>

theorem batches_answer_every_datum:
  assumes "0 < dp_size" "slot_datums \<noteq> []" "list_all (\<lambda>x. \<not> truthy (dget (snd x) ''padding'')) slot_datums"
    and "build_train_data (pad_to_dp_multiple dp_size slot_datums) = Inr train_data"
    and "list_all (reports out) (answer (dset ''loss_fn_config'' loss_fn_config (dset ''loss_fn'' (JStr loss_fn) train_data)))"
    and "{0..<int (length (pad_to_dp_multiple dp_size slot_datums))} \<subseteq> \<Union>(reported_indices ` set (answer (dset ''loss_fn_config'' loss_fn_config (dset ''loss_fn'' (JStr loss_fn) train_data))))"
  shows "execute_batch dp_size answer loss_fn loss_fn_config slot_datums = Inr (Outputs (map out [0..<length slot_datums])) \<and>
         dp_size dvd length (pad_to_dp_multiple dp_size slot_datums) \<and>
         length (pad_to_dp_multiple dp_size slot_datums) < length slot_datums + dp_size \<and>
         (\<exists>masks. map_of train_data ''loss_masks'' = Some (JArr masks) \<and> length masks = length (pad_to_dp_multiple dp_size slot_datums) \<and>
            (\<forall>i < length masks. \<exists>k. masks ! i = JArr (replicate k (JInt (if i < length slot_datums then 1 else 0)))))"
proof -
  let ?padded = "pad_to_dp_multiple dp_size slot_datums"
  obtain by_index where g: "gather_outputs (answer (dset ''loss_fn_config'' loss_fn_config (dset ''loss_fn'' (JStr loss_fn) train_data))) [] = Some by_index"
    "\<And>i v. map_of by_index i = Some v \<Longrightarrow> v = out (nat i)" "dom (map_of by_index) = \<Union>(reported_indices ` set (answer (dset ''loss_fn_config'' loss_fn_config (dset ''loss_fn'' (JStr loss_fn) train_data))))"
    using gather_reports[OF assms(5), of "[]"] by auto
  note P = pad_spec[OF assms(1,2)]
  have "map_of by_index (int i) = Some (out i)" if "i < length slot_datums" for i
  proof -
    have "int i \<in> {0..<int (length ?padded)}" using that P(4) by simp
    then have "int i \<in> dom (map_of by_index)" using assms(6) unfolding g(3) by (rule rev_subsetD)
    then obtain v where "map_of by_index (int i) = Some v" by blast
    then show ?thesis using g(2) by fastforce
  qed
  then have "rmap (\<lambda>i. case map_of by_index (int i) of None \<Rightarrow> Inl (Tinker_Raised KeyError) | Some out \<Rightarrow> Inr out) [0..<length slot_datums]
    = Inr (map out [0..<length slot_datums])"
    by (simp add: rmap_Inr_iff list_all2_conv_all_nth)
  then have answer: "execute_batch dp_size answer loss_fn loss_fn_config slot_datums = Inr (Outputs (map out [0..<length slot_datums]))"
    using assms(4) g(1) by (simp add: execute_batch_def)
  obtain masks where m: "map_of train_data ''loss_masks'' = Some (JArr masks)" "list_all2 (\<lambda>x m. \<exists>n. item (snd x) ''target_len'' = Inr n \<and>
    (\<exists>k. repeat_count n = Inr k \<and> m = JArr (replicate k (JInt (if truthy (dget (snd x) ''padding'') then 0 else 1))))) ?padded masks"
    using loss_masks[OF assms(4)] by blast
  have len: "length masks = length ?padded" using m(2) by (simp add: list_all2_lengthD)
  have "\<exists>k. masks ! i = JArr (replicate k (JInt (if i < length slot_datums then 1 else 0)))" if i: "i < length masks" for i
  proof -
    have "\<exists>k. masks ! i = JArr (replicate k (JInt (if truthy (dget (snd (?padded ! i)) ''padding'') then 0 else 1)))"
      using list_all2_nthD2[OF m(2) i] by blast
    moreover have "truthy (dget (snd (?padded ! i)) ''padding'') \<longleftrightarrow> \<not> i < length slot_datums"
      using padded_padding[OF assms(1-3), of i] i len by (simp add: linorder_not_less)
    ultimately show ?thesis by (cases "i < length slot_datums") simp_all
  qed
  then show ?thesis using answer P(1,4) m(1) len by blast
qed

definition demo_unit_datum :: obj where
  "demo_unit_datum = [(''tokens'', JArr [JInt 1, JInt 2]), (''target_tokens'', JArr [JInt 2]), (''target_len'', JInt 1), (''weights'', JArr [JFloat 1])]"

definition demo_worker :: "obj \<Rightarrow> worker_result list" where
  "demo_worker train_data = [Per_Datum [(1, [(''loss'', JInt 1)])], Per_Datum [(0, [(''loss'', JInt 0)]), (1, [(''loss'', JInt 1)])]]"

theorem batches_answer_every_datum_witness:
  "execute_batch 2 demo_worker ''cross_entropy'' (JObj []) [(3, demo_unit_datum)] = Inr (Outputs [[(''loss'', JInt 0)]])"
proof -
  have pad: "pad_to_dp_multiple 2 [(3, demo_unit_datum)] = [(3, demo_unit_datum), (3, dset ''padding'' (JBool True) demo_unit_datum)]" by code_simp
  obtain td where td: "build_train_data (pad_to_dp_multiple 2 [(3, demo_unit_datum)]) = Inr td"
  proof (cases "build_train_data (pad_to_dp_multiple 2 [(3, demo_unit_datum)])")
    case (Inl e)
    have "(case build_train_data (pad_to_dp_multiple 2 [(3, demo_unit_datum)]) of Inl e \<Rightarrow> False | Inr td \<Rightarrow> True)" by code_simp
    then show ?thesis using Inl by simp
  qed
  let ?out = "\<lambda>i. [(''loss'', JInt (int i))]"
  have "list_all (reports ?out) (demo_worker (dset ''loss_fn_config'' (JObj []) (dset ''loss_fn'' (JStr ''cross_entropy'') td)))" by (simp add: demo_worker_def reports_def)
  moreover have "{0..<int (length (pad_to_dp_multiple 2 [(3, demo_unit_datum)]))} \<subseteq> \<Union>(reported_indices ` set (demo_worker (dset ''loss_fn_config'' (JObj []) (dset ''loss_fn'' (JStr ''cross_entropy'') td))))"
    by (auto simp: pad demo_worker_def reported_indices_def)
  moreover have "\<not> truthy (dget demo_unit_datum ''padding'')" by code_simp
  ultimately show ?thesis using batches_answer_every_datum[OF _ _ _ td, where out = ?out and answer = demo_worker and loss_fn = "''cross_entropy''" and loss_fn_config = "JObj []"] by simp
qed

end
