(* ===== verification/Tinker_Sampling.thy ===== *)
theory Tinker_Sampling
  imports Tinker_Backend
begin

text \<open>
  Sampling through the gateway's backend (\<^verbatim>\<open>miles/tinker/runtime.py\<close>): the request an engine gets for each
  sample, and the one answer the gateway makes of all the engines' answers.  The engines and the network are
  outside: what a request is answered with, and the order in which the answers arrive, are arguments.
  \<^verbatim>\<open>JNull\<close> stands for a NaN among log-probabilities, which JSON values lack; numbers that are spelled as
  texts do not occur among the engines' log-probabilities.  \<^verbatim>\<open>topk_prompt_logprobs\<close> is an admitted count, so
  not negative, and the text of an aborted sample's error is shortened.
\<close>

section \<open>Requests\<close>

definition stop_params :: "json \<Rightarrow> obj \<Rightarrow> obj" where
  "stop_params stop params = (case stop of
       JNull \<Rightarrow> params
     | JArr [] \<Rightarrow> dset ''ignore_eos'' (JBool True) params
     | JArr (JInt i # rest) \<Rightarrow> dset ''stop_token_ids'' stop params
     | JArr (JBool b # rest) \<Rightarrow> dset ''stop_token_ids'' stop params
     | _ \<Rightarrow> dset ''stop'' stop params)"

definition engine_params :: "json \<Rightarrow> tinker_error + obj" where
  "engine_params params =
     rbind (subscript params ''max_tokens'') (\<lambda>max_tokens.
     rbind (subscript params ''temperature'') (\<lambda>temperature.
     rbind (subscript params ''top_p'') (\<lambda>top_p.
     rbind (subscript params ''top_k'') (\<lambda>top_k.
     rbind (subscript params ''seed'') (\<lambda>seed.
     rbind (subscript params ''stop'') (\<lambda>stop.
       let base = [(''max_new_tokens'', max_tokens), (''temperature'', temperature), (''top_p'', top_p), (''top_k'', top_k)]
       in Inr (stop_params stop (if seed = JNull then base else dset ''sampling_seed'' seed base))))))))"

definition lora_fields :: "string option \<Rightarrow> string option \<Rightarrow> obj \<Rightarrow> obj" where
  "lora_fields lora_name lora_path request = (case lora_name of
       None \<Rightarrow> request
     | Some name \<Rightarrow> (case lora_path of
           None \<Rightarrow> dset ''lora_path'' (JStr name) request
         | Some path \<Rightarrow> dset ''lora_backfill_paths'' (JObj [(name, JStr path)]) (dset ''lora_path'' (JStr name) request)))"

definition generate_request :: "obj \<Rightarrow> string option \<Rightarrow> string option \<Rightarrow> tinker_error + obj" where
  "generate_request payload lora_name lora_path =
     rbind (rbind (item payload ''sampling_params'') engine_params) (\<lambda>params.
     rbind (item payload ''prompt_tokens'') (\<lambda>tokens.
     rbind (item payload ''prompt_logprobs'') (\<lambda>scores.
     rbind (item payload ''topk_prompt_logprobs'') (\<lambda>topk.
       let request = [(''input_ids'', tokens), (''sampling_params'', JObj params), (''return_logprob'', JBool True)];
           from_start = (if truthy scores \<or> truthy topk then dset ''logprob_start_len'' (JInt 0) request else request);
           with_topk = (if truthy topk then dset ''top_logprobs_num'' topk from_start else from_start)
       in Inr (lora_fields lora_name lora_path with_topk)))))"

fun add_to_seed :: "json \<Rightarrow> nat \<Rightarrow> tinker_error + json" where
  "add_to_seed (JInt s) i = Inr (JInt (s + int i))"
| "add_to_seed (JBool b) i = Inr (JInt ((if b then 1 else 0) + int i))"
| "add_to_seed (JFloat r) i = Inr (JFloat (r + of_nat i))"
| "add_to_seed _ i = Inl (Tinker_Raised TypeError)"

definition with_sample_seed :: "obj \<Rightarrow> nat \<Rightarrow> tinker_error + obj" where
  "with_sample_seed request index =
     rbind (rbind (item request ''sampling_params'') (\<lambda>v. case v of JObj d \<Rightarrow> Inr d | _ \<Rightarrow> Inl (Tinker_Raised TypeError))) (\<lambda>params.
       if dget params ''sampling_seed'' = JNull then Inr (dset ''sampling_params'' (JObj params) request)
       else rbind (add_to_seed (dget params ''sampling_seed'') index) (\<lambda>seed.
         Inr (dset ''sampling_params'' (JObj (dset ''sampling_seed'' seed params)) request)))"

section \<open>Answers\<close>

text \<open>\<^verbatim>\<open>value[i]\<close> for a small index, and \<^verbatim>\<open>float(value)\<close>.\<close>

fun nth_item :: "json \<Rightarrow> nat \<Rightarrow> tinker_error + json" where
  "nth_item (JArr xs) i = (if i < length xs then Inr (xs ! i) else Inl (Tinker_Raised IndexError))"
| "nth_item (JStr s) i = (if i < length s then Inr (JStr [s ! i]) else Inl (Tinker_Raised IndexError))"
| "nth_item (JObj d) i = Inl (Tinker_Raised KeyError)"
| "nth_item _ i = Inl (Tinker_Raised TypeError)"

fun as_float :: "json \<Rightarrow> tinker_error + json" where
  "as_float (JFloat r) = Inr (JFloat r)"
| "as_float (JInt i) = rbind (require_finite (JInt i)) (\<lambda>_. Inr (JFloat (of_int i)))"
| "as_float (JBool b) = Inr (JFloat (if b then 1 else 0))"
| "as_float (JStr s) = Inl (Tinker_Raised ValueError)"
| "as_float _ = Inl (Tinker_Raised TypeError)"

definition meta_field :: "json \<Rightarrow> string \<Rightarrow> tinker_error + json" where
  "meta_field response key = rbind (subscript response ''meta_info'') (\<lambda>m. subscript m key)"

definition prompt_logprobs :: "json \<Rightarrow> tinker_error + json list" where
  "prompt_logprobs response =
     rbind (rbind (meta_field response ''input_token_logprobs'') items)
       (rmap (\<lambda>e. rbind (nth_item e 0) (\<lambda>v. if v = JNull then Inr JNull else as_float v)))"

text \<open>A position's candidates, cut to \<open>k\<close> and filled up to \<open>k\<close>.\<close>

definition fit_to :: "nat \<Rightarrow> 'a \<Rightarrow> 'a list \<Rightarrow> 'a list" where
  "fit_to k fill xs = take k xs @ replicate (k - length (take k xs)) fill"

definition topk_position :: "json \<Rightarrow> nat \<Rightarrow> json \<Rightarrow> tinker_error + json list \<times> json list" where
  "topk_position mask_logprob k position =
     rbind (if truthy position then items position else Inr []) (\<lambda>candidates.
     rbind (rmap (\<lambda>e. nth_item e 1) candidates) (\<lambda>token_ids.
     rbind (rmap (\<lambda>e. rbind (nth_item e 0) as_float) candidates) (\<lambda>logprobs.
       Inr (fit_to k (JInt 0) token_ids, fit_to k mask_logprob logprobs))))"

definition topk_prompt_logprobs :: "json \<Rightarrow> json \<Rightarrow> nat \<Rightarrow> tinker_error + (json list \<times> json list) list" where
  "topk_prompt_logprobs mask_logprob response k =
     rbind (rbind (meta_field response ''input_top_logprobs'') items) (rmap (topk_position mask_logprob k))"

definition topk_obj :: "(json list \<times> json list) list \<Rightarrow> json" where
  "topk_obj rows = JObj [(''token_ids'', JArr (map (\<lambda>r. JArr (fst r)) rows)), (''logprobs'', JArr (map (\<lambda>r. JArr (snd r)) rows))]"

definition to_sequence :: "json \<Rightarrow> tinker_error + obj" where
  "to_sequence response =
     rbind (meta_field response ''output_token_logprobs'') (\<lambda>out.
     rbind (rbind (meta_field response ''finish_reason'') (\<lambda>reason. subscript reason ''type'')) (\<lambda>finish.
       if finish = JStr ''abort'' then Inr [(''error'', JStr ''aborted'')]
       else rbind (items out) (\<lambda>es.
         rbind (rmap (\<lambda>e. nth_item e 1) es) (\<lambda>tokens.
         rbind (rmap (\<lambda>e. nth_item e 0) es) (\<lambda>logprobs.
           Inr [(''tokens'', JArr tokens), (''logprobs'', JArr logprobs),
                (''stop_reason'', JStr (if finish = JStr ''length'' then ''length'' else ''stop''))])))))"

text \<open>
  What a post to the router ends with.  \<^verbatim>\<open>asyncio.gather\<close> raises the failure that arrives first, and waits
  for every answer otherwise; \<open>arrival\<close> lists the samples as their answers arrive.
\<close>

datatype engine_answer = Engine_Response json | Engine_Status int | Engine_Unreachable

fun response_of :: "engine_answer \<Rightarrow> engine_answer + json" where
  "response_of (Engine_Response v) = Inr v"
| "response_of a = Inl a"

definition gather :: "nat list \<Rightarrow> engine_answer list \<Rightarrow> engine_answer + json list" where
  "gather arrival answers = (case rmap (\<lambda>i. response_of (answers ! i)) arrival of
       Inl failure \<Rightarrow> Inl failure
     | Inr _ \<Rightarrow> rmap response_of answers)"

definition user_fault :: "engine_answer \<Rightarrow> bool" where
  "user_fault a = (case a of Engine_Status code \<Rightarrow> 400 \<le> code \<and> code < 500 \<and> code \<notin> {408, 429} | _ \<Rightarrow> False)"

definition sample_result :: "json \<Rightarrow> obj \<Rightarrow> json list \<Rightarrow> tinker_error + sample_answer" where
  "sample_result mask_logprob payload responses =
     rbind (rmap to_sequence responses) (\<lambda>sequences.
       if list_ex (\<lambda>q. dhas q ''error'') sequences then Inr Sample_Error
       else
         rbind (item payload ''prompt_logprobs'') (\<lambda>scores.
         rbind (if truthy scores then (case responses of [] \<Rightarrow> Inl (Tinker_Raised IndexError)
             | r # _ \<Rightarrow> rbind (prompt_logprobs r) (\<lambda>ps. Inr [(''prompt_logprobs'', JArr ps)])) else Inr []) (\<lambda>scored.
         rbind (item payload ''topk_prompt_logprobs'') (\<lambda>topk.
         rbind (if truthy topk then (case responses of [] \<Rightarrow> Inl (Tinker_Raised IndexError)
             | r # _ \<Rightarrow> rbind (repeat_count topk) (\<lambda>k. rbind (topk_prompt_logprobs mask_logprob r k) (\<lambda>rows.
                 Inr [(''topk_prompt_logprobs'', topk_obj rows)]))) else Inr []) (\<lambda>ranked.
           Inr (Sample_Result ([(''sequences'', JArr (map JObj sequences))] @ scored @ ranked)))))))"

definition backend_sample :: "json \<Rightarrow> (nat \<Rightarrow> obj \<Rightarrow> engine_answer) \<Rightarrow> nat list \<Rightarrow> obj \<Rightarrow> string option \<Rightarrow> string option \<Rightarrow> tinker_error + sample_answer" where
  "backend_sample mask_logprob engine arrival payload lora_name lora_path =
     rbind (generate_request payload lora_name lora_path) (\<lambda>request.
     rbind (rbind (item payload ''num_samples'') repeat_count) (\<lambda>n.
     rbind (rmap (with_sample_seed request) [0..<n]) (\<lambda>requests.
       case gather arrival (map2 engine [0..<n] requests) of
         Inl failure \<Rightarrow> if user_fault failure then Inl UserInputError else Inr Sample_Error
       | Inr responses \<Rightarrow> sample_result mask_logprob payload responses)))"


section \<open>Every sample is answered\<close>

text \<open>An admitted payload as it is decoded, for \<open>n\<close> samples and \<open>k\<close> candidates per prompt position.\<close>

definition seed_of :: "obj \<Rightarrow> json" where
  "seed_of payload = dget (as_obj (dget payload ''sampling_params'')) ''seed''"

definition sampling_decoded :: "obj \<Rightarrow> nat \<Rightarrow> nat \<Rightarrow> bool" where
  "sampling_decoded payload n k \<longleftrightarrow>
     is_obj (dget payload ''sampling_params'') \<and>
     list_all (dhas (as_obj (dget payload ''sampling_params''))) [''max_tokens'', ''temperature'', ''top_p'', ''top_k'', ''seed'', ''stop''] \<and>
     list_all (dhas payload) [''prompt_tokens'', ''prompt_logprobs''] \<and>
     (seed_of payload = JNull \<or> (\<exists>s. seed_of payload = JInt s)) \<and>
     dget payload ''num_samples'' = JInt (int n) \<and> dget payload ''topk_prompt_logprobs'' = JInt (int k)"

text \<open>What an engine answers: one entry per sampled token, and the scores of the prompt that were asked for.\<close>

fun token_entry :: "json \<Rightarrow> bool" where
  "token_entry (JArr (JFloat r # token # rest)) = True"
| "token_entry _ = False"

fun prompt_entry :: "json \<Rightarrow> bool" where
  "prompt_entry (JArr (JFloat r # rest)) = True"
| "prompt_entry (JArr (JNull # rest)) = True"
| "prompt_entry _ = False"

fun array_of :: "(json \<Rightarrow> bool) \<Rightarrow> json \<Rightarrow> bool" where
  "array_of ok (JArr xs) = list_all ok xs"
| "array_of ok _ = False"

definition reply_meta :: "json \<Rightarrow> obj" where
  "reply_meta response = as_obj (dget (as_obj response) ''meta_info'')"

definition reply_ok :: "obj \<Rightarrow> json \<Rightarrow> bool" where
  "reply_ok payload v \<longleftrightarrow> is_obj v \<and> is_obj (dget (as_obj v) ''meta_info'') \<and>
     array_of token_entry (dget (reply_meta v) ''output_token_logprobs'') \<and>
     is_obj (dget (reply_meta v) ''finish_reason'') \<and> dhas (as_obj (dget (reply_meta v) ''finish_reason'')) ''type'' \<and>
     (truthy (dget payload ''prompt_logprobs'') \<longrightarrow> array_of prompt_entry (dget (reply_meta v) ''input_token_logprobs'')) \<and>
     (truthy (dget payload ''topk_prompt_logprobs'') \<longrightarrow>
        array_of (\<lambda>p. p = JNull \<or> array_of token_entry p) (dget (reply_meta v) ''input_top_logprobs''))"

definition aborted :: "json \<Rightarrow> bool" where
  "aborted v \<longleftrightarrow> dget (as_obj (dget (reply_meta v) ''finish_reason'')) ''type'' = JStr ''abort''"

lemma item_dget: "dhas d k \<Longrightarrow> item d k = Inr (dget d k)"
  by (auto simp: dhas_def item_def dget_def split: option.splits)

lemma item_of_dget: "dget d k = v \<Longrightarrow> v \<noteq> JNull \<Longrightarrow> item d k = Inr v"
  by (auto simp: item_def dget_def split: option.splits)

lemma dget_Cons: "dget ((k, v) # d) k' = (if k' = k then v else dget d k')" "dget [] k' = JNull"
  by (auto simp: dget_def)

lemma is_objE: "is_obj v \<Longrightarrow> (\<And>d. v = JObj d \<Longrightarrow> P) \<Longrightarrow> P"
  by (cases v) auto

lemma array_ofE: "array_of ok v \<Longrightarrow> (\<And>xs. v = JArr xs \<Longrightarrow> list_all ok xs \<Longrightarrow> P) \<Longrightarrow> P"
  by (cases v) auto

lemma token_entryE: "token_entry e \<Longrightarrow> (\<And>r token rest. e = JArr (JFloat r # token # rest) \<Longrightarrow> P) \<Longrightarrow> P"
  by (cases e rule: token_entry.cases) auto

lemma prompt_entryE: "prompt_entry e \<Longrightarrow> (\<And>v rest. e = JArr (v # rest) \<Longrightarrow> v = JNull \<or> (\<exists>r. v = JFloat r) \<Longrightarrow> P) \<Longrightarrow> P"
  by (cases e rule: prompt_entry.cases) auto

lemma meta_field_obj:
  assumes "is_obj v" "is_obj (dget (as_obj v) ''meta_info'')" "dget (reply_meta v) key \<noteq> JNull"
  shows "meta_field v key = Inr (dget (reply_meta v) key)"
proof -
  obtain d where d: "v = JObj d" using assms(1) by (rule is_objE)
  obtain m where m: "dget d ''meta_info'' = JObj m" using assms(2) d by (auto elim: is_objE)
  show ?thesis using d m assms(3) item_of_dget[of d "''meta_info''" "JObj m"] item_of_dget[of m key] by (simp add: meta_field_def reply_meta_def)
qed

lemma rmap_defined: "list_all ok xs \<Longrightarrow> (\<And>x. ok x \<Longrightarrow> \<exists>y. f x = Inr y) \<Longrightarrow> \<exists>ys. rmap f xs = Inr ys"
proof (induction xs)
  case (Cons x xs)
  then obtain y where "f x = Inr y" by fastforce
  then show ?case using Cons by auto
qed simp

lemma token_items: "token_entry e \<Longrightarrow> \<exists>y. nth_item e (Suc 0) = Inr y" "token_entry e \<Longrightarrow> \<exists>y. nth_item e 0 = Inr y"
  "token_entry e \<Longrightarrow> \<exists>y. rbind (nth_item e 0) as_float = Inr y"
  by (auto elim!: token_entryE)

lemma token_entries:
  assumes "list_all token_entry es"
  shows "\<exists>ys. rmap (\<lambda>e. nth_item e (Suc 0)) es = Inr ys" "\<exists>ys. rmap (\<lambda>e. nth_item e 0) es = Inr ys"
    "\<exists>ys. rmap (\<lambda>e. rbind (nth_item e 0) as_float) es = Inr ys"
  by (rule rmap_defined[OF assms], erule token_items)+

lemma prompt_item: "prompt_entry e \<Longrightarrow> \<exists>y. rbind (nth_item e 0) (\<lambda>v. if v = JNull then Inr JNull else as_float v) = Inr y"
  by (auto elim!: prompt_entryE)

lemma array_not_null: "array_of ok v \<Longrightarrow> v \<noteq> JNull"
  by auto

lemma to_sequence_ok:
  assumes "reply_ok payload v"
  shows "\<exists>q. to_sequence v = Inr q \<and> (dhas q ''error'' \<longleftrightarrow> aborted v)"
proof -
  have o: "is_obj v" "is_obj (dget (as_obj v) ''meta_info'')" using assms by (auto simp: reply_ok_def)
  obtain es where es: "dget (reply_meta v) ''output_token_logprobs'' = JArr es" "list_all token_entry es"
    using assms by (auto simp: reply_ok_def elim: array_ofE)
  obtain f where f: "dget (reply_meta v) ''finish_reason'' = JObj f" "dhas f ''type''" using assms by (auto simp: reply_ok_def elim: is_objE)
  obtain ts ps where entries: "rmap (\<lambda>e. nth_item e (Suc 0)) es = Inr ts" "rmap (\<lambda>e. nth_item e 0) es = Inr ps"
    using token_entries[OF es(2)] by blast
  show ?thesis using entries meta_field_obj[OF o, of "''output_token_logprobs''"] meta_field_obj[OF o, of "''finish_reason''"] es f
    by (simp add: to_sequence_def item_dget aborted_def dhas_def)
qed

lemma prompt_logprobs_ok:
  assumes "reply_ok payload v" "truthy (dget payload ''prompt_logprobs'')"
  shows "\<exists>ps. prompt_logprobs v = Inr ps"
proof -
  have o: "is_obj v" "is_obj (dget (as_obj v) ''meta_info'')" using assms by (auto simp: reply_ok_def)
  obtain es where es: "dget (reply_meta v) ''input_token_logprobs'' = JArr es" "list_all prompt_entry es"
    using assms by (auto simp: reply_ok_def elim: array_ofE)
  show ?thesis using rmap_defined[OF es(2) prompt_item] meta_field_obj[OF o, of "''input_token_logprobs''"] es by (simp add: prompt_logprobs_def)
qed

lemma fit_to_length [simp]: "length (fit_to k fill xs) = k"
  by (simp add: fit_to_def)

lemma topk_prompt_ok:
  assumes "reply_ok payload v" "truthy (dget payload ''topk_prompt_logprobs'')"
  shows "\<exists>rows. topk_prompt_logprobs mask_logprob v k = Inr rows \<and> list_all (\<lambda>(ids, ps). length ids = k \<and> length ps = k) rows"
proof -
  have o: "is_obj v" "is_obj (dget (as_obj v) ''meta_info'')" using assms by (auto simp: reply_ok_def)
  obtain es where es: "dget (reply_meta v) ''input_top_logprobs'' = JArr es" "list_all (\<lambda>p. p = JNull \<or> array_of token_entry p) es"
    using assms by (auto simp: reply_ok_def elim: array_ofE)
  have row: "\<exists>ids ps. topk_position mask_logprob k p = Inr (ids, ps)" if "p = JNull \<or> array_of token_entry p" for p
  proof -
    have "\<exists>cs. (if truthy p then items p else Inr []) = Inr cs \<and> list_all token_entry cs" using that by (cases p) auto
    then obtain cs where cs: "(if truthy p then items p else Inr []) = Inr cs" "list_all token_entry cs" by blast
    show ?thesis using cs(1) token_entries[OF cs(2)] by (auto simp: topk_position_def)
  qed
  obtain rows where rows: "rmap (topk_position mask_logprob k) es = Inr rows"
    using rmap_defined[OF es(2), of "topk_position mask_logprob k"] row by (metis old.prod.exhaust)
  have width: "length (fst r) = k \<and> length (snd r) = k" if "topk_position mask_logprob k p = Inr r" for p r
    using that by (auto simp: topk_position_def result_simps)
  have "length (fst (rows ! i)) = k \<and> length (snd (rows ! i)) = k" if "i < length rows" for i
  proof -
    have "topk_position mask_logprob k (es ! i) = Inr (rows ! i)" using rows that by (simp add: rmap_Inr_iff list_all2_conv_all_nth)
    then show ?thesis by (rule width)
  qed
  then have "list_all (\<lambda>(ids, ps). length ids = k \<and> length ps = k) rows" by (simp add: list_all_length split_beta)
  then show ?thesis using rows meta_field_obj[OF o, of "''input_top_logprobs''"] es by (simp add: topk_prompt_logprobs_def)
qed


text \<open>The request of sample \<open>i\<close>: the payload's prompt and adapter, and a pinned seed moved by \<open>i\<close>.\<close>

definition request_for :: "obj \<Rightarrow> string option \<Rightarrow> nat \<Rightarrow> obj \<Rightarrow> bool" where
  "request_for payload lora_name i r \<longleftrightarrow>
     dget r ''input_ids'' = dget payload ''prompt_tokens'' \<and>
     dget r ''lora_path'' = (case lora_name of None \<Rightarrow> JNull | Some name \<Rightarrow> JStr name) \<and>
     dget (as_obj (dget r ''sampling_params'')) ''sampling_seed'' = (case seed_of payload of JInt s \<Rightarrow> JInt (s + int i) | _ \<Rightarrow> JNull)"

lemma stop_params_seed: "dget (stop_params stop d) ''sampling_seed'' = dget d ''sampling_seed''"
  by (auto simp: stop_params_def dict_simps split: json.splits list.splits)

lemma lora_fields_get:
  "dget (lora_fields lora_name lora_path r) ''sampling_params'' = dget r ''sampling_params''"
  "dget (lora_fields lora_name lora_path r) ''input_ids'' = dget r ''input_ids''"
  "dget r ''lora_path'' = JNull \<Longrightarrow>
     dget (lora_fields lora_name lora_path r) ''lora_path'' = (case lora_name of None \<Rightarrow> JNull | Some name \<Rightarrow> JStr name)"
  by (auto simp: lora_fields_def dict_simps split: option.splits)

lemma engine_params_ok:
  assumes "list_all (dhas d) [''max_tokens'', ''temperature'', ''top_p'', ''top_k'', ''seed'', ''stop'']"
  shows "\<exists>params. engine_params (JObj d) = Inr params \<and> dget params ''sampling_seed'' = dget d ''seed''"
  using assms by (auto simp: engine_params_def item_dget stop_params_seed dget_update dget_Cons Let_def)

lemma generate_ok:
  assumes dec: "sampling_decoded payload n k"
  shows "\<exists>request params. generate_request payload lora_name lora_path = Inr request \<and> dget request ''sampling_params'' = JObj params \<and>
    dget params ''sampling_seed'' = seed_of payload \<and> dget request ''input_ids'' = dget payload ''prompt_tokens'' \<and>
    dget request ''lora_path'' = (case lora_name of None \<Rightarrow> JNull | Some name \<Rightarrow> JStr name)"
proof -
  obtain d where d: "dget payload ''sampling_params'' = JObj d" using dec by (auto simp: sampling_decoded_def elim: is_objE)
  obtain params where params: "engine_params (JObj d) = Inr params" "dget params ''sampling_seed'' = dget d ''seed''"
    using engine_params_ok[of d] dec d by (auto simp: sampling_decoded_def)
  have get: "item payload ''sampling_params'' = Inr (JObj d)" "item payload ''topk_prompt_logprobs'' = Inr (JInt (int k))"
    "item payload ''prompt_tokens'' = Inr (dget payload ''prompt_tokens'')" "item payload ''prompt_logprobs'' = Inr (dget payload ''prompt_logprobs'')"
    using d dec by (auto simp: sampling_decoded_def item_dget intro: item_of_dget)
  show ?thesis using params d
    by (simp add: generate_request_def get Let_def lora_fields_get seed_of_def dget_update dget_Cons)
qed

lemma seed_ok:
  assumes "dget request ''sampling_params'' = JObj params" "dget params ''sampling_seed'' = seed_of payload"
    "seed_of payload = JNull \<or> (\<exists>s. seed_of payload = JInt s)" "dget request ''input_ids'' = dget payload ''prompt_tokens''"
    "dget request ''lora_path'' = (case lora_name of None \<Rightarrow> JNull | Some name \<Rightarrow> JStr name)"
  shows "\<exists>r. with_sample_seed request i = Inr r \<and> request_for payload lora_name i r"
  using assms item_of_dget[OF assms(1)] by (auto simp: with_sample_seed_def request_for_def dict_simps)

lemma gather_cases:
  assumes "set arrival = {..<length answers}"
  shows "(\<exists>vs. answers = map Engine_Response vs \<and> gather arrival answers = Inr vs) \<or>
    (\<exists>a \<in> set answers. (\<forall>v. a \<noteq> Engine_Response v) \<and> gather arrival answers = Inl a)"
proof (cases "rmap (\<lambda>i. response_of (answers ! i)) arrival")
  case (Inl a)
  have "\<exists>i \<in> set is. response_of (answers ! i) = Inl a" if "rmap (\<lambda>i. response_of (answers ! i)) is = Inl a" for "is"
    using that by (induction "is") (auto simp: rbind_Inl_iff)
  then obtain i where i: "i \<in> set arrival" "response_of (answers ! i) = Inl a" using Inl by blast
  then have "a = answers ! i" "\<forall>v. a \<noteq> Engine_Response v" by (cases "answers ! i"; auto)+
  then show ?thesis using i(1) assms Inl by (auto simp: gather_def)
next
  case (Inr vs)
  have "\<exists>v. x = Engine_Response v" if x: "x \<in> set answers" for x
  proof -
    obtain i where i: "i \<in> set arrival" "x = answers ! i" using x assms by (auto simp: in_set_conv_nth)
    have "\<exists>v. response_of (answers ! i) = Inr v" using Inr i(1) by (auto simp: rmap_Inr_iff in_set_conv_nth list_all2_conv_all_nth)
    then show ?thesis using i(2) by (cases "answers ! i") auto
  qed
  then have "answers \<in> lists (range Engine_Response)" by auto
  then obtain ws where ws: "answers = map Engine_Response ws" by (auto simp: lists_image)
  have "rmap response_of (map Engine_Response ws) = Inr ws" by (induction ws) auto
  then show ?thesis using ws Inr by (auto simp: gather_def)
qed

lemma label_sequences_ok:
  assumes "dget res ''sequences'' = JArr qs" "length ids = length qs"
  shows "\<exists>labelled. label_sequences ids res = Inr labelled"
  using assms item_of_dget[OF assms(1)] by (simp add: label_sequences_def)

lemma sample_result_ok:
  assumes ok: "list_all (reply_ok payload) vs" and vs: "vs \<noteq> []" and dec: "sampling_decoded payload n k"
  shows "if list_ex aborted vs then sample_result mask_logprob payload vs = Inr Sample_Error
    else \<exists>res qs. sample_result mask_logprob payload vs = Inr (Sample_Result res) \<and> dget res ''sequences'' = JArr (map JObj qs) \<and>
      list_all2 (\<lambda>v q. to_sequence v = Inr q) vs qs \<and> (0 < k \<longrightarrow> (\<exists>rows. dget res ''topk_prompt_logprobs'' = topk_obj rows \<and>
        topk_prompt_logprobs mask_logprob (hd vs) k = Inr rows \<and> list_all (\<lambda>(ids, ps). length ids = k \<and> length ps = k) rows))"
proof -
  obtain qs where qs: "rmap to_sequence vs = Inr qs" using rmap_defined[OF ok, of to_sequence] to_sequence_ok by blast
  then have all: "list_all2 (\<lambda>v q. to_sequence v = Inr q) vs qs" by (simp add: rmap_Inr_iff)
  have "list_all2 (\<lambda>v q. dhas q ''error'' \<longleftrightarrow> aborted v) vs qs"
    using all ok to_sequence_ok by (fastforce simp: list_all2_conv_all_nth list_all_length)
  then have abort: "list_ex (\<lambda>q. dhas q ''error'') qs \<longleftrightarrow> list_ex aborted vs"
    by (auto simp: list_all2_conv_all_nth list_ex_length)
  have get: "item payload ''topk_prompt_logprobs'' = Inr (JInt (int k))" "item payload ''prompt_logprobs'' = Inr (dget payload ''prompt_logprobs'')"
    using dec by (auto simp: sampling_decoded_def item_dget intro: item_of_dget)
  obtain v vs' where v: "vs = v # vs'" "reply_ok payload v" using vs ok by (cases vs) auto
  obtain scored where scored: "(if truthy (dget payload ''prompt_logprobs'') then rbind (prompt_logprobs v) (\<lambda>ps. Inr [(''prompt_logprobs'', JArr ps)]) else Inr []) = (Inr scored :: tinker_error + obj)"
    "dget scored ''topk_prompt_logprobs'' = JNull"
    using prompt_logprobs_ok[OF v(2)] by (cases "truthy (dget payload ''prompt_logprobs'')") (auto simp: dget_def)
  obtain ranked where ranked: "(if k = 0 then Inr [] else rbind (topk_prompt_logprobs mask_logprob v k) (\<lambda>rows. Inr [(''topk_prompt_logprobs'', topk_obj rows)])) = (Inr ranked :: tinker_error + obj)"
    "0 < k \<longrightarrow> (\<exists>rows. ranked = [(''topk_prompt_logprobs'', topk_obj rows)] \<and> topk_prompt_logprobs mask_logprob v k = Inr rows \<and> list_all (\<lambda>(ids, ps). length ids = k \<and> length ps = k) rows)"
    using topk_prompt_ok[OF v(2), of mask_logprob k] dec by (cases "k = 0") (auto simp: sampling_decoded_def)
  let ?res = "[(''sequences'', JArr (map JObj qs))] @ scored @ ranked"
  have "sample_result mask_logprob payload vs = (if list_ex aborted vs then Inr Sample_Error else Inr (Sample_Result ?res))"
    using qs abort v(1) get scored(1) ranked(1) by (simp add: sample_result_def split: if_splits)
  moreover have "dget ?res ''sequences'' = JArr (map JObj qs)" by (simp add: dget_def)
  moreover have "dget (scored @ [(''topk_prompt_logprobs'', x)]) ''topk_prompt_logprobs'' = x" for x
    using scored by (auto simp: dget_def map_add_def result_simps split: if_splits option.splits)
  ultimately show ?thesis using all ranked(2) v(1) by (auto simp: dget_def)
qed



definition demo_sampling :: obj where
  "demo_sampling = [(''prompt_tokens'', JArr [JInt 5]), (''sampling_params'', JObj [(''max_tokens'', JInt 1), (''temperature'', JInt 1),
     (''top_p'', JInt 1), (''top_k'', JInt 0), (''seed'', JInt 7), (''stop'', JNull)]), (''num_samples'', JInt 2),
     (''prompt_logprobs'', JBool False), (''topk_prompt_logprobs'', JInt 0)]"

text \<open>An engine that samples its seed.\<close>

definition demo_engine :: "nat \<Rightarrow> obj \<Rightarrow> engine_answer" where
  "demo_engine i r = Engine_Response (JObj [(''meta_info'', JObj [
     (''output_token_logprobs'', JArr [JArr [JFloat 0, dget (as_obj (dget r ''sampling_params'')) ''sampling_seed'']]),
     (''finish_reason'', JObj [(''type'', JStr ''length'')])])])"


end
