(* ===== verification/Tinker_Gateway.thy ===== *)
theory Tinker_Gateway
  imports Tinker_Service
begin

text \<open>
  The gateway as a state machine: what every operation of \<^verbatim>\<open>Tinker_Service\<close> keeps.  No request is lost,
  the dispatcher does not raise, it drains every queue, and slots are never shared or leaked.
\<close>

section \<open>How operations change the futures\<close>

text \<open>\<open>fut_frame R fs fs'\<close>: the requests of \<open>R\<close> are no longer pending, other pending requests are as they were,
  nothing becomes pending, and owners stay.\<close>

definition fut_frame :: "uid set \<Rightarrow> future_store \<Rightarrow> future_store \<Rightarrow> bool" where
  "fut_frame R fs fs' \<longleftrightarrow> store_ok fs' \<and> fs_next fs \<le> fs_next fs' \<and>
     (\<forall>r f. lookup_future fs' r = Some f \<longrightarrow> rf_state f = PENDING \<longrightarrow> r \<notin> R \<and> lookup_future fs r = Some f) \<and>
     (\<forall>r f. lookup_future fs r = Some f \<longrightarrow> rf_state f = PENDING \<longrightarrow> r \<notin> R \<longrightarrow> lookup_future fs' r = Some f) \<and>
     (\<forall>r f. lookup_future fs' r = Some f \<longrightarrow> r < fs_next fs \<longrightarrow>
        (\<exists>f0. lookup_future fs r = Some f0 \<and> rf_model f0 = rf_model f \<and> rf_tenant f0 = rf_tenant f))"

lemma fut_frameD:
  assumes "fut_frame R fs fs'"
  shows "store_ok fs'" "fs_next fs \<le> fs_next fs'"
    "lookup_future fs' r = Some f \<Longrightarrow> rf_state f = PENDING \<Longrightarrow> r \<notin> R \<and> lookup_future fs r = Some f"
    "lookup_future fs r = Some f \<Longrightarrow> rf_state f = PENDING \<Longrightarrow> r \<notin> R \<Longrightarrow> lookup_future fs' r = Some f"
    "lookup_future fs' r = Some f \<Longrightarrow> r < fs_next fs \<Longrightarrow>
      \<exists>f0. lookup_future fs r = Some f0 \<and> rf_model f0 = rf_model f \<and> rf_tenant f0 = rf_tenant f"
  using assms unfolding fut_frame_def by blast+

lemma fut_frameI:
  assumes "store_ok fs'" and "fs_next fs \<le> fs_next fs'"
    and "\<And>r f. lookup_future fs' r = Some f \<Longrightarrow> rf_state f = PENDING \<Longrightarrow> r \<notin> R \<and> lookup_future fs r = Some f"
    and "\<And>r f. lookup_future fs r = Some f \<Longrightarrow> rf_state f = PENDING \<Longrightarrow> r \<notin> R \<Longrightarrow> lookup_future fs' r = Some f"
    and "\<And>r f. lookup_future fs' r = Some f \<Longrightarrow> r < fs_next fs \<Longrightarrow>
      \<exists>f0. lookup_future fs r = Some f0 \<and> rf_model f0 = rf_model f \<and> rf_tenant f0 = rf_tenant f"
  shows "fut_frame R fs fs'"
  using assms unfolding fut_frame_def by blast

lemma fut_frame_refl: "store_ok fs \<Longrightarrow> fut_frame {} fs fs"
  unfolding fut_frame_def by blast

lemma fut_frame_trans:
  assumes a: "fut_frame R fs fs1" and b: "fut_frame R' fs1 fs2"
  shows "fut_frame (R \<union> R') fs fs2"
proof (rule fut_frameI)
  fix r f
  assume f: "lookup_future fs2 r = Some f" "r < fs_next fs"
  then obtain f1 where "lookup_future fs1 r = Some f1" "rf_model f1 = rf_model f" "rf_tenant f1 = rf_tenant f"
    using fut_frameD(5)[OF b f(1)] fut_frameD(2)[OF a] by auto
  then show "\<exists>f0. lookup_future fs r = Some f0 \<and> rf_model f0 = rf_model f \<and> rf_tenant f0 = rf_tenant f"
    using fut_frameD(5)[OF a _ f(2), of f1] by metis
next
  show "fs_next fs \<le> fs_next fs2" using fut_frameD(2)[OF a] fut_frameD(2)[OF b] by simp
  show "store_ok fs2" by (rule fut_frameD(1)[OF b])
  show "r \<notin> R \<union> R' \<and> lookup_future fs r = Some f" if "lookup_future fs2 r = Some f" "rf_state f = PENDING" for r f
    using fut_frameD(3)[OF b that] fut_frameD(3)[OF a _ that(2)] by blast
  show "lookup_future fs2 r = Some f" if "lookup_future fs r = Some f" "rf_state f = PENDING" "r \<notin> R \<union> R'" for r f
    using fut_frameD(4)[OF a that(1,2)] fut_frameD(4)[OF b _ that(2)] that(3) by blast
qed

lemma pending_not_expired: "future_ok f \<Longrightarrow> rf_state f = PENDING \<Longrightarrow> \<not> future_expired now f"
  by (simp add: future_ok_def future_expired_def)

lemma store_ok_lookup: "store_ok fs \<Longrightarrow> lookup_future fs r = Some f \<Longrightarrow> future_ok f \<and> r < fs_next fs"
  by (simp add: store_ok_def del: map_of_eq_Some_iff)

lemma frame_sweep:
  assumes "store_ok fs" shows "fut_frame {} fs (sweep now fs)"
proof -
  have l: "lookup_future (sweep now fs) r = Some f \<longleftrightarrow> lookup_future fs r = Some f \<and> \<not> future_expired now f" for r f
    using lookup_sweep[OF assms, of now r] by (auto split: option.splits)
  show ?thesis
  proof (rule fut_frameI)
    show "lookup_future (sweep now fs) r = Some f" if "lookup_future fs r = Some f" "rf_state f = PENDING" for r f
      using store_ok_lookup[OF assms that(1)] pending_not_expired that l by blast
  qed (use l store_ok_sweep[OF assms] in auto)
qed

lemma frame_settle:
  assumes ok: "store_ok fs'" and nxt: "fs_next fs' = fs_next fs" and f: "lookup_future fs r = Some f"
    and l: "lookup_future fs' = (if rf_state f = PENDING then (lookup_future fs)(r \<mapsto> f') else lookup_future fs)"
    and f': "rf_state f' \<noteq> PENDING" "rf_model f' = rf_model f" "rf_tenant f' = rf_tenant f"
  shows "fut_frame {r} fs fs'"
proof (rule fut_frameI)
  fix r' g
  show "r' \<notin> {r} \<and> lookup_future fs r' = Some g" if "lookup_future fs' r' = Some g" "rf_state g = PENDING"
    using that f f'(1) by (cases "rf_state f = PENDING"; cases "r' = r") (simp_all add: l)
  show "lookup_future fs' r' = Some g" if "lookup_future fs r' = Some g" "r' \<notin> {r}"
    using that by (simp add: l)
  show "\<exists>f0. lookup_future fs r' = Some f0 \<and> rf_model f0 = rf_model g \<and> rf_tenant f0 = rf_tenant g" if "lookup_future fs' r' = Some g"
    using that f f'(2,3) by (cases "rf_state f = PENDING"; cases "r' = r") (auto simp add: l)
qed (use ok nxt in simp_all)

lemma frame_fail:
  assumes "store_ok fs" and "fail_future now r c fs = Inr fs'" shows "fut_frame {r} fs fs'"
proof -
  from lookup_fail[OF assms(2)] obtain f where "fs_next fs' = fs_next fs" "lookup_future fs r = Some f"
    "lookup_future fs' = (if rf_state f = PENDING then (lookup_future fs)(r \<mapsto> f\<lparr>rf_state := FAILED, rf_category := Some c, finished_at := Some now\<rparr>)
       else lookup_future fs)" by blast
  then show ?thesis by (rule frame_settle[OF store_ok_fail[OF assms]]) simp_all
qed

lemma frame_resolve:
  assumes "store_ok fs" and "resolve_future now r res fs = Inr fs'" shows "fut_frame {r} fs fs'"
proof -
  from lookup_resolve[OF assms(2)] obtain f where "fs_next fs' = fs_next fs" "lookup_future fs r = Some f"
    "lookup_future fs' = (if rf_state f = PENDING then (lookup_future fs)(r \<mapsto> f\<lparr>rf_state := DONE, rf_result := Some res, finished_at := Some now\<rparr>)
       else lookup_future fs)" by blast
  then show ?thesis by (rule frame_settle[OF store_ok_resolve[OF assms]]) simp_all
qed

lemma frame_retry:
  assumes "store_ok fs" and "request_id_for_retry now r m t fs = (res, fs')"
  shows "fut_frame {} fs fs'"
proof -
  note sw = frame_sweep[OF assms(1), of now]
  consider "fs' = sweep now fs" | "store_ok fs'" "fs_next fs' = fs_next fs + 1"
      "lookup_future fs' = (lookup_future (sweep now fs))(fs_next fs \<mapsto> \<lparr>rf_model = m, rf_tenant = t, rf_state = FAILED, rf_result = None,
        rf_category = Some User_Error, finished_at = Some now\<rparr>)"
    using retry_cases[OF assms(1), of now r m t] assms(2) by auto
  then show ?thesis
  proof cases
    case 2
    have old: "r \<noteq> fs_next fs" if "lookup_future (sweep now fs) r = Some f" for r f
      using store_ok_lookup[OF fut_frameD(1)[OF sw] that] by simp
    show ?thesis
    proof (rule fut_frameI)
      fix r f
      show "r \<notin> {} \<and> lookup_future fs r = Some f" if "lookup_future fs' r = Some f" "rf_state f = PENDING"
        using that fut_frameD(3)[OF sw, of r f] 2(3) by (auto simp del: map_of_eq_Some_iff split: if_splits)
      show "lookup_future fs' r = Some f" if "lookup_future fs r = Some f" "rf_state f = PENDING"
        using fut_frameD(4)[OF sw that] old[of r f] 2(3) by simp
      show "\<exists>f0. lookup_future fs r = Some f0 \<and> rf_model f0 = rf_model f \<and> rf_tenant f0 = rf_tenant f"
        if "lookup_future fs' r = Some f" "r < fs_next fs"
        using that fut_frameD(5)[OF sw, of r f] 2(3) by simp
    qed (use 2 in auto)
  qed (use sw in simp)
qed

lemma frame_get: "store_ok fs \<Longrightarrow> get_future now r t fs = (res, fs') \<Longrightarrow> fut_frame {} fs fs'"
  using frame_sweep[of fs now] by (auto simp: get_future_def Let_def)

lemma fut_frame_absent:
  assumes a: "fut_frame {} fs fs'" and absent: "lookup_future fs' r = None"
  shows "fut_frame {r} fs fs'"
proof (rule fut_frameI)
  show "r' \<notin> {r} \<and> lookup_future fs r' = Some f" if "lookup_future fs' r' = Some f" "rf_state f = PENDING" for r' f
    using fut_frameD(3)[OF a that] that(1) absent by auto
  show "lookup_future fs' r' = Some f" if "lookup_future fs r' = Some f" "rf_state f = PENDING" for r' f
    using fut_frameD(4)[OF a that] by simp
qed (use fut_frameD(1,2,5)[OF a] in blast)+

lemma frame_fail_if_known:
  assumes ok: "store_ok fs" and tenant: "\<And>f. lookup_future fs r = Some f \<Longrightarrow> rf_tenant f = t"
  obtains fs' where "fail_if_known now c t r fs = Inr fs'" and "fut_frame {r} fs fs'"
proof -
  note sw = frame_sweep[OF ok, of now]
  show thesis
  proof (cases "lookup_future (sweep now fs) r")
    case None
    have "fut_frame {r} fs (sweep now fs)" by (rule fut_frame_absent[OF sw None])
    then show thesis using None by (intro that[of "sweep now fs"]) (simp_all add: fail_if_known_def get_future_def Let_def)
  next
    case (Some f)
    then have "rf_tenant f = t" using lookup_sweep[OF ok, of now r] tenant by (auto split: option.splits if_splits)
    moreover obtain fs' where fs': "fail_future now r c (sweep now fs) = Inr fs'" using settle_total(2)[of "sweep now fs" r] Some by auto
    ultimately have "fail_if_known now c t r fs = Inr fs'" using Some by (simp add: fail_if_known_def get_future_def Let_def)
    moreover have "fut_frame {r} fs fs'" using fut_frame_trans[OF sw frame_fail[OF fut_frameD(1)[OF sw] fs']] by simp
    ultimately show thesis by (rule that)
  qed
qed

lemma frame_fail_all:
  assumes "store_ok fs" and "\<And>r f. r \<in> set rs \<Longrightarrow> lookup_future fs r = Some f \<Longrightarrow> rf_tenant f = t"
    and "\<forall>r \<in> set rs. r < fs_next fs"
  obtains fs' where "rfold (fail_if_known now c t) rs fs = Inr fs'" and "fut_frame (set rs) fs fs'"
  using assms
proof (induction rs arbitrary: fs thesis)
  case Nil
  then show ?case using fut_frame_refl by auto
next
  case (Cons r rs)
  obtain fs1 where fs1: "fail_if_known now c t r fs = Inr fs1" "fut_frame {r} fs fs1"
    by (rule frame_fail_if_known[OF Cons.prems(2), of r t]) (use Cons.prems(3) in auto)
  note fr = fut_frameD[OF fs1(2)]
  obtain fs2 where fs2: "rfold (fail_if_known now c t) rs fs1 = Inr fs2" "fut_frame (set rs) fs1 fs2"
  proof (rule Cons.IH[of fs1])
    show "rf_tenant f = t" if "r' \<in> set rs" "lookup_future fs1 r' = Some f" for r' f
      using fr(5)[OF that(2)] Cons.prems(3)[of r'] Cons.prems(4) that(1) by auto
    show "\<forall>r \<in> set rs. r < fs_next fs1" using fr(2) Cons.prems(4) by auto
  qed (use fr(1) in auto)
  have "fut_frame (set (r # rs)) fs fs2" using fut_frame_trans[OF fs1(2) fs2(2)] by simp
  then show ?case using Cons.prems(1)[of fs2] fs1(1) fs2(1) by simp
qed

section \<open>Requests and queues\<close>

definition command_ok :: "command \<Rightarrow> bool" where
  "command_ok c \<longleftrightarrow> validation_error c \<or>
     (is_batch (cmd_op c) \<longrightarrow> datums_of c \<noteq> []) \<and> (cmd_op c = OPTIM_STEP \<longrightarrow> dhas (cmd_payload c) ''adam_params'')"

text \<open>The accounting of one request, given the datums in flight: an output is missing exactly for the datums
  that were not issued and those in flight.\<close>

definition accounted :: "(uid \<times> uid \<times> nat) set \<Rightarrow> uid \<Rightarrow> pending_request \<Rightarrow> bool" where
  "accounted F m p \<longleftrightarrow> command_ok (pr_command p) \<and>
     (pending_is_batch p \<and> \<not> rejected p \<longrightarrow> datums p \<noteq> [] \<and> length (outputs p) = length (datums p) \<and>
        num_issued_datums p \<le> length (datums p) \<and> remaining p = length (filter (\<lambda>out. out = None) (outputs p)) \<and>
        (\<forall>i < length (datums p). (outputs p ! i = None \<longleftrightarrow> num_issued_datums p \<le> i \<or> (m, pr_id p, i) \<in> F) \<and>
          ((m, pr_id p, i) \<in> F \<longrightarrow> i < num_issued_datums p)))"

abbreviation queue_ids :: "model_queue \<Rightarrow> uid list" where
  "queue_ids q \<equiv> map pr_id (mq_queue q)"

abbreviation waiting_ids :: "model_queue \<Rightarrow> uid list" where
  "waiting_ids q \<equiv> map (\<lambda>(k, c). cmd_request_id c) (pending_by_seq q)"

definition live_ids :: "model_queue \<Rightarrow> uid list" where
  "live_ids q = queue_ids q @ waiting_ids q"

definition own_ids :: "model_record \<Rightarrow> uid set" where
  "own_ids rec = insert (create_request_id rec) (ran (map_of (request_id_by_seq rec)))"

text \<open>A model and its queue: its live requests are the pending ones among those its commands were given,
  each once, and all its requests belong to it and to its tenant.\<close>

definition model_inv :: "(uid \<times> uid \<times> nat) set \<Rightarrow> future_store \<Rightarrow> uid \<Rightarrow> model_record \<Rightarrow> model_queue \<Rightarrow> bool" where
  "model_inv F fs m rec q \<longleftrightarrow>
     mq_model_id q = m \<and> mq_slot q = mr_slot rec \<and> distinct (live_ids q) \<and> dict_ok (pending_by_seq q) \<and> dict_ok (request_id_by_seq rec) \<and>
     map_of (pending_by_seq q) (last_enqueued_seq_id q + 1) = None \<and>
     dom (map_of (pending_by_seq q)) \<subseteq> dom (map_of (request_id_by_seq rec)) \<and>
     create_request_id rec \<notin> ran (map_of (request_id_by_seq rec)) \<and>
     (\<forall>r \<in> own_ids rec. r < fs_next fs \<and>
        (\<forall>f. lookup_future fs r = Some f \<longrightarrow> rf_model f = Training_Model m \<and> rf_tenant f = mr_tenant rec)) \<and>
     (\<forall>r \<in> set (live_ids q). r \<in> ran (map_of (request_id_by_seq rec)) \<and> (\<exists>f. lookup_future fs r = Some f \<and> rf_state f = PENDING)) \<and>
     (\<forall>(k, c) \<in> set (pending_by_seq q). command_ok c) \<and>
     (\<forall>p \<in> set (mq_queue q). accounted F m p)"

definition core :: "(uid \<times> uid \<times> nat) set \<Rightarrow> future_store \<Rightarrow> (uid \<times> model_record) list \<Rightarrow> scheduler \<Rightarrow> bool" where
  "core F fs ms s \<longleftrightarrow> store_ok fs \<and> dict_ok ms \<and> dict_ok s \<and> (\<forall>m. map_of ms m = None \<longleftrightarrow> map_of s m = None) \<and>
     (\<forall>m rec q. map_of ms m = Some rec \<longrightarrow> map_of s m = Some q \<longrightarrow> model_inv F fs m rec q)"

lemma coreD:
  assumes "core F fs ms s"
  shows "store_ok fs" "dict_ok ms" "dict_ok s" "map_of ms m = None \<longleftrightarrow> map_of s m = None"
    "map_of ms m = Some rec \<Longrightarrow> map_of s m = Some q \<Longrightarrow> model_inv F fs m rec q"
  using assms unfolding core_def by blast+

lemma coreI:
  assumes "store_ok fs" "dict_ok ms" "dict_ok s" "\<And>m. map_of ms m = None \<longleftrightarrow> map_of s m = None"
    "\<And>m rec q. map_of ms m = Some rec \<Longrightarrow> map_of s m = Some q \<Longrightarrow> model_inv F fs m rec q"
  shows "core F fs ms s"
  using assms unfolding core_def by blast

lemma model_invD:
  assumes "model_inv F fs m rec q"
  shows "mq_model_id q = m" "mq_slot q = mr_slot rec" "distinct (live_ids q)" "dict_ok (pending_by_seq q)" "dict_ok (request_id_by_seq rec)"
    "map_of (pending_by_seq q) (last_enqueued_seq_id q + 1) = None"
    "dom (map_of (pending_by_seq q)) \<subseteq> dom (map_of (request_id_by_seq rec))"
    "create_request_id rec \<notin> ran (map_of (request_id_by_seq rec))"
    "r \<in> own_ids rec \<Longrightarrow> r < fs_next fs"
    "r \<in> own_ids rec \<Longrightarrow> lookup_future fs r = Some f \<Longrightarrow> rf_model f = Training_Model m \<and> rf_tenant f = mr_tenant rec"
    "r \<in> set (live_ids q) \<Longrightarrow> r \<in> ran (map_of (request_id_by_seq rec))"
    "r \<in> set (live_ids q) \<Longrightarrow> \<exists>f. lookup_future fs r = Some f \<and> rf_state f = PENDING"
    "(k, c) \<in> set (pending_by_seq q) \<Longrightarrow> command_ok c"
    "p \<in> set (mq_queue q) \<Longrightarrow> accounted F m p"
  using assms unfolding model_inv_def by blast+

lemma accounted_mono:
  assumes "accounted F m p" and "\<And>i. (m, pr_id p, i) \<in> F \<longleftrightarrow> (m, pr_id p, i) \<in> F'"
  shows "accounted F' m p"
  using assms unfolding accounted_def by simp

text \<open>Changing futures that are no live request of the model.\<close>

lemma model_inv_frame:
  assumes inv: "model_inv F fs m rec q" and fr: "fut_frame R fs fs'" and R: "R \<inter> set (live_ids q) = {}"
    and F: "\<And>p i. p \<in> set (mq_queue q) \<Longrightarrow> (m, pr_id p, i) \<in> F \<longleftrightarrow> (m, pr_id p, i) \<in> F'"
  shows "model_inv F' fs' m rec q"
proof -
  note D = model_invD[OF inv] and fd = fut_frameD[OF fr]
  have "rf_model f = Training_Model m \<and> rf_tenant f = mr_tenant rec" if "r \<in> own_ids rec" "lookup_future fs' r = Some f" for r f
    using fd(5)[OF that(2) D(9)[OF that(1)]] D(10)[OF that(1)] by metis
  moreover have "\<exists>f. lookup_future fs' r = Some f \<and> rf_state f = PENDING" if "r \<in> set (live_ids q)" for r
    using D(12)[OF that] fd(4)[of r] R that by blast
  moreover have "r < fs_next fs'" if "r \<in> own_ids rec" for r using D(9)[OF that] fd(2) by simp
  moreover have "accounted F' m p" if "p \<in> set (mq_queue q)" for p
    using accounted_mono[OF D(14)[OF that]] F[OF that] by blast
  ultimately show ?thesis using inv unfolding model_inv_def by blast
qed

text \<open>Live requests of different models differ.\<close>

lemma live_owner:
  assumes "core F fs ms s" and "map_of ms m = Some rec" "map_of s m = Some q" and "r \<in> set (live_ids q)"
  shows "\<exists>f. lookup_future fs r = Some f \<and> rf_state f = PENDING \<and> rf_model f = Training_Model m \<and> rf_tenant f = mr_tenant rec"
proof -
  note D = model_invD[OF coreD(5)[OF assms(1-3)]]
  have "r \<in> own_ids rec" using D(11)[OF assms(4)] by (simp add: own_ids_def)
  then show ?thesis using D(10) D(12)[OF assms(4)] by blast
qed

lemma core_scheduler_ok:
  assumes "core F fs ms s" shows "scheduler_ok s"
proof -
  have "mq_model_id q = m \<and> distinct (queue_ids q)" if "(m, q) \<in> set s" for m q
  proof -
    have q: "map_of s m = Some q" using that coreD(3)[OF assms] by simp
    then obtain rec where "map_of ms m = Some rec" using coreD(4)[OF assms, of m] by auto
    from model_invD(1,3)[OF coreD(5)[OF assms this q]] show ?thesis by (simp add: live_ids_def)
  qed
  then show ?thesis using coreD(3)[OF assms] by (auto simp: scheduler_ok_def)
qed

section \<open>Finishing and closing\<close>

lemma map_of_map_snd: "map_of (map (\<lambda>(k, v). (k, f k v)) d) k = map_option (f k) (map_of d k)"
  by (induction d) auto

lemma dict_ok_map_snd: "dict_ok (map (\<lambda>(k, v). (k, f k v)) d) = dict_ok d"
  by (simp add: comp_def split_beta)

lemma map_of_finish [simp]:
  "map_of (finish_in_scheduler m r s) m' = map_option (\<lambda>q. if m' = m then finish_in_queue r q else q) (map_of s m')"
  unfolding finish_in_scheduler_def by (rule map_of_map_snd)

lemma dict_ok_finish [simp]: "dict_ok (finish_in_scheduler m r s) = dict_ok s"
  unfolding finish_in_scheduler_def by (rule dict_ok_map_snd)

lemma remove_request_ids:
  "distinct (map pr_id ps) \<Longrightarrow> set (remove_request r ps) = {p \<in> set ps. pr_id p \<noteq> r}"
  "distinct (map pr_id ps) \<Longrightarrow> distinct (map pr_id (remove_request r ps))"
  by (induction ps) (auto simp: image_iff)

lemma model_inv_finish:
  assumes inv: "model_inv F fs m rec q" and fr: "fut_frame {r} fs fs'"
    and r: "r \<notin> set (waiting_ids q)"
    and F: "\<And>r' i. r' \<noteq> r \<Longrightarrow> (m, r', i) \<in> F \<longleftrightarrow> (m, r', i) \<in> F'"
  shows "model_inv F' fs' m rec (finish_in_queue r q)"
proof -
  note D = model_invD[OF inv]
  have d: "distinct (queue_ids q)" using D(3) by (simp add: live_ids_def)
  note rem = remove_request_ids[OF d, of r]
  have live: "set (live_ids (finish_in_queue r q)) = set (live_ids q) - {r}"
    using r rem by (auto simp: live_ids_def finish_in_queue_def)
  have sub: "set (map pr_id (remove_request r (mq_queue q))) \<subseteq> set (queue_ids q)" using rem by auto
  have "distinct (live_ids (finish_in_queue r q))"
    using D(3) rem(2) sub unfolding live_ids_def distinct_append by (simp add: finish_in_queue_def del: set_map) blast
  then have "model_inv F fs m rec (finish_in_queue r q)"
    using inv rem live unfolding model_inv_def by (auto simp: finish_in_queue_def simp del: map_of_eq_Some_iff)
  then show ?thesis
    by (rule model_inv_frame[OF _ fr]) (use live F rem in \<open>auto simp: finish_in_queue_def\<close>)
qed

lemma queue_id_not_waiting:
  assumes "model_inv F fs m rec q" and "p \<in> set (mq_queue q)" shows "pr_id p \<notin> set (waiting_ids q)"
proof -
  have "pr_id p \<in> set (queue_ids q)" using assms(2) by simp
  then show ?thesis using model_invD(3)[OF assms(1)] unfolding live_ids_def distinct_append by blast
qed

lemma core_finish:
  assumes core: "core F fs ms s" and q: "map_of s m = Some q" and p: "p \<in> set (mq_queue q)"
    and fr: "fut_frame {pr_id p} fs fs'"
    and F: "\<And>m' r i. (m', r) \<noteq> (m, pr_id p) \<Longrightarrow> (m', r, i) \<in> F \<longleftrightarrow> (m', r, i) \<in> F'"
  shows "core F' fs' ms (finish_in_scheduler m (pr_id p) s)"
proof (rule coreI)
  obtain rec where rec: "map_of ms m = Some rec" using coreD(4)[OF core, of m] q by auto
  fix m' rec' q'
  assume rec': "map_of ms m' = Some rec'" and q': "map_of (finish_in_scheduler m (pr_id p) s) m' = Some q'"
  show "model_inv F' fs' m' rec' q'"
  proof (cases "m' = m")
    case True
    then have "q' = finish_in_queue (pr_id p) q" "rec' = rec" using q q' rec rec' by auto
    then show ?thesis
      using model_inv_finish[OF coreD(5)[OF core rec q] fr queue_id_not_waiting[OF coreD(5)[OF core rec q] p]] F True by simp
  next
    case False
    then have q2: "map_of s m' = Some q'" using q' by (cases "map_of s m'") auto
    have "pr_id p \<in> set (live_ids q)" using p by (simp add: live_ids_def)
    then have "{pr_id p} \<inter> set (live_ids q') = {}"
      using live_owner[OF core rec q] live_owner[OF core rec' q2] False by fastforce
    then show ?thesis using model_inv_frame[OF coreD(5)[OF core rec' q2] fr] F False by simp
  qed
qed (use coreD[OF core] fut_frameD(1)[OF fr] in auto)

lemma core_close:
  assumes core: "core F fs ms s" and rec: "map_of ms m = Some rec" and fr: "fut_frame R fs fs'" and R: "R \<subseteq> own_ids rec"
    and F: "\<And>m' r i. m' \<noteq> m \<Longrightarrow> (m', r, i) \<in> F \<longleftrightarrow> (m', r, i) \<in> F'"
  shows "core F' fs' (AList.delete m ms) (AList.delete m s)"
proof (rule coreI)
  obtain q where q: "map_of s m = Some q" using coreD(4)[OF core, of m] rec by auto
  fix m' rec' q'
  assume "map_of (AList.delete m ms) m' = Some rec'" "map_of (AList.delete m s) m' = Some q'"
  then have m': "m' \<noteq> m" "map_of ms m' = Some rec'" "map_of s m' = Some q'" by (auto simp: dict_simps split: if_splits)
  have "r \<notin> R" if "r \<in> set (live_ids q')" for r
    using live_owner[OF core m'(2,3) that] model_invD(10)[OF coreD(5)[OF core rec q], of r] R m'(1) by auto
  then have "R \<inter> set (live_ids q') = {}" by blast
  then show "model_inv F' fs' m' rec' q'" using model_inv_frame[OF coreD(5)[OF core m'(2,3)] fr] F m'(1) by simp
qed (use coreD[OF core] fut_frameD(1)[OF fr] in \<open>auto simp: dict_simps\<close>)

text \<open>No request is lost: a pending training request is live, or its model is still to be created; a pending
  sample has its task.\<close>

definition not_lost :: "(uid \<times> model_record) list \<Rightarrow> scheduler \<Rightarrow> uid list \<Rightarrow> (uid \<times> sample_task) list \<Rightarrow> uid \<Rightarrow> request_future \<Rightarrow> bool" where
  "not_lost ms s cs ts r f = (case rf_model f of
       Training_Model m \<Rightarrow> (case (map_of ms m, map_of s m) of
           (Some rec, Some q) \<Rightarrow> r \<in> set (live_ids q) \<or> r = create_request_id rec \<and> m \<in> set cs
         | _ \<Rightarrow> False)
     | Sampling_Path p \<Rightarrow> r \<in> fst ` set ts)"

definition none_lost :: "future_store \<Rightarrow> (uid \<times> model_record) list \<Rightarrow> scheduler \<Rightarrow> uid list \<Rightarrow> (uid \<times> sample_task) list \<Rightarrow> bool" where
  "none_lost fs ms s cs ts \<longleftrightarrow> (\<forall>r f. lookup_future fs r = Some f \<longrightarrow> rf_state f = PENDING \<longrightarrow> not_lost ms s cs ts r f)"

lemma none_lost_frame:
  assumes "none_lost fs ms s cs ts" and "fut_frame R fs fs'"
    and "\<And>r f. r \<notin> R \<Longrightarrow> lookup_future fs r = Some f \<Longrightarrow> rf_state f = PENDING \<Longrightarrow> not_lost ms s cs ts r f \<Longrightarrow> not_lost ms' s' cs' ts' r f"
  shows "none_lost fs' ms' s' cs' ts'"
  unfolding none_lost_def
proof (intro allI impI)
  fix r f
  assume "lookup_future fs' r = Some f" "rf_state f = PENDING"
  from fut_frameD(3)[OF assms(2) this] this show "not_lost ms' s' cs' ts' r f"
    using assms(1,3) unfolding none_lost_def by blast
qed

lemma finish_keeps_others:
  assumes core: "core F fs ms s" and q: "map_of s m = Some q" and p: "p \<in> set (mq_queue q)"
    and r: "r \<noteq> pr_id p" and nl: "not_lost ms s cs ts r f"
  shows "not_lost ms (finish_in_scheduler m (pr_id p) s) cs ts r f"
proof (cases "rf_model f")
  case (Training_Model m')
  obtain rec' q' where m': "map_of ms m' = Some rec'" "map_of s m' = Some q'" "r \<in> set (live_ids q') \<or> r = create_request_id rec' \<and> m' \<in> set cs"
    using nl Training_Model by (auto simp: not_lost_def split: option.splits)
  have "distinct (queue_ids q')" using model_invD(3)[OF coreD(5)[OF core m'(1,2)]] by (simp add: live_ids_def)
  then have "r \<in> set (live_ids (finish_in_queue (pr_id p) q'))" if "r \<in> set (live_ids q')"
    using that r by (auto simp: live_ids_def finish_in_queue_def remove_request_ids)
  then show ?thesis using m' Training_Model by (auto simp: not_lost_def)
qed (use nl in \<open>simp add: not_lost_def\<close>)

section \<open>The invariant of the gateway\<close>

definition held_slots :: "gateway \<Rightarrow> nat list" where
  "held_slots gw = map fst (releasing gw) @ map (\<lambda>(m, rec). mr_slot rec) (models gw)"

definition slots_ok :: "gateway_config \<Rightarrow> gateway \<Rightarrow> bool" where
  "slots_ok cfg gw \<longleftrightarrow> distinct (held_slots gw) \<and> set (held_slots gw) \<inter> free_slots gw = {} \<and>
     set (held_slots gw) \<union> free_slots gw \<subseteq> {0..<n_slots cfg}"

definition creating_ok :: "gateway \<Rightarrow> bool" where
  "creating_ok gw \<longleftrightarrow> distinct (creating gw) \<and> (\<forall>m \<in> fst ` set (models gw) \<union> set (creating gw). m < uids gw) \<and>
     (\<forall>m rec. m \<in> set (creating gw) \<longrightarrow> map_of (models gw) m = Some rec \<longrightarrow>
        (\<exists>f. lookup_future (futures gw) (create_request_id rec) = Some f \<and> rf_state f = PENDING))"

text \<open>The requests of sampling tasks belong to sampling.\<close>

definition tasks_ok :: "future_store \<Rightarrow> (uid \<times> sample_task) list \<Rightarrow> bool" where
  "tasks_ok fs ts \<longleftrightarrow> dict_ok ts \<and> (\<forall>r \<in> fst ` set ts. r < fs_next fs \<and>
     (\<forall>f. lookup_future fs r = Some f \<longrightarrow> (\<exists>path. rf_model f = Sampling_Path path)))"

lemma tasks_ok_frame:
  assumes fr: "fut_frame R fs fs'" and ok: "tasks_ok fs ts" shows "tasks_ok fs' ts"
proof -
  have "r < fs_next fs'" "lookup_future fs' r = Some f \<Longrightarrow> \<exists>path. rf_model f = Sampling_Path path" if r: "r \<in> fst ` set ts" for r f
  proof -
    have lt: "r < fs_next fs" and old: "\<And>f. lookup_future fs r = Some f \<Longrightarrow> \<exists>path. rf_model f = Sampling_Path path"
      using ok r unfolding tasks_ok_def by blast+
    show "r < fs_next fs'" using lt fut_frameD(2)[OF fr] by simp
    show "\<exists>path. rf_model f = Sampling_Path path" if "lookup_future fs' r = Some f"
      using fut_frameD(5)[OF fr that lt] old by metis
  qed
  then show ?thesis using ok unfolding tasks_ok_def by blast
qed

definition gw_inv :: "gateway_config \<Rightarrow> (uid \<times> uid \<times> nat) set \<Rightarrow> gateway \<Rightarrow> bool" where
  "gw_inv cfg F gw \<longleftrightarrow> core F (futures gw) (models gw) (sched gw) \<and>
     none_lost (futures gw) (models gw) (sched gw) (creating gw) (sample_tasks gw) \<and> slots_ok cfg gw \<and> creating_ok gw \<and>
     tasks_ok (futures gw) (sample_tasks gw)"

lemma gw_invD:
  assumes "gw_inv cfg F gw"
  shows "core F (futures gw) (models gw) (sched gw)"
    "none_lost (futures gw) (models gw) (sched gw) (creating gw) (sample_tasks gw)" "slots_ok cfg gw" "creating_ok gw"
    "tasks_ok (futures gw) (sample_tasks gw)"
  using assms unfolding gw_inv_def by blast+

text \<open>Operations that leave models, creations and slots alone and settle requests other than creations.\<close>

lemma creating_ok_frame:
  assumes "creating_ok gw" and "fut_frame R (futures gw) (futures gw')" and "models gw' = models gw" "creating gw' = creating gw" "uids gw \<le> uids gw'"
    and "\<And>m rec. m \<in> set (creating gw) \<Longrightarrow> map_of (models gw) m = Some rec \<Longrightarrow> create_request_id rec \<notin> R"
  shows "creating_ok gw'"
proof -
  have "\<exists>f. lookup_future (futures gw') (create_request_id rec) = Some f \<and> rf_state f = PENDING"
    if m: "m \<in> set (creating gw)" "map_of (models gw) m = Some rec" for m rec
    using assms(1) m assms(6)[OF m] fut_frameD(4)[OF assms(2)] unfolding creating_ok_def by blast
  moreover have "m < uids gw'" if "m \<in> fst ` set (models gw) \<union> set (creating gw)" for m
    using assms(1) that assms(5) unfolding creating_ok_def by (meson less_le_trans)
  ultimately show ?thesis using assms(1) unfolding creating_ok_def assms(3,4) by blast
qed

lemma slots_ok_cong:
  "slots_ok cfg gw \<Longrightarrow> models gw' = models gw \<Longrightarrow> releasing gw' = releasing gw \<Longrightarrow> free_slots gw' = free_slots gw \<Longrightarrow> slots_ok cfg gw'"
  by (simp add: slots_ok_def held_slots_def)

lemma live_not_create:
  assumes "core F fs ms s" and "map_of s m = Some q" "p \<in> set (mq_queue q)" and "map_of ms m' = Some rec'"
  shows "create_request_id rec' \<noteq> pr_id p"
proof
  assume eq: "create_request_id rec' = pr_id p"
  obtain rec where rec: "map_of ms m = Some rec" using coreD(4)[OF assms(1), of m] assms(2) by auto
  obtain q' where q': "map_of s m' = Some q'" using coreD(4)[OF assms(1), of m'] assms(4) by auto
  note D = model_invD[OF coreD(5)[OF assms(1) rec assms(2)]] and D' = model_invD[OF coreD(5)[OF assms(1,4) q']]
  have live: "pr_id p \<in> set (live_ids q)" using assms(3) by (simp add: live_ids_def)
  from live_owner[OF assms(1) rec assms(2) live] D'(10)[of "pr_id p"] eq have "m' = m" by (auto simp: own_ids_def)
  then show False using D'(8) D(11)[OF live] eq rec assms(4) by simp
qed

lemma finish_step:
  assumes inv: "gw_inv cfg F gw" and q: "map_of (sched gw) m = Some q" "p \<in> set (mq_queue q)"
    and fr: "fut_frame {pr_id p} (futures gw) fs'"
    and F: "\<And>m' r i. (m', r) \<noteq> (m, pr_id p) \<Longrightarrow> (m', r, i) \<in> F \<longleftrightarrow> (m', r, i) \<in> F'"
  shows "gw_inv cfg F' (gw\<lparr>futures := fs', sched := finish_in_scheduler m (pr_id p) (sched gw)\<rparr>)"
proof -
  note D = gw_invD[OF inv]
  let ?gw = "gw\<lparr>futures := fs', sched := finish_in_scheduler m (pr_id p) (sched gw)\<rparr>"
  have "core F' fs' (models gw) (finish_in_scheduler m (pr_id p) (sched gw))" by (rule core_finish[OF D(1) q fr F])
  moreover have "none_lost fs' (models gw) (finish_in_scheduler m (pr_id p) (sched gw)) (creating gw) (sample_tasks gw)"
    by (rule none_lost_frame[OF D(2) fr]) (use finish_keeps_others[OF D(1) q] in blast)
  moreover have "slots_ok cfg ?gw" by (rule slots_ok_cong[OF D(3)]) simp_all
  moreover have "creating_ok ?gw"
    by (rule creating_ok_frame[OF D(4)]) (use fr live_not_create[OF D(1) q] in auto)
  moreover have "tasks_ok fs' (sample_tasks gw)" by (rule tasks_ok_frame[OF fr D(5)])
  ultimately show ?thesis by (simp add: gw_inv_def)
qed

lemma close_model_ok:
  assumes inv: "gw_inv cfg F gw" and F: "\<And>m' r i. m' \<noteq> m \<Longrightarrow> (m', r, i) \<in> F \<longleftrightarrow> (m', r, i) \<in> F'"
  obtains gw' where "close_model cfg now m category gw = Inr gw'" and "gw_inv cfg F' gw'" and "sched gw' = AList.delete m (sched gw)"
    and "models gw' = AList.delete m (models gw)" and "lock gw' = lock gw" and "sessions gw' = sessions gw" and "creating gw' = creating gw"
    and "sample_tasks gw' = sample_tasks gw" and "uids gw' = uids gw"
proof (cases "map_of (models gw) m")
  case None
  note D = gw_invD[OF inv]
  have s: "map_of (sched gw) m = None" using coreD(4)[OF D(1), of m] None by simp
  have "core F' (futures gw) (models gw) (sched gw)"
  proof (rule coreI)
    fix m' rec q
    assume a: "map_of (models gw) m' = Some rec" "map_of (sched gw) m' = Some q"
    then have "m' \<noteq> m" using None by auto
    then show "model_inv F' (futures gw) m' rec q"
      using model_inv_frame[OF coreD(5)[OF D(1) a] fut_frame_refl[OF coreD(1)[OF D(1)]]] F by simp
  qed (use coreD[OF D(1)] in auto)
  then have "gw_inv cfg F' gw" using D by (simp add: gw_inv_def)
  moreover have "AList.delete m (models gw) = models gw" "AList.delete m (sched gw) = sched gw"
    using None s by (simp_all add: delete_id map_of_None_fst)
  ultimately show thesis using None by (intro that[of gw]) (simp_all add: close_model_def)
next
  case (Some rec)
  note D = gw_invD[OF inv]
  obtain q where q: "map_of (sched gw) m = Some q" using coreD(4)[OF D(1), of m] Some by auto
  note M = model_invD[OF coreD(5)[OF D(1) Some q]]
  let ?rs = "create_request_id rec # map snd (request_id_by_seq rec)"
  have own: "set ?rs = own_ids rec" using M(5) by (simp add: own_ids_def ran_distinct)
  obtain fs' where fs': "rfold (fail_if_known now category (mr_tenant rec)) ?rs (futures gw) = Inr fs'" and fr: "fut_frame (set ?rs) (futures gw) fs'"
    by (rule frame_fail_all[OF coreD(1)[OF D(1)], of ?rs "mr_tenant rec"]) (use M(9,10) own in blast)+
  obtain gw' where gw': "close_model cfg now m category gw = Inr gw'" "futures gw' = fs'" "models gw' = AList.delete m (models gw)"
    "sched gw' = AList.delete m (sched gw)" "releasing gw' = releasing gw @ [(mr_slot rec, slot_initialized rec)]" "free_slots gw' = free_slots gw"
    "creating gw' = creating gw" "sample_tasks gw' = sample_tasks gw" "uids gw' = uids gw" "lock gw' = lock gw" "sessions gw' = sessions gw"
    using Some fs' by (simp add: close_model_def Let_def remove_model_queue_def del: rfold.simps)
  have "core F' fs' (AList.delete m (models gw)) (AList.delete m (sched gw))"
    by (rule core_close[OF D(1) Some fr _ F]) (use own in auto)
  moreover have "none_lost fs' (AList.delete m (models gw)) (AList.delete m (sched gw)) (creating gw) (sample_tasks gw)"
  proof (rule none_lost_frame[OF D(2) fr])
    fix r f
    assume r: "r \<notin> set ?rs" and f: "not_lost (models gw) (sched gw) (creating gw) (sample_tasks gw) r f"
    have "r \<notin> set (live_ids q)" using M(11)[of r] r own by (auto simp: own_ids_def)
    then show "not_lost (AList.delete m (models gw)) (AList.delete m (sched gw)) (creating gw) (sample_tasks gw) r f"
      using f r Some q by (auto simp: not_lost_def dict_simps split: future_owner.splits option.splits)
  qed
  moreover have "slots_ok cfg gw'"
  proof -
    have "mset (held_slots gw') = mset (held_slots gw)"
    proof -
      have "mset (map (\<lambda>(m, rec). mr_slot rec) ms) = add_mset (mr_slot rec) (mset (map (\<lambda>(m, rec). mr_slot rec) (AList.delete m ms)))"
        if "dict_ok ms" "map_of ms m = Some rec" for ms
        using that by (induction ms) (auto simp: delete_id map_of_eq_None_iff)
      from this[OF coreD(2)[OF D(1)] Some] show ?thesis by (simp add: held_slots_def gw')
    qed
    then show ?thesis using D(3) gw'(6) mset_eq_setD mset_eq_imp_distinct_iff unfolding slots_ok_def by metis
  qed
  moreover have "creating_ok gw'"
  proof -
    have "create_request_id rec' \<notin> set ?rs" if m': "m' \<noteq> m" "m' \<in> set (creating gw)" "map_of (models gw) m' = Some rec'" for m' rec'
    proof
      assume a: "create_request_id rec' \<in> set ?rs"
      obtain q' where q': "map_of (sched gw) m' = Some q'" using coreD(4)[OF D(1), of m'] m'(3) by auto
      obtain f where f: "lookup_future (futures gw) (create_request_id rec') = Some f" using D(4) m' unfolding creating_ok_def by blast
      have "rf_model f = Training_Model m" using M(10)[OF _ f] a own by auto
      moreover have "rf_model f = Training_Model m'"
        using model_invD(10)[OF coreD(5)[OF D(1) m'(3) q'] _ f] by (simp add: own_ids_def)
      ultimately show False using m'(1) by simp
    qed
    then have "\<exists>f. lookup_future fs' (create_request_id rec') = Some f \<and> rf_state f = PENDING"
      if m': "m' \<noteq> m" "m' \<in> set (creating gw)" "map_of (models gw) m' = Some rec'" for m' rec'
      using D(4) m' fut_frameD(4)[OF fr] unfolding creating_ok_def by blast
    moreover have "fst ` set (AList.delete m (models gw)) \<subseteq> fst ` set (models gw)" by (auto simp: AList.delete_eq)
    then have "m' < uids gw" if "m' \<in> fst ` set (AList.delete m (models gw)) \<union> set (creating gw)" for m'
      using D(4) that unfolding creating_ok_def by blast
    ultimately show ?thesis using D(4) unfolding creating_ok_def gw' map_of_delete by (simp del: map_of_eq_Some_iff)
  qed
  moreover have "tasks_ok fs' (sample_tasks gw)" by (rule tasks_ok_frame[OF fr D(5)])
  ultimately have "gw_inv cfg F' gw'" by (simp add: gw_inv_def gw')
  then show thesis using gw' by (intro that[of gw']) auto
qed

section \<open>Finishing requests\<close>

definition queue_work :: "model_queue \<Rightarrow> nat" where
  "queue_work q = sum_list (map (\<lambda>p. Suc (length (datums p) - num_issued_datums p)) (mq_queue q))"

text \<open>What the dispatcher still has to do: finish every queued request and issue its datums.\<close>

definition work :: "scheduler \<Rightarrow> nat" where
  "work s = sum_list (map (\<lambda>(m, q). queue_work q) s)"

definition in_queue :: "scheduler \<Rightarrow> uid \<Rightarrow> command \<Rightarrow> bool" where
  "in_queue s m c \<longleftrightarrow> (\<exists>q p. map_of s m = Some q \<and> p \<in> set (mq_queue q) \<and> pr_command p = c)"

definition closes :: "command \<Rightarrow> outcome \<Rightarrow> bool" where
  "closes c out = (case out of Failure category \<Rightarrow> requires_model_close_on_failure (cmd_op c) category | Success res \<Rightarrow> False)"

lemma sum_remove_request:
  "p \<in> set ps \<Longrightarrow> (\<And>p. 0 < f p) \<Longrightarrow> sum_list (map f (remove_request (pr_id p) ps)) < (sum_list (map f ps) :: nat)"
  by (induction ps) auto

lemma work_finish_queue: "p \<in> set (mq_queue q) \<Longrightarrow> queue_work (finish_in_queue (pr_id p) q) < queue_work q"
  using sum_remove_request[of p "mq_queue q" "\<lambda>p. Suc (length (datums p) - num_issued_datums p)"]
  by (simp add: queue_work_def finish_in_queue_def)

lemma work_simps: "work [] = 0" "work ((m, q) # s) = queue_work q + work s" "work (s @ t) = work s + work t"
  by (simp_all add: work_def)

lemma work_update_le:
  assumes "\<And>m q. map_of s m = Some q \<Longrightarrow> queue_work (g m q) \<le> queue_work q" and "dict_ok s"
  shows "work (map (\<lambda>(m, q). (m, g m q)) s) \<le> work s"
  unfolding work_def using assms by (auto simp: comp_def split_beta intro!: sum_list_mono)

lemma work_update_less:
  assumes "map_of s m = Some q" and "queue_work (g m q) < queue_work q" and "\<And>m q. map_of s m = Some q \<Longrightarrow> queue_work (g m q) \<le> queue_work q"
    and "dict_ok s"
  shows "work (map (\<lambda>(m, q). (m, g m q)) s) < work s"
proof -
  obtain xs ys where s: "s = xs @ (m, q) # ys" using assms(1) by (metis in_set_conv_decomp map_of_SomeD)
  have le: "work (map (\<lambda>(m, q). (m, g m q)) zs) \<le> work zs" if "set zs \<subseteq> set s" for zs
    using that assms(3,4) by (induction zs) (auto simp: work_simps intro!: add_mono)
  have "work (map (\<lambda>(m, q). (m, g m q)) xs) \<le> work xs" "work (map (\<lambda>(m, q). (m, g m q)) ys) \<le> work ys"
    by (rule le, simp add: s subset_iff)+
  then show ?thesis using assms(2) by (simp add: work_simps s)
qed

lemma work_finish:
  assumes "map_of s m = Some q" and "p \<in> set (mq_queue q)" and "dict_ok s"
  shows "work (finish_in_scheduler m (pr_id p) s) < work s"
  unfolding finish_in_scheduler_def
proof (rule work_update_less[OF assms(1) _ _ assms(3)])
  show "queue_work (if m = m then finish_in_queue (pr_id p) q else q) < queue_work q" using work_finish_queue[OF assms(2)] by simp
  show "queue_work (if m' = m then finish_in_queue (pr_id p) q' else q') \<le> queue_work q'" if "map_of s m' = Some q'" for m' q'
    using that assms(1) work_finish_queue[OF assms(2)] by auto
qed

lemma work_delete:
  assumes "map_of s m = Some q" and "p \<in> set (mq_queue q)"
  shows "work (AList.delete m s) < work s"
proof -
  have pos: "0 < queue_work q" using assms(2) by (cases "mq_queue q") (auto simp: queue_work_def)
  have le: "work (AList.delete m t) \<le> work t" for t by (induction t) (auto simp: work_def)
  have "work (AList.delete m s) + queue_work q \<le> work s"
    using assms(1)
  proof (induction s)
    case (Cons x s)
    then show ?case using le[of s] by (cases x) (auto simp: work_def split: if_splits)
  qed simp
  then show ?thesis using pos by simp
qed

lemma finish_request_ok:
  assumes inv: "gw_inv cfg F gw" and q: "map_of (sched gw) m = Some q" "p \<in> set (mq_queue q)"
    and F: "\<And>m' r i. (m', r) \<noteq> (m, pr_id p) \<Longrightarrow> (m', r, i) \<in> F \<longleftrightarrow> (m', r, i) \<in> F'"
  obtains gw' where "finish_request cfg now m (pr_command p) out gw = Inr gw'" and "gw_inv cfg F' gw'" and "lock gw' = lock gw"
    and "sched gw' = (if closes (pr_command p) out then AList.delete m (sched gw) else finish_in_scheduler m (pr_id p) (sched gw))"
    and "work (sched gw') < work (sched gw)"
proof (cases "closes (pr_command p) out")
  case True
  then obtain category where out: "out = Failure category" "requires_model_close_on_failure (cmd_op (pr_command p)) category"
    by (auto simp: closes_def split: outcome.splits)
  obtain gw' where "close_model cfg now m category gw = Inr gw'" "gw_inv cfg F' gw'" "sched gw' = AList.delete m (sched gw)" "lock gw' = lock gw"
    by (rule close_model_ok[OF inv, where F' = F' and m = m and now = now and category = category]) (use F in auto)
  then show thesis using out True work_delete[OF q] by (intro that[of gw']) (auto simp: finish_request_def)
next
  case False
  note D = gw_invD[OF inv]
  obtain rec where rec: "map_of (models gw) m = Some rec" using coreD(4)[OF D(1), of m] q(1) by auto
  have "pr_id p \<in> set (live_ids q)" using q(2) by (simp add: live_ids_def)
  then have known: "lookup_future (futures gw) (pr_id p) \<noteq> None" using live_owner[OF D(1) rec q(1)] by auto
  note conclude = that
  have settle: thesis if fs': "fut_frame {pr_id p} (futures gw) fs'"
    and run: "finish_request cfg now m (pr_command p) out gw = Inr (gw\<lparr>futures := fs', sched := finish_in_scheduler m (pr_id p) (sched gw)\<rparr>)" for fs'
    by (rule conclude[OF run finish_step[OF inv q fs' F]])
      (use False work_finish[OF q coreD(3)[OF D(1)]] in simp_all)
  show thesis
  proof (cases out)
    case (Success res)
    obtain fs' where fs': "resolve_future now (pr_id p) res (futures gw) = Inr fs'" using settle_total(1)[OF known] by blast
    show thesis by (rule settle[OF frame_resolve[OF coreD(1)[OF D(1)] fs']]) (simp add: finish_request_def Success fs')
  next
    case (Failure category)
    obtain fs' where fs': "fail_future now (pr_id p) category (futures gw) = Inr fs'" using settle_total(2)[OF known] by blast
    show thesis by (rule settle[OF frame_fail[OF coreD(1)[OF D(1)] fs']])
        (use False in \<open>simp add: finish_request_def Failure fs' closes_def\<close>)
  qed
qed

lemma in_queue_other:
  assumes "s' = AList.delete m s \<or> s' = finish_in_scheduler m r s" and "m' \<noteq> m" and "in_queue s m' c"
  shows "in_queue s' m' c"
  using assms by (auto simp: in_queue_def dict_simps)

text \<open>Finishing one request of each of several models, as rejections and barriers do.\<close>

lemma finish_one_per_model:
  assumes "gw_inv cfg {} gw" and "distinct (map fst es)" and "\<forall>(m, c, out) \<in> set es. in_queue (sched gw) m c"
  obtains gw' where "rfold (\<lambda>(m, c, out). finish_request cfg now m c out) es gw = Inr gw'" and "gw_inv cfg {} gw'"
    and "lock gw' = lock gw" and "work (sched gw') + length es \<le> work (sched gw)"
  using assms
proof (induction es arbitrary: gw thesis)
  case (Cons e es)
  obtain m c out where e: "e = (m, c, out)" by (cases e)
  obtain q p where qp: "map_of (sched gw) m = Some q" "p \<in> set (mq_queue q)" "pr_command p = c"
    using Cons.prems(4) e by (auto simp: in_queue_def)
  obtain gw1 where g: "finish_request cfg now m (pr_command p) out gw = Inr gw1" "gw_inv cfg {} gw1" "lock gw1 = lock gw"
    "sched gw1 = (if closes (pr_command p) out then AList.delete m (sched gw) else finish_in_scheduler m (pr_id p) (sched gw))"
    "work (sched gw1) < work (sched gw)"
    by (rule finish_request_ok[OF Cons.prems(2) qp(1,2), where F' = "{}" and now = now and out = out]) auto
  have "in_queue (sched gw1) m' c'" if "(m', c', out') \<in> set es" for m' c' out'
    by (rule in_queue_other[of _ m "sched gw" "pr_id p"]) (use g(4) Cons.prems(3,4) e that in force)+
  then have "\<forall>(m, c, out) \<in> set es. in_queue (sched gw1) m c" by blast
  moreover have "distinct (map fst es)" using Cons.prems(3) by simp
  ultimately obtain gw2 where "rfold (\<lambda>(m, c, out). finish_request cfg now m c out) es gw1 = Inr gw2" "gw_inv cfg {} gw2"
    "lock gw2 = lock gw1" "work (sched gw2) + length es \<le> work (sched gw1)"
    using Cons.IH[OF _ g(2), of thesis] by blast
  then show ?case using Cons.prems(1)[of gw2] g qp e by simp
qed auto

end
