(* ===== verification/Tinker_Dispatch.thy ===== *)
theory Tinker_Dispatch
  imports Tinker_Gateway
begin

text \<open>
  The dispatcher of \<^verbatim>\<open>Tinker_Service\<close>: selecting a unit and completing it keep the invariant, do not
  raise, and work off the queues.
\<close>

section \<open>Selecting a unit\<close>

abbreviation add_issued :: "datum_ref list \<Rightarrow> uid \<Rightarrow> pending_request \<Rightarrow> pending_request" where
  "add_issued rs m p \<equiv> p\<lparr>num_issued_datums := num_issued_datums p + issued_count rs m (pr_id p)\<rparr>"

lemma map_of_issue_all: "map_of (issue_all rs s) m = map_option (\<lambda>q. q\<lparr>mq_queue := map (add_issued rs m) (mq_queue q)\<rparr>) (map_of s m)"
  unfolding issue_all_def by (rule map_of_map_snd)

text \<open>The datums of a request that a batch takes are the first ones that were not issued.\<close>

lemma issued_datums:
  assumes ok: "scheduler_ok s" and d: "distinct (map ref_key rs)" and sub: "set rs \<subseteq> set (ready_datums s)"
    and after: "set (ready_datums (issue_all rs s)) = set (ready_datums s) - set rs"
    and q: "(m, q) \<in> set s" and p: "p \<in> set (open_batch_run q)"
  shows "num_issued_datums p \<le> length (datums p) \<Longrightarrow> num_issued_datums p + issued_count rs m (pr_id p) \<le> length (datums p)"
    and "i < length (datums p) \<Longrightarrow> (m, pr_id p, i) \<in> ref_key ` set rs \<longleftrightarrow>
      num_issued_datums p \<le> i \<and> i < num_issued_datums p + issued_count rs m (pr_id p)"
proof -
  have ref: "r \<in> set (request_refs m (mq_slot q) p)" if r0: "r \<in> set rs" "ref_model r = m" "ref_request r = pr_id p" for r
  proof -
    obtain q' p' where r: "(m, q') \<in> set s" "p' \<in> set (open_batch_run q')" "r \<in> set (request_refs m (mq_slot q') p')"
      using r0 sub ready_datum_iff[of r s] by auto
    then have "pr_id p = pr_id p'" using r0(3) by (simp add: request_ref_iff)
    then show ?thesis using pending_unique[OF ok q r(1) p r(2)] r(3) by simp
  qed
  let ?X = "{x \<in> set rs. ref_model x = m \<and> ref_request x = pr_id p}"
  have "local_index ` ?X \<subseteq> {num_issued_datums p..<length (datums p)}" using ref by (auto simp: request_ref_iff)
  then have "card (local_index ` ?X) \<le> length (datums p) - num_issued_datums p"
    using card_mono[OF finite_atLeastLessThan, of "local_index ` ?X" "num_issued_datums p" "length (datums p)"]
    by (simp only: card_atLeastLessThan)
  then show "num_issued_datums p \<le> length (datums p) \<Longrightarrow> num_issued_datums p + issued_count rs m (pr_id p) \<le> length (datums p)"
    by (simp add: issued_count_card[OF d])
  assume i: "i < length (datums p)"
  show "(m, pr_id p, i) \<in> ref_key ` set rs \<longleftrightarrow> num_issued_datums p \<le> i \<and> i < num_issued_datums p + issued_count rs m (pr_id p)"
  proof (cases "num_issued_datums p \<le> i")
    case True
    define r where "r = \<lparr>ref_model = m, ref_slot = mq_slot q, ref_command = pr_command p, local_index = i, ref_datum = datums p ! i\<rparr>"
    have r: "r \<in> set (request_refs m (mq_slot q) p)" using True i by (simp add: r_def request_ref_iff)
    have rm: "ref_model r = m" and ri: "local_index r = i" by (simp_all add: r_def)
    have ready: "r \<in> set (ready_datums s)" unfolding ready_datum_iff rm using q p r by blast
    have "r \<in> set (ready_datums (issue_all rs s)) \<longleftrightarrow> num_issued_datums p + issued_count rs m (pr_id p) \<le> i"
    proof
      assume "r \<in> set (ready_datums (issue_all rs s))"
      then obtain q' p' where r': "(m, q') \<in> set s" "p' \<in> set (open_batch_run q')" "r \<in> set (request_refs m (mq_slot q') p')"
        "num_issued_datums p' + issued_count rs m (pr_id p') \<le> i"
        unfolding ready_after_issue rm by (auto simp: r_def)
      have "pr_id p = pr_id p'" using r'(3) by (simp add: r_def request_ref_iff)
      then show "num_issued_datums p + issued_count rs m (pr_id p) \<le> i" using pending_unique[OF ok q r'(1) p r'(2)] r'(4) by simp
    next
      assume "num_issued_datums p + issued_count rs m (pr_id p) \<le> i"
      then show "r \<in> set (ready_datums (issue_all rs s))" unfolding ready_after_issue rm ri using ready q p r by blast
    qed
    moreover have "r \<in> set (ready_datums (issue_all rs s)) \<longleftrightarrow> r \<notin> set rs" unfolding after using ready by simp
    ultimately have "r \<in> set rs \<longleftrightarrow> i < num_issued_datums p + issued_count rs m (pr_id p)" by (metis not_le)
    moreover have "(m, pr_id p, i) \<in> ref_key ` set rs \<longleftrightarrow> r \<in> set rs"
    proof
      assume "(m, pr_id p, i) \<in> ref_key ` set rs"
      then obtain x where x: "x \<in> set rs" "ref_model x = m" "ref_request x = pr_id p" "local_index x = i" by auto
      then have "x = r" using ref[OF x(1-3)] by (simp add: request_ref_iff r_def)
      then show "r \<in> set rs" using x(1) by simp
    qed (force simp: r_def)
    ultimately show ?thesis using True by simp
  next
    case False
    then have "(m, pr_id p, i) \<notin> ref_key ` set rs" using ref by (auto simp: request_ref_iff)
    then show ?thesis using False by simp
  qed
qed

lemma not_issued:
  assumes ok: "scheduler_ok s" and sub: "set rs \<subseteq> set (ready_datums s)"
    and q: "(m, q) \<in> set s" and p: "p \<in> set (mq_queue q)" "p \<notin> set (open_batch_run q)"
  shows "issued_count rs m (pr_id p) = 0" and "(m, pr_id p, i) \<notin> ref_key ` set rs"
proof -
  have none: "\<not> (ref_model r = m \<and> ref_request r = pr_id p)" if r0: "r \<in> set rs" for r
  proof
    assume r: "ref_model r = m \<and> ref_request r = pr_id p"
    obtain q' p' where r': "(m, q') \<in> set s" "p' \<in> set (open_batch_run q')" "r \<in> set (request_refs m (mq_slot q') p')"
      using r0 r sub ready_datum_iff[of r s] by auto
    have "q' = q" using ok q r'(1) by (auto simp: scheduler_ok_def dest: eq_key_imp_eq_value)
    moreover have "pr_id p' = pr_id p" using r r'(3) by (simp add: request_ref_iff)
    moreover have "distinct (queue_ids q)" using ok q by (auto simp: scheduler_ok_def)
    ultimately have "p' = p" using p(1) open_batch_run_subset[OF r'(2)] by (metis distinct_map inj_onD)
    then show False using p(2) r'(2) \<open>q' = q\<close> by simp
  qed
  then show "issued_count rs m (pr_id p) = 0" by (simp add: issued_count_def filter_empty_conv)
  show "(m, pr_id p, i) \<notin> ref_key ` set rs"
  proof
    assume "(m, pr_id p, i) \<in> ref_key ` set rs"
    then obtain r where "r \<in> set rs" "m = ref_model r" "pr_id p = ref_request r" by blast
    then show False using none[of r] by simp
  qed
qed

lemma accounted_issue:
  assumes ok: "scheduler_ok s" and d: "distinct (map ref_key rs)" and sub: "set rs \<subseteq> set (ready_datums s)"
    and after: "set (ready_datums (issue_all rs s)) = set (ready_datums s) - set rs"
    and q: "(m, q) \<in> set s" and p: "p \<in> set (mq_queue q)" and inv: "accounted {} m p"
  shows "accounted (ref_key ` set rs) m (add_issued rs m p)"
proof (cases "p \<in> set (open_batch_run q)")
  case True
  note issued = issued_datums[OF ok d sub after q True]
  have batch: "pending_is_batch p" "\<not> rejected p" using open_batch_run_subset[OF True] by auto
  then have acc: "num_issued_datums p \<le> length (datums p)"
    "\<And>i. i < length (datums p) \<Longrightarrow> outputs p ! i = None \<longleftrightarrow> num_issued_datums p \<le> i"
    using inv by (auto simp: accounted_def)
  have "(outputs p ! i = None \<longleftrightarrow> num_issued_datums p + issued_count rs m (pr_id p) \<le> i \<or> (m, pr_id p, i) \<in> ref_key ` set rs) \<and>
      ((m, pr_id p, i) \<in> ref_key ` set rs \<longrightarrow> i < num_issued_datums p + issued_count rs m (pr_id p))"
    if i: "i < length (datums p)" for i
    unfolding acc(2)[OF i] issued(2)[OF i] by auto
  then show ?thesis using inv issued(1)[OF acc(1)] batch unfolding accounted_def pending_is_batch_def by simp
next
  case False
  then show ?thesis using inv not_issued[OF ok sub q p False] unfolding accounted_def pending_is_batch_def by simp
qed

lemma core_issue:
  assumes core: "core {} fs ms s" and d: "distinct (map ref_key rs)" and sub: "set rs \<subseteq> set (ready_datums s)"
    and after: "set (ready_datums (issue_all rs s)) = set (ready_datums s) - set rs"
  shows "core (ref_key ` set rs) fs ms (issue_all rs s)"
proof (rule coreI)
  fix m rec q'
  assume rec: "map_of ms m = Some rec" and "map_of (issue_all rs s) m = Some q'"
  then obtain q where q: "map_of s m = Some q" "q' = q\<lparr>mq_queue := map (add_issued rs m) (mq_queue q)\<rparr>"
    by (auto simp: map_of_issue_all)
  note inv = coreD(5)[OF core rec q(1)]
  have "live_ids q' = live_ids q" by (simp add: live_ids_def q(2) comp_def)
  moreover have "accounted (ref_key ` set rs) m p" if "p \<in> set (mq_queue q')" for p
    using that q(2) accounted_issue[OF core_scheduler_ok[OF core] d sub after map_of_SomeD[OF q(1)]] model_invD(14)[OF inv] by auto
  ultimately show "model_inv (ref_key ` set rs) fs m rec q'"
    using inv unfolding model_inv_def by (simp add: q(2) del: map_of_eq_Some_iff)
next
  show "map_of ms m = None \<longleftrightarrow> map_of (issue_all rs s) m = None" for m
    using coreD(4)[OF core, of m] by (simp add: map_of_issue_all)
  show "dict_ok (issue_all rs s)" unfolding issue_all_def dict_ok_map_snd by (rule coreD(3)[OF core])
qed (use coreD[OF core] in auto)

section \<open>Completing a batch\<close>

definition ref_valid :: "scheduler \<Rightarrow> datum_ref \<Rightarrow> bool" where
  "ref_valid s r \<longleftrightarrow> (\<exists>q p. map_of s (ref_model r) = Some q \<and> p \<in> set (mq_queue q) \<and> pr_command p = ref_command r \<and>
     pending_is_batch p \<and> \<not> rejected p \<and> local_index r < length (datums p))"

lemma filter_None_update:
  "i < length xs \<Longrightarrow> xs ! i = None \<Longrightarrow> length (filter (\<lambda>out. out = None) xs) = Suc (length (filter (\<lambda>out. out = None) (xs[i := Some v])))"
proof (induction xs arbitrary: i)
  case (Cons x xs)
  then show ?case by (cases i) auto
qed simp

definition with_output :: "nat \<Rightarrow> obj \<Rightarrow> pending_request \<Rightarrow> pending_request" where
  "with_output i out p = fst (record_output i out p)"

lemma with_output_simps [simp]:
  "pr_command (with_output i out p) = pr_command p" "datums (with_output i out p) = datums p"
  "num_issued_datums (with_output i out p) = num_issued_datums p" "outputs (with_output i out p) = (outputs p)[i := Some out]"
  "remaining (with_output i out p) = remaining p - 1" "pending_is_batch (with_output i out p) = pending_is_batch p"
  by (simp_all add: with_output_def record_output_def pending_is_batch_def)

lemma accounted_record:
  assumes inv: "accounted F m p" and b: "pending_is_batch p" "\<not> rejected p" and i: "i < length (datums p)" "(m, pr_id p, i) \<in> F"
  shows "accounted (F - {(m, pr_id p, i)}) m (with_output i out p)"
    and "remaining (with_output i out p) = 0 \<Longrightarrow> j < length (datums p) \<Longrightarrow> (m, pr_id p, j) \<notin> F - {(m, pr_id p, i)}"
proof -
  have acc: "datums p \<noteq> []" "num_issued_datums p \<le> length (datums p)" "command_ok (pr_command p)"
    "length (outputs p) = length (datums p)" "remaining p = length (filter (\<lambda>out. out = None) (outputs p))"
    using inv b by (auto simp: accounted_def)
  have at: "outputs p ! j = None \<longleftrightarrow> num_issued_datums p \<le> j \<or> (m, pr_id p, j) \<in> F" "(m, pr_id p, j) \<in> F \<Longrightarrow> j < num_issued_datums p"
    if "j < length (datums p)" for j
    using inv b that unfolding accounted_def by blast+
  have None_i: "outputs p ! i = None" using at(1)[OF i(1)] i(2) by simp
  have cnt: "remaining p = Suc (length (filter (\<lambda>out. out = None) ((outputs p)[i := Some out])))"
    using filter_None_update[of i "outputs p" out] None_i acc(4,5) i(1) by simp
  show "remaining (with_output i out p) = 0 \<Longrightarrow> j < length (datums p) \<Longrightarrow> (m, pr_id p, j) \<notin> F - {(m, pr_id p, i)}"
  proof
    assume "remaining (with_output i out p) = 0" and j: "j < length (datums p)" "(m, pr_id p, j) \<in> F - {(m, pr_id p, i)}"
    then have "\<forall>x \<in> set ((outputs p)[i := Some out]). x \<noteq> None" using cnt by (simp add: filter_empty_conv)
    then have "(outputs p)[i := Some out] ! j \<noteq> None" using j(1) acc(4) by (metis length_list_update nth_mem)
    then show False using j at(1)[OF j(1)] by auto
  qed
  have "((outputs p)[i := Some out] ! j = None \<longleftrightarrow> num_issued_datums p \<le> j \<or> (m, pr_id p, j) \<in> F - {(m, pr_id p, i)}) \<and>
      ((m, pr_id p, j) \<in> F - {(m, pr_id p, i)} \<longrightarrow> j < num_issued_datums p)" if j: "j < length (datums p)" for j
    using at[OF j] at(2)[OF i(1) i(2)] acc(4) j by (cases "j = i") auto
  then show "accounted (F - {(m, pr_id p, i)}) m (with_output i out p)"
    using acc(1-4) cnt unfolding accounted_def by auto
qed

lemma map_of_update_pending:
  "map_of (update_pending m r f s) m' =
     map_option (\<lambda>q. if m' = m then q\<lparr>mq_queue := map (\<lambda>p. if pr_id p = r then f p else p) (mq_queue q)\<rparr> else q) (map_of s m')"
  unfolding update_pending_def by (rule map_of_map_snd)

lemma dict_ok_update_pending: "dict_ok (update_pending m r f s) = dict_ok s"
  unfolding update_pending_def by (rule dict_ok_map_snd)

lemma find_pending_Some:
  assumes "map_of s m = Some q" and "p \<in> set (mq_queue q)" and "distinct (queue_ids q)"
  shows "find_pending m (pr_id p) s = Some p"
proof -
  have "find (\<lambda>x. pr_id x = pr_id p) ps = Some p" if "p \<in> set ps" "distinct (map pr_id ps)" for ps
    using that by (induction ps) auto
  then show ?thesis using assms by (simp add: find_pending_def)
qed

text \<open>Every queued batch request still waits for an output.\<close>

definition pendings :: "scheduler \<Rightarrow> (uid \<times> pending_request) set" where
  "pendings s = {(m, p). \<exists>q. map_of s m = Some q \<and> p \<in> set (mq_queue q)}"

definition unfinished :: "scheduler \<Rightarrow> bool" where
  "unfinished s \<longleftrightarrow> (\<forall>(m, p) \<in> pendings s. pending_is_batch p \<longrightarrow> \<not> rejected p \<longrightarrow> 0 < remaining p)"

lemma unfinished_subset: "unfinished s \<Longrightarrow> pendings s' \<subseteq> pendings s \<Longrightarrow> unfinished s'"
  unfolding unfinished_def by blast

lemma remove_request_subset: "set (remove_request r ps) \<subseteq> set ps"
  by (induction ps) auto

lemma pendings_finish: "pendings (finish_in_scheduler m r s) \<subseteq> pendings s"
  by (auto simp: pendings_def finish_in_queue_def split: if_splits dest: subsetD[OF remove_request_subset])

lemma pendings_delete: "pendings (AList.delete m s) \<subseteq> pendings s"
  by (auto simp: pendings_def dict_simps split: if_splits)

lemma finish_request_shrinks:
  assumes "finish_request cfg now m c out gw = Inr gw'" shows "pendings (sched gw') \<subseteq> pendings (sched gw)"
proof -
  have "pendings (sched gw') \<subseteq> pendings (sched gw)" if "close_model cfg now m category gw = Inr gw'" for category
    using that by (auto simp: close_model_def Let_def remove_model_queue_def result_simps split: option.splits dest: subsetD[OF pendings_delete])
  then show ?thesis using assms
    by (auto simp: finish_request_def result_simps split: outcome.splits if_splits dest: subsetD[OF pendings_finish])
qed

lemma rfold_shrinks:
  assumes "rfold f xs gw = Inr gw'" and "\<And>x g g'. f x g = Inr g' \<Longrightarrow> pendings (sched g') \<subseteq> pendings (sched g)"
  shows "pendings (sched gw') \<subseteq> pendings (sched gw)"
  by (rule rfold_invariant[OF assms(1), where I = "\<lambda>g. pendings (sched g) \<subseteq> pendings (sched gw)"]) (use assms(2) in blast)+

text \<open>Recording one output.\<close>

lemma record_step:
  assumes inv: "gw_inv cfg F gw" and q: "map_of (sched gw) m = Some q" "p \<in> set (mq_queue q)"
    and b: "pending_is_batch p" "\<not> rejected p" and i: "i < length (datums p)" "(m, pr_id p, i) \<in> F"
  shows "gw_inv cfg (F - {(m, pr_id p, i)}) (gw\<lparr>sched := update_pending m (pr_id p) (\<lambda>_. with_output i out p) (sched gw)\<rparr>)"
    (is "gw_inv cfg ?F ?gw")
proof -
  note D = gw_invD[OF inv]
  let ?g = "\<lambda>q. q\<lparr>mq_queue := map (\<lambda>x. if pr_id x = pr_id p then with_output i out p else x) (mq_queue q)\<rparr>"
  have ids: "live_ids (?g q') = live_ids q'" for q'
    by (auto simp: live_ids_def comp_def)
  obtain rec where rec: "map_of (models gw) m = Some rec" using coreD(4)[OF D(1), of m] q(1) by auto
  note inv_m = coreD(5)[OF D(1) rec q(1)]
  have "accounted ?F m x" if x: "x \<in> set (mq_queue (?g q))" for x
  proof -
    obtain y where y: "y \<in> set (mq_queue q)" "x = (if pr_id y = pr_id p then with_output i out p else y)" using x by auto
    show ?thesis
    proof (cases "pr_id y = pr_id p")
      case True
      then show ?thesis using y(2) accounted_record(1)[OF model_invD(14)[OF inv_m q(2)] b i] by simp
    next
      case False
      then show ?thesis using y accounted_mono[OF model_invD(14)[OF inv_m y(1)], of ?F] by simp
    qed
  qed
  then have m: "model_inv ?F (futures gw) m rec (?g q)"
    using inv_m ids[of q] unfolding model_inv_def by (simp del: map_of_eq_Some_iff)
  have "core ?F (futures gw) (models gw) (update_pending m (pr_id p) (\<lambda>_. with_output i out p) (sched gw))"
  proof (rule coreI)
    fix m' rec' q'
    assume r': "map_of (models gw) m' = Some rec'" and q': "map_of (update_pending m (pr_id p) (\<lambda>_. with_output i out p) (sched gw)) m' = Some q'"
    show "model_inv ?F (futures gw) m' rec' q'"
    proof (cases "m' = m")
      case True
      then have "q' = ?g q" "rec' = rec" using q' r' q(1) rec unfolding map_of_update_pending by auto
      then show ?thesis using m True by simp
    next
      case False
      then have q'': "map_of (sched gw) m' = Some q'" using q' by (auto simp: map_of_update_pending)
      show ?thesis
        by (rule model_inv_frame[OF coreD(5)[OF D(1) r' q''] fut_frame_refl[OF coreD(1)[OF D(1)]]]) (use False in auto)
    qed
  qed (use coreD(1-4)[OF D(1)] in \<open>auto simp: map_of_update_pending dict_ok_update_pending\<close>)
  moreover have "not_lost (models gw) (update_pending m (pr_id p) (\<lambda>_. with_output i out p) (sched gw)) (creating gw) (sample_tasks gw) r f"
    if nl: "not_lost (models gw) (sched gw) (creating gw) (sample_tasks gw) r f" for r f
  proof (cases "rf_model f")
    case (Training_Model m')
    then obtain rec' q' where q': "map_of (models gw) m' = Some rec'" "map_of (sched gw) m' = Some q'"
      "r \<in> set (live_ids q') \<or> r = create_request_id rec' \<and> m' \<in> set (creating gw)"
      using nl by (auto simp: not_lost_def split: option.splits)
    have "live_ids (if m' = m then ?g q' else q') = live_ids q'" by (auto simp: live_ids_def comp_def)
    then show ?thesis using q' Training_Model by (simp add: not_lost_def map_of_update_pending)
  qed (use nl in \<open>simp add: not_lost_def\<close>)
  then have "none_lost (futures gw) (models gw) (update_pending m (pr_id p) (\<lambda>_. with_output i out p) (sched gw)) (creating gw) (sample_tasks gw)"
    using D(2) unfolding none_lost_def by blast
  ultimately show ?thesis using D(3-5) by (simp add: gw_inv_def slots_ok_def held_slots_def creating_ok_def)
qed

lemma work_record: "work (update_pending m (pr_id p) (\<lambda>_. with_output i out p) s) \<le> work s"
  if ok: "dict_ok s" and q: "map_of s m = Some q" "p \<in> set (mq_queue q)" "distinct (queue_ids q)"
proof -
  let ?f = "\<lambda>x. Suc (length (datums x) - num_issued_datums x)"
  have "map ?f (map (\<lambda>x. if pr_id x = pr_id p then with_output i out p else x) (mq_queue q)) = map ?f (mq_queue q)"
    unfolding map_map
  proof (rule map_cong[OF refl])
    fix x assume "x \<in> set (mq_queue q)"
    then have "x = p" if "pr_id x = pr_id p" using q(2,3) that by (metis distinct_map inj_onD)
    then show "(?f \<circ> (\<lambda>x. if pr_id x = pr_id p then with_output i out p else x)) x = ?f x" by auto
  qed
  then have "sum_list (map ?f (map (\<lambda>x. if pr_id x = pr_id p then with_output i out p else x) (mq_queue q))) = sum_list (map ?f (mq_queue q))"
    by (rule arg_cong)
  then have "queue_work (q\<lparr>mq_queue := map (\<lambda>x. if pr_id x = pr_id p then with_output i out p else x) (mq_queue q)\<rparr>) = queue_work q"
    by (simp add: queue_work_def)
  then show ?thesis unfolding update_pending_def by (intro work_update_le[OF _ ok]) (use q(1) in auto)
qed

lemma store_output_ok:
  assumes inv: "gw_inv cfg F gw" and v: "ref_valid (sched gw) r" and key: "ref_key r \<in> F"
  obtains gw' where "store_output cfg now (r, out) gw = Inr gw'" and "gw_inv cfg (F - {ref_key r}) gw'" and "lock gw' = lock gw"
    and "work (sched gw') \<le> work (sched gw)"
    and "unfinished (sched gw) \<Longrightarrow> unfinished (sched gw')"
    and "\<And>r'. ref_valid (sched gw) r' \<Longrightarrow> ref_key r' \<in> F - {ref_key r} \<Longrightarrow> ref_valid (sched gw') r'"
proof -
  note D = gw_invD[OF inv]
  obtain q p where q: "map_of (sched gw) (ref_model r) = Some q" "p \<in> set (mq_queue q)" and p: "pr_command p = ref_command r"
    and b: "pending_is_batch p" "\<not> rejected p" and i: "local_index r < length (datums p)"
    using v by (auto simp: ref_valid_def)
  let ?m = "ref_model r" and ?i = "local_index r" and ?F = "F - {ref_key r}"
  have idp: "ref_request r = pr_id p" using p by simp
  have keyp: "(?m, pr_id p, ?i) \<in> F" using key idp by simp
  obtain rec where rec: "map_of (models gw) ?m = Some rec" using coreD(4)[OF D(1), of ?m] q(1) by auto
  note inv_m = coreD(5)[OF D(1) rec q(1)]
  have dq: "distinct (queue_ids q)" using model_invD(3)[OF inv_m] by (simp add: live_ids_def)
  define s1 where "s1 = update_pending ?m (pr_id p) (\<lambda>_. with_output ?i out p) (sched gw)"
  have inv1: "gw_inv cfg ?F (gw\<lparr>sched := s1\<rparr>)" using record_step[OF inv q b i keyp, of out] idp by (simp add: s1_def)
  have w1: "work s1 \<le> work (sched gw)" unfolding s1_def by (rule work_record[OF coreD(3)[OF D(1)] q dq])
  let ?q1 = "q\<lparr>mq_queue := map (\<lambda>x. if pr_id x = pr_id p then with_output ?i out p else x) (mq_queue q)\<rparr>"
  have q1: "map_of s1 ?m = Some ?q1" "with_output ?i out p \<in> set (mq_queue ?q1)"
    using q by (auto simp: s1_def map_of_update_pending image_iff)
  have valid1: "ref_valid s1 r'" if r': "ref_valid (sched gw) r'" for r'
  proof -
    obtain q' x where x: "map_of (sched gw) (ref_model r') = Some q'" "x \<in> set (mq_queue q')" "pr_command x = ref_command r'"
      "pending_is_batch x" "\<not> rejected x" "local_index r' < length (datums x)" using r' by (auto simp: ref_valid_def)
    show ?thesis
    proof (cases "ref_model r' = ?m \<and> pr_id x = pr_id p")
      case True
      then have "q' = q" "x = p" using x(1,2) q dq by (auto simp: distinct_map dest: inj_onD)
      then show ?thesis using x True q1 unfolding ref_valid_def
        by (intro exI[of _ ?q1] exI[of _ "with_output ?i out p"]) auto
    next
      case False
      then show ?thesis using x unfolding ref_valid_def s1_def map_of_update_pending by (force simp: image_iff)
    qed
  qed
  have pend1: "m' = ?m \<and> x = with_output ?i out p \<or> (m', x) \<in> pendings (sched gw) \<and> (m' = ?m \<longrightarrow> pr_id x \<noteq> pr_id p)"
    if "(m', x) \<in> pendings s1" for m' x
    using that q(1) by (cases "m' = ?m") (auto simp: pendings_def s1_def map_of_update_pending)
  have find: "find_pending ?m (ref_request r) (sched gw) = Some p" using find_pending_Some[OF q dq] idp by simp
  show thesis
  proof (cases "remaining (with_output ?i out p) = 0")
    case False
    then have "store_output cfg now (r, out) gw = Inr (gw\<lparr>sched := s1\<rparr>)"
      using find idp by (simp add: store_output_def with_output_def record_output_def Let_def s1_def)
    moreover have "unfinished s1" if "unfinished (sched gw)"
      using that pend1 False unfolding unfinished_def by fastforce
    ultimately show thesis using inv1 w1 valid1 by (intro that[of "gw\<lparr>sched := s1\<rparr>"]) simp_all
  next
    case True
    let ?res = "Success [(''outputs'', JArr (map (\<lambda>v. case v of None \<Rightarrow> JNull | Some d \<Rightarrow> JObj d) (outputs (with_output ?i out p))))]"
    have q1': "map_of (sched (gw\<lparr>sched := s1\<rparr>)) ?m = Some ?q1" using q1(1) by simp
    obtain gw' where g: "finish_request cfg now ?m (pr_command (with_output ?i out p)) ?res (gw\<lparr>sched := s1\<rparr>) = Inr gw'" "gw_inv cfg ?F gw'"
      "lock gw' = lock (gw\<lparr>sched := s1\<rparr>)" "sched gw' = (if closes (pr_command (with_output ?i out p)) ?res then AList.delete ?m (sched (gw\<lparr>sched := s1\<rparr>))
         else finish_in_scheduler ?m (pr_id (with_output ?i out p)) (sched (gw\<lparr>sched := s1\<rparr>)))"
      "work (sched gw') < work (sched (gw\<lparr>sched := s1\<rparr>))"
      by (rule finish_request_ok[OF inv1 q1' q1(2) refl, of now ?res]) (rule that)
    have run: "store_output cfg now (r, out) gw = Inr gw'"
      using True find g(1) p by (simp add: store_output_def with_output_def record_output_def Let_def s1_def)
    have s': "sched gw' = finish_in_scheduler ?m (pr_id p) s1" using g(4) by (simp add: closes_def)
    have "ref_valid (sched gw') r'" if r': "ref_valid (sched gw) r'" "ref_key r' \<in> ?F" for r'
    proof -
      obtain q' x where x: "map_of s1 (ref_model r') = Some q'" "x \<in> set (mq_queue q')" "pr_command x = ref_command r'"
        "pending_is_batch x" "\<not> rejected x" "local_index r' < length (datums x)" using valid1[OF r'(1)] by (auto simp: ref_valid_def)
      have "pr_id x \<noteq> pr_id p" if same: "ref_model r' = ?m"
      proof
        assume eq: "pr_id x = pr_id p"
        have "x = with_output ?i out p"
        proof -
          have "q' = ?q1" using x(1) same q1(1) by simp
          then show ?thesis using x(2) eq by auto
        qed
        then have "local_index r' < length (datums p)" using x(6) by simp
        from accounted_record(2)[OF model_invD(14)[OF inv_m q(2)] b i keyp True this] r'(2) same eq x(3) idp show False by simp
      qed
      moreover have "distinct (queue_ids q')"
      proof -
        note E = gw_invD(1)[OF inv1]
        obtain rec' where "map_of (models gw) (ref_model r') = Some rec'" using coreD(4)[OF E, of "ref_model r'"] x(1) by auto
        then show ?thesis using model_invD(3)[OF coreD(5)[OF E, of "ref_model r'" rec' q']] x(1) by (simp add: live_ids_def)
      qed
      ultimately have "x \<in> set (mq_queue (if ref_model r' = ?m then finish_in_queue (pr_id p) q' else q'))"
        using x(2) by (auto simp: finish_in_queue_def remove_request_ids)
      then show ?thesis using x unfolding ref_valid_def s' by auto
    qed
    moreover have "unfinished (sched gw')" if u: "unfinished (sched gw)"
    proof -
      have "pendings (sched gw') \<subseteq> pendings (sched gw)"
      proof (clarify)
        fix m' x assume x: "(m', x) \<in> pendings (sched gw')"
        then have "(m', x) \<in> pendings s1" using pendings_finish unfolding s' by blast
        moreover have "pr_id x \<noteq> pr_id p" if "m' = ?m"
          using x that q1(1) model_invD(3)[OF coreD(5)[OF gw_invD(1)[OF inv1], of ?m rec ?q1]] rec
          by (auto simp: pendings_def s' finish_in_queue_def live_ids_def remove_request_ids)
        ultimately show "(m', x) \<in> pendings (sched gw)" using pend1[of m' x] by auto
      qed
      then show ?thesis by (rule unfinished_subset[OF u])
    qed
    ultimately show thesis using run g w1 by (intro that[of gw']) simp_all
  qed
qed

text \<open>The loop over the outputs.\<close>

lemma store_outputs_ok:
  assumes "gw_inv cfg (ref_key ` set (map fst xs)) gw" and "distinct (map (ref_key \<circ> fst) xs)" and "\<forall>(r, out) \<in> set xs. ref_valid (sched gw) r"
  obtains gw' where "rfold (store_output cfg now) xs gw = Inr gw'" and "gw_inv cfg {} gw'" and "lock gw' = lock gw" and "work (sched gw') \<le> work (sched gw)"
    and "unfinished (sched gw) \<Longrightarrow> unfinished (sched gw')"
  using assms
proof (induction xs arbitrary: gw thesis)
  case (Cons x xs)
  obtain r out where x: "x = (r, out)" by (cases x)
  let ?F = "ref_key ` set (map fst (x # xs))"
  obtain gw1 where g: "store_output cfg now (r, out) gw = Inr gw1" "gw_inv cfg (?F - {ref_key r}) gw1" "lock gw1 = lock gw"
    "work (sched gw1) \<le> work (sched gw)" "unfinished (sched gw) \<Longrightarrow> unfinished (sched gw1)" and v: "\<And>r'. ref_valid (sched gw) r' \<Longrightarrow> ref_key r' \<in> ?F - {ref_key r} \<Longrightarrow> ref_valid (sched gw1) r'"
    by (rule store_output_ok[OF Cons.prems(2), of r now out]) (use Cons.prems(4) x in auto)
  have F: "?F - {ref_key r} = ref_key ` set (map fst xs)" using Cons.prems(3) x by (auto simp: image_iff)
  have "\<forall>(r, out) \<in> set xs. ref_valid (sched gw1) r" using v Cons.prems(4) unfolding F by force
  moreover have "distinct (map (ref_key \<circ> fst) xs)" using Cons.prems(3) by (simp add: comp_def)
  ultimately obtain gw2 where "rfold (store_output cfg now) xs gw1 = Inr gw2" "gw_inv cfg {} gw2" "lock gw2 = lock gw1" "work (sched gw2) \<le> work (sched gw1)"
    "unfinished (sched gw1) \<Longrightarrow> unfinished (sched gw2)"
    using Cons.IH[of gw1 thesis] g(2) F by metis
  then show ?case using Cons.prems(1)[of gw2] g x by simp
qed auto

section \<open>Failing a batch\<close>

lemma in_queue_finish:
  assumes "in_queue s m c" and "cmd_request_id c \<noteq> r" and "\<And>q. map_of s m = Some q \<Longrightarrow> distinct (queue_ids q)"
  shows "in_queue (finish_in_scheduler m r s) m c"
proof -
  obtain q p where q: "map_of s m = Some q" "p \<in> set (mq_queue q)" "pr_command p = c" using assms(1) by (auto simp: in_queue_def)
  then have "p \<in> set (mq_queue (finish_in_queue r q))" using assms(2) assms(3)[OF q(1)] by (simp add: finish_in_queue_def remove_request_ids)
  then show ?thesis using q unfolding in_queue_def by auto
qed

lemma core_queue_distinct:
  assumes "core F fs ms s" and "map_of s m = Some q" shows "distinct (queue_ids q)"
  using core_scheduler_ok[OF assms(1)] map_of_SomeD[OF assms(2)] by (auto simp: scheduler_ok_def)

lemma fail_requests_ok:
  assumes "gw_inv cfg F gw" and "F \<subseteq> {(m, r, i). \<exists>c. (r, (m, c)) \<in> set es}" and "distinct (map fst es)"
    and "\<forall>(r, (m, c)) \<in> set es. cmd_request_id c = r \<and> closes c (Failure category) = b \<and>
      (in_queue (sched gw) m c \<or> b \<and> map_of (sched gw) m = None)"
  obtains gw' where "rfold (\<lambda>(r, (m, c)). finish_request cfg now m c (Failure category)) es gw = Inr gw'" and "gw_inv cfg {} gw'"
    and "lock gw' = lock gw" and "work (sched gw') \<le> work (sched gw)"
  using assms
proof (induction es arbitrary: F gw thesis)
  case Nil
  then show ?case by auto
next
  case (Cons e es)
  obtain r m c where e: "e = (r, (m, c))" by (metis prod_cases3)
  let ?F = "F - {(m', r', i). m' = m \<and> r' = r}"
  have r: "cmd_request_id c = r" and b: "closes c (Failure category) = b" using Cons.prems(5) e by auto
  have sub: "?F \<subseteq> {(m, r, i). \<exists>c. (r, (m, c)) \<in> set es}" using Cons.prems(3) e by auto
  obtain gw1 where g: "finish_request cfg now m c (Failure category) gw = Inr gw1" "gw_inv cfg ?F gw1" "lock gw1 = lock gw" "work (sched gw1) \<le> work (sched gw)"
    and s1: "sched gw1 = (if b then AList.delete m (sched gw) else finish_in_scheduler m r (sched gw))"
  proof (cases "in_queue (sched gw) m c")
    case True
    then obtain q p where q: "map_of (sched gw) m = Some q" "p \<in> set (mq_queue q)" "pr_command p = c" by (auto simp: in_queue_def)
    have F: "(m', r', i) \<in> F \<longleftrightarrow> (m', r', i) \<in> ?F" if "(m', r') \<noteq> (m, pr_id p)" for m' r' i using that q(3) r by auto
    obtain gw' where g: "finish_request cfg now m (pr_command p) (Failure category) gw = Inr gw'" "gw_inv cfg ?F gw'" "lock gw' = lock gw"
      "sched gw' = (if closes (pr_command p) (Failure category) then AList.delete m (sched gw) else finish_in_scheduler m (pr_id p) (sched gw))"
      "work (sched gw') < work (sched gw)"
      by (rule finish_request_ok[OF Cons.prems(2) q(1,2), where F' = ?F and now = now and out = "Failure category"]) (rule F, assumption, rule that)
    show ?thesis by (rule that[of gw']) (use g q(3) r b in auto)
  next
    case False
    then have b1: b "map_of (sched gw) m = None" using Cons.prems(5) e by auto
    obtain gw' where g: "close_model cfg now m category gw = Inr gw'" "gw_inv cfg ?F gw'" "sched gw' = AList.delete m (sched gw)" "lock gw' = lock gw"
    proof (rule close_model_ok[OF Cons.prems(2), where F' = ?F and m = m and now = now and category = category])
      show "(m', r', i) \<in> F \<longleftrightarrow> (m', r', i) \<in> ?F" if "m' \<noteq> m" for m' r' i using that by auto
    qed (rule that)
    have "work (AList.delete m (sched gw)) \<le> work (sched gw)" using b1(2) by (simp add: delete_id map_of_None_fst)
    then show ?thesis using g b b1 by (intro that[of gw']) (auto simp: finish_request_def closes_def)
  qed
  have "cmd_request_id c' = r' \<and> closes c' (Failure category) = b \<and> (in_queue (sched gw1) m' c' \<or> b \<and> map_of (sched gw1) m' = None)"
    if el: "(r', (m', c')) \<in> set es" for r' m' c'
  proof -
    have c': "cmd_request_id c' = r'" "closes c' (Failure category) = b" "in_queue (sched gw) m' c' \<or> b \<and> map_of (sched gw) m' = None"
      using Cons.prems(5) el by auto
    have ne: "r' \<noteq> r" using Cons.prems(4) el e by force
    have d: "distinct (queue_ids q)" if "map_of (sched gw) m = Some q" for q
      by (rule core_queue_distinct[OF gw_invD(1)[OF Cons.prems(2)] that])
    have "in_queue (sched gw1) m' c' \<or> b \<and> map_of (sched gw1) m' = None"
    proof (cases "m' = m")
      case True
      then show ?thesis using c' ne s1 in_queue_finish[OF _ _ d] by (cases b) (auto simp: dict_simps)
    next
      case False
      then show ?thesis using c'(3) s1 in_queue_other[OF _ False, of "sched gw1" "sched gw" r c'] by (cases b) (auto simp: dict_simps)
    qed
    then show ?thesis using c' by blast
  qed
  then have "\<forall>(r, (m, c)) \<in> set es. cmd_request_id c = r \<and> closes c (Failure category) = b \<and>
      (in_queue (sched gw1) m c \<or> b \<and> map_of (sched gw1) m = None)" by blast
  moreover have "distinct (map fst es)" using Cons.prems(4) by simp
  ultimately obtain gw2 where "rfold (\<lambda>(r, (m, c)). finish_request cfg now m c (Failure category)) es gw1 = Inr gw2" "gw_inv cfg {} gw2"
    "lock gw2 = lock gw1" "work (sched gw2) \<le> work (sched gw1)"
    using Cons.IH[OF _ g(2) sub, of thesis] by blast
  then show ?case using Cons.prems(1)[of gw2] g e by simp
qed

lemma batch_requests_spec:
  "dict_ok (batch_requests refs)"
  "(r, (m, c)) \<in> set (batch_requests refs) \<Longrightarrow> \<exists>x \<in> set refs. ref_request x = r \<and> ref_model x = m \<and> ref_command x = c"
  "x \<in> set refs \<Longrightarrow> \<exists>m c. (ref_request x, (m, c)) \<in> set (batch_requests refs)"
proof -
  have "dict_ok (batch_requests refs) \<and> (\<forall>r m c. map_of (batch_requests refs) r = Some (m, c) \<longrightarrow>
      (\<exists>x \<in> set refs. ref_request x = r \<and> ref_model x = m \<and> ref_command x = c)) \<and>
      (\<forall>x \<in> set refs. \<exists>m c. map_of (batch_requests refs) (ref_request x) = Some (m, c))"
  proof (induction refs rule: rev_induct)
    case (snoc y refs)
    have "batch_requests (refs @ [y]) = AList.update (ref_request y) (ref_model y, ref_command y) (batch_requests refs)"
      by (simp add: batch_requests_def)
    then show ?case using snoc by (auto simp: dict_simps simp del: map_of_eq_Some_iff)
  qed (simp add: batch_requests_def)
  then show "dict_ok (batch_requests refs)"
    "(r, (m, c)) \<in> set (batch_requests refs) \<Longrightarrow> \<exists>x \<in> set refs. ref_request x = r \<and> ref_model x = m \<and> ref_command x = c"
    "x \<in> set refs \<Longrightarrow> \<exists>m c. (ref_request x, (m, c)) \<in> set (batch_requests refs)"
    by auto
qed

section \<open>The dispatcher loop\<close>

definition unit_ok :: "scheduler \<Rightarrow> work_unit \<Rightarrow> bool" where
  "unit_ok s u = (case u of
       Batch_Unit op loss config picked \<Rightarrow> picked \<noteq> [] \<and> is_batch op \<and> distinct (map ref_key picked) \<and>
         (\<forall>r \<in> set picked. ref_valid s r \<and> cmd_op (ref_command r) = op)
     | Barrier_Unit op entries \<Rightarrow> entries \<noteq> [] \<and> distinct (map fst entries) \<and> \<not> is_batch op \<and> (op \<noteq> OPTIM_STEP \<longrightarrow> length entries = 1) \<and>
         (\<forall>(m, p) \<in> set entries. in_queue s m (pr_command p) \<and> cmd_op (pr_command p) = op \<and> \<not> rejected p \<and> command_ok (pr_command p)))"

definition in_flight :: "lock_holder \<Rightarrow> (uid \<times> uid \<times> nat) set" where
  "in_flight l = (case l of Running (Batch_Unit op loss config picked) \<Rightarrow> ref_key ` set picked | _ \<Rightarrow> {})"

definition gw_ok :: "gateway_config \<Rightarrow> gateway \<Rightarrow> bool" where
  "gw_ok cfg gw \<longleftrightarrow> gw_inv cfg (in_flight (lock gw)) gw \<and> unfinished (sched gw) \<and>
     (case lock gw of Running u \<Rightarrow> unit_ok (sched gw) u | _ \<Rightarrow> True)"

lemma sum_list_less:
  "x \<in> set xs \<Longrightarrow> f x < g x \<Longrightarrow> (\<And>y. f y \<le> g y) \<Longrightarrow> sum_list (map f xs) < (sum_list (map g xs) :: nat)"
proof (induction xs)
  case (Cons y xs)
  have "sum_list (map f xs) \<le> sum_list (map g xs)" using Cons.prems(3) by (rule sum_list_mono)
  then show ?case using Cons.IH Cons.prems Cons.prems(3)[of y] by (cases "x = y") (auto intro: add_less_le_mono add_le_less_mono)
qed simp

lemma work_issue:
  assumes ok: "dict_ok s" and r: "r \<in> set rs" "r \<in> set (ready_datums s)"
  shows "work (issue_all rs s) < work s"
proof -
  obtain q p where q: "(ref_model r, q) \<in> set s" "p \<in> set (open_batch_run q)" "r \<in> set (request_refs (ref_model r) (mq_slot q) p)"
    using r(2) ready_datum_iff[of r s] by blast
  have p: "p \<in> set (mq_queue q)" "num_issued_datums p < length (datums p)" "ref_request r = pr_id p"
    using open_batch_run_subset[OF q(2)] q(3) by (auto simp: request_ref_iff)
  have "0 < issued_count rs (ref_model r) (pr_id p)"
    using r(1) p(3) by (auto simp: issued_count_def filter_empty_conv)
  then have "queue_work (q\<lparr>mq_queue := map (add_issued rs (ref_model r)) (mq_queue q)\<rparr>) < queue_work q"
    using p by (auto simp: queue_work_def comp_def intro!: sum_list_less[of p])
  moreover have "queue_work (q\<lparr>mq_queue := map (add_issued rs m) (mq_queue q)\<rparr>) \<le> queue_work q" for m q
    by (auto simp: queue_work_def comp_def intro!: sum_list_mono)
  ultimately show ?thesis unfolding issue_all_def
    by (intro work_update_less[of s "ref_model r" q "\<lambda>m q. q\<lparr>mq_queue := map (add_issued rs m) (mq_queue q)\<rparr>"]) (use q(1) ok in auto)
qed

lemma rfold_map: "rfold f (map g xs) s = rfold (\<lambda>x. f (g x)) xs s"
proof (induction xs arbitrary: s)
  case (Cons x xs)
  then show ?case by (cases "f (g x) s") auto
qed simp

lemma distinct_one_per_key:
  "dict_ok s \<Longrightarrow> (\<And>m q. map fst (h m q) = [] \<or> map fst (h m q) = [m]) \<Longrightarrow> distinct (map fst (concat (map (\<lambda>(m, q). h m q) s)))"
proof (induction s)
  case (Cons x s)
  obtain m q where x: "x = (m, q)" by (cases x)
  have "fst ` set (concat (map (\<lambda>(m, q). h m q) s)) \<subseteq> fst ` set s"
  proof
    fix k assume "k \<in> fst ` set (concat (map (\<lambda>(m, q). h m q) s))"
    then obtain m' q' where m': "(m', q') \<in> set s" "k \<in> set (map fst (h m' q'))" by auto
    then have "k = m'" using Cons.prems(2)[of m' q'] by (metis list.set(1,2) empty_iff singletonD)
    then show "k \<in> fst ` set s" using m'(1) by force
  qed
  moreover have "m \<notin> fst ` set s" "distinct (map fst (concat (map (\<lambda>(m, q). h m q) s)))" using Cons x by auto
  moreover have "distinct (map fst (h m q))" "set (map fst (h m q)) \<subseteq> {m}" using Cons.prems(2)[of m q] by auto
  ultimately have "distinct (map fst (h m q) @ map fst (concat (map (\<lambda>(m, q). h m q) s)))"
    unfolding distinct_append set_map by blast
  then show ?case by (simp add: x)
qed simp

lemma distinct_ready_rejections: "dict_ok s \<Longrightarrow> distinct (map fst (ready_rejections s))"
  unfolding ready_rejections_def by (rule distinct_one_per_key) (auto split: list.splits)

lemma distinct_ready_barriers: "dict_ok s \<Longrightarrow> distinct (map fst (ready_barriers s))"
  unfolding ready_barriers_def by (rule distinct_one_per_key) (auto split: option.splits)

lemma finish_rejections_ok:
  assumes inv: "gw_inv cfg {} gw" and rej: "ready_rejections (sched gw) \<noteq> []"
  obtains gw' where "finish_rejections cfg now gw = Inr gw'" and "gw_inv cfg {} gw'" and "lock gw' = lock gw"
    and "work (sched gw') < work (sched gw)" and "pendings (sched gw') \<subseteq> pendings (sched gw)"
proof -
  note D = gw_invD[OF inv]
  let ?es = "map (\<lambda>(m, p). (m, pr_command p, Failure User_Error)) (ready_rejections (sched gw))"
  have d: "distinct (map fst ?es)" using distinct_ready_rejections[OF coreD(3)[OF D(1)]] by (simp add: comp_def split_beta)
  have "in_queue (sched gw) m (pr_command p)" if "(m, p) \<in> set (ready_rejections (sched gw))" for m p
  proof -
    obtain q where "(m, q) \<in> set (sched gw)" "mq_queue q \<noteq> []" "hd (mq_queue q) = p" using \<open>(m, p) \<in> set (ready_rejections (sched gw))\<close>
      unfolding ready_rejection_iff by blast
    then show ?thesis using coreD(3)[OF D(1)] unfolding in_queue_def by (intro exI[of _ q] exI[of _ p]) auto
  qed
  then have q: "\<forall>(m, c, out) \<in> set ?es. in_queue (sched gw) m c" by auto
  obtain gw' where g: "rfold (\<lambda>(m, c, out). finish_request cfg now m c out) ?es gw = Inr gw'" "gw_inv cfg {} gw'" "lock gw' = lock gw"
    "work (sched gw') + length ?es \<le> work (sched gw)" by (rule finish_one_per_model[OF inv d q])
  have "pendings (sched gw') \<subseteq> pendings (sched gw)"
    by (rule rfold_shrinks[OF g(1)]) (auto dest: finish_request_shrinks split: prod.splits)
  moreover have "0 < length ?es" using rej by simp
  moreover have "finish_rejections cfg now gw = Inr gw'"
    using g(1) by (simp add: finish_rejections_def rfold_map case_prod_unfold)
  ultimately show thesis using g by (intro that[of gw']) linarith+
qed

lemma gw_inv_cong:
  assumes "gw_inv cfg F gw" and "core F' (futures gw) (models gw) s" and "\<And>r f. not_lost (models gw) (sched gw) (creating gw) (sample_tasks gw) r f \<Longrightarrow>
      not_lost (models gw) s (creating gw) (sample_tasks gw) r f"
  shows "gw_inv cfg F' (gw\<lparr>sched := s, lock := l\<rparr>)"
  using assms unfolding gw_inv_def none_lost_def slots_ok_def held_slots_def creating_ok_def by simp

lemma gw_inv_lock: "gw_inv cfg F (gw\<lparr>lock := l\<rparr>) = gw_inv cfg F gw"
  by (simp add: gw_inv_def slots_ok_def held_slots_def creating_ok_def)

lemma gw_inv_batch_counter: "gw_inv cfg F (gw\<lparr>batch_counter := n\<rparr>) = gw_inv cfg F gw"
  by (simp add: gw_inv_def slots_ok_def held_slots_def creating_ok_def)

lemma live_ids_issue [simp]: "live_ids (q\<lparr>mq_queue := map (add_issued rs m) (mq_queue q)\<rparr>) = live_ids q"
  by (simp add: live_ids_def comp_def)

lemma not_lost_issue: "not_lost ms s cs ts r f \<Longrightarrow> not_lost ms (issue_all rs s) cs ts r f"
  by (auto simp: not_lost_def map_of_issue_all split: future_owner.splits option.splits)

lemma unfinished_issue: "unfinished s \<Longrightarrow> unfinished (issue_all rs s)"
  unfolding unfinished_def pendings_def by (fastforce simp: map_of_issue_all pending_is_batch_def)

lemma ready_ref_valid:
  assumes "dict_ok s" and "r \<in> set (ready_datums s)"
  shows "ref_valid (issue_all rs s) r" "is_batch (cmd_op (ref_command r))"
proof -
  obtain q p where q: "(ref_model r, q) \<in> set s" "p \<in> set (open_batch_run q)" "r \<in> set (request_refs (ref_model r) (mq_slot q) p)"
    using assms(2) ready_datum_iff[of r s] by blast
  note p = open_batch_run_subset[OF q(2)]
  have "map_of (issue_all rs s) (ref_model r) = Some (q\<lparr>mq_queue := map (add_issued rs (ref_model r)) (mq_queue q)\<rparr>)"
    using q(1) assms(1) by (simp add: map_of_issue_all)
  then show "ref_valid (issue_all rs s) r"
    unfolding ref_valid_def using p q(3)
    by (intro exI[of _ "q\<lparr>mq_queue := map (add_issued rs (ref_model r)) (mq_queue q)\<rparr>"] exI[of _ "add_issued rs (ref_model r) p"])
      (auto simp: request_ref_iff pending_is_batch_def)
  show "is_batch (cmd_op (ref_command r))" using p q(3) by (auto simp: request_ref_iff pending_is_batch_def)
qed

text \<open>There is nothing to select exactly when every queue is empty.\<close>

lemma select_None:
  assumes ok: "gw_ok cfg gw" and l: "lock gw = Unlocked" and sel: "select_unit cfg now gw = None"
  shows "\<forall>(m, q) \<in> set (sched gw). mq_queue q = []"
proof (clarify)
  fix m q assume q: "(m, q) \<in> set (sched gw)"
  have inv: "gw_inv cfg {} gw" and unf: "unfinished (sched gw)" using ok l by (auto simp: gw_ok_def in_flight_def)
  note D = gw_invD[OF inv]
  have rej: "ready_rejections (sched gw) = []" and "fst (schedule_next (batch_token_budget cfg) (sched gw)) = None"
    using sel by (auto simp: select_unit_def split: if_splits prod.splits option.splits)
  then have rd: "ready_datums (sched gw) = []" and rb: "ready_barriers (sched gw) = []" by (simp_all add: schedule_next_None_iff)
  show "mq_queue q = []"
  proof (rule ccontr)
    assume "mq_queue q \<noteq> []"
    then obtain p ps where p: "mq_queue q = p # ps" by (cases "mq_queue q") auto
    have nrej: "\<not> rejected p"
    proof
      assume "rejected p"
      then have "(m, p) \<in> set (ready_rejections (sched gw))" unfolding ready_rejection_iff using q p by auto
      then show False using rej by simp
    qed
    show False
    proof (cases "pending_is_batch p")
      case False
      then have "(m, p) \<in> set (ready_barriers (sched gw))"
        unfolding ready_barrier_iff using q p nrej by (auto simp: ready_barrier_Some)
      then show False using rb by simp
    next
      case True
      have look: "map_of (sched gw) m = Some q" using q coreD(3)[OF D(1)] by simp
      then obtain rec where rec: "map_of (models gw) m = Some rec" using coreD(4)[OF D(1), of m] by auto
      have pok: "accounted {} m p" using model_invD(14)[OF coreD(5)[OF D(1) rec look], of p] p by simp
      have "(m, p) \<in> pendings (sched gw)" using look p by (simp add: pendings_def)
      then have "0 < remaining p" using unf True nrej unfolding unfinished_def by blast
      then have "filter (\<lambda>out. out = None) (outputs p) \<noteq> []" using pok True nrej by (auto simp: accounted_def)
      then obtain i where i: "i < length (outputs p)" "outputs p ! i = None" by (auto simp: filter_empty_conv in_set_conv_nth)
      then have i': "i < length (datums p)" "num_issued_datums p \<le> i" using pok True nrej by (auto simp: accounted_def)
      define r where "r = \<lparr>ref_model = m, ref_slot = mq_slot q, ref_command = pr_command p, local_index = i, ref_datum = datums p ! i\<rparr>"
      have "p \<in> set (open_batch_run q)" using p True nrej by (simp add: open_batch_run_def)
      moreover have "r \<in> set (request_refs m (mq_slot q) p)" using i' by (simp add: request_ref_iff r_def)
      moreover have "ref_model r = m" by (simp add: r_def)
      ultimately have "r \<in> set (ready_datums (sched gw))" unfolding ready_datum_iff using q by blast
      then show False using rd by simp
    qed
  qed
qed

lemma select_ok:
  assumes ok: "gw_ok cfg gw" and l: "lock gw = Unlocked" and sel: "select_unit cfg now gw = Some res"
  obtains gw' where "res = Inr gw'" and "gw_ok cfg gw'"
    and "lock gw' = Unlocked \<and> work (sched gw') < work (sched gw) \<or>
      (\<exists>u. lock gw' = Running u \<and> work (sched gw') \<le> work (sched gw) \<and> ((\<exists>op loss config picked. u = Batch_Unit op loss config picked) \<longrightarrow> work (sched gw') < work (sched gw)))"
proof -
  have inv: "gw_inv cfg {} gw" and unf: "unfinished (sched gw)" using ok l by (auto simp: gw_ok_def in_flight_def)
  note D = gw_invD[OF inv]
  note sok = core_scheduler_ok[OF D(1)] and dok = coreD(3)[OF D(1)]
  show thesis
  proof (cases "ready_rejections (sched gw) = []")
    case False
    obtain gw' where g: "finish_rejections cfg now gw = Inr gw'" "gw_inv cfg {} gw'" "lock gw' = lock gw"
      "work (sched gw') < work (sched gw)" "pendings (sched gw') \<subseteq> pendings (sched gw)" by (rule finish_rejections_ok[OF inv False])
    have "gw_ok cfg gw'" using g l unfinished_subset[OF unf g(5)] by (simp add: gw_ok_def in_flight_def)
    then show thesis using g l sel False by (intro that[of gw']) (simp_all add: select_unit_def)
  next
    case True
    obtain u s where us: "schedule_next (batch_token_budget cfg) (sched gw) = (Some u, s)" "res = Inr (gw\<lparr>sched := s, lock := Running u\<rparr>)"
      using sel True by (auto simp: select_unit_def split: prod.splits option.splits)
    show thesis
    proof (cases u)
      case (Batch_Unit op loss config picked)
      note b = schedule_next_batch[OF sok us(1)[unfolded Batch_Unit]]
      have after: "set (ready_datums (issue_all picked (sched gw))) = set (ready_datums (sched gw)) - set picked" using b(4,10) by simp
      have "core (ref_key ` set picked) (futures gw) (models gw) s"
        unfolding b(10) by (rule core_issue[OF D(1) b(2,3) after])
      then have "gw_inv cfg (ref_key ` set picked) (gw\<lparr>sched := s, lock := Running u\<rparr>)"
        by (rule gw_inv_cong[OF inv]) (simp add: b(10) not_lost_issue)
      moreover have "unit_ok s u" unfolding unit_ok_def Batch_Unit work_unit.case
      proof (intro conjI ballI)
        show "is_batch op" using b(1,3,5) ready_ref_valid(2)[OF dok] by (metis list.set_intros(1) neq_Nil_conv subsetD)
        show "ref_valid s r" if "r \<in> set picked" for r using ready_ref_valid(1)[OF dok, of r picked] b(3,10) that by auto
      qed (use b(1,2,5) in auto)
      ultimately have "gw_ok cfg (gw\<lparr>sched := s, lock := Running u\<rparr>)"
        using unfinished_issue[OF unf, of picked] b(10) by (simp add: gw_ok_def in_flight_def Batch_Unit)
      moreover have "work s < work (sched gw)" unfolding b(10)
        by (rule work_issue[OF dok, of "hd picked"]) (use b(1,3) in auto)
      ultimately show thesis using us(2) Batch_Unit by (intro that) auto
    next
      case (Barrier_Unit op entries)
      note b = schedule_next_barrier[OF us(1)[unfolded Barrier_Unit]]
      have entry: "in_queue (sched gw) m (pr_command p) \<and> \<not> is_batch op \<and> \<not> rejected p \<and> command_ok (pr_command p)"
        if e: "(m, p) \<in> set entries" for m p
      proof -
        obtain q ps where q: "(m, q) \<in> set (sched gw)" "mq_queue q = p # ps" "\<not> pending_is_batch p" "\<not> rejected p"
          using e b(3) ready_barrier_iff[of m p "sched gw"] by (auto simp: ready_barrier_Some)
        have look: "map_of (sched gw) m = Some q" using q(1) dok by simp
        then obtain rec where rec: "map_of (models gw) m = Some rec" using coreD(4)[OF D(1), of m] by auto
        have "accounted {} m p" using model_invD(14)[OF coreD(5)[OF D(1) rec look], of p] q(2) by simp
        then show ?thesis using q look b(4)[OF e] by (auto simp: in_queue_def accounted_def pending_is_batch_def)
      qed
      have d: "distinct (map fst entries)"
      proof (cases "op = OPTIM_STEP")
        case True
        have "\<exists>P. entries = filter P (ready_barriers (sched gw))"
          using us(1) True by (auto simp: Barrier_Unit schedule_next_def merge_barriers_def pack_batch_def Let_def split: if_splits prod.splits)
        then show ?thesis using distinct_ready_barriers[OF dok] distinct_map_filter by metis
      qed (use b(5) in \<open>cases entries, auto\<close>)
      have "unit_ok s u" unfolding unit_ok_def Barrier_Unit work_unit.case
        using b d entry by (cases entries) (auto simp: split: prod.splits)
      moreover have "gw_inv cfg {} (gw\<lparr>sched := s, lock := Running u\<rparr>)" using inv b(1) gw_inv_lock[of cfg "{}" "Running u" gw] by simp
      ultimately have "gw_ok cfg (gw\<lparr>sched := s, lock := Running u\<rparr>)" using unf b(1) by (simp add: gw_ok_def in_flight_def Barrier_Unit)
      then show thesis using us(2) Barrier_Unit b(1) by (intro that) auto
    qed
  qed
qed

text \<open>The answers the backend is documented to give: one output per datum, and for a barrier of one entry an
  outcome, or the exceptions the dispatcher turns into one.\<close>

definition answer_ok :: "work_unit \<Rightarrow> backend_answer \<Rightarrow> bool" where
  "answer_ok u a = (case u of
       Batch_Unit op loss config picked \<Rightarrow> (case batch_result a of Outputs outs \<Rightarrow> length outs = length picked | _ \<Rightarrow> True)
     | Barrier_Unit op entries \<Rightarrow> (case barrier_result a of Inr out \<Rightarrow> True | Inl e \<Rightarrow> e = UserInputError \<or> e = OwnershipError))"

lemma closes_batch: "is_batch op \<Longrightarrow> cmd_op c = op \<Longrightarrow> closes c (Failure category) = (op = FORWARD_BACKWARD)"
  by (auto simp: closes_def requires_model_close_on_failure_def is_batch_def)

lemma ref_valid_in_queue: "ref_valid s r \<Longrightarrow> in_queue s (ref_model r) (ref_command r)"
  by (auto simp: ref_valid_def in_queue_def)

lemma ref_model_by_request:
  assumes core: "core F fs ms s" and "ref_valid s r" "ref_valid s r'" and "ref_request r = ref_request r'"
  shows "ref_model r = ref_model r'"
proof -
  have owner: "\<exists>f. lookup_future fs (ref_request x) = Some f \<and> rf_model f = Training_Model (ref_model x)" if v: "ref_valid s x" for x
  proof -
    obtain q p where q: "map_of s (ref_model x) = Some q" "p \<in> set (mq_queue q)" "pr_command p = ref_command x"
      using v by (auto simp: ref_valid_def)
    obtain rec where rec: "map_of ms (ref_model x) = Some rec" using coreD(4)[OF core, of "ref_model x"] q(1) by auto
    have "ref_request x \<in> set (live_ids q)" using q(2,3) by (force simp: live_ids_def)
    from live_owner[OF core rec q(1) this] show ?thesis by blast
  qed
  from owner[OF assms(2)] owner[OF assms(3)] assms(4) show ?thesis by auto
qed

lemma fail_batch_ok:
  assumes inv: "gw_inv cfg (ref_key ` set refs) gw" and v: "\<forall>r \<in> set refs. ref_valid (sched gw) r \<and> cmd_op (ref_command r) = op" and op: "is_batch op"
  obtains gw' where "fail_batch cfg now refs category gw = Inr gw'" and "gw_inv cfg {} gw'" and "lock gw' = lock gw"
    and "work (sched gw') \<le> work (sched gw)" and "pendings (sched gw') \<subseteq> pendings (sched gw)"
proof -
  note D = gw_invD[OF inv]
  have sub: "ref_key ` set refs \<subseteq> {(m, r, i). \<exists>c. (r, (m, c)) \<in> set (batch_requests refs)}"
  proof (clarify)
    fix x assume x: "x \<in> set refs"
    obtain m c where mc: "(ref_request x, (m, c)) \<in> set (batch_requests refs)" using batch_requests_spec(3)[OF x] by blast
    obtain y where y: "y \<in> set refs" "ref_request y = ref_request x" "ref_model y = m" using batch_requests_spec(2)[OF mc] by blast
    have "m = ref_model x" using ref_model_by_request[OF D(1), of x y] v x y by auto
    then show "\<exists>c. (ref_request x, (ref_model x, c)) \<in> set (batch_requests refs)" using mc by blast
  qed
  have "cmd_request_id c = r \<and> closes c (Failure category) = (op = FORWARD_BACKWARD) \<and>
      (in_queue (sched gw) m c \<or> op = FORWARD_BACKWARD \<and> map_of (sched gw) m = None)" if el: "(r, (m, c)) \<in> set (batch_requests refs)" for r m c
  proof -
    obtain x where x: "x \<in> set refs" "ref_request x = r" "ref_model x = m" "ref_command x = c" using batch_requests_spec(2)[OF el] by blast
    then show ?thesis using v closes_batch[OF op, of c] ref_valid_in_queue[of "sched gw" x] by auto
  qed
  then have es: "\<forall>(r, (m, c)) \<in> set (batch_requests refs). cmd_request_id c = r \<and> closes c (Failure category) = (op = FORWARD_BACKWARD) \<and>
      (in_queue (sched gw) m c \<or> op = FORWARD_BACKWARD \<and> map_of (sched gw) m = None)" by blast
  obtain gw' where g: "rfold (\<lambda>(r, (m, c)). finish_request cfg now m c (Failure category)) (batch_requests refs) gw = Inr gw'" "gw_inv cfg {} gw'"
    "lock gw' = lock gw" "work (sched gw') \<le> work (sched gw)"
    by (rule fail_requests_ok[OF inv sub batch_requests_spec(1) es])
  have "pendings (sched gw') \<subseteq> pendings (sched gw)"
    by (rule rfold_shrinks[OF g(1)]) (auto dest: finish_request_shrinks split: prod.splits)
  then show thesis using g by (intro that[of gw']) (simp_all add: fail_batch_def)
qed

lemma run_batch_ok:
  assumes inv: "gw_inv cfg (ref_key ` set picked) gw" and unf: "unfinished (sched gw)" and u: "unit_ok (sched gw) (Batch_Unit op loss config picked)"
    and a: "\<And>outs. answer = Outputs outs \<Longrightarrow> length outs = length picked"
  obtains gw' where "run_batch cfg now answer picked gw = Inr gw'" and "gw_inv cfg {} gw'" and "lock gw' = lock gw"
    and "work (sched gw') \<le> work (sched gw)" and "unfinished (sched gw')"
proof -
  let ?gw = "gw\<lparr>batch_counter := batch_counter gw + 1\<rparr>"
  have inv': "gw_inv cfg (ref_key ` set picked) ?gw" using inv gw_inv_batch_counter by simp
  have v: "\<forall>r \<in> set picked. ref_valid (sched ?gw) r \<and> cmd_op (ref_command r) = op" and op: "is_batch op" and d: "distinct (map ref_key picked)"
    using u by (auto simp: unit_ok_def)
  have fail: thesis if run: "run_batch cfg now answer picked gw = fail_batch cfg now picked category ?gw" for category
  proof -
    obtain gw' where "fail_batch cfg now picked category ?gw = Inr gw'" "gw_inv cfg {} gw'" "lock gw' = lock ?gw"
      "work (sched gw') \<le> work (sched ?gw)" "pendings (sched gw') \<subseteq> pendings (sched ?gw)"
      by (rule fail_batch_ok[OF inv' v op])
    then show thesis using run unfinished_subset[of "sched gw"] unf by (intro \<open>\<And>gw'. run_batch cfg now answer picked gw = Inr gw' \<Longrightarrow>
      gw_inv cfg {} gw' \<Longrightarrow> lock gw' = lock gw \<Longrightarrow> work (sched gw') \<le> work (sched gw) \<Longrightarrow> unfinished (sched gw') \<Longrightarrow> thesis\<close>[of gw']) simp_all
  qed
  show thesis
  proof (cases answer)
    case (Outputs outs)
    let ?refs = "sort_key ref_slot picked"
    have len: "length outs = length ?refs" using a[OF Outputs] by simp
    have fst: "map fst (zip ?refs outs) = ?refs" using len by simp
    have "distinct (map ref_key ?refs)" using d by (simp add: distinct_map)
    then have d': "distinct (map (ref_key \<circ> fst) (zip ?refs outs))" unfolding map_map[symmetric] fst .
    have v': "\<forall>(r, out) \<in> set (zip ?refs outs). ref_valid (sched ?gw) r" using v by (auto dest!: set_zip_leftD)
    have inv2: "gw_inv cfg (ref_key ` set (map fst (zip ?refs outs))) ?gw" using inv' unfolding fst by simp
    obtain gw' where "rfold (store_output cfg now) (zip ?refs outs) ?gw = Inr gw'" "gw_inv cfg {} gw'" "lock gw' = lock ?gw"
      "work (sched gw') \<le> work (sched ?gw)" "unfinished (sched ?gw) \<Longrightarrow> unfinished (sched gw')"
      by (rule store_outputs_ok[OF inv2 d' v', where now = now]) blast
    then show thesis using len Outputs unf by (intro that[of gw']) (simp_all add: run_batch_def)
  qed (rule fail, simp add: run_batch_def)+
qed

lemma barrier_outcomes:
  assumes ok: "unit_ok (sched gw) (Barrier_Unit op entries)" and a: "answer_ok (Barrier_Unit op entries) answer"
  obtains outs where "length outs = length entries" and "run_barrier cfg now answer op entries gw =
    rfold (\<lambda>((m, p), out). finish_request cfg now m (pr_command p) out) (zip entries outs) gw"
proof (cases "op = OPTIM_STEP")
  case True
  have "\<exists>slots. rmap (\<lambda>(m, p). rbind (item (cmd_payload (pr_command p)) ''adam_params'') (\<lambda>_.
        case map_of (sched gw) m of None \<Rightarrow> Inl (Tinker_Raised KeyError) | Some q \<Rightarrow> Inr (mq_slot q))) es = Inr slots \<and> length slots = length es"
    if "\<forall>(m, p) \<in> set es. in_queue (sched gw) m (pr_command p) \<and> cmd_op (pr_command p) = OPTIM_STEP \<and> \<not> rejected p \<and> command_ok (pr_command p)" for es
    using that
  proof (induction es)
    case (Cons e es)
    obtain m p where e: "e = (m, p)" by (cases e)
    have "\<exists>v. item (cmd_payload (pr_command p)) ''adam_params'' = Inr v"
      using Cons.prems e by (auto simp: command_ok_def is_batch_def dhas_def item_def)
    moreover have "\<exists>q. map_of (sched gw) m = Some q" using Cons.prems e by (auto simp: in_queue_def)
    moreover obtain slots where "rmap (\<lambda>(m, p). rbind (item (cmd_payload (pr_command p)) ''adam_params'') (\<lambda>_.
        case map_of (sched gw) m of None \<Rightarrow> Inl (Tinker_Raised KeyError) | Some q \<Rightarrow> Inr (mq_slot q))) es = Inr slots" "length slots = length es"
      using Cons by auto
    ultimately show ?case using e by auto
  qed simp
  from this[of entries] obtain slots where s: "step_optimizers (slot_outcomes answer) entries gw = Inr (map (slot_outcomes answer) slots)" "length slots = length entries"
    using ok True by (auto simp: unit_ok_def step_optimizers_def)
  show thesis by (rule that[of "map (slot_outcomes answer) slots"]) (use s True in \<open>simp_all add: run_barrier_def dispatch_barrier_op_def\<close>)
next
  case False
  have len: "length entries = 1" and nb: "\<not> is_batch op" using ok False by (auto simp: unit_ok_def)
  have "op \<in> {SAVE_STATE, LOAD_STATE, SAVE_WEIGHTS_FOR_SAMPLER, SAVE_WEIGHTS_EXTERNAL}" using nb False by (cases op) (auto simp: is_batch_def)
  then have disp: "dispatch_barrier_op answer op entries gw = rbind (barrier_result answer) (\<lambda>out. Inr [out])"
    using False len by (simp add: dispatch_barrier_op_def)
  show thesis
  proof (cases "barrier_result answer")
    case (Inr out)
    show thesis by (rule that[of "[out]"]) (use disp Inr len in \<open>simp_all add: run_barrier_def\<close>)
  next
    case (Inl e)
    then have "e = UserInputError \<or> e = OwnershipError" using a by (simp add: answer_ok_def)
    then show thesis by (intro that[of "map (\<lambda>_. Failure User_Error) entries"]) (use disp Inl in \<open>auto simp: run_barrier_def\<close>)
  qed
qed

lemma run_barrier_ok:
  assumes inv: "gw_inv cfg {} gw" and unf: "unfinished (sched gw)" and ok: "unit_ok (sched gw) (Barrier_Unit op entries)"
    and a: "answer_ok (Barrier_Unit op entries) answer"
  obtains gw' where "run_barrier cfg now answer op entries gw = Inr gw'" and "gw_inv cfg {} gw'" and "lock gw' = lock gw"
    and "work (sched gw') < work (sched gw)" and "unfinished (sched gw')"
proof -
  obtain outs where outs: "length outs = length entries" "run_barrier cfg now answer op entries gw =
    rfold (\<lambda>((m, p), out). finish_request cfg now m (pr_command p) out) (zip entries outs) gw" by (rule barrier_outcomes[OF ok a])
  let ?es = "map (\<lambda>((m, p), out). (m, pr_command p, out)) (zip entries outs)"
  have ne: "entries \<noteq> []" and d: "distinct (map fst entries)" and q: "\<forall>(m, p) \<in> set entries. in_queue (sched gw) m (pr_command p)"
    using ok by (auto simp: unit_ok_def)
  have "map fst ?es = map fst entries" using outs(1) by (induction outs entries rule: list_induct2) auto
  then have d': "distinct (map fst ?es)" using d by simp
  have q': "\<forall>(m, c, out) \<in> set ?es. in_queue (sched gw) m c" using q by (fastforce dest: set_zip_leftD)
  obtain gw' where g: "rfold (\<lambda>(m, c, out). finish_request cfg now m c out) ?es gw = Inr gw'" "gw_inv cfg {} gw'" "lock gw' = lock gw"
    "work (sched gw') + length ?es \<le> work (sched gw)" by (rule finish_one_per_model[OF inv d' q'])
  have "pendings (sched gw') \<subseteq> pendings (sched gw)"
    by (rule rfold_shrinks[OF g(1)]) (auto dest: finish_request_shrinks split: prod.splits)
  moreover have "0 < length entries" using ne by simp
  then have "work (sched gw') < work (sched gw)" using g(4) outs(1) by (cases entries) auto
  moreover have "run_barrier cfg now answer op entries gw = Inr gw'"
    using g(1) unfolding outs(2) rfold_map by (simp add: case_prod_unfold)
  ultimately show thesis using g unfinished_subset[OF unf] by (intro that[of gw']) auto
qed

lemma complete_ok:
  assumes ok: "gw_ok cfg gw" and l: "lock gw = Running u" and a: "answer_ok u answer"
  obtains gw' where "complete_unit cfg now answer u gw = Inr gw'" and "gw_ok cfg gw'" and "lock gw' = Unlocked" and "work (sched gw') \<le> work (sched gw)"
    and "(\<exists>op entries. u = Barrier_Unit op entries) \<Longrightarrow> work (sched gw') < work (sched gw)"
proof (cases u)
  case (Batch_Unit op loss config picked)
  let ?gw = "gw\<lparr>lock := Unlocked\<rparr>"
  have "gw_inv cfg (ref_key ` set picked) ?gw" "unfinished (sched ?gw)" "unit_ok (sched ?gw) (Batch_Unit op loss config picked)"
    using ok l by (simp_all add: gw_ok_def Batch_Unit in_flight_def gw_inv_lock)
  moreover have "length outs = length picked" if "batch_result answer = Outputs outs" for outs
    using a that by (simp add: answer_ok_def Batch_Unit)
  ultimately obtain gw' where "run_batch cfg now (batch_result answer) picked ?gw = Inr gw'" "gw_inv cfg {} gw'" "lock gw' = lock ?gw"
    "work (sched gw') \<le> work (sched ?gw)" "unfinished (sched gw')" by (rule run_batch_ok[where now = now])
  then show thesis using Batch_Unit by (intro that[of gw']) (simp_all add: complete_unit_def gw_ok_def in_flight_def)
next
  case (Barrier_Unit op entries)
  let ?gw = "gw\<lparr>lock := Unlocked\<rparr>"
  have "gw_inv cfg {} ?gw" "unfinished (sched ?gw)" "unit_ok (sched ?gw) (Barrier_Unit op entries)"
    using ok l by (simp_all add: gw_ok_def Barrier_Unit in_flight_def gw_inv_lock)
  then obtain gw' where "run_barrier cfg now answer op entries ?gw = Inr gw'" "gw_inv cfg {} gw'" "lock gw' = lock ?gw"
    "work (sched gw') < work (sched ?gw)" "unfinished (sched gw')"
    by (rule run_barrier_ok[where now = now and answer = answer]) (use a Barrier_Unit in auto)
  then show thesis using Barrier_Unit by (intro that[of gw']) (simp_all add: complete_unit_def gw_ok_def in_flight_def)
qed

end
