(* ===== verification/Tinker_Machine.thy ===== *)
theory Tinker_Machine
  imports Tinker_Dispatch
begin

text \<open>
  The gateway as a step relation over all its operations, and what holds in every reachable state.
\<close>

section \<open>Operations that settle samples only\<close>

lemma gw_ok_frame:
  assumes ok: "gw_ok cfg gw" and fr: "fut_frame R (futures gw) (futures gw')"
    and same: "models gw' = models gw" "sched gw' = sched gw" "creating gw' = creating gw" "free_slots gw' = free_slots gw"
      "releasing gw' = releasing gw" "uids gw \<le> uids gw'"
    and lock: "in_flight (lock gw') = in_flight (lock gw)" "\<And>u. lock gw' = Running u \<Longrightarrow> lock gw = Running u"
    and R: "R \<subseteq> fst ` set (sample_tasks gw)"
    and tasks: "dict_ok (sample_tasks gw')" "fst ` set (sample_tasks gw') \<subseteq> fst ` set (sample_tasks gw)"
      "fst ` set (sample_tasks gw) - R \<subseteq> fst ` set (sample_tasks gw')"
  shows "gw_ok cfg gw'"
proof -
  let ?F = "in_flight (lock gw)"
  have inv: "gw_inv cfg ?F gw" and unf: "unfinished (sched gw)" using ok by (auto simp: gw_ok_def)
  note D = gw_invD[OF inv]
  have sampling: "\<exists>path. rf_model f = Sampling_Path path" if "r \<in> R" "lookup_future (futures gw) r = Some f" for r f
    using D(5) R that unfolding tasks_ok_def by blast
  have core: "core ?F (futures gw') (models gw) (sched gw)"
  proof (rule coreI)
    fix m rec q assume mq: "map_of (models gw) m = Some rec" "map_of (sched gw) m = Some q"
    have "R \<inter> set (live_ids q) = {}" using live_owner[OF D(1) mq] sampling by fastforce
    then show "model_inv ?F (futures gw') m rec q" by (rule model_inv_frame[OF coreD(5)[OF D(1) mq] fr]) simp
  qed (use coreD(2-4)[OF D(1)] fut_frameD(1)[OF fr] in auto)
  have "none_lost (futures gw') (models gw) (sched gw) (creating gw) (sample_tasks gw')"
    by (rule none_lost_frame[OF D(2) fr]) (use tasks(3) in \<open>auto simp: not_lost_def split: future_owner.splits\<close>)
  moreover have "creating_ok gw'"
  proof (rule creating_ok_frame[OF D(4) fr])
    fix m rec assume m: "m \<in> set (creating gw)" "map_of (models gw) m = Some rec"
    obtain f where f: "lookup_future (futures gw) (create_request_id rec) = Some f" using D(4) m unfolding creating_ok_def by blast
    obtain q where q: "map_of (sched gw) m = Some q" using coreD(4)[OF D(1), of m] m(2) by auto
    have "rf_model f = Training_Model m" using model_invD(10)[OF coreD(5)[OF D(1) m(2) q] _ f] by (simp add: own_ids_def)
    then show "create_request_id rec \<notin> R" using sampling[OF _ f] by auto
  qed (use same in auto)
  moreover have "slots_ok cfg gw'" by (rule slots_ok_cong[OF D(3)]) (use same in auto)
  moreover have "tasks_ok (futures gw') (sample_tasks gw')"
    using tasks_ok_frame[OF fr D(5)] tasks(1,2) unfolding tasks_ok_def by blast
  ultimately have "gw_inv cfg ?F gw'" using core same by (simp add: gw_inv_def)
  then show ?thesis using ok lock same(2) unfolding gw_ok_def by (auto split: lock_holder.splits)
qed

text \<open>The same when only the futures change.\<close>

lemma gw_ok_futures:
  assumes "gw_ok cfg gw" and "fut_frame {} (futures gw) fs" shows "gw_ok cfg (gw\<lparr>futures := fs\<rparr>)"
  by (rule gw_ok_frame[OF assms(1), where R = "{}"]) (use assms gw_invD(5)[of cfg "in_flight (lock gw)" gw] in \<open>auto simp: gw_ok_def tasks_ok_def\<close>)

lemma gw_ok_cong:
  assumes "gw_ok cfg gw" and "futures gw' = futures gw" "models gw' = models gw" "sched gw' = sched gw" "creating gw' = creating gw" "free_slots gw' = free_slots gw"
      "releasing gw' = releasing gw" "uids gw \<le> uids gw'" "lock gw' = lock gw" "sample_tasks gw' = sample_tasks gw"
  shows "gw_ok cfg gw'"
proof (rule gw_ok_frame[OF assms(1), where R = "{}"])
  show "fut_frame {} (futures gw) (futures gw')"
    using assms(1,2) fut_frame_refl coreD(1) gw_invD(1) unfolding gw_ok_def by metis
  show "dict_ok (sample_tasks gw')" using assms(1,10) gw_invD(5)[of cfg "in_flight (lock gw)" gw] by (auto simp: gw_ok_def tasks_ok_def)
qed (use assms in auto)

lemma gw_ok_store: "gw_ok cfg gw \<Longrightarrow> store_ok (futures gw)"
  using coreD(1) gw_invD(1) unfolding gw_ok_def by blast

lemma gw_ok_create_session: "gw_ok cfg gw \<Longrightarrow> gw_ok cfg (snd (create_session now tenant gw))"
  by (erule gw_ok_cong) (simp_all add: create_session_def)

lemma gw_ok_heartbeat: "gw_ok cfg gw \<Longrightarrow> gw_ok cfg (snd (heartbeat now tenant sid gw))"
  by (erule gw_ok_cong) (simp_all add: heartbeat_def split: option.splits)

lemma gw_ok_retrieve:
  assumes "gw_ok cfg gw" shows "gw_ok cfg (snd (retrieve_future now tenant r gw))"
proof -
  obtain res fs where g: "get_future now r tenant (futures gw) = (res, fs)" by (cases "get_future now r tenant (futures gw)")
  show ?thesis using gw_ok_futures[OF assms frame_get[OF gw_ok_store[OF assms] g]] by (simp add: retrieve_future_def g)
qed

lemma gw_ok_tasks_cong:
  assumes ok: "gw_ok cfg gw" and "map fst ts = map fst (sample_tasks gw)"
  shows "gw_ok cfg (gw\<lparr>sample_tasks := ts\<rparr>)"
proof -
  have keys: "fst ` set ts = fst ` set (sample_tasks gw)" using arg_cong[OF assms(2), of set] by simp
  have "dict_ok ts" using ok assms(2) gw_invD(5)[of cfg "in_flight (lock gw)" gw] by (simp add: gw_ok_def tasks_ok_def)
  moreover have "fut_frame {} (futures gw) (futures (gw\<lparr>sample_tasks := ts\<rparr>))" using fut_frame_refl[OF gw_ok_store[OF ok]] by simp
  ultimately show ?thesis by (intro gw_ok_frame[OF ok, where R = "{}"]) (use keys in auto)
qed

lemma gw_ok_cancel:
  assumes ok: "gw_ok cfg gw" shows "gw_ok cfg (snd (cancel now tenant r gw))"
proof -
  obtain res fs where g: "get_future now r tenant (futures gw) = (res, fs)" by (cases "get_future now r tenant (futures gw)")
  note ok' = gw_ok_futures[OF ok frame_get[OF gw_ok_store[OF ok] g]]
  have task: "gw_ok cfg (cancel_task r gw')" if "gw_ok cfg gw'" for gw'
  proof (cases "map_of (sample_tasks gw') r")
    case (Some t)
    have "map fst (AList.update r t' d) = map fst d" if "map_of d r = Some t" for t' and d :: "(uid \<times> sample_task) list"
      using that by (induction d) auto
    then show ?thesis using gw_ok_tasks_cong[OF that] Some by (simp add: cancel_task_def)
  qed (simp add: cancel_task_def that)
  show ?thesis using ok' task[OF ok'] by (auto simp: cancel_def g split: sum.splits option.splits)
qed

section \<open>Ending sessions\<close>

lemma gw_ok_end_next:
  assumes ok: "gw_ok cfg gw"
  obtains gw' where "end_next cfg now gw = Inr gw'" and "gw_ok cfg gw'"
proof (cases "\<exists>m ms category. lock gw = Ending (m # ms) category")
  case True
  then obtain m ms category where l: "lock gw = Ending (m # ms) category" by blast
  let ?gw = "gw\<lparr>lock := Ending ms category\<rparr>"
  have inv: "gw_inv cfg {} ?gw" and unf: "unfinished (sched gw)" using ok l by (auto simp: gw_ok_def in_flight_def gw_inv_lock)
  obtain gw' where g: "close_model cfg now m category ?gw = Inr gw'" "gw_inv cfg {} gw'" "sched gw' = AList.delete m (sched ?gw)" "lock gw' = lock ?gw"
    by (rule close_model_ok[OF inv refl, where now = now and category = category and m = m]) (rule that)
  have "unfinished (sched gw')" using unfinished_subset[OF unf pendings_delete] g(3) by simp
  then show thesis using g l by (intro that[of gw']) (simp_all add: end_next_def gw_ok_def in_flight_def)
next
  case False
  have last: "gw_ok cfg (gw\<lparr>lock := Unlocked\<rparr>)" if "lock gw = Ending [] category" for category
    using ok that by (simp add: gw_ok_def in_flight_def gw_inv_lock)
  consider category where "lock gw = Ending [] category" | "lock gw = Unlocked" | u where "lock gw = Running u"
    using False by (metis lock_holder.exhaust neq_Nil_conv)
  then show thesis using last ok by cases (auto simp: end_next_def intro: that)
qed

lemma rfold_fail_frame:
  assumes "store_ok fs" and "rfold (\<lambda>(r, t). fail_future now r c) ts fs = Inr fs'" shows "fut_frame (fst ` set ts) fs fs'"
  using assms
proof (induction ts arbitrary: fs)
  case Nil
  then show ?case using fut_frame_refl by simp
next
  case (Cons x ts)
  obtain fs1 where f: "fail_future now (fst x) c fs = Inr fs1" "rfold (\<lambda>(r, t). fail_future now r c) ts fs1 = Inr fs'"
    using Cons.prems(2) by (cases x) (auto simp: result_simps)
  note fr = frame_fail[OF Cons.prems(1) f(1)]
  show ?case using fut_frame_trans[OF fr Cons.IH[OF fut_frameD(1)[OF fr] f(2)]] by simp
qed

lemma gw_ok_end_sessions:
  assumes ok: "gw_ok cfg gw" and l: "lock gw = Unlocked" and run: "end_sessions now sids expired gw = Inr gw'"
  shows "gw_ok cfg gw'"
proof -
  let ?c = "filter (\<lambda>(r, t). case st_session t of None \<Rightarrow> False | Some sid \<Rightarrow> sid \<in> set sids) (sample_tasks gw)"
  obtain fs where fs: "rfold (\<lambda>(r, t). fail_future now r User_Error) ?c (futures gw) = Inr fs"
    and g: "futures gw' = fs" "models gw' = models gw" "sched gw' = sched gw" "creating gw' = creating gw" "free_slots gw' = free_slots gw"
      "releasing gw' = releasing gw" "uids gw' = uids gw" "\<exists>ms. lock gw' = Ending ms User_Error"
      "sample_tasks gw' = map (\<lambda>(r, t). (r, if (r, t) \<in> set ?c then t\<lparr>st_cancelled := True\<rparr> else t)) (sample_tasks gw)"
    using run by (auto simp: end_sessions_def Let_def result_simps)
  have keys: "map fst (sample_tasks gw') = map fst (sample_tasks gw)" unfolding g(9) by (simp add: comp_def split_beta)
  have keys': "fst ` set (sample_tasks gw') = fst ` set (sample_tasks gw)" using arg_cong[OF keys, of set] by simp
  have d: "dict_ok (sample_tasks gw')" using ok keys gw_invD(5)[of cfg "in_flight (lock gw)" gw] by (simp add: gw_ok_def tasks_ok_def)
  show ?thesis
    by (rule gw_ok_frame[OF ok, where R = "fst ` set ?c"])
      (use rfold_fail_frame[OF gw_ok_store[OF ok] fs] g keys' d l in \<open>auto simp: in_flight_def\<close>)
qed

lemma gw_ok_expire:
  assumes ok: "gw_ok cfg gw" and l: "lock gw = Unlocked" and run: "expire_sessions cfg now gw = Inr gw'"
  shows "gw_ok cfg gw'"
proof -
  obtain sids gw1 es where g: "end_sessions now sids True gw = Inr gw1" "gw' = gw1\<lparr>ended_sessions := es\<rparr>"
    using run by (auto simp: expire_sessions_def Let_def result_simps)
  show ?thesis using gw_ok_cong[OF gw_ok_end_sessions[OF ok l g(1)], of gw'] g(2) by simp
qed

lemma gw_ok_finish_session:
  assumes ok: "gw_ok cfg gw" and l: "lock gw = Unlocked" and run: "finish_session now tenant sid gw = Inr (b, gw')"
  shows "gw_ok cfg gw'"
  using run ok gw_ok_end_sessions[OF ok l]
  by (auto simp: finish_session_def result_simps split: option.splits if_splits)

section \<open>Slots\<close>

lemma gw_ok_release:
  assumes ok: "gw_ok cfg gw" shows "gw_ok cfg (release_slot dead failed gw)"
proof (cases "releasing gw")
  case (Cons x rest)
  obtain slot ini where x: "x = (slot, ini)" by (cases x)
  let ?gw = "release_slot dead failed gw"
  have inv: "gw_inv cfg (in_flight (lock gw)) gw" using ok by (simp add: gw_ok_def)
  have sub: "free_slots ?gw \<subseteq> insert slot (free_slots gw)" and rel: "releasing ?gw = rest" and
    same: "futures ?gw = futures gw" "models ?gw = models gw" "sched ?gw = sched gw" "creating ?gw = creating gw" "sample_tasks ?gw = sample_tasks gw"
      "uids ?gw = uids gw" "lock ?gw = lock gw"
    using Cons x by (auto simp: release_slot_def Let_def)
  have "held_slots gw = slot # held_slots ?gw" using Cons x by (simp add: held_slots_def rel same)
  then have "slots_ok cfg ?gw" using gw_invD(3)[OF inv] sub unfolding slots_ok_def by auto
  then have "gw_inv cfg (in_flight (lock gw)) ?gw" using inv unfolding gw_inv_def creating_ok_def same by simp
  then show ?thesis using ok unfolding gw_ok_def same by simp
qed (use ok in \<open>simp add: release_slot_def\<close>)

text \<open>The creation of a model, once the trainer has loaded its slot or failed to.\<close>

lemma gw_ok_run_create:
  assumes ok: "gw_ok cfg gw" and l: "lock gw = Unlocked" and m: "m \<in> set (creating gw)"
  obtains gw' where "run_create_model cfg now m failed gw = Inr gw'" and "gw_ok cfg gw'"
proof -
  have inv: "gw_inv cfg {} gw" and unf: "unfinished (sched gw)" using ok l by (auto simp: gw_ok_def in_flight_def)
  note D = gw_invD[OF inv]
  let ?cs = "remove1 m (creating gw)"
  have dc: "distinct (creating gw)" using D(4) by (simp add: creating_ok_def)
  show thesis
  proof (cases "map_of (models gw) m")
    case None
    let ?gw = "gw\<lparr>creating := ?cs\<rparr>"
    have "none_lost (futures gw) (models gw) (sched gw) ?cs (sample_tasks gw)"
      using D(2) None dc unfolding none_lost_def by (fastforce simp: not_lost_def split: future_owner.splits option.splits)
    moreover have "creating_ok ?gw" using D(4) dc by (auto simp: creating_ok_def dest: notin_set_remove1)
    ultimately have "gw_ok cfg ?gw" using D l unf by (simp add: gw_ok_def in_flight_def gw_inv_def slots_ok_def held_slots_def)
    then show thesis using None by (intro that[of ?gw]) (simp_all add: run_create_model_def)
  next
    case (Some rec)
    let ?rec = "rec\<lparr>slot_initialized := True\<rparr>"
    let ?ms = "AList.update m ?rec (models gw)"
    let ?gw = "gw\<lparr>creating := ?cs, models := ?ms\<rparr>"
    obtain q where q: "map_of (sched gw) m = Some q" using coreD(4)[OF D(1), of m] Some by auto
    obtain f where f: "lookup_future (futures gw) (create_request_id rec) = Some f" "rf_state f = PENDING"
      using D(4) m Some unfolding creating_ok_def by blast
    have look: "map_of ?ms m' = (if m' = m then Some ?rec else map_of (models gw) m')" for m' by (simp add: dict_simps)
    have rec_inv: "model_inv F fs m ?rec q = model_inv F fs m rec q" for F fs by (simp add: model_inv_def own_ids_def)
    have core: "core {} fs ?ms (sched gw)" if "core {} fs (models gw) (sched gw)" for fs
      using that Some q rec_inv unfolding core_def look by (auto simp: dict_simps simp del: map_of_eq_Some_iff)
    have slots: "slots_ok cfg ?gw"
    proof -
      have "map (\<lambda>(m, rec). mr_slot rec) (AList.update m ?rec ms) = map (\<lambda>(m, rec). mr_slot rec) ms" if "map_of ms m = Some rec" for ms
        using that by (induction ms) auto
      then show ?thesis using D(3) Some by (simp add: slots_ok_def held_slots_def)
    qed
    have keys: "fst ` set ?ms = fst ` set (models gw)"
    proof -
      have "dom (map_of ?ms) = dom (map_of (models gw))" using Some by (auto simp: dict_simps)
      then show ?thesis by (simp add: dom_map_of_conv_image_fst)
    qed
    have other: "create_request_id rec' \<noteq> create_request_id rec" if m': "m' \<noteq> m" "map_of (models gw) m' = Some rec'" for m' rec'
    proof
      assume eq: "create_request_id rec' = create_request_id rec"
      obtain q' where q': "map_of (sched gw) m' = Some q'" using coreD(4)[OF D(1), of m'] m'(2) by auto
      have "rf_model f = Training_Model m'" using model_invD(10)[OF coreD(5)[OF D(1) m'(2) q'], of "create_request_id rec" f] f eq by (simp add: own_ids_def)
      moreover have "rf_model f = Training_Model m" using model_invD(10)[OF coreD(5)[OF D(1) Some q] _ f(1)] by (simp add: own_ids_def)
      ultimately show False using m'(1) by simp
    qed
    show thesis
    proof (cases failed)
      case False
      obtain fs where fs: "resolve_future now (create_request_id rec) [(''op'', JStr ''create_model'')] (futures gw) = Inr fs"
        using settle_total(1)[of "futures gw" "create_request_id rec"] f(1) by auto
      note fr = frame_resolve[OF coreD(1)[OF D(1)] fs]
      let ?gw' = "?gw\<lparr>futures := fs\<rparr>"
      have "core {} fs (models gw) (sched gw)"
      proof (rule coreI)
        fix m' rec' q' assume a: "map_of (models gw) m' = Some rec'" "map_of (sched gw) m' = Some q'"
        have "create_request_id rec \<notin> set (live_ids q')"
        proof
          assume live: "create_request_id rec \<in> set (live_ids q')"
          from live_owner[OF D(1) a live] f(1) model_invD(10)[OF coreD(5)[OF D(1) Some q] _ f(1)] have "m' = m" by (auto simp: own_ids_def)
          then show False using model_invD(11)[OF coreD(5)[OF D(1) a] live] model_invD(8)[OF coreD(5)[OF D(1) a]] a Some by simp
        qed
        then show "model_inv {} fs m' rec' q'" by (intro model_inv_frame[OF coreD(5)[OF D(1) a] fr]) auto
      qed (use coreD(2-4)[OF D(1)] fut_frameD(1)[OF fr] in auto)
      moreover have "none_lost fs ?ms (sched gw) ?cs (sample_tasks gw)"
      proof (rule none_lost_frame[OF D(2) fr])
        fix r f' assume "r \<notin> {create_request_id rec}" "not_lost (models gw) (sched gw) (creating gw) (sample_tasks gw) r f'"
        then show "not_lost ?ms (sched gw) ?cs (sample_tasks gw) r f'"
          using Some dc by (auto simp: not_lost_def look split: future_owner.splits option.splits)
      qed
      moreover have "creating_ok ?gw'"
      proof -
        have "\<exists>f. lookup_future fs (create_request_id rec') = Some f \<and> rf_state f = PENDING"
          if a: "m' \<in> set ?cs" "map_of ?ms m' = Some rec'" for m' rec'
        proof -
          have m': "m' \<noteq> m" "m' \<in> set (creating gw)" using a(1) dc by auto
          then have b: "map_of (models gw) m' = Some rec'" using a(2) look by simp
          then obtain f' where "lookup_future (futures gw) (create_request_id rec') = Some f'" "rf_state f' = PENDING"
            using D(4) m' unfolding creating_ok_def by blast
          then show ?thesis using fut_frameD(4)[OF fr] other[OF m'(1) b] by blast
        qed
        then show ?thesis using D(4) dc keys unfolding creating_ok_def by (auto dest: notin_set_remove1)
      qed
      ultimately have "gw_ok cfg ?gw'"
        using core tasks_ok_frame[OF fr D(5)] slots unf l by (simp add: gw_ok_def in_flight_def gw_inv_def slots_ok_def held_slots_def)
      then show thesis using Some fs False by (intro that[of ?gw']) (simp_all add: run_create_model_def Let_def)
    next
      case True
      text \<open>A failed creation is closed: first with the model still listed as being created.\<close>
      let ?gw1 = "gw\<lparr>models := ?ms\<rparr>"
      have "none_lost (futures gw) ?ms (sched gw) (creating gw) (sample_tasks gw)"
        using D(2) Some unfolding none_lost_def by (fastforce simp: not_lost_def look split: future_owner.splits option.splits)
      moreover have "creating_ok ?gw1" using D(4) keys f look Some unfolding creating_ok_def by (auto simp del: map_of_eq_Some_iff split: if_splits)
      ultimately have inv1: "gw_inv cfg {} ?gw1" using core[OF D(1)] D(5) slots by (simp add: gw_inv_def slots_ok_def held_slots_def)
      obtain gw2 where g: "close_model cfg now m Server_Error ?gw1 = Inr gw2" "gw_inv cfg {} gw2" "sched gw2 = AList.delete m (sched ?gw1)"
        "models gw2 = AList.delete m (models ?gw1)" "lock gw2 = lock ?gw1" "creating gw2 = creating ?gw1"
        by (rule close_model_ok[OF inv1 refl, where now = now and category = Server_Error and m = m]) (rule that)
      let ?gw' = "gw2\<lparr>creating := ?cs\<rparr>"
      note E = gw_invD[OF g(2)]
      have "map_of (models gw2) m = None" using g(4) by (simp add: dict_simps)
      then have "none_lost (futures gw2) (models gw2) (sched gw2) ?cs (sample_tasks gw2)"
        using E(2) g(6) dc unfolding none_lost_def by (fastforce simp: not_lost_def split: future_owner.splits option.splits)
      moreover have "creating_ok ?gw'" using E(4) g(6) dc by (auto simp: creating_ok_def dest: notin_set_remove1)
      ultimately have "gw_ok cfg ?gw'" using E l g unfinished_subset[OF unf pendings_delete]
        by (simp add: gw_ok_def in_flight_def gw_inv_def slots_ok_def held_slots_def)
      moreover have "run_create_model cfg now m failed gw = Inr ?gw'"
        using Some True g(1) by (auto simp: run_create_model_def Let_def close_model_def look result_simps split: option.splits)
      ultimately show thesis by (rule that[rotated])
    qed
  qed
qed

section \<open>New requests\<close>

lemma model_inv_create:
  assumes inv: "model_inv F fs m rec q" shows "model_inv F (snd (create_future own t fs)) m rec q"
proof -
  note D = model_invD[OF inv]
  have ne: "r \<noteq> fs_next fs" if "r \<in> own_ids rec" for r using D(9)[OF that] by simp
  have own: "r \<in> own_ids rec" if "r \<in> set (live_ids q)" for r using D(11)[OF that] by (simp add: own_ids_def)
  have "r < fs_next (snd (create_future own t fs)) \<and> (\<forall>f. lookup_future (snd (create_future own t fs)) r = Some f \<longrightarrow>
      rf_model f = Training_Model m \<and> rf_tenant f = mr_tenant rec)" if "r \<in> own_ids rec" for r
    using D(9,10)[OF that] ne[OF that] by (simp del: map_of_eq_Some_iff)
  moreover have "\<exists>f. lookup_future (snd (create_future own t fs)) r = Some f \<and> rf_state f = PENDING" if "r \<in> set (live_ids q)" for r
    using D(12)[OF that] ne[OF own[OF that]] by (simp del: map_of_eq_Some_iff)
  ultimately show ?thesis using inv unfolding model_inv_def by blast
qed

lemma core_create: "core F fs ms s \<Longrightarrow> core F (snd (create_future own t fs)) ms s"
  using model_inv_create store_ok_create by (auto simp: core_def simp del: map_of_eq_Some_iff)

lemma none_lost_create:
  assumes "none_lost fs ms s cs ts" and "\<And>r f. not_lost ms s cs ts r f \<Longrightarrow> not_lost ms' s' cs' ts' r f"
    and "\<And>f. rf_model f = own \<Longrightarrow> not_lost ms' s' cs' ts' (fs_next fs) f"
  shows "none_lost (snd (create_future own t fs)) ms' s' cs' ts'"
  using assms unfolding none_lost_def by (auto simp del: map_of_eq_Some_iff split: if_splits)

lemma tasks_ok_create:
  assumes "tasks_ok fs ts" shows "tasks_ok (snd (create_future own t fs)) ts"
  using assms unfolding tasks_ok_def by (fastforce simp del: map_of_eq_Some_iff)

lemma creating_ok_create:
  assumes "creating_ok gw" and "futures gw' = snd (create_future own t (futures gw))" "models gw' = models gw" "creating gw' = creating gw" "uids gw \<le> uids gw'"
    and "store_ok (futures gw)"
  shows "creating_ok gw'"
proof -
  have "\<exists>f. lookup_future (futures gw') (create_request_id rec) = Some f \<and> rf_state f = PENDING"
    if m: "m \<in> set (creating gw)" "map_of (models gw) m = Some rec" for m rec
  proof -
    obtain f where f: "lookup_future (futures gw) (create_request_id rec) = Some f" "rf_state f = PENDING"
      using assms(1) m unfolding creating_ok_def by blast
    then have "create_request_id rec \<noteq> fs_next (futures gw)" using store_ok_lookup[OF assms(6) f(1)] by auto
    then show ?thesis using f assms(2) by simp
  qed
  moreover have "m < uids gw'" if "m \<in> fst ` set (models gw) \<union> set (creating gw)" for m
    using assms(1) that assms(5) unfolding creating_ok_def by (meson less_le_trans)
  ultimately show ?thesis using assms(1) unfolding creating_ok_def assms(3,4) by blast
qed

section \<open>Submitting\<close>

lemma enqueue_contiguous_frame:
  assumes "dict_ok (pending_by_seq q)"
  shows "mset (live_ids (enqueue_contiguous q)) = mset (live_ids q)"
    and "\<exists>ps. mq_queue (enqueue_contiguous q) = mq_queue q @ ps \<and> (\<forall>p \<in> set ps. \<exists>k c. (k, c) \<in> set (pending_by_seq q) \<and> p = pending_of c)"
    and "set (pending_by_seq (enqueue_contiguous q)) \<subseteq> set (pending_by_seq q)" and "dict_ok (pending_by_seq (enqueue_contiguous q))"
    and "map_of (pending_by_seq (enqueue_contiguous q)) (last_enqueued_seq_id (enqueue_contiguous q) + 1) = None"
    and "mq_model_id (enqueue_contiguous q) = mq_model_id q" and "mq_slot (enqueue_contiguous q) = mq_slot q"
proof -
  have "mset (live_ids (enqueue_contiguous q)) = mset (live_ids q) \<and>
    (\<exists>ps. mq_queue (enqueue_contiguous q) = mq_queue q @ ps \<and> (\<forall>p \<in> set ps. \<exists>k c. (k, c) \<in> set (pending_by_seq q) \<and> p = pending_of c)) \<and>
    set (pending_by_seq (enqueue_contiguous q)) \<subseteq> set (pending_by_seq q) \<and> dict_ok (pending_by_seq (enqueue_contiguous q)) \<and>
    map_of (pending_by_seq (enqueue_contiguous q)) (last_enqueued_seq_id (enqueue_contiguous q) + 1) = None \<and>
    mq_model_id (enqueue_contiguous q) = mq_model_id q \<and> mq_slot (enqueue_contiguous q) = mq_slot q"
    using assms
  proof (induction q rule: enqueue_contiguous.induct)
    case (1 q)
    let ?k = "last_enqueued_seq_id q + 1"
    show ?case
    proof (cases "map_of (pending_by_seq q) ?k")
      case None
      then have "enqueue_contiguous q = q" by (rule enqueue_contiguous_None)
      then show ?thesis using None "1.prems" by simp
    next
      case (Some c)
      let ?q = "q\<lparr>last_enqueued_seq_id := ?k, pending_by_seq := AList.delete ?k (pending_by_seq q), mq_queue := mq_queue q @ [pending_of c]\<rparr>"
      have step: "enqueue_contiguous q = enqueue_contiguous ?q" using Some by (rule enqueue_contiguous_Some)
      have IH: "mset (live_ids (enqueue_contiguous ?q)) = mset (live_ids ?q) \<and>
        (\<exists>ps. mq_queue (enqueue_contiguous ?q) = mq_queue ?q @ ps \<and> (\<forall>p \<in> set ps. \<exists>k c. (k, c) \<in> set (pending_by_seq ?q) \<and> p = pending_of c)) \<and>
        set (pending_by_seq (enqueue_contiguous ?q)) \<subseteq> set (pending_by_seq ?q) \<and> dict_ok (pending_by_seq (enqueue_contiguous ?q)) \<and>
        map_of (pending_by_seq (enqueue_contiguous ?q)) (last_enqueued_seq_id (enqueue_contiguous ?q) + 1) = None \<and>
        mq_model_id (enqueue_contiguous ?q) = mq_model_id ?q \<and> mq_slot (enqueue_contiguous ?q) = mq_slot ?q"
        using "1.IH"[OF refl Some] "1.prems" by (simp add: dict_simps)
      have sub: "set (AList.delete ?k (pending_by_seq q)) \<subseteq> set (pending_by_seq q)" by (auto simp: AList.delete_eq)
      have "mset (map (\<lambda>(k, c). cmd_request_id c) d) = add_mset (cmd_request_id c) (mset (map (\<lambda>(k, c). cmd_request_id c) (AList.delete k d)))"
        if "dict_ok d" "map_of d k = Some c" for d :: "(int \<times> command) list" and k
        using that by (induction d) (auto simp: delete_id map_of_eq_None_iff)
      from this[OF "1.prems" Some] have ms: "mset (live_ids ?q) = mset (live_ids q)"
        by (simp add: live_ids_def pending_of_def Let_def)
      have "\<exists>ps. mq_queue (enqueue_contiguous ?q) = mq_queue q @ ps \<and> (\<forall>p \<in> set ps. \<exists>k c. (k, c) \<in> set (pending_by_seq q) \<and> p = pending_of c)"
      proof -
        obtain ps where ps: "mq_queue (enqueue_contiguous ?q) = mq_queue ?q @ ps" "\<forall>p \<in> set ps. \<exists>k c. (k, c) \<in> set (pending_by_seq ?q) \<and> p = pending_of c"
          using IH by blast
        have "\<exists>k c. (k, c) \<in> set (pending_by_seq q) \<and> p = pending_of c" if "p \<in> set (pending_of c # ps)" for p
        proof (cases "p = pending_of c")
          case False
          then have "p \<in> set ps" using that by simp
          then show ?thesis using ps(2) sub by simp blast
        qed (use map_of_SomeD[OF Some] in blast)
        then show ?thesis using ps(1) by (intro exI[of _ "pending_of c # ps"]) simp
      qed
      then show ?thesis unfolding step using IH ms sub by (simp del: enqueue_contiguous.simps) blast
    qed
  qed
  then show "mset (live_ids (enqueue_contiguous q)) = mset (live_ids q)"
    "\<exists>ps. mq_queue (enqueue_contiguous q) = mq_queue q @ ps \<and> (\<forall>p \<in> set ps. \<exists>k c. (k, c) \<in> set (pending_by_seq q) \<and> p = pending_of c)"
    "set (pending_by_seq (enqueue_contiguous q)) \<subseteq> set (pending_by_seq q)" "dict_ok (pending_by_seq (enqueue_contiguous q))"
    "map_of (pending_by_seq (enqueue_contiguous q)) (last_enqueued_seq_id (enqueue_contiguous q) + 1) = None"
    "mq_model_id (enqueue_contiguous q) = mq_model_id q" "mq_slot (enqueue_contiguous q) = mq_slot q"
    by blast+
qed

lemma pending_of_simps [simp]: "pr_command (pending_of c) = c"
  by (simp add: pending_of_def Let_def)

lemma accounted_new:
  assumes "command_ok c" and "\<And>i. (m, cmd_request_id c, i) \<notin> F" shows "accounted F m (pending_of c)"
  using assms by (auto simp: accounted_def pending_of_def pending_is_batch_def command_ok_def Let_def)

lemma pending_of_unfinished:
  assumes "command_ok c" and "pending_is_batch (pending_of c)" "\<not> validation_error c" shows "0 < remaining (pending_of c)"
  using assms by (auto simp: pending_of_def pending_is_batch_def command_ok_def Let_def)

lemma unit_ok_mono:
  assumes "\<And>m q. map_of s m = Some q \<Longrightarrow> \<exists>q'. map_of s' m = Some q' \<and> set (mq_queue q) \<subseteq> set (mq_queue q')" and "unit_ok s u"
  shows "unit_ok s' u"
proof -
  have "ref_valid s' r" if "ref_valid s r" for r
    using that assms(1) unfolding ref_valid_def by (meson subsetD)
  moreover have "in_queue s' m c" if "in_queue s m c" for m c
    using that assms(1) unfolding in_queue_def by blast
  ultimately show ?thesis using assms(2) by (auto simp: unit_ok_def split: work_unit.splits)
qed

lemma in_flight_queued:
  assumes "gw_ok cfg gw" and "(m, r, i) \<in> in_flight (lock gw)"
  shows "\<exists>q. map_of (sched gw) m = Some q \<and> r \<in> set (queue_ids q)"
proof -
  obtain op loss config picked where l: "lock gw = Running (Batch_Unit op loss config picked)" and x: "(m, r, i) \<in> ref_key ` set picked"
    using assms(2) by (auto simp: in_flight_def split: lock_holder.splits work_unit.splits)
  then obtain y where "y \<in> set picked" "ref_model y = m" "ref_request y = r" by auto
  moreover have "ref_valid (sched gw) y" if "y \<in> set picked" for y using assms(1) l that by (simp add: gw_ok_def unit_ok_def)
  ultimately show ?thesis by (force simp: ref_valid_def)
qed

text \<open>A decoded command: what the decoders of the requests guarantee of its payload.\<close>

definition decoded :: "gateway_config \<Rightarrow> string \<Rightarrow> obj \<Rightarrow> bool \<Rightarrow> bool" where
  "decoded cfg op_name payload content_error \<longleftrightarrow> content_error \<or>
     (\<forall>op. map_of command_ops op_name = Some op \<longrightarrow>
        (\<forall>e. validate_batch_payload op payload cfg = Inl e \<longrightarrow> e = UserInputError) \<and> (op = OPTIM_STEP \<longrightarrow> dhas payload ''adam_params''))"

lemma validated_command_ok:
  assumes "validate_batch_payload (cmd_op c) (cmd_payload c) cfg = Inr u" and "cmd_op c = OPTIM_STEP \<Longrightarrow> dhas (cmd_payload c) ''adam_params''"
  shows "command_ok c"
proof -
  have "datums_of c \<noteq> []" if b: "is_batch (cmd_op c)"
    using assms(1) validate_batch_payload_iff[OF b, of "cmd_payload c" cfg] by (auto simp: datums_of_def)
  then show ?thesis using assms(2) by (auto simp: command_ok_def)
qed

lemma model_inv_submit:
  assumes inv: "model_inv F fs m rec q" and ok: "store_ok fs" and own: "own = Training_Model m" "t = mr_tenant rec"
    and k: "map_of (request_id_by_seq rec) k = None" and c: "cmd_seq_id c = k" "cmd_request_id c = fs_next fs" "command_ok c"
    and F: "\<forall>r i. (m, r, i) \<in> F \<longrightarrow> r \<in> set (queue_ids q)"
  shows "model_inv F (snd (create_future own t fs)) m (rec\<lparr>request_id_by_seq := AList.update k (fs_next fs) (request_id_by_seq rec)\<rparr>) (submit_command c q)"
    and "\<exists>ps. mq_queue (submit_command c q) = mq_queue q @ ps \<and> (\<forall>p \<in> set ps. pending_is_batch p \<longrightarrow> \<not> rejected p \<longrightarrow> 0 < remaining p)"
    and "set (live_ids (submit_command c q)) = insert (fs_next fs) (set (live_ids q))"
proof -
  note D = model_invD[OF inv]
  let ?q = "q\<lparr>pending_by_seq := AList.update k c (pending_by_seq q)\<rparr>" and ?q' = "submit_command c q"
  let ?rec = "rec\<lparr>request_id_by_seq := AList.update k (fs_next fs) (request_id_by_seq rec)\<rparr>"
  have knew: "map_of (pending_by_seq q) k = None" using D(7) k by (metis domIff subsetD)
  have upd: "AList.update k c (pending_by_seq q) = pending_by_seq q @ [(k, c)]" using knew by (simp add: update_fresh map_of_None_fst)
  have q': "?q' = enqueue_contiguous ?q" using c(1) by (simp add: submit_command_def)
  have dq: "dict_ok (pending_by_seq ?q)" using D(4) by (simp add: dict_simps)
  note E = enqueue_contiguous_frame[OF dq, folded q']
  have live_q: "mset (live_ids ?q) = add_mset (fs_next fs) (mset (live_ids q))" by (simp add: live_ids_def upd c(2))
  then have ms: "mset (live_ids ?q') = add_mset (fs_next fs) (mset (live_ids q))" using E(1) by simp
  have set_live: "set (live_ids ?q') = insert (fs_next fs) (set (live_ids q))"
    using arg_cong[OF ms, of set_mset] by simp
  then show "set (live_ids ?q') = insert (fs_next fs) (set (live_ids q))" .
  have own_lt: "r < fs_next fs" if "r \<in> own_ids rec" for r using D(9)[OF that] .
  have live_own: "r \<in> own_ids rec" if "r \<in> set (live_ids q)" for r using D(11)[OF that] by (simp add: own_ids_def)
  have new_live: "fs_next fs \<notin> set (live_ids q)" using own_lt live_own by blast
  have distinct': "distinct (live_ids ?q')"
  proof -
    have "distinct (fs_next fs # live_ids q)" using D(3) new_live by simp
    moreover have "mset (live_ids ?q') = mset (fs_next fs # live_ids q)" using ms by simp
    ultimately show ?thesis using mset_eq_imp_distinct_iff by blast
  qed
  have cmds: "command_ok c'" if "(k', c') \<in> set (pending_by_seq ?q)" for k' c'
    using that D(13) c(3) by (auto simp: upd)
  obtain ps where ps: "mq_queue ?q' = mq_queue ?q @ ps" "\<forall>p \<in> set ps. \<exists>k c. (k, c) \<in> set (pending_by_seq ?q) \<and> p = pending_of c"
    using E(2) by blast
  have new_pending: "accounted F m p \<and> (pending_is_batch p \<longrightarrow> \<not> rejected p \<longrightarrow> 0 < remaining p)" if p: "p \<in> set ps" for p
  proof -
    obtain k' c' where c': "(k', c') \<in> set (pending_by_seq ?q)" "p = pending_of c'" using ps(2) p by blast
    have "cmd_request_id c' \<notin> set (queue_ids q)"
    proof
      assume a: "cmd_request_id c' \<in> set (queue_ids q)"
      have "pr_id p \<in> set (map pr_id ps)" using p by simp
      then have "cmd_request_id c' \<in> set (map pr_id ps)" using c'(2) by simp
      moreover have "distinct (queue_ids q @ map pr_id ps @ waiting_ids ?q')" using distinct' ps(1) by (simp add: live_ids_def)
      ultimately show False using a unfolding distinct_append by auto
    qed
    then have "accounted F m p" using accounted_new[OF cmds[OF c'(1)], of m F] F c'(2) by blast
    then show ?thesis using pending_of_unfinished[OF cmds[OF c'(1)]] c'(2) by simp
  qed
  then show "\<exists>ps. mq_queue ?q' = mq_queue q @ ps \<and> (\<forall>p \<in> set ps. pending_is_batch p \<longrightarrow> \<not> rejected p \<longrightarrow> 0 < remaining p)"
    using ps(1) by (intro exI[of _ ps]) simp
  have ran: "ran (map_of (request_id_by_seq ?rec)) = insert (fs_next fs) (ran (map_of (request_id_by_seq rec)))"
    using k by (simp add: dict_simps)
  have dom': "dom (map_of (pending_by_seq ?q')) \<subseteq> dom (map_of (request_id_by_seq ?rec))"
  proof -
    have "dom (map_of (pending_by_seq ?q')) \<subseteq> fst ` set (pending_by_seq ?q)" using E(3) by (auto simp: dom_map_of_conv_image_fst)
    also have "\<dots> \<subseteq> insert k (dom (map_of (pending_by_seq q)))" by (auto simp: upd dom_map_of_conv_image_fst)
    also have "\<dots> \<subseteq> dom (map_of (request_id_by_seq ?rec))" using D(7) by (auto simp: dict_simps)
    finally show ?thesis .
  qed
  have owners: "r < fs_next (snd (create_future own t fs)) \<and> (\<forall>f. lookup_future (snd (create_future own t fs)) r = Some f \<longrightarrow>
      rf_model f = Training_Model m \<and> rf_tenant f = mr_tenant ?rec)" if r: "r \<in> own_ids ?rec" for r
  proof (cases "r = fs_next fs")
    case False
    then have "r \<in> own_ids rec" using r ran by (auto simp: own_ids_def)
    then show ?thesis using D(9,10)[of r] False by (simp del: map_of_eq_Some_iff)
  qed (simp add: own)
  have lives: "r \<in> ran (map_of (request_id_by_seq ?rec)) \<and> (\<exists>f. lookup_future (snd (create_future own t fs)) r = Some f \<and> rf_state f = PENDING)"
    if r: "r \<in> set (live_ids ?q')" for r
  proof (cases "r = fs_next fs")
    case False
    then have "r \<in> set (live_ids q)" using r set_live by simp
    then show ?thesis using D(11,12)[of r] False unfolding ran by (simp del: map_of_eq_Some_iff)
  qed (unfold ran, simp)
  have create: "create_request_id ?rec \<notin> ran (map_of (request_id_by_seq ?rec))"
    unfolding ran using D(8) own_lt[of "create_request_id rec"] by (simp add: own_ids_def)
  have pend: "accounted F m p" if "p \<in> set (mq_queue ?q')" for p using that ps(1) new_pending D(14) by auto
  have waiting: "command_ok c'" if "(k', c') \<in> set (pending_by_seq ?q')" for k' c' using that E(3) cmds by blast
  show "model_inv F (snd (create_future own t fs)) m ?rec ?q'"
    unfolding model_inv_def
    using D(1,2) E(4-7) distinct' dom' create owners lives pend waiting dict_ok_update[OF D(5)] by auto
qed

lemma map_update_same:
  "map_of d k = Some v \<Longrightarrow> g v' = g v \<Longrightarrow> map (\<lambda>(k, v). g v) (AList.update k v' d) = map (\<lambda>(k, v). g v) d"
  by (induction d) auto

lemma keys_update: "map_of d k = Some v \<Longrightarrow> fst ` set (AList.update k v' d) = fst ` set d"
  by (simp flip: dom_map_of_conv_image_fst add: dict_simps insert_absorb domI)

text \<open>Replacing the record and the queue of one model.\<close>

lemma gw_inv_replace:
  assumes inv: "gw_inv cfg F gw" and rec: "map_of (models gw) m = Some rec" and q: "map_of (sched gw) m = Some q" and ok: "store_ok fs"
    and others: "\<And>m' rec q. m' \<noteq> m \<Longrightarrow> map_of (models gw) m' = Some rec \<Longrightarrow> map_of (sched gw) m' = Some q \<Longrightarrow> model_inv F fs m' rec q"
    and new: "model_inv F fs m rec' q'" and same: "mr_slot rec' = mr_slot rec" "create_request_id rec' = create_request_id rec"
    and lost: "none_lost fs (AList.update m rec' (models gw)) (AList.update m q' (sched gw)) (creating gw) (sample_tasks gw)"
    and pend: "\<And>r f. lookup_future (futures gw) r = Some f \<Longrightarrow> rf_state f = PENDING \<Longrightarrow> lookup_future fs r = Some f"
    and tasks: "tasks_ok fs (sample_tasks gw)"
    and gw': "futures gw' = fs" "models gw' = AList.update m rec' (models gw)" "sched gw' = AList.update m q' (sched gw)" "creating gw' = creating gw"
      "sample_tasks gw' = sample_tasks gw" "uids gw' = uids gw" "releasing gw' = releasing gw" "free_slots gw' = free_slots gw"
  shows "gw_inv cfg F gw'"
proof -
  note D = gw_invD[OF inv]
  have "core F fs (models gw') (sched gw')"
  proof (rule coreI)
    fix m' rec1 q1
    assume "map_of (models gw') m' = Some rec1" "map_of (sched gw') m' = Some q1"
    then show "model_inv F fs m' rec1 q1" using new others by (cases "m' = m") (simp_all add: gw' dict_simps del: map_of_eq_Some_iff)
  next
    show "map_of (models gw') m' = None \<longleftrightarrow> map_of (sched gw') m' = None" for m'
      using coreD(4)[OF D(1), of m'] by (simp add: gw' dict_simps)
  qed (use coreD(2,3)[OF D(1)] ok in \<open>simp_all add: gw' dict_simps\<close>)
  moreover have "slots_ok cfg gw'"
    using D(3) map_update_same[OF rec, of mr_slot rec'] same(1) by (simp add: slots_ok_def held_slots_def gw')
  moreover have "creating_ok gw'"
  proof -
    have "\<exists>f. lookup_future fs (create_request_id rec1) = Some f \<and> rf_state f = PENDING"
      if m': "m' \<in> set (creating gw)" "map_of (models gw') m' = Some rec1" for m' rec1
    proof -
      obtain rec0 where "map_of (models gw) m' = Some rec0" "create_request_id rec1 = create_request_id rec0"
        using m'(2) rec same(2) by (cases "m' = m") (auto simp: gw' dict_simps simp del: map_of_eq_Some_iff)
      then show ?thesis using D(4) m'(1) pend unfolding creating_ok_def by metis
    qed
    then show ?thesis using D(4) keys_update[OF rec] unfolding creating_ok_def gw' by simp
  qed
  ultimately show ?thesis using lost tasks by (simp add: gw_inv_def gw')
qed

lemma not_lost_replace:
  assumes "not_lost ms s cs ts r f" and "map_of ms m = Some rec" "map_of s m = Some q" and "set (live_ids q) \<subseteq> set (live_ids q')" "create_request_id rec' = create_request_id rec"
  shows "not_lost (AList.update m rec' ms) (AList.update m q' s) cs ts r f"
  using assms by (auto simp: not_lost_def dict_simps split: future_owner.splits option.splits)

lemma update_existing: "map_of d k = Some v \<Longrightarrow> AList.update k v d = d"
  by (induction d) auto

lemma retry_submit_inv:
  assumes inv: "gw_inv cfg F gw" and rec: "map_of (models gw) m = Some rec" and q: "map_of (sched gw) m = Some q" and t: "t = mr_tenant rec"
    and k: "map_of (request_id_by_seq rec) k = Some r" and run: "request_id_for_retry now r (Training_Model m) t (futures gw) = (Inr r', fs)"
  shows "gw_inv cfg F (gw\<lparr>futures := fs, models := AList.update m (rec\<lparr>request_id_by_seq := AList.update k r' (request_id_by_seq rec)\<rparr>) (models gw)\<rparr>)"
proof -
  note D = gw_invD[OF inv] and M = model_invD[OF coreD(5)[OF gw_invD(1)[OF inv] rec q]]
  note ok = coreD(1)[OF D(1)]
  note fr = frame_retry[OF ok run]
  let ?rec = "rec\<lparr>request_id_by_seq := AList.update k r' (request_id_by_seq rec)\<rparr>"
  have inv1: "model_inv F fs m rec q" by (rule model_inv_frame[OF coreD(5)[OF D(1) rec q] fr]) auto
  note N = model_invD[OF inv1]
  have new: "model_inv F fs m ?rec q"
  proof (cases "r' = r")
    case True
    then have "AList.update k r' (request_id_by_seq rec) = request_id_by_seq rec" using k by (simp add: update_existing)
    then show ?thesis using inv1 by simp
  next
    case False
    then have gone: "lookup_future (sweep now (futures gw)) r = None" "r' = fs_next (futures gw)" and
      fs: "lookup_future fs r' = Some \<lparr>rf_model = Training_Model m, rf_tenant = t, rf_state = FAILED, rf_result = None, rf_category = Some User_Error, finished_at = Some now\<rparr>"
        "r' < fs_next fs"
      using retry_cases[OF ok, of now r "Training_Model m" t] run by (auto split: if_splits)
    have dead: "r \<notin> set (live_ids q)"
    proof
      assume live: "r \<in> set (live_ids q)"
      then obtain f where "lookup_future (futures gw) r = Some f" "rf_state f = PENDING" using M(12) by blast
      then show False using fut_frameD(4)[OF frame_sweep[OF ok, of now]] gone(1) by auto
    qed
    let ?ran = "ran (map_of (request_id_by_seq rec))" and ?ran' = "ran (map_of (request_id_by_seq ?rec))"
    have ran': "?ran' \<subseteq> insert r' ?ran" "map_of (request_id_by_seq ?rec) = (map_of (request_id_by_seq rec))(k \<mapsto> r')"
      by (auto simp: dict_simps ran_def split: if_splits)
    have keep: "x \<in> ?ran'" if x: "x \<in> ?ran" "x \<noteq> r" for x
    proof -
      obtain j where j: "map_of (request_id_by_seq rec) j = Some x" using x(1) unfolding ran_def by blast
      then have "map_of (request_id_by_seq ?rec) j = Some x" using k x(2) unfolding ran'(2) by auto
      then show ?thesis by (rule ranI)
    qed
    have "x \<noteq> r'" if "x \<in> own_ids rec" for x using M(9)[OF that] gone(2) by simp
    then have "r' \<notin> ?ran" "create_request_id rec \<noteq> r'" unfolding own_ids_def by blast+
    then have "create_request_id ?rec \<notin> ?ran'" using ran'(1) M(8) by auto
    moreover have "x \<in> ?ran'" if "x \<in> set (live_ids q)" for x using keep M(11)[OF that] dead that by blast
    moreover have "x < fs_next fs \<and> (\<forall>f. lookup_future fs x = Some f \<longrightarrow> rf_model f = Training_Model m \<and> rf_tenant f = mr_tenant ?rec)"
      if x: "x \<in> own_ids ?rec" for x
    proof (cases "x = r'")
      case True
      then show ?thesis using fs t by simp
    next
      case False
      then have "x \<in> own_ids rec" using x ran'(1) by (auto simp: own_ids_def)
      then show ?thesis using N(9,10)[of x] by simp
    qed
    moreover have "dom (map_of (pending_by_seq q)) \<subseteq> dom (map_of (request_id_by_seq ?rec))" using M(7) ran'(2) by auto
    ultimately show ?thesis using N(1-6,12-14) dict_ok_update[OF N(5)] unfolding model_inv_def by auto
  qed
  have upd: "AList.update m q (sched gw) = sched gw" using q by (rule update_existing)
  show ?thesis
  proof (rule gw_inv_replace[OF inv rec q fut_frameD(1)[OF fr] _ new])
    show "model_inv F fs m' rec1 q1" if "m' \<noteq> m" "map_of (models gw) m' = Some rec1" "map_of (sched gw) m' = Some q1" for m' rec1 q1
      by (rule model_inv_frame[OF coreD(5)[OF D(1) that(2,3)] fr]) auto
    show "none_lost fs (AList.update m ?rec (models gw)) (AList.update m q (sched gw)) (creating gw) (sample_tasks gw)"
      by (rule none_lost_frame[OF D(2) fr]) (auto intro: not_lost_replace[OF _ rec q])
    show "tasks_ok fs (sample_tasks gw)" by (rule tasks_ok_frame[OF fr D(5)])
    show "lookup_future fs r = Some f" if "lookup_future (futures gw) r = Some f" "rf_state f = PENDING" for r f
      using fut_frameD(4)[OF fr that] by simp
  qed (simp_all add: upd)
qed

lemma gw_ok_intro:
  assumes ok: "gw_ok cfg gw" and inv: "gw_inv cfg (in_flight (lock gw)) gw'" and l: "lock gw' = lock gw" and unf: "unfinished (sched gw')"
    and grow: "\<And>m q. map_of (sched gw) m = Some q \<Longrightarrow> \<exists>q'. map_of (sched gw') m = Some q' \<and> set (mq_queue q) \<subseteq> set (mq_queue q')"
  shows "gw_ok cfg gw'"
  using assms unit_ok_mono[OF grow] unfolding gw_ok_def l by (auto split: lock_holder.splits)

lemma gw_ok_submit:
  assumes ok: "gw_ok cfg gw" and dec: "decoded cfg op_name payload content_error"
  shows "gw_ok cfg (snd (submit cfg now tenant op_name m seq payload content_error gw))"
proof -
  let ?F = "in_flight (lock gw)"
  have inv: "gw_inv cfg ?F gw" and unf: "unfinished (sched gw)" using ok by (auto simp: gw_ok_def)
  note D = gw_invD[OF inv]
  note st = coreD(1)[OF D(1)]
  show ?thesis
  proof (cases "\<exists>op rec k q. map_of command_ops op_name = Some op \<and> get_model tenant m gw = Inr rec \<and> validate_seq_id seq 1 = Inr k \<and> map_of (sched gw) m = Some q")
    case False
    then have "snd (submit cfg now tenant op_name m seq payload content_error gw) = gw"
      by (auto simp: submit_def split: option.splits sum.splits)
    then show ?thesis using ok by simp
  next
    case True
    then obtain op rec k q where op: "map_of command_ops op_name = Some op" and gm: "get_model tenant m gw = Inr rec" and k: "validate_seq_id seq 1 = Inr k"
      and q: "map_of (sched gw) m = Some q" by blast
    have rec: "map_of (models gw) m = Some rec" "mr_tenant rec = tenant" using gm by (auto simp: get_model_def split: option.splits if_splits)
    note inv_m = coreD(5)[OF D(1) rec(1) q]
    show ?thesis
    proof (cases "map_of (request_id_by_seq rec) k")
      case (Some r)
      obtain res fs where run: "request_id_for_retry now r (Training_Model m) tenant (futures gw) = (res, fs)" by (cases "request_id_for_retry now r (Training_Model m) tenant (futures gw)")
      show ?thesis
      proof (cases res)
        case (Inl e)
        then show ?thesis using gw_ok_futures[OF ok frame_retry[OF st run]] op gm k q Some run by (simp add: submit_def)
      next
        case (Inr r')
        have "gw_inv cfg ?F (gw\<lparr>futures := fs, models := AList.update m (rec\<lparr>request_id_by_seq := AList.update k r' (request_id_by_seq rec)\<rparr>) (models gw)\<rparr>)"
          by (rule retry_submit_inv[OF inv rec(1) q rec(2)[symmetric] Some run[unfolded Inr]])
        from gw_ok_intro[OF ok this] show ?thesis using op gm k q Some run Inr unf by (simp add: submit_def)
      qed
    next
      case None
      let ?r = "fs_next (futures gw)" and ?fs = "snd (create_future (Training_Model m) tenant (futures gw))"
      let ?rec = "rec\<lparr>request_id_by_seq := AList.update k ?r (request_id_by_seq rec)\<rparr>"
      define cmd where "cmd = (\<lambda>invalid. \<lparr>cmd_model_id = m, cmd_seq_id = k, cmd_op = op, cmd_payload = payload, cmd_request_id = ?r,
        cmd_arrival = arrival_counter gw + 1, validation_error = invalid\<rparr>)"
      define gw2 where "gw2 = (\<lambda>invalid. gw\<lparr>futures := ?fs, arrival_counter := arrival_counter gw + 1, models := AList.update m ?rec (models gw),
        sched := AList.update m (submit_command (cmd invalid) q) (sched gw)\<rparr>)"
      obtain invalid where s: "snd (submit cfg now tenant op_name m seq payload content_error gw) = gw2 invalid" and cok: "command_ok (cmd invalid)"
      proof (cases "content_error \<or> validate_batch_payload op payload cfg = Inl UserInputError")
        case True
        then show thesis using op gm k q None
          by (intro that[of True]) (auto simp: submit_def gw2_def cmd_def Let_def split_beta command_ok_def)
      next
        case False
        then obtain u where v: "validate_batch_payload op payload cfg = Inr u" and adam: "op = OPTIM_STEP \<Longrightarrow> dhas payload ''adam_params''"
          using dec op unfolding decoded_def by (cases "validate_batch_payload op payload cfg") auto
        show thesis using op gm k q None False v validated_command_ok[of "cmd False" cfg u] adam
          by (intro that[of False]) (auto simp: submit_def gw2_def cmd_def Let_def split_beta)
      qed
      have c: "cmd_seq_id (cmd invalid) = k" "cmd_request_id (cmd invalid) = ?r" by (simp_all add: cmd_def)
      have F: "\<forall>r i. (m, r, i) \<in> ?F \<longrightarrow> r \<in> set (queue_ids q)" using in_flight_queued[OF ok] q by fastforce
      note S = model_inv_submit[OF inv_m st refl rec(2)[symmetric] None c cok F]
      obtain ps where ps: "mq_queue (submit_command (cmd invalid) q) = mq_queue q @ ps" "\<forall>p \<in> set ps. pending_is_batch p \<longrightarrow> \<not> rejected p \<longrightarrow> 0 < remaining p"
        using S(2) by blast
      let ?q = "submit_command (cmd invalid) q"
      have "gw_inv cfg ?F (gw2 invalid)"
      proof (rule gw_inv_replace[OF inv rec(1) q store_ok_create[OF st] _ S(1)])
        show "model_inv ?F ?fs m' rec1 q1" if "m' \<noteq> m" "map_of (models gw) m' = Some rec1" "map_of (sched gw) m' = Some q1" for m' rec1 q1
          by (rule model_inv_create[OF coreD(5)[OF D(1) that(2,3)]])
        show "none_lost ?fs (AList.update m ?rec (models gw)) (AList.update m ?q (sched gw)) (creating gw) (sample_tasks gw)"
        proof (rule none_lost_create[OF D(2)])
          show "not_lost (AList.update m ?rec (models gw)) (AList.update m ?q (sched gw)) (creating gw) (sample_tasks gw) r f"
            if "not_lost (models gw) (sched gw) (creating gw) (sample_tasks gw) r f" for r f
            by (rule not_lost_replace[OF that rec(1) q]) (use S(3) in auto)
          show "not_lost (AList.update m ?rec (models gw)) (AList.update m ?q (sched gw)) (creating gw) (sample_tasks gw) ?r f"
            if "rf_model f = Training_Model m" for f using that S(3) by (simp add: not_lost_def dict_simps)
        qed
        show "tasks_ok ?fs (sample_tasks gw)" by (rule tasks_ok_create[OF D(5)])
        show "lookup_future ?fs r = Some f" if "lookup_future (futures gw) r = Some f" "rf_state f = PENDING" for r f
          using that store_ok_lookup[OF st that(1)] by simp
      qed (simp_all add: gw2_def)
      moreover have "unfinished (sched (gw2 invalid))"
        using unf ps unfolding unfinished_def pendings_def gw2_def
        by (auto simp: dict_simps q simp del: map_of_eq_Some_iff split: if_splits) (use q in blast)+
      moreover have "\<exists>q''. map_of (sched (gw2 invalid)) m' = Some q'' \<and> set (mq_queue q') \<subseteq> set (mq_queue q'')" if "map_of (sched gw) m' = Some q'" for m' q'
        using that q ps(1) by (auto simp: gw2_def dict_simps simp del: map_of_eq_Some_iff)
      ultimately show ?thesis unfolding s by (intro gw_ok_intro[OF ok]) (simp_all add: gw2_def)
    qed
  qed
qed

section \<open>Creating models\<close>

lemma gw_ok_allocate:
  assumes ok: "gw_ok cfg gw" and free: "free_slots gw \<noteq> {}"
  shows "gw_ok cfg (snd (allocate_model cfg tenant sid session k rank gw))"
proof -
  let ?F = "in_flight (lock gw)"
  have inv: "gw_inv cfg ?F gw" and unf: "unfinished (sched gw)" using ok by (auto simp: gw_ok_def)
  note D = gw_invD[OF inv]
  note st = coreD(1)[OF D(1)]
  let ?m = "uids gw" and ?r = "fs_next (futures gw)" and ?slot = "Min (free_slots gw)"
  let ?fs = "snd (create_future (Training_Model ?m) tenant (futures gw))"
  define rec where "rec = \<lparr>mr_session = sid, mr_tenant = tenant, mr_slot = ?slot, mr_base_model = cfg_base_model cfg, mr_rank = rank,
                 mr_alpha = lora_alpha_of cfg rank, create_request_id = ?r, request_id_by_seq = [], slot_initialized = False,
                 next_sampler_version = 1\<rparr>"
  let ?gw = "snd (allocate_model cfg tenant sid session k rank gw)"
  have fresh: "?m \<notin> fst ` set (models gw)" "?m \<notin> set (creating gw)" using D(4) unfolding creating_ok_def by blast+
  then have none: "map_of (models gw) ?m = None" by (simp add: map_of_None_fst)
  have nones: "map_of (sched gw) ?m = None" using coreD(4)[OF D(1), of ?m] none by simp
  have gw: "futures ?gw = ?fs" "models ?gw = models gw @ [(?m, rec)]" "sched ?gw = sched gw @ [(?m, new_queue ?m tenant ?slot)]"
    "creating ?gw = creating gw @ [?m]" "sample_tasks ?gw = sample_tasks gw" "uids ?gw = uids gw + 1" "releasing ?gw = releasing gw"
    "free_slots ?gw = free_slots gw - {?slot}" "lock ?gw = lock gw"
    using fresh nones by (simp_all add: allocate_model_def Let_def split_beta add_model_queue_def update_fresh map_of_None_fst rec_def new_queue_def)
  have look: "map_of (models ?gw) m = (if m = ?m then Some rec else map_of (models gw) m)" for m
    using none by (auto simp: gw map_add_def split: option.splits)
  have looks: "map_of (sched ?gw) m = (if m = ?m then Some (new_queue ?m tenant ?slot) else map_of (sched gw) m)" for m
    using nones by (auto simp: gw map_add_def split: option.splits)
  have "core ?F ?fs (models ?gw) (sched ?gw)"
  proof (rule coreI)
    fix m rec1 q1 assume a: "map_of (models ?gw) m = Some rec1" "map_of (sched ?gw) m = Some q1"
    show "model_inv ?F ?fs m rec1 q1"
    proof (cases "m = ?m")
      case True
      then have "rec1 = rec" "q1 = new_queue ?m tenant ?slot" using a by (simp_all add: look looks)
      then show ?thesis using True
        by (auto simp: model_inv_def rec_def new_queue_def live_ids_def own_ids_def simp del: map_of_eq_Some_iff split: if_splits)
    next
      case False
      then show ?thesis using a coreD(5)[OF D(1)] model_inv_create by (simp add: look looks del: map_of_eq_Some_iff)
    qed
  next
    show "map_of (models ?gw) m = None \<longleftrightarrow> map_of (sched ?gw) m = None" for m using coreD(4)[OF D(1), of m] by (simp add: look looks)
    show "dict_ok (models ?gw)" "dict_ok (sched ?gw)" using coreD(2,3)[OF D(1)] fresh nones by (simp_all add: gw map_of_None_fst)
  qed (rule store_ok_create[OF st])
  moreover have "none_lost ?fs (models ?gw) (sched ?gw) (creating ?gw) (sample_tasks gw)"
  proof (rule none_lost_create[OF D(2)])
    fix r f assume "not_lost (models gw) (sched gw) (creating gw) (sample_tasks gw) r f"
    then show "not_lost (models ?gw) (sched ?gw) (creating ?gw) (sample_tasks gw) r f"
      using none by (auto simp: not_lost_def look looks gw(4) split: future_owner.splits option.splits)
  qed (simp add: not_lost_def look looks gw(4) rec_def)
  moreover have "slots_ok cfg ?gw"
  proof -
    have "finite (free_slots gw)" using D(3) finite_subset unfolding slots_ok_def by blast
    then have slot: "?slot \<in> free_slots gw" using free by (rule Min_in)
    moreover have "set (held_slots ?gw) = insert ?slot (set (held_slots gw))" and "mset (held_slots ?gw) = add_mset ?slot (mset (held_slots gw))"
      by (simp_all add: held_slots_def gw rec_def)
    moreover have "distinct (?slot # held_slots gw)" using D(3) slot unfolding slots_ok_def by auto
    then have "distinct (held_slots ?gw)" using mset_eq_imp_distinct_iff[of "held_slots ?gw" "?slot # held_slots gw"]
      by (simp add: held_slots_def gw rec_def)
    ultimately show ?thesis using D(3) unfolding slots_ok_def gw(8) by auto
  qed
  moreover have "creating_ok ?gw"
  proof -
    have "creating_ok (gw\<lparr>futures := ?fs\<rparr>)" by (rule creating_ok_create[OF D(4)]) (simp_all add: st)
    then have old: "\<exists>f. lookup_future ?fs (create_request_id rec1) = Some f \<and> rf_state f = PENDING"
      if "m \<in> set (creating gw)" "map_of (models gw) m = Some rec1" for m rec1
      using that by (simp add: creating_ok_def del: map_of_eq_Some_iff lookup_create)
    have "\<exists>f. lookup_future ?fs (create_request_id rec1) = Some f \<and> rf_state f = PENDING"
      if m: "m \<in> set (creating ?gw)" "map_of (models ?gw) m = Some rec1" for m rec1
    proof (cases "m = ?m")
      case True
      then have "create_request_id rec1 = ?r" using m by (simp add: look rec_def) auto
      then show ?thesis by simp
    next
      case False
      then have m': "m \<in> set (creating gw)" "map_of (models gw) m = Some rec1" using m look gw(4) by auto
      then show ?thesis by (rule old)
    qed
    moreover have "m < uids ?gw" if "m \<in> fst ` set (models ?gw) \<union> set (creating ?gw)" for m
    proof (cases "m = ?m")
      case False
      then have "m \<in> fst ` set (models gw) \<union> set (creating gw)" using that by (auto simp: gw)
      then have "m < uids gw" using D(4) unfolding creating_ok_def by blast
      then show ?thesis using gw(6) by simp
    qed (simp add: gw(6))
    moreover have "distinct (creating ?gw)" using D(4) fresh(2) by (simp add: creating_ok_def gw(4))
    ultimately show ?thesis unfolding creating_ok_def gw(1) by blast
  qed
  moreover have "tasks_ok ?fs (sample_tasks gw)" by (rule tasks_ok_create[OF D(5)])
  ultimately have inv': "gw_inv cfg ?F ?gw" unfolding gw_inv_def gw(1,5) by blast
  have "unfinished (sched ?gw)"
    using unf unfolding unfinished_def pendings_def looks by (auto simp: new_queue_def simp del: map_of_eq_Some_iff split: if_splits)
  moreover have "\<exists>q'. map_of (sched ?gw) m = Some q' \<and> set (mq_queue q) \<subseteq> set (mq_queue q')" if "map_of (sched gw) m = Some q" for m q
    using that nones looks[of m] by (cases "m = ?m") auto
  ultimately show ?thesis by (intro gw_ok_intro[OF ok inv' gw(9)])
qed

lemma gw_ok_create_model:
  assumes ok: "gw_ok cfg gw" shows "gw_ok cfg (snd (create_model cfg now tenant sid seq base_model lora gw))"
proof (cases "\<exists>session k r m. session_for tenant sid gw = Inr session \<and> validate_seq_id seq 0 = Inr k \<and> map_of (models_by_seq session) k = Some (r, m)")
  case True
  then obtain session k r m where a: "session_for tenant sid gw = Inr session" "validate_seq_id seq 0 = Inr k" "map_of (models_by_seq session) k = Some (r, m)"
    by blast
  obtain res fs where run: "request_id_for_retry now r (Training_Model m) tenant (futures gw) = (res, fs)" by (cases "request_id_for_retry now r (Training_Model m) tenant (futures gw)")
  have ok': "gw_ok cfg (gw\<lparr>futures := fs\<rparr>)" by (rule gw_ok_futures[OF ok frame_retry[OF gw_ok_store[OF ok] run]])
  have "gw_ok cfg (gw\<lparr>futures := fs, sessions := ss\<rparr>)" for ss by (rule gw_ok_cong[OF ok']) simp_all
  then show ?thesis using a run ok' by (auto simp: create_model_def split: sum.splits)
next
  case False
  then have "snd (create_model cfg now tenant sid seq base_model lora gw) = gw \<or> free_slots gw \<noteq> {} \<and> (\<exists>session k rank.
      snd (create_model cfg now tenant sid seq base_model lora gw) = snd (allocate_model cfg tenant sid session k rank gw))"
    by (auto simp: create_model_def split: option.splits sum.splits json.splits) blast
  then show ?thesis using gw_ok_allocate[OF ok] ok by metis
qed

section \<open>Sampling\<close>

lemma gw_ok_new_sampling_session: "gw_ok cfg gw \<Longrightarrow> new_sampling_session resolve tenant sid path gw = Inr (x, gw') \<Longrightarrow> gw_ok cfg gw'"
  by (erule gw_ok_cong) (auto simp: new_sampling_session_def result_simps)

lemma gw_ok_create_sampling_session:
  assumes ok: "gw_ok cfg gw" and run: "create_sampling_session cfg resolve tenant sid seq base path gw = Inr (x, gw')"
  shows "gw_ok cfg gw'"
proof -
  consider "gw' = gw" | x1 gw1 ss where "new_sampling_session resolve tenant sid path gw = Inr (x1, gw1)" "gw' = gw1\<lparr>sessions := ss\<rparr>"
    using run by (auto simp: create_sampling_session_def result_simps split: option.splits)
  then show ?thesis
  proof cases
    case 2
    show ?thesis by (rule gw_ok_cong[OF gw_ok_new_sampling_session[OF ok 2(1)]]) (simp_all add: 2(2))
  qed (use ok in simp)
qed

lemma gw_ok_start_sample:
  assumes ok: "gw_ok cfg gw" and run: "start_sample cfg resolve tenant payload path session gw = Inr (res, gw')"
  shows "gw_ok cfg gw'"
proof -
  let ?F = "in_flight (lock gw)"
  have inv: "gw_inv cfg ?F gw" and unf: "unfinished (sched gw)" using ok by (auto simp: gw_ok_def)
  note D = gw_invD[OF inv]
  note st = coreD(1)[OF D(1)]
  let ?r = "fs_next (futures gw)" and ?fs = "snd (create_future (sampling_owner path) tenant (futures gw))"
  have gw': "futures gw' = ?fs" "models gw' = models gw" "sched gw' = sched gw" "creating gw' = creating gw" "lock gw' = lock gw" "uids gw \<le> uids gw'"
    "releasing gw' = releasing gw" "free_slots gw' = free_slots gw" and t: "\<exists>t. sample_tasks gw' = AList.update ?r t (sample_tasks gw)"
    using run by (auto simp: start_sample_def result_simps Let_def split_beta)
  obtain t where t: "sample_tasks gw' = AList.update ?r t (sample_tasks gw)" using t by blast
  have fresh: "?r \<notin> fst ` set (sample_tasks gw)" using D(5) unfolding tasks_ok_def by auto
  have ts: "sample_tasks gw' = sample_tasks gw @ [(?r, t)]" using fresh by (simp add: t update_fresh)
  have "core ?F ?fs (models gw) (sched gw)" by (rule core_create[OF D(1)])
  moreover have "none_lost ?fs (models gw) (sched gw) (creating gw) (sample_tasks gw')"
    by (rule none_lost_create[OF D(2)]) (auto simp: not_lost_def ts sampling_owner_def split: future_owner.splits option.splits)
  moreover have "slots_ok cfg gw'" by (rule slots_ok_cong[OF D(3) gw'(2,7,8)])
  moreover have "creating_ok gw'" by (rule creating_ok_create[OF D(4) gw'(1,2,4,6) st])
  moreover have "tasks_ok ?fs (sample_tasks gw')"
    using tasks_ok_create[OF D(5), of "sampling_owner path" tenant] fresh unfolding tasks_ok_def ts by (auto simp: sampling_owner_def)
  ultimately have "gw_inv cfg ?F gw'" unfolding gw_inv_def gw'(1-4) by blast
  then show ?thesis using ok unfolding gw_ok_def gw'(3,5) by simp
qed

lemma gw_ok_submit_sample:
  assumes ok: "gw_ok cfg gw" shows "gw_ok cfg (snd (submit_sample cfg resolve now tenant payload base path x seq gw))"
proof -
  have start: "gw_ok cfg gw'" if "start_sample cfg resolve tenant payload p session gw = Inr (res, gw')" for p session res gw'
    by (rule gw_ok_start_sample[OF ok that])
  have remember: "gw_ok cfg (gw'\<lparr>sampling_sessions := ss\<rparr>)" if "gw_ok cfg gw'" for gw' ss by (rule gw_ok_cong[OF that]) simp_all
  have retry: "gw_ok cfg (gw\<lparr>futures := fs\<rparr>)" if "request_id_for_retry now r own tenant (futures gw) = (res, fs)" for r own res fs
    by (rule gw_ok_futures[OF ok frame_retry[OF gw_ok_store[OF ok] that]])
  have retry2: "gw_ok cfg (gw\<lparr>futures := fs, sampling_sessions := ss\<rparr>)" if "request_id_for_retry now r own tenant (futures gw) = (res, fs)" for r own res fs ss
    by (rule gw_ok_cong[OF retry[OF that]]) simp_all
  show ?thesis using ok
    by (auto simp: submit_sample_def Let_def retry retry2 remember start split: option.splits sum.splits prod.splits)
qed

lemma gw_ok_run_sample:
  assumes ok: "gw_ok cfg gw" and run: "run_sample now r answer gw = Inr gw'" shows "gw_ok cfg gw'"
proof (cases "map_of (sample_tasks gw) r")
  case (Some t)
  obtain fs where fs: "gw' = gw\<lparr>sample_tasks := AList.delete r (sample_tasks gw), futures := fs\<rparr>" "fut_frame {r} (futures gw) fs"
    using run Some frame_fail[OF gw_ok_store[OF ok], of now r] frame_resolve[OF gw_ok_store[OF ok], of now r]
    by (auto simp: run_sample_def Let_def result_simps split: sample_answer.splits)
  have t: "dict_ok (sample_tasks gw)" using ok gw_invD(5)[of cfg "in_flight (lock gw)" gw] by (simp add: gw_ok_def tasks_ok_def)
  have keys: "fst ` set (AList.delete r (sample_tasks gw)) = fst ` set (sample_tasks gw) - {r}" by (auto simp: AList.delete_eq)
  have "{r} \<subseteq> fst ` set (sample_tasks gw)" using map_of_SomeD[OF Some] by force
  then show ?thesis
    by (intro gw_ok_frame[OF ok, where R = "{r}"]) (use fs t keys in \<open>simp_all add: dict_simps\<close>)
qed (use assms in \<open>simp add: run_sample_def\<close>)

section \<open>The gateway\<close>

text \<open>
  One step is one operation, or the part of one between two places where it waits for the backend with
  the trainer lock held.  Requests are decoded, and the backend answers as documented.
\<close>

inductive gateway_step :: "gateway_config \<Rightarrow> resolver \<Rightarrow> gateway \<Rightarrow> gateway \<Rightarrow> bool" for cfg resolve where
  Create_Session: "gateway_step cfg resolve gw (snd (create_session now tenant gw))"
| Heartbeat: "gateway_step cfg resolve gw (snd (heartbeat now tenant sid gw))"
| Create_Model: "gateway_step cfg resolve gw (snd (create_model cfg now tenant sid seq base_model lora gw))"
| Run_Create_Model: "lock gw = Unlocked \<Longrightarrow> m \<in> set (creating gw) \<Longrightarrow> run_create_model cfg now m failed gw = Inr gw' \<Longrightarrow> gateway_step cfg resolve gw gw'"
| Submit: "decoded cfg op_name payload content_error \<Longrightarrow>
    gateway_step cfg resolve gw (snd (submit cfg now tenant op_name m seq payload content_error gw))"
| Retrieve: "gateway_step cfg resolve gw (snd (retrieve_future now tenant r gw))"
| Select: "lock gw = Unlocked \<Longrightarrow> select_unit cfg now gw = Some (Inr gw') \<Longrightarrow> gateway_step cfg resolve gw gw'"
| Complete: "lock gw = Running u \<Longrightarrow> answer_ok u answer \<Longrightarrow> complete_unit cfg now answer u gw = Inr gw' \<Longrightarrow> gateway_step cfg resolve gw gw'"
| Release_Slot: "gateway_step cfg resolve gw (release_slot dead failed gw)"
| Create_Sampling_Session: "create_sampling_session cfg resolve tenant sid seq base path gw = Inr (x, gw') \<Longrightarrow> gateway_step cfg resolve gw gw'"
| Submit_Sample: "gateway_step cfg resolve gw (snd (submit_sample cfg resolve now tenant payload base path xid seq gw))"
| Run_Sample: "run_sample now r reply gw = Inr gw' \<Longrightarrow> gateway_step cfg resolve gw gw'"
| Cancel: "gateway_step cfg resolve gw (snd (cancel now tenant r gw))"
| Expire: "lock gw = Unlocked \<Longrightarrow> expire_sessions cfg now gw = Inr gw' \<Longrightarrow> gateway_step cfg resolve gw gw'"
| Finish: "lock gw = Unlocked \<Longrightarrow> finish_session now tenant sid gw = Inr (b, gw') \<Longrightarrow> gateway_step cfg resolve gw gw'"
| End_Next: "end_next cfg now gw = Inr gw' \<Longrightarrow> gateway_step cfg resolve gw gw'"

inductive gateway_reachable :: "gateway_config \<Rightarrow> resolver \<Rightarrow> gateway \<Rightarrow> bool" for cfg resolve where
  Initial: "gateway_reachable cfg resolve (initial_gateway cfg)"
| Step: "gateway_reachable cfg resolve gw \<Longrightarrow> gateway_step cfg resolve gw gw' \<Longrightarrow> gateway_reachable cfg resolve gw'"

lemma gw_ok_initial: "gw_ok cfg (initial_gateway cfg)"
  by (simp add: gw_ok_def gw_inv_def in_flight_def core_def none_lost_def slots_ok_def held_slots_def creating_ok_def tasks_ok_def
      initial_gateway_def store_ok_empty unfinished_def pendings_def) (simp add: empty_futures_def)

lemma gw_ok_step:
  assumes "gateway_step cfg resolve gw gw'" and "gw_ok cfg gw" shows "gw_ok cfg gw'"
  using assms
proof (induction rule: gateway_step.induct)
  case (Run_Create_Model gw m now failed gw')
  obtain gw1 where "run_create_model cfg now m failed gw = Inr gw1" "gw_ok cfg gw1"
    by (rule gw_ok_run_create[OF Run_Create_Model(4,1,2), where now = now and failed = failed]) (rule that)
  then show ?case using Run_Create_Model(3) by simp
next
  case (Select gw now gw')
  show ?case by (rule select_ok[OF Select(3,1,2)]) simp
next
  case (Complete gw u answer now gw')
  show ?case by (rule complete_ok[OF Complete(4,1,2), where now = now]) (use Complete(3) in simp)
next
  case (End_Next now gw gw')
  show ?case by (rule gw_ok_end_next[OF End_Next(2), where now = now]) (use End_Next(1) in simp)
qed (blast intro: gw_ok_create_session gw_ok_heartbeat gw_ok_create_model gw_ok_submit gw_ok_retrieve gw_ok_release
    gw_ok_create_sampling_session gw_ok_submit_sample gw_ok_run_sample gw_ok_cancel gw_ok_expire gw_ok_finish_session)+

lemma reachable_ok: "gateway_reachable cfg resolve gw \<Longrightarrow> gw_ok cfg gw"
  by (induction rule: gateway_reachable.induct) (auto intro: gw_ok_initial gw_ok_step)

text \<open>The dispatcher by itself: rounds of selecting a unit and completing it, with what the backend answers.\<close>

definition dispatch_round :: "gateway_config \<Rightarrow> rat \<Rightarrow> (work_unit \<Rightarrow> backend_answer) \<Rightarrow> gateway \<Rightarrow> tinker_error + gateway" where
  "dispatch_round cfg now backend gw =
     (case select_unit cfg now gw of
        None \<Rightarrow> Inr gw
      | Some res \<Rightarrow> rbind res (\<lambda>gw1. case lock gw1 of Running u \<Rightarrow> complete_unit cfg now (backend u) u gw1 | _ \<Rightarrow> Inr gw1))"

abbreviation dispatch_rounds :: "gateway_config \<Rightarrow> (rat \<times> (work_unit \<Rightarrow> backend_answer)) list \<Rightarrow> gateway \<Rightarrow> tinker_error + gateway" where
  "dispatch_rounds cfg \<equiv> rfold (\<lambda>(now, backend). dispatch_round cfg now backend)"

lemma dispatch_round_ok:
  assumes ok: "gw_ok cfg gw" and l: "lock gw = Unlocked" and b: "\<And>u. answer_ok u (backend u)"
  obtains gw' where "dispatch_round cfg now backend gw = Inr gw'" and "gw_ok cfg gw'" and "lock gw' = Unlocked"
    and "work (sched gw') < work (sched gw) \<or> gw' = gw \<and> (\<forall>(m, q) \<in> set (sched gw). mq_queue q = [])"
proof (cases "select_unit cfg now gw")
  case None
  then show thesis using ok l select_None[OF ok l None] by (intro that[of gw]) (auto simp: dispatch_round_def)
next
  case (Some res)
  obtain gw1 where g: "res = Inr gw1" "gw_ok cfg gw1" and w: "lock gw1 = Unlocked \<and> work (sched gw1) < work (sched gw) \<or>
      (\<exists>u. lock gw1 = Running u \<and> work (sched gw1) \<le> work (sched gw) \<and> ((\<exists>op loss config picked. u = Batch_Unit op loss config picked) \<longrightarrow> work (sched gw1) < work (sched gw)))"
    by (rule select_ok[OF ok l Some])
  show thesis
  proof (cases "lock gw1 = Unlocked")
    case True
    then show thesis using g w Some by (intro that[of gw1]) (auto simp: dispatch_round_def)
  next
    case False
    then obtain u where u: "lock gw1 = Running u" "work (sched gw1) \<le> work (sched gw)"
      "(\<exists>op loss config picked. u = Batch_Unit op loss config picked) \<longrightarrow> work (sched gw1) < work (sched gw)" using w by blast
    obtain gw2 where c: "complete_unit cfg now (backend u) u gw1 = Inr gw2" "gw_ok cfg gw2" "lock gw2 = Unlocked" "work (sched gw2) \<le> work (sched gw1)"
      "(\<exists>op entries. u = Barrier_Unit op entries) \<Longrightarrow> work (sched gw2) < work (sched gw1)"
      by (rule complete_ok[OF g(2) u(1) b, where now = now]) blast
    have "work (sched gw2) < work (sched gw)" using u(2,3) c(4,5) by (cases u) auto
    then show thesis using c g u Some by (intro that[of gw2]) (auto simp: dispatch_round_def)
  qed
qed

lemma dispatch_rounds_ok:
  assumes "gw_ok cfg gw" and "lock gw = Unlocked" and "\<And>now backend u. (now, backend) \<in> set rounds \<Longrightarrow> answer_ok u (backend u)"
  shows "\<exists>gw'. dispatch_rounds cfg rounds gw = Inr gw' \<and> gw_ok cfg gw' \<and> lock gw' = Unlocked \<and>
    (work (sched gw') + length rounds \<le> work (sched gw) \<or> (\<forall>(m, q) \<in> set (sched gw'). mq_queue q = []))"
  using assms
proof (induction rounds arbitrary: gw)
  case (Cons x rounds)
  obtain now backend where x: "x = (now, backend)" by (cases x)
  obtain gw1 where g: "dispatch_round cfg now backend gw = Inr gw1" "gw_ok cfg gw1" "lock gw1 = Unlocked"
    and w: "work (sched gw1) < work (sched gw) \<or> gw1 = gw \<and> (\<forall>(m, q) \<in> set (sched gw). mq_queue q = [])"
    by (rule dispatch_round_ok[OF Cons.prems(1,2), of backend now]) (use Cons.prems(3) x in auto)
  obtain gw2 where h: "dispatch_rounds cfg rounds gw1 = Inr gw2" "gw_ok cfg gw2" "lock gw2 = Unlocked"
    and w2: "work (sched gw2) + length rounds \<le> work (sched gw1) \<or> (\<forall>(m, q) \<in> set (sched gw2). mq_queue q = [])"
    using Cons.IH[OF g(2,3)] Cons.prems(3) by auto
  have "work (sched gw2) + length (x # rounds) \<le> work (sched gw) \<or> (\<forall>(m, q) \<in> set (sched gw2). mq_queue q = [])"
  proof (cases "work (sched gw1) < work (sched gw)")
    case False
    then have e: "gw1 = gw" "\<forall>(m, q) \<in> set (sched gw). mq_queue q = []" using w by auto
    then have "work (sched gw) = 0" by (auto simp: work_def queue_work_def intro!: sum_list_0 simp: case_prod_unfold)
    have "dispatch_rounds cfg rounds gw = Inr gw" if "\<forall>(m, q) \<in> set (sched gw). mq_queue q = []" for rounds
    proof -
      have "ready_rejections (sched gw) = []" using that by (auto simp: ready_rejections_def)
      moreover have "ready_datums (sched gw) = []" "ready_barriers (sched gw) = []"
        using that by (auto simp: ready_datums_def queue_refs_def open_batch_run_def ready_barriers_def ready_barrier_def)
      then have "fst (schedule_next (batch_token_budget cfg) (sched gw)) = None" by (simp add: schedule_next_None_iff)
      ultimately have "select_unit cfg now gw = None" for now by (auto simp: select_unit_def split: prod.splits option.splits)
      then have "dispatch_round cfg now backend gw = Inr gw" for now backend by (simp add: dispatch_round_def)
      then show ?thesis by (induction rounds) auto
    qed
    then show ?thesis using e h(1) by simp
  qed (use w2 in auto)
  then show ?case using g h x by auto
qed simp

section \<open>The properties\<close>

text \<open>A gateway with two slots: a session, a model, a batch of two datums, an optimizer step, and a
  command whose predecessor is missing.\<close>

definition demo_gateway_config :: gateway_config where
  "demo_gateway_config = \<lparr>cfg_base_model = ''b'', n_slots = 2, vocab_size = 10, max_datums_per_request = 4, max_tokens_per_datum = 8,
     max_tokens_per_sample = 16, max_tokens_per_request = 32, max_samples_per_request = 2, max_lora_rank = 32, cfg_lora_alpha = None,
     trains_attn = True, trains_mlp = True, trains_unembed = False, lease_timeout_s = 300, batch_token_budget = 2\<rparr>"

definition demo_datum :: json where
  "demo_datum = JObj [(''tokens'', JArr [JInt 1, JInt 2]), (''target_len'', JInt 1), (''target_tokens'', JArr [JInt 2]), (''weights'', JArr [JInt 1])]"

definition demo_batch :: obj where
  "demo_batch = [(''datums'', JArr [demo_datum, demo_datum]), (''loss_fn'', JStr ''cross_entropy''), (''loss_fn_config'', JNull)]"

definition demo_created :: gateway where
  "demo_created = snd (create_model demo_gateway_config 0 ''t'' 0 (JInt 0) ''b'' [] (snd (create_session 0 ''t'' (initial_gateway demo_gateway_config))))"

definition demo_gateway :: gateway where
  "demo_gateway =
     snd (submit demo_gateway_config 3 ''t'' ''optim_step'' 1 (JInt 4) [(''adam_params'', JObj [])] False
     (snd (submit demo_gateway_config 2 ''t'' ''optim_step'' 1 (JInt 2) [(''adam_params'', JObj [])] False
     (snd (submit demo_gateway_config 1 ''t'' ''forward_backward'' 1 (JInt 1) demo_batch False demo_created)))))"

abbreviation no_adapters :: resolver where
  "no_adapters \<equiv> \<lambda>tenant path. Inl UserInputError"

lemma demo_validated: "validate_batch_payload FORWARD_BACKWARD demo_batch demo_gateway_config = Inr ()"
  by code_simp

lemma demo_decoded:
  "decoded demo_gateway_config ''forward_backward'' demo_batch False"
  "decoded demo_gateway_config ''optim_step'' [(''adam_params'', JObj [])] False"
proof -
  show "decoded demo_gateway_config ''forward_backward'' demo_batch False" by (simp add: decoded_def command_ops_def demo_validated)
  show "decoded demo_gateway_config ''optim_step'' [(''adam_params'', JObj [])] False"
    by (simp add: decoded_def command_ops_def validate_batch_payload_def is_batch_def dhas_def)
qed

lemma demo_created_reachable: "gateway_reachable demo_gateway_config no_adapters demo_created"
  unfolding demo_created_def by (rule gateway_reachable.Step[OF gateway_reachable.Step[OF Initial Create_Session] Create_Model])

lemma demo_reachable: "gateway_reachable demo_gateway_config no_adapters demo_gateway"
  unfolding demo_gateway_def
  by (rule gateway_reachable.Step[OF gateway_reachable.Step[OF gateway_reachable.Step[OF demo_created_reachable
        Submit[OF demo_decoded(1)]] Submit[OF demo_decoded(2)]] Submit[OF demo_decoded(2)]])

lemma demo_batch_datums: "map_of demo_batch ''datums'' = Some (JArr [demo_datum, demo_datum])"
  by (simp add: demo_batch_def)

lemma first_slots: "{0..<2::nat} = {0, 1}"
  by auto

lemmas demo_eval = demo_gateway_def demo_created_def create_model_def create_session_def initial_gateway_def session_for_def
  validate_seq_id_def demo_gateway_config_def validate_model_config_def dget_def dget_or_def allocate_model_def create_future_def empty_futures_def
  add_model_queue_def new_queue_def first_slots lora_alpha_of_def submit_def get_model_def command_ops_def demo_validated[unfolded demo_gateway_config_def]
  validate_batch_payload_def[of OPTIM_STEP] is_batch_def submit_command_def enqueue_contiguous_None enqueue_contiguous_Some

lemma demo_state: "lock demo_gateway = Unlocked" "work (sched demo_gateway) = 4"
  "\<exists>q. (1, q) \<in> set (sched demo_gateway) \<and> mq_queue q \<noteq> []"
  "lookup_future (futures demo_gateway) 3 = Some \<lparr>rf_model = Training_Model 1, rf_tenant = ''t'', rf_state = PENDING, rf_result = None,
      rf_category = None, finished_at = None\<rparr>"
  by (simp_all add: demo_eval work_def queue_work_def pending_of_def datums_of_def demo_batch_datums)



text \<open>
  C2. Adapter slots are never shared: in every reachable state the slots of the open models, the slots being
  unloaded and the free slots are all different and within the gateway's slots.
\<close>

theorem slots_never_shared:
  assumes "gateway_reachable cfg resolve gw"
  shows "distinct (map fst (releasing gw) @ map (\<lambda>(m, rec). mr_slot rec) (models gw)) \<and>
    set (map fst (releasing gw) @ map (\<lambda>(m, rec). mr_slot rec) (models gw)) \<inter> free_slots gw = {} \<and>
    set (map fst (releasing gw) @ map (\<lambda>(m, rec). mr_slot rec) (models gw)) \<union> free_slots gw \<subseteq> {0..<n_slots cfg}"
  using reachable_ok[OF assms] unfolding gw_ok_def gw_inv_def slots_ok_def held_slots_def by blast

lemma slots_never_shared_witness: "free_slots demo_gateway \<subseteq> {0..<2} - set (map (\<lambda>(m, rec). mr_slot rec) (models demo_gateway))"
  using slots_never_shared[OF demo_reachable] by (auto simp: demo_gateway_config_def)


definition demo_backend :: "work_unit \<Rightarrow> backend_answer" where
  "demo_backend u = \<lparr>batch_result = (case u of Batch_Unit op loss config picked \<Rightarrow> Outputs (map (\<lambda>_. []) picked) | _ \<Rightarrow> Batch_Error),
     slot_outcomes = (\<lambda>_. Success []), barrier_result = Inr (Success [])\<rparr>"

lemma demo_answer_ok: "answer_ok u (demo_backend u)"
  by (cases u) (simp_all add: answer_ok_def demo_backend_def)




lemma submit_accepted:
  assumes "submit cfg now tenant op_name m seq payload content_error gw = (Inr r, gw')"
  obtains op rec k q where "map_of command_ops op_name = Some op" and "get_model tenant m gw = Inr rec" and "validate_seq_id seq 1 = Inr k"
    and "map_of (sched gw) m = Some q"
    and "\<exists>rec' q'. map_of (models gw') m = Some rec' \<and> mr_tenant rec' = tenant \<and> map_of (request_id_by_seq rec') k = Some r \<and> map_of (sched gw') m = Some q'"
proof -
  obtain op rec k q where a: "map_of command_ops op_name = Some op" "get_model tenant m gw = Inr rec" "validate_seq_id seq 1 = Inr k" "map_of (sched gw) m = Some q"
    using assms by (auto simp: submit_def split: option.splits sum.splits)
  have t: "mr_tenant rec = tenant" using a(2) by (auto simp: get_model_def split: option.splits if_splits)
  have "\<exists>rec' q'. map_of (models gw') m = Some rec' \<and> mr_tenant rec' = tenant \<and> map_of (request_id_by_seq rec') k = Some r \<and> map_of (sched gw') m = Some q'"
  proof (cases "map_of (request_id_by_seq rec) k")
    case (Some r0)
    then show ?thesis using assms a t by (auto simp: submit_def dict_simps split: sum.splits prod.splits)
  next
    case None
    then show ?thesis using assms a t
      by (auto simp: submit_def Let_def split_beta dict_simps split: sum.splits if_splits tinker_error.splits)
  qed
  then show thesis using a by (intro that[of op rec k q]) auto
qed

lemma submit_known:
  assumes "map_of command_ops op_name = Some op" and "map_of (models gw) m = Some rec" "mr_tenant rec = tenant" and "validate_seq_id seq 1 = Inr k"
    and "map_of (sched gw) m = Some q" and "map_of (request_id_by_seq rec) k = Some r" and "store_ok (futures gw)"
    and "lookup_future (sweep now (futures gw)) r = Some f" "rf_tenant f = tenant"
  shows "submit cfg now tenant op_name m seq payload content_error gw = (Inr r, gw\<lparr>futures := sweep now (futures gw)\<rparr>)"
proof -
  have "request_id_for_retry now r (Training_Model m) tenant (futures gw) = (Inr r, sweep now (futures gw))"
    using retry_cases[OF assms(7), of now r "Training_Model m" tenant] assms(8,9) by auto
  moreover have "rec\<lparr>request_id_by_seq := AList.update k r (request_id_by_seq rec)\<rparr> = rec" using update_existing[OF assms(6)] by simp
  then have "AList.update m (rec\<lparr>request_id_by_seq := AList.update k r (request_id_by_seq rec)\<rparr>) (models gw) = models gw"
    using update_existing[OF assms(2)] by simp
  ultimately show ?thesis using assms(1-6) by (simp add: submit_def get_model_def)
qed





end
