(* ===== verification/Tinker_Wire.thy ===== *)
theory Tinker_Wire
  imports Tinker_Sampling Tinker_Loading Tinker_Machine
begin

text \<open>
  The JSON wire of the gateway (\<^verbatim>\<open>miles/tinker/server/encoding.py\<close>): decoding commands and sampling requests, and
  rendering sampling results.  The SDK's request models are outside: \<open>sdk\<close> gives the fields of a request
  that its model accepts, \<open>plain_adam\<close> says which optimizer settings are plain Adam, and \<open>recipient_ok\<close>
  which texts are age recipients.  Numbers spelled as texts do not occur among loss inputs.
\<close>

section \<open>Request options\<close>

definition TINKER_SDK_VERSION :: string where
  "TINKER_SDK_VERSION = ''0.36.0''"

type_synonym sdk = "string \<Rightarrow> obj \<Rightarrow> tinker_error + obj"

definition validate_sdk_version :: "sdk \<Rightarrow> json \<Rightarrow> tinker_error + unit" where
  "validate_sdk_version sdk payload =
     rbind (require (dget (as_obj payload) ''sdk_version'' = JStr TINKER_SDK_VERSION)) (\<lambda>_.
     rbind (sdk ''ClientConfigRequest'' (as_obj payload)) (\<lambda>_. Inr ()))"

definition validate_plain_adam :: "(json \<Rightarrow> bool) \<Rightarrow> json \<Rightarrow> tinker_error + unit" where
  "validate_plain_adam plain_adam params = require (plain_adam params)"

definition MAX_AGE_RECIPIENTS :: nat where
  "MAX_AGE_RECIPIENTS = 10"

definition validate_age_recipients :: "(json \<Rightarrow> bool) \<Rightarrow> json list \<Rightarrow> tinker_error + unit" where
  "validate_age_recipients recipient_ok recipients =
     rbind (require (length recipients \<le> MAX_AGE_RECIPIENTS)) (\<lambda>_. require (list_all recipient_ok recipients))"

definition validate_sample_options :: "obj \<Rightarrow> tinker_error + unit" where
  "validate_sample_options request = require (\<not> (truthy (dget request ''topk_sample_logprobs'') \<or>
     dget request ''target_prompt_logprobs'' \<noteq> JNull \<or> truthy (dget request ''prompt_alt_tokens_k'') \<or>
     dget request ''prompt_logprobs_last_n'' \<noteq> JNull \<or> truthy (dget request ''record_stability_info'')))"

section \<open>Datums\<close>

fun obj_of :: "json \<Rightarrow> tinker_error + obj" where
  "obj_of (JObj d) = Inr d"
| "obj_of _ = Inl (Tinker_Raised AttributeError)"

definition chunk_tokens :: "json \<Rightarrow> tinker_error + json list" where
  "chunk_tokens chunk = rbind (obj_of chunk) (\<lambda>c.
     rbind (require (dget c ''type'' = JStr ''encoded_text'')) (\<lambda>_. rbind (item c ''tokens'') items))"

definition model_input_tokens :: "json \<Rightarrow> tinker_error + json list" where
  "model_input_tokens model_input =
     rbind (rbind (subscript model_input ''chunks'') items) (\<lambda>chunks.
     rbind (rmap chunk_tokens chunks) (\<lambda>tokens. Inr (concat tokens)))"

text \<open>\<^verbatim>\<open>dense[col] = value\<close>: a negative index counts from the end.\<close>

definition set_item :: "json \<Rightarrow> json \<Rightarrow> json list \<Rightarrow> tinker_error + json list" where
  "set_item col v dense =
     (let put = (\<lambda>i. let j = (if i < 0 then i + int (length dense) else i) in
        if 0 \<le> j \<and> j < int (length dense) then Inr (dense[nat j := v]) else Inl (Tinker_Raised IndexError))
      in case col of JInt i \<Rightarrow> put i | JBool b \<Rightarrow> put (if b then 1 else 0) | _ \<Rightarrow> Inl (Tinker_Raised TypeError))"

definition dense_from_csr :: "obj \<Rightarrow> tinker_error + json list" where
  "dense_from_csr tensor =
     rbind (rbind (item tensor ''shape'') items) (\<lambda>shape.
     case shape of
       [extent] \<Rightarrow>
         rbind (rbind (item tensor ''sparse_crow_indices'') items) (\<lambda>rows.
         rbind (require (length rows = 2)) (\<lambda>_.
         rbind (repeat_count extent) (\<lambda>n.
         rbind (rbind (item tensor ''sparse_col_indices'') items) (\<lambda>cols.
         rbind (rbind (item tensor ''data'') items) (\<lambda>vs.
         rbind (rfold (\<lambda>(c, v). set_item c v) (zip cols vs) (replicate n (JInt 0))) (\<lambda>dense.
         if length cols = length vs then Inr dense else Inl (Tinker_Raised ValueError)))))))
     | _ \<Rightarrow> Inl (Tinker_Raised ValueError))"

definition tensor_data_to_list :: "json \<Rightarrow> tinker_error + json list" where
  "tensor_data_to_list tensor_data = (case tensor_data of
       JArr xs \<Rightarrow> Inr xs
     | JObj tensor \<Rightarrow>
         rbind (let shape = dget tensor ''shape'' in if truthy shape then items shape else Inr []) (\<lambda>shape.
         rbind (require (length shape \<le> 1)) (\<lambda>_.
         if dget tensor ''sparse_crow_indices'' \<noteq> JNull then dense_from_csr tensor
         else if dget tensor ''data'' = JNull then Inl UserInputError
         else items (dget tensor ''data'')))
     | _ \<Rightarrow> Inl UserInputError)"

definition decode_inputs :: "json \<Rightarrow> tinker_error + (string \<times> json list) list" where
  "decode_inputs loss_fn_inputs =
     rbind (obj_of loss_fn_inputs) (rmap (\<lambda>(name, v). rbind (tensor_data_to_list v) (\<lambda>xs. Inr (name, xs))))"

fun is_array :: "json \<Rightarrow> bool" where
  "is_array (JArr xs) = True"
| "is_array _ = False"

definition loss_field :: "(string \<times> json list) list \<Rightarrow> string \<times> string \<Rightarrow> tinker_error + obj" where
  "loss_field inputs key = (case map_of inputs (fst key) of
       None \<Rightarrow> Inr []
     | Some vs \<Rightarrow> rbind (rmap as_float vs) (\<lambda>fs. Inr [(snd key, JArr fs)]))"

definition build_datum :: "json list \<Rightarrow> (string \<times> json list) list \<Rightarrow> tinker_error + obj" where
  "build_datum input_tokens inputs =
     rbind (require (fst ` set inputs \<subseteq> insert ''target_tokens'' (fst ` set LOSS_INPUT_KEYS))) (\<lambda>_.
     rbind (require (list_all (\<lambda>(name, vs). \<not> list_ex is_array vs) inputs)) (\<lambda>_.
     rbind (case map_of inputs ''target_tokens'' of None \<Rightarrow> Inl (Tinker_Raised KeyError) | Some ts \<Rightarrow> Inr ts) (\<lambda>targets.
     rbind (require (length targets = length input_tokens)) (\<lambda>_.
     rbind (rmap (loss_field inputs) LOSS_INPUT_KEYS) (\<lambda>losses.
       Inr ([(''tokens'', JArr (input_tokens @ drop (length targets - 1) targets)), (''target_len'', JInt (int (length targets))),
             (''target_tokens'', JArr targets)] @ concat losses))))))"

section \<open>Commands\<close>

definition decode_batch :: "obj \<Rightarrow> tinker_error + obj" where
  "decode_batch payload =
     rbind (item payload ''forward_backward_input'') (\<lambda>fb_input.
     rbind (rbind (subscript fb_input ''data'') items) (\<lambda>raw.
     rbind (rmap (\<lambda>datum. rbind (rbind (subscript datum ''model_input'') model_input_tokens) (\<lambda>tokens.
        rbind (rbind (subscript datum ''loss_fn_inputs'') decode_inputs) (\<lambda>inputs. Inr (tokens, inputs)))) raw) (\<lambda>decoded.
     rbind (rmap (\<lambda>(tokens, inputs). build_datum tokens inputs) decoded) (\<lambda>ds.
     rbind (subscript fb_input ''loss_fn'') (\<lambda>loss.
     let config = dget (as_obj fb_input) ''loss_fn_config''
     in Inr [(''datums'', JArr (map JObj ds)), (''loss_fn'', loss), (''loss_fn_config'', if truthy config then config else JObj [])])))))"

definition json_items :: "json \<Rightarrow> json list" where
  "json_items v = (case v of JArr xs \<Rightarrow> xs | _ \<Rightarrow> [])"

definition decode_request :: "sdk \<Rightarrow> (json \<Rightarrow> bool) \<Rightarrow> (json \<Rightarrow> bool) \<Rightarrow> string \<Rightarrow> obj \<Rightarrow> tinker_error + obj" where
  "decode_request sdk plain_adam recipient_ok op payload =
     rbind (sdk op payload) (\<lambda>request.
       if op = ''optim_step'' then
         rbind (validate_plain_adam plain_adam (dget request ''optim_params'')) (\<lambda>_. Inr [(''adam_params'', dget request ''optim_params'')])
       else if op = ''save_state'' then
         rbind (validate_save_options (dget request ''ttl_seconds'') (dget request ''user_metadata'')) (\<lambda>_.
           Inr [(''name'', dget request ''path''), (''overwrite'', dget request ''overwrite''), (''ttl_seconds'', dget request ''ttl_seconds'')])
       else if op = ''load_state'' then
         rbind (require (dget request ''optimizer_config'' = JNull)) (\<lambda>_.
           Inr [(''path'', dget request ''path''), (''optimizer'', dget request ''optimizer''), (''weights_access_token'', dget request ''weights_access_token'')])
       else if op = ''save_weights_for_sampler'' then
         rbind (validate_save_options (dget request ''ttl_seconds'') (dget request ''user_metadata'')) (\<lambda>_.
           Inr [(''sampler_path'', dget request ''path''), (''ttl_seconds'', dget request ''ttl_seconds'')])
       else if op = ''save_weights_external'' then
         rbind (validate_ttl_seconds (dget request ''ttl_seconds'')) (\<lambda>_.
         let recipients = json_items (dget request ''age_encryption_recipients'') in
         rbind (validate_age_recipients recipient_ok recipients) (\<lambda>_.
           Inr [(''name'', dget request ''path''), (''ttl_seconds'', dget request ''ttl_seconds''), (''age_encryption_recipients'', JArr recipients)]))
       else Inl (Tinker_Raised AssertionError))"

text \<open>The commands whose bodies the SDK's models describe.\<close>

definition REQUEST_OPS :: "string list" where
  "REQUEST_OPS = [''optim_step'', ''save_state'', ''load_state'', ''save_weights_for_sampler'', ''save_weights_external'']"

definition batch_op :: "obj \<Rightarrow> string" where
  "batch_op payload = (if truthy (dget payload ''forward_only'') then ''forward_only'' else ''forward_backward'')"

definition content_error :: "tinker_error \<Rightarrow> bool" where
  "content_error e \<longleftrightarrow> e \<in> {UserInputError, Tinker_Raised KeyError, Tinker_Raised TypeError, Tinker_Raised ValueError, Tinker_Raised IndexError}"

text \<open>
  The command, its payload, and whether its content is in error.  A body that is no object raises on the
  envelope; the texts of errors are not modelled.
\<close>

definition decode_command :: "sdk \<Rightarrow> (json \<Rightarrow> bool) \<Rightarrow> (json \<Rightarrow> bool) \<Rightarrow> string \<Rightarrow> obj \<Rightarrow> tinker_error + string \<times> obj \<times> bool" where
  "decode_command sdk plain_adam recipient_ok op payload =
     (if op \<noteq> ''forward_backward'' \<and> op \<notin> set REQUEST_OPS then Inl (Tinker_Raised AssertionError)
      else if \<not> dhas payload ''model_id'' \<or> \<not> dhas payload ''seq_id'' then Inl UserInputError
      else let envelope = [(''model_id'', dget payload ''model_id''), (''seq_id'', dget payload ''seq_id'')];
               op' = (if op = ''forward_backward'' then batch_op payload else op)
        in case (if op = ''forward_backward'' then decode_batch payload else decode_request sdk plain_adam recipient_ok op payload) of
             Inl e \<Rightarrow> if content_error e then Inr (op', envelope, True) else Inl e
           | Inr content \<Rightarrow> Inr (op', envelope @ content, False))"

definition decode_sample_request :: "sdk \<Rightarrow> obj \<Rightarrow> tinker_error + obj" where
  "decode_sample_request sdk payload =
     rbind (sdk ''SampleRequest'' payload) (\<lambda>request.
     rbind (validate_sample_options request) (\<lambda>_.
     rbind (rbind (item payload ''prompt'') model_input_tokens) (\<lambda>tokens.
       Inr [(''model_path'', dget request ''model_path''), (''base_model'', dget request ''base_model''),
         (''sampling_session_id'', dget request ''sampling_session_id''), (''seq_id'', dget request ''seq_id''),
         (''num_samples'', dget request ''num_samples''), (''prompt_tokens'', JArr tokens),
         (''sampling_params'', dget request ''sampling_params''), (''prompt_logprobs'', JBool (truthy (dget request ''prompt_logprobs''))),
         (''topk_prompt_logprobs'', dget request ''topk_prompt_logprobs'')])))"

section \<open>Rendering a sampling result\<close>

text \<open>A NaN among the prompt's log-probabilities is rendered as null, which is how it is written here.\<close>

fun pairs :: "json \<Rightarrow> json \<Rightarrow> tinker_error + (json \<times> json) list" where
  "pairs a b = rbind (items a) (\<lambda>xs. rbind (items b) (\<lambda>ys.
     if length xs = length ys then Inr (zip xs ys) else Inl (Tinker_Raised ValueError)))"

definition render_position :: "json \<Rightarrow> json \<times> json \<Rightarrow> tinker_error + json" where
  "render_position mask_logprob row = rbind (pairs (fst row) (snd row)) (\<lambda>candidates.
     let kept = filter (\<lambda>(token_id, logprob). \<not> (py_eq token_id (JInt 0) \<and> py_eq logprob mask_logprob)) candidates
     in Inr (if kept = [] then JNull else JArr (map (\<lambda>(token_id, logprob). JArr [token_id, logprob]) kept)))"

definition render_topk :: "json \<Rightarrow> json \<Rightarrow> tinker_error + json" where
  "render_topk mask_logprob topk =
     rbind (subscript topk ''token_ids'') (\<lambda>ids. rbind (subscript topk ''logprobs'') (\<lambda>probs.
     rbind (pairs ids probs) (\<lambda>rows. rbind (rmap (render_position mask_logprob) rows) (\<lambda>xs. Inr (JArr xs)))))"

definition render_sample :: "json \<Rightarrow> obj \<Rightarrow> tinker_error + obj" where
  "render_sample mask_logprob res =
     rbind (item res ''sequences'') (\<lambda>sequences.
     rbind (if dget res ''prompt_logprobs'' = JNull then Inr []
            else rbind (items (dget res ''prompt_logprobs'')) (\<lambda>ps. Inr [(''prompt_logprobs'', JArr ps)])) (\<lambda>scored.
     rbind (if dget res ''topk_prompt_logprobs'' = JNull then Inr []
            else rbind (render_topk mask_logprob (dget res ''topk_prompt_logprobs'')) (\<lambda>t. Inr [(''topk_prompt_logprobs'', t)])) (\<lambda>ranked.
       Inr ([(''type'', JStr ''sample''), (''sequences'', sequences)] @ scored @ ranked))))"


section \<open>What the gateway gets from the decoder\<close>

definition user_errors_only :: "tinker_error + 'a \<Rightarrow> bool" where
  "user_errors_only r \<longleftrightarrow> (\<forall>e. r = Inl e \<longrightarrow> e = UserInputError)"

lemma user_errors_rbind: "user_errors_only m \<Longrightarrow> (\<And>x. m = Inr x \<Longrightarrow> user_errors_only (f x)) \<Longrightarrow> user_errors_only (rbind m f)"
  by (cases m) (auto simp: user_errors_only_def)

lemma user_errors_rmap: "(\<And>x. x \<in> set xs \<Longrightarrow> user_errors_only (f x)) \<Longrightarrow> user_errors_only (rmap f xs)"
  by (induction xs) (auto simp: user_errors_only_def rbind_Inl_iff)

lemma user_errors_base [simp]: "user_errors_only (Inr x)" "user_errors_only (require b)" "user_errors_only (Inl UserInputError)"
  by (auto simp: user_errors_only_def guard_def)

text \<open>A datum as the decoder builds it: the inputs and the last label, and a list for each loss input.\<close>

definition built :: "obj \<Rightarrow> bool" where
  "built d \<longleftrightarrow> (\<exists>xs ts. length xs = length ts \<and> dget d ''tokens'' = JArr (xs @ drop (length ts - 1) ts) \<and>
     dget d ''target_tokens'' = JArr ts \<and> dget d ''target_len'' = JInt (int (length ts))) \<and>
     (\<forall>k \<in> snd ` set LOSS_INPUT_KEYS. dget d k = JNull \<or> (\<exists>vs. dget d k = JArr vs))"

lemma dget_append: "dget (d @ e) k = (if dhas d k then dget d k else dget e k)"
  by (auto simp: dget_def dhas_def map_add_def split: option.splits)

lemma loss_field_shape:
  assumes "loss_field inputs key = Inr f"
  shows "f = [] \<or> (\<exists>fs. f = [(snd key, JArr fs)])"
  using assms by (auto simp: loss_field_def result_simps split: option.splits)

lemma build_datum_built:
  assumes "build_datum xs inputs = Inr d"
  shows "built d"
proof -
  obtain ts losses where r: "length ts = length xs" "rmap (loss_field inputs) LOSS_INPUT_KEYS = Inr losses"
    and d: "d = [(''tokens'', JArr (xs @ drop (length ts - 1) ts)), (''target_len'', JInt (int (length ts))), (''target_tokens'', JArr ts)] @ concat losses"
    using assms by (auto simp: build_datum_def result_simps)
  obtain a b c where l: "losses = [a, b, c]" "loss_field inputs (''weights'', ''weights'') = Inr a"
    "loss_field inputs (''advantages'', ''advantages'') = Inr b" "loss_field inputs (''logprobs'', ''sampling_logprobs'') = Inr c"
    using r(2) by (auto simp: LOSS_INPUT_KEYS_def result_simps)
  show ?thesis using loss_field_shape[OF l(2)] loss_field_shape[OF l(3)] loss_field_shape[OF l(4)] r(1)
    unfolding built_def d l(1) by (auto simp: dget_Cons LOSS_INPUT_KEYS_def)
qed

lemma validate_built:
  assumes d: "built d" and loss: "map_of LOSS_FN_INPUTS l = Some required"
  shows "user_errors_only (validate_datum config required d)"
proof -
  obtain xs ts where b: "dget d ''tokens'' = JArr (xs @ drop (length ts - 1) ts)" "dget d ''target_tokens'' = JArr ts" "dget d ''target_len'' = JInt (int (length ts))"
    using d by (auto simp: built_def)
  note it = item_of_dget[OF b(1)] item_of_dget[OF b(2)] item_of_dget[OF b(3)]
  have wires: "the (map_of LOSS_INPUT_KEYS w) \<in> snd ` set LOSS_INPUT_KEYS" if "w \<in> set required" for w
    by (rule required_cases[OF loss]) (use that in \<open>auto simp: LOSS_INPUT_KEYS_def\<close>)
  have field: "user_errors_only (case dget d k of JNull \<Rightarrow> Inl UserInputError
      | v \<Rightarrow> rbind (items v) (\<lambda>values. rbind (item d ''target_len'') (\<lambda>n. require (py_eq n (JInt (int (length values)))))))"
    if "k \<in> snd ` set LOSS_INPUT_KEYS" for k
  proof -
    have "dget d k = JNull \<or> (\<exists>vs. dget d k = JArr vs)" using d that by (auto simp: built_def)
    then show ?thesis using it by auto
  qed
  show ?thesis unfolding validate_datum_def using it
    by (auto intro!: user_errors_rbind user_errors_rmap field wires simp: validate_token_ids_def)
qed

text \<open>Numbers a double can hold.\<close>

definition finite_config :: "json \<Rightarrow> bool" where
  "finite_config c \<longleftrightarrow> (\<forall>k \<in> fst ` set (as_obj c). user_errors_only (require_finite (dget (as_obj c) k)))"

lemma validate_loss_config_user_errors:
  assumes "finite_config c"
  shows "user_errors_only (validate_loss_config l c)"
proof (cases c)
  case (JObj d)
  have "user_errors_only (if dhas d k then require_finite (dget d k) else Inr ())" for k
  proof (cases "dhas d k")
    case True
    then have "k \<in> fst ` set d" by (auto simp: dhas_def dest: map_of_SomeD intro: rev_image_eqI)
    then show ?thesis using assms JObj True unfolding finite_config_def by simp blast
  qed simp
  then show ?thesis using JObj by (auto simp: validate_loss_config_def intro!: user_errors_rbind user_errors_rmap)
qed (auto simp: validate_loss_config_def)

text \<open>A loss that can be looked up.\<close>

definition hashable :: "json \<Rightarrow> bool" where
  "hashable v \<longleftrightarrow> \<not> is_array v \<and> \<not> is_obj v"

lemma validate_built_batch:
  assumes "dget p ''datums'' = JArr (map JObj ds)" "list_all built ds" "item p ''loss_fn'' = Inr loss" "hashable loss"
    "finite_config (dget p ''loss_fn_config'')"
  shows "user_errors_only (validate_batch_payload op p cfg)"
proof -
  have it: "item p ''datums'' = Inr (JArr (map JObj ds))" by (rule item_of_dget[OF assms(1)]) simp
  have "user_errors_only (rmap (\<lambda>d. case d of JObj datum \<Rightarrow> validate_datum cfg required datum | _ \<Rightarrow> Inl (Tinker_Raised TypeError)) (map JObj ds))"
    if "map_of LOSS_FN_INPUTS l = Some required" for l required
    using assms(2) validate_built[OF _ that] by (intro user_errors_rmap) (auto simp: list_all_iff)
  then show ?thesis using assms(3,4) validate_loss_config_user_errors[OF assms(5)] unfolding validate_batch_payload_def
    by (cases loss) (auto simp: it hashable_def intro!: user_errors_rbind split: option.split)
qed

lemma decode_batch_spec:
  assumes "decode_batch payload = Inr content"
  shows "\<exists>ds loss config. content = [(''datums'', JArr (map JObj ds)), (''loss_fn'', loss), (''loss_fn_config'', config)] \<and> list_all built ds"
proof -
  obtain decoded ds loss config where d: "rmap (\<lambda>(tokens, inputs). build_datum tokens inputs) decoded = Inr ds"
    and f: "content = [(''datums'', JArr (map JObj ds)), (''loss_fn'', loss), (''loss_fn_config'', config)]"
    using assms by (auto simp: decode_batch_def result_simps Let_def)
  have "built (ds ! i)" if "i < length ds" for i
    using d that by (cases "decoded ! i") (auto simp: rmap_Inr_iff list_all2_conv_all_nth intro!: build_datum_built)
  then have "list_all built ds" by (simp add: list_all_length)
  then show ?thesis using f by blast
qed



definition demo_batch_body :: obj where
  "demo_batch_body = [(''model_id'', JStr ''m''), (''seq_id'', JInt 1), (''forward_only'', JBool True), (''forward_backward_input'', JObj [
     (''data'', JArr [JObj [(''model_input'', JObj [(''chunks'', JArr [JObj [(''type'', JStr ''encoded_text''), (''tokens'', JArr [JInt 1, JInt 2])]])]),
       (''loss_fn_inputs'', JObj [(''target_tokens'', JArr [JInt 2, JInt 3]),
         (''weights'', JObj [(''shape'', JArr [JInt 2]), (''sparse_crow_indices'', JArr [JInt 0, JInt 1]),
            (''sparse_col_indices'', JArr [JInt (- 1)]), (''data'', JArr [JInt 1])])])]]), (''loss_fn'', JStr ''cross_entropy'')])]"



section \<open>Candidates survive the padding\<close>

text \<open>An engine's candidates for one position, and how they are rendered: the first \<open>k\<close> but the mark.\<close>

definition position_items :: "json \<Rightarrow> tinker_error + json list" where
  "position_items position = (if truthy position then items position else Inr [])"

definition scored :: "json \<Rightarrow> tinker_error + json \<times> json" where
  "scored e = rbind (nth_item e 1) (\<lambda>token_id. rbind (rbind (nth_item e 0) as_float) (\<lambda>logprob. Inr (token_id, logprob)))"

definition is_mark :: "json \<Rightarrow> json \<times> json \<Rightarrow> bool" where
  "is_mark mask_logprob c \<longleftrightarrow> py_eq (fst c) (JInt 0) \<and> py_eq (snd c) mask_logprob"

definition rendered :: "json \<Rightarrow> nat \<Rightarrow> (json \<times> json) list \<Rightarrow> json" where
  "rendered mask_logprob k cs = (let kept = filter (\<lambda>c. \<not> is_mark mask_logprob c) (take k cs)
     in if kept = [] then JNull else JArr (map (\<lambda>(token_id, logprob). JArr [token_id, logprob]) kept))"

lemma zip_fit_to:
  assumes "length xs = length ys"
  shows "zip (fit_to k a xs) (fit_to k b ys) = fit_to k (a, b) (zip xs ys)"
  using assms by (simp add: fit_to_def zip_append take_zip min_def)

lemma filter_fit_to: "\<not> P fill \<Longrightarrow> filter P (fit_to k fill xs) = filter P (take k xs)"
  by (simp add: fit_to_def)

lemma rmap_pair:
  assumes "rmap f xs = Inr as" "rmap g xs = Inr bs"
  shows "rmap (\<lambda>x. rbind (f x) (\<lambda>a. rbind (g x) (\<lambda>b. Inr (a, b)))) xs = Inr (zip as bs)"
  using assms by (induction xs arbitrary: as bs) (auto simp: result_simps)

lemma position_roundtrip:
  assumes "topk_position mask_logprob k position = Inr row"
  shows "\<exists>es cs. position_items position = Inr es \<and> rmap scored es = Inr cs \<and>
    render_position mask_logprob (JArr (fst row), JArr (snd row)) = Inr (rendered mask_logprob k cs)"
proof -
  obtain es ids ps where p: "position_items position = Inr es" "rmap (\<lambda>e. nth_item e 1) es = Inr ids"
    "rmap (\<lambda>e. rbind (nth_item e 0) as_float) es = Inr ps" "row = (fit_to k (JInt 0) ids, fit_to k mask_logprob ps)"
    using assms unfolding topk_position_def position_items_def[symmetric] by (auto simp: result_simps)
  have cs: "rmap scored es = Inr (zip ids ps)" unfolding scored_def by (rule rmap_pair[OF p(2,3)])
  have "length ids = length ps" using p(2,3) by (simp add: rmap_length)
  then have z: "zip (fst row) (snd row) = fit_to k (JInt 0, mask_logprob) (zip ids ps)" using p(4) by (simp add: zip_fit_to)
  have kept: "filter (\<lambda>(token_id, logprob). \<not> (py_eq token_id (JInt 0) \<and> py_eq logprob mask_logprob)) (zip (fst row) (snd row)) =
      filter (\<lambda>c. \<not> is_mark mask_logprob c) (take k (zip ids ps))"
    unfolding z by (subst filter_fit_to) (simp_all add: is_mark_def split_def)
  have "length (fst row) = length (snd row)" using p(4) by simp
  then have "render_position mask_logprob (JArr (fst row), JArr (snd row)) = Inr (rendered mask_logprob k (zip ids ps))"
    using kept by (simp add: render_position_def rendered_def Let_def)
  then show ?thesis using p(1) cs by blast
qed

text \<open>
  C17. The padding of the candidates is invisible.  The gateway stores the scored candidates of every prompt
  position cut or filled to the width that was asked for, with token 0 at the mask's log-probability as the
  filler; rendered to JSON, each position gets exactly the first of the engine's candidates, in order, up to
  the width, or null when there are none.  A candidate that equals the filler is the one that is lost.
\<close>

theorem prompt_candidates_roundtrip:
  assumes "topk_prompt_logprobs mask_logprob response k = Inr rows"
  shows "\<exists>positions out. rbind (meta_field response ''input_top_logprobs'') items = Inr positions \<and>
    render_topk mask_logprob (topk_obj rows) = Inr (JArr out) \<and>
    list_all2 (\<lambda>position shown. \<exists>es cs. position_items position = Inr es \<and> rmap scored es = Inr cs \<and> shown = rendered mask_logprob k cs) positions out"
proof -
  obtain positions where pos: "rbind (meta_field response ''input_top_logprobs'') items = Inr positions"
    and rows: "rmap (topk_position mask_logprob k) positions = Inr rows"
    using assms by (auto simp: topk_prompt_logprobs_def rbind_Inr_iff)
  let ?row = "\<lambda>r. (JArr (fst r), JArr (snd r))"
  have "\<exists>out. rmap (render_position mask_logprob) (map ?row rows) = Inr out \<and> list_all2 (\<lambda>position shown. \<exists>es cs. position_items position = Inr es \<and>
      rmap scored es = Inr cs \<and> shown = rendered mask_logprob k cs) positions out"
    using rows
  proof (induction positions arbitrary: rows)
    case (Cons p ps)
    then obtain r rs where r: "rows = r # rs" "topk_position mask_logprob k p = Inr r" "rmap (topk_position mask_logprob k) ps = Inr rs"
      by (auto simp: result_simps)
    obtain es cs where one: "position_items p = Inr es" "rmap scored es = Inr cs"
      "render_position mask_logprob (?row r) = Inr (rendered mask_logprob k cs)" using position_roundtrip[OF r(2)] by blast
    obtain out where rest: "rmap (render_position mask_logprob) (map ?row rs) = Inr out" "list_all2 (\<lambda>position shown. \<exists>es cs.
      position_items position = Inr es \<and> rmap scored es = Inr cs \<and> shown = rendered mask_logprob k cs) ps out" using Cons.IH[OF r(3)] by blast
    show ?case by (rule exI[of _ "rendered mask_logprob k cs # out"]) (use r(1) one rest in auto)
  qed simp
  then obtain out where out: "rmap (render_position mask_logprob) (map ?row rows) = Inr out" "list_all2 (\<lambda>position shown. \<exists>es cs.
    position_items position = Inr es \<and> rmap scored es = Inr cs \<and> shown = rendered mask_logprob k cs) positions out" by blast
  have "zip (map (\<lambda>r. JArr (fst r)) rows) (map (\<lambda>r. JArr (snd r)) rows) = map ?row rows" by (simp add: zip_map_map zip_same_conv_map)
  then have "render_topk mask_logprob (topk_obj rows) = Inr (JArr out)"
    using out(1) by (simp add: render_topk_def topk_obj_def item_def)
  then show ?thesis using pos out(2) by blast
qed

definition demo_scores :: json where
  "demo_scores = JObj [(''meta_info'', JObj [(''input_top_logprobs'', JArr [JNull, JArr [JArr [JFloat (- 1), JInt 4], JArr [JFloat (- 2), JInt 0],
     JArr [JFloat (- 3), JInt 9]], JArr [JArr [JFloat 0, JInt 8]]])])]"

theorem prompt_candidates_roundtrip_witness:
  "\<exists>rows. topk_prompt_logprobs (JFloat (- 99)) demo_scores 2 = Inr rows \<and> list_all (\<lambda>(ids, ps). length ids = 2) rows \<and>
     render_topk (JFloat (- 99)) (topk_obj rows) = Inr (JArr [JNull,
       JArr [JArr [JInt 4, JFloat (- 1)], JArr [JInt 0, JFloat (- 2)]], JArr [JArr [JInt 8, JFloat 0]]])"
proof -
  let ?m = "JFloat (- 99)"
  define rows where "rows = [([JInt 0, JInt 0], [?m, ?m]), ([JInt 4, JInt 0], [JFloat (- 1), JFloat (- 2)]), ([JInt 8, JInt 0], [JFloat 0, ?m])]"
  have t: "topk_prompt_logprobs ?m demo_scores 2 = Inr rows" unfolding rows_def by code_simp
  obtain positions out where pos: "rbind (meta_field demo_scores ''input_top_logprobs'') items = Inr positions"
    and o: "render_topk ?m (topk_obj rows) = Inr (JArr out)" and all: "list_all2 (\<lambda>position shown. \<exists>es cs. position_items position = Inr es \<and>
      rmap scored es = Inr cs \<and> shown = rendered ?m 2 cs) positions out" using prompt_candidates_roundtrip[OF t] by blast
  have "positions = [JNull, JArr [JArr [JFloat (- 1), JInt 4], JArr [JFloat (- 2), JInt 0], JArr [JFloat (- 3), JInt 9]], JArr [JArr [JFloat 0, JInt 8]]]"
    using pos by (simp add: demo_scores_def meta_field_def item_def)
  then have "out = [JNull, JArr [JArr [JInt 4, JFloat (- 1)], JArr [JInt 0, JFloat (- 2)]], JArr [JArr [JInt 8, JFloat 0]]]"
    using all by (auto simp: list_all2_Cons1 position_items_def scored_def rendered_def is_mark_def py_eq_def numeral_2_eq_2)
  then show ?thesis using t o by (auto simp: rows_def)
qed

end
