(* ===== verification/Spec2Isabelle.thy ===== *)
theory Spec2Isabelle
  imports Miles_Prelude Seqlen_Balancing Dp_Schedule Session_Linear Session_Tree Sampling_Mask Store_Plan Sample_Types Sample_Merge Session_Collect Data_Streams Adapter_Store Checkpoint_Machine Tinker_Loading Tinker_Backend Tinker_Sampling Tinker_Wire
begin

text \<open>
  Miles is a framework for reinforcement-learning post-training of language models: rollouts sample
  trajectories from inference engines, the samples are packed into training steps over data-parallel
  ranks, and a trainer updates the weights.  This development models the parts whose correctness is
  decided by ordinary code rather than by tensors: how samples are partitioned and scheduled, how
  multi-turn sessions keep tokens and messages consistent and become training samples, how replay data is
  planned and cut, where prompts come from and how their position survives a checkpoint, how adapters
  are committed to disk, and how the Tinker gateway orders the requests of many tenants on one trainer.

  \<^bold>\<open>Shared theories.\<close>  \<^verbatim>\<open>Miles_Prelude\<close> has Python's exceptions, the sequencing of fallible steps
  (\<^verbatim>\<open>rbind\<close>, \<^verbatim>\<open>rmap\<close>, \<^verbatim>\<open>rfold\<close>), dictionaries as association lists in insertion order, and the
  facts on lists and sums the components share.  \<^verbatim>\<open>Py_Json\<close> has the values that JSON bodies decode
  to and Python's truth and equality on them.

  \<^bold>\<open>Sequence packing\<close> (\<^verbatim>\<open>miles/utils/seqlen_balancing.py\<close>, \<^verbatim>\<open>miles/utils/dp_schedule.py\<close>).
  \<^verbatim>\<open>Seqlen_Balancing\<close> models the Karmarkar-Karp differencing over a heap (CPython's \<^verbatim>\<open>heapq\<close> is
  written out), greedy and first-fit packing and bin splitting; an interface locale for a priority
  queue is interpreted on the heap.  Its lemmas show that partitions are exact covers, that bins respect
  their cap and that splitting reaches the wanted number of bins.  \<^verbatim>\<open>Dp_Schedule\<close> models
  \<^verbatim>\<open>build_dp_schedule\<close>: every sample is trained exactly once, ranks run the same number of
  micro-batches, groups stay within a step.  A rank's loop has a measure, no fuel is used.

  \<^bold>\<open>Sessions\<close> (\<^verbatim>\<open>miles/rollout/session/\<close> with \<^verbatim>\<open>miles/utils/chat_template_utils/\<close>).
  \<^verbatim>\<open>Message_Matcher\<close> decides when a replayed message is a stored one, \<^verbatim>\<open>Tito_Tokenizer\<close> merges
  new messages into stored tokens, \<^verbatim>\<open>Request_Args\<close> prepares the engine's request,
  \<^verbatim>\<open>Session_Errors\<close> has the error classes, \<^verbatim>\<open>Session_Linear\<close> the linear trajectory with
  rollback and the chat path, and \<^verbatim>\<open>Session_Tree\<close> the append-only forest of the second version.
  The chat paths are step relations in which several requests of one session interleave at the code's
  awaits; the lemmas give the invariants of every reachable state, the deepest-checkpoint and
  deepest-attachment properties, and what concurrent requests can and cannot do to each other.
  Walking up the parents of a node takes as fuel the number of nodes, which the invariant shows to be
  enough.

  \<^bold>\<open>Replay data\<close>.  \<^verbatim>\<open>Sampling_Mask\<close> models \<^verbatim>\<open>miles/utils/sampling_mask.py\<close> and shows that the flat
  representation refines a list of rows; \<^verbatim>\<open>Store_Plan\<close> models \<^verbatim>\<open>miles/utils/output_store/plan.py\<close>:
  segments over stored objects refine lists of object rows under every edit of a sample, and
  materialization reads back those rows.

  \<^bold>\<open>Samples\<close> (\<^verbatim>\<open>miles/utils/types.py\<close>, \<^verbatim>\<open>miles/rollout/generate_utils/\<close>,
  \<^verbatim>\<open>miles/rollout/session/samples/merge.py\<close>).  \<^verbatim>\<open>Sample_Types\<close> has the training sample with its
  per-token columns and weight versions, its validation, stripping, resetting and dictionary form;
  \<^verbatim>\<open>Sample_Merge\<close> the merging of the turns of a conversation, with the proof that a merge is valid and
  trained on exactly the tokens of its turns; \<^verbatim>\<open>Session_Samples\<close> the way from a session's records to
  samples, and \<^verbatim>\<open>Session_Collect\<close> what it promises: samples follow the accumulated tokens, truncation
  stays within the budget, and the records of any session that \<^verbatim>\<open>Session_Linear\<close> can reach pass the
  alignment.

  \<^bold>\<open>Prompts\<close> (\<^verbatim>\<open>miles/rollout/data_source.py\<close>, \<^verbatim>\<open>miles/utils/data.py\<close>,
  \<^verbatim>\<open>miles/utils/rollout_data_config.py\<close>).  \<^verbatim>\<open>Data_Source\<close> has datasets, the single, buffered and mixed
  sources, their configuration and checkpoints.  The loop that takes prompts is a partial function whose
  result \<open>None\<close> is a loop that does not end.  \<^verbatim>\<open>Data_Streams\<close> states the interface \<open>epoch_stream\<close>
  (requests read one stream of permutations of the prompts), interprets it on both kinds of source, and
  proves that requests to a mix return, follow the weights and survive a checkpoint.

  \<^bold>\<open>Adapter checkpoints\<close> (\<^verbatim>\<open>miles/backends/training_utils/checkpoint/adapter/commit.py\<close>).
  \<^verbatim>\<open>Adapter_Commit\<close> has the directory of one checkpoint root and the operations on it as sequences of
  atomic steps, any of which may fail or be the last before a crash.  \<^verbatim>\<open>Step_Logic\<close> is the calculus for
  them: what holds of the result and of every directory on the way.  \<^verbatim>\<open>Commit_View\<close> is the abstract
  state, what each name stands for, with the well-formedness of a root; \<^verbatim>\<open>Commit_Safety\<close> follows every
  operation over it, and \<^verbatim>\<open>Adapter_Store\<close> has what callers rely on: commits are atomic, recovery is
  invisible and complete, and what is saved resolves, for its owner only.  A link is followed at most
  forty times, as the system does.  One committer at a time is assumed, as the root's lock ensures.

  \<^bold>\<open>The Tinker gateway\<close> (\<^verbatim>\<open>miles/tinker/core/\<close>).  \<^verbatim>\<open>Tinker_Types\<close> has the commands and the
  admission checks of \<^verbatim>\<open>input_validation.py\<close>; \<^verbatim>\<open>Tinker_Queue\<close> the queue of one model
  (\<^verbatim>\<open>model_queue.py\<close>), \<^verbatim>\<open>Tinker_Scheduler\<close> the packing of datums and barriers across models
  (\<^verbatim>\<open>scheduler.py\<close>), \<^verbatim>\<open>Tinker_Futures\<close> the results (\<^verbatim>\<open>future.py\<close>) with the locale of
  write-once entries, and \<^verbatim>\<open>Tinker_Service\<close> the operations of \<^verbatim>\<open>service.py\<close>.
  \<^verbatim>\<open>Tinker_Gateway\<close> states the invariant of the composed state and its preservation by settling and
  closing, \<^verbatim>\<open>Tinker_Dispatch\<close> that of selecting and completing a unit, and \<^verbatim>\<open>Tinker_Machine\<close> the
  step relation of all operations with the properties of its reachable states: no request is lost,
  slots are never shared, the dispatcher does not raise and drains the queues.  One step is the code
  between two awaits; what the backend, the checkpoint store and the clock answer are arguments of the
  step that waits for them.  The trainer lock is a field of the state that only the steps that hold it
  change; a slot whose model is closed waits in the field \<^verbatim>\<open>releasing\<close> until the backend has answered.
  Identifiers are numbers drawn from a counter, which stands for the random ones.

  \<^bold>\<open>Checkpoints of the gateway\<close> (\<^verbatim>\<open>miles/tinker/core/service.py\<close>, \<^verbatim>\<open>checkpoint_expiry.py\<close>, \<^verbatim>\<open>utils.py\<close>,
  \<^verbatim>\<open>miles/tinker/runtime.py\<close>).  \<^verbatim>\<open>Tinker_Paths\<close> has the names of checkpoints and the table of expiries with its
  file, which survives a restart; \<^verbatim>\<open>Tinker_Checkpoints\<close> the parts of the save, delete and download requests
  over the roots of \<^verbatim>\<open>Adapter_Commit\<close>; \<^verbatim>\<open>Checkpoint_Machine\<close> the step relation in which they interleave,
  fail, crash and restart, with the properties of its runs: a checkpoint goes only by right, a download URL
  serves the commit it was signed for and expires with it.  \<^verbatim>\<open>Tinker_Loading\<close> reads checkpoints back
  (with \<^verbatim>\<open>adapter/parametrization.py\<close>) and shows that the adapter names engines cache by are as fine as
  commits.

  \<^bold>\<open>Backend and wire of the gateway\<close> (\<^verbatim>\<open>miles/tinker/runtime.py\<close>, \<^verbatim>\<open>miles/tinker/server/encoding.py\<close>).
  \<^verbatim>\<open>Tinker_Backend\<close> pads a unit's datums to equal shares, builds the training data and collects the workers'
  outputs: each datum gets its own.  \<^verbatim>\<open>Tinker_Sampling\<close> builds the engines' requests and makes one answer of
  theirs, in the order of the samples whatever the order of arrival.  \<^verbatim>\<open>Tinker_Wire\<close> decodes commands and
  sampling requests and renders sampling results; it discharges the assumption of \<^verbatim>\<open>Tinker_Machine\<close> that
  commands are decoded, but for two payloads on which admission raises, and shows that the padding of prompt
  candidates is invisible to clients.  The SDK's request models, the workers and the engines are arguments.

  \<^bold>\<open>Not modelled\<close>.  Texts of errors and logs; floats are exact rationals; wall-clock times are
  arguments.  The loss of unsynced writes with the power, and a removal of retired directories that runs
  beside a commit.  The gateway's HTTP routes, its protobuf wire and the rendering of
  results other than samples, whose metrics are floating-point sums.  Kernels, tensor programs, the training backends, Ray
  orchestration, HTTP servers, dashboards, command-line declarations, deployment and CI are outside: they
  are numerics of floating point, third-party frameworks or plain input and output.  The tokenizer and
  its template engine, the engines, the trainer and the object store are parameters.
\<close>

end
